(* ===== verification/Prelude.thy ===== *)
theory Prelude
  imports Main "HOL-Library.Word" "HOL-Library.Monad_Syntax"
begin

text \<open>
  Shared vocabulary of the development: the C integer types at their widths, pointers as
  64-bit words, the collections of rewrite rules that the component theories feed, and the
  generic facts on words, lists and options that no component owns.

  Addresses are reasoned about as natural numbers: a pointer into the arena is written
  \<open>w64 a\<close>, so that pointer arithmetic is plain addition of naturals (\<open>w64\<close> is a ring
  homomorphism) and only comparisons need a bound \<open>a < 2 ^ 64\<close>.
\<close>

unbundle bit_operations_syntax

type_synonym u8 = "8 word"
type_synonym u32 = "32 word"
type_synonym u64 = "64 word"
type_synonym ptr = "64 word"

text \<open>Rules that move a statement about words to one about the naturals they stand for.\<close>

named_theorems word_nat

text \<open>Rules that compute what a memory access returns after a store.\<close>

named_theorems mem_simps

section \<open>Words as naturals\<close>

definition w64 :: "nat \<Rightarrow> u64" where "w64 n = of_nat n"

definition w32 :: "nat \<Rightarrow> u32" where "w32 n = of_nat n"

lemma unat_w64: "unat (w64 a) = a mod 2 ^ 64"
  by (simp add: w64_def unsigned_of_nat take_bit_eq_mod)

lemma unat_w32: "unat (w32 a) = a mod 2 ^ 32"
  by (simp add: w32_def unsigned_of_nat take_bit_eq_mod)

lemma unat_w64_small [word_nat]: "a < 2 ^ 64 \<Longrightarrow> unat (w64 a) = a"
  by (simp add: unat_w64)

lemma unat_w32_small [word_nat]: "a < 2 ^ 32 \<Longrightarrow> unat (w32 a) = a"
  by (simp add: unat_w32)

lemma unat_less64 [simp]: "unat (p :: u64) < 18446744073709551616"
  using unsigned_less [where w = p and 'a = nat] by simp

lemma w64_unat [simp]: "w64 (unat p) = p"
  by (simp add: w64_def)

lemma w32_unat [simp]: "w32 (unat p) = p"
  by (simp add: w32_def)

lemma w64_0 [simp]: "w64 0 = 0"
  by (simp add: w64_def)

lemma w64_numeral: "w64 (numeral k) = numeral k"
  by (simp add: w64_def)

lemma w64_plus [simp]:
  "w64 a + numeral k = w64 (a + numeral k)"
  "w64 a + 1 = w64 (a + 1)"
  "w64 a + w64 b = w64 (a + b)"
  by (simp_all add: w64_def)

lemma w64_minus [simp]:
  "numeral k \<le> a \<Longrightarrow> w64 a - numeral k = w64 (a - numeral k)"
  "b \<le> a \<Longrightarrow> w64 a - w64 b = w64 (a - b)"
  by (simp_all add: w64_def)

lemma w64_eq_iff [word_nat]: "a < 2 ^ 64 \<Longrightarrow> b < 2 ^ 64 \<Longrightarrow> w64 a = w64 b \<longleftrightarrow> a = b"
  by (metis unat_w64_small)

lemma w64_eq_0_iff [word_nat]: "a < 2 ^ 64 \<Longrightarrow> w64 a = 0 \<longleftrightarrow> a = 0"
  using w64_eq_iff [of a 0] by simp

lemma w64_less_iff [word_nat]: "a < 2 ^ 64 \<Longrightarrow> b < 2 ^ 64 \<Longrightarrow> w64 a < w64 b \<longleftrightarrow> a < b"
  by (simp add: word_less_nat_alt unat_w64_small)

lemma w64_le_iff [word_nat]: "a < 2 ^ 64 \<Longrightarrow> b < 2 ^ 64 \<Longrightarrow> w64 a \<le> w64 b \<longleftrightarrow> a \<le> b"
  by (simp add: word_le_nat_alt unat_w64_small)

lemma w32_eq_iff [word_nat]: "a < 2 ^ 32 \<Longrightarrow> b < 2 ^ 32 \<Longrightarrow> w32 a = w32 b \<longleftrightarrow> a = b"
  by (metis unat_w32_small)

lemma ucast_w32 [word_nat]: "a < 2 ^ 32 \<Longrightarrow> ucast (w32 a) = w64 a"
  by (rule word_unat_eq_iff [THEN iffD2])
    (simp add: unat_w32 unat_w64 unsigned_ucast_eq take_bit_nat_eq_self)

lemma unat_less32: "unat (c :: u32) < 2 ^ 32"
  using unsigned_less [where w = c and 'a = nat] by simp

lemma unat_ucast_u64 [simp]: "unat (ucast (c :: u32) :: u64) = unat c"
  using unat_less32 [of c] by (simp add: unsigned_ucast_eq take_bit_nat_eq_self)

lemma ucast_w64 [word_nat]: "ucast (w64 a) = w32 a"
  by (rule word_unat_eq_iff [THEN iffD2])
    (simp add: unat_w32 unat_w64 unsigned_ucast_eq take_bit_eq_mod mod_mod_cancel)

text \<open>The distance from one address to another, when neither range wraps.\<close>

lemma unat_diff_w64:
  assumes "a + k \<le> 2 ^ 64" and "b < 2 ^ 64"
  shows "unat (w64 b - w64 a) < k \<longleftrightarrow> a \<le> b \<and> b < a + k"
proof (cases "a \<le> b")
  case True
  then show ?thesis using assms by (auto simp: unat_w64)
next
  case False
  have "w64 b - w64 a = w64 (2 ^ 64 + b - a)"
    using False assms by (simp add: w64_def)
  moreover have "2 ^ 64 + b - a < 2 ^ 64" using False assms by simp
  ultimately have "unat (w64 b - w64 a) = 2 ^ 64 + b - a"
    by (simp only: unat_w64_small)
  then show ?thesis using False assms by simp
qed

section \<open>Alignment masks\<close>

text \<open>\<open>x & ~(2^k - 1)\<close> rounds down to a multiple of \<open>2^k\<close>. The rules are stated in
  the form \<open>- 16\<close>, to which the simplifier evaluates \<open>NOT 15\<close>.\<close>

lemma unat_and_not_mask:
  fixes x :: "'a::len word"
  assumes "k < LENGTH('a)"
  shows "unat (x AND NOT (mask k)) = unat x div 2 ^ k * 2 ^ k"
proof -
  have "x AND NOT (mask k) = push_bit k (drop_bit k x)"
    by (rule bit_word_eqI) (auto simp: bit_simps)
  then have "unat (x AND NOT (mask k)) = unat (push_bit k (drop_bit k x))" by simp
  also have "\<dots> = take_bit LENGTH('a) (push_bit k (drop_bit k (unat x)))"
    by (rule bit_eqI) (auto simp: bit_simps)
  also have "\<dots> = unat x div 2 ^ k * 2 ^ k"
  proof -
    have "unat x div 2 ^ k * 2 ^ k \<le> unat x" by simp
    then have "unat x div 2 ^ k * 2 ^ k < 2 ^ LENGTH('a)"
      using unsigned_less [of x] by (metis le_less_trans)
    then show ?thesis
      by (simp add: push_bit_eq_mult drop_bit_eq_div take_bit_nat_eq_self)
  qed
  finally show ?thesis .
qed

lemma unat_and_not15_64 [word_nat]: "unat ((x :: u64) AND - 16) = unat x div 16 * 16"
  using unat_and_not_mask [of 4 x] by (simp add: mask_eq_exp_minus_1)

lemma unat_and_not15_32 [word_nat]: "unat ((x :: u32) AND - 16) = unat x div 16 * 16"
  using unat_and_not_mask [of 4 x] by (simp add: mask_eq_exp_minus_1)

lemma unat_and_not1_32 [word_nat]: "unat ((x :: u32) AND - 2) = unat x div 2 * 2"
  using unat_and_not_mask [of 1 x] by (simp add: mask_eq_exp_minus_1)

lemma unat_and_1 [word_nat]: "unat ((x :: u32) AND 1) = unat x mod 2"
  by (simp add: and_one_eq unat_mod)

lemma even_unat: "even (unat (x :: 'a::len word)) \<longleftrightarrow> even x"
proof -
  have "bit (unat x) 0 \<longleftrightarrow> bit x 0" by (simp only: bit_unsigned_iff) simp
  then show ?thesis by (simp add: bit_0)
qed

lemma unat_or_1_32 [word_nat]: "even (unat (x :: u32)) \<Longrightarrow> unat (x OR 1) = unat x + 1"
proof -
  assume "even (unat x)"
  then have e: "x OR 1 = x + 1" by (simp add: or_one_eq even_unat)
  have "unat x \<noteq> 2 ^ 32 - 1"
  proof
    assume "unat x = 2 ^ 32 - 1"
    then have "odd (unat x)" by simp
    with \<open>even (unat x)\<close> show False by simp
  qed
  moreover have "unat x < 2 ^ LENGTH(32)" by (rule unsigned_less)
  ultimately have "unat x + 1 < 2 ^ 32" by simp
  then show ?thesis by (simp add: e unat_word_ariths)
qed

lemma unat_and_15_64 [word_nat]: "unat ((x :: u64) AND 15) = unat x mod 16"
proof -
  have "(15 :: u64) = mask 4" by (simp add: mask_eq_exp_minus_1)
  then have "x AND 15 = take_bit 4 x" by (simp add: take_bit_eq_mask)
  then show ?thesis by (simp add: take_bit_eq_mod unat_mod)
qed

text \<open>The chunk an allocation of \<open>s\<close> payload bytes occupies: eight bytes of tags, rounded up to 16.\<close>

definition chunk :: "nat \<Rightarrow> nat" where
  "chunk s = (s + 23) div 16 * 16"

lemma chunk_bounds: "s + 8 \<le> chunk s" "chunk s \<le> s + 23" "16 \<le> chunk s" "chunk s mod 16 = 0"
  by (simp_all add: chunk_def)

lemma need_eq: "unat sz < 2 ^ 63 \<Longrightarrow> ((sz :: u64) + 4 + 4 + 15) AND NOT 15 = w64 (chunk (unat sz))"
proof -
  assume sz: "unat sz < 2 ^ 63"
  have "unat (sz + 4 + 4 + 15) = unat sz + 23" using sz by (simp add: unat_word_ariths)
  then have "unat ((sz + 4 + 4 + 15) AND NOT 15) = chunk (unat sz)"
    by (simp add: unat_and_not15_64 chunk_def)
  moreover have "chunk (unat sz) < 2 ^ 64" using sz chunk_bounds(2) [of "unat sz"] by simp
  ultimately show ?thesis by (intro word_unat_eq_iff [THEN iffD2]) (simp add: unat_w64)
qed

section \<open>Options and lists\<close>

lemma those_map_Some:
  "(\<And>i. i \<in> set xs \<Longrightarrow> f i = Some (g i)) \<Longrightarrow> those (map f xs) = Some (map g xs)"
  by (induction xs) auto

lemma those_map_SomeD:
  "those (map f xs) = Some ys \<Longrightarrow> length ys = length xs \<and> (\<forall>i<length xs. f (xs ! i) = Some (ys ! i))"
proof (induction xs arbitrary: ys)
  case Nil
  then show ?case by simp
next
  case (Cons x xs)
  then obtain y ys' where "f x = Some y" and "those (map f xs) = Some ys'" and "ys = y # ys'"
    by (auto split: option.splits)
  with Cons.IH show ?case by (auto simp: nth_Cons split: nat.splits)
qed

lemma bind_eq_SomeE:
  assumes "Option.bind x f = Some y"
  obtains v where "x = Some v" and "f v = Some y"
  using assms by (cases x) auto

lemma set_remove_mid:
  assumes "distinct (xs @ a # ys)" and "set (xs @ a # ys) = insert a S" and "a \<notin> S"
  shows "set (xs @ ys) = S"
proof -
  have "set (xs @ ys) = set (xs @ a # ys) - {a}" using assms(1) by auto
  with assms(2,3) show ?thesis by simp
qed

section \<open>Signed arithmetic of C\<close>

text \<open>
  A result of \<open>int\<close> or \<open>long long\<close> arithmetic; overflow is undefined. A conversion to \<open>int\<close> of a value that
  does not fit wraps around, as gcc and clang define it.
\<close>

definition c_int :: "int \<Rightarrow> int option" where
  "c_int z = (if - (2 ^ 31) \<le> z \<and> z < 2 ^ 31 then Some z else None)"

definition c_llong :: "int \<Rightarrow> int option" where
  "c_llong z = (if - (2 ^ 63) \<le> z \<and> z < 2 ^ 63 then Some z else None)"

definition to_int :: "int \<Rightarrow> int" where
  "to_int z = (z + 2 ^ 31) mod 2 ^ 32 - 2 ^ 31"

end
