(* ===== verification/Memory.thy ===== *)
theory Memory
  imports Prelude
begin

text \<open>
  The process memory that the allocators share with their clients: a partial map from 64-bit
  addresses to bytes. An address outside every mapping holds nothing, and a load or a store
  that touches one is a fault, the value \<open>None\<close>. Words are stored little-endian, as the
  machine the repository targets does.
\<close>

type_synonym mem = "ptr \<Rightarrow> u8 option"

section \<open>Accesses\<close>

definition load_bytes :: "mem \<Rightarrow> ptr \<Rightarrow> nat \<Rightarrow> u8 list option" where
  "load_bytes m p n = those (map (\<lambda>i. m (p + w64 i)) [0..<n])"

definition store_bytes :: "mem \<Rightarrow> ptr \<Rightarrow> u8 list \<Rightarrow> mem option" where
  "store_bytes m p bs =
     (if list_all (\<lambda>i. m (p + w64 i) \<noteq> None) [0..<length bs]
      then Some (\<lambda>a. if unat (a - p) < length bs then Some (bs ! unat (a - p)) else m a)
      else None)"

primrec le_bytes :: "nat \<Rightarrow> 'a::len word \<Rightarrow> u8 list" where
  "le_bytes 0 v = []"
| "le_bytes (Suc n) v = ucast v # le_bytes n (drop_bit 8 v)"

primrec le_word :: "u8 list \<Rightarrow> 'a::len word" where
  "le_word [] = 0"
| "le_word (b # bs) = ucast b OR push_bit 8 (le_word bs)"

definition load32 :: "mem \<Rightarrow> ptr \<Rightarrow> u32 option" where
  "load32 m p = map_option le_word (load_bytes m p 4)"

definition store32 :: "mem \<Rightarrow> ptr \<Rightarrow> u32 \<Rightarrow> mem option" where
  "store32 m p v = store_bytes m p (le_bytes 4 v)"

definition load64 :: "mem \<Rightarrow> ptr \<Rightarrow> u64 option" where
  "load64 m p = map_option le_word (load_bytes m p 8)"

definition store64 :: "mem \<Rightarrow> ptr \<Rightarrow> u64 \<Rightarrow> mem option" where
  "store64 m p v = store_bytes m p (le_bytes 8 v)"

text \<open>The C library's \<open>memset\<close> and \<open>memcpy\<close>, which may fault like any other access.\<close>

definition memset :: "mem \<Rightarrow> ptr \<Rightarrow> u8 \<Rightarrow> u64 \<Rightarrow> mem option" where
  "memset m p c n = store_bytes m p (replicate (unat n) c)"

definition memcpy :: "mem \<Rightarrow> ptr \<Rightarrow> ptr \<Rightarrow> u64 \<Rightarrow> mem option" where
  "memcpy m d s n = do { bs \<leftarrow> load_bytes m s (unat n); store_bytes m d bs }"

text \<open>A fresh anonymous mapping of \<open>len\<close> zero bytes at \<open>p\<close>.\<close>

definition map_region :: "mem \<Rightarrow> ptr \<Rightarrow> u64 \<Rightarrow> mem" where
  "map_region m p len = (\<lambda>a. if a - p < len then Some 0 else m a)"

section \<open>Ranges of addresses\<close>

definition mapped :: "mem \<Rightarrow> nat \<Rightarrow> nat \<Rightarrow> bool" where
  "mapped m a n \<longleftrightarrow> (\<forall>b. a \<le> b \<and> b < a + n \<longrightarrow> m (w64 b) \<noteq> None)"

text \<open>\<open>m'\<close> differs from \<open>m\<close> at most at the addresses of \<open>A\<close>, and maps the same addresses.\<close>

definition frame :: "mem \<Rightarrow> mem \<Rightarrow> nat set \<Rightarrow> bool" where
  "frame m m' A \<longleftrightarrow> dom m' = dom m \<and> (\<forall>b < 2 ^ 64. b \<notin> A \<longrightarrow> m' (w64 b) = m (w64 b))"

text \<open>The bytes from \<open>a\<close> on are \<open>bs\<close>.\<close>

definition bytes_at :: "mem \<Rightarrow> nat \<Rightarrow> u8 list \<Rightarrow> bool" where
  "bytes_at m a bs \<longleftrightarrow> (\<forall>i < length bs. m (w64 (a + i)) = Some (bs ! i))"

lemma mapped_mono: "mapped m a n \<Longrightarrow> a \<le> b \<Longrightarrow> b + k \<le> a + n \<Longrightarrow> mapped m b k"
  by (auto simp: mapped_def)

lemma mapped_frame: "frame m m' A \<Longrightarrow> mapped m a n \<Longrightarrow> mapped m' a n"
  unfolding frame_def mapped_def by (metis domIff)

lemma frame_refl [simp, intro]: "frame m m A"
  by (simp add: frame_def)

lemma frame_trans [trans]: "frame m m' A \<Longrightarrow> frame m' m'' A \<Longrightarrow> frame m m'' A"
  by (simp add: frame_def)

lemma frame_weaken: "frame m m' A \<Longrightarrow> A \<subseteq> B \<Longrightarrow> frame m m' B"
  by (auto simp: frame_def)

lemma frame_trans_Un: "frame m m' A \<Longrightarrow> frame m' m'' B \<Longrightarrow> frame m m'' (A \<union> B)"
  by (simp add: frame_def)

lemma frame_empty: "frame m m' {} \<Longrightarrow> m' = m"
proof
  fix p :: ptr assume "frame m m' {}"
  moreover have "unat p < 2 ^ 64" by simp
  ultimately have "m' (w64 (unat p)) = m (w64 (unat p))" unfolding frame_def by blast
  then show "m' p = m p" by simp
qed

lemma bytes_at_frame:
  assumes "frame m m' A" and "bytes_at m a bs" and "a + length bs \<le> 2 ^ 64"
    and "{a ..< a + length bs} \<inter> A = {}"
  shows "bytes_at m' a bs"
  unfolding bytes_at_def
proof (intro allI impI)
  fix i assume i: "i < length bs"
  then have "a + i \<in> {a ..< a + length bs}" by simp
  then have "a + i < 2 ^ 64" and "a + i \<notin> A"
    using assms(3,4) by (auto simp del: atLeastLessThan_iff) simp
  then show "m' (w64 (a + i)) = Some (bs ! i)"
    using assms(1,2) i unfolding frame_def bytes_at_def by metis
qed

section \<open>Loads and stores of byte strings\<close>

lemma load_bytes_iff: "load_bytes m (w64 a) (length bs) = Some bs \<longleftrightarrow> bytes_at m a bs"
proof
  assume "load_bytes m (w64 a) (length bs) = Some bs"
  then show "bytes_at m a bs"
    by (auto simp: load_bytes_def bytes_at_def dest!: those_map_SomeD)
next
  assume "bytes_at m a bs"
  then have "load_bytes m (w64 a) (length bs) = Some (map ((!) bs) [0..<length bs])"
    unfolding load_bytes_def by (intro those_map_Some) (simp add: bytes_at_def)
  then show "load_bytes m (w64 a) (length bs) = Some bs" by (simp add: map_nth)
qed

lemma load_bytes_SomeD:
  assumes "load_bytes m (w64 a) n = Some bs"
  shows "length bs = n \<and> bytes_at m a bs"
proof -
  have "length bs = n"
    using assms those_map_SomeD [of _ "[0..<n]" bs] by (simp add: load_bytes_def)
  with assms show ?thesis using load_bytes_iff [of m a bs] by simp
qed

lemma load_bytes_mapped:
  assumes "mapped m a n"
  obtains bs where "load_bytes m (w64 a) n = Some bs" and "length bs = n"
proof -
  have "load_bytes m (w64 a) n = Some (map (\<lambda>i. the (m (w64 (a + i)))) [0..<n])"
    unfolding load_bytes_def
    using assms by (intro those_map_Some) (auto simp: mapped_def)
  then show ?thesis using that load_bytes_SomeD by blast
qed

lemma store_bytes_mapped:
  assumes "mapped m a (length bs)" and "a + length bs \<le> 2 ^ 64"
  obtains m' where "store_bytes m (w64 a) bs = Some m'"
    and "bytes_at m' a bs" and "frame m m' {a ..< a + length bs}"
proof -
  define m' where
    "m' = (\<lambda>x. if unat (x - w64 a) < length bs then Some (bs ! unat (x - w64 a)) else m x)"
  have ok: "store_bytes m (w64 a) bs = Some m'"
    using assms(1) by (auto simp: store_bytes_def m'_def list_all_iff mapped_def)
  have m'_eq: "m' (w64 b) = (if a \<le> b \<and> b < a + length bs then Some (bs ! (b - a)) else m (w64 b))"
    if "b < 2 ^ 64" for b
  proof (cases "a \<le> b \<and> b < a + length bs")
    case True
    then have "unat (w64 b - w64 a) = b - a"
      using that by (simp add: unat_w64)
    then show ?thesis using True unfolding m'_def by auto
  next
    case False
    then show ?thesis
      using that assms(2) unfolding m'_def by (simp only: unat_diff_w64 if_False)
  qed
  have dom: "dom m' = dom m"
  proof -
    have "m' x = None \<longleftrightarrow> m x = None" for x
    proof -
      have "m' (w64 (unat x)) = None \<longleftrightarrow> m (w64 (unat x)) = None"
        using assms(1) unsigned_less [of x] by (subst m'_eq) (auto simp: mapped_def)
      then show ?thesis by simp
    qed
    then show ?thesis by (auto simp: dom_def)
  qed
  have "bytes_at m' a bs"
    unfolding bytes_at_def using assms(2) by (auto simp: m'_eq )
  moreover have "frame m m' {a ..< a + length bs}"
    unfolding frame_def using dom by (auto simp: m'_eq)
  ultimately show ?thesis using that ok by blast
qed

section \<open>Words in memory\<close>

lemma length_le_bytes [simp]: "length (le_bytes n v) = n"
  by (induction n arbitrary: v) auto

lemma le_word_le_bytes: "le_word (le_bytes n (v :: 'a::len word)) = take_bit (8 * n) v"
proof (induction n arbitrary: v)
  case 0
  then show ?case by simp
next
  case (Suc n)
  have "ucast (ucast v :: u8) OR push_bit 8 (take_bit (8 * n) (drop_bit 8 v)) = take_bit (8 * Suc n) v"
    by (rule bit_word_eqI) (auto simp: bit_simps)
  with Suc show ?case by simp
qed

lemma bit_le_word: "bit (le_word bs :: 'a::len word) n \<Longrightarrow> n < 8 * length bs"
proof (induction bs arbitrary: n)
  case (Cons b bs)
  then consider "bit b n" | "8 \<le> n" "bit (le_word bs :: 'a word) (n - 8)" by (auto simp: bit_simps)
  then show ?case using Cons.IH [of "n - 8"] by cases (auto dest: bit_imp_le_length)
qed simp

lemma le_bytes_le_word:
  "8 * length bs \<le> LENGTH('a) \<Longrightarrow> le_bytes (length bs) (le_word bs :: 'a::len word) = bs"
proof (induction bs)
  case (Cons b bs)
  have "ucast (ucast b OR push_bit 8 (le_word bs :: 'a word)) = b"
    using Cons.prems by (intro bit_word_eqI) (auto simp: bit_simps)
  moreover have "drop_bit 8 (ucast b OR push_bit 8 (le_word bs :: 'a word)) = le_word bs"
    using Cons.prems by (intro bit_word_eqI) (auto simp: bit_simps dest: bit_imp_le_length bit_le_word)
  ultimately show ?case using Cons by simp
qed simp

text \<open>\<open>word32_at m a v\<close> and \<open>word64_at m a v\<close>: the word \<open>v\<close> is stored at \<open>a\<close>.\<close>

definition word32_at :: "mem \<Rightarrow> nat \<Rightarrow> u32 \<Rightarrow> bool" where
  "word32_at m a v \<longleftrightarrow> load32 m (w64 a) = Some v"

definition word64_at :: "mem \<Rightarrow> nat \<Rightarrow> u64 \<Rightarrow> bool" where
  "word64_at m a v \<longleftrightarrow> load64 m (w64 a) = Some v"

lemma word32_atD [mem_simps]: "word32_at m a v \<Longrightarrow> load32 m (w64 a) = Some v"
  by (simp add: word32_at_def)

lemma word64_atD [mem_simps]: "word64_at m a v \<Longrightarrow> load64 m (w64 a) = Some v"
  by (simp add: word64_at_def)

lemma word32_at_unique: "word32_at m a v \<Longrightarrow> word32_at m a w \<Longrightarrow> v = w"
  by (simp add: word32_at_def)

lemma word32_at_frame:
  assumes "frame m m' A" and "word32_at m a v" and "a + 4 \<le> 2 ^ 64" and "{a ..< a + 4} \<inter> A = {}"
  shows "word32_at m' a v"
proof -
  obtain bs where bs: "load_bytes m (w64 a) 4 = Some bs" and v: "v = le_word bs"
    using assms(2) by (auto simp: word32_at_def load32_def)
  from bs have "length bs = 4" and "bytes_at m a bs" by (auto dest: load_bytes_SomeD)
  with assms have "load_bytes m' (w64 a) 4 = Some bs"
    using bytes_at_frame load_bytes_iff by metis
  with v show ?thesis by (simp add: word32_at_def load32_def)
qed

lemma word64_at_frame:
  assumes "frame m m' A" and "word64_at m a v" and "a + 8 \<le> 2 ^ 64" and "{a ..< a + 8} \<inter> A = {}"
  shows "word64_at m' a v"
proof -
  obtain bs where bs: "load_bytes m (w64 a) 8 = Some bs" and v: "v = le_word bs"
    using assms(2) by (auto simp: word64_at_def load64_def)
  from bs have "length bs = 8" and "bytes_at m a bs" by (auto dest: load_bytes_SomeD)
  with assms have "load_bytes m' (w64 a) 8 = Some bs"
    using bytes_at_frame load_bytes_iff by metis
  with v show ?thesis by (simp add: word64_at_def load64_def)
qed

lemma load32_mapped:
  assumes "mapped m a 4"
  obtains v where "word32_at m a v"
proof -
  obtain bs where "load_bytes m (w64 a) 4 = Some bs" using load_bytes_mapped [OF assms] by blast
  then have "word32_at m a (le_word bs)" by (simp add: word32_at_def load32_def)
  then show ?thesis by (rule that)
qed

lemma store32_mapped:
  assumes "mapped m a 4" and "a + 4 \<le> 2 ^ 64"
  obtains m' where "store32 m (w64 a) v = Some m'" and "word32_at m' a v"
    and "frame m m' {a ..< a + 4}"
proof -
  obtain m' where m': "store_bytes m (w64 a) (le_bytes 4 v) = Some m'"
    and b: "bytes_at m' a (le_bytes 4 v)" and f: "frame m m' {a ..< a + 4}"
    using store_bytes_mapped [of m a "le_bytes 4 v"] assms by auto
  from b have "load_bytes m' (w64 a) 4 = Some (le_bytes 4 v)"
    using load_bytes_iff [of m' a "le_bytes 4 v"] by simp
  then have "word32_at m' a v"
    by (simp only: word32_at_def load32_def option.map le_word_le_bytes) (simp add: take_bit_word_eq_self)
  with m' f show ?thesis using that by (simp add: store32_def)
qed

lemma store64_mapped:
  assumes "mapped m a 8" and "a + 8 \<le> 2 ^ 64"
  obtains m' where "store64 m (w64 a) v = Some m'" and "word64_at m' a v"
    and "frame m m' {a ..< a + 8}"
proof -
  obtain m' where m': "store_bytes m (w64 a) (le_bytes 8 v) = Some m'"
    and b: "bytes_at m' a (le_bytes 8 v)" and f: "frame m m' {a ..< a + 8}"
    using store_bytes_mapped [of m a "le_bytes 8 v"] assms by auto
  from b have "load_bytes m' (w64 a) 8 = Some (le_bytes 8 v)"
    using load_bytes_iff [of m' a "le_bytes 8 v"] by simp
  then have "word64_at m' a v"
    by (simp only: word64_at_def load64_def option.map le_word_le_bytes) (simp add: take_bit_word_eq_self)
  with m' f show ?thesis using that by (simp add: store64_def)
qed

lemma word64_at_mapped:
  assumes "word64_at m a v"
  shows "mapped m a 8"
proof -
  obtain bs where "load_bytes m (w64 a) 8 = Some bs" using assms by (auto simp: word64_at_def load64_def)
  then have l: "length bs = 8" and b: "bytes_at m a bs" by (auto dest: load_bytes_SomeD)
  show ?thesis
    unfolding mapped_def
  proof (intro allI impI)
    fix x assume "a \<le> x \<and> x < a + 8"
    then have "m (w64 (a + (x - a))) = Some (bs ! (x - a))"
      using b l unfolding bytes_at_def by (metis add_less_cancel_left le_add_diff_inverse)
    with \<open>a \<le> x \<and> x < a + 8\<close> show "m (w64 x) \<noteq> None" by simp
  qed
qed

text \<open>The link word of a free block lies behind its four-byte header.\<close>

lemma store_link_mapped:
  assumes "mapped m (h + 4) 8" and "h + 12 \<le> 2 ^ 64"
  obtains m' where "store64 m (w64 (h + 4)) v = Some m'" and "word64_at m' (h + 4) v"
    and "frame m m' {h + 4 ..< h + 12}"
proof -
  have e: "h + 4 + 8 = h + 12" by simp
  show ?thesis
    using store64_mapped [OF assms(1), of v] assms(2) that unfolding e by blast
qed

end
