(* ===== verification/Blocks.thy ===== *)
theory Blocks
  imports Memory
begin

text \<open>
  Boundary-tag blocks and linked free lists as they lie in memory. A heap is a run of adjacent
  blocks: a list of sizes and used flags, whose addresses follow from the address of the first.
  A block starts with a four-byte header and ends with a four-byte footer, both \<open>size | used\<close>;
  a free block keeps the link of its free list in the eight bytes after the header.

  The theory holds the ghost layout the allocators are proved against, the frame facts that say
  which stores keep it, and the linked-list predicate with its push, unlink and frame lemmas.
\<close>

section \<open>Tags\<close>

definition tag :: "nat \<Rightarrow> bool \<Rightarrow> u32" where
  "tag n u = w32 (n + (if u then 1 else 0))"

definition size16 :: "nat \<Rightarrow> bool" where
  "size16 n \<longleftrightarrow> 16 \<le> n \<and> n mod 16 = 0 \<and> n < 2 ^ 32"

lemma size16D: "size16 n \<Longrightarrow> 16 \<le> n" "size16 n \<Longrightarrow> n mod 16 = 0" "size16 n \<Longrightarrow> n < 2 ^ 32"
  by (simp_all add: size16_def)

lemma size16E:
  assumes "size16 n"
  obtains k where "n = 16 * k" and "1 \<le> k" and "k < 2 ^ 28"
proof -
  have "n = 16 * (n div 16)" and "1 \<le> n div 16" and "n div 16 < 2 ^ 28"
    using assms by (auto simp: size16_def)
  then show ?thesis by (rule that)
qed

lemma unat_tag: "size16 n \<Longrightarrow> unat (tag n u) = n + (if u then 1 else 0)"
  by (erule size16E) (simp add: tag_def unat_w32)

lemma tag_size [simp]: "size16 n \<Longrightarrow> tag n u AND - 16 = w32 n"
  by (rule word_unat_eq_iff [THEN iffD2])
    (auto simp: unat_and_not15_32 unat_tag unat_w32 elim!: size16E)

lemma tag_used [simp]: "size16 n \<Longrightarrow> tag n u AND 1 = (if u then 1 else 0)"
  by (rule word_unat_eq_iff [THEN iffD2])
    (auto simp: unat_and_1 unat_tag mod_Suc elim!: size16E)

lemma w32_or_1 [simp]: "size16 n \<Longrightarrow> w32 n OR 1 = tag n True"
  by (rule word_unat_eq_iff [THEN iffD2])
    (auto simp: unat_or_1_32 unat_tag unat_w32 elim!: size16E)

lemma ucast_or_1 [simp]: "size16 n \<Longrightarrow> (ucast (w64 n OR 1) :: u32) = tag n True"
proof -
  assume n: "size16 n"
  have "(ucast (w64 n OR 1) :: u32) = ucast (w64 n) OR 1"
    by (rule bit_word_eqI) (auto simp: bit_simps)
  with n show ?thesis by (simp add: ucast_w64)
qed

lemma tag_False: "tag n False = w32 n"
  by (simp add: tag_def)

lemma tag_clear [simp]: "size16 n \<Longrightarrow> tag n u AND - 2 = tag n False"
  by (rule word_unat_eq_iff [THEN iffD2]) (auto simp: unat_and_not1_32 unat_tag elim!: size16E)

section \<open>Runs of adjacent blocks\<close>

type_synonym blk = "nat \<times> bool"

definition szs :: "blk list \<Rightarrow> nat" where
  "szs bs = sum_list (map fst bs)"

fun hdrs :: "nat \<Rightarrow> blk list \<Rightarrow> (nat \<times> nat \<times> bool) list" where
  "hdrs a [] = []"
| "hdrs a ((n, u) # bs) = (a, n, u) # hdrs (a + n) bs"

lemma szs_simps [simp]:
  "szs [] = 0" "szs (b # bs) = fst b + szs bs" "szs (xs @ ys) = szs xs + szs ys"
  by (simp_all add: szs_def)

lemma hdrs_append [simp]: "hdrs a (xs @ ys) = hdrs a xs @ hdrs (a + szs xs) ys"
  by (induction a xs rule: hdrs.induct) (auto simp: add.assoc)

lemma hdrs_Cons [simp]: "hdrs a (b # bs) = (a, b) # hdrs (a + fst b) bs"
  by (cases b) simp

lemma hdrs_bounds: "(h, n, u) \<in> set (hdrs a bs) \<Longrightarrow> a \<le> h \<and> h + n \<le> a + szs bs"
  by (induction a bs rule: hdrs.induct) fastforce+

lemma hdrs_split:
  assumes "(h, n, u) \<in> set (hdrs a bs)"
  obtains xs ys where "bs = xs @ (n, u) # ys" and "h = a + szs xs"
  using assms
proof (induction a bs arbitrary: thesis rule: hdrs.induct)
  case (1 a)
  then show ?case by simp
next
  case (2 a k v bs)
  show ?case
  proof (cases "(h, n, u) = (a, k, v)")
    case True
    then show ?thesis using "2.prems"(1) [of "[]"] by simp
  next
    case False
    then have "(h, n, u) \<in> set (hdrs (a + k) bs)" using "2.prems"(2) by auto
    then obtain xs ys where "bs = xs @ (n, u) # ys" and "h = a + k + szs xs"
      using "2.IH" by blast
    then show ?thesis using "2.prems"(1) [of "(k, v) # xs" ys] by simp
  qed
qed

definition sizes_ok :: "blk list \<Rightarrow> bool" where
  "sizes_ok bs \<longleftrightarrow> (\<forall>(n, u) \<in> set bs. size16 n)"

lemma sizes_ok_simps [simp]:
  "sizes_ok []" "sizes_ok (b # bs) \<longleftrightarrow> size16 (fst b) \<and> sizes_ok bs"
  "sizes_ok (xs @ ys) \<longleftrightarrow> sizes_ok xs \<and> sizes_ok ys"
  by (auto simp: sizes_ok_def)

lemma szs_mod16: "sizes_ok bs \<Longrightarrow> szs bs mod 16 = 0"
  by (induction bs) (auto simp: size16_def)

lemma hdrs_mod16: "sizes_ok bs \<Longrightarrow> (h, n, u) \<in> set (hdrs a bs) \<Longrightarrow> h mod 16 = a mod 16"
  by (erule hdrs_split) (auto simp: mod_add_right_eq [symmetric] szs_mod16)

lemma hdrs_size16: "sizes_ok bs \<Longrightarrow> (h, n, u) \<in> set (hdrs a bs) \<Longrightarrow> size16 n"
  by (erule hdrs_split) auto

lemma hdrs_disjoint:
  assumes "sizes_ok bs" and "(h, n, u) \<in> set (hdrs a bs)" and "(h', n', u') \<in> set (hdrs a bs)"
  shows "(h', n', u') = (h, n, u) \<or> h + n \<le> h' \<or> h' + n' \<le> h"
proof -
  obtain xs ys where bs: "bs = xs @ (n, u) # ys" and h: "h = a + szs xs"
    using assms(2) by (rule hdrs_split)
  from assms(3) bs consider "(h', n', u') \<in> set (hdrs a xs)" | "(h', n', u') = (h, n, u)"
    | "(h', n', u') \<in> set (hdrs (h + n) ys)"
    by (auto simp: h)
  then show ?thesis
  proof cases
    case 1
    with hdrs_bounds [of h' n' u' a xs] h show ?thesis by linarith
  next
    case 3
    with hdrs_bounds [of h' n' u' "h + n" ys] show ?thesis by linarith
  qed simp
qed

lemma hdrs_unique:
  assumes "sizes_ok bs" and "(h, n, u) \<in> set (hdrs a bs)" and "(h, n', u') \<in> set (hdrs a bs)"
  shows "n' = n \<and> u' = u"
  using hdrs_disjoint [OF assms] hdrs_size16 [OF assms(1,2)] hdrs_size16 [OF assms(1,3)]
  by (auto simp: size16_def)

text \<open>The addresses of the free blocks, and the interiors of the free and of the used ones.\<close>

definition free_hdrs :: "nat \<Rightarrow> blk list \<Rightarrow> nat set" where
  "free_hdrs a bs = {h. \<exists>n. (h, n, False) \<in> set (hdrs a bs)}"

definition interior :: "bool \<Rightarrow> nat \<Rightarrow> blk list \<Rightarrow> nat set" where
  "interior u a bs = {x. \<exists>h n. (h, n, u) \<in> set (hdrs a bs) \<and> h + 4 \<le> x \<and> x + 4 < h + n}"

lemma free_hdrs_Nil [simp]: "free_hdrs a [] = {}"
  by (simp add: free_hdrs_def)

lemma free_hdrs_Cons [simp]:
  "free_hdrs a (b # bs) = (if snd b then {} else {a}) \<union> free_hdrs (a + fst b) bs"
  by (cases b) (auto simp: free_hdrs_def)

lemma free_hdrs_append [simp]:
  "free_hdrs a (xs @ ys) = free_hdrs a xs \<union> free_hdrs (a + szs xs) ys"
  unfolding free_hdrs_def hdrs_append set_append by blast

lemma interior_Nil [simp]: "interior u a [] = {}"
  by (simp add: interior_def)

lemma interior_Cons [simp]:
  "interior u a (b # bs) =
     (if snd b = u then {x. a + 4 \<le> x \<and> x + 4 < a + fst b} else {}) \<union> interior u (a + fst b) bs"
  by (cases b) (auto simp: interior_def)

lemma interior_append [simp]:
  "interior u a (xs @ ys) = interior u a xs \<union> interior u (a + szs xs) ys"
  unfolding interior_def hdrs_append set_append by blast

lemma interiorE:
  assumes "x \<in> interior u a bs"
  obtains h n where "(h, n, u) \<in> set (hdrs a bs)" and "h + 4 \<le> x" and "x + 4 < h + n"
  using assms by (auto simp: interior_def)

lemma interior_bounds: "x \<in> interior u a bs \<Longrightarrow> a \<le> x \<and> x < a + szs bs"
  by (erule interiorE) (use hdrs_bounds in fastforce)

lemma free_hdrs_bounds:
  assumes "sizes_ok bs" and "h \<in> free_hdrs a bs"
  shows "a \<le> h \<and> h + 16 \<le> a + szs bs"
proof -
  obtain n where n: "(h, n, False) \<in> set (hdrs a bs)" using assms(2) by (auto simp: free_hdrs_def)
  then have "16 \<le> n" using hdrs_size16 [OF assms(1)] size16D by blast
  with hdrs_bounds [OF n] show ?thesis by simp
qed

section \<open>Blocks in memory\<close>

text \<open>
  A block at \<open>h\<close>: the header is the block's tag; the footer holds the same size. The footer of
  a used block is marked used. The footer of a free block may still be marked used: freeing a
  block clears the flag of its header only, unless the block is merged.
\<close>

definition blk_at :: "mem \<Rightarrow> nat \<Rightarrow> nat \<Rightarrow> bool \<Rightarrow> bool" where
  "blk_at m h n u \<longleftrightarrow> size16 n \<and> word32_at m h (tag n u) \<and>
     (word32_at m (h + n - 4) (tag n u) \<or> word32_at m (h + n - 4) (tag n True))"

definition layout :: "mem \<Rightarrow> nat \<Rightarrow> blk list \<Rightarrow> bool" where
  "layout m a bs \<longleftrightarrow> (\<forall>(h, n, u) \<in> set (hdrs a bs). blk_at m h n u)"

lemma layout_Nil [simp]: "layout m a []"
  by (simp add: layout_def)

lemma layout_Cons [simp]:
  "layout m a (b # bs) \<longleftrightarrow> blk_at m a (fst b) (snd b) \<and> layout m (a + fst b) bs"
  by (cases b) (simp add: layout_def)

lemma layout_append [simp]:
  "layout m a (xs @ ys) \<longleftrightarrow> layout m a xs \<and> layout m (a + szs xs) ys"
  by (simp add: layout_def ball_Un)

lemma layout_blk: "layout m a bs \<Longrightarrow> (h, n, u) \<in> set (hdrs a bs) \<Longrightarrow> blk_at m h n u"
  by (auto simp: layout_def)

lemma blk_at_size16: "blk_at m h n u \<Longrightarrow> size16 n"
  by (simp add: blk_at_def)

lemma layout_sizes_ok: "layout m a bs \<Longrightarrow> sizes_ok bs"
  by (induction bs arbitrary: a) (auto dest: blk_at_size16)

lemma blk_at_frame:
  assumes "frame m m' A" and "blk_at m h n u" and "h + n \<le> 2 ^ 64"
    and "\<And>x. x \<in> A \<Longrightarrow> x < h \<or> (h + 4 \<le> x \<and> x + 4 < h + n) \<or> h + n \<le> x"
  shows "blk_at m' h n u"
proof -
  have n: "size16 n" and 16: "16 \<le> n" using assms(2) by (auto simp: blk_at_def size16D)
  have "{h ..< h + 4} \<inter> A = {}" and d: "{h + n - 4 ..< h + n - 4 + 4} \<inter> A = {}"
    using assms(4) 16 by fastforce+
  then have hd: "word32_at m' h (tag n u)"
    using assms(1-3) 16 by (auto simp: blk_at_def intro: word32_at_frame)
  have "h + n - 4 + 4 \<le> 2 ^ 64" using assms(3) 16 by simp
  with hd n assms(2) word32_at_frame [OF assms(1) _ _ d] show ?thesis
    unfolding blk_at_def by blast
qed

lemma layout_frame:
  assumes "frame m m' A" and "layout m a bs" and "a + szs bs \<le> 2 ^ 64"
    and "\<And>x. x \<in> A \<Longrightarrow> x < a \<or> x \<in> interior True a bs \<or> x \<in> interior False a bs \<or> a + szs bs \<le> x"
  shows "layout m' a bs"
  unfolding layout_def
proof (clarify)
  fix h n u assume t: "(h, n, u) \<in> set (hdrs a bs)"
  have ok: "sizes_ok bs" using assms(2) by (rule layout_sizes_ok)
  have b: "a \<le> h" "h + n \<le> a + szs bs" using hdrs_bounds [OF t] by auto
  show "blk_at m' h n u"
  proof (rule blk_at_frame [OF assms(1) layout_blk [OF assms(2) t]])
    show "h + n \<le> 2 ^ 64" using b assms(3) by simp
    fix x assume "x \<in> A"
    then consider "x < a" | v where "x \<in> interior v a bs" | "a + szs bs \<le> x"
      using assms(4) by blast
    then show "x < h \<or> (h + 4 \<le> x \<and> x + 4 < h + n) \<or> h + n \<le> x"
    proof cases
      case 2
      then obtain h' n' where "(h', n', v) \<in> set (hdrs a bs)" "h' + 4 \<le> x" "x + 4 < h' + n'"
        by (rule interiorE)
      with hdrs_disjoint [OF ok t] show ?thesis by fastforce
    qed (use b in auto)
  qed
qed

lemma layout_frame_outside:
  assumes "frame m m' A" and "layout m a bs" and "a + szs bs \<le> 2 ^ 64"
    and "\<And>x. x \<in> A \<Longrightarrow> x < a \<or> a + szs bs \<le> x"
  shows "layout m' a bs"
  by (rule layout_frame [OF assms(1-3)]) (use assms(4) in blast)

section \<open>Linked free lists\<close>

text \<open>
  \<open>fpath m p as q\<close>: following the links from \<open>p\<close> visits the headers \<open>as\<close> and arrives at \<open>q\<close>.
  A free list is a path that ends in the null pointer.
\<close>

fun fpath :: "mem \<Rightarrow> ptr \<Rightarrow> nat list \<Rightarrow> ptr \<Rightarrow> bool" where
  "fpath m p [] q \<longleftrightarrow> p = q"
| "fpath m p (a # as) q \<longleftrightarrow>
     p = w64 a \<and> 0 < a \<and> a + 12 \<le> 2 ^ 64 \<and> (\<exists>r. word64_at m (a + 4) r \<and> fpath m r as q)"

abbreviation flist :: "mem \<Rightarrow> ptr \<Rightarrow> nat list \<Rightarrow> bool" where
  "flist m p as \<equiv> fpath m p as 0"

definition links :: "nat list \<Rightarrow> nat set" where
  "links as = {x. \<exists>a \<in> set as. a + 4 \<le> x \<and> x < a + 12}"

definition spread :: "nat list \<Rightarrow> bool" where
  "spread as \<longleftrightarrow> (\<forall>a \<in> set as. \<forall>b \<in> set as. a \<noteq> b \<longrightarrow> a + 16 \<le> b \<or> b + 16 \<le> a)"

lemma fpath_append: "fpath m p (xs @ ys) q \<longleftrightarrow> (\<exists>r. fpath m p xs r \<and> fpath m r ys q)"
  by (induction xs arbitrary: p) auto

lemma flist_null [simp]: "flist m 0 as \<longleftrightarrow> as = []"
  by (cases as) (auto simp: w64_eq_0_iff)

lemma flist_hd_null: "flist m p as \<Longrightarrow> p = 0 \<longleftrightarrow> as = []"
  by (cases as) (auto simp: w64_eq_0_iff)

lemma fpath_frame:
  assumes "frame m m' A" and "fpath m p as q" and "links as \<inter> A = {}"
  shows "fpath m' p as q"
  using assms(2,3)
proof (induction as arbitrary: p)
  case Nil
  then show ?case by simp
next
  case (Cons a as)
  then obtain r where r: "word64_at m (a + 4) r" "fpath m r as q" "p = w64 a" "0 < a" "a + 12 \<le> 2 ^ 64"
    by auto
  have sub: "links as \<subseteq> links (a # as)" and "{a + 4 ..< a + 4 + 8} \<subseteq> links (a # as)"
    by (auto simp: links_def)
  with Cons.prems(2) have l: "links as \<inter> A = {}" and "{a + 4 ..< a + 4 + 8} \<inter> A = {}" by blast+
  then have "word64_at m' (a + 4) r" using word64_at_frame [OF assms(1) r(1)] r(5) by simp
  with r Cons.IH [OF r(2) l] show ?case by auto
qed

lemma links_free_interior:
  assumes "sizes_ok bs" and "set as \<subseteq> free_hdrs a bs"
  shows "links as \<subseteq> interior False a bs"
proof
  fix x assume "x \<in> links as"
  then obtain h where h: "h \<in> set as" "h + 4 \<le> x" "x < h + 12" by (auto simp: links_def)
  then obtain n where n: "(h, n, False) \<in> set (hdrs a bs)" using assms(2) by (auto simp: free_hdrs_def)
  then have "16 \<le> n" using assms(1) hdrs_size16 size16D by blast
  with h n show "x \<in> interior False a bs" by (fastforce simp: interior_def)
qed

lemma spread_free_hdrs:
  assumes "sizes_ok bs" and "set as \<subseteq> free_hdrs a bs"
  shows "spread as"
  unfolding spread_def
proof (intro ballI impI)
  fix h h' assume "h \<in> set as" "h' \<in> set as" "h \<noteq> h'"
  then obtain n n' where n: "(h, n, False) \<in> set (hdrs a bs)" and n': "(h', n', False) \<in> set (hdrs a bs)"
    using assms(2) unfolding free_hdrs_def by blast
  have "16 \<le> n" "16 \<le> n'" using n n' assms(1) hdrs_size16 size16D by blast+
  with hdrs_disjoint [OF assms(1) n n'] \<open>h \<noteq> h'\<close> show "h + 16 \<le> h' \<or> h' + 16 \<le> h" by auto
qed

text \<open>Overwriting the link of the last node of a path redirects the path.\<close>

lemma fpath_redirect:
  assumes "fpath m p (xs @ [a]) q" and "spread (xs @ [a])" and "distinct (xs @ [a])"
    and "frame m m' {a + 4 ..< a + 12}" and "word64_at m' (a + 4) r"
  shows "fpath m' p (xs @ [a]) r"
proof -
  have "x + 16 \<le> a \<or> a + 16 \<le> x" if "x \<in> set xs" for x
    using that assms(2,3) by (auto simp: spread_def)
  then have "links xs \<inter> {a + 4 ..< a + 12} = {}" by (fastforce simp: links_def)
  moreover obtain s where "fpath m p xs s" "s = w64 a" "0 < a" "a + 12 \<le> 2 ^ 64"
    using assms(1) by (auto simp: fpath_append)
  ultimately have "fpath m' p xs s" using fpath_frame [OF assms(4)] by blast
  with assms(5) \<open>s = w64 a\<close> \<open>0 < a\<close> \<open>a + 12 \<le> 2 ^ 64\<close> show ?thesis by (auto simp: fpath_append)
qed

section \<open>Replacing blocks of a layout\<close>

lemma layout_replace:
  assumes lay: "layout m a (xs @ old @ ys)" and fr: "frame m m' A"
    and lim: "a + szs (xs @ old @ ys) \<le> 2 ^ 64"
    and A: "\<And>x. x \<in> A \<Longrightarrow> (a + szs xs \<le> x \<and> x < a + szs xs + szs old) \<or>
      x \<in> interior False a xs \<or> x \<in> interior False (a + szs xs + szs old) ys"
    and new: "layout m' (a + szs xs) new" and sz: "szs new = szs old"
  shows "layout m' a (xs @ new @ ys)"
proof -
  have "layout m' a xs"
  proof (rule layout_frame [OF fr])
    fix x assume "x \<in> A"
    then show "x < a \<or> x \<in> interior True a xs \<or> x \<in> interior False a xs \<or> a + szs xs \<le> x"
      using A [of x] interior_bounds [of x False "a + szs xs + szs old" ys] by auto
  qed (use lay lim in auto)
  moreover have "layout m' (a + szs xs + szs old) ys"
  proof (rule layout_frame [OF fr])
    fix x assume "x \<in> A"
    then show "x < a + szs xs + szs old \<or> x \<in> interior True (a + szs xs + szs old) ys \<or>
        x \<in> interior False (a + szs xs + szs old) ys \<or> a + szs xs + szs old + szs ys \<le> x"
      using A [of x] interior_bounds [of x False a xs] by auto
  qed (use lay lim in \<open>auto simp: add.assoc\<close>)
  ultimately show ?thesis using new sz by (simp add: add.assoc)
qed

lemma used_not_free:
  assumes "sizes_ok bs" and "x \<in> interior True a bs"
  shows "x \<notin> interior False a bs" and "(h, n, False) \<in> set (hdrs a bs) \<Longrightarrow> \<not> (h \<le> x \<and> x < h + n)"
proof -
  obtain h' n' where b: "(h', n', True) \<in> set (hdrs a bs)" "h' + 4 \<le> x" "x + 4 < h' + n'"
    using assms(2) by (rule interiorE)
  show nf: "\<not> (h \<le> x \<and> x < h + n)" if "(h, n, False) \<in> set (hdrs a bs)" for h n
    using hdrs_disjoint [OF assms(1) b(1) that] b by auto
  show "x \<notin> interior False a bs"
  proof
    assume "x \<in> interior False a bs"
    then obtain g k where "(g, k, False) \<in> set (hdrs a bs)" "g + 4 \<le> x" "x + 4 < g + k"
      by (rule interiorE)
    with nf [of g k] show False by simp
  qed
qed

lemma links_mono: "set xs \<subseteq> set ys \<Longrightarrow> links xs \<subseteq> links ys"
  by (auto simp: links_def)

lemma spread_mono: "spread ys \<Longrightarrow> set xs \<subseteq> set ys \<Longrightarrow> spread xs"
  unfolding spread_def by blast

lemma free_hdrs_mem: "(h, n, False) \<in> set (hdrs a bs) \<Longrightarrow> h \<in> free_hdrs a bs"
  by (auto simp: free_hdrs_def)

lemma not_free_before: "sizes_ok xs \<Longrightarrow> a + szs xs \<le> h \<Longrightarrow> h \<notin> free_hdrs a xs"
  using free_hdrs_bounds [of xs h a] by linarith

lemma not_free_after: "sizes_ok ys \<Longrightarrow> h < a \<Longrightarrow> h \<notin> free_hdrs a ys"
  using free_hdrs_bounds [of ys h a] by linarith

section \<open>The used blocks\<close>

definition used_blks :: "nat \<Rightarrow> blk list \<Rightarrow> (nat \<times> nat) set" where
  "used_blks a bs = {(h, n). (h, n, True) \<in> set (hdrs a bs)}"

lemma used_blks_Nil [simp]: "used_blks a [] = {}"
  by (simp add: used_blks_def)

lemma used_blks_Cons [simp]:
  "used_blks a (b # bs) = (if snd b then {(a, fst b)} else {}) \<union> used_blks (a + fst b) bs"
  by (cases b) (auto simp: used_blks_def)

lemma used_blks_append [simp]:
  "used_blks a (xs @ ys) = used_blks a xs \<union> used_blks (a + szs xs) ys"
  unfolding used_blks_def hdrs_append set_append by blast

lemma used_blks_bounds: "(h, n) \<in> used_blks a bs \<Longrightarrow> a \<le> h \<and> h + n \<le> a + szs bs"
  by (auto simp: used_blks_def dest: hdrs_bounds)

text \<open>\<open>keeps m m' S\<close>: the bytes at the addresses of \<open>S\<close> are the same in both memories.\<close>

definition keeps :: "mem \<Rightarrow> mem \<Rightarrow> nat set \<Rightarrow> bool" where
  "keeps m m' S \<longleftrightarrow> (\<forall>x \<in> S. m' (w64 x) = m (w64 x))"

lemma keeps_refl [simp]: "keeps m m S"
  by (simp add: keeps_def)

lemma keeps_empty [simp]: "keeps m m' {}"
  by (simp add: keeps_def)

lemma keeps_trans: "keeps m m' S \<Longrightarrow> keeps m' m'' S \<Longrightarrow> keeps m m'' S"
  by (simp add: keeps_def)

lemma keeps_mono: "keeps m m' S \<Longrightarrow> T \<subseteq> S \<Longrightarrow> keeps m m' T"
  by (auto simp: keeps_def)

lemma frame_keeps:
  assumes "frame m m' A" and "\<And>x. x \<in> S \<Longrightarrow> x < 2 ^ 64 \<and> x \<notin> A"
  shows "keeps m m' S"
  using assms by (auto simp: frame_def keeps_def)

text \<open>The payload of a block: what lies between its header and its footer.\<close>

definition payload_of :: "nat \<Rightarrow> nat \<Rightarrow> nat set" where
  "payload_of h n = {h + 4 ..< h + n - 4}"

lemma interior_used: "interior True a bs = (\<Union>(h, n) \<in> used_blks a bs. payload_of h n)"
  by (auto simp: interior_def used_blks_def payload_of_def) fastforce+

lemma used_minus:
  assumes "16 \<le> n" and h: "h = a + szs xs"
  shows "used_blks a (xs @ (n, True) # ys) - {(h, n)} = used_blks a xs \<union> used_blks (h + n) ys"
proof -
  have "(h, n) \<notin> used_blks a xs" "(h, n) \<notin> used_blks (h + n) ys"
    using used_blks_bounds [of h n a xs] used_blks_bounds [of h n "h + n" ys] assms by auto
  then show ?thesis by (auto simp: h)
qed

text \<open>Unlinking the successor of a node by writing the node's link word.\<close>

lemma flist_unlink:
  assumes fl: "flist m p (zs @ a # h # ys)" and sp: "spread (zs @ a # h # ys)" and di: "distinct (zs @ a # h # ys)"
  obtains q m' where "word64_at m (h + 4) q" and "store64 m (w64 (a + 4)) q = Some m'"
    and "flist m' p (zs @ a # ys)" and "frame m m' {a + 4 ..< a + 12}"
proof -
  obtain q where q: "word64_at m (h + 4) q" "flist m q ys" using fl by (auto simp: fpath_append)
  obtain r where path: "fpath m p (zs @ [a]) r" and a: "word64_at m (a + 4) r" "a + 12 \<le> 2 ^ 64"
    using fl by (auto simp: fpath_append)
  have "mapped m (a + 4) 8" using a(1) by (rule word64_at_mapped)
  from store_link_mapped [OF this a(2)]
  obtain m' where m': "store64 m (w64 (a + 4)) q = Some m'" "word64_at m' (a + 4) q"
    and fr: "frame m m' {a + 4 ..< a + 12}"
    by blast
  have "fpath m' p (zs @ [a]) q"
    by (rule fpath_redirect [OF path _ _ fr m'(2)]) (use sp di in \<open>auto intro: spread_mono\<close>)
  moreover have "flist m' q ys"
  proof (rule fpath_frame [OF fr q(2)])
    have "y + 16 \<le> a \<or> a + 16 \<le> y" if "y \<in> set ys" for y
      using that sp di by (auto simp: spread_def)
    then show "links ys \<inter> {a + 4 ..< a + 12} = {}" by (fastforce simp: links_def)
  qed
  ultimately have "flist m' p (zs @ a # ys)"
    using fpath_append [of m' p "zs @ [a]" ys 0] by auto
  then show ?thesis using that q(1) m'(1) fr by blast
qed

text \<open>Pushing a node in front of a list by writing the node's link word.\<close>

lemma flist_push:
  assumes fl: "flist m p fs" and mp: "mapped m (h + 4) 8" and h: "0 < h" "h + 12 \<le> 2 ^ 64"
    and sep: "\<And>x. x \<in> set fs \<Longrightarrow> x + 16 \<le> h \<or> h + 16 \<le> x"
  obtains m' where "store64 m (w64 (h + 4)) p = Some m'" and "flist m' (w64 h) (h # fs)"
    and "frame m m' {h + 4 ..< h + 12}"
proof -
  obtain m' where m': "store64 m (w64 (h + 4)) p = Some m'" "word64_at m' (h + 4) p"
    and fr: "frame m m' {h + 4 ..< h + 12}"
    using store_link_mapped [OF mp h(2)] by blast
  have "links fs \<inter> {h + 4 ..< h + 12} = {}" using sep by (fastforce simp: links_def)
  then have "flist m' p fs" using fpath_frame [OF fr fl] by blast
  with m' h fr show ?thesis by (intro that [of m']) auto
qed

end
