(* ===== verification/Arena.thy ===== *)
theory Arena
  imports Blocks
begin

text \<open>
  The state both allocators keep and the operations they share: the statistics record, the
  mmap-backed arena with its break, and the writing of boundary tags. The C files
  \<open>src/src/allocator.c\<close> and \<open>src/src/segregated_allocator.c\<close> each hold a copy of this code;
  the state record is extensible, and each allocator extends it with its free lists.

  The operating system is a parameter: \<open>os k\<close> is what the \<open>k\<close>-th call of \<open>mmap\<close> returns.
\<close>

section \<open>State\<close>

record AllocStat =
  scan_steps :: u64
  remove_steps :: u64
  freelist_len :: u64
  real_bytes :: u64
  live_real_bytes :: u64
  peak_live_real_bytes :: u64
  arena_used_bytes :: u64

definition zero_stat :: AllocStat where
  "zero_stat = \<lparr>scan_steps = 0, remove_steps = 0, freelist_len = 0, real_bytes = 0,
     live_real_bytes = 0, peak_live_real_bytes = 0, arena_used_bytes = 0\<rparr>"

record arena_st =
  mem :: mem
  alloc_stat :: AllocStat
  heap_lo :: ptr
  heap_hi :: ptr
  arena_base :: ptr
  arena_cur :: ptr
  arena_end :: ptr
  mmaps :: nat \<comment> \<open>calls of \<open>mmap\<close> made so far\<close>

abbreviation upd_stat :: "(AllocStat \<Rightarrow> AllocStat) \<Rightarrow> 'a arena_st_scheme \<Rightarrow> 'a arena_st_scheme" where
  "upd_stat f st \<equiv> st\<lparr>alloc_stat := f (alloc_stat st)\<rparr>"

type_synonym mmap_os = "nat \<Rightarrow> ptr"

definition ARENA_SIZE :: u64 where "ARENA_SIZE = push_bit 30 4"

definition SIZE_MAX :: u64 where "SIZE_MAX = - 1"

definition MAP_FAILED :: ptr where "MAP_FAILED = - 1"

section \<open>Operations\<close>

definition arena_extend :: "mmap_os \<Rightarrow> u64 \<Rightarrow> 'a arena_st_scheme \<Rightarrow> ptr \<times> 'a arena_st_scheme" where
  "arena_extend os n st =
     (let m = os (mmaps st);
          reserve = arena_base st = 0;
          st = (if reserve then st\<lparr>mmaps := mmaps st + 1\<rparr> else st)
      in if reserve \<and> m = MAP_FAILED then (- 1, st)
         else
           let st = (if reserve
                     then st\<lparr>mem := map_region (mem st) m ARENA_SIZE, arena_base := m,
                             arena_cur := m, arena_end := m + ARENA_SIZE\<rparr>
                     else st);
               old = arena_cur st
           in if n = 0 then (old, st)
              else if arena_cur st + n > arena_end st then (- 1, st)
              else (old, st\<lparr>arena_cur := arena_cur st + n\<rparr>))"

definition set_tags :: "mem \<Rightarrow> ptr \<Rightarrow> u32 \<Rightarrow> mem option" where
  "set_tags m header t = do {
     m \<leftarrow> store32 m header t;
     store32 m (header + ucast (t AND NOT 15) - 4) t }"

text \<open>\<open>size_bucket\<close>: the position of the highest set bit of \<open>size | 1\<close>, by counting leading zeros.\<close>

definition clzll :: "u64 \<Rightarrow> nat" where
  "clzll x = length (takeWhile (\<lambda>i. \<not> bit x (63 - i)) [0..<64])"

definition size_bucket :: "u64 \<Rightarrow> nat" where
  "size_bucket n = 63 - clzll (n OR 1)"

section \<open>The arena invariant\<close>

text \<open>
  What the allocators rely on of a successful \<open>mmap\<close>: the address is page-aligned, not null, and
  the region lies below \<open>2^47\<close>, where Linux places the mappings of a 64-bit process.
\<close>

definition base_ok :: "ptr \<Rightarrow> bool" where
  "base_ok p \<longleftrightarrow> unat p mod 4096 = 0 \<and> 0 < unat p \<and> unat p + 2 ^ 32 \<le> 2 ^ 47"

abbreviation first :: "'a arena_st_scheme \<Rightarrow> nat" where
  "first st \<equiv> unat (arena_base st) + 12"

definition arena_inv :: "'a arena_st_scheme \<Rightarrow> blk list \<Rightarrow> bool" where
  "arena_inv st bs \<longleftrightarrow>
     (if arena_base st = 0 then bs = [] \<and> heap_lo st = 0
      else base_ok (arena_base st) \<and> arena_end st = w64 (unat (arena_base st) + 2 ^ 32) \<and>
           mapped (mem st) (unat (arena_base st)) (2 ^ 32) \<and> 12 + szs bs \<le> 2 ^ 32 \<and>
           (if bs = [] then heap_lo st = 0 \<and> arena_cur st = arena_base st
            else heap_lo st = w64 (first st) \<and> arena_cur st = w64 (first st + szs bs) \<and>
                 heap_hi st = arena_cur st))"

definition heap_inv :: "'a arena_st_scheme \<Rightarrow> blk list \<Rightarrow> bool" where
  "heap_inv st bs \<longleftrightarrow> arena_inv st bs \<and> layout (mem st) (first st) bs"

text \<open>The next \<open>mmap\<close>, if one is still to be made, succeeds.\<close>

definition os_ok :: "mmap_os \<Rightarrow> 'a arena_st_scheme \<Rightarrow> bool" where
  "os_ok os st \<longleftrightarrow> (arena_base st = 0 \<longrightarrow> base_ok (os (mmaps st)))"

lemma base_ok_not_failed: "base_ok p \<Longrightarrow> p \<noteq> MAP_FAILED \<and> p \<noteq> 0"
  by (auto simp: base_ok_def MAP_FAILED_def unsigned_minus_1_eq_mask mask_eq_exp_minus_1)

lemma mapped_map_region:
  assumes "base_ok p"
  shows "mapped (map_region m p ARENA_SIZE) (unat p) (2 ^ 32)"
  unfolding mapped_def
proof (intro allI impI)
  fix b assume b: "unat p \<le> b \<and> b < unat p + 2 ^ 32"
  then have "w64 b - p = w64 (b - unat p)"
    using w64_minus(2) [of "unat p" b] by simp
  moreover have "b - unat p < 2 ^ 32" using b by linarith
  ultimately have "unat (w64 b - p) < 2 ^ 32" by (simp add: unat_w64)
  then have "w64 b - p < ARENA_SIZE" by (simp add: word_less_nat_alt ARENA_SIZE_def)
  then show "map_region m p ARENA_SIZE (w64 b) \<noteq> None" by (simp add: map_region_def)
qed

lemma set_tags_mapped:
  assumes "size16 n" and "mapped m h n" and "h + n \<le> 2 ^ 64"
  obtains m' where "set_tags m (w64 h) (tag n u) = Some m'" and "blk_at m' h n u"
    and "frame m m' ({h ..< h + 4} \<union> {h + n - 4 ..< h + n})"
proof -
  have 16: "16 \<le> n" and lt: "n < 2 ^ 32" using assms(1) by (auto dest: size16D)
  obtain m1 where m1: "store32 m (w64 h) (tag n u) = Some m1" "word32_at m1 h (tag n u)"
    "frame m m1 {h ..< h + 4}"
    using store32_mapped [of m h] mapped_mono [OF assms(2), of h 4] 16 assms(3) by auto
  have "mapped m1 (h + n - 4) 4"
    using mapped_frame [OF m1(3)] mapped_mono [OF assms(2), of "h + n - 4" 4] 16 by simp
  moreover have e: "h + n - 4 + 4 = h + n" using 16 by simp
  ultimately obtain m2 where m2: "store32 m1 (w64 (h + n - 4)) (tag n u) = Some m2"
    "word32_at m2 (h + n - 4) (tag n u)" "frame m1 m2 {h + n - 4 ..< h + n}"
    using store32_mapped [of m1 "h + n - 4"] assms(3) by (metis (no_types, lifting))
  have "word32_at m2 h (tag n u)"
    using word32_at_frame [OF m2(3) m1(2)] 16 assms(3) by auto
  with m2(2) assms(1) have "blk_at m2 h n u" by (simp add: blk_at_def)
  moreover have "set_tags m (w64 h) (tag n u) = Some m2"
    using m1(1) m2(1) 16 lt assms(1) by (simp add: set_tags_def ucast_w32)
  ultimately show ?thesis using that frame_trans_Un [OF m1(3) m2(3)] by blast
qed

section \<open>Extending the arena\<close>

definition arena_reserved :: "mmap_os \<Rightarrow> 'a arena_st_scheme \<Rightarrow> 'a arena_st_scheme" where
  "arena_reserved os st =
     (if arena_base st = 0
      then st\<lparr>mmaps := mmaps st + 1, mem := map_region (mem st) (os (mmaps st)) ARENA_SIZE,
              arena_base := os (mmaps st), arena_cur := os (mmaps st),
              arena_end := os (mmaps st) + ARENA_SIZE\<rparr>
      else st)"

lemma arena_extend_ok:
  "os_ok os st \<Longrightarrow> arena_extend os n st =
     (let s = arena_reserved os st
      in if n = 0 then (arena_cur s, s)
         else if arena_cur s + n > arena_end s then (- 1, s)
         else (arena_cur s, s\<lparr>arena_cur := arena_cur s + n\<rparr>))"
  by (auto simp: arena_extend_def arena_reserved_def os_ok_def Let_def dest: base_ok_not_failed)

lemma arena_reserved_simps [simp]:
  "heap_lo (arena_reserved os st) = heap_lo st"
  "heap_hi (arena_reserved os st) = heap_hi st"
  "alloc_stat (arena_reserved os st) = alloc_stat st"
  "arena_st.more (arena_reserved os st) = arena_st.more st"
  by (simp_all add: arena_reserved_def)

lemma arena_reserved_id: "arena_base st \<noteq> 0 \<Longrightarrow> arena_reserved os st = st"
  by (simp add: arena_reserved_def)

lemma arena_reserved_base: "os_ok os st \<Longrightarrow> arena_base (arena_reserved os st) \<noteq> 0"
  by (auto simp: arena_reserved_def os_ok_def dest: base_ok_not_failed)

lemma arena_reserved_inv:
  assumes "heap_inv st bs" and "os_ok os st"
  shows "heap_inv (arena_reserved os st) bs"
proof (cases "arena_base st = 0")
  case True
  let ?p = "os (mmaps st)"
  have p: "base_ok ?p" using True assms(2) by (simp add: os_ok_def)
  have "?p + ARENA_SIZE = w64 (unat ?p + 2 ^ 32)"
    using w64_plus(1) [of "unat ?p"] by (simp add: ARENA_SIZE_def)
  moreover have "bs = []" and "heap_lo st = 0" using True assms(1) by (auto simp: heap_inv_def arena_inv_def)
  ultimately show ?thesis
    using True p mapped_map_region [OF p] base_ok_not_failed [OF p]
    by (simp add: heap_inv_def arena_inv_def arena_reserved_def)
qed (use assms in \<open>simp add: arena_reserved_id\<close>)

text \<open>The facts about a heap whose arena has been reserved.\<close>

lemma heap_inv_reserved:
  assumes "heap_inv st bs" and "arena_base st \<noteq> 0"
  shows "base_ok (arena_base st)" and "arena_end st = w64 (unat (arena_base st) + 2 ^ 32)"
    and "mapped (mem st) (unat (arena_base st)) (2 ^ 32)" and "12 + szs bs \<le> 2 ^ 32"
    and "layout (mem st) (first st) bs" and "sizes_ok bs"
    and "first st + szs bs \<le> 2 ^ 47" and "first st + szs bs \<le> unat (arena_base st) + 2 ^ 32"
  using assms by (auto simp: heap_inv_def arena_inv_def base_ok_def dest: layout_sizes_ok)

lemma pad_eq:
  assumes "x < 2 ^ 64" and "12 \<le> x"
  shows "(12 - w64 x) AND 15 = w64 ((2 ^ 64 + 12 - x) mod 16)"
proof -
  have "12 - w64 x = w64 (2 ^ 64 + 12 - x)"
    using assms by (simp add: w64_def)
  then have "unat ((12 - w64 x) AND 15) = (2 ^ 64 + 12 - x) mod 2 ^ 64 mod 16"
    by (simp only: unat_and_15_64 unat_w64)
  also have "\<dots> = (2 ^ 64 + 12 - x) mod 16"
    by (simp add: mod_mod_cancel)
  finally show ?thesis
    by (intro word_unat_eq_iff [THEN iffD2]) (simp add: unat_w64)
qed

text \<open>Where the break stands, and the padding that makes the next payload 16-aligned.\<close>

lemma arena_break:
  assumes "heap_inv st bs" and "arena_base st \<noteq> 0"
  obtains c where "arena_cur st = w64 c" and "c < 2 ^ 64"
    and "c + (if bs = [] then 12 else 0) = first st + szs bs"
    and "(12 - arena_cur st) AND 15 = w64 (if bs = [] then 12 else 0)"
proof -
  note facts = heap_inv_reserved [OF assms]
  let ?B = "unat (arena_base st)"
  have B: "?B mod 16 = 0" "0 < ?B" "?B + 2 ^ 32 \<le> 2 ^ 47"
    using facts(1) by (auto simp: base_ok_def)
  have s: "szs bs mod 16 = 0" using facts(6) by (rule szs_mod16)
  define c where "c = (if bs = [] then ?B else first st + szs bs)"
  have cur: "arena_cur st = w64 c"
    using assms by (auto simp: c_def heap_inv_def arena_inv_def split: if_splits)
  have lt: "c < 2 ^ 64" "12 \<le> c" using B facts(8) by (auto simp: c_def)
  have sum: "c + (if bs = [] then 12 else 0) = first st + szs bs" by (simp add: c_def)
  have "(2 ^ 64 + 12 - c) mod 16 = (if bs = [] then 12 else 0)"
  proof -
    obtain k where k: "?B = 16 * k" using B(1) by auto
    obtain j where j: "szs bs = 16 * j" using s by auto
    have l: "16 * k + 16 * j \<le> 2 ^ 47" using facts(7) k j by simp
    have "2 ^ 64 + 12 - c = (if bs = [] then 16 * (2 ^ 60 - k) + 12 else 16 * (2 ^ 60 - k - j))"
      using k j l by (auto simp: c_def)
    then show ?thesis by simp
  qed
  then have "(12 - arena_cur st) AND 15 = w64 (if bs = [] then 12 else 0)"
    using pad_eq [OF lt] cur by simp
  then show ?thesis using that cur lt(1) sum by blast
qed

lemma arena_extend_break:
  assumes "heap_inv st bs" and "arena_base st \<noteq> 0" and "16 \<le> k" and "k \<le> 2 ^ 63 + 32"
    and pad: "pad = (12 - arena_cur st) AND 15"
  shows "if 12 + szs bs + k \<le> 2 ^ 32
    then \<exists>p. arena_extend os (w64 k + pad) st = (p, st\<lparr>arena_cur := w64 (first st + szs bs + k)\<rparr>) \<and>
           p \<noteq> - 1 \<and> p + pad = w64 (first st + szs bs)
    else arena_extend os (w64 k + pad) st = (- 1, st)"
proof -
  note facts = heap_inv_reserved [OF assms(1,2)]
  obtain c where c: "arena_cur st = w64 c" "c < 2 ^ 64" "c + (if bs = [] then 12 else 0) = first st + szs bs"
    "pad = w64 (if bs = [] then 12 else 0)"
    using arena_break [OF assms(1,2)] pad by metis
  let ?d = "(if bs = [] then 12 else 0) :: nat"
  have ok: "os_ok os st" using assms(2) by (simp add: os_ok_def)
  have n: "w64 k + pad = w64 (k + ?d)" using c(4) by simp
  have "k + ?d < 2 ^ 64" using assms(4) by simp
  then have n0: "w64 (k + ?d) \<noteq> 0" using assms(3) by (simp only: w64_eq_0_iff)
  have sum: "arena_cur st + w64 (k + ?d) = w64 (first st + szs bs + k)"
    using c(1,3) by (simp add: add.commute [of k] flip: add.assoc)
  have l: "first st + szs bs + k < 2 ^ 64" "unat (arena_base st) + 2 ^ 32 < 2 ^ 64"
    using facts(1,7) assms(4) by (auto simp: base_ok_def)
  have gt: "arena_cur st + w64 (k + ?d) > arena_end st \<longleftrightarrow> \<not> 12 + szs bs + k \<le> 2 ^ 32"
    unfolding sum facts(2) using l by (subst w64_less_iff) auto
  have "w64 c \<noteq> - 1"
  proof
    assume "w64 c = - 1"
    then have "unat (w64 c) = 2 ^ 64 - 1"
      by (simp add: unsigned_minus_1_eq_mask mask_eq_exp_minus_1)
    then show False using c(2,3) facts(7) by (simp add: unat_w64)
  qed
  moreover have "w64 c + pad = w64 (first st + szs bs)" using c(3,4) by simp
  ultimately show ?thesis
    using gt n n0 sum c(1)
    by (auto simp: arena_extend_ok [OF ok] arena_reserved_id [OF assms(2)] Let_def)
qed

end
