(* ===== verification/Allocator.thy ===== *)
theory Allocator
  imports Arena
begin

text \<open>
  The first-fit allocator of \<open>src/src/allocator.c\<close>: one explicit free list, boundary-tag
  coalescing on free, in-place growth on realloc. Every operation takes the whole allocator
  state (the process memory included) and returns it updated. The result \<open>None\<close> stands for a
  run that faults on an unmapped address or does not return; the theorems of the later theories
  show that this does not happen.

  \<open>void **link\<close> points either at the global \<open>free_head\<close> or at the link word of a free block,
  the two constructors of \<open>link\<close>.
\<close>

record ff_st = arena_st +
  free_head :: ptr

definition ff_init :: ff_st where
  "ff_init = \<lparr>mem = Map.empty, alloc_stat = zero_stat, heap_lo = 0, heap_hi = 0,
     arena_base = 0, arena_cur = 0, arena_end = 0, mmaps = 0, free_head = 0\<rparr>"

datatype link = LHead | LNext ptr

fun read_link :: "ff_st \<Rightarrow> link \<Rightarrow> ptr option" where
  "read_link st LHead = Some (free_head st)"
| "read_link st (LNext h) = load64 (mem st) (h + 4)"

fun write_link :: "ff_st \<Rightarrow> link \<Rightarrow> ptr \<Rightarrow> ff_st option" where
  "write_link st LHead q = Some (st\<lparr>free_head := q\<rparr>)"
| "write_link st (LNext h) q = map_option (\<lambda>m. st\<lparr>mem := m\<rparr>) (store64 (mem st) (h + 4) q)"

section \<open>Free list\<close>

definition freelist_push :: "ptr \<Rightarrow> ff_st \<Rightarrow> ff_st option" where
  "freelist_push header st = do {
     m \<leftarrow> store64 (mem st) (header + 4) (free_head st);
     Some (upd_stat (\<lambda>s. s\<lparr>freelist_len := freelist_len s + 1\<rparr>) (st\<lparr>mem := m, free_head := header\<rparr>)) }"

partial_function (option) freelist_remove_loop :: "link \<Rightarrow> ptr \<Rightarrow> ff_st \<Rightarrow> ff_st option" where
  "freelist_remove_loop link header st = do {
     p \<leftarrow> read_link st link;
     if p = 0 then Some st
     else do {
       let st = upd_stat (\<lambda>s. s\<lparr>remove_steps := remove_steps s + 1\<rparr>) st;
       if p = header then do {
         q \<leftarrow> load64 (mem st) (header + 4);
         st \<leftarrow> write_link st link q;
         Some (upd_stat (\<lambda>s. s\<lparr>freelist_len := freelist_len s - 1\<rparr>) st) }
       else freelist_remove_loop (LNext p) header st } }"

definition freelist_remove :: "ptr \<Rightarrow> ff_st \<Rightarrow> ff_st option" where
  "freelist_remove header st = freelist_remove_loop LHead header st"

section \<open>Allocation\<close>

text \<open>The two exits of the scan: the block is split, or taken whole.\<close>

definition malloc_split :: "u64 \<Rightarrow> link \<Rightarrow> ptr \<Rightarrow> u64 \<Rightarrow> ff_st \<Rightarrow> (ptr \<times> ff_st) option" where
  "malloc_split need link h chunk_size st = do {
     let st = upd_stat (\<lambda>s. s\<lparr>real_bytes := real_bytes s + need\<rparr>) st;
     m \<leftarrow> set_tags (mem st) h (ucast (need OR 1));
     let payload = h + 4;
     let split_header = h + need;
     m \<leftarrow> set_tags m split_header (ucast (chunk_size - need));
     q \<leftarrow> load64 m payload;
     st \<leftarrow> write_link (st\<lparr>mem := m\<rparr>) link q;
     let st = upd_stat (\<lambda>s. s\<lparr>freelist_len := freelist_len s - 1\<rparr>) st;
     st \<leftarrow> freelist_push split_header st;
     Some (payload, st) }"

definition malloc_whole :: "link \<Rightarrow> ptr \<Rightarrow> u64 \<Rightarrow> ff_st \<Rightarrow> (ptr \<times> ff_st) option" where
  "malloc_whole link h chunk_size st = do {
     m \<leftarrow> set_tags (mem st) h (ucast chunk_size OR 1);
     let st = upd_stat (\<lambda>s. s\<lparr>real_bytes := real_bytes s + chunk_size\<rparr>) (st\<lparr>mem := m\<rparr>);
     let payload = h + 4;
     q \<leftarrow> load64 (mem st) payload;
     st \<leftarrow> write_link st link q;
     Some (payload, upd_stat (\<lambda>s. s\<lparr>freelist_len := freelist_len s - 1\<rparr>) st) }"

text \<open>The scan; the first component of the result is \<open>None\<close> when the list is exhausted.\<close>

partial_function (option) malloc_loop :: "u64 \<Rightarrow> link \<Rightarrow> ff_st \<Rightarrow> (ptr option \<times> ff_st) option" where
  "malloc_loop need link st = do {
     h \<leftarrow> read_link st link;
     if h = 0 then Some (None, st)
     else do {
       let st = upd_stat (\<lambda>s. s\<lparr>scan_steps := scan_steps s + 1\<rparr>) st;
       t \<leftarrow> load32 (mem st) h;
       let chunk_size = ucast (t AND NOT 15);
       if chunk_size \<ge> need + 16 then map_option (apfst Some) (malloc_split need link h chunk_size st)
       else if chunk_size \<ge> need then map_option (apfst Some) (malloc_whole link h chunk_size st)
       else malloc_loop need (LNext h) st } }"

definition malloc_grow :: "mmap_os \<Rightarrow> u64 \<Rightarrow> ff_st \<Rightarrow> (ptr \<times> ff_st) option" where
  "malloc_grow os need st = do {
     let (cur, st) = arena_extend os 0 st;
     let pad = (12 - cur) AND 15;
     let (p, st) = arena_extend os (need + pad) st;
     let (hi, st) = arena_extend os 0 st;
     let st = st\<lparr>heap_hi := hi\<rparr>;
     if p = - 1 then Some (0, st)
     else do {
       let st = upd_stat (\<lambda>s. s\<lparr>real_bytes := real_bytes s + (need + pad)\<rparr>) st;
       let header = p + pad;
       let payload = header + 4;
       m \<leftarrow> set_tags (mem st) header (ucast need OR 1);
       let st = st\<lparr>mem := m\<rparr>;
       let st = (if heap_lo st = 0 then st\<lparr>heap_lo := header\<rparr> else st);
       Some (payload, st) } }"

definition my_malloc :: "mmap_os \<Rightarrow> u64 \<Rightarrow> ff_st \<Rightarrow> (ptr \<times> ff_st) option" where
  "my_malloc os sz st = do {
     let need = (sz + 4 + 4 + 15) AND NOT 15;
     (r, st) \<leftarrow> malloc_loop need LHead st;
     case r of Some payload \<Rightarrow> Some (payload, st) | None \<Rightarrow> malloc_grow os need st }"

section \<open>Release\<close>

definition free_merge_right :: "ptr \<Rightarrow> ff_st \<Rightarrow> ff_st option" where
  "free_merge_right header st = do {
     t \<leftarrow> load32 (mem st) header;
     let sz = (ucast (t AND NOT 15) :: u64);
     let right_header = header + sz;
     if right_header < heap_hi st then do {
       rt \<leftarrow> load32 (mem st) right_header;
       if rt AND 1 = 0 then do {
         st \<leftarrow> freelist_remove right_header st;
         rt \<leftarrow> load32 (mem st) right_header;
         m \<leftarrow> set_tags (mem st) header (ucast (sz + ucast (rt AND NOT 15)));
         Some (st\<lparr>mem := m\<rparr>) }
       else Some st }
     else Some st }"

definition free_merge_left :: "ptr \<Rightarrow> ff_st \<Rightarrow> ff_st option" where
  "free_merge_left header st = do {
     let left_footer = header - 4;
     lf \<leftarrow> load32 (mem st) left_footer;
     let left_size = (ucast (lf AND NOT 15) :: u64);
     if left_footer > heap_lo st \<and> lf AND 1 = 0 then do {
       let left_header = left_footer - left_size + 4;
       st \<leftarrow> freelist_remove left_header st;
       t \<leftarrow> load32 (mem st) header;
       lt \<leftarrow> load32 (mem st) left_header;
       m \<leftarrow> set_tags (mem st) left_header ((t AND NOT 15) + (lt AND NOT 15));
       freelist_push left_header (st\<lparr>mem := m\<rparr>) }
     else freelist_push header st }"

definition my_free :: "ptr \<Rightarrow> ff_st \<Rightarrow> ff_st option" where
  "my_free p st =
     (if p = 0 then Some st
      else do {
        let header = p - 4;
        t \<leftarrow> load32 (mem st) header;
        if t AND 1 = 0 then Some st
        else do {
          m \<leftarrow> store32 (mem st) header (t AND NOT 1);
          st \<leftarrow> free_merge_right header (st\<lparr>mem := m\<rparr>);
          free_merge_left header st } })"

section \<open>calloc and realloc\<close>

definition my_calloc :: "mmap_os \<Rightarrow> u64 \<Rightarrow> u64 \<Rightarrow> ff_st \<Rightarrow> (ptr \<times> ff_st) option" where
  "my_calloc os nmemb sz st =
     (if nmemb = 0 \<or> sz = 0 then Some (0, st)
      else if nmemb > SIZE_MAX div sz then Some (0, st)
      else do {
        let total = nmemb * sz;
        (p, st) \<leftarrow> my_malloc os total st;
        if p \<noteq> 0 then do { m \<leftarrow> memset (mem st) p 0 total; Some (p, st\<lparr>mem := m\<rparr>) }
        else Some (p, st) })"

text \<open>The mask \<open>~15u\<close> of \<open>new_size\<close> is a 32-bit constant, extended with zeros.\<close>

definition realloc_size :: "u64 \<Rightarrow> u64" where
  "realloc_size sz = (sz + 8 + 15) AND ucast (NOT 15 :: u32)"

definition realloc_grow_in_place ::
    "ptr \<Rightarrow> u64 \<Rightarrow> u64 \<Rightarrow> ptr \<Rightarrow> ff_st \<Rightarrow> ff_st option" where
  "realloc_grow_in_place p old_size new_size right_header st = do {
     rt \<leftarrow> load32 (mem st) right_header;
     let combined = old_size + ucast rt;
     st \<leftarrow> freelist_remove right_header st;
     if combined \<ge> new_size + 16 then do {
       let split_header = p + new_size - 4;
       m \<leftarrow> set_tags (mem st) split_header (ucast (combined - new_size));
       st \<leftarrow> freelist_push split_header (st\<lparr>mem := m\<rparr>);
       m \<leftarrow> set_tags (mem st) (p - 4) (ucast new_size OR 1);
       Some (st\<lparr>mem := m\<rparr>) }
     else do {
       m \<leftarrow> set_tags (mem st) (p - 4) (ucast combined OR 1);
       Some (st\<lparr>mem := m\<rparr>) } }"

definition realloc_move ::
    "mmap_os \<Rightarrow> ptr \<Rightarrow> u64 \<Rightarrow> u64 \<Rightarrow> ff_st \<Rightarrow> (ptr \<times> ff_st) option" where
  "realloc_move os p old_size new_size st = do {
     (new_ptr, st) \<leftarrow> my_malloc os new_size st;
     if new_ptr = 0 then Some (0, st)
     else do {
       m \<leftarrow> memcpy (mem st) new_ptr p (old_size - 8);
       st \<leftarrow> my_free p (st\<lparr>mem := m\<rparr>);
       Some (new_ptr, st) } }"

definition realloc_shrink :: "ptr \<Rightarrow> u64 \<Rightarrow> u64 \<Rightarrow> ff_st \<Rightarrow> ff_st option" where
  "realloc_shrink p old_size new_size st = do {
     let leftover = old_size - new_size;
     if leftover \<ge> 16 then do {
       m \<leftarrow> set_tags (mem st) (p - 4) (ucast new_size OR 1);
       let free_header = p + new_size - 4;
       m \<leftarrow> set_tags m free_header (ucast leftover);
       freelist_push free_header (st\<lparr>mem := m\<rparr>) }
     else Some st }"

definition my_realloc :: "mmap_os \<Rightarrow> ptr \<Rightarrow> u64 \<Rightarrow> ff_st \<Rightarrow> (ptr \<times> ff_st) option" where
  "my_realloc os p sz st =
     (if p = 0 then my_malloc os sz st
      else if sz = 0 then do { st \<leftarrow> my_free p st; Some (0, st) }
      else do {
        t \<leftarrow> load32 (mem st) (p - 4);
        let old_size = (ucast (t AND NOT 15) :: u64);
        let new_size = realloc_size sz;
        if new_size > old_size then do {
          let right_header = p - 4 + old_size;
          fits \<leftarrow> (if right_header < heap_hi st then do {
                     rt \<leftarrow> load32 (mem st) right_header;
                     Some (rt AND 1 = 0 \<and> old_size + ucast (rt AND NOT 15) \<ge> new_size) }
                   else Some False);
          if fits then do {
            st \<leftarrow> realloc_grow_in_place p old_size new_size right_header st;
            Some (p, st) }
          else realloc_move os p old_size new_size st }
        else do {
          st \<leftarrow> realloc_shrink p old_size new_size st;
          Some (p, st) } })"

section \<open>Statistics\<close>

definition alloc_stat_get :: "ff_st \<Rightarrow> AllocStat" where
  "alloc_stat_get st = alloc_stat st"

definition alloc_stat_reset :: "ff_st \<Rightarrow> ff_st" where
  "alloc_stat_reset st =
     (let len = freelist_len (alloc_stat st)
      in st\<lparr>alloc_stat := zero_stat\<lparr>freelist_len := len\<rparr>\<rparr>)"

end
