(* ===== verification/Allocator_List.thy ===== *)
theory Allocator_List
  imports Allocator
begin

text \<open>
  The free list of the first-fit allocator: what pushing, unlinking and removing do to the
  linked list in memory, for any list and any block on it. \<open>link_after xs\<close> is the value of the
  C variable \<open>link\<close> once the nodes \<open>xs\<close> have been passed.
\<close>

definition link_after :: "nat list \<Rightarrow> link" where
  "link_after xs = (if xs = [] then LHead else LNext (w64 (last xs)))"

lemma link_after_snoc [simp]: "link_after (xs @ [a]) = LNext (w64 a)"
  by (simp add: link_after_def)

lemma link_after_Nil [simp]: "link_after [] = LHead"
  by (simp add: link_after_def)

lemma read_link_after:
  assumes "flist (mem st) (free_head st) (xs @ ys)"
  obtains p where "read_link st (link_after xs) = Some p" and "flist (mem st) p ys"
proof (cases xs rule: rev_cases)
  case Nil
  then show ?thesis using assms that by simp
next
  case (snoc xs' a)
  then obtain r where "word64_at (mem st) (a + 4) r" and "flist (mem st) r ys"
    using assms by (auto simp: fpath_append)
  then show ?thesis using that snoc by (simp add: word64_atD)
qed

lemma unlink_after:
  assumes fl: "flist (mem st) (free_head st) (xs @ h # ys)"
    and sp: "spread (xs @ h # ys)" and di: "distinct (xs @ h # ys)"
  obtains q m' p' where "load64 (mem st) (w64 h + 4) = Some q"
    and "write_link st (link_after xs) q = Some (st\<lparr>mem := m', free_head := p'\<rparr>)"
    and "flist m' p' (xs @ ys)" and "frame (mem st) m' (links xs)"
proof -
  obtain q where q: "word64_at (mem st) (h + 4) q" "flist (mem st) q ys"
    using fl by (auto simp: fpath_append)
  have ld: "load64 (mem st) (w64 h + 4) = Some q" using q(1) by (simp add: word64_atD)
  show ?thesis
  proof (cases xs rule: rev_cases)
    case Nil
    show ?thesis
      by (rule that [where q = q and m' = "mem st" and p' = q]) (use ld q Nil in simp_all)
  next
    case (snoc zs a)
    have fl': "flist (mem st) (free_head st) (zs @ a # h # ys)" "spread (zs @ a # h # ys)" "distinct (zs @ a # h # ys)"
      using fl sp di snoc by simp_all
    obtain q' m' where m': "word64_at (mem st) (h + 4) q'" "store64 (mem st) (w64 (a + 4)) q' = Some m'"
      "flist m' (free_head st) (zs @ a # ys)" and fr: "frame (mem st) m' {a + 4 ..< a + 12}"
      using fl' by (rule flist_unlink)
    have "q' = q" using m'(1) q(1) by (simp add: word64_at_def)
    moreover have "frame (mem st) m' (links xs)" by (rule frame_weaken [OF fr]) (auto simp: links_def snoc)
    ultimately show ?thesis
      by (intro that [where q = q and m' = m' and p' = "free_head st"]) (use ld m' snoc in simp_all)
  qed
qed

lemma freelist_push_ok:
  assumes fl: "flist (mem st) (free_head st) fs" and mp: "mapped (mem st) (h + 4) 8"
    and h: "0 < h" "h + 12 \<le> 2 ^ 64"
    and sep: "\<And>x. x \<in> set fs \<Longrightarrow> x + 16 \<le> h \<or> h + 16 \<le> x"
  obtains m' where "freelist_push (w64 h) st = Some (st\<lparr>mem := m', free_head := w64 h,
      alloc_stat := (alloc_stat st)\<lparr>freelist_len := freelist_len (alloc_stat st) + 1\<rparr>\<rparr>)"
    and "flist m' (w64 h) (h # fs)" and "frame (mem st) m' {h + 4 ..< h + 12}"
proof -
  obtain m' where "store64 (mem st) (w64 (h + 4)) (free_head st) = Some m'" "flist m' (w64 h) (h # fs)"
    "frame (mem st) m' {h + 4 ..< h + 12}"
    using fl mp h sep by (rule flist_push)
  then show ?thesis by (intro that [of m']) (auto simp: freelist_push_def)
qed

lemma remove_loop_ok:
  assumes "flist (mem st) (free_head st) (xs @ ys @ h # zs)"
    and "spread (xs @ ys @ h # zs)" and "distinct (xs @ ys @ h # zs)"
  shows "\<exists>m' p'. freelist_remove_loop (link_after xs) (w64 h) st = Some (st\<lparr>mem := m', free_head := p',
      alloc_stat := (alloc_stat st)\<lparr>
        remove_steps := remove_steps (alloc_stat st) + w64 (length ys + 1),
        freelist_len := freelist_len (alloc_stat st) - 1\<rparr>\<rparr>) \<and>
    flist m' p' (xs @ ys @ zs) \<and> frame (mem st) m' (links (xs @ ys))"
  using assms
proof (induction ys arbitrary: xs st)
  case Nil
  let ?st = "upd_stat (\<lambda>s. s\<lparr>remove_steps := remove_steps s + 1\<rparr>) st"
  obtain p where p: "read_link st (link_after xs) = Some p" "flist (mem st) p (h # zs)"
    using read_link_after [of st xs "h # zs"] Nil.prems(1) by auto
  then have "p = w64 h" "p \<noteq> 0" by (auto simp: w64_eq_0_iff)
  have "flist (mem ?st) (free_head ?st) (xs @ h # zs)" and "spread (xs @ h # zs)"
    and "distinct (xs @ h # zs)"
    using Nil.prems by simp_all
  then obtain q m' p' where u: "load64 (mem ?st) (w64 h + 4) = Some q"
    "write_link ?st (link_after xs) q = Some (?st\<lparr>mem := m', free_head := p'\<rparr>)"
    "flist m' p' (xs @ zs)" "frame (mem ?st) m' (links xs)"
    by (rule unlink_after)
  show ?case
    using p \<open>p = w64 h\<close> \<open>p \<noteq> 0\<close> u
    by (subst freelist_remove_loop.simps) (auto simp: w64_def)
next
  case (Cons y ys)
  let ?st = "upd_stat (\<lambda>s. s\<lparr>remove_steps := remove_steps s + 1\<rparr>) st"
  obtain p where p: "read_link st (link_after xs) = Some p" "flist (mem st) p (y # ys @ h # zs)"
    using read_link_after [of st xs "y # ys @ h # zs"] Cons.prems(1) by auto
  then have y: "p = w64 y" "p \<noteq> 0" "y < 2 ^ 64" by (auto simp: w64_eq_0_iff)
  have "h < 2 ^ 64" using Cons.prems(1) by (auto simp: fpath_append)
  moreover have "y \<noteq> h" using Cons.prems(3) by auto
  ultimately have "p \<noteq> w64 h" using y by (simp add: w64_eq_iff)
  then have step: "freelist_remove_loop (link_after xs) (w64 h) st =
      freelist_remove_loop (link_after (xs @ [y])) (w64 h) ?st"
    using p y by (subst freelist_remove_loop.simps) simp
  have "flist (mem ?st) (free_head ?st) ((xs @ [y]) @ ys @ h # zs)"
    and "spread ((xs @ [y]) @ ys @ h # zs)" and "distinct ((xs @ [y]) @ ys @ h # zs)"
    using Cons.prems by simp_all
  from Cons.IH [OF this] show ?case
    by (simp only: step) (auto simp: w64_def algebra_simps)
qed

lemma freelist_remove_ok:
  assumes "flist (mem st) (free_head st) (ys @ h # zs)"
    and "spread (ys @ h # zs)" and "distinct (ys @ h # zs)"
  obtains m' p' where "freelist_remove (w64 h) st = Some (st\<lparr>mem := m', free_head := p',
      alloc_stat := (alloc_stat st)\<lparr>
        remove_steps := remove_steps (alloc_stat st) + w64 (length ys + 1),
        freelist_len := freelist_len (alloc_stat st) - 1\<rparr>\<rparr>)"
    and "flist m' p' (ys @ zs)" and "frame (mem st) m' (links ys)"
  using remove_loop_ok [of st "[]" ys h zs] assms by (auto simp: freelist_remove_def)

end
