(* ===== verification/Heap_Inv.thy ===== *)
theory Heap_Inv
  imports Arena
begin

text \<open>
  Facts both allocators use about a heap that satisfies the block invariant: operations that
  leave the arena alone and rewrite a run of blocks in place, the blocks around one block, the
  link words of the other free blocks, and the overflow guard of calloc.
\<close>

definition same_arena :: "'a arena_st_scheme \<Rightarrow> 'a arena_st_scheme \<Rightarrow> bool" where
  "same_arena st st' \<longleftrightarrow> heap_lo st' = heap_lo st \<and> heap_hi st' = heap_hi st \<and>
     arena_base st' = arena_base st \<and> arena_cur st' = arena_cur st \<and> arena_end st' = arena_end st"

lemma same_arena_refl [simp]: "same_arena st st"
  by (simp add: same_arena_def)

lemma same_arena_trans: "same_arena a b \<Longrightarrow> same_arena b c \<Longrightarrow> same_arena a c"
  by (simp add: same_arena_def)

lemma heap_inv_replace:
  assumes inv: "heap_inv st (xs @ old @ ys)" and ne: "old \<noteq> []" "new \<noteq> []"
    and fr: "frame (mem st) (mem st') A" and same: "same_arena st st'"
    and A: "\<And>x. x \<in> A \<Longrightarrow> (first st + szs xs \<le> x \<and> x < first st + szs xs + szs old) \<or>
      x \<in> interior False (first st) xs \<or> x \<in> interior False (first st + szs xs + szs old) ys"
    and new: "layout (mem st') (first st + szs xs) new" and sz: "szs new = szs old"
  shows "heap_inv st' (xs @ new @ ys)"
proof -
  have b: "arena_base st \<noteq> 0" using inv ne by (auto simp: heap_inv_def arena_inv_def split: if_splits)
  note facts = heap_inv_reserved [OF inv b]
  have "layout (mem st') (first st) (xs @ new @ ys)"
    by (rule layout_replace [OF facts(5) fr _ A new sz]) (use facts(7) in simp)
  moreover have "mapped (mem st') (unat (arena_base st)) (2 ^ 32)"
    using facts(3) mapped_frame [OF fr] by blast
  ultimately show ?thesis
    using inv ne same sz b
    by (auto simp: heap_inv_def arena_inv_def same_arena_def split: if_splits)
qed

text \<open>Facts about one block.\<close>

lemma heap_inv_blk:
  assumes "heap_inv st bs" and "arena_base st \<noteq> 0" and "(h, n, u) \<in> set (hdrs (first st) bs)"
  shows "blk_at (mem st) h n u" and "size16 n" and "mapped (mem st) h n"
    and "12 \<le> h" and "h + n \<le> 2 ^ 47" and "first st \<le> h" and "h + n \<le> first st + szs bs"
    and "(h + 4) mod 16 = 0"
proof -
  note facts = heap_inv_reserved [OF assms(1,2)]
  have b: "first st \<le> h" "h + n \<le> first st + szs bs" using hdrs_bounds [OF assms(3)] by auto
  then show "12 \<le> h" "h + n \<le> 2 ^ 47" "first st \<le> h" "h + n \<le> first st + szs bs"
    using facts(7) by linarith+
  show "blk_at (mem st) h n u" using facts(5) assms(3) by (rule layout_blk)
  then show "size16 n" by (rule blk_at_size16)
  show "mapped (mem st) h n"
    by (rule mapped_mono [OF facts(3)]) (use b facts(8) in linarith)+
  have "h mod 16 = first st mod 16" using hdrs_mod16 [OF facts(6) assms(3)] .
  moreover have "unat (arena_base st) mod 16 = 0" using facts(1) by (auto simp: base_ok_def)
  ultimately have "h mod 16 = 12" by (simp add: mod_add_left_eq [symmetric])
  then show "(h + 4) mod 16 = 0" by (simp only: mod_add_left_eq [of h 16 4, symmetric]) simp
qed

text \<open>The other free blocks lie outside a given block.\<close>

lemma free_apart:
  assumes "sizes_ok bs" and "(h, n, u) \<in> set (hdrs a bs)" and "x \<in> free_hdrs a bs" and "x \<noteq> h"
  shows "x + 16 \<le> h \<or> h + n \<le> x"
proof -
  obtain k where k: "(x, k, False) \<in> set (hdrs a bs)" using assms(3) by (auto simp: free_hdrs_def)
  then have "16 \<le> k" using assms(1) hdrs_size16 size16D by blast
  with hdrs_disjoint [OF assms(1,2) k] assms(4) show ?thesis by auto
qed

lemma links_apart:
  "(\<And>x. x \<in> set fs \<Longrightarrow> x + 16 \<le> h \<or> h + n \<le> x) \<Longrightarrow> y \<in> links fs \<Longrightarrow> y < h \<or> h + n \<le> y"
  by (fastforce simp: links_def)

lemma links_append [simp]: "links (xs @ ys) = links xs \<union> links ys"
  by (auto simp: links_def)

lemma links_Cons: "links (a # ys) = {a + 4 ..< a + 12} \<union> links ys"
  by (auto simp: links_def)

text \<open>The link words of the free blocks other than one lie inside the blocks around it.\<close>

lemma links_around:
  assumes "sizes_ok (xs @ old @ ys)" and "set fs \<subseteq> free_hdrs a xs \<union> free_hdrs (a + szs xs + szs old) ys"
    and "y \<in> links fs"
  shows "y \<in> interior False a xs \<or> y \<in> interior False (a + szs xs + szs old) ys"
proof -
  obtain x where x: "x \<in> set fs" "x + 4 \<le> y" "y < x + 12" using assms(3) by (auto simp: links_def)
  then have y: "y \<in> links [x]" by (simp add: links_def)
  from x(1) assms(2) consider "x \<in> free_hdrs a xs" | "x \<in> free_hdrs (a + szs xs + szs old) ys" by blast
  then show ?thesis
  proof cases
    case 1
    then have "links [x] \<subseteq> interior False a xs"
      using assms(1) by (intro links_free_interior) auto
    with y show ?thesis by blast
  next
    case 2
    then have "links [x] \<subseteq> interior False (a + szs xs + szs old) ys"
      using assms(1) by (intro links_free_interior) auto
    with y show ?thesis by blast
  qed
qed

text \<open>Block \<open>h\<close> is free and has room for \<open>k\<close> bytes, tags included.\<close>

definition fits :: "nat \<Rightarrow> blk list \<Rightarrow> nat \<Rightarrow> nat \<Rightarrow> bool" where
  "fits a bs k h \<longleftrightarrow> (\<exists>n. (h, n, False) \<in> set (hdrs a bs) \<and> k \<le> n)"

text \<open>A change confined to one free block and to links keeps the payloads of the used blocks.\<close>

lemma keeps_used:
  assumes hp: "heap_inv st bs" and "(h, n, False) \<in> set (hdrs (first st) bs)"
    and "frame (mem st) m' ({h ..< h + n} \<union> links gs)" and "set gs \<subseteq> free_hdrs (first st) bs"
  shows "keeps (mem st) m' (interior True (first st) bs)"
proof (rule frame_keeps [OF assms(3)])
  fix x assume x: "x \<in> interior True (first st) bs"
  have "bs \<noteq> []" using assms(2) by auto
  then have b: "arena_base st \<noteq> 0" using hp by (auto simp: heap_inv_def arena_inv_def split: if_splits)
  note facts = heap_inv_reserved [OF hp b]
  have "links gs \<subseteq> interior False (first st) bs" using links_free_interior [OF facts(6)] assms(4) by simp
  moreover note used_not_free [OF facts(6) x]
  ultimately have "x \<notin> {h ..< h + n} \<union> links gs" using assms(2) by auto
  moreover have "x < 2 ^ 64" using interior_bounds [OF x] facts(7) by simp
  ultimately show "x < 2 ^ 64 \<and> x \<notin> {h ..< h + n} \<union> links gs" by blast
qed

lemma mem_reserved_keeps:
  assumes "heap_inv st bs"
  shows "keeps (mem st) (mem (arena_reserved os st)) (interior True (first st) bs)"
  using assms by (cases "arena_base st = 0") (auto simp: heap_inv_def arena_inv_def arena_reserved_id)

text \<open>The payload of a used block is mapped and inside the block.\<close>

lemma heap_used_facts:
  assumes hp: "heap_inv st bs" and live: "(h, n) \<in> used_blks (first st) bs"
  shows "arena_base st \<noteq> 0" and "size16 n" and "mapped (mem st) h n" and "h + n \<le> 2 ^ 47" and "12 \<le> h"
    and "payload_of h n \<subseteq> interior True (first st) bs" and "blk_at (mem st) h n True" and "(h + 4) mod 16 = 0"
    and "w64 (h + 4) \<noteq> 0"
proof -
  have mh: "(h, n, True) \<in> set (hdrs (first st) bs)" using live by (simp add: used_blks_def)
  then have "bs \<noteq> []" by auto
  then show b: "arena_base st \<noteq> 0" using hp by (auto simp: heap_inv_def arena_inv_def split: if_splits)
  note B = heap_inv_blk [OF hp b mh]
  then show "size16 n" "mapped (mem st) h n" "h + n \<le> 2 ^ 47" "12 \<le> h" "blk_at (mem st) h n True" "(h + 4) mod 16 = 0"
    by simp_all
  show "payload_of h n \<subseteq> interior True (first st) bs"
    using mh by (fastforce simp: payload_of_def interior_def)
  show "w64 (h + 4) \<noteq> 0" using B(5) size16D(1) [OF B(2)] by (simp add: w64_eq_0_iff)
qed

lemma heap_payload_write:
  assumes hp: "heap_inv st bs" and live: "(h, n) \<in> used_blks (first st) bs" and len: "i + length xs + 8 \<le> n"
  obtains m' where "store_bytes (mem st) (w64 (h + 4 + i)) xs = Some m'" and "bytes_at m' (h + 4 + i) xs"
    and "frame (mem st) m' {h + 4 + i ..< h + 4 + i + length xs}"
    and "{h + 4 + i ..< h + 4 + i + length xs} \<subseteq> interior True (first st) bs"
proof -
  note U = heap_used_facts [OF hp live]
  have "mapped (mem st) (h + 4 + i) (length xs)" by (rule mapped_mono [OF U(3)]) (use len in auto)
  moreover have "h + 4 + i + length xs \<le> 2 ^ 64" using U(4) len by simp
  ultimately obtain m' where m': "store_bytes (mem st) (w64 (h + 4 + i)) xs = Some m'" "bytes_at m' (h + 4 + i) xs"
    "frame (mem st) m' {h + 4 + i ..< h + 4 + i + length xs}"
    by (rule store_bytes_mapped)
  have "{h + 4 + i ..< h + 4 + i + length xs} \<subseteq> payload_of h n" using len by (auto simp: payload_of_def)
  with U(6) m' show ?thesis using that by blast
qed

lemma used_disjoint:
  assumes hp: "heap_inv st bs" and "(g, k) \<in> used_blks (first st) bs" and "(h, n) \<in> used_blks (first st) bs"
    and "(g, k) \<noteq> (h, n)"
  shows "g + k \<le> h \<or> h + n \<le> g"
proof -
  have "sizes_ok bs" using hp by (auto simp: heap_inv_def dest: layout_sizes_ok)
  then show ?thesis using hdrs_disjoint [of bs h n True "first st" g k True] assms by (auto simp: used_blks_def)
qed

section \<open>The guard of calloc\<close>

lemma calloc_guard:
  assumes "sz \<noteq> 0"
  shows "SIZE_MAX div sz < nmemb \<longleftrightarrow> 2 ^ 64 \<le> unat nmemb * unat sz"
proof -
  have pos: "0 < unat sz" using assms by (simp add: unat_gt_0)
  have "unat (SIZE_MAX div sz) = (2 ^ 64 - 1) div unat sz"
    by (simp add: SIZE_MAX_def unat_div unsigned_minus_1_eq_mask mask_eq_exp_minus_1)
  then have "SIZE_MAX div sz < nmemb \<longleftrightarrow> (2 ^ 64 - 1) div unat sz < unat nmemb"
    by (simp add: word_less_nat_alt)
  also have "\<dots> \<longleftrightarrow> 2 ^ 64 - 1 < unat nmemb * unat sz"
    using pos by (simp add: div_less_iff_less_mult)
  finally show ?thesis by auto
qed

end
