(* ===== verification/Allocator_Inv.thy ===== *)
theory Allocator_Inv
  imports Allocator_List Heap_Inv
begin

text \<open>
  The invariant of the first-fit allocator and its preservation by \<open>my_malloc\<close>. The state is
  related to two ghost values: the list of blocks that fill the heap in address order, and the
  list of free headers in the order of the free list.
\<close>

section \<open>The invariant\<close>

definition ff_inv :: "ff_st \<Rightarrow> blk list \<Rightarrow> nat list \<Rightarrow> bool" where
  "ff_inv st bs fs \<longleftrightarrow> heap_inv st bs \<and> flist (mem st) (free_head st) fs \<and> distinct fs \<and>
     set fs = free_hdrs (first st) bs \<and> freelist_len (alloc_stat st) = w64 (length fs)"

lemma ff_inv_init: "ff_inv ff_init [] []"
  by (simp add: ff_inv_def heap_inv_def arena_inv_def ff_init_def zero_stat_def)

text \<open>Facts about one block of a heap in the invariant.\<close>

lemma ff_inv_base: "ff_inv st bs fs \<Longrightarrow> bs \<noteq> [] \<Longrightarrow> arena_base st \<noteq> 0"
  by (auto simp: ff_inv_def heap_inv_def arena_inv_def split: if_splits)

lemma ff_inv_fs: "ff_inv st bs fs \<Longrightarrow> set fs = free_hdrs (first st) bs"
  by (simp add: ff_inv_def)

lemma ff_inv_heap: "ff_inv st bs fs \<Longrightarrow> heap_inv st bs"
  by (simp add: ff_inv_def)

text \<open>
  An operation that rewrites the blocks \<open>old\<close> into \<open>new\<close>, touching besides them only links of
  other free blocks, keeps the invariant if it leaves a proper free list.
\<close>

lemma ff_inv_replace:
  assumes inv: "ff_inv st (xs @ old @ ys) fs" and ne: "old \<noteq> []" "new \<noteq> []"
    and fr: "frame (mem st) (mem st') ({first st + szs xs ..< first st + szs xs + szs old} \<union> links gs)"
    and gs: "set gs \<subseteq> free_hdrs (first st) xs \<union> free_hdrs (first st + szs xs + szs old) ys"
    and same: "same_arena st st'"
    and new: "layout (mem st') (first st + szs xs) new" and sz: "szs new = szs old"
    and fl: "flist (mem st') (free_head st') fs'" and di: "distinct fs'"
    and set: "set fs' = free_hdrs (first st) xs \<union> free_hdrs (first st + szs xs) new \<union>
      free_hdrs (first st + szs xs + szs old) ys"
    and len: "freelist_len (alloc_stat st') = w64 (length fs')"
  shows "ff_inv st' (xs @ new @ ys) fs'"
proof -
  have ok: "sizes_ok (xs @ old @ ys)"
    using heap_inv_reserved(6) [OF ff_inv_heap [OF inv]] ff_inv_base [OF inv] ne by simp
  have "heap_inv st' (xs @ new @ ys)"
  proof (rule heap_inv_replace [OF ff_inv_heap [OF inv] ne fr same _ new sz])
    fix x assume "x \<in> {first st + szs xs ..< first st + szs xs + szs old} \<union> links gs"
    then show "(first st + szs xs \<le> x \<and> x < first st + szs xs + szs old) \<or>
        x \<in> interior False (first st) xs \<or> x \<in> interior False (first st + szs xs + szs old) ys"
      using links_around [OF ok gs, of x] by auto
  qed
  moreover have "first st' = first st" using same by (simp add: same_arena_def)
  ultimately show ?thesis
    using fl di set len sz by (simp add: ff_inv_def add.assoc Un_assoc)
qed

section \<open>Taking a block from the free list\<close>

lemma free_block_facts:
  assumes inv: "ff_inv st (bxs @ (n, False) # bys) (xs @ h # ys)" and h: "h = first st + szs bxs"
  shows "arena_base st \<noteq> 0" and "size16 n" and "mapped (mem st) h n" and "h + n \<le> 2 ^ 47" and "12 \<le> h"
    and "\<And>x. x \<in> set (xs @ ys) \<Longrightarrow> x + 16 \<le> h \<or> h + n \<le> x"
    and "set (xs @ ys) = free_hdrs (first st) bxs \<union> free_hdrs (h + n) bys"
    and "spread (xs @ h # ys)" and "distinct (xs @ h # ys)"
    and "flist (mem st) (free_head st) (xs @ h # ys)"
    and "freelist_len (alloc_stat st) = w64 (length (xs @ ys) + 1)"
    and "blk_at (mem st) h n False" and "sizes_ok (bxs @ (n, False) # bys)"
proof -
  let ?bs = "bxs @ (n, False) # bys" and ?fs = "xs @ h # ys"
  show b: "arena_base st \<noteq> 0" using ff_inv_base [OF inv] by simp
  have hp: "heap_inv st ?bs" using inv by (rule ff_inv_heap)
  have mem_h: "(h, n, False) \<in> set (hdrs (first st) ?bs)" using h by simp
  note facts = heap_inv_reserved [OF hp b] and blk = heap_inv_blk [OF hp b mem_h]
  show "size16 n" "mapped (mem st) h n" "h + n \<le> 2 ^ 47" "12 \<le> h" "blk_at (mem st) h n False" "sizes_ok ?bs"
    using blk facts(6) by auto
  show di: "distinct ?fs" and "flist (mem st) (free_head st) ?fs"
    and "freelist_len (alloc_stat st) = w64 (length (xs @ ys) + 1)"
    using inv by (simp_all add: ff_inv_def)
  have set: "set ?fs = free_hdrs (first st) ?bs" using inv by (rule ff_inv_fs)
  show "x + 16 \<le> h \<or> h + n \<le> x" if "x \<in> set (xs @ ys)" for x
    using free_apart [OF facts(6) mem_h, of x] that set di by auto
  show "spread ?fs" using spread_free_hdrs [OF facts(6)] set by blast
  have 16: "16 \<le> n" using blk(2) by (rule size16D)
  have "h \<notin> free_hdrs (first st) bxs" "h \<notin> free_hdrs (h + n) bys"
    using not_free_before [of bxs] not_free_after [of bys] facts(6) h 16 by simp_all
  moreover have "set ?fs = free_hdrs (first st) bxs \<union> ({h} \<union> free_hdrs (h + n) bys)"
    using set h by simp
  moreover have "set (xs @ ys) = set ?fs - {h}" using di by auto
  ultimately show "set (xs @ ys) = free_hdrs (first st) bxs \<union> free_hdrs (h + n) bys" by blast
qed

lemma malloc_whole_ok:
  assumes inv: "ff_inv st (bxs @ (n, False) # bys) (xs @ h # ys)" and h: "h = first st + szs bxs"
  obtains st' where "malloc_whole (link_after xs) (w64 h) (w64 n) st = Some (w64 (h + 4), st')"
    and "ff_inv st' (bxs @ (n, True) # bys) (xs @ ys)" and "same_arena st st'"
    and "frame (mem st) (mem st') ({h ..< h + n} \<union> links (xs @ ys))"
    and "alloc_stat st' = (alloc_stat st)\<lparr>real_bytes := real_bytes (alloc_stat st) + w64 n,
      freelist_len := w64 (length (xs @ ys))\<rparr>"
proof -
  note F = free_block_facts [OF inv h]
  have 16: "16 \<le> n" "n < 2 ^ 32" using F(2) by (auto dest: size16D)
  have l64: "h + n \<le> 2 ^ 64" using F(4) by simp
  obtain m1 where m1: "set_tags (mem st) (w64 h) (tag n True) = Some m1" "blk_at m1 h n True"
    "frame (mem st) m1 ({h ..< h + 4} \<union> {h + n - 4 ..< h + n})"
    using set_tags_mapped [OF F(2,3) l64] by blast
  let ?st1 = "upd_stat (\<lambda>s. s\<lparr>real_bytes := real_bytes s + w64 n\<rparr>) (st\<lparr>mem := m1\<rparr>)"
  have fl1: "flist (mem ?st1) (free_head ?st1) (xs @ h # ys)"
  proof -
    have "links (xs @ h # ys) \<inter> ({h ..< h + 4} \<union> {h + n - 4 ..< h + n}) = {}"
      using links_apart [of "xs @ ys" h n, OF F(6)] 16 by (fastforce simp: links_Cons)
    then show ?thesis using fpath_frame [OF m1(3) F(10)] by simp
  qed
  obtain q m2 p2 where u: "load64 (mem ?st1) (w64 h + 4) = Some q"
    "write_link ?st1 (link_after xs) q = Some (?st1\<lparr>mem := m2, free_head := p2\<rparr>)"
    "flist m2 p2 (xs @ ys)" "frame (mem ?st1) m2 (links xs)"
    using fl1 F(8,9) by (rule unlink_after)
  define st' where "st' = upd_stat (\<lambda>s. s\<lparr>freelist_len := freelist_len s - 1\<rparr>)
    (?st1\<lparr>mem := m2, free_head := p2\<rparr>)"
  have blk2: "blk_at m2 h n True"
    by (rule blk_at_frame [OF u(4) _ l64]) (use m1(2) links_apart [of "xs @ ys" h n, OF F(6)] in auto)
  have "malloc_whole (link_after xs) (w64 h) (w64 n) st = Some (w64 (h + 4), st')"
    using m1(1) u(1,2) F(2) 16 by (simp add: malloc_whole_def st'_def ucast_w64)
  moreover have same: "same_arena st st'" by (simp add: same_arena_def st'_def)
  moreover have fr: "frame (mem st) (mem st') ({h ..< h + n} \<union> links (xs @ ys))"
  proof -
    have "frame m1 m2 (links xs)" using u(4) by simp
    from frame_trans_Un [OF m1(3) this] have "frame (mem st) m2 ({h ..< h + n} \<union> links (xs @ ys))"
      by (rule frame_weaken) (use 16 in auto)
    then show ?thesis by (simp add: st'_def)
  qed
  moreover have "ff_inv st' (bxs @ [(n, True)] @ bys) (xs @ ys)"
    by (rule ff_inv_replace [where old = "[(n, False)]" and fs = "xs @ h # ys" and gs = "xs @ ys"])
      (use inv fr same blk2 u(3) F(7,9,11) h in \<open>auto simp: st'_def w64_def\<close>)
  ultimately show ?thesis
    using that F(11) by (simp add: st'_def w64_def)
qed

lemma malloc_split_ok:
  assumes inv: "ff_inv st (bxs @ (n, False) # bys) (xs @ h # ys)" and h: "h = first st + szs bxs"
    and k: "size16 k" "k + 16 \<le> n"
  obtains st' where "malloc_split (w64 k) (link_after xs) (w64 h) (w64 n) st = Some (w64 (h + 4), st')"
    and "ff_inv st' (bxs @ (k, True) # (n - k, False) # bys) ((h + k) # xs @ ys)" and "same_arena st st'"
    and "frame (mem st) (mem st') ({h ..< h + n} \<union> links (xs @ ys))"
    and "alloc_stat st' = (alloc_stat st)\<lparr>real_bytes := real_bytes (alloc_stat st) + w64 k\<rparr>"
proof -
  note F = free_block_facts [OF inv h]
  have k16: "16 \<le> k" "k < 2 ^ 32" using k(1) by (auto dest: size16D)
  have nk: "size16 (n - k)" using k F(2) by (auto simp: size16_def elim!: dvdE)
  have l64: "h + n \<le> 2 ^ 64" using F(4) by simp
  have e: "h + k + (n - k) = h + n" using k by simp
  obtain m1 where m1: "set_tags (mem st) (w64 h) (tag k True) = Some m1" "blk_at m1 h k True"
    "frame (mem st) m1 ({h ..< h + 4} \<union> {h + k - 4 ..< h + k})"
    using set_tags_mapped [OF k(1) mapped_mono [OF F(3)], of h] k l64 by auto
  have "mapped m1 (h + k) (n - k)"
    using mapped_mono [OF mapped_frame [OF m1(3) F(3)]] k by simp
  then obtain m2 where m2: "set_tags m1 (w64 (h + k)) (tag (n - k) False) = Some m2"
    "blk_at m2 (h + k) (n - k) False"
    "frame m1 m2 ({h + k ..< h + k + 4} \<union> {h + n - 4 ..< h + n})"
    using set_tags_mapped [OF nk, of m1 "h + k"] l64 unfolding e by blast
  note fr2 = frame_trans_Un [OF m1(3) m2(3)]
  let ?st2 = "(upd_stat (\<lambda>s. s\<lparr>real_bytes := real_bytes s + w64 k\<rparr>) st)\<lparr>mem := m2\<rparr>"
  have fl2: "flist (mem ?st2) (free_head ?st2) (xs @ h # ys)"
  proof -
    have "links (xs @ h # ys) \<inter> ({h ..< h + 4} \<union> {h + k - 4 ..< h + k} \<union>
        ({h + k ..< h + k + 4} \<union> {h + n - 4 ..< h + n})) = {}"
      using links_apart [of "xs @ ys" h n, OF F(6)] k16 k(2) by (fastforce simp: links_Cons)
    then show ?thesis using fpath_frame [OF fr2 F(10)] by simp
  qed
  obtain q m3 p3 where u: "load64 (mem ?st2) (w64 h + 4) = Some q"
    "write_link ?st2 (link_after xs) q = Some (?st2\<lparr>mem := m3, free_head := p3\<rparr>)"
    "flist m3 p3 (xs @ ys)" "frame (mem ?st2) m3 (links xs)"
    using fl2 F(8,9) by (rule unlink_after)
  let ?st3 = "upd_stat (\<lambda>s. s\<lparr>freelist_len := freelist_len s - 1\<rparr>) (?st2\<lparr>mem := m3, free_head := p3\<rparr>)"
  have fr3: "frame m2 m3 (links xs)" using u(4) by simp
  have "mapped (mem ?st3) (h + k + 4) 8"
    using mapped_mono [OF mapped_frame [OF frame_trans_Un [OF fr2 fr3] F(3)]] k by simp
  moreover have "flist (mem ?st3) (free_head ?st3) (xs @ ys)" using u(3) by simp
  moreover have "x + 16 \<le> h + k \<or> h + k + 16 \<le> x" if "x \<in> set (xs @ ys)" for x
    using F(6) [OF that] k by linarith
  moreover have "0 < h + k" and "h + k + 12 \<le> 2 ^ 64" using F(5) k l64 by linarith+
  ultimately obtain m4 where m4: "freelist_push (w64 (h + k)) ?st3 = Some (?st3\<lparr>mem := m4,
      free_head := w64 (h + k), alloc_stat := (alloc_stat ?st3)\<lparr>freelist_len := freelist_len (alloc_stat ?st3) + 1\<rparr>\<rparr>)"
    "flist m4 (w64 (h + k)) ((h + k) # xs @ ys)" "frame (mem ?st3) m4 {h + k + 4 ..< h + k + 12}"
    using freelist_push_ok [of ?st3 "xs @ ys" "h + k"] by blast
  define st' where "st' = ?st3\<lparr>mem := m4, free_head := w64 (h + k),
    alloc_stat := (alloc_stat ?st3)\<lparr>freelist_len := freelist_len (alloc_stat ?st3) + 1\<rparr>\<rparr>"
  have fr4: "frame m2 m4 (links xs \<union> {h + k + 4 ..< h + k + 12})"
    using frame_trans_Un [OF fr3, of m4] m4(3) by simp
  have out: "y < h \<or> h + n \<le> y" if "y \<in> links xs" for y
    using links_apart [of "xs @ ys" h n, OF F(6)] that by auto
  have "blk_at m2 h k True"
    by (rule blk_at_frame [OF m2(3) m1(2)]) (use k16 k(2) l64 in auto)
  then have "blk_at m4 h k True"
    by (rule blk_at_frame [OF fr4]) (use out k16 k(2) l64 in fastforce)+
  moreover have "blk_at m4 (h + k) (n - k) False"
    by (rule blk_at_frame [OF fr4 m2(2)]) (use out k16 k(2) l64 in fastforce)+
  ultimately have lay: "layout (mem st') h [(k, True), (n - k, False)]"
    by (simp add: st'_def)
  have run: "malloc_split (w64 k) (link_after xs) (w64 h) (w64 n) st = Some (w64 (h + 4), st')"
    using m1(1) m2(1) u(1,2) m4(1) k k16
    by (simp add: malloc_split_def st'_def ucast_w64 tag_False Let_def)
  have same: "same_arena st st'" by (simp add: same_arena_def st'_def)
  have fr: "frame (mem st) (mem st') ({h ..< h + n} \<union> links (xs @ ys))"
    using frame_weaken [OF frame_trans_Un [OF fr2 fr4], of "{h ..< h + n} \<union> links (xs @ ys)"] k16 k(2)
    by (fastforce simp: st'_def)
  have "ff_inv st' (bxs @ [(k, True), (n - k, False)] @ bys) ((h + k) # xs @ ys)"
  proof (rule ff_inv_replace [where old = "[(n, False)]" and fs = "xs @ h # ys" and gs = "xs @ ys"])
    show "distinct ((h + k) # xs @ ys)" using F(9) F(6) [of "h + k"] k16 k by auto
    show "set ((h + k) # xs @ ys) = free_hdrs (first st) bxs \<union>
        free_hdrs (first st + szs bxs) [(k, True), (n - k, False)] \<union>
        free_hdrs (first st + szs bxs + szs [(n, False)]) bys"
      using F(7) h k by simp
  qed (use inv fr same lay m4(2) F(7,11) h k in \<open>auto simp: st'_def w64_def\<close>)
  then show ?thesis using that run same fr by (simp add: st'_def)
qed

end
