(* ===== verification/Allocator_Malloc.thy ===== *)
theory Allocator_Malloc
  imports Allocator_Inv
begin

text \<open>
  \<open>my_malloc\<close> of the first-fit allocator: the scan finds the first free block that is large
  enough, the arena grows only when there is none, and in every case the invariant is kept, the
  new block is fresh, and the payloads of the live blocks are left as they were.
\<close>

section \<open>The scan\<close>

definition scanned :: "nat \<Rightarrow> ff_st \<Rightarrow> ff_st" where
  "scanned i st = upd_stat (\<lambda>s. s\<lparr>scan_steps := scan_steps s + w64 i\<rparr>) st"

lemma scanned_simps [simp]:
  "mem (scanned i st) = mem st" "free_head (scanned i st) = free_head st"
  "arena_base (scanned i st) = arena_base st" "heap_lo (scanned i st) = heap_lo st"
  "heap_hi (scanned i st) = heap_hi st" "arena_cur (scanned i st) = arena_cur st"
  "arena_end (scanned i st) = arena_end st" "mmaps (scanned i st) = mmaps st"
  "freelist_len (alloc_stat (scanned i st)) = freelist_len (alloc_stat st)"
  by (simp_all add: scanned_def)

lemma scanned_scanned [simp]: "scanned i (scanned j st) = scanned (i + j) st"
  by (simp add: scanned_def w64_def add.commute add.left_commute)

lemma scanned_0 [simp]: "scanned 0 st = st"
  by (simp add: scanned_def)

lemma ff_inv_scan [simp]: "ff_inv (scanned i st) bs fs \<longleftrightarrow> ff_inv st bs fs"
  by (simp add: ff_inv_def heap_inv_def arena_inv_def)

lemma malloc_loop_step:
  assumes inv: "ff_inv st bs (xs @ y # ys)" and n: "(y, n, False) \<in> set (hdrs (first st) bs)"
    and k: "k \<le> 2 ^ 63 + 32"
  shows "malloc_loop (w64 k) (link_after xs) st =
    (if k + 16 \<le> n then map_option (apfst Some) (malloc_split (w64 k) (link_after xs) (w64 y) (w64 n) (scanned 1 st))
     else if k \<le> n then map_option (apfst Some) (malloc_whole (link_after xs) (w64 y) (w64 n) (scanned 1 st))
     else malloc_loop (w64 k) (link_after (xs @ [y])) (scanned 1 st))"
proof -
  have "bs \<noteq> []" using n by auto
  then have b: "arena_base st \<noteq> 0" using ff_inv_base [OF inv] by simp
  note blk = heap_inv_blk [OF ff_inv_heap [OF inv] b n]
  obtain p where p: "read_link st (link_after xs) = Some p" "flist (mem st) p (y # ys)"
    using read_link_after [of st xs "y # ys"] inv by (auto simp: ff_inv_def)
  then have y: "p = w64 y" "p \<noteq> 0" by (auto simp: w64_eq_0_iff)
  have n32: "n < 2 ^ 32" using blk(2) by (rule size16D)
  have "load32 (mem st) (w64 y) = Some (tag n False)"
    using blk(1) by (simp add: blk_at_def word32_atD)
  moreover have "w64 k + 16 \<le> w64 n \<longleftrightarrow> k + 16 \<le> n" and "w64 k \<le> w64 n \<longleftrightarrow> k \<le> n"
    using n32 k by (simp_all add: w64_le_iff)
  ultimately show ?thesis
    using p y blk(2) n32 by (subst malloc_loop.simps) (simp add: ucast_w32 scanned_def w64_def Let_def)
qed

lemma malloc_loop_ok:
  assumes "ff_inv st bs (xs @ ys)" and "k \<le> 2 ^ 63 + 32"
  shows "(\<forall>y \<in> set ys. \<not> fits (first st) bs k y) \<and>
      malloc_loop (w64 k) (link_after xs) st = Some (None, scanned (length ys) st) \<or>
    (\<exists>ys1 h ys2 n. ys = ys1 @ h # ys2 \<and> (\<forall>y \<in> set ys1. \<not> fits (first st) bs k y) \<and>
      (h, n, False) \<in> set (hdrs (first st) bs) \<and> k \<le> n \<and>
      malloc_loop (w64 k) (link_after xs) st = map_option (apfst Some)
        ((if k + 16 \<le> n then malloc_split (w64 k) (link_after (xs @ ys1)) (w64 h) (w64 n)
          else malloc_whole (link_after (xs @ ys1)) (w64 h) (w64 n)) (scanned (length ys1 + 1) st)))"
  using assms
proof (induction ys arbitrary: xs st)
  case Nil
  then have "read_link st (link_after xs) = Some 0"
    using read_link_after [of st xs "[]"] by (auto simp: ff_inv_def)
  then show ?case by (subst malloc_loop.simps) simp
next
  case (Cons y ys)
  have "y \<in> free_hdrs (first st) bs" using Cons.prems(1) ff_inv_fs by fastforce
  then obtain n where n: "(y, n, False) \<in> set (hdrs (first st) bs)" by (auto simp: free_hdrs_def)
  note step = malloc_loop_step [OF Cons.prems(1) n Cons.prems(2)]
  show ?case
  proof (cases "k \<le> n")
    case True
    have "malloc_loop (w64 k) (link_after xs) st = map_option (apfst Some)
        ((if k + 16 \<le> n then malloc_split (w64 k) (link_after (xs @ [])) (w64 y) (w64 n)
          else malloc_whole (link_after (xs @ [])) (w64 y) (w64 n)) (scanned (length [] + 1) st))"
      using step True by simp
    then show ?thesis using n True by (intro disjI2) fastforce
  next
    case False
    let ?st = "scanned 1 st"
    have nofit: "\<not> fits (first st) bs k y"
    proof
      assume "fits (first st) bs k y"
      then obtain n' where "(y, n', False) \<in> set (hdrs (first st) bs)" "k \<le> n'" by (auto simp: fits_def)
      moreover have "sizes_ok bs"
        using ff_inv_heap [OF Cons.prems(1)] by (auto simp: heap_inv_def dest: layout_sizes_ok)
      ultimately show False using hdrs_unique n False by blast
    qed
    have inv: "ff_inv ?st bs ((xs @ [y]) @ ys)" using Cons.prems(1) by simp
    have eq: "malloc_loop (w64 k) (link_after xs) st = malloc_loop (w64 k) (link_after (xs @ [y])) ?st"
      using step False by simp
    from Cons.IH [OF inv Cons.prems(2)] show ?thesis
    proof (elim disjE exE conjE)
      assume "\<forall>y \<in> set ys. \<not> fits (first ?st) bs k y"
        and "malloc_loop (w64 k) (link_after (xs @ [y])) ?st = Some (None, scanned (length ys) ?st)"
      then show ?thesis using nofit eq by simp
    next
      fix ys1 h ys2 n'
      assume *: "ys = ys1 @ h # ys2" "\<forall>y \<in> set ys1. \<not> fits (first ?st) bs k y"
        "(h, n', False) \<in> set (hdrs (first ?st) bs)" "k \<le> n'"
        "malloc_loop (w64 k) (link_after (xs @ [y])) ?st = map_option (apfst Some)
          ((if k + 16 \<le> n' then malloc_split (w64 k) (link_after ((xs @ [y]) @ ys1)) (w64 h) (w64 n')
            else malloc_whole (link_after ((xs @ [y]) @ ys1)) (w64 h) (w64 n')) (scanned (length ys1 + 1) ?st))"
      have "y # ys = (y # ys1) @ h # ys2 \<and> (\<forall>x \<in> set (y # ys1). \<not> fits (first st) bs k x) \<and>
          (h, n', False) \<in> set (hdrs (first st) bs) \<and> k \<le> n' \<and>
          malloc_loop (w64 k) (link_after xs) st = map_option (apfst Some)
          ((if k + 16 \<le> n' then malloc_split (w64 k) (link_after (xs @ y # ys1)) (w64 h) (w64 n')
            else malloc_whole (link_after (xs @ y # ys1)) (w64 h) (w64 n')) (scanned (length (y # ys1) + 1) st))"
        using * nofit eq by simp
      then show ?thesis by blast
    qed
  qed
qed

section \<open>Growing the heap\<close>

lemma free_head_reserved [simp]: "free_head (arena_reserved os st) = free_head st"
  by (simp add: arena_reserved_def)

lemma ff_inv_reserved:
  assumes inv: "ff_inv st bs fs" and os: "os_ok os st"
  shows "ff_inv (arena_reserved os st) bs fs"
proof (cases "arena_base st = 0")
  case True
  then have "bs = []" using inv by (simp add: ff_inv_def heap_inv_def arena_inv_def)
  then show ?thesis
    using inv arena_reserved_inv [OF ff_inv_heap [OF inv] os] by (auto simp: ff_inv_def)
qed (use inv in \<open>simp add: arena_reserved_id\<close>)

lemma malloc_grow_full:
  assumes inv: "ff_inv st bs fs" and os: "os_ok os st" and k: "16 \<le> k" "k \<le> 2 ^ 63 + 32"
    and full: "2 ^ 32 < 12 + szs bs + k"
  shows "malloc_grow os (w64 k) st = Some (0, (arena_reserved os st)\<lparr>heap_hi := arena_cur (arena_reserved os st)\<rparr>)"
    and "ff_inv ((arena_reserved os st)\<lparr>heap_hi := arena_cur (arena_reserved os st)\<rparr>) bs fs"
proof -
  let ?s = "arena_reserved os st"
  have inv': "ff_inv ?s bs fs" and b: "arena_base ?s \<noteq> 0"
    by (rule ff_inv_reserved [OF inv os], rule arena_reserved_base [OF os])
  have os': "os_ok os ?s" using b by (simp add: os_ok_def)
  have "arena_extend os (w64 k + ((12 - arena_cur ?s) AND 15)) ?s = (- 1, ?s)"
    using arena_extend_break [OF ff_inv_heap [OF inv'] b k refl, of os] full by simp
  then show "malloc_grow os (w64 k) st = Some (0, ?s\<lparr>heap_hi := arena_cur ?s\<rparr>)"
    by (simp add: malloc_grow_def arena_extend_ok [OF os] arena_extend_ok [OF os'] arena_reserved_id [OF b] Let_def)
  show "ff_inv (?s\<lparr>heap_hi := arena_cur ?s\<rparr>) bs fs"
    using inv' b by (auto simp: ff_inv_def heap_inv_def arena_inv_def split: if_splits)
qed

lemma malloc_grow_ok:
  assumes inv: "ff_inv st bs fs" and os: "os_ok os st" and k: "size16 k"
    and room: "12 + szs bs + k \<le> 2 ^ 32"
  obtains st' h where "malloc_grow os (w64 k) st = Some (w64 (h + 4), st')"
    and "h = first st' + szs bs" and "ff_inv st' (bs @ [(k, True)]) fs"
    and "arena_base st' = arena_base (arena_reserved os st)"
    and "frame (mem (arena_reserved os st)) (mem st') {h ..< h + k}"
proof -
  let ?s = "arena_reserved os st"
  have inv': "ff_inv ?s bs fs" and b: "arena_base ?s \<noteq> 0"
    by (rule ff_inv_reserved [OF inv os], rule arena_reserved_base [OF os])
  have k': "16 \<le> k" "k < 2 ^ 32" using k by (auto dest: size16D)
  note facts = heap_inv_reserved [OF ff_inv_heap [OF inv'] b]
  define h where "h = first ?s + szs bs"
  define pad where "pad = (12 - arena_cur ?s) AND 15"
  have "k \<le> 2 ^ 63 + 32" using k' by simp
  then obtain p where p: "arena_extend os (w64 k + pad) ?s = (p, ?s\<lparr>arena_cur := w64 (h + k)\<rparr>)"
    "p \<noteq> - 1" "p + pad = w64 h"
    using arena_extend_break [OF ff_inv_heap [OF inv'] b k'(1) _ pad_def, of os] room by (auto simp: h_def)
  let ?s2 = "?s\<lparr>arena_cur := w64 (h + k), heap_hi := w64 (h + k)\<rparr>"
  have l: "h + k \<le> 2 ^ 47" "unat (arena_base ?s) + 12 \<le> h" "h + k \<le> unat (arena_base ?s) + 2 ^ 32"
    using facts(1) room by (auto simp: h_def base_ok_def)
  have mp: "mapped (mem ?s) h k" by (rule mapped_mono [OF facts(3)]) (use l in linarith)+
  have l64: "h + k \<le> 2 ^ 64" using l(1) by simp
  obtain m1 where m1: "set_tags (mem ?s) (w64 h) (tag k True) = Some m1" "blk_at m1 h k True"
    "frame (mem ?s) m1 ({h ..< h + 4} \<union> {h + k - 4 ..< h + k})"
    using set_tags_mapped [OF k mp l64] by blast
  have fr: "frame (mem ?s) m1 {h ..< h + k}" by (rule frame_weaken [OF m1(3)]) (use k' in auto)
  have lo: "heap_lo ?s = (if bs = [] then 0 else w64 (first ?s))" "w64 (first ?s) \<noteq> 0"
    using ff_inv_heap [OF inv'] b l by (auto simp: heap_inv_def arena_inv_def w64_eq_0_iff split: if_splits)
  define st' where "st' = (upd_stat (\<lambda>s. s\<lparr>real_bytes := real_bytes s + (w64 k + pad)\<rparr>) ?s2)
    \<lparr>mem := m1, heap_lo := w64 (first ?s)\<rparr>"
  have run: "malloc_grow os (w64 k) st = Some (w64 (h + 4), st')"
  proof -
    have os': "os_ok os ?s" "os_ok os (?s\<lparr>arena_cur := w64 (h + k)\<rparr>)" using b by (simp_all add: os_ok_def)
    have "arena_reserved os (?s\<lparr>arena_cur := w64 (h + k)\<rparr>) = ?s\<lparr>arena_cur := w64 (h + k)\<rparr>"
      using b by (simp add: arena_reserved_def)
    moreover have "h = first ?s" if "bs = []" using that by (simp add: h_def)
    ultimately show ?thesis
      using p m1(1) k lo
      by (auto simp: malloc_grow_def arena_extend_ok [OF os] arena_extend_ok [OF os'(2)]
        pad_def [symmetric] Let_def ucast_w64 st'_def)
  qed
  have lay: "layout m1 (first ?s) (bs @ [(k, True)])"
  proof -
    have "layout m1 (first ?s) bs"
      by (rule layout_frame_outside [OF fr facts(5)]) (use facts(7) in \<open>auto simp: h_def\<close>)
    then show ?thesis using m1(2) by (simp add: h_def)
  qed
  have "flist m1 (free_head ?s) fs"
  proof (rule fpath_frame [OF fr])
    show "flist (mem ?s) (free_head ?s) fs" using inv' by (simp add: ff_inv_def)
    have "links fs \<subseteq> interior False (first ?s) bs"
      by (rule links_free_interior [OF facts(6)]) (use ff_inv_fs [OF inv'] in simp)
    then show "links fs \<inter> {h ..< h + k} = {}"
      using interior_bounds [of _ False "first ?s" bs] by (fastforce simp: h_def)
  qed
  moreover have "mapped m1 (unat (arena_base ?s)) (2 ^ 32)" using mapped_frame [OF fr facts(3)] .
  ultimately have "ff_inv st' (bs @ [(k, True)]) fs"
    using inv' b lay room facts(1,2) k
    by (simp add: ff_inv_def heap_inv_def arena_inv_def st'_def h_def add.assoc)
  then show ?thesis
    using that [of h st'] run fr by (simp add: st'_def h_def)
qed

section \<open>The whole operation\<close>

lemma my_malloc_eq:
  "unat sz < 2 ^ 63 \<Longrightarrow> my_malloc os sz st =
     Option.bind (malloc_loop (w64 (chunk (unat sz))) LHead st) (\<lambda>(r, st).
       case r of Some payload \<Rightarrow> Some (payload, st) | None \<Rightarrow> malloc_grow os (w64 (chunk (unat sz))) st)"
  by (simp only: my_malloc_def need_eq Let_def)

text \<open>Some free block fits: the first one in list order is used, and the arena does not grow.\<close>

lemma my_malloc_reuse:
  assumes inv: "ff_inv st bs fs" and sz: "unat sz < 2 ^ 63"
    and fit: "\<exists>h \<in> set fs. fits (first st) bs (chunk (unat sz)) h"
  obtains h n st' bs' fs' xs ys where "my_malloc os sz st = Some (w64 (h + 4), st')"
    and "ff_inv st' bs' fs'" and "same_arena st st'"
    and "keeps (mem st) (mem st') (interior True (first st) bs)"
    and "fs = xs @ h # ys" and "\<forall>x \<in> set xs. \<not> fits (first st) bs (chunk (unat sz)) x"
    and "fits (first st) bs (chunk (unat sz)) h"
    and "chunk (unat sz) \<le> n" and "(h, n) \<notin> used_blks (first st) bs"
    and "used_blks (first st) bs' = insert (h, n) (used_blks (first st) bs)" and "szs bs' = szs bs"
proof -
  let ?k = "chunk (unat sz)"
  have k63: "?k \<le> 2 ^ 63 + 32" using chunk_bounds(2) [of "unat sz"] sz by simp
  have "ff_inv st bs ([] @ fs)" using inv by simp
  from malloc_loop_ok [OF this k63] fit
  obtain xs h ys n where fs: "fs = xs @ h # ys" "\<forall>x \<in> set xs. \<not> fits (first st) bs ?k x"
    and hn: "(h, n, False) \<in> set (hdrs (first st) bs)" "?k \<le> n"
    and run: "malloc_loop (w64 ?k) (link_after []) st = map_option (apfst Some)
        ((if ?k + 16 \<le> n then malloc_split (w64 ?k) (link_after ([] @ xs)) (w64 h) (w64 n)
          else malloc_whole (link_after ([] @ xs)) (w64 h) (w64 n)) (scanned (length xs + 1) st))"
    by (elim disjE exE conjE) blast+
  obtain bxs bys where bs: "bs = bxs @ (n, False) # bys" "h = first st + szs bxs"
    using hn(1) by (rule hdrs_split)
  let ?st = "scanned (length xs + 1) st"
  have inv': "ff_inv ?st (bxs @ (n, False) # bys) (xs @ h # ys)" "h = first ?st + szs bxs"
    using inv fs(1) bs by simp_all
  have k: "size16 ?k"
    using chunk_bounds [of "unat sz"] hn(2) free_block_facts(2) [OF inv'] by (auto simp: size16_def)
  have "sizes_ok bs" using free_block_facts(13) [OF inv'] bs(1) by simp
  then have hu: "(h, n') \<notin> used_blks (first st) bs" for n'
    using hdrs_unique [OF _ hn(1), of n' True] unfolding used_blks_def by blast
  have malloc: "my_malloc os sz st = Some (w64 (h + 4), st')"
    if "(if ?k + 16 \<le> n then malloc_split (w64 ?k) (link_after xs) (w64 h) (w64 n)
          else malloc_whole (link_after xs) (w64 h) (w64 n)) ?st = Some (w64 (h + 4), st')" for st'
    using that run by (auto simp: my_malloc_eq [OF sz] split: if_splits)
  have ft: "fits (first st) bs ?k h" using hn by (auto simp: fits_def)
  have ks: "keeps (mem st) (mem st') (interior True (first st) bs)"
    if "frame (mem ?st) (mem st') ({h ..< h + n} \<union> links (xs @ ys))" for st'
    using keeps_used [OF ff_inv_heap [OF inv] hn(1), of "mem st'" "xs @ ys"] that fs(1) ff_inv_fs [OF inv] by auto
  show ?thesis
  proof (cases "?k + 16 \<le> n")
    case True
    obtain st' where s: "malloc_split (w64 ?k) (link_after xs) (w64 h) (w64 n) ?st = Some (w64 (h + 4), st')"
      "ff_inv st' (bxs @ (?k, True) # (n - ?k, False) # bys) ((h + ?k) # xs @ ys)" "same_arena ?st st'"
      "frame (mem ?st) (mem st') ({h ..< h + n} \<union> links (xs @ ys))"
      using malloc_split_ok [OF inv' k True] by blast
    have "h + ?k + (n - ?k) = h + n" using True by simp
    then have "used_blks (first st) (bxs @ (?k, True) # (n - ?k, False) # bys) =
        insert (h, ?k) (used_blks (first st) bs)"
      unfolding bs(1) by (simp add: bs(2) [symmetric])
    then show ?thesis
      by (intro that [OF malloc s(2) _ ks [OF s(4)] fs ft le_refl hu])
        (use s(1,3) True bs(1) in \<open>auto simp: same_arena_def\<close>)
  next
    case False
    obtain st' where s: "malloc_whole (link_after xs) (w64 h) (w64 n) ?st = Some (w64 (h + 4), st')"
      "ff_inv st' (bxs @ (n, True) # bys) (xs @ ys)" "same_arena ?st st'"
      "frame (mem ?st) (mem st') ({h ..< h + n} \<union> links (xs @ ys))"
      using malloc_whole_ok [OF inv'] by blast
    show ?thesis
      by (rule that [OF malloc s(2) _ ks [OF s(4)] fs ft hn(2) hu])
        (use s(1,3) False bs in \<open>auto simp: same_arena_def\<close>)
  qed
qed

text \<open>No free block fits: the heap grows by one block, or the arena is exhausted.\<close>

lemma my_malloc_fresh:
  assumes inv: "ff_inv st bs fs" and sz: "unat sz < 2 ^ 63"
    and nofit: "\<forall>h \<in> set fs. \<not> fits (first st) bs (chunk (unat sz)) h"
  shows "my_malloc os sz st = malloc_grow os (w64 (chunk (unat sz))) (scanned (length fs) st)"
proof -
  let ?k = "chunk (unat sz)"
  have k63: "?k \<le> 2 ^ 63 + 32" using chunk_bounds(2) [of "unat sz"] sz by simp
  have "ff_inv st bs ([] @ fs)" using inv by simp
  from malloc_loop_ok [OF this k63] have "malloc_loop (w64 ?k) LHead st = Some (None, scanned (length fs) st)"
  proof (elim disjE exE conjE)
    fix ys1 h ys2 n
    assume "fs = ys1 @ h # ys2" "(h, n, False) \<in> set (hdrs (first st) bs)" "?k \<le> n"
    then show ?thesis using nofit by (auto simp: fits_def)
  qed simp
  then show ?thesis by (simp add: my_malloc_eq [OF sz])
qed

text \<open>The specification of \<open>my_malloc\<close> that the other operations and the clients use.\<close>

lemma my_malloc_spec:
  assumes inv: "ff_inv st bs fs" and os: "os_ok os st" and sz: "unat sz < 2 ^ 63"
  shows "\<exists>p st' bs' fs'. my_malloc os sz st = Some (p, st') \<and> ff_inv st' bs' fs' \<and>
    keeps (mem st) (mem st') (interior True (first st) bs) \<and>
    arena_base st' = arena_base (arena_reserved os st) \<and>
    (if p = 0
     then bs' = bs \<and> fs' = fs \<and> (\<forall>h \<in> set fs. \<not> fits (first st) bs (chunk (unat sz)) h) \<and>
          2 ^ 32 < 12 + szs bs + chunk (unat sz)
     else \<exists>h n. p = w64 (h + 4) \<and> chunk (unat sz) \<le> n \<and> (h, n) \<notin> used_blks (first st) bs \<and>
          used_blks (first st') bs' = insert (h, n) (used_blks (first st) bs))"
proof (cases "\<exists>h \<in> set fs. fits (first st) bs (chunk (unat sz)) h")
  case True
  obtain h n st' bs' fs' xs ys where run: "my_malloc os sz st = Some (w64 (h + 4), st')" "ff_inv st' bs' fs'"
    "same_arena st st'" "keeps (mem st) (mem st') (interior True (first st) bs)" "fs = xs @ h # ys"
    "chunk (unat sz) \<le> n" "(h, n) \<notin> used_blks (first st) bs"
    "used_blks (first st) bs' = insert (h, n) (used_blks (first st) bs)"
    by (rule my_malloc_reuse [OF inv sz True])
  have hf: "h \<in> free_hdrs (first st) bs" using ff_inv_fs [OF inv] run(5) by auto
  then have "bs \<noteq> []" by auto
  then have b: "arena_base st \<noteq> 0" by (rule ff_inv_base [OF inv])
  have "h + 16 \<le> 2 ^ 47"
    using free_hdrs_bounds [OF _ hf] heap_inv_reserved(6,7) [OF ff_inv_heap [OF inv] b] by simp
  then have "w64 (h + 4) \<noteq> 0" by (simp add: w64_eq_0_iff)
  then show ?thesis using run b by (auto simp: same_arena_def arena_reserved_id)
next
  case False
  let ?k = "chunk (unat sz)" and ?st = "scanned (length fs) st"
  have inv': "ff_inv ?st bs fs" and os': "os_ok os ?st" using inv os by (simp_all add: os_ok_def)
  have k: "16 \<le> ?k" "?k \<le> 2 ^ 63 + 32" using chunk_bounds(2,3) [of "unat sz"] sz by simp_all
  have run: "my_malloc os sz st = malloc_grow os (w64 ?k) ?st"
    using my_malloc_fresh [OF inv sz] False by blast
  have base: "arena_base (arena_reserved os ?st) = arena_base (arena_reserved os st)"
    by (simp add: arena_reserved_def)
  have kp: "keeps (mem st) (mem (arena_reserved os ?st)) (interior True (first st) bs)"
    using mem_reserved_keeps [OF ff_inv_heap [OF inv']] by simp
  show ?thesis
  proof (cases "12 + szs bs + ?k \<le> 2 ^ 32")
    case True
    then have k16: "size16 ?k" using chunk_bounds [of "unat sz"] by (auto simp: size16_def)
    obtain st' h where g: "malloc_grow os (w64 ?k) ?st = Some (w64 (h + 4), st')" "h = first st' + szs bs"
      "ff_inv st' (bs @ [(?k, True)]) fs" "arena_base st' = arena_base (arena_reserved os ?st)"
      "frame (mem (arena_reserved os ?st)) (mem st') {h ..< h + ?k}"
      by (rule malloc_grow_ok [OF inv' os' k16 True])
    have b: "arena_base st' \<noteq> 0" using ff_inv_base [OF g(3)] by simp
    note facts = heap_inv_reserved [OF ff_inv_heap [OF g(3)] b]
    have first: "first st' = first st \<or> bs = []"
      using inv g(4) base by (auto simp: arena_reserved_def ff_inv_def heap_inv_def arena_inv_def)
    have h64: "h + ?k \<le> 2 ^ 47" using facts(7) g(2) by simp
    then have "w64 (h + 4) \<noteq> 0" using k(1) by (simp add: w64_eq_0_iff)
    moreover have "keeps (mem st) (mem st') (interior True (first st) bs)"
    proof (rule keeps_trans [OF kp], rule frame_keeps [OF g(5)])
      fix x assume "x \<in> interior True (first st) bs"
      with first have "x < h" using interior_bounds [of x True "first st" bs] g(2) by auto
      then show "x < 2 ^ 64 \<and> x \<notin> {h ..< h + ?k}" using h64 by simp
    qed
    moreover have "used_blks (first st') (bs @ [(?k, True)]) = insert (h, ?k) (used_blks (first st) bs)"
      using first g(2) by auto
    moreover have "arena_base st' = arena_base (arena_reserved os st)" using g(4) base by simp
    moreover have "(h, ?k) \<notin> used_blks (first st) bs"
      using first g(2) k(1) used_blks_bounds [of h ?k "first st" bs] by auto
    ultimately have "my_malloc os sz st = Some (w64 (h + 4), st') \<and> ff_inv st' (bs @ [(?k, True)]) fs \<and>
        keeps (mem st) (mem st') (interior True (first st) bs) \<and>
        arena_base st' = arena_base (arena_reserved os st) \<and> w64 (h + 4) \<noteq> 0 \<and>
        (\<exists>h' n. w64 (h + 4) = w64 (h' + 4) \<and> ?k \<le> n \<and> (h', n) \<notin> used_blks (first st) bs \<and>
          used_blks (first st') (bs @ [(?k, True)]) = insert (h', n) (used_blks (first st) bs))"
      unfolding run g(1) using g(3) by blast
    then show ?thesis by (metis (no_types, lifting))
  next
    case False
    then show ?thesis
      using malloc_grow_full [OF inv' os' k] run kp base \<open>\<not> (\<exists>h \<in> set fs. _ h)\<close> by auto
  qed
qed

end
