(* ===== verification/Allocator_Free.thy ===== *)
theory Allocator_Free
  imports Allocator_Malloc
begin

text \<open>
  \<open>my_free\<close> of the first-fit allocator. Between clearing the used flag and pushing the block,
  the heap has one free block that is not on the free list: the state with a hole. Merging with
  a neighbour moves the hole, pushing closes it.
\<close>

section \<open>A free block off the list\<close>

definition ff_hole :: "ff_st \<Rightarrow> blk list \<Rightarrow> nat \<Rightarrow> blk list \<Rightarrow> nat list \<Rightarrow> bool" where
  "ff_hole st xs n ys fs \<longleftrightarrow> heap_inv st (xs @ (n, False) # ys) \<and>
     flist (mem st) (free_head st) fs \<and> distinct fs \<and>
     set fs = free_hdrs (first st) xs \<union> free_hdrs (first st + szs xs + n) ys \<and>
     freelist_len (alloc_stat st) = w64 (length fs)"

lemma ff_hole_facts:
  assumes "ff_hole st xs n ys fs" and h: "h = first st + szs xs"
  shows "arena_base st \<noteq> 0" and "size16 n" and "mapped (mem st) h n" and "h + n \<le> 2 ^ 47" and "12 \<le> h"
    and "\<And>x. x \<in> set fs \<Longrightarrow> x + 16 \<le> h \<or> h + n \<le> x" and "sizes_ok (xs @ (n, False) # ys)"
    and "spread fs" and "blk_at (mem st) h n False" and "h \<notin> set fs"
proof -
  let ?bs = "xs @ (n, False) # ys"
  have hp: "heap_inv st ?bs" and set: "set fs = free_hdrs (first st) xs \<union> free_hdrs (h + n) ys"
    using assms by (simp_all add: ff_hole_def)
  show b: "arena_base st \<noteq> 0" using hp by (auto simp: heap_inv_def arena_inv_def split: if_splits)
  have mem_h: "(h, n, False) \<in> set (hdrs (first st) ?bs)" using h by simp
  note facts = heap_inv_reserved [OF hp b] and blk = heap_inv_blk [OF hp b mem_h]
  show "size16 n" "mapped (mem st) h n" "h + n \<le> 2 ^ 47" "12 \<le> h" "blk_at (mem st) h n False" "sizes_ok ?bs"
    using blk facts(6) by auto
  have 16: "16 \<le> n" using blk(2) by (rule size16D)
  show nh: "h \<notin> set fs"
    using not_free_before [of xs] not_free_after [of ys] facts(6) h 16 set by simp
  have sub: "set fs \<subseteq> free_hdrs (first st) ?bs" using set h by auto
  then show "spread fs" by (rule spread_free_hdrs [OF facts(6)])
  show "x + 16 \<le> h \<or> h + n \<le> x" if "x \<in> set fs" for x
    using free_apart [OF facts(6) mem_h, of x] that sub nh by auto
qed

lemma push_hole:
  assumes hole: "ff_hole st xs n ys fs" and h: "h = first st + szs xs"
  obtains st' where "freelist_push (w64 h) st = Some st'" and "ff_inv st' (xs @ (n, False) # ys) (h # fs)"
    and "same_arena st st'" and "frame (mem st) (mem st') {h ..< h + n}"
    and "frame (mem st) (mem st') {h + 4 ..< h + 12}"
proof -
  note F = ff_hole_facts [OF hole h]
  have 16: "16 \<le> n" using F(2) by (rule size16D)
  have l64: "h + n \<le> 2 ^ 64" using F(4) by simp
  have "flist (mem st) (free_head st) fs" using hole by (simp add: ff_hole_def)
  moreover have "mapped (mem st) (h + 4) 8" by (rule mapped_mono [OF F(3)]) (use 16 in auto)
  moreover have "0 < h" "h + 12 \<le> 2 ^ 64" using F(5) l64 16 by linarith+
  moreover have "x + 16 \<le> h \<or> h + 16 \<le> x" if "x \<in> set fs" for x using F(6) [OF that] 16 by linarith
  ultimately obtain m' where m': "freelist_push (w64 h) st = Some (st\<lparr>mem := m', free_head := w64 h,
      alloc_stat := (alloc_stat st)\<lparr>freelist_len := freelist_len (alloc_stat st) + 1\<rparr>\<rparr>)"
    "flist m' (w64 h) (h # fs)" "frame (mem st) m' {h + 4 ..< h + 12}"
    using freelist_push_ok [of st fs h] by blast
  define st' where "st' = st\<lparr>mem := m', free_head := w64 h,
      alloc_stat := (alloc_stat st)\<lparr>freelist_len := freelist_len (alloc_stat st) + 1\<rparr>\<rparr>"
  have fr: "frame (mem st) (mem st') {h ..< h + n}"
    using frame_weaken [OF m'(3), of "{h ..< h + n}"] 16 by (auto simp: st'_def)
  have "blk_at m' h n False"
    by (rule blk_at_frame [OF m'(3) F(9) l64]) (use 16 in auto)
  then have "heap_inv st' (xs @ [(n, False)] @ ys)"
    using hole fr h
    by (intro heap_inv_replace [of st xs "[(n, False)]" ys "[(n, False)]" st' "{h ..< h + n}"])
      (auto simp: ff_hole_def same_arena_def st'_def)
  then have "ff_inv st' (xs @ (n, False) # ys) (h # fs)"
    using hole m'(2) F(10) h by (auto simp: ff_inv_def ff_hole_def st'_def w64_def)
  then show ?thesis
    by (intro that [of st']) (use m'(1,3) fr in \<open>auto simp: st'_def same_arena_def\<close>)
qed

text \<open>Merging two adjacent free blocks, one of them on the list and the other the hole.\<close>

lemma merge_hole:
  assumes hp: "heap_inv st (xs @ [(a, False), (b, False)] @ ys)" and g: "g = first st + szs xs"
    and fl: "flist (mem st) (free_head st) (fxs @ r # fys)" and di: "distinct (fxs @ r # fys)"
    and r: "r = g \<or> r = g + a"
    and set: "set (fxs @ fys) = free_hdrs (first st) xs \<union> free_hdrs (g + a + b) ys"
    and len: "freelist_len (alloc_stat st) = w64 (length (fxs @ fys) + 1)"
  obtains st1 m2 where "freelist_remove (w64 r) st = Some st1"
    and "word32_at (mem st1) g (tag a False)" and "word32_at (mem st1) (g + a) (tag b False)"
    and "set_tags (mem st1) (w64 g) (tag (a + b) False) = Some m2"
    and "ff_hole (st1\<lparr>mem := m2\<rparr>) xs (a + b) ys (fxs @ fys)" and "same_arena st st1"
    and "frame (mem st) m2 ({g ..< g + a + b} \<union> links (fxs @ fys))"
    and "size16 a" and "size16 b" and "a + b < 2 ^ 32"
proof -
  let ?bs = "xs @ [(a, False), (b, False)] @ ys"
  have base: "arena_base st \<noteq> 0" using hp by (auto simp: heap_inv_def arena_inv_def split: if_splits)
  note facts = heap_inv_reserved [OF hp base]
  have ma: "(g, a, False) \<in> set (hdrs (first st) ?bs)" and mb: "(g + a, b, False) \<in> set (hdrs (first st) ?bs)"
    using g by simp_all
  note A = heap_inv_blk [OF hp base ma] and B = heap_inv_blk [OF hp base mb]
  have 16: "16 \<le> a" "16 \<le> b" using A(2) B(2) by (auto dest: size16D)
  have ab: "size16 (a + b)" "a + b < 2 ^ 32"
    using A(2) B(2) facts(4) by (auto simp: size16_def elim!: dvdE)
  have l64: "g + (a + b) \<le> 2 ^ 64" using B(5) by simp
  have sub: "set (fxs @ r # fys) \<subseteq> free_hdrs (first st) ?bs" using set r g by (auto simp: add.assoc)
  have sp: "spread (fxs @ r # fys)" by (rule spread_free_hdrs [OF facts(6) sub])
  have out: "y < g \<or> g + (a + b) \<le> y" if "y \<in> links (fxs @ fys)" for y
  proof -
    have "sizes_ok ?bs" by (rule facts(6))
    then have "y \<in> interior False (first st) xs \<or> y \<in> interior False (first st + szs xs + szs [(a, False), (b, False)]) ys"
      by (rule links_around [where fs = "fxs @ fys"]) (use set g that in \<open>auto simp: add.assoc\<close>)
    then show ?thesis
      using interior_bounds [of y False "first st" xs] interior_bounds [of y False "g + (a + b)" ys] g
      by (auto simp: add.assoc)
  qed
  obtain m1 p1 where rm: "freelist_remove (w64 r) st = Some (st\<lparr>mem := m1, free_head := p1,
      alloc_stat := (alloc_stat st)\<lparr>
        remove_steps := remove_steps (alloc_stat st) + w64 (length fxs + 1),
        freelist_len := freelist_len (alloc_stat st) - 1\<rparr>\<rparr>)"
    "flist m1 p1 (fxs @ fys)" "frame (mem st) m1 (links fxs)"
    using fl sp di by (rule freelist_remove_ok)
  have o1: "y < g \<or> g + (a + b) \<le> y" if "y \<in> links fxs" for y using out that by simp
  have ta: "word32_at m1 g (tag a False)" and tb: "word32_at m1 (g + a) (tag b False)"
    using A(1) B(1) o1 16 l64
    by (auto simp: blk_at_def intro!: word32_at_frame [OF rm(3)]) (fastforce dest: o1)+
  have "mapped m1 g (a + b)"
    by (rule mapped_frame [OF rm(3) mapped_mono [OF facts(3)]])
      (use hdrs_bounds [OF ma] hdrs_bounds [OF mb] facts(8) in linarith)+
  then obtain m2 where m2: "set_tags m1 (w64 g) (tag (a + b) False) = Some m2" "blk_at m2 g (a + b) False"
    "frame m1 m2 ({g ..< g + 4} \<union> {g + (a + b) - 4 ..< g + (a + b)})"
    using set_tags_mapped [OF ab(1) _ l64] by blast
  have fr2: "frame m1 m2 {g ..< g + (a + b)}" by (rule frame_weaken [OF m2(3)]) (use 16 in auto)
  have "links (fxs @ fys) \<inter> {g ..< g + (a + b)} = {}" using out by fastforce
  then have fl2: "flist m2 p1 (fxs @ fys)" by (rule fpath_frame [OF fr2 rm(2)])
  have fr: "frame (mem st) m2 ({g ..< g + a + b} \<union> links (fxs @ fys))"
    by (rule frame_weaken [OF frame_trans_Un [OF rm(3) fr2]]) (auto simp: add.assoc)
  define st1 where "st1 = st\<lparr>mem := m1, free_head := p1, alloc_stat := (alloc_stat st)\<lparr>
        remove_steps := remove_steps (alloc_stat st) + w64 (length fxs + 1),
        freelist_len := freelist_len (alloc_stat st) - 1\<rparr>\<rparr>"
  have "heap_inv (st1\<lparr>mem := m2\<rparr>) (xs @ [(a + b, False)] @ ys)"
  proof (rule heap_inv_replace [OF hp])
    show "frame (mem st) (mem (st1\<lparr>mem := m2\<rparr>)) ({g ..< g + a + b} \<union> links (fxs @ fys))" using fr by simp
    fix x assume "x \<in> {g ..< g + a + b} \<union> links (fxs @ fys)"
    then show "(first st + szs xs \<le> x \<and> x < first st + szs xs + szs [(a, False), (b, False)]) \<or>
        x \<in> interior False (first st) xs \<or> x \<in> interior False (first st + szs xs + szs [(a, False), (b, False)]) ys"
      using links_around [OF facts(6), of "fxs @ fys" "first st" x] set g by (auto simp: add.assoc)
  qed (use m2(2) g in \<open>auto simp: same_arena_def st1_def\<close>)
  then have "ff_hole (st1\<lparr>mem := m2\<rparr>) xs (a + b) ys (fxs @ fys)"
    using fl2 di set len g by (simp add: ff_hole_def st1_def w64_def add.assoc)
  then show ?thesis
    by (intro that [of st1 m2])
      (use rm(1) ta tb m2(1) fr A(2) B(2) ab in \<open>auto simp: same_arena_def st1_def\<close>)
qed

section \<open>The two merges\<close>

lemma hole_heap_hi:
  assumes hole: "ff_hole st xs n ys fs"
  shows "heap_lo st = w64 (first st)" and "heap_hi st = w64 (first st + szs xs + n + szs ys)"
    and "first st + szs xs + n + szs ys \<le> 2 ^ 47"
proof -
  have hp: "heap_inv st (xs @ (n, False) # ys)" using hole by (simp add: ff_hole_def)
  have b: "arena_base st \<noteq> 0" by (rule ff_hole_facts(1) [OF hole refl])
  show "heap_lo st = w64 (first st)" and "heap_hi st = w64 (first st + szs xs + n + szs ys)"
    using hp b by (simp_all add: heap_inv_def arena_inv_def add.assoc)
  show "first st + szs xs + n + szs ys \<le> 2 ^ 47"
    using heap_inv_reserved(7) [OF hp b] by simp
qed

text \<open>The payloads of the used blocks survive a change to one free block and to links.\<close>

lemma hole_keeps:
  assumes hp: "heap_inv st bs" and b: "arena_base st \<noteq> 0"
    and fr: "frame (mem st) m' (A \<union> links gs)" and gs: "set gs \<subseteq> free_hdrs (first st) bs"
    and A: "\<And>x. x \<in> A \<Longrightarrow> \<exists>h n. (h, n, False) \<in> set (hdrs (first st) bs) \<and> h \<le> x \<and> x < h + n"
  shows "keeps (mem st) m' (interior True (first st) bs)"
proof (rule frame_keeps [OF fr])
  fix x assume x: "x \<in> interior True (first st) bs"
  note facts = heap_inv_reserved [OF hp b]
  have "links gs \<subseteq> interior False (first st) bs" by (rule links_free_interior [OF facts(6) gs])
  then have "x \<notin> A \<union> links gs" using used_not_free [OF facts(6) x] A [of x] by blast
  moreover have "x < 2 ^ 64" using interior_bounds [OF x] facts(7) by simp
  ultimately show "x < 2 ^ 64 \<and> x \<notin> A \<union> links gs" by blast
qed

lemma free_merge_right_ok:
  assumes hole: "ff_hole st xs n ys fs" and h: "h = first st + szs xs"
  obtains st' n' ys' fs' where "free_merge_right (w64 h) st = Some st'" and "ff_hole st' xs n' ys' fs'"
    and "same_arena st st'"
    and "keeps (mem st) (mem st') (interior True (first st) (xs @ (n, False) # ys))"
    and "used_blks (first st) (xs @ (n', False) # ys') = used_blks (first st) (xs @ (n, False) # ys)"
    and "interior True (first st) (xs @ (n', False) # ys') = interior True (first st) (xs @ (n, False) # ys)"
    and "n' + szs ys' = n + szs ys"
proof -
  note F = ff_hole_facts [OF hole h] and H = hole_heap_hi [OF hole] and result = that
  have hp: "heap_inv st (xs @ (n, False) # ys)" using hole by (simp add: ff_hole_def)
  have n32: "n < 2 ^ 32" using F(2) by (rule size16D)
  have ld: "load32 (mem st) (w64 h) = Some (tag n False)" using F(9) by (simp add: blk_at_def word32_atD)
  have lt: "w64 (h + n) < heap_hi st \<longleftrightarrow> 0 < szs ys"
    using H(2,3) h by (simp add: w64_less_iff)
  have unchanged: ?thesis if "free_merge_right (w64 h) st = Some st"
    by (rule result [of st n ys fs]) (use that hole in simp_all)
  show ?thesis
  proof (cases ys)
    case Nil
    then show ?thesis
      using ld lt F(2) n32 by (intro unchanged) (simp add: free_merge_right_def ucast_w32 Let_def)
  next
    case (Cons bu ys2)
    obtain b u where bu: "bu = (b, u)" by (cases bu)
    have mb: "(h + n, b, u) \<in> set (hdrs (first st) (xs @ (n, False) # ys))" using Cons bu h by simp
    note B = heap_inv_blk [OF hp F(1) mb]
    have pos: "0 < szs ys" using B(2) Cons bu by (auto dest: size16D)
    have ldb: "load32 (mem st) (w64 (h + n)) = Some (tag b u)" using B(1) by (simp add: blk_at_def word32_atD)
    show ?thesis
    proof (cases u)
      case True
      then show ?thesis
        using ld lt F(2) n32 pos ldb B(2)
        by (intro unchanged) (simp add: free_merge_right_def ucast_w32 Let_def)
    next
      case False
      have fs: "set fs = free_hdrs (first st) xs \<union> ({h + n} \<union> free_hdrs (h + n + b) ys2)"
        using hole Cons bu False h by (simp add: ff_hole_def)
      then obtain fxs fys where sp: "fs = fxs @ (h + n) # fys" by (metis UnCI insertI1 split_list)
      have "h + n \<notin> free_hdrs (first st) xs" "h + n \<notin> free_hdrs (h + n + b) ys2"
        using not_free_before [of xs] not_free_after [of ys2] F(7) h Cons B(2) by (auto dest: size16D)
      then have nin: "h + n \<notin> free_hdrs (first st) xs \<union> free_hdrs (h + n + b) ys2" by simp
      have di: "distinct (fxs @ (h + n) # fys)" and len: "freelist_len (alloc_stat st) = w64 (length fs)"
        using hole sp by (simp_all add: ff_hole_def)
      have "set (fxs @ (h + n) # fys) = insert (h + n) (free_hdrs (first st) xs \<union> free_hdrs (h + n + b) ys2)"
        using fs sp by simp
      from set_remove_mid [OF di this nin]
      have rest: "set (fxs @ fys) = free_hdrs (first st) xs \<union> free_hdrs (h + n + b) ys2" .
      have hp': "heap_inv st (xs @ [(n, False), (b, False)] @ ys2)" using hp Cons bu False by simp
      have fl: "flist (mem st) (free_head st) (fxs @ (h + n) # fys)" using hole sp by (simp add: ff_hole_def)
      obtain st1 m2 where M: "freelist_remove (w64 (h + n)) st = Some st1"
        "word32_at (mem st1) h (tag n False)" "word32_at (mem st1) (h + n) (tag b False)"
        "set_tags (mem st1) (w64 h) (tag (n + b) False) = Some m2"
        "ff_hole (st1\<lparr>mem := m2\<rparr>) xs (n + b) ys2 (fxs @ fys)" "same_arena st st1"
        "frame (mem st) m2 ({h ..< h + n + b} \<union> links (fxs @ fys))" "n + b < 2 ^ 32"
        by (rule merge_hole [OF hp' h fl di _ rest]) (use sp len in auto)
      have "free_merge_right (w64 h) st = Some (st1\<lparr>mem := m2\<rparr>)"
        using ld lt F(2) n32 pos ldb B(2) False M(1) M(4) [unfolded tag_False]
          word32_atD [OF M(3)] size16D(3) [OF B(2)]
        by (simp add: free_merge_right_def ucast_w32 ucast_w64 Let_def)
      moreover have "keeps (mem st) m2 (interior True (first st) (xs @ (n, False) # ys))"
      proof (rule hole_keeps [OF hp F(1) M(7)])
        show "set (fxs @ fys) \<subseteq> free_hdrs (first st) (xs @ (n, False) # ys)"
          using rest Cons bu False h by auto
        fix x assume "x \<in> {h ..< h + n + b}"
        then show "\<exists>g k. (g, k, False) \<in> set (hdrs (first st) (xs @ (n, False) # ys)) \<and> g \<le> x \<and> x < g + k"
          using mb False h by (cases "x < h + n") fastforce+
      qed
      ultimately show ?thesis
        by (intro that [of "st1\<lparr>mem := m2\<rparr>" "n + b" ys2 "fxs @ fys"])
          (use M(5,6) Cons bu False in \<open>auto simp: same_arena_def add.assoc\<close>)
    qed
  qed
qed

lemma free_merge_left_ok:
  assumes hole: "ff_hole st xs n ys fs" and h: "h = first st + szs xs"
  obtains st' bs' fs' where "free_merge_left (w64 h) st = Some st'" and "ff_inv st' bs' fs'"
    and "same_arena st st'"
    and "keeps (mem st) (mem st') (interior True (first st) (xs @ (n, False) # ys))"
    and "used_blks (first st) bs' = used_blks (first st) (xs @ (n, False) # ys)"
    and "interior True (first st) bs' = interior True (first st) (xs @ (n, False) # ys)"
    and "szs bs' = szs (xs @ (n, False) # ys)"
proof -
  note F = ff_hole_facts [OF hole h] and H = hole_heap_hi [OF hole] and result = that
  let ?bs = "xs @ (n, False) # ys"
  have hp: "heap_inv st ?bs" using hole by (simp add: ff_hole_def)
  have fset: "set fs \<subseteq> free_hdrs (first st) ?bs" using hole by (auto simp: ff_hole_def)
  have n32: "n < 2 ^ 32" using F(2) by (rule size16D)
  have h4: "4 \<le> h" "h < 2 ^ 64" using F(4,5) by simp_all
  have pushed: ?thesis if run: "free_merge_left (w64 h) st = freelist_push (w64 h) st"
  proof -
    obtain st' where p: "freelist_push (w64 h) st = Some st'" "ff_inv st' ?bs (h # fs)" "same_arena st st'"
      "frame (mem st) (mem st') {h ..< h + n}"
      by (rule push_hole [OF hole h])
    have "keeps (mem st) (mem st') (interior True (first st) ?bs)"
      by (rule hole_keeps [OF hp F(1), of "mem st'" "{h ..< h + n}" "[]"])
        (use p(4) h in \<open>auto simp: links_def\<close>)
    then show ?thesis using result [of st' ?bs] p run by simp
  qed
  show ?thesis
  proof (cases xs rule: rev_cases)
    case Nil
    have "mapped (mem st) (h - 4) 4"
      by (rule mapped_mono [OF heap_inv_reserved(3) [OF hp F(1)]])
        (use Nil h in auto)
    then obtain lf where "word32_at (mem st) (h - 4) lf" by (rule load32_mapped)
    moreover have "\<not> heap_lo st < w64 (h - 4)"
      using H(1) Nil h h4 by (simp add: w64_less_iff)
    ultimately show ?thesis
      using h4 by (intro pushed) (simp add: free_merge_left_def word32_atD Let_def)
  next
    case (snoc xs' au)
    obtain a u where au: "au = (a, u)" by (cases au)
    define g where "g = first st + szs xs'"
    have hg: "h = g + a" using h snoc au by (simp add: g_def)
    have mg: "(g, a, u) \<in> set (hdrs (first st) ?bs)" using snoc au by (simp add: g_def)
    note G = heap_inv_blk [OF hp F(1) mg]
    have a: "16 \<le> a" "a < 2 ^ 32" using G(2) by (auto dest: size16D)
    have gt: "heap_lo st < w64 (h - 4)"
      using H(1) a hg h4 by (simp add: w64_less_iff g_def)
    from G(1) hg consider (used) "word32_at (mem st) (h - 4) (tag a True)"
      | (free) "word32_at (mem st) (h - 4) (tag a False)" "\<not> u"
      by (cases u) (auto simp: blk_at_def)
    then show ?thesis
    proof cases
      case used
      then show ?thesis
        using h4 gt G(2) by (intro pushed) (simp add: free_merge_left_def word32_atD Let_def)
    next
      case free
      have fs: "set fs = free_hdrs (first st) xs' \<union> ({g} \<union> free_hdrs (g + a + n) ys)"
        using hole snoc au free(2) by (auto simp: ff_hole_def g_def add.assoc)
      then obtain fxs fys where sp: "fs = fxs @ g # fys" by (metis UnCI insertI1 split_list)
      have "g \<notin> free_hdrs (first st) xs' \<union> free_hdrs (g + a + n) ys"
        using not_free_before [of xs' "first st" g] not_free_after [of ys g "g + a + n"] F(7) snoc a
        by (simp add: g_def)
      moreover have di: "distinct (fxs @ g # fys)" and len: "freelist_len (alloc_stat st) = w64 (length fs)"
        using hole sp by (simp_all add: ff_hole_def)
      moreover have "set (fxs @ g # fys) = insert g (free_hdrs (first st) xs' \<union> free_hdrs (g + a + n) ys)"
        using fs sp by simp
      ultimately have rest: "set (fxs @ fys) = free_hdrs (first st) xs' \<union> free_hdrs (g + a + n) ys"
        using set_remove_mid by metis
      have bs: "?bs = xs' @ [(a, False), (n, False)] @ ys" using snoc au free(2) by simp
      have hp': "heap_inv st (xs' @ [(a, False), (n, False)] @ ys)" using hp bs by simp
      have fl: "flist (mem st) (free_head st) (fxs @ g # fys)" using hole sp by (simp add: ff_hole_def)
      obtain st1 m2 where M: "freelist_remove (w64 g) st = Some st1"
        "word32_at (mem st1) g (tag a False)" "word32_at (mem st1) (g + a) (tag n False)"
        "set_tags (mem st1) (w64 g) (tag (a + n) False) = Some m2"
        "ff_hole (st1\<lparr>mem := m2\<rparr>) xs' (a + n) ys (fxs @ fys)" "same_arena st st1"
        "frame (mem st) m2 ({g ..< g + a + n} \<union> links (fxs @ fys))" "a + n < 2 ^ 32"
        by (rule merge_hole [OF hp' g_def fl di _ rest]) (use sp len in auto)
      have first1: "g = first (st1\<lparr>mem := m2\<rparr>) + szs xs'" using M(6) by (simp add: g_def same_arena_def)
      obtain st' where p: "freelist_push (w64 g) (st1\<lparr>mem := m2\<rparr>) = Some st'"
        "ff_inv st' (xs' @ (a + n, False) # ys) (g # fxs @ fys)" "same_arena (st1\<lparr>mem := m2\<rparr>) st'"
        "frame (mem (st1\<lparr>mem := m2\<rparr>)) (mem st') {g ..< g + (a + n)}"
        by (rule push_hole [OF M(5) first1])
      have "frame (mem st) (mem st') ({g ..< g + a + n} \<union> links (fxs @ fys))"
        using frame_trans [OF M(7) frame_weaken [of m2 "mem st'" "{g ..< g + (a + n)}"]] p(4)
        by (simp add: add.assoc)
      then have kp: "keeps (mem st) (mem st') (interior True (first st) ?bs)"
      proof (rule hole_keeps [OF hp F(1)])
        show "set (fxs @ fys) \<subseteq> free_hdrs (first st) ?bs" using fset sp by auto
        fix x assume "x \<in> {g ..< g + a + n}"
        then show "\<exists>g k. (g, k, False) \<in> set (hdrs (first st) ?bs) \<and> g \<le> x \<and> x < g + k"
          unfolding bs by (cases "x < g + a") (fastforce simp: g_def)+
      qed
      have "w64 (h - 4) - w64 a + 4 = w64 g" using hg a G(4) by simp
      moreover have "w32 n + w32 a = tag (a + n) False" by (simp add: tag_def w32_def add.commute)
      ultimately have "free_merge_left (w64 h) st = Some st'"
        using h4 gt G(2) F(2) a(2) word32_atD [OF free(1)] M(1,4) p(1) word32_atD [OF M(2)]
          word32_atD [OF M(3)] hg
        by (simp add: free_merge_left_def ucast_w32 Let_def)
      moreover have "same_arena st st'" using M(6) p(3) by (auto simp: same_arena_def)
      ultimately show ?thesis
        using result [OF _ p(2) _ kp] unfolding bs by (simp add: add.assoc)
    qed
  qed
qed

section \<open>The whole operation\<close>

lemma open_hole:
  assumes inv: "ff_inv st (xs @ (n, True) # ys) fs" and h: "h = first st + szs xs"
  obtains m1 where "store32 (mem st) (w64 h) (tag n False) = Some m1"
    and "ff_hole (st\<lparr>mem := m1\<rparr>) xs n ys fs" and "frame (mem st) m1 {h ..< h + 4}"
proof -
  let ?bs = "xs @ (n, True) # ys"
  have hp: "heap_inv st ?bs" using inv by (rule ff_inv_heap)
  have b: "arena_base st \<noteq> 0" using ff_inv_base [OF inv] by simp
  have mh: "(h, n, True) \<in> set (hdrs (first st) ?bs)" using h by simp
  note facts = heap_inv_reserved [OF hp b] and B = heap_inv_blk [OF hp b mh]
  have 16: "16 \<le> n" using B(2) by (rule size16D)
  have l64: "h + n \<le> 2 ^ 64" using B(5) by simp
  have "mapped (mem st) h 4" by (rule mapped_mono [OF B(3)]) (use 16 in auto)
  moreover have "h + 4 \<le> 2 ^ 64" using l64 16 by simp
  ultimately obtain m1 where m1: "store32 (mem st) (w64 h) (tag n False) = Some m1"
    "word32_at m1 h (tag n False)" "frame (mem st) m1 {h ..< h + 4}"
    by (rule store32_mapped)
  have "word32_at (mem st) (h + n - 4) (tag n True)" using B(1) by (auto simp: blk_at_def)
  then have "word32_at m1 (h + n - 4) (tag n True)"
    by (rule word32_at_frame [OF m1(3)]) (use 16 l64 in auto)
  with m1(2) B(2) have blk: "blk_at m1 h n False" by (simp add: blk_at_def)
  have "heap_inv (st\<lparr>mem := m1\<rparr>) (xs @ [(n, False)] @ ys)"
    by (rule heap_inv_replace [of st xs "[(n, True)]" ys _ _ "{h ..< h + 4}"])
      (use hp h m1(3) blk 16 in \<open>auto simp: same_arena_def\<close>)
  moreover have fl: "flist (mem st) (free_head st) fs" and set: "set fs = free_hdrs (first st) ?bs"
    using inv by (simp_all add: ff_inv_def)
  moreover have "flist m1 (free_head st) fs"
  proof (rule fpath_frame [OF m1(3) fl])
    have "x + 16 \<le> h \<or> h + n \<le> x" if "x \<in> set fs" for x
    proof (rule free_apart [OF facts(6) mh])
      show "x \<in> free_hdrs (first st) ?bs" using that set by simp
      show "x \<noteq> h"
        using that set h 16 not_free_before [of xs] not_free_after [of ys] facts(6) by auto
    qed
    then show "links fs \<inter> {h ..< h + 4} = {}" using 16 by (fastforce simp: links_def)
  qed
  ultimately have "ff_hole (st\<lparr>mem := m1\<rparr>) xs n ys fs"
    using inv by (simp add: ff_hole_def ff_inv_def)
  with m1 show ?thesis using that by blast
qed

text \<open>Freeing a live block: it leaves the set of used blocks and every other payload is kept.\<close>

lemma my_free_spec:
  assumes inv: "ff_inv st bs fs" and live: "(h, n) \<in> used_blks (first st) bs"
  shows "\<exists>st' bs' fs'. my_free (w64 (h + 4)) st = Some st' \<and> ff_inv st' bs' fs' \<and> same_arena st st' \<and>
    used_blks (first st) bs' = used_blks (first st) bs - {(h, n)} \<and>
    keeps (mem st) (mem st') (interior True (first st) bs') \<and> szs bs' = szs bs"
proof -
  have mh: "(h, n, True) \<in> set (hdrs (first st) bs)" using live by (simp add: used_blks_def)
  obtain xs ys where bs: "bs = xs @ (n, True) # ys" and h: "h = first st + szs xs"
    using mh by (rule hdrs_split)
  have b: "arena_base st \<noteq> 0" using ff_inv_base [OF inv] bs by simp
  have hp: "heap_inv st bs" using inv by (rule ff_inv_heap)
  note facts = heap_inv_reserved [OF hp b] and B = heap_inv_blk [OF hp b mh]
  have inv': "ff_inv st (xs @ (n, True) # ys) fs" using inv bs by simp
  obtain m1 where m1: "store32 (mem st) (w64 h) (tag n False) = Some m1"
    "ff_hole (st\<lparr>mem := m1\<rparr>) xs n ys fs" "frame (mem st) m1 {h ..< h + 4}"
    by (rule open_hole [OF inv' h])
  let ?st1 = "st\<lparr>mem := m1\<rparr>"
  obtain st2 n' ys' fs2 where R: "free_merge_right (w64 h) ?st1 = Some st2" "ff_hole st2 xs n' ys' fs2"
    "same_arena ?st1 st2"
    "keeps (mem ?st1) (mem st2) (interior True (first ?st1) (xs @ (n, False) # ys))"
    "used_blks (first ?st1) (xs @ (n', False) # ys') = used_blks (first ?st1) (xs @ (n, False) # ys)"
    "interior True (first ?st1) (xs @ (n', False) # ys') = interior True (first ?st1) (xs @ (n, False) # ys)"
    "n' + szs ys' = n + szs ys"
    by (rule free_merge_right_ok [OF m1(2), of h]) (use h in simp)
  have first2: "first st2 = first st" using R(3) by (simp add: same_arena_def)
  obtain st3 bs3 fs3 where L: "free_merge_left (w64 h) st2 = Some st3" "ff_inv st3 bs3 fs3"
    "same_arena st2 st3"
    "keeps (mem st2) (mem st3) (interior True (first st2) (xs @ (n', False) # ys'))"
    "used_blks (first st2) bs3 = used_blks (first st2) (xs @ (n', False) # ys')"
    "interior True (first st2) bs3 = interior True (first st2) (xs @ (n', False) # ys')"
    "szs bs3 = szs (xs @ (n', False) # ys')"
    by (rule free_merge_left_ok [OF R(2), of h]) (use h first2 in simp)
  have I: "interior True (first st) bs3 = interior True (first st) (xs @ (n, False) # ys)"
    using L(6) R(6) first2 by simp
  have "keeps (mem st) m1 (interior True (first st) (xs @ (n, False) # ys))"
  proof (rule frame_keeps [OF m1(3)])
    fix x assume x: "x \<in> interior True (first st) (xs @ (n, False) # ys)"
    then have "x < h \<or> h + n \<le> x"
      using interior_bounds [of x True "first st" xs] interior_bounds [of x True "h + n" ys] h by auto
    moreover have "x < 2 ^ 64" using interior_bounds [OF x] facts(7) bs by simp
    ultimately show "x < 2 ^ 64 \<and> x \<notin> {h ..< h + 4}" using size16D(1) [OF B(2)] by auto
  qed
  moreover have "keeps m1 (mem st2) (interior True (first st) (xs @ (n, False) # ys))" using R(4) by simp
  moreover have "keeps (mem st2) (mem st3) (interior True (first st) (xs @ (n, False) # ys))"
    using L(4) unfolding first2 L(6) [unfolded first2, symmetric] I .
  ultimately have kp: "keeps (mem st) (mem st3) (interior True (first st) bs3)"
    unfolding I by (blast intro: keeps_trans)
  have run: "my_free (w64 (h + 4)) st = Some st3"
  proof -
    have "load32 (mem st) (w64 h) = Some (tag n True)" using B(1) by (simp add: blk_at_def word32_atD)
    moreover have "w64 (h + 4) \<noteq> 0" using B(5) size16D(1) [OF B(2)] by (simp add: w64_eq_0_iff)
    ultimately show ?thesis using m1(1) R(1) L(1) B(2) by (simp add: my_free_def Let_def)
  qed
  have "used_blks (first st) bs3 = used_blks (first st) bs - {(h, n)}"
    unfolding bs used_minus [OF size16D(1) [OF B(2)] h] using L(5) R(5) first2 h by simp
  moreover have "same_arena st st3" using R(3) L(3) by (auto simp: same_arena_def)
  moreover have "szs bs3 = szs bs" using L(7) R(7) bs by simp
  ultimately show ?thesis using run L(2) kp by blast
qed

text \<open>The guard against double frees: a block whose header is marked free is left alone.\<close>

lemma my_free_free:
  assumes inv: "ff_inv st bs fs" and "h \<in> free_hdrs (first st) bs"
  shows "my_free (w64 (h + 4)) st = Some st"
proof -
  obtain n where mh: "(h, n, False) \<in> set (hdrs (first st) bs)" using assms(2) by (auto simp: free_hdrs_def)
  then have "bs \<noteq> []" by auto
  then have b: "arena_base st \<noteq> 0" by (rule ff_inv_base [OF inv])
  note B = heap_inv_blk [OF ff_inv_heap [OF inv] b mh]
  have "load32 (mem st) (w64 h) = Some (tag n False)" using B(1) by (simp add: blk_at_def word32_atD)
  then show ?thesis using B(2) by (simp add: my_free_def Let_def)
qed

end
