(* ===== verification/Allocator_Calloc.thy ===== *)
theory Allocator_Calloc
  imports Allocator_Free
begin

text \<open>
  Writes to the payloads of used blocks, by the client or by the C library on its behalf, keep
  the invariant; \<open>my_calloc\<close> refuses products that overflow and returns zeroed payloads.
\<close>

section \<open>Writes to payloads\<close>

lemma ff_inv_write:
  assumes inv: "ff_inv st bs fs" and fr: "frame (mem st) m' A" and A: "A \<subseteq> interior True (first st) bs"
  shows "ff_inv (st\<lparr>mem := m'\<rparr>) bs fs"
proof (cases "bs = []")
  case True
  then have "A = {}" using A by simp
  then have "m' = mem st" using fr frame_empty by blast
  then show ?thesis using inv by simp
next
  case False
  then have b: "arena_base st \<noteq> 0" by (rule ff_inv_base [OF inv])
  note facts = heap_inv_reserved [OF ff_inv_heap [OF inv] b]
  have lay: "layout m' (first st) bs"
    by (rule layout_frame [OF fr facts(5)]) (use facts(7) A in auto)
  have fl: "flist (mem st) (free_head st) fs" and set: "set fs = free_hdrs (first st) bs"
    using inv by (simp_all add: ff_inv_def)
  have "links fs \<subseteq> interior False (first st) bs" by (rule links_free_interior [OF facts(6)]) (use set in simp)
  then have "links fs \<inter> A = {}" using A used_not_free(1) [OF facts(6)] by blast
  then have "flist m' (free_head st) fs" by (rule fpath_frame [OF fr fl])
  moreover have "mapped m' (unat (arena_base st)) (2 ^ 32)" by (rule mapped_frame [OF fr facts(3)])
  ultimately show ?thesis
    using inv lay b by (auto simp: ff_inv_def heap_inv_def arena_inv_def)
qed

lemma used_blk_facts:
  assumes inv: "ff_inv st bs fs" and live: "(h, n) \<in> used_blks (first st) bs"
  shows "arena_base st \<noteq> 0" and "size16 n" and "mapped (mem st) h n" and "h + n \<le> 2 ^ 47" and "12 \<le> h"
    and "payload_of h n \<subseteq> interior True (first st) bs" and "blk_at (mem st) h n True" and "(h + 4) mod 16 = 0"
    and "w64 (h + 4) \<noteq> 0"
  using heap_used_facts [OF ff_inv_heap [OF inv] live] by simp_all

lemma payload_write:
  assumes inv: "ff_inv st bs fs" and live: "(h, n) \<in> used_blks (first st) bs" and len: "i + length xs + 8 \<le> n"
  obtains m' where "store_bytes (mem st) (w64 (h + 4 + i)) xs = Some m'" and "bytes_at m' (h + 4 + i) xs"
    and "frame (mem st) m' {h + 4 + i ..< h + 4 + i + length xs}" and "ff_inv (st\<lparr>mem := m'\<rparr>) bs fs"
proof -
  obtain m' where m': "store_bytes (mem st) (w64 (h + 4 + i)) xs = Some m'" "bytes_at m' (h + 4 + i) xs"
    "frame (mem st) m' {h + 4 + i ..< h + 4 + i + length xs}"
    and sub: "{h + 4 + i ..< h + 4 + i + length xs} \<subseteq> interior True (first st) bs"
    using ff_inv_heap [OF inv] live len by (rule heap_payload_write)
  with ff_inv_write [OF inv m'(3) sub] show ?thesis using that by blast
qed

lemma payload_store:
  assumes inv: "ff_inv st bs fs" and live: "(h, n) \<in> used_blks (first st) bs" and len: "length xs + 8 \<le> n"
  obtains m' where "store_bytes (mem st) (w64 (h + 4)) xs = Some m'" and "bytes_at m' (h + 4) xs"
    and "frame (mem st) m' {h + 4 ..< h + 4 + length xs}" and "ff_inv (st\<lparr>mem := m'\<rparr>) bs fs"
  using payload_write [OF inv live, of 0 xs] len by auto

section \<open>calloc\<close>

lemma my_calloc_refused:
  assumes "nmemb = 0 \<or> sz = 0 \<or> 2 ^ 64 \<le> unat nmemb * unat sz"
  shows "my_calloc os nmemb sz st = Some (0, st)"
proof (cases "nmemb = 0 \<or> sz = 0")
  case False
  then have "SIZE_MAX div sz < nmemb" using assms calloc_guard by auto
  then show ?thesis by (simp add: my_calloc_def)
qed (simp add: my_calloc_def)

lemma my_calloc_spec:
  assumes inv: "ff_inv st bs fs" and os: "os_ok os st"
    and pos: "0 < unat nmemb * unat sz" and lim: "unat nmemb * unat sz < 2 ^ 63"
  shows "\<exists>p st' bs' fs'. my_calloc os nmemb sz st = Some (p, st') \<and> ff_inv st' bs' fs' \<and>
    keeps (mem st) (mem st') (interior True (first st) bs) \<and>
    arena_base st' = arena_base (arena_reserved os st) \<and>
    (if p = 0 then bs' = bs \<and> fs' = fs
     else \<exists>h n. p = w64 (h + 4) \<and> chunk (unat nmemb * unat sz) \<le> n \<and> (h, n) \<notin> used_blks (first st) bs \<and>
       used_blks (first st') bs' = insert (h, n) (used_blks (first st) bs) \<and>
       bytes_at (mem st') (h + 4) (replicate (unat nmemb * unat sz) 0))"
proof -
  let ?t = "unat nmemb * unat sz"
  have nz: "nmemb \<noteq> 0" "sz \<noteq> 0" using pos by auto
  have ut: "unat (nmemb * sz) = ?t" using lim by (simp add: unat_word_ariths)
  have g: "\<not> SIZE_MAX div sz < nmemb" using calloc_guard [OF nz(2), of nmemb] lim by simp
  obtain p st1 bs1 fs1 where M: "my_malloc os (nmemb * sz) st = Some (p, st1)" "ff_inv st1 bs1 fs1"
    "keeps (mem st) (mem st1) (interior True (first st) bs)" "arena_base st1 = arena_base (arena_reserved os st)"
    "if p = 0 then bs1 = bs \<and> fs1 = fs \<and> (\<forall>h \<in> set fs. \<not> fits (first st) bs (chunk ?t) h) \<and>
          2 ^ 32 < 12 + szs bs + chunk ?t
     else \<exists>h n. p = w64 (h + 4) \<and> chunk ?t \<le> n \<and> (h, n) \<notin> used_blks (first st) bs \<and>
          used_blks (first st1) bs1 = insert (h, n) (used_blks (first st) bs)"
    using my_malloc_spec [OF inv os, of "nmemb * sz"] lim unfolding ut by blast
  show ?thesis
  proof (cases "p = 0")
    case True
    then have "my_calloc os nmemb sz st = Some (p, st1)" using M(1) nz g by (simp add: my_calloc_def)
    then show ?thesis using M True by auto
  next
    case False
    then obtain h n where hn: "p = w64 (h + 4)" "chunk ?t \<le> n" "(h, n) \<notin> used_blks (first st) bs"
      "used_blks (first st1) bs1 = insert (h, n) (used_blks (first st) bs)"
      using M(5) by auto
    have live: "(h, n) \<in> used_blks (first st1) bs1" using hn(4) by simp
    have len: "length (replicate ?t (0 :: u8)) + 8 \<le> n" using chunk_bounds(1) [of ?t] hn(2) by simp
    obtain m' where S: "store_bytes (mem st1) (w64 (h + 4)) (replicate ?t 0) = Some m'"
      "bytes_at m' (h + 4) (replicate ?t 0)"
      "frame (mem st1) m' {h + 4 ..< h + 4 + length (replicate ?t (0 :: u8))}" "ff_inv (st1\<lparr>mem := m'\<rparr>) bs1 fs1"
      by (rule payload_store [OF M(2) live len])
    have run: "my_calloc os nmemb sz st = Some (p, st1\<lparr>mem := m'\<rparr>)"
      using M(1) nz g False S(1) hn(1) by (simp add: my_calloc_def memset_def ut)
    have "keeps (mem st1) m' (interior True (first st) bs)"
    proof (rule frame_keeps [OF S(3)])
      fix x assume x: "x \<in> interior True (first st) bs"
      then obtain g k where gk: "(g, k, True) \<in> set (hdrs (first st) bs)" "g + 4 \<le> x" "x + 4 < g + k"
        by (rule interiorE)
      then have "(g, k) \<in> used_blks (first st) bs" by (simp add: used_blks_def)
      with hn(3,4) have "(g, k) \<noteq> (h, n)" and gk1: "(g, k) \<in> used_blks (first st1) bs1" by auto
      moreover have ok: "sizes_ok bs1"
        using ff_inv_heap [OF M(2)] by (auto simp: heap_inv_def dest: layout_sizes_ok)
      ultimately have "g + k \<le> h \<or> h + n \<le> g"
        using hdrs_disjoint [OF ok, of h n True "first st1" g k True] live by (auto simp: used_blks_def)
      moreover have "g + k \<le> 2 ^ 47" by (rule used_blk_facts(4) [OF M(2) gk1])
      ultimately show "x < 2 ^ 64 \<and> x \<notin> {h + 4 ..< h + 4 + length (replicate ?t (0 :: u8))}"
        using gk len by auto
    qed
    then have "keeps (mem st) m' (interior True (first st) bs)" by (rule keeps_trans [OF M(3)])
    then show ?thesis using run S(2,4) M(4) hn False by auto
  qed
qed

end
