(* ===== verification/Allocator_Realloc.thy ===== *)
theory Allocator_Realloc
  imports Allocator_Calloc
begin

text \<open>
  \<open>my_realloc\<close> of the first-fit allocator: shrinking in place, growing into a free right
  neighbour, and moving. Each path keeps the invariant, the payloads of the other live blocks and
  the common prefix of the old and the new payload. The requested size must stay below
  \<open>2^32 - 32\<close>: the rounding mask of the code is 32 bits wide.
\<close>

section \<open>The rounded size\<close>

lemma and_ucast_not: "(x :: u64) AND ucast (NOT m :: u32) = take_bit 32 (x AND NOT (ucast m))"
  by (rule bit_word_eqI) (auto simp: bit_simps)

lemma realloc_mask: "(x :: u64) AND ucast (NOT 15 :: u32) = take_bit 32 (x AND NOT 15)"
proof -
  have "ucast (15 :: u32) = (15 :: u64)" by simp
  then show ?thesis using and_ucast_not [of x 15] by (simp only:)
qed

lemma realloc_size_eq:
  assumes "unat sz < 2 ^ 63"
  shows "realloc_size sz = w64 (chunk (unat sz) mod 2 ^ 32)"
proof -
  have "sz + 8 + 15 = sz + 4 + 4 + 15" by simp
  then have "realloc_size sz = take_bit 32 (w64 (chunk (unat sz)))"
    unfolding realloc_size_def realloc_mask using need_eq [OF assms] by simp
  moreover have "chunk (unat sz) < 2 ^ 64" using assms chunk_bounds(2) [of "unat sz"] by simp
  ultimately have "unat (realloc_size sz) = take_bit 32 (chunk (unat sz))"
    by (simp only: unsigned_take_bit_eq unat_w64_small)
  then have "unat (realloc_size sz) = chunk (unat sz) mod 2 ^ 32"
    by (simp only: take_bit_eq_mod)
  then show ?thesis by (metis w64_unat)
qed

section \<open>In place\<close>

lemma used_apart:
  assumes inv: "ff_inv st (xs @ (n, True) # ys) fs" and h: "h = first st + szs xs" and x: "x \<in> set fs"
  shows "x + 16 \<le> h \<or> h + n \<le> x"
proof -
  let ?bs = "xs @ (n, True) # ys"
  have b: "arena_base st \<noteq> 0" using ff_inv_base [OF inv] by simp
  note facts = heap_inv_reserved [OF ff_inv_heap [OF inv] b]
  have mh: "(h, n, True) \<in> set (hdrs (first st) ?bs)" using h by simp
  have set: "set fs = free_hdrs (first st) ?bs" by (rule ff_inv_fs [OF inv])
  have "x \<noteq> h"
    using x set h not_free_before [of xs "first st" h] not_free_after [of ys h "h + n"] facts(6)
    by (auto dest: size16D)
  then show ?thesis using free_apart [OF facts(6) mh] x set by blast
qed

lemma realloc_shrink_ok:
  assumes inv: "ff_inv st (xs @ (n, True) # ys) fs" and h: "h = first st + szs xs"
    and k: "size16 k" "k \<le> n"
  obtains st' n' bs' fs' where "realloc_shrink (w64 (h + 4)) (w64 n) (w64 k) st = Some st'"
    and "ff_inv st' bs' fs'" and "same_arena st st'" and "k \<le> n'" and "n' \<le> n"
    and "used_blks (first st) bs' = used_blks (first st) xs \<union> {(h, n')} \<union> used_blks (h + n) ys"
    and "frame (mem st) (mem st') ({h ..< h + 4} \<union> {h + n' - 4 ..< h + n})"
proof (cases "16 \<le> n - k")
  case False
  have "w64 n - w64 k = w64 (n - k)" using k(2) by simp
  moreover have "\<not> 16 \<le> w64 (n - k)" using False w64_le_iff [of 16 "n - k"] by (simp add: w64_numeral)
  ultimately have "realloc_shrink (w64 (h + 4)) (w64 n) (w64 k) st = Some st"
    by (simp add: realloc_shrink_def)
  then show ?thesis by (rule that [OF _ inv]) (use k h in auto)
next
  case True
  let ?bs = "xs @ (n, True) # ys"
  have live: "(h, n) \<in> used_blks (first st) ?bs" using h by simp
  note U = used_blk_facts [OF inv live]
  have k16: "16 \<le> k" "k < 2 ^ 32" "n < 2 ^ 32" using k(1) U(2) by (auto dest: size16D)
  have nk: "size16 (n - k)" using k U(2) True by (auto simp: size16_def elim!: dvdE)
  have l64: "h + n \<le> 2 ^ 64" using U(4) by simp
  have e: "h + k + (n - k) = h + n" using k by simp
  have mk: "mapped (mem st) h k" by (rule mapped_mono [OF U(3)]) (use k in auto)
  obtain m1 where m1: "set_tags (mem st) (w64 h) (tag k True) = Some m1" "blk_at m1 h k True"
    "frame (mem st) m1 ({h ..< h + 4} \<union> {h + k - 4 ..< h + k})"
    using set_tags_mapped [OF k(1) mk, of True] k(2) l64 by auto
  have "mapped m1 (h + k) (n - k)"
    by (rule mapped_frame [OF m1(3) mapped_mono [OF U(3)]]) (use k in auto)
  then obtain m2 where m2: "set_tags m1 (w64 (h + k)) (tag (n - k) False) = Some m2"
    "blk_at m2 (h + k) (n - k) False"
    "frame m1 m2 ({h + k ..< h + k + 4} \<union> {h + n - 4 ..< h + n})"
    using set_tags_mapped [OF nk, of m1 "h + k"] l64 unfolding e by blast
  note fr2 = frame_trans_Un [OF m1(3) m2(3)]
  have out: "y < h \<or> h + n \<le> y" if "y \<in> links fs" for y
    using links_apart [of fs h n, OF used_apart [OF inv h]] that by blast
  have fl: "flist (mem st) (free_head st) fs" and di: "distinct fs"
    and set: "set fs = free_hdrs (first st) ?bs" and len: "freelist_len (alloc_stat st) = w64 (length fs)"
    using inv by (simp_all add: ff_inv_def)
  have fl2: "flist m2 (free_head st) fs"
    by (rule fpath_frame [OF fr2 fl]) (use out k16 True in fastforce)
  let ?st2 = "st\<lparr>mem := m2\<rparr>"
  have "mapped (mem ?st2) (h + k + 4) 8"
    using mapped_frame [OF fr2 mapped_mono [OF U(3), of "h + k + 4" 8]] True by simp
  moreover have "flist (mem ?st2) (free_head ?st2) fs" using fl2 by simp
  moreover have "x + 16 \<le> h + k \<or> h + k + 16 \<le> x" if "x \<in> set fs" for x
    using used_apart [OF inv h that] True by linarith
  moreover have "0 < h + k" and "h + k + 12 \<le> 2 ^ 64" using U(5) True l64 by linarith+
  ultimately obtain m3 where m3: "freelist_push (w64 (h + k)) ?st2 = Some (?st2\<lparr>mem := m3,
      free_head := w64 (h + k), alloc_stat := (alloc_stat ?st2)\<lparr>freelist_len := freelist_len (alloc_stat ?st2) + 1\<rparr>\<rparr>)"
    "flist m3 (w64 (h + k)) ((h + k) # fs)" "frame (mem ?st2) m3 {h + k + 4 ..< h + k + 12}"
    using freelist_push_ok [of ?st2 fs "h + k"] by blast
  define st' where "st' = ?st2\<lparr>mem := m3, free_head := w64 (h + k),
    alloc_stat := (alloc_stat ?st2)\<lparr>freelist_len := freelist_len (alloc_stat ?st2) + 1\<rparr>\<rparr>"
  have fr3: "frame m2 m3 {h + k + 4 ..< h + k + 12}" using m3(3) by simp
  have "blk_at m2 h k True" by (rule blk_at_frame [OF m2(3) m1(2)]) (use k16 k(2) True l64 in auto)
  then have "blk_at m3 h k True" by (rule blk_at_frame [OF fr3]) (use k16 True l64 in auto)
  moreover have "blk_at m3 (h + k) (n - k) False"
    by (rule blk_at_frame [OF fr3 m2(2)]) (use k16 True l64 in auto)
  ultimately have lay: "layout (mem st') h [(k, True), (n - k, False)]" by (simp add: st'_def)
  have fr: "frame (mem st) (mem st') ({h ..< h + 4} \<union> {h + k - 4 ..< h + n})"
    using frame_weaken [OF frame_trans_Un [OF fr2 fr3], of "{h ..< h + 4} \<union> {h + k - 4 ..< h + n}"] k16 True
    by (fastforce simp: st'_def)
  have same: "same_arena st st'" by (simp add: same_arena_def st'_def)
  have "ff_inv st' (xs @ [(k, True), (n - k, False)] @ ys) ((h + k) # fs)"
  proof (rule ff_inv_replace [where old = "[(n, True)]" and fs = fs and gs = "[]"])
    show "frame (mem st) (mem st') ({first st + szs xs ..< first st + szs xs + szs [(n, True)]} \<union> links [])"
      by (rule frame_weaken [OF fr]) (use h k16 k(2) in auto)
    show "distinct ((h + k) # fs)" using di used_apart [OF inv h, of "h + k"] k16 True by auto
    show "set ((h + k) # fs) = free_hdrs (first st) xs \<union>
        free_hdrs (first st + szs xs) [(k, True), (n - k, False)] \<union>
        free_hdrs (first st + szs xs + szs [(n, True)]) ys"
      using set h by simp
  qed (use inv same lay m3(2) h k len in \<open>auto simp: st'_def w64_def\<close>)
  moreover have "realloc_shrink (w64 (h + 4)) (w64 n) (w64 k) st = Some st'"
  proof -
    have "16 \<le> w64 (n - k)" using True w64_le_iff [of 16 "n - k"] k16 by (simp add: w64_numeral)
    moreover have "h + 4 + k - 4 = h + k" by simp
    ultimately show ?thesis
      using m1(1) m2(1) [unfolded tag_False] m3(1) k
      by (simp add: realloc_shrink_def Let_def ucast_w64 st'_def)
  qed
  moreover have "used_blks (first st) (xs @ [(k, True), (n - k, False)] @ ys) =
      used_blks (first st) xs \<union> {(h, k)} \<union> used_blks (h + n) ys"
    unfolding used_blks_append h [symmetric] using e by (simp add: Un_commute)
  ultimately show ?thesis
    by (intro that [of st' _ _ k]) (use same fr k in auto)
qed

text \<open>Growing: the free right neighbour leaves the list and is absorbed, whole or in part.\<close>

lemma remove_right:
  assumes inv: "ff_inv st (xs @ [(n, True), (b, False)] @ ys) fs" and h: "h = first st + szs xs"
  obtains st1 gs where "freelist_remove (w64 (h + n)) st = Some st1" and "same_arena st st1"
    and "flist (mem st1) (free_head st1) gs" and "distinct gs"
    and "set gs = free_hdrs (first st) xs \<union> free_hdrs (h + n + b) ys"
    and "freelist_len (alloc_stat st1) = w64 (length gs)" and "frame (mem st) (mem st1) (links gs)"
    and "\<And>x. x \<in> set gs \<Longrightarrow> x + 16 \<le> h \<or> h + n + b \<le> x"
proof -
  have r: "h + n = first st + szs (xs @ [(n, True)])" using h by simp
  have "h + n \<in> set fs" unfolding ff_inv_fs [OF inv] using h by simp
  then obtain fxs fys where fs: "fs = fxs @ (h + n) # fys" by (meson split_list)
  have inv2: "ff_inv st ((xs @ [(n, True)]) @ (b, False) # ys) (fxs @ (h + n) # fys)" using inv fs by simp
  note F = free_block_facts [OF inv2 r]
  obtain m1 p1 where rm: "freelist_remove (w64 (h + n)) st = Some (st\<lparr>mem := m1, free_head := p1,
      alloc_stat := (alloc_stat st)\<lparr>
        remove_steps := remove_steps (alloc_stat st) + w64 (length fxs + 1),
        freelist_len := freelist_len (alloc_stat st) - 1\<rparr>\<rparr>)"
    "flist m1 p1 (fxs @ fys)" "frame (mem st) m1 (links fxs)"
    using F(10,8,9) by (rule freelist_remove_ok)
  have ap: "x + 16 \<le> h \<or> h + n + b \<le> x" if "x \<in> set (fxs @ fys)" for x
  proof -
    have x: "x \<in> set fs" using that fs by auto
    have "x + 16 \<le> h \<or> h + n \<le> x" by (rule used_apart [OF _ h x, of n "(b, False) # ys"]) (use inv in simp)
    with F(6) [OF that] show ?thesis using size16D(1) [OF F(2)] by linarith
  qed
  have fr: "frame (mem st) m1 (links (fxs @ fys))" by (rule frame_weaken [OF rm(3)]) simp
  have set: "set (fxs @ fys) = free_hdrs (first st) xs \<union> free_hdrs (h + n + b) ys" using F(7) by simp
  show ?thesis
    by (rule that [OF rm(1), of "fxs @ fys"]) (use rm(2) fr set ap F(9,11) in \<open>auto simp: same_arena_def w64_def\<close>)
qed

lemma realloc_grow_in_place_ok:
  assumes inv: "ff_inv st (xs @ [(n, True), (b, False)] @ ys) fs" and h: "h = first st + szs xs"
    and k: "size16 k" "n < k" "k \<le> n + b"
  obtains st' n' bs' fs' where
    "realloc_grow_in_place (w64 (h + 4)) (w64 n) (w64 k) (w64 (h + n)) st = Some st'"
    and "ff_inv st' bs' fs'" and "same_arena st st'" and "k \<le> n'" and "n' \<le> n + b"
    and "used_blks (first st) bs' = used_blks (first st) xs \<union> {(h, n')} \<union> used_blks (h + n + b) ys"
    and "frame (mem st) (mem st') ({h ..< h + 4} \<union> {h + n - 4 ..< h + n + b} \<union> links fs')"
    and "\<And>y. y \<in> links fs' \<Longrightarrow> y < h \<or> h + n \<le> y"
proof -
  let ?bs = "xs @ [(n, True), (b, False)] @ ys"
  have base: "arena_base st \<noteq> 0" using ff_inv_base [OF inv] by simp
  note facts = heap_inv_reserved [OF ff_inv_heap [OF inv] base]
  have mn: "(h, n, True) \<in> set (hdrs (first st) ?bs)" and mb: "(h + n, b, False) \<in> set (hdrs (first st) ?bs)"
    using h by simp_all
  note N = heap_inv_blk [OF ff_inv_heap [OF inv] base mn] and B = heap_inv_blk [OF ff_inv_heap [OF inv] base mb]
  have 16: "16 \<le> n" "16 \<le> b" "16 \<le> k" "n < 2 ^ 32" using N(2) B(2) k(1) by (auto dest: size16D)
  have nb: "size16 (n + b)" "n + b < 2 ^ 32" using N(2) B(2) facts(4) by (auto simp: size16_def elim!: dvdE)
  have l64: "h + (n + b) \<le> 2 ^ 64" using B(5) by simp
  have rt: "load32 (mem st) (w64 (h + n)) = Some (tag b False)" using B(1) by (simp add: blk_at_def word32_atD)
  obtain st1 gs where G: "freelist_remove (w64 (h + n)) st = Some st1" "same_arena st st1"
    "flist (mem st1) (free_head st1) gs" "distinct gs"
    "set gs = free_hdrs (first st) xs \<union> free_hdrs (h + n + b) ys"
    "freelist_len (alloc_stat st1) = w64 (length gs)" "frame (mem st) (mem st1) (links gs)"
    "\<And>x. x \<in> set gs \<Longrightarrow> x + 16 \<le> h \<or> h + n + b \<le> x"
    by (rule remove_right [OF inv h]) blast
  have out: "y < h \<or> h + (n + b) \<le> y" if "y \<in> links gs" for y
    by (rule links_apart [OF _ that]) (use G(8) in \<open>simp add: add.assoc\<close>)
  have mp: "mapped (mem st1) h (n + b)"
    by (rule mapped_frame [OF G(7) mapped_mono [OF facts(3)]]) (use N(6) B(7) facts(8) in linarith)+
  have com: "w64 n + ucast (tag b False) = w64 (n + b)" using nb(2) by (simp add: tag_False ucast_w32)
  show ?thesis
  proof (cases "k + 16 \<le> n + b")
    case True
    let ?r = "n + b - k"
    have e: "h + k + ?r = h + (n + b)" using k(3) by simp
    have r: "size16 ?r" using nb k True by (auto simp: size16_def elim!: dvdE)
    have ge: "w64 k + 16 \<le> w64 (n + b)"
      using True nb(2) w64_le_iff [of "k + 16" "n + b"] by (simp add: w64_numeral)
    obtain m2 where m2: "set_tags (mem st1) (w64 (h + k)) (tag ?r False) = Some m2" "blk_at m2 (h + k) ?r False"
      "frame (mem st1) m2 ({h + k ..< h + k + 4} \<union> {h + (n + b) - 4 ..< h + (n + b)})"
      using set_tags_mapped [OF r, of "mem st1" "h + k" False] mapped_mono [OF mp, of "h + k" ?r] l64 k(3)
      unfolding e by auto
    let ?st2 = "st1\<lparr>mem := m2\<rparr>"
    have fl2: "flist (mem ?st2) (free_head ?st2) gs"
    proof -
      have "links gs \<inter> ({h + k ..< h + k + 4} \<union> {h + (n + b) - 4 ..< h + (n + b)}) = {}"
        using out 16 True by fastforce
      then show ?thesis using fpath_frame [OF m2(3) G(3)] by simp
    qed
    have "mapped (mem ?st2) (h + k + 4) 8"
      using mapped_mono [OF mapped_frame [OF m2(3) mp], of "h + k + 4" 8] True by simp
    moreover have "x + 16 \<le> h + k \<or> h + k + 16 \<le> x" if "x \<in> set gs" for x using G(8) [OF that] True by linarith
    moreover have "0 < h + k" "h + k + 12 \<le> 2 ^ 64" using 16 True l64 by linarith+
    ultimately obtain m3 where m3: "freelist_push (w64 (h + k)) ?st2 = Some (?st2\<lparr>mem := m3,
        free_head := w64 (h + k), alloc_stat := (alloc_stat ?st2)\<lparr>freelist_len := freelist_len (alloc_stat ?st2) + 1\<rparr>\<rparr>)"
      "flist m3 (w64 (h + k)) ((h + k) # gs)" "frame (mem ?st2) m3 {h + k + 4 ..< h + k + 12}"
      using freelist_push_ok [OF fl2, of "h + k"] by blast
    have fr3: "frame m2 m3 {h + k + 4 ..< h + k + 12}" using m3(3) by simp
    have "mapped m3 h k"
      by (rule mapped_frame [OF fr3 mapped_frame [OF m2(3) mapped_mono [OF mp]]]) (use k(3) in auto)
    then obtain m4 where m4: "set_tags m3 (w64 h) (tag k True) = Some m4" "blk_at m4 h k True"
      "frame m3 m4 ({h ..< h + 4} \<union> {h + k - 4 ..< h + k})"
      using set_tags_mapped [OF k(1), of m3 h True] l64 k(3) by auto
    define st' where "st' = ?st2\<lparr>mem := m4, free_head := w64 (h + k),
      alloc_stat := (alloc_stat ?st2)\<lparr>freelist_len := freelist_len (alloc_stat ?st2) + 1\<rparr>\<rparr>"
    have "blk_at m3 (h + k) ?r False" by (rule blk_at_frame [OF fr3 m2(2)]) (use 16 True l64 in auto)
    then have "blk_at m4 (h + k) ?r False" by (rule blk_at_frame [OF m4(3)]) (use 16 True l64 in auto)
    with m4(2) have lay: "layout (mem st') h [(k, True), (?r, False)]" by (simp add: st'_def)
    have "links ((h + k) # gs) \<inter> ({h ..< h + 4} \<union> {h + k - 4 ..< h + k}) = {}"
      using out 16 True k(3) by (fastforce simp: links_Cons)
    then have fl4: "flist m4 (w64 (h + k)) ((h + k) # gs)" by (rule fpath_frame [OF m4(3) m3(2)])
    note fr4 = frame_trans_Un [OF frame_trans_Un [OF frame_trans_Un [OF G(7) m2(3)] fr3] m4(3)]
    have fr: "frame (mem st) (mem st') ({h ..< h + 4} \<union> {h + n - 4 ..< h + n + b} \<union> links ((h + k) # gs))"
      using frame_weaken [OF fr4, of "{h ..< h + 4} \<union> {h + n - 4 ..< h + n + b} \<union> links ((h + k) # gs)"] 16 True k(2)
      by (fastforce simp: st'_def links_Cons)
    have same: "same_arena st st'" using G(2) by (simp add: same_arena_def st'_def)
    have "ff_inv st' (xs @ [(k, True), (?r, False)] @ ys) ((h + k) # gs)"
    proof (rule ff_inv_replace [where old = "[(n, True), (b, False)]" and fs = fs and gs = gs])
      show "frame (mem st) (mem st') ({first st + szs xs ..< first st + szs xs + szs [(n, True), (b, False)]} \<union> links gs)"
        unfolding h [symmetric] by (rule frame_weaken [OF fr]) (use 16 k(2) True in \<open>fastforce simp: links_Cons\<close>)
      show "distinct ((h + k) # gs)" using G(4) G(8) [of "h + k"] 16 True by auto
      show "set ((h + k) # gs) = free_hdrs (first st) xs \<union> free_hdrs (first st + szs xs) [(k, True), (?r, False)] \<union>
          free_hdrs (first st + szs xs + szs [(n, True), (b, False)]) ys"
        using G(5) unfolding h [symmetric] by (simp add: add.assoc)
      show "set gs \<subseteq> free_hdrs (first st) xs \<union> free_hdrs (first st + szs xs + szs [(n, True), (b, False)]) ys"
        using G(5) unfolding h [symmetric] by (simp add: add.assoc)
      show "layout (mem st') (first st + szs xs) [(k, True), (?r, False)]" using lay h by simp
    qed (use inv same fl4 G(6) k True in \<open>auto simp: st'_def w64_def\<close>)
    moreover have "realloc_grow_in_place (w64 (h + 4)) (w64 n) (w64 k) (w64 (h + n)) st = Some st'"
    proof -
      have "w64 (h + 4) + w64 k - 4 = w64 (h + k)" by (simp add: w64_def)
      moreover have "w64 (n + b) - w64 k = w64 ?r" using k(3) by simp
      ultimately show ?thesis
        using rt com G(1) ge m2(1) [unfolded tag_False] m3(1) m4(1) k(1)
        by (simp add: realloc_grow_in_place_def Let_def ucast_w64 st'_def del: w64_plus)
    qed
    moreover have "used_blks (first st) (xs @ [(k, True), (?r, False)] @ ys) =
        used_blks (first st) xs \<union> {(h, k)} \<union> used_blks (h + n + b) ys"
      unfolding used_blks_append h [symmetric] using e by (simp add: Un_commute add.assoc)
    moreover have "y < h \<or> h + n \<le> y" if "y \<in> links ((h + k) # gs)" for y
      using that out k(2) by (fastforce simp: links_Cons)
    ultimately show ?thesis
      by (intro that [of st' _ _ k]) (use same fr k in auto)
  next
    case False
    have nge: "\<not> w64 k + 16 \<le> w64 (n + b)"
      using False nb(2) size16D(3) [OF k(1)] w64_le_iff [of "k + 16" "n + b"] by (simp add: w64_numeral)
    obtain m2 where m2: "set_tags (mem st1) (w64 h) (tag (n + b) True) = Some m2" "blk_at m2 h (n + b) True"
      "frame (mem st1) m2 ({h ..< h + 4} \<union> {h + (n + b) - 4 ..< h + (n + b)})"
      using set_tags_mapped [OF nb(1) mp l64] by blast
    define st' where "st' = st1\<lparr>mem := m2\<rparr>"
    have "links gs \<inter> ({h ..< h + 4} \<union> {h + (n + b) - 4 ..< h + (n + b)}) = {}" using out 16 by fastforce
    then have fl: "flist (mem st') (free_head st') gs" using fpath_frame [OF m2(3) G(3)] by (simp add: st'_def)
    have fr: "frame (mem st) (mem st') ({h ..< h + 4} \<union> {h + n - 4 ..< h + n + b} \<union> links gs)"
      using frame_weaken [OF frame_trans_Un [OF G(7) m2(3)], of "{h ..< h + 4} \<union> {h + n - 4 ..< h + n + b} \<union> links gs"]
      by (fastforce simp: st'_def)
    have same: "same_arena st st'" using G(2) by (simp add: same_arena_def st'_def)
    have "ff_inv st' (xs @ [(n + b, True)] @ ys) gs"
    proof (rule ff_inv_replace [where old = "[(n, True), (b, False)]" and fs = fs and gs = gs])
      show "frame (mem st) (mem st') ({first st + szs xs ..< first st + szs xs + szs [(n, True), (b, False)]} \<union> links gs)"
        unfolding h [symmetric] by (rule frame_weaken [OF fr]) (use 16 in fastforce)
      show "set gs = free_hdrs (first st) xs \<union> free_hdrs (first st + szs xs) [(n + b, True)] \<union>
          free_hdrs (first st + szs xs + szs [(n, True), (b, False)]) ys"
        using G(5) unfolding h [symmetric] by (simp add: add.assoc)
      show "set gs \<subseteq> free_hdrs (first st) xs \<union> free_hdrs (first st + szs xs + szs [(n, True), (b, False)]) ys"
        using G(5) unfolding h [symmetric] by (simp add: add.assoc)
      show "layout (mem st') (first st + szs xs) [(n + b, True)]" using m2(2) h by (simp add: st'_def)
    qed (use inv same fl G(4,6) in \<open>auto simp: st'_def\<close>)
    moreover have "realloc_grow_in_place (w64 (h + 4)) (w64 n) (w64 k) (w64 (h + n)) st = Some st'"
      using rt com G(1) nge m2(1) nb
      by (simp add: realloc_grow_in_place_def Let_def ucast_w64 st'_def del: w64_plus)
    moreover have "used_blks (first st) (xs @ [(n + b, True)] @ ys) =
        used_blks (first st) xs \<union> {(h, n + b)} \<union> used_blks (h + n + b) ys"
      unfolding used_blks_append h [symmetric] by (simp add: Un_commute add.assoc)
    moreover have "y < h \<or> h + n \<le> y" if "y \<in> links gs" for y
      using out [OF that] by linarith
    ultimately show ?thesis
      by (intro that [of st' _ _ "n + b"]) (use same fr k in auto)
  qed
qed

section \<open>Moving\<close>

text \<open>Where the payload of \<open>(h, n)\<close> reappears at \<open>(h', n')\<close>, up to the shorter of the two.\<close>

definition same_prefix :: "mem \<Rightarrow> nat \<Rightarrow> nat \<Rightarrow> mem \<Rightarrow> nat \<Rightarrow> nat \<Rightarrow> bool" where
  "same_prefix m h n m' h' n' \<longleftrightarrow> (\<forall>i < min n n' - 8. m' (w64 (h' + 4 + i)) = m (w64 (h + 4 + i)))"

lemma same_prefix_frame:
  assumes "frame m m' A" and "h + n \<le> 2 ^ 47"
    and "\<And>x. x \<in> A \<Longrightarrow> x < h + 4 \<or> h + min n n' - 4 \<le> x"
  shows "same_prefix m h n m' h n'"
  unfolding same_prefix_def
proof (intro allI impI)
  fix i assume i: "i < min n n' - 8"
  have "h + 4 + i \<notin> A" using i by (auto dest: assms(3))
  moreover have "h + 4 + i < 2 ^ 64" using i assms(2) by simp
  ultimately show "m' (w64 (h + 4 + i)) = m (w64 (h + 4 + i))" using assms(1) unfolding frame_def by blast
qed

lemma realloc_move_ok:
  assumes inv: "ff_inv st bs fs" and live: "(h, n) \<in> used_blks (first st) bs" and k: "n < k" "k < 2 ^ 63"
  shows "\<exists>p st' bs' fs'. realloc_move os (w64 (h + 4)) (w64 n) (w64 k) st = Some (p, st') \<and>
    ff_inv st' bs' fs' \<and> arena_base st' = arena_base st \<and>
    (if p = 0 then bs' = bs \<and> fs' = fs \<and> keeps (mem st) (mem st') (interior True (first st) bs)
     else \<exists>h' n'. p = w64 (h' + 4) \<and> k + 8 \<le> n' \<and> (h', n') \<notin> used_blks (first st) bs \<and>
       used_blks (first st) bs' = insert (h', n') (used_blks (first st) bs - {(h, n)}) \<and>
       same_prefix (mem st) h n (mem st') h' n' \<and>
       keeps (mem st) (mem st') (\<Union>(g, j) \<in> used_blks (first st) bs - {(h, n)}. payload_of g j))"
proof -
  note U = used_blk_facts [OF inv live]
  have uk: "unat (w64 k) = k" using k(2) by (simp add: unat_w64_small)
  have n16: "16 \<le> n" "n < 2 ^ 32" using U(2) by (auto dest: size16D)
  have os: "os_ok os st" using U(1) by (simp add: os_ok_def)
  obtain p st1 bs1 fs1 where M: "my_malloc os (w64 k) st = Some (p, st1)" "ff_inv st1 bs1 fs1"
    "keeps (mem st) (mem st1) (interior True (first st) bs)"
    "arena_base st1 = arena_base (arena_reserved os st)"
    "if p = 0 then bs1 = bs \<and> fs1 = fs \<and> (\<forall>h \<in> set fs. \<not> fits (first st) bs (chunk k) h) \<and> 2 ^ 32 < 12 + szs bs + chunk k
     else \<exists>h n. p = w64 (h + 4) \<and> chunk k \<le> n \<and> (h, n) \<notin> used_blks (first st) bs \<and>
          used_blks (first st1) bs1 = insert (h, n) (used_blks (first st) bs)"
    using my_malloc_spec [OF inv os, of "w64 k"] k(2) unfolding uk by blast
  have b1: "arena_base st1 = arena_base st" using M(4) arena_reserved_id [OF U(1)] by simp
  show ?thesis
  proof (cases "p = 0")
    case True
    then have "realloc_move os (w64 (h + 4)) (w64 n) (w64 k) st = Some (0, st1)" using M(1) by (simp add: realloc_move_def)
    then show ?thesis using M(2,3,5) True b1 by auto
  next
    case False
    then obtain h' n' where H: "p = w64 (h' + 4)" "chunk k \<le> n'" "(h', n') \<notin> used_blks (first st) bs"
      "used_blks (first st) bs1 = insert (h', n') (used_blks (first st) bs)"
      using M(5) b1 by auto
    have ck: "k + 8 \<le> n'" using H(2) chunk_bounds(1) [of k] by simp
    have l1: "(h, n) \<in> used_blks (first st1) bs1" "(h', n') \<in> used_blks (first st1) bs1" using H(4) live b1 by auto
    note U1 = used_blk_facts [OF M(2) l1(1)] and U2 = used_blk_facts [OF M(2) l1(2)]
    have ne: "(h, n) \<noteq> (h', n')" using H(3) live by auto
    obtain xs where xs: "load_bytes (mem st1) (w64 (h + 4)) (n - 8) = Some xs" "length xs = n - 8"
      by (rule load_bytes_mapped [OF mapped_mono [OF U1(3), of "h + 4" "n - 8"]]) (use n16 in auto)
    have len: "length xs + 8 \<le> n'" using xs(2) n16 k(1) ck by simp
    obtain m2 where S: "store_bytes (mem st1) (w64 (h' + 4)) xs = Some m2" "bytes_at m2 (h' + 4) xs"
      "frame (mem st1) m2 {h' + 4 ..< h' + 4 + length xs}" "ff_inv (st1\<lparr>mem := m2\<rparr>) bs1 fs1"
      by (rule payload_store [OF M(2) l1(2) len])
    let ?st2 = "st1\<lparr>mem := m2\<rparr>"
    have l2: "(h, n) \<in> used_blks (first ?st2) bs1" using l1(1) by simp
    obtain st3 bs3 fs3 where F: "my_free (w64 (h + 4)) ?st2 = Some st3" "ff_inv st3 bs3 fs3" "same_arena ?st2 st3"
      "used_blks (first ?st2) bs3 = used_blks (first ?st2) bs1 - {(h, n)}"
      "keeps (mem ?st2) (mem st3) (interior True (first ?st2) bs3)"
      using my_free_spec [OF S(4) l2] by blast
    have b3: "arena_base st3 = arena_base st" using F(3) b1 by (simp add: same_arena_def)
    have u3: "used_blks (first st) bs3 = insert (h', n') (used_blks (first st) bs - {(h, n)})"
      using F(4) H(4) b1 ne by auto
    have k3: "keeps m2 (mem st3) (interior True (first st) bs3)" using F(5) b1 by simp
    have cp: "memcpy (mem st1) (w64 (h' + 4)) (w64 (h + 4)) (w64 n - 8) = Some m2"
    proof -
      have "w64 n - 8 = w64 (n - 8)" using n16 by (simp add: w64_def)
      moreover have "unat (w64 (n - 8)) = n - 8" using n16 by (simp add: unat_w64_small)
      ultimately show ?thesis using xs(1) S(1) by (simp only: memcpy_def bind.simps)
    qed
    have run: "realloc_move os (w64 (h + 4)) (w64 n) (w64 k) st = Some (p, st3)"
      using M(1) False H(1) cp F(1) by (simp add: realloc_move_def)
    have pre: "same_prefix (mem st) h n (mem st3) h' n'"
      unfolding same_prefix_def
    proof (intro allI impI)
      fix i assume i: "i < min n n' - 8"
      have "h + 4 + i \<in> payload_of h n" "h' + 4 + i \<in> payload_of h' n'" using i by (auto simp: payload_of_def)
      then have "h + 4 + i \<in> interior True (first st) bs" "h' + 4 + i \<in> interior True (first st) bs3"
        using live u3 unfolding interior_used by blast+
      then have "mem st3 (w64 (h' + 4 + i)) = m2 (w64 (h' + 4 + i))" "mem st1 (w64 (h + 4 + i)) = mem st (w64 (h + 4 + i))"
        using k3 M(3) by (auto simp: keeps_def)
      moreover have "mem st1 (w64 (h + 4 + i)) = Some (xs ! i)"
        using load_bytes_SomeD [OF xs(1)] i xs(2) by (auto simp: bytes_at_def)
      moreover have "m2 (w64 (h' + 4 + i)) = Some (xs ! i)" using S(2) i xs(2) by (simp add: bytes_at_def)
      ultimately show "mem st3 (w64 (h' + 4 + i)) = mem st (w64 (h + 4 + i))" by simp
    qed
    let ?O = "\<Union>(g, j) \<in> used_blks (first st) bs - {(h, n)}. payload_of g j"
    have O: "?O \<subseteq> interior True (first st) bs" "?O \<subseteq> interior True (first st) bs3"
      using u3 by (auto simp: interior_used)
    have "keeps (mem st1) m2 ?O"
    proof (rule frame_keeps [OF S(3)])
      fix x assume "x \<in> ?O"
      then obtain g j where gj: "(g, j) \<in> used_blks (first st) bs" "x \<in> payload_of g j" by auto
      then have g1: "(g, j) \<in> used_blks (first st1) bs1" using H(4) b1 by simp
      have "g + j \<le> h' \<or> h' + n' \<le> g" by (rule used_disjoint [OF ff_inv_heap [OF M(2)] g1 l1(2)]) (use gj(1) H(3) in auto)
      then show "x < 2 ^ 64 \<and> x \<notin> {h' + 4 ..< h' + 4 + length xs}"
        using gj(2) len used_blk_facts(4) [OF M(2) g1] by (auto simp: payload_of_def)
    qed
    then have "keeps (mem st) (mem st3) ?O"
      using keeps_mono [OF M(3) O(1)] keeps_mono [OF k3 O(2)] by (blast intro: keeps_trans)
    then have "\<exists>h' n'. p = w64 (h' + 4) \<and> k + 8 \<le> n' \<and> (h', n') \<notin> used_blks (first st) bs \<and>
       used_blks (first st) bs3 = insert (h', n') (used_blks (first st) bs - {(h, n)}) \<and>
       same_prefix (mem st) h n (mem st3) h' n' \<and> keeps (mem st) (mem st3) ?O"
      using H(1,3) ck u3 pre by blast
    then show ?thesis using run F(2) b3 False by auto
  qed
qed

section \<open>The operation\<close>

text \<open>What \<open>my_realloc\<close> guarantees when it returns a block.\<close>

definition realloc_post :: "ff_st \<Rightarrow> blk list \<Rightarrow> nat \<Rightarrow> nat \<Rightarrow> nat \<Rightarrow> ff_st \<Rightarrow> blk list \<Rightarrow> nat \<Rightarrow> nat \<Rightarrow> bool" where
  "realloc_post st bs h n k st' bs' h' n' \<longleftrightarrow> k \<le> n' \<and> (h' = h \<or> (h', n') \<notin> used_blks (first st) bs) \<and>
     used_blks (first st) bs' = insert (h', n') (used_blks (first st) bs - {(h, n)}) \<and>
     same_prefix (mem st) h n (mem st') h' n' \<and>
     keeps (mem st) (mem st') (\<Union>(g, j) \<in> used_blks (first st) bs - {(h, n)}. payload_of g j)"

lemma realloc_in_place:
  assumes inv: "ff_inv st bs fs" and live: "(h, n) \<in> used_blks (first st) bs" and le: "k \<le> n'"
    and fr: "frame (mem st) (mem st') (A \<union> links gs)"
    and A: "\<And>x. x \<in> A \<Longrightarrow> (x < h + 4 \<or> h + min n n' - 4 \<le> x)"
      "\<And>x g j. x \<in> A \<Longrightarrow> (g, j) \<in> used_blks (first st) bs - {(h, n)} \<Longrightarrow> x < g \<or> g + j \<le> x"
    and inv': "ff_inv st' bs' gs" and base: "arena_base st' = arena_base st"
    and used: "used_blks (first st) bs' = insert (h, n') (used_blks (first st) bs - {(h, n)})"
  shows "realloc_post st bs h n k st' bs' h n'"
proof -
  have "(h, n', True) \<in> set (hdrs (first st') bs')" using used base by (auto simp: used_blks_def)
  then obtain xs ys where bs': "bs' = xs @ (n', True) # ys" and h': "h = first st' + szs xs" by (rule hdrs_split)
  have gs: "y < h + 4 \<or> h + min n n' - 4 \<le> y" if "y \<in> links gs" for y
  proof -
    have "y < h \<or> h + n' \<le> y"
      by (rule links_apart [OF used_apart [OF inv' [unfolded bs'] h'] that])
    then show ?thesis by linarith
  qed
  have "same_prefix (mem st) h n (mem st') h n'"
    by (rule same_prefix_frame [OF fr used_blk_facts(4) [OF inv live]]) (use A(1) gs in blast)
  moreover have "keeps (mem st) (mem st') (\<Union>(g, j) \<in> used_blks (first st) bs - {(h, n)}. payload_of g j)"
  proof (rule frame_keeps [OF fr])
    fix x assume "x \<in> (\<Union>(g, j) \<in> used_blks (first st) bs - {(h, n)}. payload_of g j)"
    then obtain g j where gj: "(g, j) \<in> used_blks (first st) bs - {(h, n)}" "x \<in> payload_of g j" by blast
    then have g': "(g, j) \<in> used_blks (first st') bs'" using used base by simp
    note G = used_blk_facts [OF inv' g']
    have xb: "g \<le> x" "x < g + j" using gj(2) by (auto simp: payload_of_def)
    have ok: "sizes_ok bs'" by (rule heap_inv_reserved(6) [OF ff_inv_heap [OF inv'] G(1)])
    have "links gs \<subseteq> interior False (first st') bs'"
      by (rule links_free_interior [OF ok]) (use ff_inv_fs [OF inv'] in simp)
    then have "x \<notin> links gs" using G(6) gj(2) used_not_free(1) [OF ok] by blast
    moreover have "x \<notin> A" using A(2) [OF _ gj(1)] xb by fastforce
    ultimately show "x < 2 ^ 64 \<and> x \<notin> A \<union> links gs" using G(4) xb by simp
  qed
  ultimately show ?thesis using le used by (simp add: realloc_post_def)
qed

lemma my_realloc_unfold:
  assumes inv: "ff_inv st bs fs" and live: "(h, n) \<in> used_blks (first st) bs"
    and sz: "0 < unat sz" "chunk (unat sz) < 2 ^ 32"
  shows "my_realloc os (w64 (h + 4)) sz st =
    (if n < chunk (unat sz) then do {
       fits \<leftarrow> (if w64 (h + n) < heap_hi st then do {
                  rt \<leftarrow> load32 (mem st) (w64 (h + n));
                  Some (rt AND 1 = 0 \<and> w64 n + ucast (rt AND NOT 15) \<ge> w64 (chunk (unat sz))) }
                else Some False);
       if fits then do {
         st \<leftarrow> realloc_grow_in_place (w64 (h + 4)) (w64 n) (w64 (chunk (unat sz))) (w64 (h + n)) st;
         Some (w64 (h + 4), st) }
       else realloc_move os (w64 (h + 4)) (w64 n) (w64 (chunk (unat sz))) st }
     else do {
       st \<leftarrow> realloc_shrink (w64 (h + 4)) (w64 n) (w64 (chunk (unat sz))) st;
       Some (w64 (h + 4), st) })"
proof -
  note U = used_blk_facts [OF inv live]
  have "unat sz < 2 ^ 63" using sz(2) chunk_bounds(1) [of "unat sz"] by simp
  then have rs: "realloc_size sz = w64 (chunk (unat sz))" using sz(2) by (simp only: realloc_size_eq mod_less)
  have ld: "load32 (mem st) (w64 h) = Some (tag n True)" using U(7) by (simp add: blk_at_def word32_atD)
  have lt: "w64 n < w64 (chunk (unat sz)) \<longleftrightarrow> n < chunk (unat sz)"
    using w64_less_iff [of n "chunk (unat sz)"] size16D(3) [OF U(2)] sz(2) by simp
  have "sz \<noteq> 0" "w64 (h + 4) - 4 = w64 h" using sz(1) by auto
  then show ?thesis
    using U(2,9) ld rs lt size16D(3) [OF U(2)] by (simp add: my_realloc_def Let_def ucast_w32 cong: if_cong)
qed

text \<open>The growing branch moves exactly when the right neighbour is missing, used or too small.\<close>

lemma realloc_fits:
  assumes inv: "ff_inv st (xs @ (n, True) # ys) fs" and h: "h = first st + szs xs" and k: "k < 2 ^ 32"
  shows "(if w64 (h + n) < heap_hi st then do {
            rt \<leftarrow> load32 (mem st) (w64 (h + n));
            Some (rt AND 1 = 0 \<and> w64 n + ucast (rt AND NOT 15) \<ge> w64 k) }
          else Some False) =
         Some (case ys of [] \<Rightarrow> False | (b, u) # _ \<Rightarrow> \<not> u \<and> k \<le> n + b)"
proof -
  let ?bs = "xs @ (n, True) # ys"
  have b: "arena_base st \<noteq> 0" using ff_inv_base [OF inv] by simp
  note facts = heap_inv_reserved [OF ff_inv_heap [OF inv] b]
  have hi: "heap_hi st = w64 (h + n + szs ys)"
    using ff_inv_heap [OF inv] b h by (simp add: heap_inv_def arena_inv_def add.assoc)
  have l: "h + n + szs ys \<le> 2 ^ 47" using facts(7) h by simp
  show ?thesis
  proof (cases ys)
    case Nil
    then show ?thesis using hi by simp
  next
    case (Cons c ys')
    obtain d u where c: "c = (d, u)" by (cases c)
    have md: "(h + n, d, u) \<in> set (hdrs (first st) ?bs)" using h Cons c by simp
    note D = heap_inv_blk [OF ff_inv_heap [OF inv] b md]
    have d: "16 \<le> d" "d < 2 ^ 32" using D(2) by (auto dest: size16D)
    have "w64 (h + n) < heap_hi st" using hi l d(1) Cons c w64_less_iff [of "h + n" "h + n + szs ys"] by simp
    moreover have "load32 (mem st) (w64 (h + n)) = Some (tag d u)" using D(1) by (simp add: blk_at_def word32_atD)
    moreover have "w64 k \<le> w64 (n + d) \<longleftrightarrow> k \<le> n + d" using w64_le_iff [of k "n + d"] k l Cons c by simp
    ultimately show ?thesis using D(2) d(2) Cons c by (simp add: ucast_w32)
  qed
qed

theorem my_realloc_spec:
  assumes inv: "ff_inv st bs fs" and live: "(h, n) \<in> used_blks (first st) bs"
    and sz: "0 < unat sz" "chunk (unat sz) < 2 ^ 32"
  shows "\<exists>p st' bs' fs'. my_realloc os (w64 (h + 4)) sz st = Some (p, st') \<and> ff_inv st' bs' fs' \<and>
    arena_base st' = arena_base st \<and>
    (if p = 0 then n < chunk (unat sz) \<and> bs' = bs \<and> fs' = fs \<and> keeps (mem st) (mem st') (interior True (first st) bs)
     else \<exists>h' n'. p = w64 (h' + 4) \<and> realloc_post st bs h n (chunk (unat sz)) st' bs' h' n')"
proof -
  let ?k = "chunk (unat sz)"
  note U = used_blk_facts [OF inv live]
  have mh: "(h, n, True) \<in> set (hdrs (first st) bs)" using live by (simp add: used_blks_def)
  obtain xs ys where bs: "bs = xs @ (n, True) # ys" and h: "h = first st + szs xs" using mh by (rule hdrs_split)
  have inv1: "ff_inv st (xs @ (n, True) # ys) fs" using inv bs by simp
  have k: "size16 ?k" using sz(2) chunk_bounds(3,4) by (auto simp: size16_def)
  have n16: "16 \<le> n" using U(2) by (rule size16D)
  have um: "used_blks (first st) bs - {(h, n)} = used_blks (first st) xs \<union> used_blks (h + n) ys"
    unfolding bs by (rule used_minus [OF n16 h])
  have apart: "g + j \<le> h \<or> h + n \<le> g" if "(g, j) \<in> used_blks (first st) bs - {(h, n)}" for g j
    using used_disjoint [OF ff_inv_heap [OF inv] _ live] that by auto
  note run = my_realloc_unfold [OF inv live sz, of os, unfolded realloc_fits [OF inv1 h sz(2)]]
  consider "?k \<le> n" | d ys' where "n < ?k" "ys = (d, False) # ys'" "?k \<le> n + d"
    | "n < ?k" "\<not> (case ys of [] \<Rightarrow> False | (b, u) # _ \<Rightarrow> \<not> u \<and> ?k \<le> n + b)"
    by (cases "n < ?k"; cases ys) (auto simp: not_less)
  then show ?thesis
  proof cases
    case 1
    obtain st' n' bs' fs' where S: "realloc_shrink (w64 (h + 4)) (w64 n) (w64 ?k) st = Some st'"
      "ff_inv st' bs' fs'" "same_arena st st'" "?k \<le> n'" "n' \<le> n"
      "used_blks (first st) bs' = used_blks (first st) xs \<union> {(h, n')} \<union> used_blks (h + n) ys"
      "frame (mem st) (mem st') ({h ..< h + 4} \<union> {h + n' - 4 ..< h + n})"
      by (rule realloc_shrink_ok [OF inv1 h k 1])
    have "realloc_post st bs h n ?k st' bs' h n'"
    proof (rule realloc_in_place [OF inv live S(4) frame_weaken [OF S(7)] _ _ S(2)])
      fix x g j assume x: "x \<in> {h ..< h + 4} \<union> {h + n' - 4 ..< h + n}"
      show "x < h + 4 \<or> h + min n n' - 4 \<le> x" using x S(5) by auto
      assume "(g, j) \<in> used_blks (first st) bs - {(h, n)}"
      from apart [OF this] show "x < g \<or> g + j \<le> x" using x S(4) n16 chunk_bounds(3) [of "unat sz"] by auto
    qed (use S(3,6) um in \<open>auto simp: same_arena_def\<close>)
    then show ?thesis using run 1 S(1-3) U(9) by (auto simp: same_arena_def)
  next
    case 2
    have inv2: "ff_inv st (xs @ [(n, True), (d, False)] @ ys') fs" using inv1 2(2) by simp
    obtain st' n' bs' fs' where S:
      "realloc_grow_in_place (w64 (h + 4)) (w64 n) (w64 ?k) (w64 (h + n)) st = Some st'"
      "ff_inv st' bs' fs'" "same_arena st st'" "?k \<le> n'" "n' \<le> n + d"
      "used_blks (first st) bs' = used_blks (first st) xs \<union> {(h, n')} \<union> used_blks (h + n + d) ys'"
      "frame (mem st) (mem st') ({h ..< h + 4} \<union> {h + n - 4 ..< h + n + d} \<union> links fs')"
      by (rule realloc_grow_in_place_ok [OF inv2 h k 2(1,3)])
    have "realloc_post st bs h n ?k st' bs' h n'"
    proof (rule realloc_in_place [OF inv live S(4,7) _ _ S(2)])
      fix x g j assume x: "x \<in> {h ..< h + 4} \<union> {h + n - 4 ..< h + n + d}"
      show "x < h + 4 \<or> h + min n n' - 4 \<le> x" using x by auto
      assume g: "(g, j) \<in> used_blks (first st) bs - {(h, n)}"
      have "(g, j) \<in> used_blks (first st) xs \<or> (g, j) \<in> used_blks (h + n + d) ys'" using g um 2(2) by auto
      then have "g + j \<le> h \<or> h + n + d \<le> g" using used_blks_bounds h by blast
      then show "x < g \<or> g + j \<le> x" using x n16 by auto
    qed (use S(3,6) um 2(2) in \<open>auto simp: same_arena_def\<close>)
    then show ?thesis using run 2 S(1-3) U(9) by (auto simp: same_arena_def)
  next
    case 3
    then have "my_realloc os (w64 (h + 4)) sz st = realloc_move os (w64 (h + 4)) (w64 n) (w64 ?k) st" using run by simp
    moreover have "?k < 2 ^ 63" using sz(2) by simp
    moreover obtain p st' bs' fs' where M: "realloc_move os (w64 (h + 4)) (w64 n) (w64 ?k) st = Some (p, st')"
      "ff_inv st' bs' fs'" "arena_base st' = arena_base st"
      "if p = 0 then bs' = bs \<and> fs' = fs \<and> keeps (mem st) (mem st') (interior True (first st) bs)
       else \<exists>h' n'. p = w64 (h' + 4) \<and> ?k + 8 \<le> n' \<and> (h', n') \<notin> used_blks (first st) bs \<and>
         used_blks (first st) bs' = insert (h', n') (used_blks (first st) bs - {(h, n)}) \<and>
         same_prefix (mem st) h n (mem st') h' n' \<and>
         keeps (mem st) (mem st') (\<Union>(g, j) \<in> used_blks (first st) bs - {(h, n)}. payload_of g j)"
      using realloc_move_ok [OF inv live 3(1) calculation(2), of os] by blast
    moreover have "\<exists>h' n'. p = w64 (h' + 4) \<and> realloc_post st bs h n ?k st' bs' h' n'" if "p \<noteq> 0"
      using M(4) that unfolding realloc_post_def by (simp, meson add_leD1)
    ultimately show ?thesis using 3(1) by (cases "p = 0") auto
  qed
qed

end
