(* ===== verification/Heap_Contract.thy ===== *)
theory Heap_Contract
  imports Memory
begin

text \<open>
  The contract a C program relies on when it calls an allocator, as a locale over the allocator's
  operations and its view as a map from pointers to the bytes of live objects, and what a client
  may conclude from it: a program that respects the C rules (no access out of bounds or after
  free, no double free) and the allocator's limit on resizes observes an ideal store of named byte arrays,
  whatever addresses and block sizes the allocator picks. Both allocators of the repository interpret the locale.
\<close>

section \<open>Ideal stores\<close>

text \<open>A byte of an ideal object is \<open>None\<close> as long as the program has not initialised it.\<close>

type_synonym ideal = "nat \<rightharpoonup> u8 option list"

datatype cmd =
    Alloc nat u64
  | Zalloc nat u64 u64
  | Resize nat u64
  | Release nat
  | Put nat nat "u8 list"
  | Get nat nat nat

definition overwrite :: "nat \<Rightarrow> 'a list \<Rightarrow> 'a list \<Rightarrow> 'a list" where
  "overwrite i ys xs = take i xs @ ys @ drop (i + length ys) xs"

definition resize :: "nat \<Rightarrow> u8 option list \<Rightarrow> u8 option list" where
  "resize n xs = take n xs @ replicate (n - length xs) None"

text \<open>
  One step of the ideal store; \<open>None\<close> when the program breaks a rule. A name is a pointer variable of the
  program, which is NULL where the store has no object. Releasing NULL does nothing, resizing NULL allocates,
  resizing to no bytes releases, and a zeroed array of no elements is NULL. No object has \<open>2^63\<close> bytes or more;
  \<open>lim\<close> is the size from which the allocator at hand does not support a resize. The size of a zeroed array may
  exceed \<open>2^64\<close>: the store then has no object, and \<open>exec\<close> below reports a failure.
\<close>

fun ideal_step :: "nat \<Rightarrow> cmd \<Rightarrow> ideal \<Rightarrow> (ideal \<times> u8 option list) option" where
  "ideal_step lim (Alloc s n) A =
     (if unat n < 2 ^ 63 then Some (A(s \<mapsto> replicate (unat n) None), []) else None)"
| "ideal_step lim (Zalloc s k n) A =
     (if k = 0 \<or> n = 0 \<or> 2 ^ 64 \<le> unat k * unat n then Some (A(s := None), [])
      else if unat k * unat n < 2 ^ 63 then Some (A(s \<mapsto> replicate (unat k * unat n) (Some 0)), []) else None)"
| "ideal_step lim (Resize s n) A =
     (case A s of
        None \<Rightarrow> if unat n < 2 ^ 63 then Some (A(s \<mapsto> replicate (unat n) None), []) else None
      | Some xs \<Rightarrow> if n = 0 then Some (A(s := None), [])
          else if unat n < lim then Some (A(s \<mapsto> resize (unat n) xs), []) else None)"
| "ideal_step lim (Release s) A = Some (A(s := None), [])"
| "ideal_step lim (Put s i ys) A =
     (case A s of
        Some xs \<Rightarrow> if i + length ys \<le> length xs then Some (A(s \<mapsto> overwrite i (map Some ys) xs), []) else None
      | None \<Rightarrow> None)"
| "ideal_step lim (Get s i n) A =
     (case A s of
        Some xs \<Rightarrow> if i + n \<le> length xs then Some (A, take n (drop i xs)) else None
      | None \<Rightarrow> None)"

fun ideal_run :: "nat \<Rightarrow> cmd list \<Rightarrow> ideal \<Rightarrow> u8 option list option" where
  "ideal_run lim [] A = Some []"
| "ideal_run lim (c # cs) A =
     (case ideal_step lim c A of
        None \<Rightarrow> None
      | Some (A', out) \<Rightarrow> map_option ((@) out) (ideal_run lim cs A'))"

text \<open>Concrete bytes agree with ideal ones wherever those are initialised.\<close>

definition agree :: "u8 option list \<Rightarrow> u8 list \<Rightarrow> bool" where
  "agree xs ys \<longleftrightarrow> length xs \<le> length ys \<and> (\<forall>i < length xs. xs ! i \<noteq> None \<longrightarrow> xs ! i = Some (ys ! i))"

lemma agree_undef: "n \<le> length ys \<Longrightarrow> agree (replicate n None) ys"
  by (simp add: agree_def)

lemma agree_zero: "n \<le> length ys \<Longrightarrow> take n ys = replicate n 0 \<Longrightarrow> agree (replicate n (Some 0)) ys"
  by (auto simp: agree_def) (metis nth_replicate nth_take)

lemma agree_overwrite:
  assumes "agree xs ys" and "i + length zs \<le> length xs"
  shows "agree (overwrite i (map Some zs) xs) (overwrite i zs ys)"
  using assms by (auto simp: agree_def overwrite_def nth_append min_def)

lemma agree_slice:
  assumes "agree xs ys" and "i + n \<le> length xs"
  shows "agree (take n (drop i xs)) (take n (drop i ys))"
  using assms by (auto simp: agree_def)

lemma agree_resize:
  assumes "agree xs ys" and "n \<le> length ys'" and "take (min (length ys) n) ys' = take (min (length ys) n) ys"
  shows "agree (resize n xs) ys'"
proof -
  have "ys' ! i = ys ! i" if "i < length xs" "i < n" for i
    using assms(1) that nth_take [of i "min (length ys) n" ys'] nth_take [of i "min (length ys) n" ys] assms(3)
    by (auto simp: agree_def)
  then show ?thesis using assms(1,2) by (auto simp: agree_def resize_def nth_append min_def)
qed

lemma agree_append: "agree xs ys \<Longrightarrow> length ys = length xs \<Longrightarrow> agree xs' ys' \<Longrightarrow> agree (xs @ xs') (ys @ ys')"
  by (auto simp: agree_def nth_append)

section \<open>Clients\<close>

text \<open>The operations of an allocator, and the accesses to its memory, as a client sees them.\<close>

record 'st heap_ops =
  op_malloc :: "u64 \<Rightarrow> 'st \<Rightarrow> (ptr \<times> 'st) option"
  op_calloc :: "u64 \<Rightarrow> u64 \<Rightarrow> 'st \<Rightarrow> (ptr \<times> 'st) option"
  op_realloc :: "ptr \<Rightarrow> u64 \<Rightarrow> 'st \<Rightarrow> (ptr \<times> 'st) option"
  op_free :: "ptr \<Rightarrow> 'st \<Rightarrow> 'st option"
  op_read :: "ptr \<Rightarrow> nat \<Rightarrow> nat \<Rightarrow> 'st \<Rightarrow> u8 list option"
  op_write :: "ptr \<Rightarrow> nat \<Rightarrow> u8 list \<Rightarrow> 'st \<Rightarrow> 'st option"

text \<open>
  A client keeps a pointer variable for each name, 0 where it is NULL, and stops when an allocation fails: the
  second component of the result of \<open>exec\<close> is then \<open>False\<close>. The NULL that \<open>calloc\<close> of no bytes and \<open>realloc\<close> of a
  live pointer to no bytes return is no failure.
\<close>

fun exec :: "'st heap_ops \<Rightarrow> cmd \<Rightarrow> (nat \<Rightarrow> ptr) \<Rightarrow> 'st \<Rightarrow>
    ((nat \<Rightarrow> ptr) \<times> bool \<times> u8 list \<times> 'st) option" where
  "exec ops (Alloc s n) E st = map_option (\<lambda>(p, st). (E(s := p), p \<noteq> 0, [], st)) (op_malloc ops n st)"
| "exec ops (Zalloc s k n) E st =
     map_option (\<lambda>(p, st). (E(s := p), p \<noteq> 0 \<or> k = 0 \<or> n = 0, [], st)) (op_calloc ops k n st)"
| "exec ops (Resize s n) E st =
     map_option (\<lambda>(q, st). (E(s := q), q \<noteq> 0 \<or> E s \<noteq> 0 \<and> n = 0, [], st)) (op_realloc ops (E s) n st)"
| "exec ops (Release s) E st = map_option (\<lambda>st. (E(s := 0), True, [], st)) (op_free ops (E s) st)"
| "exec ops (Put s i ys) E st = map_option (\<lambda>st. (E, True, [], st)) (op_write ops (E s) i ys st)"
| "exec ops (Get s i n) E st = map_option (\<lambda>out. (E, True, out, st)) (op_read ops (E s) i n st)"

fun exec_run :: "'st heap_ops \<Rightarrow> cmd list \<Rightarrow> (nat \<Rightarrow> ptr) \<Rightarrow> 'st \<Rightarrow> (bool \<times> u8 list) option" where
  "exec_run ops [] E st = Some (True, [])"
| "exec_run ops (c # cs) E st =
     (case exec ops c E st of
        None \<Rightarrow> None
      | Some (E', alive, out, st') \<Rightarrow>
          if alive then map_option (map_prod id ((@) out)) (exec_run ops cs E' st') else Some (False, out))"

section \<open>Calls\<close>

text \<open>
  The calls a program may make, with arguments that respect the rules of C for the objects \<open>objects\<close> that are
  live: releases and resizes take NULL or a live pointer, writes stay inside an object, objects stay below \<open>2^63\<close>
  bytes and resizes below \<open>lim\<close>. The product of the arguments of \<open>calloc\<close> may exceed 64 bits.
\<close>

datatype call =
    Malloc u64
  | Calloc u64 u64
  | Realloc ptr u64
  | Free ptr
  | Write ptr nat "u8 list"

fun legal :: "nat \<Rightarrow> (ptr \<rightharpoonup> u8 list) \<Rightarrow> call \<Rightarrow> bool" where
  "legal lim objects (Malloc n) \<longleftrightarrow> unat n < 2 ^ 63"
| "legal lim objects (Calloc k n) \<longleftrightarrow> unat k * unat n < 2 ^ 63 \<or> 2 ^ 64 \<le> unat k * unat n"
| "legal lim objects (Realloc p n) \<longleftrightarrow> (if p = 0 then unat n < 2 ^ 63 else objects p \<noteq> None \<and> unat n < lim)"
| "legal lim objects (Free p) \<longleftrightarrow> p = 0 \<or> objects p \<noteq> None"
| "legal lim objects (Write p i ys) \<longleftrightarrow> (case objects p of None \<Rightarrow> False | Some xs \<Rightarrow> i + length ys \<le> length xs)"

fun do_call :: "'st heap_ops \<Rightarrow> call \<Rightarrow> 'st \<Rightarrow> 'st option" where
  "do_call ops (Malloc n) st = map_option snd (op_malloc ops n st)"
| "do_call ops (Calloc k n) st = map_option snd (op_calloc ops k n st)"
| "do_call ops (Realloc p n) st = map_option snd (op_realloc ops p n st)"
| "do_call ops (Free p) st = op_free ops p st"
| "do_call ops (Write p i ys) st = op_write ops p i ys st"

text \<open>A run is a sequence of legal calls, with whatever results the allocator gives.\<close>

inductive heap_step :: "nat \<Rightarrow> 'st heap_ops \<Rightarrow> ('st \<Rightarrow> ptr \<rightharpoonup> u8 list) \<Rightarrow> call \<Rightarrow> 'st \<Rightarrow> 'st \<Rightarrow> bool" for lim ops obj where
  call_step: "legal lim (obj st) c \<Longrightarrow> do_call ops c st = Some st' \<Longrightarrow> heap_step lim ops obj c st st'"

inductive_simps heap_step_iff: "heap_step lim ops obj c st st'"

inductive heap_run :: "nat \<Rightarrow> 'st heap_ops \<Rightarrow> ('st \<Rightarrow> ptr \<rightharpoonup> u8 list) \<Rightarrow> call list \<Rightarrow> 'st \<Rightarrow> 'st \<Rightarrow> bool" for lim ops obj where
  run_nil: "heap_run lim ops obj [] st st"
| run_snoc: "heap_run lim ops obj cs st st1 \<Longrightarrow> heap_step lim ops obj c st1 st2 \<Longrightarrow> heap_run lim ops obj (cs @ [c]) st st2"

definition heap_reach :: "nat \<Rightarrow> 'st heap_ops \<Rightarrow> ('st \<Rightarrow> ptr \<rightharpoonup> u8 list) \<Rightarrow> 'st \<Rightarrow> 'st \<Rightarrow> bool" where
  "heap_reach lim ops obj st st' \<longleftrightarrow> (\<exists>cs. heap_run lim ops obj cs st st')"

lemma reach_call: "legal lim (obj st) c \<Longrightarrow> do_call ops c st = Some st' \<Longrightarrow> heap_reach lim ops obj st st'"
  unfolding heap_reach_def by (metis run_nil run_snoc call_step append_Nil)

section \<open>The contract\<close>

text \<open>What an allocation promises: NULL with nothing changed, or a fresh aligned object whose bytes satisfy \<open>P\<close>.\<close>

definition fresh_object :: "('st \<Rightarrow> ptr \<rightharpoonup> u8 list) \<Rightarrow> 'st \<Rightarrow> (u8 list \<Rightarrow> bool) \<Rightarrow> ptr \<Rightarrow> 'st \<Rightarrow> bool" where
  "fresh_object obj st P p st' \<longleftrightarrow>
     (if p = 0 then obj st' = obj st
      else obj st p = None \<and> unat p mod 16 = 0 \<and> (\<exists>xs. P xs \<and> obj st' = (obj st)(p \<mapsto> xs)))"

locale allocator =
  fixes ok :: "'st \<Rightarrow> bool"
    and obj :: "'st \<Rightarrow> ptr \<rightharpoonup> u8 list"
    and lim :: nat
    and ops :: "'st heap_ops"
  assumes not_null: "ok st \<Longrightarrow> obj st 0 = None"
    and malloc_law: "ok st \<Longrightarrow> unat n < 2 ^ 63 \<Longrightarrow>
      \<exists>p st'. op_malloc ops n st = Some (p, st') \<and> ok st' \<and> fresh_object obj st (\<lambda>xs. unat n \<le> length xs) p st'"
    and calloc_law: "ok st \<Longrightarrow> 0 < unat k * unat n \<Longrightarrow> unat k * unat n < 2 ^ 63 \<Longrightarrow>
      \<exists>p st'. op_calloc ops k n st = Some (p, st') \<and> ok st' \<and>
        fresh_object obj st (\<lambda>xs. unat k * unat n \<le> length xs \<and>
          take (unat k * unat n) xs = replicate (unat k * unat n) 0) p st'"
    and calloc_null_law: "ok st \<Longrightarrow> unat k * unat n = 0 \<or> 2 ^ 64 \<le> unat k * unat n \<Longrightarrow>
      \<exists>st'. op_calloc ops k n st = Some (0, st') \<and> ok st' \<and> obj st' = obj st"
    and realloc_law: "ok st \<Longrightarrow> obj st p = Some xs \<Longrightarrow> 0 < unat n \<Longrightarrow> unat n < lim \<Longrightarrow>
      \<exists>q st'. op_realloc ops p n st = Some (q, st') \<and> ok st' \<and>
        (if q = 0 then obj st' = obj st
         else (q = p \<or> obj st q = None) \<and> unat q mod 16 = 0 \<and>
           (\<exists>ys. unat n \<le> length ys \<and> take (min (length xs) (unat n)) ys = take (min (length xs) (unat n)) xs \<and>
              obj st' = (obj st)(p := None, q \<mapsto> ys)))"
    and realloc_null_law: "ok st \<Longrightarrow> unat n < 2 ^ 63 \<Longrightarrow>
      \<exists>p st'. op_realloc ops 0 n st = Some (p, st') \<and> ok st' \<and> fresh_object obj st (\<lambda>xs. unat n \<le> length xs) p st'"
    and realloc_zero_law: "ok st \<Longrightarrow> obj st p = Some xs \<Longrightarrow>
      \<exists>st'. op_realloc ops p 0 st = Some (0, st') \<and> ok st' \<and> obj st' = (obj st)(p := None)"
    and free_law: "ok st \<Longrightarrow> obj st p = Some xs \<Longrightarrow>
      \<exists>st'. op_free ops p st = Some st' \<and> ok st' \<and> obj st' = (obj st)(p := None)"
    and free_null_law: "ok st \<Longrightarrow> \<exists>st'. op_free ops 0 st = Some st' \<and> ok st' \<and> obj st' = obj st"
    and read_law: "ok st \<Longrightarrow> obj st p = Some xs \<Longrightarrow> i + j \<le> length xs \<Longrightarrow> op_read ops p i j st = Some (take j (drop i xs))"
    and write_law: "ok st \<Longrightarrow> obj st p = Some xs \<Longrightarrow> i + length ys \<le> length xs \<Longrightarrow>
      \<exists>st'. op_write ops p i ys st = Some st' \<and> ok st' \<and> obj st' = (obj st)(p \<mapsto> overwrite i ys xs)"
begin

definition sim :: "ideal \<Rightarrow> (nat \<Rightarrow> ptr) \<Rightarrow> 'st \<Rightarrow> bool" where
  "sim A E st \<longleftrightarrow> ok st \<and> inj_on E (dom A) \<and>
     (\<forall>s. case A s of None \<Rightarrow> E s = 0 | Some xs \<Rightarrow> \<exists>ys. obj st (E s) = Some ys \<and> agree xs ys)"

lemma sim_ok: "sim A E st \<Longrightarrow> ok st"
  by (simp add: sim_def)

lemma sim_null: "sim A E st \<Longrightarrow> A s = None \<Longrightarrow> E s = 0"
  by (auto simp: sim_def dest: spec [of _ s])

lemma sim_some: "sim A E st \<Longrightarrow> A s = Some xs \<Longrightarrow> \<exists>ys. obj st (E s) = Some ys \<and> agree xs ys"
  by (auto simp: sim_def dest: spec [of _ s])

lemma simE:
  assumes "sim A E st" and "A s = Some xs"
  obtains ys where "obj st (E s) = Some ys" and "agree xs ys" and "E s \<noteq> 0"
proof -
  obtain ys where "obj st (E s) = Some ys" "agree xs ys" using sim_some [OF assms] by blast
  moreover from this have "E s \<noteq> 0" using not_null [OF sim_ok [OF assms(1)]] by auto
  ultimately show ?thesis by (rule that)
qed

lemma sim_other: "sim A E st \<Longrightarrow> t \<in> dom A \<Longrightarrow> A s = Some xs \<Longrightarrow> t \<noteq> s \<Longrightarrow> E t \<noteq> E s"
  unfolding sim_def inj_on_def by (metis domI)

lemma sim_live: "sim A E st \<Longrightarrow> t \<in> dom A \<Longrightarrow> obj st (E t) \<noteq> None"
  by (auto elim!: simE)

text \<open>Changing the object of one name, possibly at another address.\<close>

lemma sim_upd:
  assumes sim: "sim A E st" and ok': "ok st'" and ag: "agree xs ys" and q: "obj st' q = Some ys"
    and other: "\<And>t. t \<in> dom A \<Longrightarrow> t \<noteq> s \<Longrightarrow> E t \<noteq> q \<and> obj st' (E t) = obj st (E t)"
  shows "sim (A(s \<mapsto> xs)) (E(s := q)) st'"
  unfolding sim_def
proof (intro conjI allI)
  show "inj_on (E(s := q)) (dom (A(s \<mapsto> xs)))"
  proof (rule inj_onI)
    fix a b assume a: "a \<in> dom (A(s \<mapsto> xs))" "b \<in> dom (A(s \<mapsto> xs))" and eq: "(E(s := q)) a = (E(s := q)) b"
    have "inj_on E (dom A)" using sim by (simp add: sim_def)
    then show "a = b"
      using a eq other [of a] other [of b] by (cases "a = s"; cases "b = s") (auto dest: inj_onD)
  qed
  fix t
  show "case (A(s \<mapsto> xs)) t of None \<Rightarrow> (E(s := q)) t = 0
    | Some us \<Rightarrow> \<exists>zs. obj st' ((E(s := q)) t) = Some zs \<and> agree us zs"
  proof (cases "t = s")
    case False
    then show ?thesis using other [of t] sim_null [OF sim, of t] sim_some [OF sim, of t]
      by (cases "A t") (auto simp: dom_def)
  qed (use ag q in simp)
qed (rule ok')

text \<open>A name that is NULL from now on, whether its object was released or is lost.\<close>

lemma sim_clear:
  assumes sim: "sim A E st" and ok': "ok st'" and other: "\<And>t. t \<in> dom A \<Longrightarrow> t \<noteq> s \<Longrightarrow> obj st' (E t) = obj st (E t)"
  shows "sim (A(s := None)) (E(s := 0)) st'"
  unfolding sim_def
proof (intro conjI allI)
  show "inj_on (E(s := 0)) (dom (A(s := None)))" using sim by (auto simp: sim_def inj_on_def)
  fix t
  show "case (A(s := None)) t of None \<Rightarrow> (E(s := 0)) t = 0
    | Some us \<Rightarrow> \<exists>zs. obj st' ((E(s := 0)) t) = Some zs \<and> agree us zs"
  proof (cases "t = s")
    case False
    then show ?thesis using other [of t] sim_null [OF sim, of t] sim_some [OF sim, of t]
      by (cases "A t") (auto simp: dom_def)
  qed simp
qed (rule ok')

lemma sim_new:
  assumes sim: "sim A E st" and ok': "ok st'" and new: "fresh_object obj st P p st'" "p \<noteq> 0"
    and P: "\<And>ys. P ys \<Longrightarrow> agree xs ys"
  shows "sim (A(s \<mapsto> xs)) (E(s := p)) st'"
proof -
  obtain ys where ys: "P ys" "obj st' = (obj st)(p \<mapsto> ys)" "obj st p = None" using new by (auto simp: fresh_object_def)
  have "E t \<noteq> p" if "t \<in> dom A" for t using sim_live [OF sim that] ys(3) by auto
  then show ?thesis by (intro sim_upd [OF sim ok' P [OF ys(1)]]) (use ys(2) in auto)
qed

text \<open>What one command of the client has to establish.\<close>

definition step_post :: "cmd \<Rightarrow> (nat \<Rightarrow> ptr) \<Rightarrow> 'st \<Rightarrow> ideal \<Rightarrow> u8 option list \<Rightarrow> bool" where
  "step_post c E st A' out \<longleftrightarrow> (\<exists>E' alive out' st'. exec ops c E st = Some (E', alive, out', st') \<and>
    (alive \<longrightarrow> sim A' E' st' \<and> agree out out' \<and> length out' = length out) \<and> (\<not> alive \<longrightarrow> out' = []))"

lemma agree_Nil [simp]: "agree [] []"
  by (simp add: agree_def)

lemma exec_alloc:
  assumes sim: "sim A E st" and n: "unat n < 2 ^ 63"
  shows "step_post (Alloc s n) E st (A(s \<mapsto> replicate (unat n) None)) []"
    and "A s = None \<Longrightarrow> step_post (Resize s n) E st (A(s \<mapsto> replicate (unat n) None)) []"
proof -
  note ok = sim_ok [OF sim]
  have new: "sim (A(s \<mapsto> replicate (unat n) None)) (E(s := p)) st'"
    if "ok st'" "fresh_object obj st (\<lambda>xs. unat n \<le> length xs) p st'" "p \<noteq> 0" for p st'
    by (rule sim_new [OF sim that]) (rule agree_undef)
  show "step_post (Alloc s n) E st (A(s \<mapsto> replicate (unat n) None)) []"
    using malloc_law [OF ok n] new by (auto simp: step_post_def)
  assume "A s = None"
  then have "E s = 0" by (rule sim_null [OF sim])
  then show "step_post (Resize s n) E st (A(s \<mapsto> replicate (unat n) None)) []"
    using realloc_null_law [OF ok n] new by (auto simp: step_post_def)
qed

lemma exec_zalloc:
  assumes sim: "sim A E st" and step: "ideal_step lim (Zalloc s k n) A = Some (A', out)"
  shows "step_post (Zalloc s k n) E st A' out"
proof (cases "k = 0 \<or> n = 0 \<or> 2 ^ 64 \<le> unat k * unat n")
  case True
  then have A': "A' = A(s := None)" "out = []" using step by auto
  have "unat k * unat n = 0 \<or> 2 ^ 64 \<le> unat k * unat n" using True by auto
  from calloc_null_law [OF sim_ok [OF sim] this] obtain st'
    where M: "op_calloc ops k n st = Some (0, st')" "ok st'" "obj st' = obj st" by blast
  have "sim A' (E(s := 0)) st'" unfolding A'(1) by (rule sim_clear [OF sim M(2)]) (simp add: M(3))
  then show ?thesis using M(1) A'(2) by (auto simp: step_post_def)
next
  case False
  let ?t = "unat k * unat n"
  have n: "0 < ?t" "?t < 2 ^ 63" and A': "A' = A(s \<mapsto> replicate ?t (Some 0))" "out = []"
    using step False by (auto simp: unat_gt_0 split: if_splits)
  from calloc_law [OF sim_ok [OF sim] n] obtain p st' where M: "op_calloc ops k n st = Some (p, st')" "ok st'"
    "fresh_object obj st (\<lambda>xs. ?t \<le> length xs \<and> take ?t xs = replicate ?t 0) p st'" by blast
  have "sim A' (E(s := p)) st'" if "p \<noteq> 0"
    unfolding A'(1) by (rule sim_new [OF sim M(2,3) that]) (blast intro: agree_zero)
  then show ?thesis using M(1) A'(2) False by (auto simp: step_post_def)
qed

lemma exec_resize:
  assumes sim: "sim A E st" and xs: "A s = Some xs" and step: "ideal_step lim (Resize s n) A = Some (A', out)"
  shows "step_post (Resize s n) E st A' out"
proof -
  obtain ys where p: "obj st (E s) = Some ys" "agree xs ys" "E s \<noteq> 0" by (rule simE [OF sim xs])
  note ok = sim_ok [OF sim] and other = sim_other [OF sim _ xs]
  show ?thesis
  proof (cases "n = 0")
    case True
    then have A': "A' = A(s := None)" "out = []" using step xs by auto
    from realloc_zero_law [OF ok p(1)] obtain st'
      where M: "op_realloc ops (E s) 0 st = Some (0, st')" "ok st'" "obj st' = (obj st)(E s := None)" by blast
    have "sim A' (E(s := 0)) st'" unfolding A'(1) by (rule sim_clear [OF sim M(2)]) (use M(3) other in auto)
    then show ?thesis using M(1) A'(2) True p(3) by (auto simp: step_post_def)
  next
    case False
    then have n: "0 < unat n" "unat n < lim" and A': "A' = A(s \<mapsto> resize (unat n) xs)" "out = []"
      using step xs by (auto simp: unat_gt_0 split: if_splits)
    from realloc_law [OF ok p(1) n] obtain q st' where M: "op_realloc ops (E s) n st = Some (q, st')" "ok st'"
      "if q = 0 then obj st' = obj st else (q = E s \<or> obj st q = None) \<and> unat q mod 16 = 0 \<and>
        (\<exists>zs. unat n \<le> length zs \<and> take (min (length ys) (unat n)) zs = take (min (length ys) (unat n)) ys \<and>
          obj st' = (obj st)(E s := None, q \<mapsto> zs))" by blast
    have "sim A' (E(s := q)) st'" if nz: "q \<noteq> 0"
    proof -
      obtain zs where zs: "unat n \<le> length zs" "take (min (length ys) (unat n)) zs = take (min (length ys) (unat n)) ys"
        "obj st' = (obj st)(E s := None, q \<mapsto> zs)" and q: "q = E s \<or> obj st q = None" using M(3) nz by auto
      have "E t \<noteq> E s \<and> E t \<noteq> q" if "t \<in> dom A" "t \<noteq> s" for t
        using other [OF that] sim_live [OF sim that(1)] q by auto
      then show ?thesis unfolding A'(1)
        by (intro sim_upd [OF sim M(2) agree_resize [OF p(2) zs(1,2)]]) (use zs(3) in auto)
    qed
    then show ?thesis using M(1) A'(2) False by (auto simp: step_post_def)
  qed
qed

lemma exec_release:
  assumes sim: "sim A E st"
  shows "step_post (Release s) E st (A(s := None)) []"
proof (cases "A s")
  case None
  obtain st' where "op_free ops 0 st = Some st'" "ok st'" "obj st' = obj st"
    using free_null_law [OF sim_ok [OF sim]] by blast
  then show ?thesis using sim_null [OF sim None] sim_clear [OF sim, of st' s] by (auto simp: step_post_def)
next
  case (Some xs)
  obtain ys where p: "obj st (E s) = Some ys" by (rule simE [OF sim Some])
  obtain st' where M: "op_free ops (E s) st = Some st'" "ok st'" "obj st' = (obj st)(E s := None)"
    using free_law [OF sim_ok [OF sim] p] by blast
  have "sim (A(s := None)) (E(s := 0)) st'"
    by (rule sim_clear [OF sim M(2)]) (use M(3) sim_other [OF sim _ Some] in auto)
  then show ?thesis using M(1) by (auto simp: step_post_def)
qed

lemma exec_step:
  assumes sim: "sim A E st" and step: "ideal_step lim c A = Some (A', out)"
  shows "step_post c E st A' out"
proof (cases c)
  case (Alloc s n)
  then show ?thesis using step exec_alloc(1) [OF sim] by (auto split: if_splits)
next
  case (Zalloc s k n)
  then show ?thesis using step exec_zalloc [OF sim] by simp
next
  case (Resize s n)
  then show ?thesis using step exec_alloc(2) [OF sim] exec_resize [OF sim] by (cases "A s") (auto split: if_splits)
next
  case (Release s)
  then show ?thesis using step exec_release [OF sim, of s] by auto
next
  case (Put s i zs)
  then obtain xs where xs: "A s = Some xs" "i + length zs \<le> length xs"
    and A': "A' = A(s \<mapsto> overwrite i (map Some zs) xs)" "out = []"
    using step by (auto split: option.splits if_splits)
  obtain ys where p: "obj st (E s) = Some ys" "agree xs ys" by (rule simE [OF sim xs(1)])
  have "i + length zs \<le> length ys" using xs(2) p(2) by (simp add: agree_def)
  then obtain st' where M: "op_write ops (E s) i zs st = Some st'" "ok st'" "obj st' = (obj st)(E s \<mapsto> overwrite i zs ys)"
    using write_law [OF sim_ok [OF sim] p(1)] by blast
  have "sim A' (E(s := E s)) st'" unfolding A'(1)
    by (rule sim_upd [OF sim M(2) agree_overwrite [OF p(2) xs(2)]]) (use M(3) sim_other [OF sim _ xs(1)] in auto)
  then show ?thesis using M(1) Put A'(2) by (auto simp: step_post_def)
next
  case (Get s i n)
  then obtain xs where xs: "A s = Some xs" "i + n \<le> length xs" and A': "A' = A" "out = take n (drop i xs)"
    using step by (auto split: option.splits if_splits)
  obtain ys where p: "obj st (E s) = Some ys" "agree xs ys" by (rule simE [OF sim xs(1)])
  have le: "i + n \<le> length ys" using xs(2) p(2) by (simp add: agree_def)
  have "op_read ops (E s) i n st = Some (take n (drop i ys))" by (rule read_law [OF sim_ok [OF sim] p(1) le])
  moreover have "agree (take n (drop i xs)) (take n (drop i ys))" by (rule agree_slice [OF p(2) xs(2)])
  ultimately show ?thesis using Get A' sim xs(2) le by (auto simp: step_post_def)
qed

theorem run_refines:
  assumes "sim A E st" and "ideal_run lim cs A = Some out"
  shows "\<exists>alive out'. exec_run ops cs E st = Some (alive, out') \<and>
    agree (take (length out') out) out' \<and> (alive \<longrightarrow> length out' = length out)"
  using assms
proof (induction cs arbitrary: A E st out)
  case Nil
  then show ?case by (auto simp: agree_def)
next
  case (Cons c cs)
  obtain A' o1 o2 where I: "ideal_step lim c A = Some (A', o1)" "ideal_run lim cs A' = Some o2" "out = o1 @ o2"
    using Cons.prems(2) by (auto split: option.splits)
  obtain E' alive o1' st' where X: "exec ops c E st = Some (E', alive, o1', st')"
    "alive \<longrightarrow> sim A' E' st' \<and> agree o1 o1' \<and> length o1' = length o1" "\<not> alive \<longrightarrow> o1' = []"
    using exec_step [OF Cons.prems(1) I(1)] unfolding step_post_def by blast
  show ?case
  proof (cases alive)
    case True
    then obtain al o2' where R: "exec_run ops cs E' st' = Some (al, o2')" "agree (take (length o2') o2) o2'"
      "al \<longrightarrow> length o2' = length o2"
      using Cons.IH [OF _ I(2)] X(2) by blast
    then show ?thesis using True X I(3) by (auto simp: agree_append)
  qed (use X in \<open>auto simp: agree_def\<close>)
qed

section \<open>Reachable states\<close>

text \<open>Every legal call returns, in a well-formed state.\<close>

lemma call_ok:
  assumes "legal lim (obj st) c" and ok: "ok st"
  shows "\<exists>st'. do_call ops c st = Some st' \<and> ok st'"
proof (cases c)
  case (Malloc n)
  then show ?thesis using malloc_law [OF ok] assms(1) by fastforce
next
  case (Calloc k n)
  then show ?thesis using calloc_law [OF ok, of k n] calloc_null_law [OF ok, of k n] assms(1) by fastforce
next
  case (Realloc p n)
  then consider "p = 0" "unat n < 2 ^ 63" | "n = 0" "obj st p \<noteq> None" | "0 < unat n" "unat n < lim" "obj st p \<noteq> None"
    using assms(1) by (cases "p = 0"; cases "n = 0") (auto simp: unat_gt_0)
  then show ?thesis
  proof cases
    case 1
    then show ?thesis using Realloc realloc_null_law [OF ok 1(2)] by auto
  next
    case 2
    then show ?thesis using Realloc realloc_zero_law [OF ok, of p] by auto
  next
    case 3
    then obtain xs where "obj st p = Some xs" by blast
    from realloc_law [OF ok this 3(1,2)] show ?thesis using Realloc by auto
  qed
next
  case (Free p)
  then show ?thesis using free_law [OF ok, of p] free_null_law [OF ok] assms(1) by fastforce
next
  case (Write p i ys)
  then show ?thesis using write_law [OF ok, of p _ i ys] assms(1) by (auto split: option.splits)
qed

lemma step_ok: "heap_step lim ops obj c st st' \<Longrightarrow> ok st \<Longrightarrow> ok st'"
  using call_ok [of st c] by (auto simp: heap_step_iff)

lemma run_ok: "heap_run lim ops obj cs st st' \<Longrightarrow> ok st \<Longrightarrow> ok st'"
  by (induction rule: heap_run.induct) (auto intro: step_ok)

lemma reach_ok: "heap_reach lim ops obj st st' \<Longrightarrow> ok st \<Longrightarrow> ok st'"
  by (auto simp: heap_reach_def intro: run_ok)

end

end
