(* ===== verification/Heap_View.thy ===== *)
theory Heap_View
  imports Heap_Inv Heap_Contract
begin

text \<open>
  The abstract view of an allocator's heap: a walk over the boundary tags from \<open>heap_lo\<close> to
  \<open>heap_hi\<close> recovers the blocks, and with them the live objects, a map from payload pointers to
  the bytes of the payload. The contracts of both allocators are stated over this view.
\<close>

section \<open>Walking the heap\<close>

lemma walk_decreases:
  assumes "p < hi" and "16 \<le> n" and "n \<le> unat (hi - p)"
  shows "unat (hi - (p + w64 n)) < unat (hi - p)"
proof -
  have "n < 2 ^ 64" by (rule le_less_trans [OF assms(3)]) simp
  then have n: "unat (w64 n) = n" by (rule unat_w64_small)
  have e: "hi - (p + w64 n) = (hi - p) - w64 n" by simp
  have "w64 n \<le> hi - p" using assms(3) n by (simp add: word_le_nat_alt)
  then have "unat ((hi - p) - w64 n) = unat (hi - p) - n" using unat_sub [of "w64 n" "hi - p"] n by simp
  then show ?thesis unfolding e using assms(2,3) by linarith
qed

function walk :: "mem \<Rightarrow> ptr \<Rightarrow> ptr \<Rightarrow> blk list" where
  "walk m p hi =
     (if p < hi
      then case load32 m p of
             None \<Rightarrow> []
           | Some t \<Rightarrow>
               (let n = unat (t AND NOT 15)
                in if 16 \<le> n \<and> n \<le> unat (hi - p) then (n, t AND 1 = 1) # walk m (p + w64 n) hi else [])
      else [])"
  by pat_completeness auto

termination
  by (relation "measure (\<lambda>(m, p, hi). unat (hi - p))") (auto dest: walk_decreases)

declare walk.simps [simp del]

definition heap_blocks :: "'a arena_st_scheme \<Rightarrow> blk list" where
  "heap_blocks st = (if heap_lo st = 0 then [] else walk (mem st) (heap_lo st) (heap_hi st))"

definition live :: "'a arena_st_scheme \<Rightarrow> ptr \<rightharpoonup> nat" where
  "live st = map_of (map (\<lambda>(h, n, u). (w64 (h + 4), n - 8))
     (filter (\<lambda>(h, n, u). u) (hdrs (unat (heap_lo st)) (heap_blocks st))))"

definition objs :: "'a arena_st_scheme \<Rightarrow> ptr \<rightharpoonup> u8 list" where
  "objs st p = (case live st p of None \<Rightarrow> None | Some c \<Rightarrow> load_bytes (mem st) p c)"

lemma walk_layout:
  assumes "layout m a bs" and "a + szs bs < 2 ^ 64"
  shows "walk m (w64 a) (w64 (a + szs bs)) = bs"
  using assms
proof (induction bs arbitrary: a)
  case Nil
  then show ?case by (subst walk.simps) simp
next
  case (Cons b bs)
  obtain n u where b: "b = (n, u)" by (cases b)
  have blk: "blk_at m a n u" and lay: "layout m (a + n) bs" using Cons.prems(1) b by simp_all
  have n: "size16 n" using blk by (rule blk_at_size16)
  have 16: "16 \<le> n" "n < 2 ^ 32" using n by (auto dest: size16D)
  have ld: "load32 m (w64 a) = Some (tag n u)" using blk by (simp add: blk_at_def word32_atD)
  have lt: "w64 a < w64 (a + szs (b # bs))"
    using 16 b Cons.prems(2) w64_less_iff [of a "a + szs (b # bs)"] by simp
  have "unat (w64 (a + szs (b # bs)) - w64 a) = szs (b # bs)"
    using Cons.prems(2) unat_w64_small [of "szs (b # bs)"] w64_minus(2) [of a "a + szs (b # bs)"] by simp
  moreover have "unat (w32 n) = n" using 16 by (simp add: unat_w32)
  moreover have "walk m (w64 (a + n)) (w64 (a + n + szs bs)) = bs"
    by (rule Cons.IH [OF lay]) (use Cons.prems(2) b in simp)
  ultimately show ?case
    using lt ld n 16 b by (subst walk.simps) (simp add: add.assoc)
qed

section \<open>The live objects\<close>

lemma heap_blocks_eq:
  assumes inv: "heap_inv st bs"
  shows "heap_blocks st = bs"
proof (cases "bs = []")
  case True
  then show ?thesis using inv by (auto simp: heap_blocks_def heap_inv_def arena_inv_def split: if_splits)
next
  case False
  then have b: "arena_base st \<noteq> 0" and lo: "heap_lo st = w64 (first st)" and hi: "heap_hi st = w64 (first st + szs bs)"
    using inv by (auto simp: heap_inv_def arena_inv_def split: if_splits)
  note facts = heap_inv_reserved [OF inv b]
  have "walk (mem st) (w64 (first st)) (w64 (first st + szs bs)) = bs"
    by (rule walk_layout [OF facts(5)]) (use facts(7) in simp)
  moreover have "w64 (first st) \<noteq> 0" using facts(7) by (simp add: w64_eq_0_iff)
  ultimately show ?thesis using lo hi by (simp add: heap_blocks_def)
qed

lemma heap_lo_first:
  assumes inv: "heap_inv st bs" and "bs \<noteq> []"
  shows "unat (heap_lo st) = first st"
proof -
  have b: "arena_base st \<noteq> 0" and lo: "heap_lo st = w64 (first st)"
    using assms by (auto simp: heap_inv_def arena_inv_def split: if_splits)
  have "first st < 2 ^ 64" using heap_inv_reserved(7) [OF inv b] by simp
  then show ?thesis using lo by (simp only: unat_w64_small)
qed

lemma used_addr_inj:
  assumes inv: "heap_inv st bs" and h: "(h, n) \<in> used_blks (first st) bs" and g: "(g, k) \<in> used_blks (first st) bs"
    and eq: "w64 (h + 4) = w64 (g + 4)"
  shows "h = g \<and> n = k"
proof -
  have mh: "(h, n, True) \<in> set (hdrs (first st) bs)" "(g, k, True) \<in> set (hdrs (first st) bs)"
    using h g by (auto simp: used_blks_def)
  then have "bs \<noteq> []" by auto
  then have b: "arena_base st \<noteq> 0" using inv by (auto simp: heap_inv_def arena_inv_def split: if_splits)
  note facts = heap_inv_reserved [OF inv b]
  have "16 \<le> n" "16 \<le> k" using hdrs_size16 [OF facts(6) mh(1)] hdrs_size16 [OF facts(6) mh(2)] by (auto dest: size16D)
  then have "h + 4 < 2 ^ 64" "g + 4 < 2 ^ 64"
    using hdrs_bounds [OF mh(1)] hdrs_bounds [OF mh(2)] facts(7) by simp_all
  then have "h = g" using eq w64_eq_iff [of "h + 4" "g + 4"] by simp
  then show ?thesis using hdrs_unique [OF facts(6) mh(1)] mh(2) by simp
qed

lemma live_iff:
  assumes inv: "heap_inv st bs"
  shows "live st p = Some c \<longleftrightarrow> (\<exists>h n. (h, n) \<in> used_blks (first st) bs \<and> p = w64 (h + 4) \<and> c = n - 8)"
    (is "?l = ?r")
proof -
  let ?xs = "map (\<lambda>(h, n, u). (w64 (h + 4), n - 8)) (filter (\<lambda>(h, n, u). u) (hdrs (first st) bs))"
  have eq: "live st = map_of ?xs"
    by (cases "bs = []") (simp_all add: live_def heap_blocks_eq [OF inv] heap_lo_first [OF inv])
  have set: "(p, c) \<in> set ?xs \<longleftrightarrow> (\<exists>h n. (h, n) \<in> used_blks (first st) bs \<and> p = w64 (h + 4) \<and> c = n - 8)" for p c
    by (force simp: used_blks_def)
  show ?thesis
  proof
    assume ?l
    then have "(p, c) \<in> set ?xs" unfolding eq by (rule map_of_SomeD)
    then show ?r by (simp only: set)
  next
    assume r: ?r
    then have "(p, c) \<in> set ?xs" by (simp only: set)
    then obtain c' where c': "map_of ?xs p = Some c'" by (metis weak_map_of_SomeI)
    then have "(p, c') \<in> set ?xs" by (rule map_of_SomeD)
    then obtain g k where "(g, k) \<in> used_blks (first st) bs" "p = w64 (g + 4)" "c' = k - 8" by (auto simp only: set)
    with r have "c' = c" using used_addr_inj [OF inv] by blast
    then show ?l using c' eq by simp
  qed
qed

lemma live_dom:
  assumes "heap_inv st bs"
  shows "p \<in> dom (live st) \<longleftrightarrow> (\<exists>h n. (h, n) \<in> used_blks (first st) bs \<and> p = w64 (h + 4))"
  unfolding dom_def using live_iff [OF assms] by auto

lemma objs_iff:
  assumes inv: "heap_inv st bs"
  shows "objs st p = Some xs \<longleftrightarrow> (\<exists>h n. (h, n) \<in> used_blks (first st) bs \<and> p = w64 (h + 4) \<and>
    length xs = n - 8 \<and> bytes_at (mem st) (h + 4) xs)" (is "?l = ?r")
proof
  assume ?l
  then obtain c where "live st p = Some c" and ld: "load_bytes (mem st) p c = Some xs"
    by (auto simp: objs_def split: option.splits)
  then obtain h n where h: "(h, n) \<in> used_blks (first st) bs" "p = w64 (h + 4)" "c = n - 8"
    using live_iff [OF inv] by blast
  then show ?r using load_bytes_SomeD [of "mem st" "h + 4" c xs] ld by auto
next
  assume ?r
  then obtain h n where h: "(h, n) \<in> used_blks (first st) bs" "p = w64 (h + 4)" "length xs = n - 8"
    "bytes_at (mem st) (h + 4) xs" by blast
  then have "live st p = Some (length xs)" using live_iff [OF inv] by auto
  moreover have "load_bytes (mem st) p (length xs) = Some xs" using h(2,4) load_bytes_iff by blast
  ultimately show ?l by (simp add: objs_def)
qed

lemma objs_at:
  assumes inv: "heap_inv st bs" and h: "(h, n) \<in> used_blks (first st) bs"
  obtains xs where "objs st (w64 (h + 4)) = Some xs" and "length xs = n - 8" and "bytes_at (mem st) (h + 4) xs"
proof -
  have mh: "(h, n, True) \<in> set (hdrs (first st) bs)" using h by (simp add: used_blks_def)
  then have "bs \<noteq> []" by auto
  then have b: "arena_base st \<noteq> 0" using inv by (auto simp: heap_inv_def arena_inv_def split: if_splits)
  note facts = heap_inv_reserved [OF inv b]
  have "mapped (mem st) (h + 4) (n - 8)"
    by (rule mapped_mono [OF facts(3)]) (use hdrs_bounds [OF mh] facts(8) hdrs_size16 [OF facts(6) mh] in \<open>auto dest!: size16D(1)\<close>)
  then obtain xs where xs: "load_bytes (mem st) (w64 (h + 4)) (n - 8) = Some xs" "length xs = n - 8"
    by (rule load_bytes_mapped)
  then have "bytes_at (mem st) (h + 4) xs" using load_bytes_SomeD by blast
  moreover from this have "objs st (w64 (h + 4)) = Some xs" using objs_iff [OF inv] h xs(2) by blast
  ultimately show ?thesis using that xs(2) by blast
qed

lemma objs_keep:
  assumes inv: "heap_inv st bs" "heap_inv st' bs'"
    and h: "(h, n) \<in> used_blks (first st) bs" "(h, n) \<in> used_blks (first st') bs'"
    and kp: "keeps (mem st) (mem st') (payload_of h n)"
  shows "objs st' (w64 (h + 4)) = objs st (w64 (h + 4))"
proof -
  obtain xs where xs: "objs st (w64 (h + 4)) = Some xs" "length xs = n - 8" "bytes_at (mem st) (h + 4) xs"
    by (rule objs_at [OF inv(1) h(1)])
  have "bytes_at (mem st') (h + 4) xs"
    using xs(2,3) kp by (auto simp: bytes_at_def keeps_def payload_of_def)
  then have "objs st' (w64 (h + 4)) = Some xs" using objs_iff [OF inv(2)] h(2) xs(2) by blast
  then show ?thesis using xs(1) by simp
qed

lemma objs_None:
  assumes "heap_inv st bs"
  shows "objs st p = None \<longleftrightarrow> (\<forall>h n. (h, n) \<in> used_blks (first st) bs \<longrightarrow> p \<noteq> w64 (h + 4))"
  using objs_iff [OF assms] objs_at [OF assms] by (metis not_None_eq option.distinct(1))

text \<open>How the objects change when used blocks come and go and the bytes of the others stay.\<close>

lemma objs_same:
  assumes inv: "heap_inv st bs" "heap_inv st' bs'"
    and used: "used_blks (first st') bs' = used_blks (first st) bs"
    and kp: "keeps (mem st) (mem st') (interior True (first st) bs)"
  shows "objs st' = objs st"
proof
  fix p
  show "objs st' p = objs st p"
  proof (cases "\<exists>h n. (h, n) \<in> used_blks (first st) bs \<and> p = w64 (h + 4)")
    case True
    then obtain h n where h: "(h, n) \<in> used_blks (first st) bs" "p = w64 (h + 4)" by blast
    then have "keeps (mem st) (mem st') (payload_of h n)" using kp by (auto intro: keeps_mono simp: interior_used)
    then show ?thesis using objs_keep [OF inv h(1)] h used by simp
  next
    case False
    then show ?thesis using objs_None [OF inv(1), of p] objs_None [OF inv(2), of p] used by auto
  qed
qed

lemma objs_insert:
  assumes inv: "heap_inv st bs" "heap_inv st' bs'"
    and used: "used_blks (first st') bs' = insert (h, n) U" and U: "U \<subseteq> used_blks (first st) bs"
    and kp: "keeps (mem st) (mem st') (\<Union>(g, j) \<in> U. payload_of g j)"
    and xs: "objs st' (w64 (h + 4)) = Some xs"
  shows "objs st' = (objs st |` {p. \<exists>g j. (g, j) \<in> U \<and> p = w64 (g + 4)})(w64 (h + 4) \<mapsto> xs)"
proof
  fix p
  let ?D = "{p. \<exists>g j. (g, j) \<in> U \<and> p = w64 (g + 4)}"
  consider "p = w64 (h + 4)" | g j where "p \<noteq> w64 (h + 4)" "(g, j) \<in> U" "p = w64 (g + 4)"
    | "p \<noteq> w64 (h + 4)" "p \<notin> ?D"
    by blast
  then show "objs st' p = ((objs st |` ?D)(w64 (h + 4) \<mapsto> xs)) p"
  proof cases
    case 1
    then show ?thesis using xs by simp
  next
    case 2
    have "keeps (mem st) (mem st') (payload_of g j)" by (rule keeps_mono [OF kp]) (use 2(2) in blast)
    then have "objs st' p = objs st p" using objs_keep [OF inv, of g j] 2 used U by auto
    moreover have "p \<in> ?D" using 2 by blast
    ultimately show ?thesis using 2(1) by simp
  next
    case 3
    then have "objs st' p = None" using objs_None [OF inv(2), of p] used by auto
    then show ?thesis using 3 by simp
  qed
qed

lemma objs_subset:
  assumes inv: "heap_inv st bs" "heap_inv st' bs'"
    and used: "used_blks (first st') bs' = U" and U: "U \<subseteq> used_blks (first st) bs"
    and kp: "keeps (mem st) (mem st') (\<Union>(g, j) \<in> U. payload_of g j)"
  shows "objs st' = objs st |` {p. \<exists>g j. (g, j) \<in> U \<and> p = w64 (g + 4)}"
proof
  fix p
  let ?D = "{p. \<exists>g j. (g, j) \<in> U \<and> p = w64 (g + 4)}"
  show "objs st' p = (objs st |` ?D) p"
  proof (cases "p \<in> ?D")
    case True
    then obtain g j where g: "(g, j) \<in> U" "p = w64 (g + 4)" by blast
    have "keeps (mem st) (mem st') (payload_of g j)" by (rule keeps_mono [OF kp]) (use g(1) in blast)
    then have "objs st' p = objs st p" using objs_keep [OF inv, of g j] g used U by auto
    then show ?thesis using True by simp
  next
    case False
    then have "objs st' p = None" using objs_None [OF inv(2), of p] used by auto
    then show ?thesis using False by simp
  qed
qed

text \<open>Restricting to all used blocks but one removes exactly the object of that one.\<close>

lemma objs_restrict:
  assumes inv: "heap_inv st bs" and h: "(h, n) \<in> used_blks (first st) bs"
  shows "objs st |` {p. \<exists>g j. (g, j) \<in> used_blks (first st) bs - {(h, n)} \<and> p = w64 (g + 4)} =
    (objs st)(w64 (h + 4) := None)"
proof
  fix p
  show "(objs st |` {p. \<exists>g j. (g, j) \<in> used_blks (first st) bs - {(h, n)} \<and> p = w64 (g + 4)}) p =
    ((objs st)(w64 (h + 4) := None)) p"
  proof (cases "objs st p")
    case None
    then show ?thesis by (auto simp: restrict_map_def)
  next
    case (Some xs)
    then obtain g k where g: "(g, k) \<in> used_blks (first st) bs" "p = w64 (g + 4)" using objs_iff [OF inv] by blast
    let ?D = "{p. \<exists>g j. (g, j) \<in> used_blks (first st) bs - {(h, n)} \<and> p = w64 (g + 4)}"
    have "w64 (a + 4) \<noteq> w64 (h + 4)" if "(a, j) \<in> used_blks (first st) bs - {(h, n)}" for a j
      using used_addr_inj [OF inv _ h, of a j] that by auto
    then have "p = w64 (h + 4) \<Longrightarrow> p \<notin> ?D" by fastforce
    moreover have "p \<in> ?D" if "p \<noteq> w64 (h + 4)"
    proof -
      have "(g, k) \<in> used_blks (first st) bs - {(h, n)}" using g that by auto
      then show ?thesis using g(2) by blast
    qed
    ultimately have "p \<in> ?D \<longleftrightarrow> p \<noteq> w64 (h + 4)" by blast
    then show ?thesis by (simp add: restrict_map_def)
  qed
qed

lemma objs_restrict_all:
  assumes inv: "heap_inv st bs"
  shows "objs st |` {p. \<exists>g j. (g, j) \<in> used_blks (first st) bs \<and> p = w64 (g + 4)} = objs st"
proof
  fix p
  show "(objs st |` {p. \<exists>g j. (g, j) \<in> used_blks (first st) bs \<and> p = w64 (g + 4)}) p = objs st p"
    using objs_None [OF inv, of p] by (auto simp: restrict_map_def)
qed

lemma objsE:
  assumes inv: "heap_inv st bs" and "objs st p = Some xs"
  obtains h n where "(h, n) \<in> used_blks (first st) bs" and "p = w64 (h + 4)" and "length xs = n - 8"
    and "bytes_at (mem st) (h + 4) xs" and "16 \<le> n" and "h + n \<le> 2 ^ 47" and "arena_base st \<noteq> 0" and "p \<noteq> 0"
    and "unat p mod 16 = 0"
proof -
  obtain h n where h: "(h, n) \<in> used_blks (first st) bs" "p = w64 (h + 4)" "length xs = n - 8"
    "bytes_at (mem st) (h + 4) xs"
    using assms(2) objs_iff [OF inv] by blast
  note U = heap_used_facts [OF inv h(1)]
  have "unat p = h + 4" unfolding h(2) by (rule unat_w64_small) (use U(4) size16D(1) [OF U(2)] in simp)
  then show ?thesis using that h U size16D(1) [OF U(2)] by simp
qed

lemma objs_new:
  assumes H: "heap_inv st bs" "heap_inv st' bs'"
    and kp: "keeps (mem st) (mem st') (interior True (first st) bs)"
    and new: "(h, n) \<notin> used_blks (first st) bs"
    and used: "used_blks (first st') bs' = insert (h, n) (used_blks (first st) bs)"
  obtains xs where "objs st (w64 (h + 4)) = None" and "unat (w64 (h + 4)) mod 16 = 0"
    and "length xs = n - 8" and "bytes_at (mem st') (h + 4) xs" and "objs st' = (objs st)(w64 (h + 4) \<mapsto> xs)"
proof -
  have h: "(h, n) \<in> used_blks (first st') bs'" using used by simp
  obtain xs where xs: "objs st' (w64 (h + 4)) = Some xs" "length xs = n - 8" "bytes_at (mem st') (h + 4) xs"
    by (rule objs_at [OF H(2) h])
  have "objs st (w64 (h + 4)) = None"
    unfolding objs_None [OF H(1)]
  proof (intro allI impI notI)
    fix g k assume g: "(g, k) \<in> used_blks (first st) bs" "w64 (h + 4) = w64 (g + 4)"
    then have "(g, k) \<in> used_blks (first st') bs'" using used by simp
    then have "h = g \<and> n = k" by (rule used_addr_inj [OF H(2) h _ g(2)])
    then show False using g(1) new by simp
  qed
  moreover have "unat (w64 (h + 4)) mod 16 = 0" by (rule objsE [OF H(2) xs(1)])
  moreover have "objs st' = (objs st)(w64 (h + 4) \<mapsto> xs)"
    using objs_insert [OF H used subset_refl _ xs(1)] kp unfolding objs_restrict_all [OF H(1)] interior_used by blast
  ultimately show ?thesis by (rule that [OF _ _ xs(2,3)])
qed

lemma objs_same_reserved:
  assumes inv: "heap_inv st bs" and os: "os_ok os st" and inv': "heap_inv st' bs"
    and base: "arena_base st' = arena_base (arena_reserved os st)"
    and kp: "keeps (mem st) (mem st') (interior True (first st) bs)"
  shows "objs st' = objs st"
proof -
  have "used_blks (first st') bs = used_blks (first st) bs"
    using base arena_reserved_id [of st os] inv
    by (cases "arena_base st = 0") (auto simp: heap_inv_def arena_inv_def)
  then show ?thesis using objs_same [OF inv inv'] kp by simp
qed

section \<open>Accesses of the client\<close>

definition mem_read :: "ptr \<Rightarrow> nat \<Rightarrow> nat \<Rightarrow> 'a arena_st_scheme \<Rightarrow> u8 list option" where
  "mem_read p i n st = load_bytes (mem st) (p + w64 i) n"

definition mem_write :: "ptr \<Rightarrow> nat \<Rightarrow> u8 list \<Rightarrow> 'a arena_st_scheme \<Rightarrow> 'a arena_st_scheme option" where
  "mem_write p i xs st = map_option (\<lambda>m. st\<lparr>mem := m\<rparr>) (store_bytes (mem st) (p + w64 i) xs)"

lemma objs_read:
  assumes inv: "heap_inv st bs" and p: "objs st p = Some xs" and le: "i + n \<le> length xs"
  shows "mem_read p i n st = Some (take n (drop i xs))"
proof -
  obtain h k where h: "p = w64 (h + 4)" "bytes_at (mem st) (h + 4) xs"
    using p objs_iff [OF inv] by blast
  have "bytes_at (mem st) (h + 4 + i) (take n (drop i xs))"
    using h(2) le by (auto simp: bytes_at_def add.assoc)
  moreover have "length (take n (drop i xs)) = n" using le by simp
  ultimately have "load_bytes (mem st) (w64 (h + 4 + i)) n = Some (take n (drop i xs))"
    using load_bytes_iff by metis
  then show ?thesis using h(1) by (simp add: mem_read_def)
qed

lemma objs_write:
  assumes inv: "heap_inv st bs" "heap_inv (st\<lparr>mem := m'\<rparr>) bs" and h: "(h, n) \<in> used_blks (first st) bs"
    and xs: "objs st (w64 (h + 4)) = Some xs" and le: "i + length ys \<le> length xs"
    and m': "bytes_at m' (h + 4 + i) ys" "frame (mem st) m' {h + 4 + i ..< h + 4 + i + length ys}"
    and disj: "\<And>g k. (g, k) \<in> used_blks (first st) bs \<Longrightarrow> (g, k) \<noteq> (h, n) \<Longrightarrow> g + k \<le> h \<or> h + n \<le> g"
    and lim: "\<And>g k. (g, k) \<in> used_blks (first st) bs \<Longrightarrow> 16 \<le> k \<and> g + k \<le> 2 ^ 47"
  shows "objs (st\<lparr>mem := m'\<rparr>) = (objs st)(w64 (h + 4) \<mapsto> overwrite i ys xs)"
proof -
  let ?st' = "st\<lparr>mem := m'\<rparr>" and ?U = "used_blks (first st) bs - {(h, n)}"
  obtain xs' where "objs st (w64 (h + 4)) = Some xs'" "length xs' = n - 8" "bytes_at (mem st) (h + 4) xs'"
    by (rule objs_at [OF inv(1) h])
  then have xn: "length xs = n - 8" "bytes_at (mem st) (h + 4) xs" using xs by simp_all
  note L = lim [OF h]
  have "bytes_at m' (h + 4) (overwrite i ys xs)"
    unfolding bytes_at_def
  proof (intro allI impI)
    fix j assume j: "j < length (overwrite i ys xs)"
    then have jn: "j < n - 8" "j < length xs" using le xn(1) by (simp_all add: overwrite_def)
    show "m' (w64 (h + 4 + j)) = Some (overwrite i ys xs ! j)"
    proof (cases "i \<le> j \<and> j < i + length ys")
      case True
      then have "j - i < length ys" by linarith
      then have "m' (w64 (h + 4 + i + (j - i))) = Some (ys ! (j - i))" using m'(1) unfolding bytes_at_def by blast
      moreover have "h + 4 + i + (j - i) = h + 4 + j" using True by simp
      moreover have "overwrite i ys xs ! j = ys ! (j - i)" using True le by (auto simp: overwrite_def nth_append)
      ultimately show ?thesis by (simp only:)
    next
      case False
      have "h + 4 + j < h + n" using jn(1) L by linarith
      then have "h + 4 + j < 2 ^ 64" using L by simp
      moreover have "h + 4 + j \<notin> {h + 4 + i ..< h + 4 + i + length ys}" using False by auto
      ultimately have "m' (w64 (h + 4 + j)) = mem st (w64 (h + 4 + j))" using m'(2) unfolding frame_def by blast
      moreover have "overwrite i ys xs ! j = xs ! j" using False le jn(2) by (auto simp: overwrite_def nth_append)
      ultimately show ?thesis using xn(2) jn(2) by (simp add: bytes_at_def)
    qed
  qed
  moreover have "length (overwrite i ys xs) = n - 8" using le xn(1) by (simp add: overwrite_def)
  ultimately have new: "objs ?st' (w64 (h + 4)) = Some (overwrite i ys xs)"
    using objs_iff [OF inv(2)] h by auto
  have "keeps (mem st) (mem ?st') (\<Union>(g, k) \<in> ?U. payload_of g k)"
  proof (rule frame_keeps)
    show "frame (mem st) (mem ?st') {h + 4 + i ..< h + 4 + i + length ys}" using m'(2) by simp
    fix x assume "x \<in> (\<Union>(g, k) \<in> ?U. payload_of g k)"
    then obtain g k where g: "(g, k) \<in> used_blks (first st) bs" "(g, k) \<noteq> (h, n)" "x \<in> payload_of g k" by blast
    show "x < 2 ^ 64 \<and> x \<notin> {h + 4 + i ..< h + 4 + i + length ys}"
      using disj [OF g(1,2)] lim [OF g(1)] g(3) le xn(1) L by (auto simp: payload_of_def)
  qed
  moreover have "used_blks (first ?st') bs = insert (h, n) ?U" using h by auto
  ultimately have "objs ?st' = (objs st |` {p. \<exists>g j. (g, j) \<in> ?U \<and> p = w64 (g + 4)})(w64 (h + 4) \<mapsto> overwrite i ys xs)"
    using new by (intro objs_insert [OF inv]) auto
  then show ?thesis unfolding objs_restrict [OF inv(1) h] by simp
qed

end
