(* ===== verification/Allocator_Objects.thy ===== *)
theory Allocator_Objects
  imports Allocator_Realloc Heap_View
begin

text \<open>
  The first-fit allocator meets the contract of \<open>Heap_Contract\<close>: the laws of each operation over
  the view as a map of live objects, and the interpretation of the locale.
\<close>

definition ff_ok :: "mmap_os \<Rightarrow> ff_st \<Rightarrow> bool" where
  "ff_ok os st \<longleftrightarrow> os_ok os st \<and> (\<exists>bs fs. ff_inv st bs fs)"

definition ff_ops :: "mmap_os \<Rightarrow> ff_st heap_ops" where
  "ff_ops os = \<lparr>op_malloc = my_malloc os, op_calloc = my_calloc os, op_realloc = my_realloc os,
     op_free = my_free, op_read = mem_read, op_write = mem_write\<rparr>"

lemma ff_okE:
  assumes "ff_ok os st"
  obtains bs fs where "ff_inv st bs fs" and "os_ok os st"
  using assms by (auto simp: ff_ok_def)

lemma ff_okI: "ff_inv st bs fs \<Longrightarrow> os_ok os st \<Longrightarrow> ff_ok os st"
  by (auto simp: ff_ok_def)

lemma ff_okI_base: "ff_inv st bs fs \<Longrightarrow> arena_base st \<noteq> 0 \<Longrightarrow> ff_ok os st"
  by (auto simp: ff_ok_def os_ok_def)

lemma ff_objsE:
  assumes inv: "ff_inv st bs fs" and "objs st p = Some xs"
  obtains h n where "(h, n) \<in> used_blks (first st) bs" and "p = w64 (h + 4)" and "length xs = n - 8"
    and "bytes_at (mem st) (h + 4) xs" and "16 \<le> n" and "h + n \<le> 2 ^ 47" and "arena_base st \<noteq> 0" and "p \<noteq> 0"
    and "unat p mod 16 = 0"
  using objsE [OF ff_inv_heap [OF inv] assms(2)] .

section \<open>The laws\<close>

lemma ff_malloc_objs:
  assumes ok: "ff_ok os st" and sz: "unat n < 2 ^ 63"
  shows "\<exists>p st'. my_malloc os n st = Some (p, st') \<and> ff_ok os st' \<and>
    (if p = 0 then objs st' = objs st
     else objs st p = None \<and> unat p mod 16 = 0 \<and> (\<exists>xs. unat n \<le> length xs \<and> objs st' = (objs st)(p \<mapsto> xs)))"
proof -
  obtain bs fs where inv: "ff_inv st bs fs" and os: "os_ok os st" using ok by (rule ff_okE)
  obtain p st' bs' fs' where M: "my_malloc os n st = Some (p, st')" "ff_inv st' bs' fs'"
    "keeps (mem st) (mem st') (interior True (first st) bs)" "arena_base st' = arena_base (arena_reserved os st)"
    "if p = 0 then bs' = bs \<and> fs' = fs \<and> (\<forall>h \<in> set fs. \<not> fits (first st) bs (chunk (unat n)) h) \<and>
          2 ^ 32 < 12 + szs bs + chunk (unat n)
     else \<exists>h k. p = w64 (h + 4) \<and> chunk (unat n) \<le> k \<and> (h, k) \<notin> used_blks (first st) bs \<and>
          used_blks (first st') bs' = insert (h, k) (used_blks (first st) bs)"
    using my_malloc_spec [OF inv os sz] by blast
  have b': "arena_base st' \<noteq> 0" using M(4) arena_reserved_base [OF os] by simp
  have ok': "ff_ok os st'" by (rule ff_okI_base [OF M(2) b'])
  show ?thesis
  proof (cases "p = 0")
    case True
    then have "objs st' = objs st" using objs_same_reserved [OF ff_inv_heap [OF inv] os _ M(4,3)] ff_inv_heap [OF M(2)] M(5) by simp
    then show ?thesis using M(1) ok' True by auto
  next
    case False
    then obtain h k where h: "p = w64 (h + 4)" "chunk (unat n) \<le> k" "(h, k) \<notin> used_blks (first st) bs"
      "used_blks (first st') bs' = insert (h, k) (used_blks (first st) bs)" using M(5) by auto
    obtain xs where xs: "objs st (w64 (h + 4)) = None" "unat (w64 (h + 4)) mod 16 = 0"
      "length xs = k - 8" "bytes_at (mem st') (h + 4) xs" "objs st' = (objs st)(w64 (h + 4) \<mapsto> xs)"
      by (rule objs_new [OF ff_inv_heap [OF inv] ff_inv_heap [OF M(2)] M(3) h(3,4)])
    have "unat n \<le> length xs" using h(2) chunk_bounds(1) [of "unat n"] xs(3) by simp
    then have "\<exists>xs. unat n \<le> length xs \<and> objs st' = (objs st)(p \<mapsto> xs)" using xs(5) h(1) by blast
    then show ?thesis using M(1) ok' False xs(1,2) h(1) by auto
  qed
qed

lemma ff_free_objs:
  assumes ok: "ff_ok os st" and p: "objs st p = Some xs"
  shows "\<exists>st'. my_free p st = Some st' \<and> ff_ok os st' \<and> objs st' = (objs st)(p := None)"
proof -
  obtain bs fs where inv: "ff_inv st bs fs" and os: "os_ok os st" using ok by (rule ff_okE)
  obtain h n where h: "(h, n) \<in> used_blks (first st) bs" "p = w64 (h + 4)" and b: "arena_base st \<noteq> 0"
    using inv p by (rule ff_objsE)
  obtain st' bs' fs' where F: "my_free (w64 (h + 4)) st = Some st'" "ff_inv st' bs' fs'" "same_arena st st'"
    "used_blks (first st) bs' = used_blks (first st) bs - {(h, n)}"
    "keeps (mem st) (mem st') (interior True (first st) bs')"
    using my_free_spec [OF inv h(1)] by blast
  have same: "arena_base st' = arena_base st" using F(3) by (simp add: same_arena_def)
  have ok': "ff_ok os st'" by (rule ff_okI_base [OF F(2)]) (use b same in simp)
  note H = ff_inv_heap [OF inv] ff_inv_heap [OF F(2)]
  have "objs st' = objs st |` {p. \<exists>g j. (g, j) \<in> used_blks (first st) bs - {(h, n)} \<and> p = w64 (g + 4)}"
    by (rule objs_subset [OF H]) (use F(4,5) same in \<open>auto simp: interior_used\<close>)
  then show ?thesis using F(1) ok' h(2) objs_restrict [OF H(1) h(1)] by simp
qed

lemma ff_calloc_objs:
  assumes ok: "ff_ok os st" and pos: "0 < unat k * unat n" and lim: "unat k * unat n < 2 ^ 63"
  shows "\<exists>p st'. my_calloc os k n st = Some (p, st') \<and> ff_ok os st' \<and>
    (if p = 0 then objs st' = objs st
     else objs st p = None \<and> unat p mod 16 = 0 \<and>
       (\<exists>xs. unat k * unat n \<le> length xs \<and> take (unat k * unat n) xs = replicate (unat k * unat n) 0 \<and>
          objs st' = (objs st)(p \<mapsto> xs)))"
proof -
  let ?t = "unat k * unat n"
  obtain bs fs where inv: "ff_inv st bs fs" and os: "os_ok os st" using ok by (rule ff_okE)
  obtain p st' bs' fs' where M: "my_calloc os k n st = Some (p, st')" "ff_inv st' bs' fs'"
    "keeps (mem st) (mem st') (interior True (first st) bs)" "arena_base st' = arena_base (arena_reserved os st)"
    "if p = 0 then bs' = bs \<and> fs' = fs
     else \<exists>h k. p = w64 (h + 4) \<and> chunk ?t \<le> k \<and> (h, k) \<notin> used_blks (first st) bs \<and>
          used_blks (first st') bs' = insert (h, k) (used_blks (first st) bs) \<and>
          bytes_at (mem st') (h + 4) (replicate ?t 0)"
    using my_calloc_spec [OF inv os pos lim] by blast
  have ok': "ff_ok os st'" by (rule ff_okI_base [OF M(2)]) (use M(4) arena_reserved_base [OF os] in simp)
  show ?thesis
  proof (cases "p = 0")
    case True
    then have "objs st' = objs st" using objs_same_reserved [OF ff_inv_heap [OF inv] os _ M(4,3)] ff_inv_heap [OF M(2)] M(5) by simp
    then show ?thesis using M(1) ok' True by auto
  next
    case False
    then obtain h j where h: "p = w64 (h + 4)" "chunk ?t \<le> j" "(h, j) \<notin> used_blks (first st) bs"
      "used_blks (first st') bs' = insert (h, j) (used_blks (first st) bs)"
      "bytes_at (mem st') (h + 4) (replicate ?t 0)" using M(5) by auto
    obtain xs where xs: "objs st (w64 (h + 4)) = None" "unat (w64 (h + 4)) mod 16 = 0"
      "length xs = j - 8" "bytes_at (mem st') (h + 4) xs" "objs st' = (objs st)(w64 (h + 4) \<mapsto> xs)"
      by (rule objs_new [OF ff_inv_heap [OF inv] ff_inv_heap [OF M(2)] M(3) h(3,4)])
    have len: "?t \<le> length xs" using h(2) chunk_bounds(1) [of ?t] xs(3) by simp
    have "take ?t xs = replicate ?t 0"
    proof (rule nth_equalityI)
      fix i assume "i < length (take ?t xs)"
      then have i: "i < ?t" "i < length xs" by simp_all
      have "Some (xs ! i) = mem st' (w64 (h + 4 + i))" using xs(4) i(2) by (simp add: bytes_at_def)
      also have "\<dots> = Some 0" using h(5) i(1) by (simp add: bytes_at_def)
      finally show "take ?t xs ! i = replicate ?t 0 ! i" using i by simp
    qed (use len in simp)
    then have "\<exists>xs. ?t \<le> length xs \<and> take ?t xs = replicate ?t 0 \<and> objs st' = (objs st)(p \<mapsto> xs)"
      using xs(5) h(1) len by blast
    then show ?thesis using M(1) ok' False xs(1,2) h(1) by auto
  qed
qed

lemma ff_realloc_objs:
  assumes ok: "ff_ok os st" and p: "objs st p = Some xs" and n: "0 < unat n" "unat n + 23 < 2 ^ 32"
  shows "\<exists>q st'. my_realloc os p n st = Some (q, st') \<and> ff_ok os st' \<and>
    (if q = 0 then objs st' = objs st
     else (q = p \<or> objs st q = None) \<and> unat q mod 16 = 0 \<and>
       (\<exists>ys. unat n \<le> length ys \<and> take (min (length xs) (unat n)) ys = take (min (length xs) (unat n)) xs \<and>
          objs st' = (objs st)(p := None, q \<mapsto> ys)))"
proof -
  obtain bs fs where inv: "ff_inv st bs fs" and os: "os_ok os st" using ok by (rule ff_okE)
  obtain h k where h: "(h, k) \<in> used_blks (first st) bs" "p = w64 (h + 4)" "length xs = k - 8"
    "bytes_at (mem st) (h + 4) xs" "16 \<le> k" and b: "arena_base st \<noteq> 0"
    using inv p by (rule ff_objsE)
  have c: "chunk (unat n) < 2 ^ 32" using n(2) chunk_bounds(2) [of "unat n"] by simp
  obtain q st' bs' fs' where M: "my_realloc os (w64 (h + 4)) n st = Some (q, st')" "ff_inv st' bs' fs'"
    "arena_base st' = arena_base st"
    "if q = 0 then k < chunk (unat n) \<and> bs' = bs \<and> fs' = fs \<and> keeps (mem st) (mem st') (interior True (first st) bs)
     else \<exists>h' n'. q = w64 (h' + 4) \<and> realloc_post st bs h k (chunk (unat n)) st' bs' h' n'"
    using my_realloc_spec [OF inv h(1) n(1) c] by blast
  note H = ff_inv_heap [OF inv] ff_inv_heap [OF M(2)]
  have ok': "ff_ok os st'" by (rule ff_okI_base [OF M(2)]) (use M(3) b in simp)
  show ?thesis
  proof (cases "q = 0")
    case True
    then have "objs st' = objs st" using objs_same [OF H] M(3,4) by simp
    then show ?thesis using M(1) ok' True h(2) by auto
  next
    case False
    then obtain h' n' where q: "q = w64 (h' + 4)" and P: "realloc_post st bs h k (chunk (unat n)) st' bs' h' n'"
      using M(4) by auto
    let ?U = "used_blks (first st) bs - {(h, k)}"
    have u': "used_blks (first st') bs' = insert (h', n') ?U" using P M(3) by (simp add: realloc_post_def)
    then have h': "(h', n') \<in> used_blks (first st') bs'" by simp
    obtain ys where ys: "objs st' (w64 (h' + 4)) = Some ys" "length ys = n' - 8" "bytes_at (mem st') (h' + 4) ys"
      by (rule objs_at [OF H(2) h'])
    have "objs st' = (objs st |` {p. \<exists>g j. (g, j) \<in> ?U \<and> p = w64 (g + 4)})(w64 (h' + 4) \<mapsto> ys)"
      using P by (intro objs_insert [OF H u' _ _ ys(1)]) (auto simp: realloc_post_def)
    then have o': "objs st' = (objs st)(p := None, q \<mapsto> ys)" unfolding objs_restrict [OF H(1) h(1)] q h(2) .
    have "chunk (unat n) \<le> n'" using P by (simp add: realloc_post_def)
    then have len: "unat n \<le> length ys" using chunk_bounds(1) [of "unat n"] ys(2) by simp
    have pre: "take (min (length xs) (unat n)) ys = take (min (length xs) (unat n)) xs"
    proof (rule nth_equalityI)
      fix i assume "i < length (take (min (length xs) (unat n)) ys)"
      then have i: "i < unat n" "i < length xs" "i < length ys" by simp_all
      have "mem st' (w64 (h' + 4 + i)) = mem st (w64 (h + 4 + i))"
        using P i h(3) ys(2) by (simp add: realloc_post_def same_prefix_def)
      then have "ys ! i = xs ! i" using h(4) ys(3) i by (simp add: bytes_at_def)
      then show "take (min (length xs) (unat n)) ys ! i = take (min (length xs) (unat n)) xs ! i" using i by simp
    qed (use len in simp)
    have fresh: "q = p \<or> objs st q = None"
    proof (cases "h' = h")
      case False
      then have new: "(h', n') \<notin> used_blks (first st) bs" using P by (simp add: realloc_post_def)
      have "objs st q = None"
        unfolding objs_None [OF H(1)] q
      proof (intro allI impI notI)
        fix g j assume g: "(g, j) \<in> used_blks (first st) bs" "w64 (h' + 4) = w64 (g + 4)"
        show False
        proof (cases "(g, j) = (h, k)")
          case True
          then have "h' + 4 = h + 4" using g(2) used_blk_facts(4) [OF inv h(1)] used_blk_facts(4) [OF M(2) h'] h(5)
              used_blk_facts(2) [OF M(2) h'] w64_eq_iff [of "h' + 4" "h + 4"] by (auto dest!: size16D(1))
          then show ?thesis using False by simp
        next
          case False
          then have "(g, j) \<in> used_blks (first st') bs'" using g(1) u' by auto
          then show ?thesis using used_addr_inj [OF H(2) h' _ g(2)] g(1) new by auto
        qed
      qed
      then show ?thesis ..
    qed (use q h(2) in simp)
    have "unat q mod 16 = 0" unfolding q by (rule ff_objsE [OF M(2) ys(1)])
    then show ?thesis using M(1) h(2) ok' False fresh len pre o' by auto
  qed
qed

lemma ff_write_objs:
  assumes ok: "ff_ok os st" and p: "objs st p = Some xs" and le: "i + length ys \<le> length xs"
  shows "\<exists>st'. mem_write p i ys st = Some st' \<and> ff_ok os st' \<and> objs st' = (objs st)(p \<mapsto> overwrite i ys xs)"
proof -
  obtain bs fs where inv: "ff_inv st bs fs" and os: "os_ok os st" using ok by (rule ff_okE)
  obtain h n where h: "(h, n) \<in> used_blks (first st) bs" "p = w64 (h + 4)" "length xs = n - 8" "16 \<le> n"
    and b: "arena_base st \<noteq> 0"
    using inv p by (rule ff_objsE)
  have len: "i + length ys + 8 \<le> n" using le h(3,4) by simp
  obtain m' where m': "store_bytes (mem st) (w64 (h + 4 + i)) ys = Some m'" "bytes_at m' (h + 4 + i) ys"
    "frame (mem st) m' {h + 4 + i ..< h + 4 + i + length ys}" "ff_inv (st\<lparr>mem := m'\<rparr>) bs fs"
    by (rule payload_write [OF inv h(1) len])
  have "mem_write p i ys st = Some (st\<lparr>mem := m'\<rparr>)" using m'(1) h(2) by (simp add: mem_write_def)
  moreover have "ff_ok os (st\<lparr>mem := m'\<rparr>)" by (rule ff_okI_base [OF m'(4)]) (use b in simp)
  moreover have "objs (st\<lparr>mem := m'\<rparr>) = (objs st)(p \<mapsto> overwrite i ys xs)"
    unfolding h(2)
  proof (rule objs_write [OF ff_inv_heap [OF inv] ff_inv_heap [OF m'(4)] h(1) p [unfolded h(2)] le m'(2,3)])
    fix g k assume g: "(g, k) \<in> used_blks (first st) bs"
    show "16 \<le> k \<and> g + k \<le> 2 ^ 47" using used_blk_facts(2,4) [OF inv g] by (simp add: size16D)
    assume "(g, k) \<noteq> (h, n)"
    then show "g + k \<le> h \<or> h + n \<le> g" by (rule used_disjoint [OF ff_inv_heap [OF inv] g h(1)])
  qed
  ultimately show ?thesis by blast
qed

lemma ff_not_null: "ff_ok os st \<Longrightarrow> objs st 0 = None"
  by (erule ff_okE) (metis ff_objsE not_None_eq)

lemma ff_read_objs:
  "ff_ok os st \<Longrightarrow> objs st p = Some xs \<Longrightarrow> i + n \<le> length xs \<Longrightarrow> mem_read p i n st = Some (take n (drop i xs))"
  by (erule ff_okE) (rule objs_read [OF ff_inv_heap])

lemma my_free_null: "my_free 0 st = Some st"
  by (simp add: my_free_def)

lemma my_calloc_null: "unat k * unat n = 0 \<or> 2 ^ 64 \<le> unat k * unat n \<Longrightarrow> my_calloc os k n st = Some (0, st)"
  using calloc_guard [of n k] by (auto simp: my_calloc_def unsigned_eq_0_iff)

lemma my_realloc_null: "my_realloc os 0 n st = my_malloc os n st"
  by (simp add: my_realloc_def)

lemma my_realloc_zero: "p \<noteq> 0 \<Longrightarrow> my_realloc os p 0 st = map_option (Pair 0) (my_free p st)"
  by (simp add: my_realloc_def map_option_case split: option.splits)

lemma ff_realloc_zero_objs:
  assumes "ff_ok os st" and "objs st p = Some xs"
  shows "\<exists>st'. my_realloc os p 0 st = Some (0, st') \<and> ff_ok os st' \<and> objs st' = (objs st)(p := None)"
  using ff_free_objs [OF assms] ff_not_null [OF assms(1)] assms(2) by (cases "p = 0") (auto simp: my_realloc_zero)

lemma ff_calloc_law:
  assumes "ff_ok os st" and "0 < unat k * unat n" and "unat k * unat n < 2 ^ 63"
  shows "\<exists>p st'. my_calloc os k n st = Some (p, st') \<and> ff_ok os st' \<and>
    fresh_object objs st (\<lambda>xs. unat k * unat n \<le> length xs \<and>
      take (unat k * unat n) xs = replicate (unat k * unat n) 0) p st'"
  using ff_calloc_objs [OF assms] unfolding fresh_object_def conj_assoc .

lemma ff_malloc_law:
  assumes "ff_ok os st" and "unat n < 2 ^ 63"
  shows "\<exists>p st'. my_malloc os n st = Some (p, st') \<and> ff_ok os st' \<and> fresh_object objs st (\<lambda>xs. unat n \<le> length xs) p st'"
  using ff_malloc_objs [OF assms] unfolding fresh_object_def .

section \<open>The interpretation\<close>

text \<open>
  Resizes have to stay below \<open>2^32 - 23\<close> bytes, where the mask of \<open>my_realloc\<close> cuts the size off.
\<close>

interpretation ff: allocator "ff_ok os" objs "2 ^ 32 - 23" "ff_ops os" for os
  by unfold_locales (simp_all add: ff_ops_def ff_not_null ff_malloc_law ff_calloc_law ff_realloc_objs
    ff_free_objs ff_read_objs ff_write_objs my_free_null my_calloc_null my_realloc_null ff_realloc_zero_objs)

end
