(* ===== verification/Heap_Check.thy ===== *)
theory Heap_Check
  imports Arena
begin

text \<open>
  What the consistency checks of the two allocators have in common: the assertions that can fail,
  the blocks a walk over the boundary tags accepts, and facts about null-terminated free lists.
  A check returns \<open>None\<close> when it faults or does not return, \<open>Some (Inl e)\<close> when the assertion
  \<open>e\<close> aborts the program, and \<open>Some (Inr x)\<close> otherwise.
\<close>

datatype check_error =
    Bad_alignment | Below_minimum | Beyond_heap | Footer_mismatch | Collected_too_many
  | Not_free | Outside_heap | List_too_long | Wrong_bin | Not_collected
  | Count_mismatch | Length_mismatch | Live_bytes_mismatch

definition MAX_NODES :: nat where "MAX_NODES = 500000"

section \<open>Accepted blocks\<close>

definition frees :: "nat \<Rightarrow> blk list \<Rightarrow> nat list" where
  "frees a bs = map fst (filter (\<lambda>(h, n, u). \<not> u) (hdrs a bs))"

lemma frees_simps [simp]:
  "frees a [] = []" "frees a ((n, u) # bs) = (if u then [] else [a]) @ frees (a + n) bs"
  by (simp_all add: frees_def)

lemma set_frees: "set (frees a bs) = free_hdrs a bs"
  by (force simp: frees_def free_hdrs_def)

lemma frees_bounds: "x \<in> set (frees a bs) \<Longrightarrow> a \<le> x \<and> x \<le> a + szs bs"
  unfolding set_frees free_hdrs_def by (auto dest: hdrs_bounds)

lemma distinct_frees: "sizes_ok bs \<Longrightarrow> distinct (frees a bs)"
proof (induction bs arbitrary: a)
  case (Cons b bs)
  obtain n u where b: "b = (n, u)" by (cases b)
  have "a \<notin> set (frees (a + n) bs)" using frees_bounds [of a "a + n" bs] Cons.prems b by (auto dest!: size16D(1))
  then show ?case using Cons b by simp
qed simp

lemma length_frees_le: "sizes_ok bs \<Longrightarrow> length (frees a bs) \<le> szs bs"
proof (induction bs arbitrary: a)
  case (Cons b bs)
  obtain n u where b: "b = (n, u)" by (cases b)
  have "length (frees (a + n) bs) \<le> szs bs" "16 \<le> n" using Cons b by (auto dest: size16D(1))
  then show ?case using b by simp
qed simp

text \<open>
  What the walk establishes of a block: its header and footer carry the same size, a multiple of
  16 that is not zero. The used bit is read from the header only.
\<close>

definition checked_blk :: "mem \<Rightarrow> nat \<Rightarrow> nat \<Rightarrow> bool \<Rightarrow> bool" where
  "checked_blk m h n u \<longleftrightarrow> size16 n \<and>
     (\<exists>t f. word32_at m h t \<and> t AND NOT 15 = w32 n \<and> (t AND 1 = 0 \<longleftrightarrow> \<not> u) \<and>
        word32_at m (h + n - 4) f \<and> f AND NOT 15 = w32 n)"

lemma blk_at_footer:
  assumes "blk_at m h n u"
  obtains v where "word32_at m (h + n - 4) (tag n v)"
  using assms by (auto simp: blk_at_def)

lemma checked_sizes_ok: "\<forall>(h, n, u) \<in> set (hdrs a bs). checked_blk m h n u \<Longrightarrow> sizes_ok bs"
  by (induction a bs rule: hdrs.induct) (auto simp: checked_blk_def)

section \<open>Null-terminated lists\<close>

lemma flist_bound: "flist m p as \<Longrightarrow> a \<in> set as \<Longrightarrow> a < 2 ^ 64"
  by (induction as arbitrary: p) auto

lemma flist_unique: "flist m p as \<Longrightarrow> flist m p bs \<Longrightarrow> as = bs"
proof (induction as arbitrary: p bs)
  case Nil
  then show ?case using flist_null by auto
next
  case (Cons a as)
  then obtain r where r: "p = w64 a" "0 < a" "a + 12 \<le> 2 ^ 64" "word64_at m (a + 4) r" "flist m r as" by auto
  have "p \<noteq> 0" using r by (simp add: w64_eq_0_iff)
  then obtain b bs' where bs: "bs = b # bs'" using Cons.prems(2) by (cases bs) auto
  then obtain s where s: "p = w64 b" "b + 12 \<le> 2 ^ 64" "word64_at m (b + 4) s" "flist m s bs'"
    using Cons.prems(2) by auto
  have "a = b" using r(1,3) s(1,2) w64_eq_iff [of a b] by simp
  moreover from this have "r = s" using r(4) s(3) by (simp add: word64_at_def)
  ultimately show ?case using Cons.IH r(5) s(4) bs by simp
qed

lemma flist_distinct: "flist m p as \<Longrightarrow> distinct as"
proof (rule ccontr)
  assume fl: "flist m p as" and "\<not> distinct as"
  then obtain xs ys zs a where as: "as = xs @ [a] @ ys @ [a] @ zs" by (auto dest: not_distinct_decomp)
  then obtain q where "flist m q (a # ys @ a # zs)" using fl by (auto simp: fpath_append)
  then have "q = w64 a" and q: "flist m q (a # ys @ a # zs)" by simp_all
  then obtain r where "flist m r (a # zs)" by (auto simp: fpath_append)
  moreover from this \<open>q = w64 a\<close> have "r = q" by simp
  ultimately have "a # ys @ a # zs = a # zs" using flist_unique q by blast
  then show False by simp
qed

end
