(* ===== verification/Allocator_Check.thy ===== *)
theory Allocator_Check
  imports Allocator_Inv Heap_Check
begin

text \<open>
  \<open>check_invariant\<close> of the first-fit allocator: a walk over all blocks that collects the free
  ones, then a traversal of the free list that compares it with them. The check accepts every
  state of the invariant, and a state it accepts has the structure it is meant to establish.
\<close>

partial_function (option) check_blocks :: "mem \<Rightarrow> ptr \<Rightarrow> ptr \<Rightarrow> ptr list \<Rightarrow> (check_error + ptr list) option" where
  "check_blocks m hi p linear_free_list =
     (if p < hi then do {
        t \<leftarrow> load32 m p;
        let chunk = (ucast (t AND NOT 15) :: u64);
        if \<not> chunk mod 16 = 0 then Some (Inl Bad_alignment)
        else if \<not> chunk \<ge> 16 then Some (Inl Below_minimum)
        else if \<not> p + chunk \<le> hi then Some (Inl Beyond_heap)
        else do {
          f \<leftarrow> load32 m (p + chunk - 4);
          if \<not> ucast (f AND NOT 15) = chunk then Some (Inl Footer_mismatch)
          else if t AND 1 = 0 then
            if \<not> length linear_free_list < MAX_NODES then Some (Inl Collected_too_many)
            else check_blocks m hi (p + chunk) (linear_free_list @ [p])
          else check_blocks m hi (p + chunk) linear_free_list } }
      else Some (Inr linear_free_list))"

partial_function (option) check_list ::
    "mem \<Rightarrow> ptr \<Rightarrow> ptr \<Rightarrow> ptr list \<Rightarrow> ptr \<Rightarrow> nat \<Rightarrow> (check_error + nat) option" where
  "check_list m lo hi linear_free_list p freelist_count =
     (if p = 0 then Some (Inr freelist_count)
      else do {
        t \<leftarrow> load32 m p;
        if \<not> t AND 1 = 0 then Some (Inl Not_free)
        else if \<not> (p \<ge> lo \<and> p \<le> hi) then Some (Inl Outside_heap)
        else if \<not> freelist_count < MAX_NODES then Some (Inl List_too_long)
        else if \<not> p \<in> set linear_free_list then Some (Inl Not_collected)
        else do {
          q \<leftarrow> load64 m (p + 4);
          check_list m lo hi linear_free_list q (freelist_count + 1) } })"

definition check_invariant :: "ff_st \<Rightarrow> (check_error + unit) option" where
  "check_invariant st = do {
     r \<leftarrow> check_blocks (mem st) (heap_hi st) (heap_lo st) [];
     case r of
       Inl e \<Rightarrow> Some (Inl e)
     | Inr linear_free_list \<Rightarrow> do {
         c \<leftarrow> check_list (mem st) (heap_lo st) (heap_hi st) linear_free_list (free_head st) 0;
         case c of
           Inl e \<Rightarrow> Some (Inl e)
         | Inr freelist_count \<Rightarrow>
             if \<not> length linear_free_list = freelist_count then Some (Inl Count_mismatch)
             else if \<not> w64 freelist_count = freelist_len (alloc_stat st) then Some (Inl Length_mismatch)
             else Some (Inr ()) } }"

section \<open>The check accepts the invariant\<close>

lemma check_blocks_layout:
  assumes "layout m a bs" and "a + szs bs < 2 ^ 63" and "length l + length (frees a bs) \<le> MAX_NODES"
  shows "check_blocks m (w64 (a + szs bs)) (w64 a) l = Some (Inr (l @ map w64 (frees a bs)))"
  using assms
proof (induction bs arbitrary: a l)
  case Nil
  then show ?case by (subst check_blocks.simps) simp
next
  case (Cons b bs)
  obtain n u where b: "b = (n, u)" by (cases b)
  have blk: "blk_at m a n u" and lay: "layout m (a + n) bs" using Cons.prems(1) b by simp_all
  have n: "size16 n" using blk by (rule blk_at_size16)
  have 16: "16 \<le> n" "n < 2 ^ 32" "n mod 16 = 0" using n by (auto dest: size16D)
  have l64: "a + n + szs bs < 2 ^ 63" using Cons.prems(2) b by simp
  obtain v where v: "word32_at m (a + n - 4) (tag n v)" using blk by (rule blk_at_footer)
  have ld: "load32 m (w64 a) = Some (tag n u)" "load32 m (w64 (a + n - 4)) = Some (tag n v)"
    using blk v by (simp_all add: blk_at_def word32_atD)
  have e: "w64 a + w64 n - 4 = w64 (a + n - 4)" using 16 by simp
  have cmp: "w64 a < w64 (a + n + szs bs)" "w64 (a + n) \<le> w64 (a + n + szs bs)" "16 \<le> w64 n" "w64 n mod 16 = 0"
    using l64 16 w64_less_iff [of a "a + n + szs bs"] w64_le_iff [of "a + n" "a + n + szs bs"] w64_le_iff [of 16 n]
      unat_w64_small [of n]
    by (simp_all add: w64_numeral word_unat_eq_iff unat_mod)
  have step: "check_blocks m (w64 (a + szs (b # bs))) (w64 a) l =
      check_blocks m (w64 (a + n + szs bs)) (w64 (a + n)) (l @ map w64 (if u then [] else [a]))"
    using cmp ld e 16 n b Cons.prems(3)
    by (subst check_blocks.simps) (auto simp: ucast_w32 Let_def add.assoc)
  moreover have "check_blocks m (w64 (a + n + szs bs)) (w64 (a + n)) (l @ map w64 (if u then [] else [a])) =
      Some (Inr ((l @ map w64 (if u then [] else [a])) @ map w64 (frees (a + n) bs)))"
    by (rule Cons.IH [OF lay l64]) (use Cons.prems(3) b in \<open>auto split: if_splits\<close>)
  ultimately show ?case using b by simp
qed

lemma check_list_flist:
  assumes "flist m p as" and "k + length as \<le> MAX_NODES"
    and "\<And>a. a \<in> set as \<Longrightarrow> w64 a \<in> set l \<and> lo \<le> w64 a \<and> w64 a \<le> hi \<and> (\<exists>n. size16 n \<and> word32_at m a (tag n False))"
  shows "check_list m lo hi l p k = Some (Inr (k + length as))"
  using assms
proof (induction as arbitrary: p k)
  case Nil
  then show ?case by (subst check_list.simps) simp
next
  case (Cons a as)
  obtain r where r: "p = w64 a" "0 < a" "a + 12 \<le> 2 ^ 64" "word64_at m (a + 4) r" "flist m r as"
    using Cons.prems(1) by auto
  obtain n where n: "w64 a \<in> set l" "lo \<le> w64 a" "w64 a \<le> hi" "size16 n" "word32_at m a (tag n False)"
    using Cons.prems(3) [of a] by auto
  have "p \<noteq> 0" using r by (simp add: w64_eq_0_iff)
  moreover have "check_list m lo hi l r (k + 1) = Some (Inr (k + 1 + length as))"
    by (rule Cons.IH [OF r(5)]) (use Cons.prems in auto)
  moreover have "load64 m (w64 a + 4) = Some r" using r(4) by (simp add: word64_at_def)
  ultimately show ?case
    using r n Cons.prems(2) by (subst check_list.simps) (simp add: word32_atD)
qed

lemma check_invariant_ok:
  assumes inv: "ff_inv st bs fs" and len: "length fs \<le> MAX_NODES" and hi: "bs = [] \<longrightarrow> heap_hi st = 0"
  shows "check_invariant st = Some (Inr ())"
proof (cases "bs = []")
  case True
  then have "heap_lo st = 0" "free_head st = 0" "fs = []"
    using inv by (auto simp: ff_inv_def heap_inv_def arena_inv_def split: if_splits)
  moreover have "freelist_len (alloc_stat st) = 0" using inv \<open>fs = []\<close> by (simp add: ff_inv_def)
  ultimately show ?thesis
    using hi True by (simp add: check_invariant_def check_blocks.simps check_list.simps)
next
  case False
  have b: "arena_base st \<noteq> 0" by (rule ff_inv_base [OF inv False])
  have hp: "heap_inv st bs" by (rule ff_inv_heap [OF inv])
  note facts = heap_inv_reserved [OF hp b]
  have lo: "heap_lo st = w64 (first st)" and hi: "heap_hi st = w64 (first st + szs bs)"
    using hp b False by (auto simp: heap_inv_def arena_inv_def)
  have di: "distinct fs" and set: "set fs = free_hdrs (first st) bs" and fl: "flist (mem st) (free_head st) fs"
    and fl_len: "freelist_len (alloc_stat st) = w64 (length fs)"
    using inv by (simp_all add: ff_inv_def)
  have cnt: "length (frees (first st) bs) = length fs"
    using distinct_card [OF di] distinct_card [OF distinct_frees [OF facts(6), of "first st"]] set set_frees by metis
  let ?l = "map w64 (frees (first st) bs)"
  have "check_blocks (mem st) (w64 (first st + szs bs)) (w64 (first st)) [] = Some (Inr ([] @ ?l))"
    by (rule check_blocks_layout [OF facts(5)]) (use facts(7) len cnt in simp_all)
  then have blocks: "check_blocks (mem st) (heap_hi st) (heap_lo st) [] = Some (Inr ?l)" using lo hi by simp
  have "check_list (mem st) (heap_lo st) (heap_hi st) ?l (free_head st) 0 = Some (Inr (0 + length fs))"
  proof (rule check_list_flist [OF fl])
    fix a assume a: "a \<in> set fs"
    then obtain n where n: "(a, n, False) \<in> set (hdrs (first st) bs)" using set by (auto simp: free_hdrs_def)
    note B = heap_inv_blk [OF hp b n]
    have "w64 a \<in> set ?l" using a set set_frees by auto
    moreover have "heap_lo st \<le> w64 a" "w64 a \<le> heap_hi st"
      using B(6,7) facts(7) lo hi w64_le_iff [of "first st" a] w64_le_iff [of a "first st + szs bs"] by simp_all
    ultimately show "w64 a \<in> set ?l \<and> heap_lo st \<le> w64 a \<and> w64 a \<le> heap_hi st \<and>
        (\<exists>n. size16 n \<and> word32_at (mem st) a (tag n False))"
      using B(1,2) by (auto simp: blk_at_def)
  qed (use len in simp)
  then show ?thesis using blocks cnt fl_len by (simp add: check_invariant_def)
qed

section \<open>What an accepted state satisfies\<close>

lemma word_add_nat:
  fixes p :: u64
  assumes "unat p + unat (c :: u32) < 2 ^ 64"
  shows "unat (p + ucast c) = unat p + unat c" and "p + ucast c = w64 (unat p + unat c)"
proof -
  have "p + ucast c = w64 (unat p + unat c)"
    by (simp add: w64_def)
  then show "p + ucast c = w64 (unat p + unat c)" and "unat (p + ucast c) = unat p + unat c"
    using unat_w64_small [OF assms] by simp_all
qed

lemma check_blocks_sound:
  assumes "check_blocks m hi p l = Some (Inr r)" and "unat hi + 2 ^ 32 \<le> 2 ^ 64" and "p \<le> hi"
  shows "\<exists>bs. unat p + szs bs = unat hi \<and> (\<forall>(h, n, u) \<in> set (hdrs (unat p) bs). checked_blk m h n u) \<and>
      r = l @ map w64 (frees (unat p) bs)"
  using assms
proof (induction "unat hi - unat p" arbitrary: p l rule: less_induct)
  case less
  show ?case
  proof (cases "p < hi")
    case False
    then have "r = l" "p = hi" using less.prems(1) [unfolded check_blocks.simps [of m hi p l]] less.prems(3) by auto
    then show ?thesis by (intro exI [of _ "[]"]) simp
  next
    case True
    note run = less.prems(1) [unfolded check_blocks.simps [of m hi p l]]
    obtain t where t: "load32 m p = Some t" using run True by (auto elim!: bind_eq_SomeE)
    let ?c = "ucast (t AND NOT 15) :: u64"
    define n where "n = unat (t AND NOT 15)"
    have c: "?c mod 16 = 0" "16 \<le> ?c" "p + ?c \<le> hi"
      using run True t by (auto simp: Let_def split: if_splits)
    obtain f where f: "load32 m (p + ?c - 4) = Some f" "ucast (f AND NOT 15) = ?c"
      using run True t c by (auto simp: Let_def split: if_splits elim!: bind_eq_SomeE)
    let ?l = "l @ (if t AND 1 = 0 then [p] else [])"
    have rec: "check_blocks m hi (p + ?c) ?l = Some (Inr r)"
      using run True t c f by (auto simp: Let_def split: if_splits)
    have cn: "unat ?c = n" by (simp add: n_def)
    have n32: "n < 2 ^ 32" unfolding n_def by (rule unat_less32)
    have n: "size16 n" unfolding size16_def
      using c(1,2) n32 cn by (auto simp: word_le_nat_alt word_unat_eq_iff unat_mod)
    have lt: "unat p < unat hi" using True by (simp add: word_less_nat_alt)
    then have s: "unat p + unat (t AND NOT 15) < 2 ^ 64" using less.prems(2) n32 n_def by linarith
    have a: "unat (p + ?c) = unat p + n" "p + ?c = w64 (unat p + n)" using word_add_nat [OF s] by (simp_all only: n_def)
    have "unat (f AND NOT 15) = n" using arg_cong [OF f(2), of unat] cn by simp
    then have tn: "t AND NOT 15 = w32 n" "f AND NOT 15 = w32 n" by (metis n_def w32_unat)+
    have dec: "unat hi - unat (p + ?c) < unat hi - unat p" using lt a(1) size16D(1) [OF n] by linarith
    obtain bs where bs: "unat (p + ?c) + szs bs = unat hi"
      "\<forall>(h, n, u) \<in> set (hdrs (unat (p + ?c)) bs). checked_blk m h n u"
      "r = ?l @ map w64 (frees (unat (p + ?c)) bs)"
      using less.hyps [OF dec rec less.prems(2) c(3)] by blast
    have e: "p + ?c - 4 = w64 (unat p + n - 4)" using a(2) size16D(1) [OF n] by simp
    have "checked_blk m (unat p) n (t AND 1 \<noteq> 0)"
      unfolding checked_blk_def
      using n t f(1) tn e by (auto simp: word32_at_def intro!: exI [of _ t] exI [of _ f])
    then show ?thesis
      using bs a(1) by (intro exI [of _ "(n, t AND 1 \<noteq> 0) # bs"]) auto
  qed
qed

lemma check_list_sound:
  assumes "check_list m lo hi l p k = Some (Inr c)" and "unat hi + 2 ^ 32 \<le> 2 ^ 64"
  shows "\<exists>as. flist m p as \<and> c = k + length as \<and> (\<forall>a \<in> set as. w64 a \<in> set l)"
  using assms
proof (induction "MAX_NODES - k" arbitrary: p k rule: less_induct)
  case less
  note run = less.prems(1) [unfolded check_list.simps [of m lo hi l p k]]
  show ?case
  proof (cases "p = 0")
    case True
    then show ?thesis using run by (intro exI [of _ "[]"]) simp
  next
    case False
    then obtain t where t: "load32 m p = Some t" using run by (auto elim!: bind_eq_SomeE)
    then have c: "t AND 1 = 0" "lo \<le> p" "p \<le> hi" "k < MAX_NODES" "p \<in> set l"
      using run False by (auto split: if_splits)
    obtain q where q: "load64 m (p + 4) = Some q" "check_list m lo hi l q (k + 1) = Some (Inr c)"
      using run False t c by (auto elim!: bind_eq_SomeE)
    have dec: "MAX_NODES - (k + 1) < MAX_NODES - k" using c(4) by linarith
    obtain as where as: "flist m q as" "c = k + 1 + length as" "\<forall>a \<in> set as. w64 a \<in> set l"
      using less.hyps [OF dec q(2) less.prems(2)] by blast
    have "unat p + 12 \<le> 2 ^ 64" using c(3) less.prems(2) by (simp add: word_le_nat_alt)
    moreover have "word64_at m (unat p + 4) q" using q(1) by (simp add: word64_at_def w64_numeral flip: w64_plus)
    moreover have "0 < unat p" using False by (simp add: unat_gt_0)
    ultimately have "flist m p (unat p # as)" using as(1) by auto
    then show ?thesis using as(2,3) c(5) by (intro exI [of _ "unat p # as"]) auto
  qed
qed

text \<open>Equal lengths make the two duplicate-free lists equal as sets.\<close>

lemma check_invariant_sound:
  assumes chk: "check_invariant st = Some (Inr ())"
    and lim: "unat (heap_hi st) + 2 ^ 32 \<le> 2 ^ 64" and lo: "heap_lo st \<le> heap_hi st"
  shows "\<exists>bs fs. unat (heap_lo st) + szs bs = unat (heap_hi st) \<and>
    (\<forall>(h, n, u) \<in> set (hdrs (unat (heap_lo st)) bs). checked_blk (mem st) h n u) \<and>
    flist (mem st) (free_head st) fs \<and> distinct fs \<and> set fs = free_hdrs (unat (heap_lo st)) bs \<and>
    freelist_len (alloc_stat st) = w64 (length fs)"
proof -
  obtain l where l: "check_blocks (mem st) (heap_hi st) (heap_lo st) [] = Some (Inr l)"
    "check_list (mem st) (heap_lo st) (heap_hi st) l (free_head st) 0 = Some (Inr (length l))"
    "w64 (length l) = freelist_len (alloc_stat st)"
    using chk unfolding check_invariant_def by (auto elim!: bind_eq_SomeE split: sum.splits if_splits)
  let ?a = "unat (heap_lo st)"
  obtain bs where bs: "?a + szs bs = unat (heap_hi st)"
    "\<forall>(h, n, u) \<in> set (hdrs ?a bs). checked_blk (mem st) h n u" "l = [] @ map w64 (frees ?a bs)"
    using check_blocks_sound [OF l(1) lim lo] by blast
  obtain fs where fs: "flist (mem st) (free_head st) fs" "length l = 0 + length fs" "\<forall>a \<in> set fs. w64 a \<in> set l"
    using check_list_sound [OF l(2) lim] by blast
  have ok: "sizes_ok bs" using bs(2) by (rule checked_sizes_ok)
  have di: "distinct fs" using fs(1) by (rule flist_distinct)
  have sub: "set fs \<subseteq> set (frees ?a bs)"
  proof
    fix a assume a: "a \<in> set fs"
    then obtain b where b: "b \<in> set (frees ?a bs)" "w64 a = w64 b" using fs(3) bs(3) by auto
    have "b < 2 ^ 64" using frees_bounds [OF b(1)] bs(1) lim by simp
    moreover have "a < 2 ^ 64" using fs(1) a by (rule flist_bound)
    ultimately show "a \<in> set (frees ?a bs)" using b w64_eq_iff [of a b] by simp
  qed
  have "card (set fs) = card (set (frees ?a bs))"
    using distinct_card [OF di] distinct_card [OF distinct_frees [OF ok, of ?a]] fs(2) bs(3) by simp
  then have "set fs = free_hdrs ?a bs" using card_subset_eq [OF finite_set sub] set_frees by simp
  moreover have "freelist_len (alloc_stat st) = w64 (length fs)" using l(3) fs(2) by simp
  ultimately show ?thesis using bs(1,2) fs(1) di by blast
qed

text \<open>The condition on the length of the free list, read from the statistics.\<close>

lemma check_invariant_reached:
  assumes inv: "ff_inv st bs fs" and lo: "heap_lo st \<noteq> 0 \<or> heap_hi st = 0" and len: "unat (freelist_len (alloc_stat st)) \<le> MAX_NODES"
  shows "check_invariant st = Some (Inr ())"
proof (rule check_invariant_ok [OF inv])
  have hp: "heap_inv st bs" by (rule ff_inv_heap [OF inv])
  have ok: "sizes_ok bs" using hp by (auto simp: heap_inv_def dest: layout_sizes_ok)
  have "length fs = length (frees (first st) bs)"
    using inv distinct_card [of fs] distinct_card [OF distinct_frees [OF ok, of "first st"]] set_frees [of "first st" bs]
    by (simp add: ff_inv_def)
  also have "\<dots> \<le> szs bs" by (rule length_frees_le [OF ok])
  also have "szs bs \<le> 2 ^ 32" using hp by (auto simp: heap_inv_def arena_inv_def split: if_splits)
  finally have "length fs < 2 ^ 64" by simp
  then show "length fs \<le> MAX_NODES" using len inv unat_w64_small [of "length fs"] by (simp add: ff_inv_def)
  show "bs = [] \<longrightarrow> heap_hi st = 0" using lo hp by (auto simp: heap_inv_def arena_inv_def split: if_splits)
qed

end
