(* ===== verification/Allocator_Limits.thy ===== *)
theory Allocator_Limits
  imports Allocator_Objects Allocator_Check
begin

text \<open>
  Where the first-fit allocator leaves the contract: requests whose rounded size wraps around,
  reallocations of four gigabytes and more, footers that keep the used bit after a free, and the
  consistency check after a failed first allocation.
\<close>

lemma malloc_wraps: "my_malloc os SIZE_MAX st = my_malloc os 8 st"
  by (simp add: my_malloc_def SIZE_MAX_def)

lemma realloc_size_2_32: "realloc_size 4294967296 = w64 16"
  by (simp add: realloc_size_eq chunk_def)

lemma my_realloc_truncates:
  assumes inv: "ff_inv st bs fs" and live: "(h, n) \<in> used_blks (first st) bs"
  obtains st' bs' fs' n' where "my_realloc os (w64 (h + 4)) 4294967296 st = Some (w64 (h + 4), st')"
    and "ff_inv st' bs' fs'" and "same_arena st st'" and "n' \<le> n"
    and "(h, n') \<in> used_blks (first st) bs'"
proof -
  note U = used_blk_facts [OF inv live]
  have mh: "(h, n, True) \<in> set (hdrs (first st) bs)" using live by (simp add: used_blks_def)
  obtain xs ys where bs: "bs = xs @ (n, True) # ys" and h: "h = first st + szs xs" using mh by (rule hdrs_split)
  have inv1: "ff_inv st (xs @ (n, True) # ys) fs" using inv bs by simp
  have 16: "size16 16" "16 \<le> n" "n < 2 ^ 32" using U(2) by (auto simp: size16_def)
  obtain st' n' bs' fs' where S: "realloc_shrink (w64 (h + 4)) (w64 n) (w64 16) st = Some st'"
    "ff_inv st' bs' fs'" "same_arena st st'" "16 \<le> n'" "n' \<le> n"
    "used_blks (first st) bs' = used_blks (first st) xs \<union> {(h, n')} \<union> used_blks (h + n) ys"
    by (rule realloc_shrink_ok [OF inv1 h 16(1,2)])
  have "load32 (mem st) (w64 h) = Some (tag n True)" using U(7) by (simp add: blk_at_def word32_atD)
  moreover have "\<not> w64 n < w64 16" using w64_less_iff [of n 16] 16 by simp
  ultimately have "my_realloc os (w64 (h + 4)) 4294967296 st = Some (w64 (h + 4), st')"
    using U(2,9) S(1) 16(3) realloc_size_2_32 by (simp add: my_realloc_def Let_def ucast_w32 cong: if_cong)
  then show ?thesis using S(2,3,5,6) by (intro that) auto
qed

lemma ff_realloc_truncates_objs:
  assumes ok: "ff_ok os st" and p: "objs st p = Some xs"
  shows "\<exists>st' ys. my_realloc os p 4294967296 st = Some (p, st') \<and> objs st' p = Some ys \<and>
    length ys \<le> length xs \<and> length ys < 2 ^ 32"
proof -
  obtain bs fs where inv: "ff_inv st bs fs" using ok by (rule ff_okE)
  obtain h n where h: "(h, n) \<in> used_blks (first st) bs" "p = w64 (h + 4)" "length xs = n - 8"
    using inv p by (rule ff_objsE)
  obtain st' bs' fs' n' where R: "my_realloc os (w64 (h + 4)) 4294967296 st = Some (w64 (h + 4), st')"
    "ff_inv st' bs' fs'" "same_arena st st'" "n' \<le> n" "(h, n') \<in> used_blks (first st) bs'"
    by (rule my_realloc_truncates [OF inv h(1)])
  have l: "(h, n') \<in> used_blks (first st') bs'" using R(3,5) by (simp add: same_arena_def)
  obtain ys where ys: "objs st' (w64 (h + 4)) = Some ys" "length ys = n' - 8"
    by (rule objs_at [OF ff_inv_heap [OF R(2)] l])
  have "length ys < 2 ^ 32" using ys(2) used_blk_facts(2) [OF R(2) l] by (auto dest: size16D(3))
  then show ?thesis using R(1,4) ys h(2,3) by auto
qed

text \<open>
  A first request that does not fit the arena sets \<open>heap_hi\<close> but leaves \<open>heap_lo\<close> null: the check
  then starts its walk at the null pointer.
\<close>

lemma check_faults:
  assumes "heap_lo st = 0" and "heap_hi st \<noteq> 0" and "mem st 0 = None"
  shows "check_invariant st = None"
proof -
  have "0 < heap_hi st" using assms(2) by (simp add: word_neq_0_conv)
  moreover have "load32 (mem st) 0 = None"
    using assms(3) by (simp add: load32_def load_bytes_def numeral_eq_Suc)
  ultimately show ?thesis
    using assms(1) by (simp add: check_invariant_def check_blocks.simps)
qed

lemma malloc_full_init:
  assumes base: "base_ok (os 0)" and big: "2 ^ 32 \<le> unat sz" "unat sz < 2 ^ 63"
  obtains st' where "my_malloc os sz ff_init = Some (0, st')" and "heap_lo st' = 0" and "heap_hi st' = os 0"
    and "mem st' = map_region Map.empty (os 0) ARENA_SIZE"
proof -
  let ?s = "arena_reserved os ff_init"
  have os: "os_ok os ff_init" using base by (simp add: os_ok_def ff_init_def)
  have k: "16 \<le> chunk (unat sz)" "chunk (unat sz) \<le> 2 ^ 63 + 32" "2 ^ 32 < 12 + szs [] + chunk (unat sz)"
    using chunk_bounds [of "unat sz"] big by simp_all
  have "my_malloc os sz ff_init = malloc_grow os (w64 (chunk (unat sz))) ff_init"
    using my_malloc_fresh [OF ff_inv_init big(2), of os] by simp
  also have "\<dots> = Some (0, ?s\<lparr>heap_hi := arena_cur ?s\<rparr>)"
    using malloc_grow_full(1) [OF ff_inv_init os k] by simp
  finally show ?thesis
    by (rule that) (simp_all add: arena_reserved_def ff_init_def)
qed

lemma check_after_failed_malloc:
  assumes base: "base_ok (os 0)" and big: "2 ^ 32 \<le> unat sz" "unat sz < 2 ^ 63"
  shows "\<exists>st'. my_malloc os sz ff_init = Some (0, st') \<and> check_invariant st' = None"
proof -
  obtain st' where M: "my_malloc os sz ff_init = Some (0, st')" "heap_lo st' = 0" "heap_hi st' = os 0"
    "mem st' = map_region Map.empty (os 0) ARENA_SIZE"
    using base big by (rule malloc_full_init)
  have "\<not> 0 - os 0 < ARENA_SIZE"
  proof -
    have lt: "0 < unat (os 0)" "unat (os 0) + 2 ^ 32 \<le> 2 ^ 47" using base by (auto simp: base_ok_def)
    have "w64 (2 ^ 64) - w64 (unat (os 0)) = w64 (2 ^ 64 - unat (os 0))" by (rule w64_minus(2)) (use lt(2) in simp)
    moreover have "w64 (2 ^ 64) = 0" by (simp add: w64_def)
    ultimately have "- os 0 = w64 (2 ^ 64 - unat (os 0))" by simp
    moreover have "unat (w64 (2 ^ 64 - unat (os 0))) = 2 ^ 64 - unat (os 0)" by (rule unat_w64_small) (use lt(1) in simp)
    ultimately have "2 ^ 32 \<le> unat (- os 0)" using lt(2) by simp
    then show ?thesis by (simp add: word_less_nat_alt ARENA_SIZE_def)
  qed
  then have "mem st' 0 = None" using M(4) by (simp add: map_region_def)
  moreover have "heap_hi st' \<noteq> 0" using base M(3) base_ok_not_failed by simp
  ultimately have "check_invariant st' = None" by (intro check_faults [OF M(2)])
  then show ?thesis using M(1) by blast
qed

text \<open>
  A free that merges with no neighbour clears the used bit of the header only. The footer keeps
  it, and the free of the right neighbour takes the block for a used one.
\<close>

lemma my_free_plain:
  assumes inv: "ff_inv st (xs @ (n, True) # (c, True) # ys) fs" and h: "h = first st + szs xs"
    and left: "xs = [] \<or> (\<exists>a. size16 a \<and> word32_at (mem st) (h - 4) (tag a True))"
  obtains st' where "my_free (w64 (h + 4)) st = Some st'"
    and "ff_inv st' (xs @ (n, False) # (c, True) # ys) (h # fs)" and "same_arena st st'"
    and "word32_at (mem st') (h + n - 4) (tag n True)"
proof -
  have live: "(h, n) \<in> used_blks (first st) (xs @ (n, True) # (c, True) # ys)" using h by simp
  note U = used_blk_facts [OF inv live]
  have 16: "16 \<le> n" "n < 2 ^ 32" using U(2) by (auto dest: size16D)
  have l64: "h + n \<le> 2 ^ 64" using U(4) by simp
  obtain m1 where m1: "store32 (mem st) (w64 h) (tag n False) = Some m1"
    "ff_hole (st\<lparr>mem := m1\<rparr>) xs n ((c, True) # ys) fs" "frame (mem st) m1 {h ..< h + 4}"
    by (rule open_hole [OF inv h])
  let ?st1 = "st\<lparr>mem := m1\<rparr>"
  have h1: "h = first ?st1 + szs xs" using h by simp
  note F = ff_hole_facts [OF m1(2) h1] and H = hole_heap_hi [OF m1(2)]
  have hp: "heap_inv ?st1 (xs @ (n, False) # (c, True) # ys)" using m1(2) by (simp add: ff_hole_def)
  have mc: "(h + n, c, True) \<in> set (hdrs (first ?st1) (xs @ (n, False) # (c, True) # ys))" using h by simp
  note C = heap_inv_blk [OF hp F(1) mc]
  obtain st' where p: "freelist_push (w64 h) ?st1 = Some st'"
    "ff_inv st' (xs @ (n, False) # (c, True) # ys) (h # fs)" "same_arena ?st1 st'"
    "frame (mem ?st1) (mem st') {h + 4 ..< h + 12}"
    by (rule push_hole [OF m1(2) h1])
  have right: "free_merge_right (w64 h) ?st1 = Some ?st1"
  proof -
    have "load32 m1 (w64 h) = Some (tag n False)" "load32 m1 (w64 (h + n)) = Some (tag c True)"
      using F(9) C(1) by (simp_all add: blk_at_def word32_atD)
    then show ?thesis using F(2) 16(2) C(2) by (simp add: free_merge_right_def ucast_w32 Let_def)
  qed
  have h4: "4 \<le> h" "h < 2 ^ 64" using U(5) l64 16 by linarith+
  have merge: "free_merge_left (w64 h) ?st1 = freelist_push (w64 h) ?st1"
  proof (cases "xs = []")
    case True
    have "mapped m1 (h - 4) 4"
      by (rule mapped_mono [OF heap_inv_reserved(3) [OF hp F(1), simplified]]) (use True h in auto)
    then obtain lf where "word32_at m1 (h - 4) lf" by (rule load32_mapped)
    moreover have "\<not> heap_lo st < w64 (h - 4)" using H(1) True h h4 by (simp add: w64_less_iff)
    ultimately show ?thesis using h4 by (simp add: free_merge_left_def word32_atD Let_def)
  next
    case False
    then obtain a where a: "size16 a" "word32_at (mem st) (h - 4) (tag a True)" using left by blast
    have "word32_at m1 (h - 4) (tag a True)" by (rule word32_at_frame [OF m1(3) a(2)]) (use h4 l64 in auto)
    then show ?thesis using h4 a(1) by (simp add: free_merge_left_def word32_atD Let_def)
  qed
  have ld: "load32 (mem st) (w64 h) = Some (tag n True)" using U(7) by (simp add: blk_at_def word32_atD)
  have "my_free (w64 (h + 4)) st = Some st'"
    using U(2,9) ld m1(1) right merge p(1) by (simp add: my_free_def Let_def)
  moreover have "word32_at (mem st') (h + n - 4) (tag n True)"
  proof -
    have "word32_at (mem st) (h + n - 4) (tag n True)" using U(7) by (simp add: blk_at_def)
    then have "word32_at (mem ?st1) (h + n - 4) (tag n True)"
      using word32_at_frame [OF m1(3), of "h + n - 4" "tag n True"] 16 l64 by auto
    then show ?thesis by (rule word32_at_frame [OF p(4)]) (use 16 l64 in auto)
  qed
  ultimately show ?thesis using that p(2,3) by (simp add: same_arena_def)
qed

text \<open>The footer of a used block carries the used bit.\<close>

lemma used_left_footer:
  assumes inv: "ff_inv st (xs @ ys) fs" and ne: "xs \<noteq> []" "snd (last xs)"
  shows "\<exists>b. size16 b \<and> word32_at (mem st) (first st + szs xs - 4) (tag b True)"
proof -
  obtain zs b where xs: "xs = zs @ [(b, True)]" using ne by (cases xs rule: rev_cases) auto
  have m: "(first st + szs zs, b, True) \<in> set (hdrs (first st) (xs @ ys))" by (simp add: xs)
  note B = heap_inv_blk [OF ff_inv_heap [OF inv] ff_inv_base [OF inv] m]
  have "xs @ ys \<noteq> []" using ne(1) by simp
  then show ?thesis using B(1,2) xs by (auto simp: blk_at_def add.assoc)
qed

lemma free_misses_left:
  assumes inv: "ff_inv st (xs @ (a, True) # (n, True) # (c, True) # ys) fs" and left: "xs = [] \<or> snd (last xs)"
    and h: "h = first st + szs xs"
  shows "\<exists>st1 st2. my_free (w64 (h + 4)) st = Some st1 \<and> my_free (w64 (h + a + 4)) st1 = Some st2 \<and>
    heap_blocks st2 = xs @ (a, False) # (n, False) # (c, True) # ys"
proof -
  have "xs = [] \<or> (\<exists>b. size16 b \<and> word32_at (mem st) (h - 4) (tag b True))"
    using left used_left_footer [OF inv] h by blast
  then obtain st1 where A: "my_free (w64 (h + 4)) st = Some st1"
    "ff_inv st1 (xs @ (a, False) # (n, True) # (c, True) # ys) (h # fs)" "same_arena st st1"
    "word32_at (mem st1) (h + a - 4) (tag a True)"
    by (rule my_free_plain [OF inv h])
  have a: "size16 a" using heap_inv_reserved(6) [OF ff_inv_heap [OF inv]] ff_inv_base [OF inv] by simp
  have inv1: "ff_inv st1 ((xs @ [(a, False)]) @ (n, True) # (c, True) # ys) (h # fs)" using A(2) by simp
  have f1: "h + a = first st1 + szs (xs @ [(a, False)])" using A(3) h by (simp add: same_arena_def)
  obtain st2 where B: "my_free (w64 (h + a + 4)) st1 = Some st2"
    "ff_inv st2 ((xs @ [(a, False)]) @ (n, False) # (c, True) # ys) ((h + a) # h # fs)"
    by (rule my_free_plain [OF inv1 f1]) (use A(4) a in auto)
  have "heap_blocks st2 = xs @ (a, False) # (n, False) # (c, True) # ys"
    using heap_blocks_eq [OF ff_inv_heap [OF B(2)]] by simp
  then show ?thesis using A(1) B(1) by blast
qed

text \<open>
  Why \<open>my_malloc\<close> returns NULL: the arena is full, or it could not be reserved. \<open>mmap\<close> is called
  by the first allocation, and again by the next one as long as it fails.
\<close>

lemma malloc_null_cases:
  assumes inv: "ff_inv st bs fs" and os: "arena_base st = 0 \<longrightarrow> base_ok (os (mmaps st)) \<or> os (mmaps st) = MAP_FAILED"
    and sz: "unat sz < 2 ^ 63" and null: "my_malloc os sz st = Some (0, st')"
  shows "(\<forall>h \<in> set fs. \<not> fits (first st) bs (chunk (unat sz)) h) \<and>
    (2 ^ 32 < 12 + szs bs + chunk (unat sz) \<or> arena_base st = 0 \<and> os (mmaps st) = MAP_FAILED)"
proof (cases "os_ok os st")
  case True
  from my_malloc_spec [OF inv True sz] null show ?thesis by auto
next
  case False
  then have b: "arena_base st = 0" "os (mmaps st) = MAP_FAILED" using os by (auto simp: os_ok_def)
  then have "fs = []" using inv by (auto simp: ff_inv_def heap_inv_def arena_inv_def)
  then show ?thesis using b by simp
qed

text \<open>An \<open>mmap\<close> that fails on each of the three calls of a growth makes \<open>my_malloc\<close> fail, and no object is lost.\<close>

lemma malloc_no_arena:
  assumes inv: "ff_inv st bs fs" and b: "arena_base st = 0" and os: "\<forall>i < 3. os (mmaps st + i) = MAP_FAILED"
    and sz: "unat sz < 2 ^ 63"
  shows "\<exists>st'. my_malloc os sz st = Some (0, st') \<and> ff_inv st' bs fs \<and> arena_base st' = 0"
proof -
  have e: "bs = []" "fs = []" using inv b by (auto simp: ff_inv_def heap_inv_def arena_inv_def)
  have o: "os (mmaps st) = MAP_FAILED" "os (Suc (mmaps st)) = MAP_FAILED" "os (Suc (Suc (mmaps st))) = MAP_FAILED"
    using os [rule_format, of 0] os [rule_format, of 1] os [rule_format, of 2] by simp_all
  have "my_malloc os sz st = malloc_grow os (w64 (chunk (unat sz))) st"
    using my_malloc_fresh [OF inv sz, of os] e(2) by simp
  also have "\<dots> = Some (0, st\<lparr>mmaps := mmaps st + 3, heap_hi := - 1\<rparr>)"
    using b o by (simp add: malloc_grow_def arena_extend_def Let_def numeral_eq_Suc)
  finally show ?thesis using inv b e by (auto simp: ff_inv_def heap_inv_def arena_inv_def)
qed

end
