(* ===== verification/Segregated.thy ===== *)
theory Segregated
  imports Arena
begin

text \<open>
  The segregated-fit allocator of \<open>src/src/segregated_allocator.c\<close>: eleven free lists by size
  class, no coalescing, and statistics of the live bytes. The definitions carry the prefix \<open>seg_\<close>
  where the first-fit allocator has a function of the same name. Result \<open>None\<close> is a fault or a
  run that does not return.
\<close>

definition NUM_BINS :: nat where "NUM_BINS = 11"

record seg_st = arena_st +
  bin_head :: "ptr list"

definition seg_init :: seg_st where
  "seg_init = \<lparr>mem = Map.empty, alloc_stat = zero_stat, heap_lo = 0, heap_hi = 0,
     arena_base = 0, arena_cur = 0, arena_end = 0, mmaps = 0, bin_head = replicate NUM_BINS 0\<rparr>"

definition live_add :: "u64 \<Rightarrow> seg_st \<Rightarrow> seg_st" where
  "live_add n st =
     (let st = upd_stat (\<lambda>s. s\<lparr>live_real_bytes := live_real_bytes s + n\<rparr>) st
      in if live_real_bytes (alloc_stat st) > peak_live_real_bytes (alloc_stat st)
         then upd_stat (\<lambda>s. s\<lparr>peak_live_real_bytes := live_real_bytes s\<rparr>) st
         else st)"

definition seg_freelist_push :: "ptr \<Rightarrow> nat \<Rightarrow> seg_st \<Rightarrow> seg_st option" where
  "seg_freelist_push header bin st = do {
     m \<leftarrow> store64 (mem st) (header + 4) (bin_head st ! bin);
     Some (upd_stat (\<lambda>s. s\<lparr>freelist_len := freelist_len s + 1\<rparr>)
       (st\<lparr>mem := m, bin_head := (bin_head st)[bin := header]\<rparr>)) }"

definition size_to_bin :: "u64 \<Rightarrow> nat" where
  "size_to_bin sz =
     (if sz \<le> 16 then 0
      else if sz \<le> 32 then 1
      else if sz \<le> 64 then 2
      else if sz \<le> 80 then 3
      else if sz \<le> 96 then 4
      else if sz \<le> 112 then 5
      else if sz \<le> 128 then 6
      else if sz \<le> 256 then 7
      else if sz \<le> 512 then 8
      else if sz \<le> 1024 then 9
      else 10)"

section \<open>Allocation\<close>

text \<open>\<open>void **link\<close> points at the head of a bin or at the link word of a free block.\<close>

datatype seg_link = SHead nat | SNext ptr

fun seg_read_link :: "seg_st \<Rightarrow> seg_link \<Rightarrow> ptr option" where
  "seg_read_link st (SHead bin) = Some (bin_head st ! bin)"
| "seg_read_link st (SNext h) = load64 (mem st) (h + 4)"

fun seg_write_link :: "seg_st \<Rightarrow> seg_link \<Rightarrow> ptr \<Rightarrow> seg_st option" where
  "seg_write_link st (SHead bin) q = Some (st\<lparr>bin_head := (bin_head st)[bin := q]\<rparr>)"
| "seg_write_link st (SNext h) q = map_option (\<lambda>m. st\<lparr>mem := m\<rparr>) (store64 (mem st) (h + 4) q)"

definition seg_malloc_split :: "u64 \<Rightarrow> seg_link \<Rightarrow> ptr \<Rightarrow> u64 \<Rightarrow> seg_st \<Rightarrow> (ptr \<times> seg_st) option" where
  "seg_malloc_split need link h chunk_size st = do {
     let st = upd_stat (\<lambda>s. s\<lparr>real_bytes := real_bytes s + need\<rparr>) st;
     let st = live_add need st;
     m \<leftarrow> set_tags (mem st) h (ucast (need OR 1));
     let payload = h + 4;
     let split_header = h + need;
     m \<leftarrow> set_tags m split_header (ucast (chunk_size - need));
     q \<leftarrow> load64 m payload;
     st \<leftarrow> seg_write_link (st\<lparr>mem := m\<rparr>) link q;
     let st = upd_stat (\<lambda>s. s\<lparr>freelist_len := freelist_len s - 1\<rparr>) st;
     t \<leftarrow> load32 (mem st) split_header;
     st \<leftarrow> seg_freelist_push split_header (size_to_bin (ucast t)) st;
     Some (payload, st) }"

definition seg_malloc_whole :: "seg_link \<Rightarrow> ptr \<Rightarrow> u64 \<Rightarrow> seg_st \<Rightarrow> (ptr \<times> seg_st) option" where
  "seg_malloc_whole link h chunk_size st = do {
     m \<leftarrow> set_tags (mem st) h (ucast chunk_size OR 1);
     let st = upd_stat (\<lambda>s. s\<lparr>real_bytes := real_bytes s + chunk_size\<rparr>) (st\<lparr>mem := m\<rparr>);
     let st = live_add chunk_size st;
     let payload = h + 4;
     q \<leftarrow> load64 (mem st) payload;
     st \<leftarrow> seg_write_link st link q;
     Some (payload, upd_stat (\<lambda>s. s\<lparr>freelist_len := freelist_len s - 1\<rparr>) st) }"

partial_function (option) seg_malloc_loop ::
    "u64 \<Rightarrow> seg_link \<Rightarrow> seg_st \<Rightarrow> (ptr option \<times> seg_st) option" where
  "seg_malloc_loop need link st = do {
     h \<leftarrow> seg_read_link st link;
     if h = 0 then Some (None, st)
     else do {
       let st = upd_stat (\<lambda>s. s\<lparr>scan_steps := scan_steps s + 1\<rparr>) st;
       t \<leftarrow> load32 (mem st) h;
       let chunk_size = ucast (t AND NOT 15);
       if chunk_size \<ge> need + 16 then map_option (apfst Some) (seg_malloc_split need link h chunk_size st)
       else if chunk_size \<ge> need then map_option (apfst Some) (seg_malloc_whole link h chunk_size st)
       else seg_malloc_loop need (SNext h) st } }"

definition seg_malloc_grow :: "mmap_os \<Rightarrow> u64 \<Rightarrow> seg_st \<Rightarrow> (ptr \<times> seg_st) option" where
  "seg_malloc_grow os need st = do {
     let (cur, st) = arena_extend os 0 st;
     let pad = (12 - cur) AND 15;
     let (p, st) = arena_extend os (need + pad) st;
     let (hi, st) = arena_extend os 0 st;
     let st = st\<lparr>heap_hi := hi\<rparr>;
     if p = - 1 then Some (0, st)
     else do {
       let st = upd_stat (\<lambda>s. s\<lparr>real_bytes := real_bytes s + (need + pad)\<rparr>) st;
       let st = live_add need st;
       let header = p + pad;
       let payload = header + 4;
       m \<leftarrow> set_tags (mem st) header (ucast need OR 1);
       let st = st\<lparr>mem := m\<rparr>;
       let st = (if heap_lo st = 0 then st\<lparr>heap_lo := header\<rparr> else st);
       Some (payload, st) } }"

definition seg_malloc :: "mmap_os \<Rightarrow> u64 \<Rightarrow> seg_st \<Rightarrow> (ptr \<times> seg_st) option" where
  "seg_malloc os sz st = do {
     let need = (sz + 4 + 4 + 15) AND NOT 15;
     let bin = size_to_bin need;
     (r, st) \<leftarrow> seg_malloc_loop need (SHead bin) st;
     case r of Some payload \<Rightarrow> Some (payload, st) | None \<Rightarrow> seg_malloc_grow os need st }"

section \<open>Release, calloc, realloc\<close>

definition seg_free :: "ptr \<Rightarrow> seg_st \<Rightarrow> seg_st option" where
  "seg_free p st =
     (if p = 0 then Some st
      else do {
        let header = p - 4;
        t \<leftarrow> load32 (mem st) header;
        if t AND 1 = 0 then Some st
        else do {
          let t = t AND NOT 1;
          m \<leftarrow> store32 (mem st) header t;
          let st = upd_stat (\<lambda>s. s\<lparr>live_real_bytes := live_real_bytes s - ucast (t AND NOT 15)\<rparr>) (st\<lparr>mem := m\<rparr>);
          let bin = size_to_bin (ucast t);
          seg_freelist_push header bin st } })"

definition seg_calloc :: "mmap_os \<Rightarrow> u64 \<Rightarrow> u64 \<Rightarrow> seg_st \<Rightarrow> (ptr \<times> seg_st) option" where
  "seg_calloc os nmemb sz st =
     (if nmemb = 0 \<or> sz = 0 then Some (0, st)
      else if nmemb > SIZE_MAX div sz then Some (0, st)
      else do {
        let total = nmemb * sz;
        (p, st) \<leftarrow> seg_malloc os total st;
        if p \<noteq> 0 then do { m \<leftarrow> memset (mem st) p 0 total; Some (p, st\<lparr>mem := m\<rparr>) }
        else Some (p, st) })"

definition seg_realloc :: "mmap_os \<Rightarrow> ptr \<Rightarrow> u64 \<Rightarrow> seg_st \<Rightarrow> (ptr \<times> seg_st) option" where
  "seg_realloc os p sz st =
     (if p = 0 then seg_malloc os sz st
      else if sz = 0 then do { st \<leftarrow> seg_free p st; Some (0, st) }
      else do {
        (new_ptr, st) \<leftarrow> seg_malloc os sz st;
        if new_ptr = 0 then Some (0, st)
        else do {
          t \<leftarrow> load32 (mem st) (p - 4);
          let old_payload = (ucast ((t AND NOT 15) - 8) :: u64);
          let copy = (if old_payload < sz then old_payload else sz);
          m \<leftarrow> memcpy (mem st) new_ptr p copy;
          st \<leftarrow> seg_free p (st\<lparr>mem := m\<rparr>);
          Some (new_ptr, st) } })"

section \<open>Statistics\<close>

definition seg_stat_get :: "seg_st \<Rightarrow> AllocStat" where
  "seg_stat_get st =
     (alloc_stat st)\<lparr>arena_used_bytes := (if arena_base st \<noteq> 0 then arena_cur st - arena_base st else 0)\<rparr>"

definition seg_stat_reset :: "seg_st \<Rightarrow> seg_st" where
  "seg_stat_reset st =
     (let len = freelist_len (alloc_stat st); live = live_real_bytes (alloc_stat st)
      in st\<lparr>alloc_stat := zero_stat\<lparr>freelist_len := len, live_real_bytes := live, peak_live_real_bytes := live\<rparr>\<rparr>)"

end
