(* ===== verification/Segregated_Inv.thy ===== *)
theory Segregated_Inv
  imports Segregated Heap_Inv
begin

text \<open>
  The invariant of the segregated allocator. The ghost value \<open>F\<close> gives the free headers of each
  bin in list order: bin \<open>i\<close> holds exactly the free blocks whose size belongs to class \<open>i\<close>. The
  statistics are exact: \<open>freelist_len\<close> is the total length of the lists and \<open>live_real_bytes\<close> the
  sum of the sizes of the used blocks.
\<close>

section \<open>Size classes\<close>

lemma size_to_bin_bound: "size_to_bin n < NUM_BINS"
  by (simp add: size_to_bin_def NUM_BINS_def)

definition bin_hdrs :: "nat \<Rightarrow> nat \<Rightarrow> blk list \<Rightarrow> nat set" where
  "bin_hdrs i a bs = {h. \<exists>n. (h, n, False) \<in> set (hdrs a bs) \<and> size_to_bin (w64 n) = i}"

lemma bin_hdrs_simps [simp]:
  "bin_hdrs i a [] = {}"
  "bin_hdrs i a ((n, u) # bs) = (if \<not> u \<and> size_to_bin (w64 n) = i then {a} else {}) \<union> bin_hdrs i (a + n) bs"
  "bin_hdrs i a (xs @ ys) = bin_hdrs i a xs \<union> bin_hdrs i (a + szs xs) ys"
  unfolding bin_hdrs_def hdrs_append set_append by auto

lemma bin_hdrs_free: "bin_hdrs i a bs \<subseteq> free_hdrs a bs"
  by (auto simp: bin_hdrs_def free_hdrs_def)

lemma bin_hdrs_disjoint: "sizes_ok bs \<Longrightarrow> h \<in> bin_hdrs i a bs \<Longrightarrow> h \<in> bin_hdrs j a bs \<Longrightarrow> i = j"
  unfolding bin_hdrs_def using hdrs_unique by blast

lemma free_hdrs_bin: "h \<in> free_hdrs a bs \<Longrightarrow> \<exists>i < NUM_BINS. h \<in> bin_hdrs i a bs"
  using size_to_bin_bound unfolding bin_hdrs_def free_hdrs_def by blast

section \<open>The bytes in use\<close>

definition used_sum :: "blk list \<Rightarrow> nat" where
  "used_sum bs = sum_list (map fst (filter snd bs))"

lemma used_sum_simps [simp]:
  "used_sum [] = 0" "used_sum ((n, u) # bs) = (if u then n else 0) + used_sum bs"
  "used_sum (xs @ ys) = used_sum xs + used_sum ys"
  by (simp_all add: used_sum_def)

lemma used_sum_le: "used_sum bs \<le> szs bs"
proof (induction bs)
  case (Cons b bs)
  then show ?case by (cases b) auto
qed simp

text \<open>\<open>live_add\<close> as an update of the statistics.\<close>

definition live_stat :: "u64 \<Rightarrow> AllocStat \<Rightarrow> AllocStat" where
  "live_stat n s = s\<lparr>live_real_bytes := live_real_bytes s + n,
     peak_live_real_bytes := max (live_real_bytes s + n) (peak_live_real_bytes s)\<rparr>"

lemma live_add_eq: "live_add n st = upd_stat (live_stat n) st"
  by (cases "alloc_stat st") (auto simp: live_add_def live_stat_def max_def Let_def)

lemma live_stat_simps [simp]:
  "freelist_len (live_stat n s) = freelist_len s"
  "live_real_bytes (live_stat n s) = live_real_bytes s + n"
  "peak_live_real_bytes (live_stat n s) = max (live_real_bytes s + n) (peak_live_real_bytes s)"
  by (simp_all add: live_stat_def)

section \<open>The number of free blocks\<close>

definition total_len :: "(nat \<Rightarrow> nat list) \<Rightarrow> nat" where
  "total_len F = (\<Sum>i < NUM_BINS. length (F i))"

lemma total_len_Nil [simp]: "total_len (\<lambda>_. []) = 0"
  by (simp add: total_len_def)

lemma total_len_upd:
  assumes "b < NUM_BINS"
  shows "total_len F + length xs = total_len (F(b := xs)) + length (F b)"
proof -
  have "(\<Sum>i < NUM_BINS. f i) = f b + (\<Sum>i \<in> {..< NUM_BINS} - {b}. f i)" for f :: "nat \<Rightarrow> nat"
    by (rule sum.remove) (use assms in auto)
  moreover have "(\<Sum>i \<in> {..< NUM_BINS} - {b}. length ((F(b := xs)) i)) = (\<Sum>i \<in> {..< NUM_BINS} - {b}. length (F i))"
    by (rule sum.cong) auto
  ultimately show ?thesis by (simp add: total_len_def)
qed

section \<open>The invariant\<close>

definition seg_inv :: "seg_st \<Rightarrow> blk list \<Rightarrow> (nat \<Rightarrow> nat list) \<Rightarrow> bool" where
  "seg_inv st bs F \<longleftrightarrow> heap_inv st bs \<and> length (bin_head st) = NUM_BINS \<and>
     (\<forall>i < NUM_BINS. flist (mem st) (bin_head st ! i) (F i) \<and> distinct (F i) \<and>
        set (F i) = bin_hdrs i (first st) bs) \<and>
     freelist_len (alloc_stat st) = w64 (total_len F) \<and>
     live_real_bytes (alloc_stat st) = w64 (used_sum bs) \<and>
     live_real_bytes (alloc_stat st) \<le> peak_live_real_bytes (alloc_stat st)"

lemma seg_inv_init: "seg_inv seg_init [] (\<lambda>_. [])"
  by (simp add: seg_inv_def heap_inv_def arena_inv_def seg_init_def zero_stat_def)

lemma seg_inv_heap: "seg_inv st bs F \<Longrightarrow> heap_inv st bs"
  by (simp add: seg_inv_def)

lemma seg_inv_base: "seg_inv st bs F \<Longrightarrow> bs \<noteq> [] \<Longrightarrow> arena_base st \<noteq> 0"
  by (auto simp: seg_inv_def heap_inv_def arena_inv_def split: if_splits)

lemma seg_inv_bin:
  assumes "seg_inv st bs F" and "i < NUM_BINS"
  shows "flist (mem st) (bin_head st ! i) (F i)" and "distinct (F i)" and "set (F i) = bin_hdrs i (first st) bs"
  using assms by (simp_all add: seg_inv_def)

text \<open>A change confined to the blocks \<open>old\<close> and to links of other free blocks.\<close>

lemma seg_inv_replace:
  assumes inv: "seg_inv st (xs @ old @ ys) F" and ne: "old \<noteq> []" "new \<noteq> []"
    and fr: "frame (mem st) (mem st') ({first st + szs xs ..< first st + szs xs + szs old} \<union> links gs)"
    and gs: "set gs \<subseteq> free_hdrs (first st) xs \<union> free_hdrs (first st + szs xs + szs old) ys"
    and same: "same_arena st st'"
    and new: "layout (mem st') (first st + szs xs) new" and sz: "szs new = szs old"
    and len: "length (bin_head st') = NUM_BINS"
    and fl: "\<And>i. i < NUM_BINS \<Longrightarrow> flist (mem st') (bin_head st' ! i) (F' i) \<and> distinct (F' i) \<and>
      set (F' i) = bin_hdrs i (first st) xs \<union> bin_hdrs i (first st + szs xs) new \<union>
        bin_hdrs i (first st + szs xs + szs old) ys"
    and stat: "freelist_len (alloc_stat st') = w64 (total_len F')"
      "live_real_bytes (alloc_stat st') = w64 (used_sum (xs @ new @ ys))"
      "live_real_bytes (alloc_stat st') \<le> peak_live_real_bytes (alloc_stat st')"
  shows "seg_inv st' (xs @ new @ ys) F'"
proof -
  have ok: "sizes_ok (xs @ old @ ys)"
    using heap_inv_reserved(6) [OF seg_inv_heap [OF inv]] seg_inv_base [OF inv] ne by simp
  have "heap_inv st' (xs @ new @ ys)"
  proof (rule heap_inv_replace [OF seg_inv_heap [OF inv] ne fr same _ new sz])
    fix x assume "x \<in> {first st + szs xs ..< first st + szs xs + szs old} \<union> links gs"
    then show "(first st + szs xs \<le> x \<and> x < first st + szs xs + szs old) \<or>
        x \<in> interior False (first st) xs \<or> x \<in> interior False (first st + szs xs + szs old) ys"
      using links_around [OF ok gs, of x] by auto
  qed
  moreover have "first st' = first st" using same by (simp add: same_arena_def)
  ultimately show ?thesis
    using fl stat sz len by (simp add: seg_inv_def add.assoc Un_assoc)
qed

section \<open>Links\<close>

definition seg_link_after :: "nat \<Rightarrow> nat list \<Rightarrow> seg_link" where
  "seg_link_after b xs = (if xs = [] then SHead b else SNext (w64 (last xs)))"

lemma seg_link_after_simps [simp]:
  "seg_link_after b [] = SHead b" "seg_link_after b (xs @ [a]) = SNext (w64 a)"
  by (simp_all add: seg_link_after_def)

lemma seg_read_link_after:
  assumes "flist (mem st) (bin_head st ! b) (xs @ ys)"
  obtains p where "seg_read_link st (seg_link_after b xs) = Some p" and "flist (mem st) p ys"
proof (cases xs rule: rev_cases)
  case Nil
  then show ?thesis using assms that by simp
next
  case (snoc xs' a)
  then obtain r where "word64_at (mem st) (a + 4) r" and "flist (mem st) r ys"
    using assms by (auto simp: fpath_append)
  then show ?thesis using that snoc by (simp add: word64_atD)
qed

lemma seg_unlink_after:
  assumes fl: "flist (mem st) (bin_head st ! b) (xs @ h # ys)"
    and sp: "spread (xs @ h # ys)" and di: "distinct (xs @ h # ys)"
  obtains q m' p' where "load64 (mem st) (w64 h + 4) = Some q"
    and "seg_write_link st (seg_link_after b xs) q = Some (st\<lparr>mem := m', bin_head := (bin_head st)[b := p']\<rparr>)"
    and "flist m' p' (xs @ ys)" and "frame (mem st) m' (links xs)"
proof -
  obtain q where q: "word64_at (mem st) (h + 4) q" "flist (mem st) q ys"
    using fl by (auto simp: fpath_append)
  have ld: "load64 (mem st) (w64 h + 4) = Some q" using q(1) by (simp add: word64_atD)
  show ?thesis
  proof (cases xs rule: rev_cases)
    case Nil
    show ?thesis
      by (rule that [where q = q and m' = "mem st" and p' = q]) (use ld q Nil in simp_all)
  next
    case (snoc zs a)
    have fl': "flist (mem st) (bin_head st ! b) (zs @ a # h # ys)" "spread (zs @ a # h # ys)" "distinct (zs @ a # h # ys)"
      using fl sp di snoc by simp_all
    obtain q' m' where m': "word64_at (mem st) (h + 4) q'" "store64 (mem st) (w64 (a + 4)) q' = Some m'"
      "flist m' (bin_head st ! b) (zs @ a # ys)" and fr: "frame (mem st) m' {a + 4 ..< a + 12}"
      using fl' by (rule flist_unlink)
    have "q' = q" using m'(1) q(1) by (simp add: word64_at_def)
    moreover have "frame (mem st) m' (links xs)" by (rule frame_weaken [OF fr]) (auto simp: links_def snoc)
    ultimately show ?thesis
      by (intro that [where q = q and m' = m' and p' = "bin_head st ! b"]) (use ld m' snoc in simp_all)
  qed
qed

end
