(* ===== verification/Segregated_Spec.thy ===== *)
theory Segregated_Spec
  imports Segregated_Malloc
begin

text \<open>
  The scan of one bin, the growth of the arena, and the specification of \<open>my_malloc\<close> and
  \<open>my_free\<close> of the segregated allocator.
\<close>

section \<open>The scan\<close>

definition seg_scanned :: "nat \<Rightarrow> seg_st \<Rightarrow> seg_st" where
  "seg_scanned i st = upd_stat (\<lambda>s. s\<lparr>scan_steps := scan_steps s + w64 i\<rparr>) st"

lemma seg_scanned_simps [simp]:
  "mem (seg_scanned i st) = mem st" "bin_head (seg_scanned i st) = bin_head st"
  "arena_base (seg_scanned i st) = arena_base st" "heap_lo (seg_scanned i st) = heap_lo st"
  "heap_hi (seg_scanned i st) = heap_hi st" "arena_cur (seg_scanned i st) = arena_cur st"
  "arena_end (seg_scanned i st) = arena_end st" "mmaps (seg_scanned i st) = mmaps st"
  "freelist_len (alloc_stat (seg_scanned i st)) = freelist_len (alloc_stat st)"
  "live_real_bytes (alloc_stat (seg_scanned i st)) = live_real_bytes (alloc_stat st)"
  "peak_live_real_bytes (alloc_stat (seg_scanned i st)) = peak_live_real_bytes (alloc_stat st)"
  by (simp_all add: seg_scanned_def)

lemma seg_scanned_scanned [simp]: "seg_scanned i (seg_scanned j st) = seg_scanned (i + j) st"
  by (simp add: seg_scanned_def w64_def add.commute add.left_commute)

lemma seg_scanned_0 [simp]: "seg_scanned 0 st = st"
  by (simp add: seg_scanned_def)

lemma seg_inv_scan [simp]: "seg_inv (seg_scanned i st) bs F \<longleftrightarrow> seg_inv st bs F"
  by (simp add: seg_inv_def heap_inv_def arena_inv_def)

lemma seg_loop_step:
  assumes inv: "seg_inv st bs F" and b: "b < NUM_BINS" and F: "F b = xs @ y # ys"
    and n: "(y, n, False) \<in> set (hdrs (first st) bs)" and k: "k \<le> 2 ^ 63 + 32"
  shows "seg_malloc_loop (w64 k) (seg_link_after b xs) st =
    (if k + 16 \<le> n then map_option (apfst Some) (seg_malloc_split (w64 k) (seg_link_after b xs) (w64 y) (w64 n) (seg_scanned 1 st))
     else if k \<le> n then map_option (apfst Some) (seg_malloc_whole (seg_link_after b xs) (w64 y) (w64 n) (seg_scanned 1 st))
     else seg_malloc_loop (w64 k) (seg_link_after b (xs @ [y])) (seg_scanned 1 st))"
proof -
  have "bs \<noteq> []" using n by auto
  then have base: "arena_base st \<noteq> 0" using seg_inv_base [OF inv] by simp
  note blk = heap_inv_blk [OF seg_inv_heap [OF inv] base n]
  obtain p where p: "seg_read_link st (seg_link_after b xs) = Some p" "flist (mem st) p (y # ys)"
    using seg_read_link_after [of st b xs "y # ys"] seg_inv_bin(1) [OF inv b] F by auto
  then have y: "p = w64 y" "p \<noteq> 0" by (auto simp: w64_eq_0_iff)
  have n32: "n < 2 ^ 32" using blk(2) by (rule size16D)
  have "load32 (mem st) (w64 y) = Some (tag n False)"
    using blk(1) by (simp add: blk_at_def word32_atD)
  moreover have "w64 k + 16 \<le> w64 n \<longleftrightarrow> k + 16 \<le> n" and "w64 k \<le> w64 n \<longleftrightarrow> k \<le> n"
    using n32 k by (simp_all add: w64_le_iff)
  ultimately show ?thesis
    using p y blk(2) n32 by (subst seg_malloc_loop.simps) (simp add: ucast_w32 seg_scanned_def w64_def Let_def)
qed

lemma seg_loop_ok:
  assumes "seg_inv st bs F" and "b < NUM_BINS" and "F b = xs @ ys" and "k \<le> 2 ^ 63 + 32"
  shows "(\<forall>y \<in> set ys. \<not> fits (first st) bs k y) \<and>
      seg_malloc_loop (w64 k) (seg_link_after b xs) st = Some (None, seg_scanned (length ys) st) \<or>
    (\<exists>ys1 h ys2 n. ys = ys1 @ h # ys2 \<and> (\<forall>y \<in> set ys1. \<not> fits (first st) bs k y) \<and>
      (h, n, False) \<in> set (hdrs (first st) bs) \<and> k \<le> n \<and>
      seg_malloc_loop (w64 k) (seg_link_after b xs) st = map_option (apfst Some)
        ((if k + 16 \<le> n then seg_malloc_split (w64 k) (seg_link_after b (xs @ ys1)) (w64 h) (w64 n)
          else seg_malloc_whole (seg_link_after b (xs @ ys1)) (w64 h) (w64 n)) (seg_scanned (length ys1 + 1) st)))"
  using assms
proof (induction ys arbitrary: xs st)
  case Nil
  then have "seg_read_link st (seg_link_after b xs) = Some 0"
    using seg_read_link_after [of st b xs "[]"] seg_inv_bin(1) [of st bs F b] by auto
  then show ?case by (subst seg_malloc_loop.simps) simp
next
  case (Cons y ys)
  have "y \<in> free_hdrs (first st) bs"
    using seg_inv_bin(3) [OF Cons.prems(1,2)] Cons.prems(3) bin_hdrs_free by fastforce
  then obtain n where n: "(y, n, False) \<in> set (hdrs (first st) bs)" by (auto simp: free_hdrs_def)
  note step = seg_loop_step [OF Cons.prems(1-3) n Cons.prems(4)]
  show ?case
  proof (cases "k \<le> n")
    case True
    have "seg_malloc_loop (w64 k) (seg_link_after b xs) st = map_option (apfst Some)
        ((if k + 16 \<le> n then seg_malloc_split (w64 k) (seg_link_after b (xs @ [])) (w64 y) (w64 n)
          else seg_malloc_whole (seg_link_after b (xs @ [])) (w64 y) (w64 n)) (seg_scanned (length [] + 1) st))"
      using step True by simp
    then show ?thesis using n True by (intro disjI2) fastforce
  next
    case False
    let ?st = "seg_scanned 1 st"
    have nofit: "\<not> fits (first st) bs k y"
    proof
      assume "fits (first st) bs k y"
      then obtain n' where "(y, n', False) \<in> set (hdrs (first st) bs)" "k \<le> n'" by (auto simp: fits_def)
      moreover have "sizes_ok bs"
        using seg_inv_heap [OF Cons.prems(1)] by (auto simp: heap_inv_def dest: layout_sizes_ok)
      ultimately show False using hdrs_unique n False by blast
    qed
    have inv: "seg_inv ?st bs F" and F: "F b = (xs @ [y]) @ ys" using Cons.prems(1,3) by simp_all
    have eq: "seg_malloc_loop (w64 k) (seg_link_after b xs) st = seg_malloc_loop (w64 k) (seg_link_after b (xs @ [y])) ?st"
      using step False by simp
    from Cons.IH [OF inv Cons.prems(2) F Cons.prems(4)] show ?thesis
    proof (elim disjE exE conjE)
      assume "\<forall>y \<in> set ys. \<not> fits (first ?st) bs k y"
        and "seg_malloc_loop (w64 k) (seg_link_after b (xs @ [y])) ?st = Some (None, seg_scanned (length ys) ?st)"
      then show ?thesis using nofit eq by simp
    next
      fix ys1 h ys2 n'
      assume *: "ys = ys1 @ h # ys2" "\<forall>y \<in> set ys1. \<not> fits (first ?st) bs k y"
        "(h, n', False) \<in> set (hdrs (first ?st) bs)" "k \<le> n'"
        "seg_malloc_loop (w64 k) (seg_link_after b (xs @ [y])) ?st = map_option (apfst Some)
          ((if k + 16 \<le> n' then seg_malloc_split (w64 k) (seg_link_after b ((xs @ [y]) @ ys1)) (w64 h) (w64 n')
            else seg_malloc_whole (seg_link_after b ((xs @ [y]) @ ys1)) (w64 h) (w64 n')) (seg_scanned (length ys1 + 1) ?st))"
      have "y # ys = (y # ys1) @ h # ys2 \<and> (\<forall>x \<in> set (y # ys1). \<not> fits (first st) bs k x) \<and>
          (h, n', False) \<in> set (hdrs (first st) bs) \<and> k \<le> n' \<and>
          seg_malloc_loop (w64 k) (seg_link_after b xs) st = map_option (apfst Some)
          ((if k + 16 \<le> n' then seg_malloc_split (w64 k) (seg_link_after b (xs @ y # ys1)) (w64 h) (w64 n')
            else seg_malloc_whole (seg_link_after b (xs @ y # ys1)) (w64 h) (w64 n')) (seg_scanned (length (y # ys1) + 1) st))"
        using * nofit eq by simp
      then show ?thesis by blast
    qed
  qed
qed

section \<open>Growing the heap\<close>

lemma bin_head_reserved [simp]: "bin_head (arena_reserved os st) = bin_head st"
  by (simp add: arena_reserved_def)

lemma seg_inv_reserved:
  assumes inv: "seg_inv st bs F" and os: "os_ok os st"
  shows "seg_inv (arena_reserved os st) bs F"
proof (cases "arena_base st = 0")
  case True
  then have "bs = []" using inv by (simp add: seg_inv_def heap_inv_def arena_inv_def)
  then have "F i = []" if "i < NUM_BINS" for i using seg_inv_bin(3) [OF inv that] by simp
  then show ?thesis
    using inv arena_reserved_inv [OF seg_inv_heap [OF inv] os] \<open>bs = []\<close> by (auto simp: seg_inv_def)
qed (use inv in \<open>simp add: arena_reserved_id\<close>)

lemma seg_grow_full:
  assumes inv: "seg_inv st bs F" and os: "os_ok os st" and k: "16 \<le> k" "k \<le> 2 ^ 63 + 32"
    and full: "2 ^ 32 < 12 + szs bs + k"
  shows "seg_malloc_grow os (w64 k) st = Some (0, (arena_reserved os st)\<lparr>heap_hi := arena_cur (arena_reserved os st)\<rparr>)"
    and "seg_inv ((arena_reserved os st)\<lparr>heap_hi := arena_cur (arena_reserved os st)\<rparr>) bs F"
proof -
  let ?s = "arena_reserved os st"
  have inv': "seg_inv ?s bs F" and b: "arena_base ?s \<noteq> 0"
    by (rule seg_inv_reserved [OF inv os], rule arena_reserved_base [OF os])
  have os': "os_ok os ?s" using b by (simp add: os_ok_def)
  have "arena_extend os (w64 k + ((12 - arena_cur ?s) AND 15)) ?s = (- 1, ?s)"
    using arena_extend_break [OF seg_inv_heap [OF inv'] b k refl, of os] full by simp
  then show "seg_malloc_grow os (w64 k) st = Some (0, ?s\<lparr>heap_hi := arena_cur ?s\<rparr>)"
    by (simp add: seg_malloc_grow_def arena_extend_ok [OF os] arena_extend_ok [OF os'] arena_reserved_id [OF b] Let_def)
  show "seg_inv (?s\<lparr>heap_hi := arena_cur ?s\<rparr>) bs F"
    using inv' b by (auto simp: seg_inv_def heap_inv_def arena_inv_def split: if_splits)
qed

lemma seg_grow_ok:
  assumes inv: "seg_inv st bs F" and os: "os_ok os st" and k: "size16 k"
    and room: "12 + szs bs + k \<le> 2 ^ 32"
  obtains st' h where "seg_malloc_grow os (w64 k) st = Some (w64 (h + 4), st')"
    and "h = first st' + szs bs" and "seg_inv st' (bs @ [(k, True)]) F"
    and "arena_base st' = arena_base (arena_reserved os st)"
    and "frame (mem (arena_reserved os st)) (mem st') {h ..< h + k}"
proof -
  let ?s = "arena_reserved os st"
  have inv': "seg_inv ?s bs F" and b: "arena_base ?s \<noteq> 0"
    by (rule seg_inv_reserved [OF inv os], rule arena_reserved_base [OF os])
  have k': "16 \<le> k" "k < 2 ^ 32" using k by (auto dest: size16D)
  note facts = heap_inv_reserved [OF seg_inv_heap [OF inv'] b]
  define h where "h = first ?s + szs bs"
  define pad where "pad = (12 - arena_cur ?s) AND 15"
  have "k \<le> 2 ^ 63 + 32" using k' by simp
  then obtain p where p: "arena_extend os (w64 k + pad) ?s = (p, ?s\<lparr>arena_cur := w64 (h + k)\<rparr>)"
    "p \<noteq> - 1" "p + pad = w64 h"
    using arena_extend_break [OF seg_inv_heap [OF inv'] b k'(1) _ pad_def, of os] room by (auto simp: h_def)
  let ?s2 = "?s\<lparr>arena_cur := w64 (h + k), heap_hi := w64 (h + k)\<rparr>"
  have l: "h + k \<le> 2 ^ 47" "unat (arena_base ?s) + 12 \<le> h" "h + k \<le> unat (arena_base ?s) + 2 ^ 32"
    using facts(1) room by (auto simp: h_def base_ok_def)
  have mp: "mapped (mem ?s) h k" by (rule mapped_mono [OF facts(3)]) (use l in linarith)+
  have l64: "h + k \<le> 2 ^ 64" using l(1) by simp
  obtain m1 where m1: "set_tags (mem ?s) (w64 h) (tag k True) = Some m1" "blk_at m1 h k True"
    "frame (mem ?s) m1 ({h ..< h + 4} \<union> {h + k - 4 ..< h + k})"
    using set_tags_mapped [OF k mp l64] by blast
  have fr: "frame (mem ?s) m1 {h ..< h + k}" by (rule frame_weaken [OF m1(3)]) (use k' in auto)
  have lo: "heap_lo ?s = (if bs = [] then 0 else w64 (first ?s))" "w64 (first ?s) \<noteq> 0"
    using seg_inv_heap [OF inv'] b l by (auto simp: heap_inv_def arena_inv_def w64_eq_0_iff split: if_splits)
  define st' where "st' = (upd_stat (live_stat (w64 k)) (upd_stat (\<lambda>s. s\<lparr>real_bytes := real_bytes s + (w64 k + pad)\<rparr>) ?s2))
    \<lparr>mem := m1, heap_lo := w64 (first ?s)\<rparr>"
  have run: "seg_malloc_grow os (w64 k) st = Some (w64 (h + 4), st')"
  proof -
    have os': "os_ok os ?s" "os_ok os (?s\<lparr>arena_cur := w64 (h + k)\<rparr>)" using b by (simp_all add: os_ok_def)
    have "arena_reserved os (?s\<lparr>arena_cur := w64 (h + k)\<rparr>) = ?s\<lparr>arena_cur := w64 (h + k)\<rparr>"
      using b by (simp add: arena_reserved_def)
    moreover have "h = first ?s" if "bs = []" using that by (simp add: h_def)
    ultimately show ?thesis
      using p m1(1) k lo
      by (auto simp: seg_malloc_grow_def live_add_eq arena_extend_ok [OF os] arena_extend_ok [OF os'(2)]
        pad_def [symmetric] Let_def ucast_w64 st'_def)
  qed
  have lay: "layout m1 (first ?s) (bs @ [(k, True)])"
  proof -
    have "layout m1 (first ?s) bs"
      by (rule layout_frame_outside [OF fr facts(5)]) (use facts(7) in \<open>auto simp: h_def\<close>)
    then show ?thesis using m1(2) by (simp add: h_def)
  qed
  have "flist m1 (bin_head ?s ! i) (F i)" if i: "i < NUM_BINS" for i
  proof (rule fpath_frame [OF fr])
    show "flist (mem ?s) (bin_head ?s ! i) (F i)" by (rule seg_inv_bin(1) [OF inv' i])
    have "links (F i) \<subseteq> interior False (first ?s) bs"
      by (rule links_free_interior [OF facts(6)]) (use seg_inv_bin(3) [OF inv' i] bin_hdrs_free in blast)
    then show "links (F i) \<inter> {h ..< h + k} = {}"
      using interior_bounds [of _ False "first ?s" bs] by (fastforce simp: h_def)
  qed
  moreover have "mapped m1 (unat (arena_base ?s)) (2 ^ 32)" using mapped_frame [OF fr facts(3)] .
  ultimately have "seg_inv st' (bs @ [(k, True)]) F"
    using inv' b lay room facts(1,2) k
    by (simp add: seg_inv_def heap_inv_def arena_inv_def st'_def h_def add.assoc)
  then show ?thesis
    using that [of h st'] run fr by (simp add: st'_def h_def)
qed

section \<open>my\_malloc\<close>

lemma seg_malloc_eq:
  "unat sz < 2 ^ 63 \<Longrightarrow> seg_malloc os sz st =
     Option.bind (seg_malloc_loop (w64 (chunk (unat sz))) (SHead (size_to_bin (w64 (chunk (unat sz))))) st) (\<lambda>(r, st).
       case r of Some payload \<Rightarrow> Some (payload, st) | None \<Rightarrow> seg_malloc_grow os (w64 (chunk (unat sz))) st)"
  by (simp only: seg_malloc_def need_eq Let_def)

lemma seg_malloc_reuse:
  assumes inv: "seg_inv st bs F" and sz: "unat sz < 2 ^ 63"
    and b: "b = size_to_bin (w64 (chunk (unat sz)))"
    and fit: "\<exists>h \<in> set (F b). fits (first st) bs (chunk (unat sz)) h"
  obtains h n st' bs' F' xs ys where "seg_malloc os sz st = Some (w64 (h + 4), st')"
    and "seg_inv st' bs' F'" and "same_arena st st'"
    and "keeps (mem st) (mem st') (interior True (first st) bs)"
    and "F b = xs @ h # ys" and "\<forall>x \<in> set xs. \<not> fits (first st) bs (chunk (unat sz)) x"
    and "chunk (unat sz) \<le> n" and "(h, n) \<notin> used_blks (first st) bs"
    and "used_blks (first st) bs' = insert (h, n) (used_blks (first st) bs)"
    and "arena_base st \<noteq> 0" and "w64 (h + 4) \<noteq> 0"
proof -
  let ?k = "chunk (unat sz)"
  have bN: "b < NUM_BINS" unfolding b by (rule size_to_bin_bound)
  have k63: "?k \<le> 2 ^ 63 + 32" using chunk_bounds(2) [of "unat sz"] sz by simp
  have "F b = [] @ F b" by simp
  from seg_loop_ok [OF inv bN this k63] fit
  obtain xs h ys n where F: "F b = xs @ h # ys" "\<forall>x \<in> set xs. \<not> fits (first st) bs ?k x"
    and hn: "(h, n, False) \<in> set (hdrs (first st) bs)" "?k \<le> n"
    and run: "seg_malloc_loop (w64 ?k) (seg_link_after b []) st = map_option (apfst Some)
        ((if ?k + 16 \<le> n then seg_malloc_split (w64 ?k) (seg_link_after b ([] @ xs)) (w64 h) (w64 n)
          else seg_malloc_whole (seg_link_after b ([] @ xs)) (w64 h) (w64 n)) (seg_scanned (length xs + 1) st))"
    by (elim disjE exE conjE) blast+
  obtain bxs bys where bs: "bs = bxs @ (n, False) # bys" "h = first st + szs bxs"
    using hn(1) by (rule hdrs_split)
  let ?st = "seg_scanned (length xs + 1) st"
  have inv': "seg_inv ?st (bxs @ (n, False) # bys) F" "h = first ?st + szs bxs" using inv bs by simp_all
  note S = seg_block_facts [OF inv' bN F(1)]
  have k: "size16 ?k" using chunk_bounds [of "unat sz"] hn(2) S(2) by (auto simp: size16_def)
  have ok: "sizes_ok bs" using S(11) bs(1) by simp
  then have hu: "(h, n') \<notin> used_blks (first st) bs" for n'
    using hdrs_unique [OF _ hn(1), of n' True] unfolding used_blks_def by blast
  have malloc: "seg_malloc os sz st = Some (w64 (h + 4), st')"
    if "(if ?k + 16 \<le> n then seg_malloc_split (w64 ?k) (seg_link_after b xs) (w64 h) (w64 n)
          else seg_malloc_whole (seg_link_after b xs) (w64 h) (w64 n)) ?st = Some (w64 (h + 4), st')" for st'
    using that run b by (auto simp: seg_malloc_eq [OF sz] split: if_splits)
  have sub: "set (xs @ ys) \<subseteq> free_hdrs (first st) bs"
    using seg_inv_bin(3) [OF inv bN] F(1) bin_hdrs_free by fastforce
  have ks: "keeps (mem st) (mem st') (interior True (first st) bs)"
    if "frame (mem ?st) (mem st') ({h ..< h + n} \<union> links (xs @ ys))" for st'
    using keeps_used [OF seg_inv_heap [OF inv] hn(1) _ sub] that by simp
  have base: "arena_base st \<noteq> 0" using S(1) by simp
  have nz: "w64 (h + 4) \<noteq> 0" using S(4) size16D(1) [OF S(2)] by (simp add: w64_eq_0_iff)
  show ?thesis
  proof (cases "?k + 16 \<le> n")
    case True
    obtain st' F' where s: "seg_malloc_split (w64 ?k) (seg_link_after b xs) (w64 h) (w64 n) ?st = Some (w64 (h + 4), st')"
      "seg_inv st' (bxs @ (?k, True) # (n - ?k, False) # bys) F'" "same_arena ?st st'"
      "frame (mem ?st) (mem st') ({h ..< h + n} \<union> links (xs @ ys))"
      using seg_malloc_split_ok [OF inv' bN F(1) k True] by blast
    have "h + ?k + (n - ?k) = h + n" using True by simp
    then have "used_blks (first st) (bxs @ (?k, True) # (n - ?k, False) # bys) =
        insert (h, ?k) (used_blks (first st) bs)"
      unfolding bs(1) by (simp add: bs(2) [symmetric])
    then show ?thesis
      by (intro that [OF malloc s(2) _ ks [OF s(4)] F le_refl hu _ base nz])
        (use s(1,3) True in \<open>auto simp: same_arena_def\<close>)
  next
    case False
    obtain st' where s: "seg_malloc_whole (seg_link_after b xs) (w64 h) (w64 n) ?st = Some (w64 (h + 4), st')"
      "seg_inv st' (bxs @ (n, True) # bys) (F(b := xs @ ys))" "same_arena ?st st'"
      "frame (mem ?st) (mem st') ({h ..< h + n} \<union> links (xs @ ys))"
      using seg_malloc_whole_ok [OF inv' bN F(1)] by blast
    show ?thesis
      by (rule that [OF malloc s(2) _ ks [OF s(4)] F hn(2) hu _ base nz])
        (use s(1,3) False bs in \<open>auto simp: same_arena_def\<close>)
  qed
qed

lemma seg_malloc_fresh:
  assumes inv: "seg_inv st bs F" and sz: "unat sz < 2 ^ 63"
    and nofit: "\<forall>h \<in> set (F (size_to_bin (w64 (chunk (unat sz))))). \<not> fits (first st) bs (chunk (unat sz)) h"
  shows "\<exists>i. seg_malloc os sz st = seg_malloc_grow os (w64 (chunk (unat sz))) (seg_scanned i st)"
proof -
  let ?k = "chunk (unat sz)" and ?b = "size_to_bin (w64 (chunk (unat sz)))"
  have k63: "?k \<le> 2 ^ 63 + 32" using chunk_bounds(2) [of "unat sz"] sz by simp
  have "F ?b = [] @ F ?b" by simp
  from seg_loop_ok [OF inv size_to_bin_bound this k63]
  have "seg_malloc_loop (w64 ?k) (SHead ?b) st = Some (None, seg_scanned (length (F ?b)) st)"
  proof (elim disjE exE conjE)
    fix ys1 h ys2 n
    assume "F ?b = ys1 @ h # ys2" "(h, n, False) \<in> set (hdrs (first st) bs)" "?k \<le> n"
    then show ?thesis using nofit by (auto simp: fits_def)
  qed simp
  then show ?thesis by (auto simp: seg_malloc_eq [OF sz])
qed

lemma seg_malloc_init:
  assumes "unat sz < 2 ^ 63" and "k = chunk (unat sz)"
  shows "seg_malloc os sz seg_init = seg_malloc_grow os (w64 k) seg_init"
proof -
  have "seg_malloc_loop (w64 k) (SHead (size_to_bin (w64 k))) seg_init = Some (None, seg_init)"
    using seg_loop_ok [OF seg_inv_init size_to_bin_bound [of "w64 k"], where xs = "[]" and ys = "[]" and k = k]
      chunk_bounds(2) [of "unat sz"] assms by (simp add: seg_scanned_def)
  then show ?thesis using assms(2) by (simp add: seg_malloc_eq [OF assms(1)])
qed

lemma seg_malloc_spec:
  assumes inv: "seg_inv st bs F" and os: "os_ok os st" and sz: "unat sz < 2 ^ 63"
  shows "\<exists>p st' bs' F'. seg_malloc os sz st = Some (p, st') \<and> seg_inv st' bs' F' \<and>
    keeps (mem st) (mem st') (interior True (first st) bs) \<and>
    arena_base st' = arena_base (arena_reserved os st) \<and>
    (if p = 0
     then bs' = bs \<and> F' = F \<and> 2 ^ 32 < 12 + szs bs + chunk (unat sz) \<and>
       (\<forall>h \<in> set (F (size_to_bin (w64 (chunk (unat sz))))). \<not> fits (first st) bs (chunk (unat sz)) h)
     else \<exists>h n. p = w64 (h + 4) \<and> chunk (unat sz) \<le> n \<and> (h, n) \<notin> used_blks (first st) bs \<and>
          used_blks (first st') bs' = insert (h, n) (used_blks (first st) bs))"
proof (cases "\<exists>h \<in> set (F (size_to_bin (w64 (chunk (unat sz))))). fits (first st) bs (chunk (unat sz)) h")
  case True
  obtain h n st' bs' F' where run: "seg_malloc os sz st = Some (w64 (h + 4), st')" "seg_inv st' bs' F'"
    "same_arena st st'" "keeps (mem st) (mem st') (interior True (first st) bs)"
    "chunk (unat sz) \<le> n" "(h, n) \<notin> used_blks (first st) bs"
    "used_blks (first st) bs' = insert (h, n) (used_blks (first st) bs)" "arena_base st \<noteq> 0" "w64 (h + 4) \<noteq> 0"
    by (rule seg_malloc_reuse [OF inv sz refl True])
  then show ?thesis by (auto simp: same_arena_def arena_reserved_id)
next
  case False
  let ?k = "chunk (unat sz)"
  obtain i where run: "seg_malloc os sz st = seg_malloc_grow os (w64 ?k) (seg_scanned i st)"
    using seg_malloc_fresh [OF inv sz] False by blast
  let ?st = "seg_scanned i st"
  have inv': "seg_inv ?st bs F" and os': "os_ok os ?st" using inv os by (simp_all add: os_ok_def)
  have k: "16 \<le> ?k" "?k \<le> 2 ^ 63 + 32" using chunk_bounds(2,3) [of "unat sz"] sz by simp_all
  have base: "arena_base (arena_reserved os ?st) = arena_base (arena_reserved os st)"
    by (simp add: arena_reserved_def)
  have kp: "keeps (mem st) (mem (arena_reserved os ?st)) (interior True (first st) bs)"
    using mem_reserved_keeps [OF seg_inv_heap [OF inv']] by simp
  show ?thesis
  proof (cases "12 + szs bs + ?k \<le> 2 ^ 32")
    case True
    then have k16: "size16 ?k" using chunk_bounds [of "unat sz"] by (auto simp: size16_def)
    obtain st' h where g: "seg_malloc_grow os (w64 ?k) ?st = Some (w64 (h + 4), st')" "h = first st' + szs bs"
      "seg_inv st' (bs @ [(?k, True)]) F" "arena_base st' = arena_base (arena_reserved os ?st)"
      "frame (mem (arena_reserved os ?st)) (mem st') {h ..< h + ?k}"
      by (rule seg_grow_ok [OF inv' os' k16 True])
    have b: "arena_base st' \<noteq> 0" using seg_inv_base [OF g(3)] by simp
    note facts = heap_inv_reserved [OF seg_inv_heap [OF g(3)] b]
    have first: "first st' = first st \<or> bs = []"
      using inv g(4) base by (auto simp: arena_reserved_def seg_inv_def heap_inv_def arena_inv_def)
    have h64: "h + ?k \<le> 2 ^ 47" using facts(7) g(2) by simp
    then have "w64 (h + 4) \<noteq> 0" using k(1) by (simp add: w64_eq_0_iff)
    moreover have "keeps (mem st) (mem st') (interior True (first st) bs)"
    proof (rule keeps_trans [OF kp], rule frame_keeps [OF g(5)])
      fix x assume "x \<in> interior True (first st) bs"
      with first have "x < h" using interior_bounds [of x True "first st" bs] g(2) by auto
      then show "x < 2 ^ 64 \<and> x \<notin> {h ..< h + ?k}" using h64 by simp
    qed
    moreover have "used_blks (first st') (bs @ [(?k, True)]) = insert (h, ?k) (used_blks (first st) bs)"
      using first g(2) by auto
    moreover have "arena_base st' = arena_base (arena_reserved os st)" using g(4) base by simp
    moreover have "(h, ?k) \<notin> used_blks (first st) bs"
      using first g(2) k(1) used_blks_bounds [of h ?k "first st" bs] by auto
    ultimately have "seg_malloc os sz st = Some (w64 (h + 4), st') \<and> seg_inv st' (bs @ [(?k, True)]) F \<and>
        keeps (mem st) (mem st') (interior True (first st) bs) \<and>
        arena_base st' = arena_base (arena_reserved os st) \<and> w64 (h + 4) \<noteq> 0 \<and>
        (\<exists>h' n. w64 (h + 4) = w64 (h' + 4) \<and> ?k \<le> n \<and> (h', n) \<notin> used_blks (first st) bs \<and>
          used_blks (first st') (bs @ [(?k, True)]) = insert (h', n) (used_blks (first st) bs))"
      unfolding run g(1) using g(3) by blast
    then show ?thesis by (metis (no_types, lifting))
  next
    case full: False
    then show ?thesis
      using seg_grow_full [OF inv' os' k] run kp base False by auto
  qed
qed

section \<open>my\_free\<close>

lemma seg_free_spec:
  assumes inv: "seg_inv st bs F" and live: "(h, n) \<in> used_blks (first st) bs"
  shows "\<exists>st' bs' F'. seg_free (w64 (h + 4)) st = Some st' \<and> seg_inv st' bs' F' \<and> same_arena st st' \<and>
    used_blks (first st) bs' = used_blks (first st) bs - {(h, n)} \<and>
    keeps (mem st) (mem st') (interior True (first st) bs') \<and> szs bs' = szs bs"
proof -
  have mh: "(h, n, True) \<in> set (hdrs (first st) bs)" using live by (simp add: used_blks_def)
  obtain xs ys where bs: "bs = xs @ (n, True) # ys" and h: "h = first st + szs xs"
    using mh by (rule hdrs_split)
  note U = heap_used_facts [OF seg_inv_heap [OF inv] live]
  note facts = heap_inv_reserved [OF seg_inv_heap [OF inv] U(1)]
  have 16: "16 \<le> n" "n < 2 ^ 32" using U(2) by (auto dest: size16D)
  have l64: "h + n \<le> 2 ^ 64" using U(4) by simp
  let ?b = "size_to_bin (w64 n)"
  have bN: "?b < NUM_BINS" by (rule size_to_bin_bound)
  have notfree: "h \<notin> free_hdrs (first st) bs"
    using hdrs_unique [OF facts(6) mh, of _ False] by (auto simp: free_hdrs_def)
  have ap: "x + 16 \<le> h \<or> h + n \<le> x" if "i < NUM_BINS" "x \<in> set (F i)" for i x
  proof (rule free_apart [OF facts(6) mh])
    show "x \<in> free_hdrs (first st) bs" using seg_inv_bin(3) [OF inv that(1)] that(2) bin_hdrs_free by blast
    then show "x \<noteq> h" using notfree by blast
  qed
  have "mapped (mem st) h 4" by (rule mapped_mono [OF U(3)]) (use 16 in auto)
  then obtain m1 where m1: "store32 (mem st) (w64 h) (tag n False) = Some m1" "word32_at m1 h (tag n False)"
    "frame (mem st) m1 {h ..< h + 4}"
    using store32_mapped [of "mem st" h] l64 16 by auto
  let ?st1 = "upd_stat (\<lambda>s. s\<lparr>live_real_bytes := live_real_bytes s - w64 n\<rparr>) (st\<lparr>mem := m1\<rparr>)"
  have bins: "bins_at (mem st) (bin_head st) F" using inv by (simp add: bins_at_def seg_inv_def)
  have "bins_apart F h 4" unfolding bins_apart_def
  proof (intro allI impI ballI)
    fix i x assume "i < NUM_BINS" "x \<in> set (F i)"
    from ap [OF this] show "x + 16 \<le> h \<or> h + 4 \<le> x" using 16 by linarith
  qed
  then have "bins_at m1 (bin_head st) F" by (intro bins_at_frame [OF bins m1(3)]) auto
  then have "bins_at (mem ?st1) (bin_head ?st1) F" by simp
  moreover have "bins_apart F h 16" unfolding bins_apart_def
  proof (intro allI impI ballI)
    fix i x assume "i < NUM_BINS" "x \<in> set (F i)"
    from ap [OF this] show "x + 16 \<le> h \<or> h + 16 \<le> x" using 16 by linarith
  qed
  moreover have "mapped (mem ?st1) (h + 4) 8"
    using mapped_mono [OF mapped_frame [OF m1(3) U(3)], of "h + 4" 8] 16 by simp
  moreover have "0 < h" "h + 12 \<le> 2 ^ 64" using U(5) 16 l64 by linarith+
  ultimately obtain m2 where m2: "seg_freelist_push (w64 h) ?b ?st1 = Some (?st1\<lparr>mem := m2,
      bin_head := (bin_head ?st1)[?b := w64 h],
      alloc_stat := (alloc_stat ?st1)\<lparr>freelist_len := freelist_len (alloc_stat ?st1) + 1\<rparr>\<rparr>)"
    "bins_at m2 ((bin_head ?st1)[?b := w64 h]) (F(?b := h # F ?b))" "frame (mem ?st1) m2 {h + 4 ..< h + 12}"
    using seg_push_ok [OF _ _ bN] by blast
  define st' where "st' = ?st1\<lparr>mem := m2, bin_head := (bin_head ?st1)[?b := w64 h],
      alloc_stat := (alloc_stat ?st1)\<lparr>freelist_len := freelist_len (alloc_stat ?st1) + 1\<rparr>\<rparr>"
  let ?F' = "F(?b := h # F ?b)"
  have fr2: "frame m1 m2 {h + 4 ..< h + 12}" using m2(3) by simp
  have fr: "frame (mem st) (mem st') {h ..< h + 12}"
    using frame_weaken [OF frame_trans_Un [OF m1(3) fr2], of "{h ..< h + 12}"] by (auto simp: st'_def)
  have same: "same_arena st st'" by (simp add: same_arena_def st'_def)
  have blk: "blk_at m2 h n False"
  proof -
    have "word32_at m2 h (tag n False)" by (rule word32_at_frame [OF fr2 m1(2)]) (use 16 l64 in auto)
    moreover have "word32_at (mem st) (h + n - 4) (tag n True)" using U(7) by (simp add: blk_at_def)
    then have "word32_at (mem st') (h + n - 4) (tag n True)"
      by (rule word32_at_frame [OF fr]) (use 16 l64 in auto)
    ultimately show ?thesis using U(2) by (simp add: blk_at_def st'_def)
  qed
  have "seg_inv st' (xs @ [(n, False)] @ ys) ?F'"
  proof (rule seg_inv_replace [where old = "[(n, True)]" and gs = "[]" and F = F])
    show "frame (mem st) (mem st') ({first st + szs xs ..< first st + szs xs + szs [(n, True)]} \<union> links [])"
      by (rule frame_weaken [OF fr]) (use h 16 in auto)
    show "length (bin_head st') = NUM_BINS" using m2(2) by (simp add: st'_def bins_at_def)
    show "flist (mem st') (bin_head st' ! i) (?F' i) \<and> distinct (?F' i) \<and>
        set (?F' i) = bin_hdrs i (first st) xs \<union> bin_hdrs i (first st + szs xs) [(n, False)] \<union>
          bin_hdrs i (first st + szs xs + szs [(n, True)]) ys" if i: "i < NUM_BINS" for i
    proof (intro conjI)
      show "flist (mem st') (bin_head st' ! i) (?F' i)" using m2(2) i by (simp add: bins_at_def st'_def)
      have "h \<notin> set (F i)" using ap [OF i, of h] 16 by auto
      then show "distinct (?F' i)" using seg_inv_bin(2) [OF inv i] by (cases "i = ?b") simp_all
      have "set (?F' i) = (if i = ?b then {h} else {}) \<union> set (F i)" by (cases "i = ?b") simp_all
      then show "set (?F' i) = bin_hdrs i (first st) xs \<union> bin_hdrs i (first st + szs xs) [(n, False)] \<union>
          bin_hdrs i (first st + szs xs + szs [(n, True)]) ys"
        unfolding seg_inv_bin(3) [OF inv i] bs by (auto simp: h)
    qed
    have t: "total_len ?F' = total_len F + 1" using total_len_upd [OF bN, of F "h # F ?b"] by simp
    show "freelist_len (alloc_stat st') = w64 (total_len ?F')"
      unfolding t using inv by (simp add: st'_def seg_inv_def w64_def)
    show live': "live_real_bytes (alloc_stat st') = w64 (used_sum (xs @ [(n, False)] @ ys))"
      using inv bs by (simp add: st'_def seg_inv_def w64_def)
    have "used_sum bs \<le> szs bs" by (rule used_sum_le)
    then have "used_sum (xs @ [(n, False)] @ ys) \<le> used_sum bs" "used_sum bs < 2 ^ 64" using bs facts(4) by auto
    then have "live_real_bytes (alloc_stat st') \<le> live_real_bytes (alloc_stat st)"
      using inv w64_le_iff [of "used_sum (xs @ [(n, False)] @ ys)" "used_sum bs"] unfolding live' seg_inv_def by simp
    moreover have "live_real_bytes (alloc_stat st) \<le> peak_live_real_bytes (alloc_stat st)" using inv unfolding seg_inv_def by blast
    moreover have "peak_live_real_bytes (alloc_stat st') = peak_live_real_bytes (alloc_stat st)" by (simp add: st'_def)
    ultimately show "live_real_bytes (alloc_stat st') \<le> peak_live_real_bytes (alloc_stat st')" by (metis order_trans)
  qed (use inv bs same blk h in \<open>auto simp: st'_def\<close>)
  moreover have "seg_free (w64 (h + 4)) st = Some st'"
  proof -
    have "load32 (mem st) (w64 h) = Some (tag n True)" using U(7) by (simp add: blk_at_def word32_atD)
    moreover have "ucast (w32 n) = w64 n" using 16(2) by (rule ucast_w32)
    moreover have "w32 n AND - 16 = w32 n" using tag_size [OF U(2), of False] by (simp add: tag_False)
    ultimately show ?thesis
      using U(2,9) m1(1) m2(1) by (simp add: seg_free_def Let_def st'_def tag_False)
  qed
  moreover have um: "used_blks (first st) (xs @ [(n, False)] @ ys) = used_blks (first st) bs - {(h, n)}"
    unfolding bs used_minus [OF 16(1) h] by (simp add: h)
  moreover have "keeps (mem st) (mem st') (interior True (first st) (xs @ [(n, False)] @ ys))"
  proof (rule frame_keeps [OF fr])
    fix x assume x: "x \<in> interior True (first st) (xs @ [(n, False)] @ ys)"
    then have "x < h \<or> h + n \<le> x"
      using interior_bounds [of x True "first st" xs] interior_bounds [of x True "h + n" ys] h by auto
    moreover have "x < 2 ^ 64" using interior_bounds [OF x] facts(7) bs by simp
    ultimately show "x < 2 ^ 64 \<and> x \<notin> {h ..< h + 12}" using 16 by auto
  qed
  moreover have "szs (xs @ [(n, False)] @ ys) = szs bs" using bs by simp
  ultimately show ?thesis using same by blast
qed

end
