(* ===== verification/Segregated_Objects.thy ===== *)
theory Segregated_Objects
  imports Segregated_Spec Heap_View
begin

text \<open>
  The segregated allocator meets the contract of \<open>Heap_Contract\<close>. \<open>my_calloc\<close> and \<open>my_realloc\<close>
  are compositions of \<open>my_malloc\<close>, \<open>my_free\<close> and accesses to live objects, so their laws follow
  from those of their parts.
\<close>

definition seg_ok :: "mmap_os \<Rightarrow> seg_st \<Rightarrow> bool" where
  "seg_ok os st \<longleftrightarrow> os_ok os st \<and> (\<exists>bs F. seg_inv st bs F)"

definition seg_ops :: "mmap_os \<Rightarrow> seg_st heap_ops" where
  "seg_ops os = \<lparr>op_malloc = seg_malloc os, op_calloc = seg_calloc os, op_realloc = seg_realloc os,
     op_free = seg_free, op_read = mem_read, op_write = mem_write\<rparr>"

lemma seg_okE:
  assumes "seg_ok os st"
  obtains bs F where "seg_inv st bs F" and "heap_inv st bs" and "os_ok os st"
  using assms seg_inv_heap by (auto simp: seg_ok_def)

lemma seg_okI_base: "seg_inv st bs F \<Longrightarrow> arena_base st \<noteq> 0 \<Longrightarrow> seg_ok os st"
  by (auto simp: seg_ok_def os_ok_def)

section \<open>Allocation, release and accesses\<close>

lemma seg_malloc_objs:
  assumes ok: "seg_ok os st" and sz: "unat n < 2 ^ 63"
  shows "\<exists>p st'. seg_malloc os n st = Some (p, st') \<and> seg_ok os st' \<and>
    (if p = 0 then objs st' = objs st
     else objs st p = None \<and> unat p mod 16 = 0 \<and> (\<exists>xs. unat n \<le> length xs \<and> objs st' = (objs st)(p \<mapsto> xs)))"
proof -
  obtain bs F where inv: "seg_inv st bs F" and H: "heap_inv st bs" and os: "os_ok os st" using ok by (rule seg_okE)
  obtain p st' bs' F' where M: "seg_malloc os n st = Some (p, st')" "seg_inv st' bs' F'"
    "keeps (mem st) (mem st') (interior True (first st) bs)" "arena_base st' = arena_base (arena_reserved os st)"
    "if p = 0 then bs' = bs \<and> F' = F \<and> 2 ^ 32 < 12 + szs bs + chunk (unat n) \<and>
       (\<forall>h \<in> set (F (size_to_bin (w64 (chunk (unat n))))). \<not> fits (first st) bs (chunk (unat n)) h)
     else \<exists>h k. p = w64 (h + 4) \<and> chunk (unat n) \<le> k \<and> (h, k) \<notin> used_blks (first st) bs \<and>
          used_blks (first st') bs' = insert (h, k) (used_blks (first st) bs)"
    using seg_malloc_spec [OF inv os sz] by blast
  note H' = seg_inv_heap [OF M(2)]
  have ok': "seg_ok os st'" by (rule seg_okI_base [OF M(2)]) (use M(4) arena_reserved_base [OF os] in simp)
  show ?thesis
  proof (cases "p = 0")
    case True
    then have "objs st' = objs st" using objs_same_reserved [OF H os _ M(4,3)] H' M(5) by simp
    then show ?thesis using M(1) ok' True by auto
  next
    case False
    then obtain h k where h: "p = w64 (h + 4)" "chunk (unat n) \<le> k" "(h, k) \<notin> used_blks (first st) bs"
      "used_blks (first st') bs' = insert (h, k) (used_blks (first st) bs)" using M(5) by auto
    obtain xs where xs: "objs st (w64 (h + 4)) = None" "unat (w64 (h + 4)) mod 16 = 0"
      "length xs = k - 8" "bytes_at (mem st') (h + 4) xs" "objs st' = (objs st)(w64 (h + 4) \<mapsto> xs)"
      by (rule objs_new [OF H H' M(3) h(3,4)])
    have "unat n \<le> length xs" using h(2) chunk_bounds(1) [of "unat n"] xs(3) by simp
    then have "\<exists>xs. unat n \<le> length xs \<and> objs st' = (objs st)(p \<mapsto> xs)" using xs(5) h(1) by blast
    then show ?thesis using M(1) ok' False xs(1,2) h(1) by auto
  qed
qed

lemma seg_free_objs:
  assumes ok: "seg_ok os st" and p: "objs st p = Some xs"
  shows "\<exists>st'. seg_free p st = Some st' \<and> seg_ok os st' \<and> objs st' = (objs st)(p := None)"
proof -
  obtain bs F where inv: "seg_inv st bs F" and H: "heap_inv st bs" using ok by (rule seg_okE)
  obtain h n where h: "(h, n) \<in> used_blks (first st) bs" "p = w64 (h + 4)" and b: "arena_base st \<noteq> 0"
    using H p by (rule objsE)
  obtain st' bs' F' where M: "seg_free (w64 (h + 4)) st = Some st'" "seg_inv st' bs' F'" "same_arena st st'"
    "used_blks (first st) bs' = used_blks (first st) bs - {(h, n)}"
    "keeps (mem st) (mem st') (interior True (first st) bs')"
    using seg_free_spec [OF inv h(1)] by blast
  have same: "arena_base st' = arena_base st" using M(3) by (simp add: same_arena_def)
  have ok': "seg_ok os st'" by (rule seg_okI_base [OF M(2)]) (use b same in simp)
  have "objs st' = objs st |` {p. \<exists>g j. (g, j) \<in> used_blks (first st) bs - {(h, n)} \<and> p = w64 (g + 4)}"
    by (rule objs_subset [OF H seg_inv_heap [OF M(2)]]) (use M(4,5) same in \<open>auto simp: interior_used\<close>)
  then show ?thesis using M(1) ok' h(2) objs_restrict [OF H h(1)] by simp
qed

lemma seg_inv_write:
  assumes inv: "seg_inv st bs F" and fr: "frame (mem st) m' A" and A: "A \<subseteq> interior True (first st) bs" and ne: "bs \<noteq> []"
  shows "seg_inv (st\<lparr>mem := m'\<rparr>) bs F"
proof -
  have b: "arena_base st \<noteq> 0" by (rule seg_inv_base [OF inv ne])
  note facts = heap_inv_reserved [OF seg_inv_heap [OF inv] b]
  have lay: "layout m' (first st) bs"
    by (rule layout_frame [OF fr facts(5)]) (use facts(7) A in auto)
  have "flist m' (bin_head st ! i) (F i)" if i: "i < NUM_BINS" for i
  proof (rule fpath_frame [OF fr seg_inv_bin(1) [OF inv i]])
    have "links (F i) \<subseteq> interior False (first st) bs"
      by (rule links_free_interior [OF facts(6)]) (use seg_inv_bin(3) [OF inv i] bin_hdrs_free in blast)
    then show "links (F i) \<inter> A = {}" using A used_not_free(1) [OF facts(6)] by blast
  qed
  moreover have "mapped m' (unat (arena_base st)) (2 ^ 32)" by (rule mapped_frame [OF fr facts(3)])
  ultimately show ?thesis
    using inv lay b by (auto simp: seg_inv_def heap_inv_def arena_inv_def)
qed

lemma seg_write_objs:
  assumes ok: "seg_ok os st" and p: "objs st p = Some xs" and le: "i + length ys \<le> length xs"
  shows "\<exists>st'. mem_write p i ys st = Some st' \<and> seg_ok os st' \<and> objs st' = (objs st)(p \<mapsto> overwrite i ys xs)"
proof -
  obtain bs F where inv: "seg_inv st bs F" and H: "heap_inv st bs" using ok by (rule seg_okE)
  obtain h n where h: "(h, n) \<in> used_blks (first st) bs" "p = w64 (h + 4)" "length xs = n - 8" "16 \<le> n"
    and b: "arena_base st \<noteq> 0"
    using H p by (rule objsE)
  have len: "i + length ys + 8 \<le> n" using le h(3,4) by simp
  obtain m' where m': "store_bytes (mem st) (w64 (h + 4 + i)) ys = Some m'" "bytes_at m' (h + 4 + i) ys"
    "frame (mem st) m' {h + 4 + i ..< h + 4 + i + length ys}"
    and sub: "{h + 4 + i ..< h + 4 + i + length ys} \<subseteq> interior True (first st) bs"
    using H h(1) len by (rule heap_payload_write)
  have inv': "seg_inv (st\<lparr>mem := m'\<rparr>) bs F"
    by (rule seg_inv_write [OF inv m'(3) sub]) (use h(1) in auto)
  have "mem_write p i ys st = Some (st\<lparr>mem := m'\<rparr>)" using m'(1) h(2) by (simp add: mem_write_def)
  moreover have "seg_ok os (st\<lparr>mem := m'\<rparr>)" by (rule seg_okI_base [OF inv']) (use b in simp)
  moreover have "objs (st\<lparr>mem := m'\<rparr>) = (objs st)(p \<mapsto> overwrite i ys xs)"
    unfolding h(2)
  proof (rule objs_write [OF H seg_inv_heap [OF inv'] h(1) p [unfolded h(2)] le m'(2,3)])
    fix g k assume g: "(g, k) \<in> used_blks (first st) bs"
    show "16 \<le> k \<and> g + k \<le> 2 ^ 47" using heap_used_facts(2,4) [OF H g] by (simp add: size16D)
    assume "(g, k) \<noteq> (h, n)"
    then show "g + k \<le> h \<or> h + n \<le> g" by (rule used_disjoint [OF H g h(1)])
  qed
  ultimately show ?thesis by blast
qed

lemma seg_not_null: "seg_ok os st \<Longrightarrow> objs st 0 = None"
  by (erule seg_okE) (metis objsE not_None_eq)

lemma seg_read_objs:
  "seg_ok os st \<Longrightarrow> objs st p = Some xs \<Longrightarrow> i + n \<le> length xs \<Longrightarrow> mem_read p i n st = Some (take n (drop i xs))"
  by (erule seg_okE) (rule objs_read)

section \<open>calloc and realloc\<close>

lemma seg_calloc_objs:
  assumes ok: "seg_ok os st" and pos: "0 < unat k * unat n" and lim: "unat k * unat n < 2 ^ 63"
  shows "\<exists>p st'. seg_calloc os k n st = Some (p, st') \<and> seg_ok os st' \<and>
    (if p = 0 then objs st' = objs st
     else objs st p = None \<and> unat p mod 16 = 0 \<and>
       (\<exists>xs. unat k * unat n \<le> length xs \<and> take (unat k * unat n) xs = replicate (unat k * unat n) 0 \<and>
          objs st' = (objs st)(p \<mapsto> xs)))"
proof -
  let ?t = "unat k * unat n"
  have nz: "k \<noteq> 0" "n \<noteq> 0" using pos by auto
  have ut: "unat (k * n) = ?t" using lim by (simp add: unat_word_ariths)
  have g: "\<not> SIZE_MAX div n < k" using calloc_guard [OF nz(2), of k] lim by simp
  obtain p st1 where M: "seg_malloc os (k * n) st = Some (p, st1)" "seg_ok os st1"
    "if p = 0 then objs st1 = objs st
     else objs st p = None \<and> unat p mod 16 = 0 \<and> (\<exists>xs. ?t \<le> length xs \<and> objs st1 = (objs st)(p \<mapsto> xs))"
    using seg_malloc_objs [OF ok, of "k * n"] lim unfolding ut by blast
  show ?thesis
  proof (cases "p = 0")
    case True
    then show ?thesis using M nz g by (auto simp: seg_calloc_def)
  next
    case False
    then obtain xs where xs: "?t \<le> length xs" "objs st1 = (objs st)(p \<mapsto> xs)" "objs st p = None" "unat p mod 16 = 0"
      using M(3) by auto
    have p1: "objs st1 p = Some xs" using xs(2) by simp
    obtain st2 where W: "mem_write p 0 (replicate ?t 0) st1 = Some st2" "seg_ok os st2"
      "objs st2 = (objs st1)(p \<mapsto> overwrite 0 (replicate ?t 0) xs)"
      using seg_write_objs [OF M(2) p1, of 0 "replicate ?t 0"] xs(1) by auto
    obtain m where "store_bytes (mem st1) p (replicate ?t 0) = Some m" "st2 = st1\<lparr>mem := m\<rparr>"
      using W(1) by (auto simp: mem_write_def)
    then have run: "seg_calloc os k n st = Some (p, st2)"
      using M(1) nz g False by (simp add: seg_calloc_def memset_def ut)
    let ?ys = "overwrite 0 (replicate ?t 0) xs"
    have "?t \<le> length ?ys" "take ?t ?ys = replicate ?t 0" "objs st2 = (objs st)(p \<mapsto> ?ys)"
      using xs(1,2) W(3) by (simp_all add: overwrite_def)
    then have "\<exists>xs. ?t \<le> length xs \<and> take ?t xs = replicate ?t 0 \<and> objs st2 = (objs st)(p \<mapsto> xs)" by blast
    then show ?thesis using run W(2) False xs(3,4) by auto
  qed
qed

lemma seg_realloc_objs:
  assumes ok: "seg_ok os st" and p: "objs st p = Some xs" and n: "0 < unat n" "unat n < 2 ^ 63"
  shows "\<exists>q st'. seg_realloc os p n st = Some (q, st') \<and> seg_ok os st' \<and>
    (if q = 0 then objs st' = objs st
     else objs st q = None \<and> unat q mod 16 = 0 \<and>
       (\<exists>ys. unat n \<le> length ys \<and> take (min (length xs) (unat n)) ys = take (min (length xs) (unat n)) xs \<and>
          objs st' = (objs st)(p := None, q \<mapsto> ys)))"
proof -
  have nz: "p \<noteq> 0" "n \<noteq> 0" using seg_not_null [OF ok] p n(1) by auto
  obtain q st1 where M: "seg_malloc os n st = Some (q, st1)" "seg_ok os st1"
    "if q = 0 then objs st1 = objs st
     else objs st q = None \<and> unat q mod 16 = 0 \<and> (\<exists>ys. unat n \<le> length ys \<and> objs st1 = (objs st)(q \<mapsto> ys))"
    using seg_malloc_objs [OF ok n(2)] by blast
  show ?thesis
  proof (cases "q = 0")
    case True
    then show ?thesis using M nz by (auto simp: seg_realloc_def)
  next
    case False
    then obtain ys where ys: "unat n \<le> length ys" "objs st1 = (objs st)(q \<mapsto> ys)" "objs st q = None" "unat q mod 16 = 0"
      using M(3) by auto
    have qp: "q \<noteq> p" using ys(3) p by auto
    have p1: "objs st1 p = Some xs" "objs st1 q = Some ys" using ys(2) p qp by auto
    obtain bs1 F1 where H1: "heap_inv st1 bs1" using M(2) by (rule seg_okE)
    obtain h k where h: "(h, k) \<in> used_blks (first st1) bs1" "p = w64 (h + 4)" "length xs = k - 8" "16 \<le> k"
      using H1 p1(1) by (rule objsE)
    note U = heap_used_facts [OF H1 h(1)]
    have ld: "load32 (mem st1) (p - 4) = Some (tag k True)" using U(7) h(2) by (simp add: blk_at_def word32_atD)
    have old: "(ucast ((tag k True AND NOT 15) - 8) :: u64) = w64 (length xs)"
    proof -
      have "w32 k - 8 = w32 (k - 8)" using h(4) by (simp add: w32_def)
      moreover have "ucast (w32 (k - 8)) = w64 (k - 8)" by (rule ucast_w32) (use size16D(3) [OF U(2)] in simp)
      ultimately show ?thesis using U(2) h(3) by simp
    qed
    let ?c = "min (length xs) (unat n)"
    have lx: "length xs < 2 ^ 64" using h(3) size16D(3) [OF U(2)] by simp
    have copy: "unat (if w64 (length xs) < n then w64 (length xs) else n) = ?c"
      using unat_w64_small [OF lx] by (auto simp: word_less_nat_alt)
    have rd: "mem_read p 0 ?c st1 = Some (take ?c xs)" using seg_read_objs [OF M(2) p1(1), of 0 ?c] by simp
    obtain st2 where W: "mem_write q 0 (take ?c xs) st1 = Some st2" "seg_ok os st2"
      "objs st2 = (objs st1)(q \<mapsto> overwrite 0 (take ?c xs) ys)"
    proof -
      have "0 + length (take ?c xs) \<le> length ys" using ys(1) by simp
      from seg_write_objs [OF M(2) p1(2) this] show ?thesis using that by blast
    qed
    obtain m where m: "memcpy (mem st1) q p (if w64 (length xs) < n then w64 (length xs) else n) = Some m" "st2 = st1\<lparr>mem := m\<rparr>"
      using W(1) rd unfolding mem_write_def mem_read_def memcpy_def copy by auto
    have p2: "objs st2 p = Some xs" using W(3) p1(1) qp by simp
    obtain st3 where F: "seg_free p st2 = Some st3" "seg_ok os st3" "objs st3 = (objs st2)(p := None)"
      using seg_free_objs [OF W(2) p2] by blast
    have run: "seg_realloc os p n st = Some (q, st3)"
      using M(1) nz False ld old m F(1) by (cases "w64 (length xs) < n") (simp_all add: seg_realloc_def Let_def)
    let ?zs = "overwrite 0 (take ?c xs) ys"
    have "unat n \<le> length ?zs" "take ?c ?zs = take ?c xs" using ys(1) by (simp_all add: overwrite_def)
    moreover have "objs st3 = (objs st)(p := None, q \<mapsto> ?zs)" using F(3) W(3) ys(2) qp by auto
    ultimately have "\<exists>zs. unat n \<le> length zs \<and> take ?c zs = take ?c xs \<and> objs st3 = (objs st)(p := None, q \<mapsto> zs)"
      by blast
    then show ?thesis using run F(2) False ys(3,4) by auto
  qed
qed

lemma seg_free_null: "seg_free 0 st = Some st"
  by (simp add: seg_free_def)

lemma seg_calloc_null: "unat k * unat n = 0 \<or> 2 ^ 64 \<le> unat k * unat n \<Longrightarrow> seg_calloc os k n st = Some (0, st)"
  using calloc_guard [of n k] by (auto simp: seg_calloc_def unsigned_eq_0_iff)

lemma seg_realloc_null: "seg_realloc os 0 n st = seg_malloc os n st"
  by (simp add: seg_realloc_def)

lemma seg_realloc_zero_objs:
  assumes "seg_ok os st" and "objs st p = Some xs"
  shows "\<exists>st'. seg_realloc os p 0 st = Some (0, st') \<and> seg_ok os st' \<and> objs st' = (objs st)(p := None)"
proof -
  have "p \<noteq> 0" using seg_not_null [OF assms(1)] assms(2) by auto
  then show ?thesis using seg_free_objs [OF assms] by (auto simp: seg_realloc_def)
qed

lemma seg_calloc_law:
  assumes "seg_ok os st" and "0 < unat k * unat n" and "unat k * unat n < 2 ^ 63"
  shows "\<exists>p st'. seg_calloc os k n st = Some (p, st') \<and> seg_ok os st' \<and>
    fresh_object objs st (\<lambda>xs. unat k * unat n \<le> length xs \<and>
      take (unat k * unat n) xs = replicate (unat k * unat n) 0) p st'"
  using seg_calloc_objs [OF assms] unfolding fresh_object_def conj_assoc .

lemma seg_malloc_law:
  assumes "seg_ok os st" and "unat n < 2 ^ 63"
  shows "\<exists>p st'. seg_malloc os n st = Some (p, st') \<and> seg_ok os st' \<and> fresh_object objs st (\<lambda>xs. unat n \<le> length xs) p st'"
  using seg_malloc_objs [OF assms] unfolding fresh_object_def .

section \<open>The interpretation\<close>

interpretation seg: allocator "seg_ok os" objs "2 ^ 63" "seg_ops os" for os
proof
  fix st :: seg_st and p n :: u64 and xs
  assume "seg_ok os st" "objs st p = Some xs" "0 < unat n" "unat n < 2 ^ 63"
  then obtain q st' where "seg_realloc os p n st = Some (q, st')" "seg_ok os st'"
    "if q = 0 then objs st' = objs st
     else objs st q = None \<and> unat q mod 16 = 0 \<and>
       (\<exists>ys. unat n \<le> length ys \<and> take (min (length xs) (unat n)) ys = take (min (length xs) (unat n)) xs \<and>
          objs st' = (objs st)(p := None, q \<mapsto> ys))"
    using seg_realloc_objs [of os st p xs n] by blast
  then show "\<exists>q st'. op_realloc (seg_ops os) p n st = Some (q, st') \<and> seg_ok os st' \<and>
        (if q = 0 then objs st' = objs st
         else (q = p \<or> objs st q = None) \<and> unat q mod 16 = 0 \<and>
           (\<exists>ys. unat n \<le> length ys \<and> take (min (length xs) (unat n)) ys = take (min (length xs) (unat n)) xs \<and>
              objs st' = (objs st)(p := None, q \<mapsto> ys)))"
    by (intro exI [of _ q] exI [of _ st']) (simp add: seg_ops_def split: if_splits)
qed (simp_all add: seg_ops_def seg_not_null seg_malloc_law seg_calloc_law seg_free_objs seg_read_objs
    seg_write_objs seg_free_null seg_calloc_null seg_realloc_null seg_realloc_zero_objs)

end
