(* ===== verification/Segregated_Check.thy ===== *)
theory Segregated_Check
  imports Segregated_Inv Heap_Check
begin

text \<open>
  \<open>check_invariant\<close> of the segregated allocator. Besides the checks of the first-fit allocator it
  adds up the used blocks and compares the sum with \<open>live_real_bytes\<close>, and it requires every
  block of a bin to belong to the size class of the bin.
\<close>

partial_function (option) seg_check_blocks ::
    "mem \<Rightarrow> ptr \<Rightarrow> ptr \<Rightarrow> ptr list \<Rightarrow> u64 \<Rightarrow> (check_error + ptr list \<times> u64) option" where
  "seg_check_blocks m hi p linear_free_list used_bytes =
     (if p < hi then do {
        t \<leftarrow> load32 m p;
        let chunk = (ucast (t AND NOT 15) :: u64);
        if \<not> chunk mod 16 = 0 then Some (Inl Bad_alignment)
        else if \<not> chunk \<ge> 16 then Some (Inl Below_minimum)
        else if \<not> p + chunk \<le> hi then Some (Inl Beyond_heap)
        else do {
          f \<leftarrow> load32 m (p + chunk - 4);
          if \<not> ucast (f AND NOT 15) = chunk then Some (Inl Footer_mismatch)
          else if t AND 1 = 0 then
            if \<not> length linear_free_list < MAX_NODES then Some (Inl Collected_too_many)
            else seg_check_blocks m hi (p + chunk) (linear_free_list @ [p]) used_bytes
          else seg_check_blocks m hi (p + chunk) linear_free_list (used_bytes + chunk) } }
      else Some (Inr (linear_free_list, used_bytes)))"

partial_function (option) seg_check_list ::
    "mem \<Rightarrow> ptr \<Rightarrow> ptr \<Rightarrow> ptr list \<Rightarrow> nat \<Rightarrow> ptr \<Rightarrow> nat \<Rightarrow> (check_error + nat) option" where
  "seg_check_list m lo hi linear_free_list bin p freelist_count =
     (if p = 0 then Some (Inr freelist_count)
      else do {
        t \<leftarrow> load32 m p;
        if \<not> t AND 1 = 0 then Some (Inl Not_free)
        else if \<not> (p \<ge> lo \<and> p \<le> hi) then Some (Inl Outside_heap)
        else if \<not> freelist_count < MAX_NODES then Some (Inl List_too_long)
        else if \<not> size_to_bin (ucast (t AND NOT 15)) = bin then Some (Inl Wrong_bin)
        else if \<not> p \<in> set linear_free_list then Some (Inl Not_collected)
        else do {
          q \<leftarrow> load64 m (p + 4);
          seg_check_list m lo hi linear_free_list bin q (freelist_count + 1) } })"

fun seg_check_bins ::
    "mem \<Rightarrow> ptr \<Rightarrow> ptr \<Rightarrow> ptr list \<Rightarrow> ptr list \<Rightarrow> nat list \<Rightarrow> nat \<Rightarrow> (check_error + nat) option" where
  "seg_check_bins m lo hi linear_free_list heads [] freelist_count = Some (Inr freelist_count)"
| "seg_check_bins m lo hi linear_free_list heads (bin # bins) freelist_count = do {
     r \<leftarrow> seg_check_list m lo hi linear_free_list bin (heads ! bin) freelist_count;
     case r of
       Inl e \<Rightarrow> Some (Inl e)
     | Inr freelist_count \<Rightarrow> seg_check_bins m lo hi linear_free_list heads bins freelist_count }"

definition seg_check_invariant :: "seg_st \<Rightarrow> (check_error + unit) option" where
  "seg_check_invariant st = do {
     r \<leftarrow> seg_check_blocks (mem st) (heap_hi st) (heap_lo st) [] 0;
     case r of
       Inl e \<Rightarrow> Some (Inl e)
     | Inr (linear_free_list, used_bytes) \<Rightarrow>
         if \<not> used_bytes = live_real_bytes (alloc_stat st) then Some (Inl Live_bytes_mismatch)
         else do {
           c \<leftarrow> seg_check_bins (mem st) (heap_lo st) (heap_hi st) linear_free_list (bin_head st) [0..<11] 0;
           case c of
             Inl e \<Rightarrow> Some (Inl e)
           | Inr freelist_count \<Rightarrow>
               if \<not> length linear_free_list = freelist_count then Some (Inl Count_mismatch)
               else if \<not> w64 freelist_count = freelist_len (alloc_stat st) then Some (Inl Length_mismatch)
               else Some (Inr ()) } }"

section \<open>The check accepts the invariant\<close>

lemma seg_check_blocks_layout:
  assumes "layout m a bs" and "a + szs bs < 2 ^ 63" and "length l + length (frees a bs) \<le> MAX_NODES"
  shows "seg_check_blocks m (w64 (a + szs bs)) (w64 a) l s = Some (Inr (l @ map w64 (frees a bs), s + w64 (used_sum bs)))"
  using assms
proof (induction bs arbitrary: a l s)
  case Nil
  then show ?case by (subst seg_check_blocks.simps) simp
next
  case (Cons b bs)
  obtain n u where b: "b = (n, u)" by (cases b)
  have blk: "blk_at m a n u" and lay: "layout m (a + n) bs" using Cons.prems(1) b by simp_all
  have n: "size16 n" using blk by (rule blk_at_size16)
  have 16: "16 \<le> n" "n < 2 ^ 32" "n mod 16 = 0" using n by (auto dest: size16D)
  have l64: "a + n + szs bs < 2 ^ 63" using Cons.prems(2) b by simp
  obtain v where v: "word32_at m (a + n - 4) (tag n v)" using blk by (rule blk_at_footer)
  have ld: "load32 m (w64 a) = Some (tag n u)" "load32 m (w64 (a + n - 4)) = Some (tag n v)"
    using blk v by (simp_all add: blk_at_def word32_atD)
  have e: "w64 a + w64 n - 4 = w64 (a + n - 4)" using 16 by simp
  have cmp: "w64 a < w64 (a + n + szs bs)" "w64 (a + n) \<le> w64 (a + n + szs bs)" "16 \<le> w64 n" "w64 n mod 16 = 0"
    using l64 16 w64_less_iff [of a "a + n + szs bs"] w64_le_iff [of "a + n" "a + n + szs bs"] w64_le_iff [of 16 n]
      unat_w64_small [of n]
    by (simp_all add: w64_numeral word_unat_eq_iff unat_mod)
  have step: "seg_check_blocks m (w64 (a + szs (b # bs))) (w64 a) l s =
      seg_check_blocks m (w64 (a + n + szs bs)) (w64 (a + n)) (l @ map w64 (if u then [] else [a])) (s + w64 (if u then n else 0))"
    using cmp ld e 16 n b Cons.prems(3)
    by (subst seg_check_blocks.simps) (auto simp: ucast_w32 Let_def add.assoc)
  moreover have "seg_check_blocks m (w64 (a + n + szs bs)) (w64 (a + n)) (l @ map w64 (if u then [] else [a])) (s + w64 (if u then n else 0)) =
      Some (Inr ((l @ map w64 (if u then [] else [a])) @ map w64 (frees (a + n) bs), s + w64 (if u then n else 0) + w64 (used_sum bs)))"
    by (rule Cons.IH [OF lay l64]) (use Cons.prems(3) b in \<open>auto split: if_splits\<close>)
  ultimately show ?case using b by (simp add: add.assoc)
qed

lemma seg_check_list_flist:
  assumes "flist m p as" and "k + length as \<le> MAX_NODES"
    and "\<And>a. a \<in> set as \<Longrightarrow> w64 a \<in> set l \<and> lo \<le> w64 a \<and> w64 a \<le> hi \<and>
      (\<exists>n. size16 n \<and> word32_at m a (tag n False) \<and> size_to_bin (w64 n) = i)"
  shows "seg_check_list m lo hi l i p k = Some (Inr (k + length as))"
  using assms
proof (induction as arbitrary: p k)
  case Nil
  then show ?case by (subst seg_check_list.simps) simp
next
  case (Cons a as)
  obtain r where r: "p = w64 a" "0 < a" "a + 12 \<le> 2 ^ 64" "word64_at m (a + 4) r" "flist m r as"
    using Cons.prems(1) by auto
  obtain n where n: "w64 a \<in> set l" "lo \<le> w64 a" "w64 a \<le> hi" "size16 n" "word32_at m a (tag n False)" "size_to_bin (w64 n) = i"
    using Cons.prems(3) [of a] by auto
  have "p \<noteq> 0" using r by (simp add: w64_eq_0_iff)
  moreover have "seg_check_list m lo hi l i r (k + 1) = Some (Inr (k + 1 + length as))"
    by (rule Cons.IH [OF r(5)]) (use Cons.prems in auto)
  moreover have "load64 m (w64 a + 4) = Some r" using r(4) by (simp add: word64_at_def)
  moreover have "ucast (w32 n) = w64 n" by (rule ucast_w32 [OF size16D(3) [OF n(4)]])
  ultimately show ?case
    using r n Cons.prems(2) by (subst seg_check_list.simps) (simp add: word32_atD)
qed

lemma seg_check_bins_ok:
  assumes "\<And>i k. i \<in> set is \<Longrightarrow> k + length (F i) \<le> MAX_NODES \<Longrightarrow>
      seg_check_list m lo hi l i (heads ! i) k = Some (Inr (k + length (F i)))"
    and "c + sum_list (map (\<lambda>i. length (F i)) is) \<le> MAX_NODES"
  shows "seg_check_bins m lo hi l heads is c = Some (Inr (c + sum_list (map (\<lambda>i. length (F i)) is)))"
  using assms
proof (induction "is" arbitrary: c)
  case (Cons i "is")
  have "seg_check_list m lo hi l i (heads ! i) c = Some (Inr (c + length (F i)))"
    using Cons.prems by simp
  moreover have "seg_check_bins m lo hi l heads is (c + length (F i)) = Some (Inr (c + length (F i) + sum_list (map (\<lambda>i. length (F i)) is)))"
    by (rule Cons.IH) (use Cons.prems in auto)
  ultimately show ?case by (simp add: add.assoc)
qed simp

lemma total_len_list: "sum_list (map (\<lambda>i. length (F i)) [0..<11]) = total_len F"
  by (simp only: total_len_def NUM_BINS_def interv_sum_list_conv_sum_set_nat atLeast0LessThan set_upt)

lemma total_len_frees:
  assumes inv: "seg_inv st bs F" and ok: "sizes_ok bs"
  shows "total_len F = length (frees (first st) bs)"
proof -
  have "length (F i) = card (bin_hdrs i (first st) bs)" if "i < NUM_BINS" for i
    using distinct_card [OF seg_inv_bin(2) [OF inv that]] seg_inv_bin(3) [OF inv that] by simp
  then have "total_len F = (\<Sum>i < NUM_BINS. card (bin_hdrs i (first st) bs))" by (simp add: total_len_def)
  also have "\<dots> = card (\<Union>i < NUM_BINS. bin_hdrs i (first st) bs)"
  proof (rule card_UN_disjoint [symmetric])
    show "\<forall>i \<in> {..< NUM_BINS}. finite (bin_hdrs i (first st) bs)"
      using seg_inv_bin(3) [OF inv] by (metis finite_set lessThan_iff)
    show "\<forall>i \<in> {..< NUM_BINS}. \<forall>j \<in> {..< NUM_BINS}. i \<noteq> j \<longrightarrow> bin_hdrs i (first st) bs \<inter> bin_hdrs j (first st) bs = {}"
      using bin_hdrs_disjoint [OF ok] by blast
  qed simp
  also have "(\<Union>i < NUM_BINS. bin_hdrs i (first st) bs) = set (frees (first st) bs)"
  proof
    show "(\<Union>i < NUM_BINS. bin_hdrs i (first st) bs) \<subseteq> set (frees (first st) bs)"
      unfolding set_frees using bin_hdrs_free by (rule UN_least)
    show "set (frees (first st) bs) \<subseteq> (\<Union>i < NUM_BINS. bin_hdrs i (first st) bs)"
      unfolding set_frees using free_hdrs_bin by fastforce
  qed
  finally show ?thesis using distinct_card [OF distinct_frees [OF ok]] by simp
qed

lemma seg_check_invariant_ok:
  assumes inv: "seg_inv st bs F" and len: "total_len F \<le> MAX_NODES" and hi: "bs = [] \<longrightarrow> heap_hi st = 0"
  shows "seg_check_invariant st = Some (Inr ())"
proof -
  let ?l = "map w64 (frees (first st) bs)"
  have hp: "heap_inv st bs" by (rule seg_inv_heap [OF inv])
  have ok: "sizes_ok bs" using hp by (auto simp: heap_inv_def dest: layout_sizes_ok)
  have cnt: "length ?l = total_len F" using total_len_frees [OF inv ok] by simp
  have blocks: "seg_check_blocks (mem st) (heap_hi st) (heap_lo st) [] 0 = Some (Inr (?l, w64 (used_sum bs)))"
  proof (cases "bs = []")
    case True
    then have "heap_lo st = 0" using hp by (auto simp: heap_inv_def arena_inv_def split: if_splits)
    then show ?thesis using True hi by (simp add: seg_check_blocks.simps)
  next
    case False
    have b: "arena_base st \<noteq> 0" by (rule seg_inv_base [OF inv False])
    note facts = heap_inv_reserved [OF hp b]
    have "seg_check_blocks (mem st) (w64 (first st + szs bs)) (w64 (first st)) [] 0 = Some (Inr ([] @ ?l, 0 + w64 (used_sum bs)))"
      by (rule seg_check_blocks_layout [OF facts(5)]) (use facts(7) len cnt in simp_all)
    then show ?thesis using hp b False by (simp add: heap_inv_def arena_inv_def)
  qed
  have list: "seg_check_list (mem st) (heap_lo st) (heap_hi st) ?l i (bin_head st ! i) k = Some (Inr (k + length (F i)))"
    if i: "i \<in> set [0..<11]" and k: "k + length (F i) \<le> MAX_NODES" for i k
  proof (rule seg_check_list_flist [OF _ k])
    have i: "i < NUM_BINS" using i by (simp add: NUM_BINS_def)
    show "flist (mem st) (bin_head st ! i) (F i)" by (rule seg_inv_bin(1) [OF inv i])
    fix a assume "a \<in> set (F i)"
    then obtain n where n: "(a, n, False) \<in> set (hdrs (first st) bs)" "size_to_bin (w64 n) = i"
      using seg_inv_bin(3) [OF inv i] by (auto simp: bin_hdrs_def)
    then have ne: "bs \<noteq> []" by auto
    have b: "arena_base st \<noteq> 0" by (rule seg_inv_base [OF inv ne])
    note facts = heap_inv_reserved [OF hp b] and B = heap_inv_blk [OF hp b n(1)]
    have "a \<in> set (frees (first st) bs)" using n(1) unfolding set_frees by (auto simp: free_hdrs_def)
    moreover have "heap_lo st \<le> w64 a" "w64 a \<le> heap_hi st"
      using hp b ne B(6,7) facts(7) w64_le_iff [of "first st" a] w64_le_iff [of a "first st + szs bs"]
      by (simp_all add: heap_inv_def arena_inv_def)
    ultimately show "w64 a \<in> set ?l \<and> heap_lo st \<le> w64 a \<and> w64 a \<le> heap_hi st \<and>
        (\<exists>n. size16 n \<and> word32_at (mem st) a (tag n False) \<and> size_to_bin (w64 n) = i)"
      using B(1,2) n(2) by (auto simp: blk_at_def)
  qed
  have "seg_check_bins (mem st) (heap_lo st) (heap_hi st) ?l (bin_head st) [0..<11] 0 = Some (Inr (0 + total_len F))"
    unfolding total_len_list [symmetric]
    by (rule seg_check_bins_ok [OF list]) (use len total_len_list [of F] in simp_all)
  then show ?thesis
    using blocks cnt inv by (simp add: seg_check_invariant_def seg_inv_def)
qed

lemma total_len_bound:
  assumes inv: "seg_inv st bs F"
  shows "total_len F < 2 ^ 64"
proof -
  have hp: "heap_inv st bs" by (rule seg_inv_heap [OF inv])
  have ok: "sizes_ok bs" using hp by (auto simp: heap_inv_def dest: layout_sizes_ok)
  have "szs bs \<le> 2 ^ 32" using hp by (auto simp: heap_inv_def arena_inv_def split: if_splits)
  then show ?thesis using total_len_frees [OF inv ok] length_frees_le [OF ok, of "first st"] by simp
qed

lemma seg_check_reached:
  assumes inv: "seg_inv st bs F" and lo: "heap_lo st \<noteq> 0 \<or> heap_hi st = 0" and len: "unat (freelist_len (alloc_stat st)) \<le> MAX_NODES"
  shows "seg_check_invariant st = Some (Inr ())"
proof (rule seg_check_invariant_ok [OF inv])
  show "total_len F \<le> MAX_NODES" using len inv unat_w64_small [OF total_len_bound [OF inv]] by (simp add: seg_inv_def)
  show "bs = [] \<longrightarrow> heap_hi st = 0"
    using lo seg_inv_heap [OF inv] by (auto simp: heap_inv_def arena_inv_def split: if_splits)
qed

end
