(* ===== verification/Stats.thy ===== *)
theory Stats
  imports Segregated_Check Segregated_Objects Allocator_Inv
begin

text \<open>
  The statistics of the allocators: the size classes of the benchmark histogram, the effect of a
  reset, and the high-water mark of the live bytes.
\<close>

section \<open>Histogram classes\<close>

lemma bit_imp_ge: "bit (x :: u64) n \<Longrightarrow> 2 ^ n \<le> unat x"
proof -
  assume "bit x n"
  then have "bit (unat x) n" by (simp add: bit_unsigned_iff)
  then have "odd (unat x div 2 ^ n)" by (simp add: bit_iff_odd)
  then have "unat x div 2 ^ n \<noteq> 0" by (intro notI) simp
  then show ?thesis by (simp add: div_eq_0_iff)
qed

lemma no_bits_imp_less:
  assumes "\<And>i. n \<le> i \<Longrightarrow> \<not> bit (x :: u64) i"
  shows "unat x < 2 ^ n"
proof -
  have "take_bit n (unat x) = unat x"
    by (rule bit_eqI) (use assms in \<open>auto simp: bit_take_bit_iff bit_unsigned_iff not_less [symmetric]\<close>)
  then show ?thesis by (metis take_bit_nat_less_exp)
qed

lemma clzll_bounds:
  assumes "x \<noteq> 0"
  shows "clzll x < 64" and "2 ^ (63 - clzll x) \<le> unat x" and "unat x < 2 ^ (64 - clzll x)"
proof -
  let ?P = "\<lambda>i. \<not> bit x (63 - i)" and ?k = "clzll x"
  have le: "?k \<le> 64" using length_takeWhile_le [of ?P "[0..<64]"] by (simp add: clzll_def)
  have pre: "\<not> bit x (63 - i)" if "i < ?k" for i
  proof -
    have "takeWhile ?P [0..<64] ! i \<in> set (takeWhile ?P [0..<64])" using that by (simp add: clzll_def)
    then have "?P (takeWhile ?P [0..<64] ! i)" using set_takeWhileD by fastforce
    moreover have "takeWhile ?P [0..<64] ! i = i"
      using takeWhile_nth [of i ?P "[0..<64]"] that le by (simp add: clzll_def)
    ultimately show ?thesis by simp
  qed
  have above: "\<not> bit x j" if "64 - ?k \<le> j" for j
  proof (cases "j < 64")
    case True
    then have "63 - j < ?k" "63 - (63 - j) = j" using that le by auto
    then show ?thesis using pre [of "63 - j"] by simp
  next
    case False
    then show ?thesis using bit_imp_le_length [of x j] by auto
  qed
  then show "unat x < 2 ^ (64 - ?k)" by (rule no_bits_imp_less)
  show lt: "?k < 64"
  proof (rule ccontr)
    assume "\<not> ?k < 64"
    then have "unat x < 2 ^ 0" using above by (intro no_bits_imp_less) simp
    then show False using assms by (simp add: unat_eq_zero)
  qed
  then have "\<not> ?P ([0..<64] ! ?k)"
    using nth_length_takeWhile [of ?P "[0..<64]"] by (simp add: clzll_def)
  then have "bit x (63 - ?k)" using lt by simp
  then show "2 ^ (63 - ?k) \<le> unat x" by (rule bit_imp_ge)
qed

lemma unat_or_1: "unat ((n :: u64) OR 1) = (if odd (unat n) then unat n else unat n + 1)"
proof -
  have "unat (n OR 1) = unat n OR 1" by (simp add: unsigned_or_eq)
  also have "\<dots> = (if odd (unat n) then unat n else unat n + 1)" by (simp add: or_Suc_0_eq)
  finally show ?thesis .
qed

lemma size_bucket_bounds:
  assumes "n \<noteq> 0"
  shows "2 ^ size_bucket n \<le> unat n" and "unat n < 2 ^ (size_bucket n + 1)" and "size_bucket n < 64"
proof -
  let ?x = "n OR 1"
  have u: "unat n \<le> unat ?x" "unat ?x \<le> unat n + 1" "even (unat n) \<longleftrightarrow> unat ?x = unat n + 1"
    by (auto simp: unat_or_1)
  have nz: "?x \<noteq> 0" using u(1) assms by (metis le_zero_eq unat_0 unat_eq_zero)
  note C = clzll_bounds [OF nz]
  have e: "64 - clzll ?x = size_bucket n + 1" using C(1) by (simp add: size_bucket_def)
  show "size_bucket n < 64" by (simp add: size_bucket_def)
  show "unat n < 2 ^ (size_bucket n + 1)" using C(3) u(1) unfolding e by linarith
  show "2 ^ size_bucket n \<le> unat n"
  proof (cases "even (unat n)")
    case True
    have pos: "0 < unat n" using assms by (simp add: unat_gt_0)
    have "2 ^ size_bucket n \<le> unat n + 1" using C(2) u(3) True by (simp add: size_bucket_def)
    moreover have "2 ^ size_bucket n \<noteq> unat n + 1"
    proof
      assume eq: "2 ^ size_bucket n = unat n + 1"
      then have "odd ((2 :: nat) ^ size_bucket n)" using True by simp
      then have "size_bucket n = 0" by simp
      then show False using eq pos by simp
    qed
    ultimately show ?thesis by linarith
  next
    case False
    then have "unat ?x = unat n" by (simp add: unat_or_1)
    then show ?thesis using C(2) by (simp add: size_bucket_def)
  qed
qed

lemma size_bucket_0: "size_bucket 0 = 0"
proof -
  note C = clzll_bounds [of 1]
  have "clzll 1 = 63"
  proof (rule ccontr)
    assume "clzll 1 \<noteq> 63"
    then have "1 \<le> 63 - clzll 1" using C(1) by simp
    then have "(2 :: nat) ^ 1 \<le> 2 ^ (63 - clzll 1)" by (intro power_increasing) simp_all
    then show False using C(2) by simp
  qed
  then show ?thesis by (simp add: size_bucket_def)
qed

section \<open>Reset\<close>

lemma ff_inv_reset: "ff_inv (alloc_stat_reset st) bs fs \<longleftrightarrow> ff_inv st bs fs"
  by (simp add: ff_inv_def heap_inv_def arena_inv_def alloc_stat_reset_def Let_def)

lemma seg_inv_reset: "seg_inv st bs F \<Longrightarrow> seg_inv (seg_stat_reset st) bs F"
  by (auto simp: seg_inv_def heap_inv_def arena_inv_def seg_stat_reset_def Let_def split: if_splits)

lemma seg_stat_exact:
  assumes inv: "seg_inv st bs F"
  shows "unat (live_real_bytes (seg_stat_get st)) = used_sum bs"
    and "unat (freelist_len (seg_stat_get st)) = total_len F"
    and "unat (arena_used_bytes (seg_stat_get st)) = (if bs = [] then 0 else 12 + szs bs)"
    and "used_sum bs \<le> unat (peak_live_real_bytes (seg_stat_get st))"
proof -
  have hp: "heap_inv st bs" by (rule seg_inv_heap [OF inv])
  have lim: "szs bs \<le> 2 ^ 32" using hp by (auto simp: heap_inv_def arena_inv_def split: if_splits)
  have us: "used_sum bs < 2 ^ 64" using used_sum_le [of bs] lim by simp
  have tl: "total_len F < 2 ^ 64" by (rule total_len_bound [OF inv])
  have lv: "live_real_bytes (alloc_stat st) = w64 (used_sum bs)" "freelist_len (alloc_stat st) = w64 (total_len F)"
    "live_real_bytes (alloc_stat st) \<le> peak_live_real_bytes (alloc_stat st)"
    using inv unfolding seg_inv_def by blast+
  show "unat (live_real_bytes (seg_stat_get st)) = used_sum bs" "unat (freelist_len (seg_stat_get st)) = total_len F"
    using lv(1,2) unat_w64_small [OF us] unat_w64_small [OF tl] by (simp_all add: seg_stat_get_def)
  show "used_sum bs \<le> unat (peak_live_real_bytes (seg_stat_get st))"
    using lv(1,3) unat_w64_small [OF us] by (simp add: seg_stat_get_def word_le_nat_alt)
  show "unat (arena_used_bytes (seg_stat_get st)) = (if bs = [] then 0 else 12 + szs bs)"
  proof (cases "bs = []")
    case True
    then show ?thesis using hp by (auto simp: seg_stat_get_def heap_inv_def arena_inv_def split: if_splits)
  next
    case False
    have b: "arena_base st \<noteq> 0" by (rule seg_inv_base [OF inv False])
    have c: "arena_cur st = w64 (unat (arena_base st) + (12 + szs bs))"
      using hp b False by (simp add: heap_inv_def arena_inv_def add.assoc)
    have "arena_cur st - arena_base st = w64 (12 + szs bs)"
      unfolding c using w64_minus(2) [of "unat (arena_base st)" "unat (arena_base st) + (12 + szs bs)"] by simp
    moreover have "unat (w64 (12 + szs bs)) = 12 + szs bs" by (rule unat_w64_small) (use lim in simp)
    ultimately show ?thesis using b False by (simp add: seg_stat_get_def)
  qed
qed

section \<open>The high-water mark\<close>

text \<open>
  The highest number of live bytes a call passes through. A reallocation that moves an object holds both blocks
  for a while: its mark is taken after its allocation.
\<close>

abbreviation live_bytes :: "seg_st \<Rightarrow> u64" where
  "live_bytes st \<equiv> live_real_bytes (alloc_stat st)"

abbreviation peak_bytes :: "seg_st \<Rightarrow> u64" where
  "peak_bytes st \<equiv> peak_live_real_bytes (alloc_stat st)"

definition call_mark :: "mmap_os \<Rightarrow> call \<Rightarrow> seg_st \<Rightarrow> seg_st \<Rightarrow> nat" where
  "call_mark os c st st' =
     (case c of
        Realloc p n \<Rightarrow>
          if p = 0 \<or> n = 0 then unat (live_bytes st')
          else (case seg_malloc os n st of None \<Rightarrow> 0 | Some (q, st1) \<Rightarrow> unat (live_bytes st1))
      | _ \<Rightarrow> unat (live_bytes st'))"

fun high_mark :: "mmap_os \<Rightarrow> call list \<Rightarrow> seg_st \<Rightarrow> nat" where
  "high_mark os [] st = 0"
| "high_mark os (c # cs) st =
     (case do_call (seg_ops os) c st of
        None \<Rightarrow> 0
      | Some st' \<Rightarrow> max (call_mark os c st st') (high_mark os cs st'))"

lemma seg_write_link_stat: "seg_write_link st link q = Some st' \<Longrightarrow> alloc_stat st' = alloc_stat st"
  by (cases link) auto

lemma seg_push_stat:
  "seg_freelist_push h b st = Some st' \<Longrightarrow> live_bytes st' = live_bytes st \<and> peak_bytes st' = peak_bytes st"
  by (auto simp: seg_freelist_push_def bind_eq_Some_conv)

lemma seg_split_peak:
  "seg_malloc_split need link h k st = Some (p, st') \<Longrightarrow> peak_bytes st' = max (peak_bytes st) (live_bytes st')"
  by (auto simp: seg_malloc_split_def live_add_eq bind_eq_Some_conv Let_def max.commute
      dest!: seg_write_link_stat seg_push_stat)

lemma seg_whole_peak:
  "seg_malloc_whole link h k st = Some (p, st') \<Longrightarrow> peak_bytes st' = max (peak_bytes st) (live_bytes st')"
  by (auto simp: seg_malloc_whole_def live_add_eq bind_eq_Some_conv Let_def max.commute dest!: seg_write_link_stat)

lemma seg_loop_peak:
  assumes "seg_malloc_loop need link st = Some (r, st')" and "live_bytes st \<le> peak_bytes st"
  shows "peak_bytes st' = max (peak_bytes st) (live_bytes st') \<and> (r = None \<longrightarrow> live_bytes st' = live_bytes st \<and> peak_bytes st' = peak_bytes st)"
proof -
  have "live_bytes st \<le> peak_bytes st \<longrightarrow> peak_bytes (snd z) = max (peak_bytes st) (live_bytes (snd z)) \<and>
    (fst z = None \<longrightarrow> live_bytes (snd z) = live_bytes st \<and> peak_bytes (snd z) = peak_bytes st)"
    if "seg_malloc_loop need link st = Some z" for z
  proof (rule seg_malloc_loop.raw_induct [OF _ that], goal_cases)
    case (1 loop need link st z)
    then obtain h where h: "seg_read_link st link = Some h" by (auto simp: bind_eq_Some_conv)
    show ?case
    proof (cases "h = 0")
      case True
      then show ?thesis using 1(2) h by (auto simp: max_def)
    next
      case False
      then obtain t where t: "load32 (mem st) h = Some t" using 1(2) h by (auto simp: bind_eq_Some_conv Let_def)
      let ?st = "upd_stat (\<lambda>s. s\<lparr>scan_steps := scan_steps s + 1\<rparr>) st"
      show ?thesis
        using 1(2) h False t 1(1) [of need "SNext h" ?st]
        by (auto simp: Let_def split: if_splits dest!: seg_split_peak seg_whole_peak)
    qed
  qed
  from this [OF assms(1)] show ?thesis using assms(2) by simp
qed

lemma seg_grow_peak:
  assumes "seg_malloc_grow os need st = Some (p, st')" and "live_bytes st \<le> peak_bytes st"
  shows "peak_bytes st' = max (peak_bytes st) (live_bytes st')"
proof -
  have e: "alloc_stat (snd (arena_extend os n s)) = alloc_stat s" for n and s :: seg_st
    by (auto simp: arena_extend_def Let_def)
  obtain c s1 p2 s2 hi s3 where x: "arena_extend os 0 st = (c, s1)"
    "arena_extend os (need + ((12 - c) AND 15)) s1 = (p2, s2)" "arena_extend os 0 s2 = (hi, s3)"
    by (metis surj_pair)
  have s3: "alloc_stat s3 = alloc_stat st"
    using e [of 0 st] e [of "need + ((12 - c) AND 15)" s1] e [of 0 s2] x by simp
  show ?thesis
    using assms s3 by (auto simp: seg_malloc_grow_def x live_add_eq bind_eq_Some_conv Let_def max.commute max_def split: if_splits)
qed

lemma seg_malloc_peak:
  assumes "seg_malloc os n st = Some (p, st')" and "live_bytes st \<le> peak_bytes st"
  shows "peak_bytes st' = max (peak_bytes st) (live_bytes st')"
proof -
  obtain r s1 where l: "seg_malloc_loop ((n + 4 + 4 + 15) AND NOT 15) (SHead (size_to_bin ((n + 4 + 4 + 15) AND NOT 15))) st = Some (r, s1)"
    using assms(1) by (auto simp: seg_malloc_def bind_eq_Some_conv Let_def)
  note P = seg_loop_peak [OF l assms(2)]
  show ?thesis
  proof (cases r)
    case None
    then have "seg_malloc_grow os ((n + 4 + 4 + 15) AND NOT 15) s1 = Some (p, st')"
      using assms(1) l by (simp add: seg_malloc_def Let_def)
    from seg_grow_peak [OF this] show ?thesis using P None assms(2) by simp
  qed (use assms(1) l P in \<open>simp add: seg_malloc_def Let_def\<close>)
qed

lemma seg_free_peak: "seg_free p st = Some st' \<Longrightarrow> peak_bytes st' = peak_bytes st"
  by (auto simp: seg_free_def bind_eq_Some_conv Let_def split: if_splits dest!: seg_push_stat)

lemma seg_calloc_peak:
  assumes "seg_calloc os k n st = Some (p, st')" and "live_bytes st \<le> peak_bytes st"
  shows "peak_bytes st' = max (peak_bytes st) (live_bytes st')"
  using assms by (auto simp: seg_calloc_def bind_eq_Some_conv Let_def max_def split: if_splits dest!: seg_malloc_peak)

lemma seg_realloc_peak:
  assumes "seg_realloc os p n st = Some (q, st')" and "live_bytes st \<le> peak_bytes st" and "live_bytes st' \<le> peak_bytes st'"
  shows "unat (peak_bytes st') = max (unat (peak_bytes st)) (call_mark os (Realloc p n) st st')"
proof -
  consider (null) "p = 0" | (zero) "p \<noteq> 0" "n = 0" | (move) "p \<noteq> 0" "n \<noteq> 0" by blast
  then show ?thesis
  proof cases
    case null
    then show ?thesis using assms(1) seg_malloc_peak [OF _ assms(2)]
      by (auto simp: seg_realloc_def call_mark_def max_def word_le_nat_alt)
  next
    case zero
    then have "seg_free p st = Some st'" using assms(1) by (auto simp: seg_realloc_def bind_eq_Some_conv)
    from seg_free_peak [OF this] show ?thesis using zero assms(3) by (simp add: call_mark_def max_def word_le_nat_alt)
  next
    case move
    then obtain q1 st1 where m: "seg_malloc os n st = Some (q1, st1)"
      using assms(1) by (auto simp: seg_realloc_def bind_eq_Some_conv)
    have "peak_bytes st' = peak_bytes st1"
      using assms(1) move m by (auto simp: seg_realloc_def bind_eq_Some_conv Let_def split: if_splits dest!: seg_free_peak)
    then show ?thesis using seg_malloc_peak [OF m assms(2)] move m by (simp add: call_mark_def max_def word_le_nat_alt)
  qed
qed

lemma seg_ok_peak: "seg_ok os st \<Longrightarrow> live_bytes st \<le> peak_bytes st"
  by (auto simp: seg_ok_def seg_inv_def)

lemma seg_step_peak:
  assumes step: "heap_step (2 ^ 63) (seg_ops os) objs c st st'" and ok: "seg_ok os st"
  shows "unat (peak_bytes st') = max (unat (peak_bytes st)) (call_mark os c st st')"
proof -
  have le: "live_bytes st \<le> peak_bytes st" "live_bytes st' \<le> peak_bytes st'"
    using seg_ok_peak [OF ok] seg_ok_peak [OF seg.step_ok [OF step ok]] by blast+
  have call: "do_call (seg_ops os) c st = Some st'" using step by (simp add: heap_step_iff)
  show ?thesis
  proof (cases c)
    case (Malloc n)
    then obtain p where "seg_malloc os n st = Some (p, st')" using call by (auto simp: seg_ops_def)
    from seg_malloc_peak [OF this le(1)] show ?thesis using Malloc by (simp add: call_mark_def max_def word_le_nat_alt)
  next
    case (Calloc k n)
    then obtain p where "seg_calloc os k n st = Some (p, st')" using call by (auto simp: seg_ops_def)
    from seg_calloc_peak [OF this le(1)] show ?thesis using Calloc by (simp add: call_mark_def max_def word_le_nat_alt)
  next
    case (Realloc p n)
    then obtain q where "seg_realloc os p n st = Some (q, st')" using call by (auto simp: seg_ops_def)
    from seg_realloc_peak [OF this le] show ?thesis using Realloc by simp
  next
    case (Free p)
    then have "seg_free p st = Some st'" using call by (simp add: seg_ops_def)
    from seg_free_peak [OF this] show ?thesis using Free le(2) by (simp add: call_mark_def max_def word_le_nat_alt)
  next
    case (Write p i ys)
    then have "alloc_stat st' = alloc_stat st" using call by (auto simp: seg_ops_def mem_write_def)
    then show ?thesis using Write le(1) by (simp add: call_mark_def max_def word_le_nat_alt)
  qed
qed

lemma high_mark_append:
  "heap_run lim (seg_ops os) objs cs st st' \<Longrightarrow> high_mark os (cs @ ds) st = max (high_mark os cs st) (high_mark os ds st')"
proof (induction arbitrary: ds rule: heap_run.induct)
  case (run_snoc cs st st1 c st2)
  have "do_call (seg_ops os) c st1 = Some st2" using run_snoc.hyps(2) by (simp add: heap_step_iff)
  then show ?case using run_snoc.IH [of "c # ds"] run_snoc.IH [of "[c]"] by (simp add: max.assoc)
qed simp

lemma seg_peak_run:
  assumes "heap_run (2 ^ 63) (seg_ops os) objs cs st st'" and "seg_ok os st"
  shows "unat (peak_bytes st') = max (unat (peak_bytes st)) (high_mark os cs st)"
  using assms
proof (induction rule: heap_run.induct)
  case (run_snoc cs st st1 c st2)
  have "do_call (seg_ops os) c st1 = Some st2" using run_snoc.hyps(2) by (simp add: heap_step_iff)
  then show ?case
    using run_snoc.IH [OF run_snoc.prems] seg_step_peak [OF run_snoc.hyps(2) seg.run_ok [OF run_snoc.hyps(1) run_snoc.prems]]
      high_mark_append [OF run_snoc.hyps(1), of "[c]"] by (simp add: max.assoc)
qed simp

text \<open>The statistics after a run, in terms of the blocks of the heap.\<close>

lemma length_frees: "length (frees a bs) = length (filter (\<lambda>(n, u). \<not> u) bs)"
  by (induction bs arbitrary: a) auto

lemma seg_run_stats:
  assumes run: "heap_run (2 ^ 63) (seg_ops os) objs cs seg_init st" and base: "base_ok (os 0)"
  shows "unat (live_real_bytes (seg_stat_get st)) = used_sum (heap_blocks st)"
    and "unat (peak_live_real_bytes (seg_stat_get st)) = high_mark os cs seg_init"
    and "unat (freelist_len (seg_stat_get st)) = length (filter (\<lambda>(n, u). \<not> u) (heap_blocks st))"
    and "unat (arena_used_bytes (seg_stat_get st)) = (if heap_blocks st = [] then 0 else 12 + szs (heap_blocks st))"
proof -
  have init: "seg_ok os seg_init" using seg_inv_init base by (auto simp: seg_ok_def os_ok_def seg_init_def)
  obtain bs F where inv: "seg_inv st bs F" and hp: "heap_inv st bs" using seg.run_ok [OF run init] by (rule seg_okE)
  have ok: "sizes_ok bs" using hp by (auto simp: heap_inv_def dest: layout_sizes_ok)
  note X = seg_stat_exact [OF inv] and bs = heap_blocks_eq [OF hp]
  show "unat (live_real_bytes (seg_stat_get st)) = used_sum (heap_blocks st)"
    "unat (arena_used_bytes (seg_stat_get st)) = (if heap_blocks st = [] then 0 else 12 + szs (heap_blocks st))"
    using X bs by simp_all
  show "unat (freelist_len (seg_stat_get st)) = length (filter (\<lambda>(n, u). \<not> u) (heap_blocks st))"
    using X(2) bs total_len_frees [OF inv ok] by (simp add: length_frees)
  show "unat (peak_live_real_bytes (seg_stat_get st)) = high_mark os cs seg_init"
    using seg_peak_run [OF run init] by (simp add: seg_stat_get_def seg_init_def zero_stat_def)
qed

end
