(* ===== verification/Driver_Alloc.thy ===== *)
theory Driver_Alloc
  imports Allocator_Objects Segregated_Objects
begin

text \<open>
  The allocation wrappers of the benchmark driver (\<open>src/bench/driver.c\<close>), which tree-sitter is given
  in place of the C library's allocator: they count the requests, append to the trace and call the
  allocator the driver is linked with, either of the two of the repository. The replay of a trace is
  that of \<open>src/bench/analyze_trace.py\<close>. The wrappers keep the allocator contract, and the trace of
  a run accounts for exactly the objects that are live.
\<close>

section \<open>State\<close>

record DataStat =
  malloc_cnt :: u64
  calloc_cnt :: u64
  realloc_cnt :: u64
  free_cnt :: u64
  req_bytes :: u64
  size_hist :: "u64 list"

definition zero_DataStat :: DataStat where
  "zero_DataStat = \<lparr>malloc_cnt = 0, calloc_cnt = 0, realloc_cnt = 0, free_cnt = 0, req_bytes = 0,
     size_hist = replicate 64 0\<rparr>"

text \<open>A line of the trace file.\<close>

datatype trace_event =
    Ev_m u64 ptr
  | Ev_c u64 ptr
  | Ev_r ptr u64 ptr
  | Ev_f ptr

text \<open>\<open>trace_fp\<close> is \<open>None\<close> when no trace is being written, else the lines written so far.\<close>

record 'st driver =
  TS_AllocStat :: DataStat
  trace_fp :: "trace_event list option"
  heap :: 'st

definition fprintf_trace :: "trace_event \<Rightarrow> 'st driver \<Rightarrow> 'st driver" where
  "fprintf_trace e d = d\<lparr>trace_fp := map_option (\<lambda>t. t @ [e]) (trace_fp d)\<rparr>"

definition bump :: "u64 \<Rightarrow> u64 list \<Rightarrow> u64 list" where
  "bump n hist = hist[size_bucket n := hist ! size_bucket n + 1]"

section \<open>Wrappers\<close>

definition count_malloc :: "u64 \<Rightarrow> DataStat \<Rightarrow> DataStat" where
  "count_malloc n s = s\<lparr>malloc_cnt := malloc_cnt s + 1, req_bytes := req_bytes s + n, size_hist := bump n (size_hist s)\<rparr>"

definition count_calloc :: "u64 \<Rightarrow> DataStat \<Rightarrow> DataStat" where
  "count_calloc n s = s\<lparr>calloc_cnt := calloc_cnt s + 1, req_bytes := req_bytes s + n, size_hist := bump n (size_hist s)\<rparr>"

definition count_realloc :: "DataStat \<Rightarrow> DataStat" where
  "count_realloc s = s\<lparr>realloc_cnt := realloc_cnt s + 1\<rparr>"

definition count_free :: "DataStat \<Rightarrow> DataStat" where
  "count_free s = s\<lparr>free_cnt := free_cnt s + 1\<rparr>"

definition w_malloc :: "'st heap_ops \<Rightarrow> u64 \<Rightarrow> 'st driver \<Rightarrow> (ptr \<times> 'st driver) option" where
  "w_malloc ops n d =
     do {
       let d = d\<lparr>TS_AllocStat := count_malloc n (TS_AllocStat d)\<rparr>;
       (p, h) \<leftarrow> op_malloc ops n (heap d);
       Some (p, fprintf_trace (Ev_m n p) (d\<lparr>heap := h\<rparr>))
     }"

definition w_calloc :: "'st heap_ops \<Rightarrow> u64 \<Rightarrow> u64 \<Rightarrow> 'st driver \<Rightarrow> (ptr \<times> 'st driver) option" where
  "w_calloc ops c n d =
     do {
       let d = d\<lparr>TS_AllocStat := count_calloc (c * n) (TS_AllocStat d)\<rparr>;
       (p, h) \<leftarrow> op_calloc ops c n (heap d);
       Some (p, fprintf_trace (Ev_c (c * n) p) (d\<lparr>heap := h\<rparr>))
     }"

definition w_realloc :: "'st heap_ops \<Rightarrow> ptr \<Rightarrow> u64 \<Rightarrow> 'st driver \<Rightarrow> (ptr \<times> 'st driver) option" where
  "w_realloc ops p n d =
     do {
       let d = d\<lparr>TS_AllocStat := count_realloc (TS_AllocStat d)\<rparr>;
       (q, h) \<leftarrow> op_realloc ops p n (heap d);
       Some (q, fprintf_trace (Ev_r p n q) (d\<lparr>heap := h\<rparr>))
     }"

definition w_free :: "'st heap_ops \<Rightarrow> ptr \<Rightarrow> 'st driver \<Rightarrow> 'st driver option" where
  "w_free ops p d =
     do {
       let d = d\<lparr>TS_AllocStat := count_free (TS_AllocStat d)\<rparr>;
       let d = (if p \<noteq> 0 then fprintf_trace (Ev_f p) d else d);
       h \<leftarrow> op_free ops p (heap d);
       Some (d\<lparr>heap := h\<rparr>)
     }"

text \<open>What \<open>ts_set_allocator\<close> installs; reads and writes go to the memory directly.\<close>

definition w_ops :: "'st heap_ops \<Rightarrow> 'st driver heap_ops" where
  "w_ops ops = \<lparr>op_malloc = w_malloc ops, op_calloc = w_calloc ops, op_realloc = w_realloc ops, op_free = w_free ops,
     op_read = (\<lambda>p i n d. op_read ops p i n (heap d)),
     op_write = (\<lambda>p i ys d. map_option (\<lambda>h. d\<lparr>heap := h\<rparr>) (op_write ops p i ys (heap d)))\<rparr>"

section \<open>Replay\<close>

fun replay_event :: "trace_event \<Rightarrow> (ptr \<rightharpoonup> u64) \<Rightarrow> (ptr \<rightharpoonup> u64)" where
  "replay_event (Ev_m n p) L = (if p = 0 then L else L(p \<mapsto> n))"
| "replay_event (Ev_c n p) L = (if p = 0 then L else L(p \<mapsto> n))"
| "replay_event (Ev_f p) L = L(p := None)"
| "replay_event (Ev_r p n q) L =
     (let L = (if p \<noteq> 0 then L(p := None) else L) in if q \<noteq> 0 then L(q \<mapsto> n) else L)"

definition replay :: "trace_event list \<Rightarrow> (ptr \<rightharpoonup> u64)" where
  "replay es = fold replay_event es Map.empty"

text \<open>A reallocation that failed; one to no bytes returns NULL as well, but has released its object.\<close>

fun failed_realloc :: "trace_event \<Rightarrow> bool" where
  "failed_realloc (Ev_r p n q) \<longleftrightarrow> p \<noteq> 0 \<and> n \<noteq> 0 \<and> q = 0"
| "failed_realloc _ \<longleftrightarrow> False"

section \<open>The wrappers keep the contract\<close>

lemma heap_fprintf_trace [simp]: "heap (fprintf_trace e d) = heap d"
  by (simp add: fprintf_trace_def)

lemma w_malloc_iff:
  "op_malloc (w_ops ops) n d = Some (p, d') \<longleftrightarrow> (\<exists>h. op_malloc ops n (heap d) = Some (p, h) \<and>
     d' = fprintf_trace (Ev_m n p) (d\<lparr>TS_AllocStat := count_malloc n (TS_AllocStat d), heap := h\<rparr>))"
  by (auto simp: w_ops_def w_malloc_def Let_def bind_eq_Some_conv)

lemma w_calloc_iff:
  "op_calloc (w_ops ops) c n d = Some (p, d') \<longleftrightarrow> (\<exists>h. op_calloc ops c n (heap d) = Some (p, h) \<and>
     d' = fprintf_trace (Ev_c (c * n) p) (d\<lparr>TS_AllocStat := count_calloc (c * n) (TS_AllocStat d), heap := h\<rparr>))"
  by (auto simp: w_ops_def w_calloc_def Let_def bind_eq_Some_conv)

lemma w_realloc_iff:
  "op_realloc (w_ops ops) p n d = Some (q, d') \<longleftrightarrow> (\<exists>h. op_realloc ops p n (heap d) = Some (q, h) \<and>
     d' = fprintf_trace (Ev_r p n q) (d\<lparr>TS_AllocStat := count_realloc (TS_AllocStat d), heap := h\<rparr>))"
  by (auto simp: w_ops_def w_realloc_def Let_def bind_eq_Some_conv)

lemma w_free_iff:
  "op_free (w_ops ops) p d = Some d' \<longleftrightarrow> (\<exists>h. op_free ops p (heap d) = Some h \<and>
     d' = (if p \<noteq> 0 then fprintf_trace (Ev_f p) else id) (d\<lparr>TS_AllocStat := count_free (TS_AllocStat d), heap := h\<rparr>))"
  by (auto simp: w_ops_def w_free_def Let_def bind_eq_Some_conv fprintf_trace_def)

lemma w_read: "op_read (w_ops ops) p i n d = op_read ops p i n (heap d)"
  by (simp add: w_ops_def)

lemma w_write_iff:
  "op_write (w_ops ops) p i ys d = Some d' \<longleftrightarrow> (\<exists>h. op_write ops p i ys (heap d) = Some h \<and> d' = d\<lparr>heap := h\<rparr>)"
  by (auto simp: w_ops_def)

lemmas w_iffs = w_malloc_iff w_calloc_iff w_realloc_iff w_free_iff w_write_iff

lemma w_allocator:
  assumes "allocator ok obj lim ops"
  shows "allocator (\<lambda>d. ok (heap d)) (\<lambda>d. obj (heap d)) lim (w_ops ops)"
proof (unfold_locales, goal_cases)
  case (1 d)
  then show ?case using allocator.not_null [OF assms] by blast
next
  case (2 d n)
  from allocator.malloc_law [OF assms 2] show ?case unfolding w_iffs fresh_object_def by fastforce
next
  case (3 d k n)
  from allocator.calloc_law [OF assms 3] show ?case unfolding w_iffs fresh_object_def by fastforce
next
  case (4 d k n)
  from allocator.calloc_null_law [OF assms 4] show ?case unfolding w_iffs by auto
next
  case (5 d p xs n)
  from allocator.realloc_law [OF assms 5] show ?case unfolding w_iffs by fastforce
next
  case (6 d n)
  from allocator.realloc_null_law [OF assms 6] show ?case unfolding w_iffs fresh_object_def by fastforce
next
  case (7 d p xs)
  from allocator.realloc_zero_law [OF assms 7] show ?case unfolding w_iffs by auto
next
  case (8 d p xs)
  from allocator.free_law [OF assms 8] show ?case unfolding w_iffs by auto
next
  case (9 d)
  from allocator.free_null_law [OF assms 9] show ?case unfolding w_iffs by auto
next
  case (10 d p xs i j)
  from allocator.read_law [OF assms 10] show ?case by (simp add: w_read)
next
  case (11 d p xs i ys)
  from allocator.write_law [OF assms 11] show ?case unfolding w_iffs by auto
qed

interpretation wff: allocator "\<lambda>d. ff_ok os (heap d)" "\<lambda>d. objs (heap d)" "2 ^ 32 - 23" "w_ops (ff_ops os)" for os
  by (rule w_allocator) unfold_locales

interpretation wseg: allocator "\<lambda>d. seg_ok os (heap d)" "\<lambda>d. objs (heap d)" "2 ^ 63" "w_ops (seg_ops os)" for os
  by (rule w_allocator) unfold_locales

section \<open>The trace accounts for the heap\<close>

text \<open>
  The calls that write a line, and the line of each: a release of NULL is counted but not traced, and accesses
  to memory are neither.
\<close>

fun logged :: "call \<Rightarrow> bool" where
  "logged (Free p) \<longleftrightarrow> p \<noteq> 0"
| "logged (Write p i ys) \<longleftrightarrow> False"
| "logged _ \<longleftrightarrow> True"

fun logs :: "trace_event \<Rightarrow> call \<Rightarrow> bool" where
  "logs (Ev_m n p) (Malloc n') \<longleftrightarrow> n = n'"
| "logs (Ev_c t p) (Calloc k n) \<longleftrightarrow> t = k * n"
| "logs (Ev_r p n q) (Realloc p' n') \<longleftrightarrow> p = p' \<and> n = n'"
| "logs (Ev_f p) (Free p') \<longleftrightarrow> p = p'"
| "logs _ _ \<longleftrightarrow> False"

text \<open>The size a line of the trace adds to the statistics.\<close>

fun requested :: "trace_event \<Rightarrow> u64 list" where
  "requested (Ev_m n p) = [n]"
| "requested (Ev_c n p) = [n]"
| "requested _ = []"

fun ev_kind :: "trace_event \<Rightarrow> nat" where
  "ev_kind (Ev_m n p) = 0"
| "ev_kind (Ev_c n p) = 1"
| "ev_kind (Ev_r p n q) = 2"
| "ev_kind (Ev_f p) = 3"

definition ev_count :: "nat \<Rightarrow> trace_event list \<Rightarrow> u64" where
  "ev_count k es = of_nat (length (filter (\<lambda>e. ev_kind e = k) es))"

definition sizes :: "trace_event list \<Rightarrow> u64 list" where
  "sizes es = concat (map requested es)"

text \<open>The statistics are those one recomputes from the trace, but for the \<open>nulls\<close> releases of NULL.\<close>

definition stats_agree :: "nat \<Rightarrow> trace_event list \<Rightarrow> DataStat \<Rightarrow> bool" where
  "stats_agree nulls es s \<longleftrightarrow> malloc_cnt s = ev_count 0 es \<and> calloc_cnt s = ev_count 1 es \<and> realloc_cnt s = ev_count 2 es \<and>
     free_cnt s = ev_count 3 es + of_nat nulls \<and> req_bytes s = sum_list (sizes es) \<and> length (size_hist s) = 64 \<and>
     (\<forall>b < 64. size_hist s ! b = of_nat (length (filter (\<lambda>n. size_bucket n = b) (sizes es))))"

text \<open>
  The live objects are those of the replay, each with at least the bytes that were requested, as long
  as no reallocation failed.
\<close>

definition replay_agree :: "trace_event list \<Rightarrow> (ptr \<rightharpoonup> u8 list) \<Rightarrow> bool" where
  "replay_agree es obj \<longleftrightarrow> list_ex failed_realloc es \<or>
     (\<forall>p. replay es p = None \<longleftrightarrow> obj p = None) \<and> (\<forall>p n xs. replay es p = Some n \<longrightarrow> obj p = Some xs \<longrightarrow> unat n \<le> length xs)"

definition accounts :: "call list \<Rightarrow> trace_event list \<Rightarrow> DataStat \<Rightarrow> (ptr \<rightharpoonup> u8 list) \<Rightarrow> bool" where
  "accounts cs es s obj \<longleftrightarrow> list_all2 logs es (filter logged cs) \<and> stats_agree (count_list cs (Free 0)) es s \<and> replay_agree es obj"

lemma stats_agree_init: "stats_agree 0 [] zero_DataStat"
  by (simp add: stats_agree_def zero_DataStat_def ev_count_def sizes_def)

lemma replay_snoc: "replay (es @ [e]) = replay_event e (replay es)"
  by (simp add: replay_def)

lemma bump_ok:
  assumes "length hist = 64" and "\<forall>b < 64. hist ! b = of_nat (length (filter (\<lambda>n. size_bucket n = b) ns))" and "b < 64"
  shows "bump n hist ! b = of_nat (length (filter (\<lambda>n. size_bucket n = b) (ns @ [n])))"
  using assms by (cases "size_bucket n = b") (auto simp: bump_def)

lemma length_bump [simp]: "length (bump n hist) = length hist"
  by (simp add: bump_def)

lemma stats_snoc:
  assumes "stats_agree k es s"
  shows "stats_agree k (es @ [Ev_m n p]) (count_malloc n s)" and "stats_agree k (es @ [Ev_c n p]) (count_calloc n s)"
    and "stats_agree k (es @ [Ev_r p n q]) (count_realloc s)" and "stats_agree k (es @ [Ev_f p]) (count_free s)"
    and "stats_agree (Suc k) es (count_free s)"
  using assms bump_ok [of "size_hist s" "sizes es" _ n]
  by (simp_all add: stats_agree_def ev_count_def sizes_def count_malloc_def count_calloc_def count_realloc_def count_free_def)

lemma count_snoc [simp]: "count_list (xs @ [x]) y = count_list xs y + (if x = y then 1 else 0)"
  by (induction xs) auto

lemma replay_new:
  assumes "replay_agree es obj" and "e = Ev_m n p \<or> e = Ev_c n p"
    and "if p = 0 then obj' = obj else obj p = None \<and> (\<exists>xs. unat n \<le> length xs \<and> obj' = obj(p \<mapsto> xs))"
  shows "replay_agree (es @ [e]) obj'"
  using assms by (auto simp: replay_agree_def replay_snoc split: if_splits)

lemma replay_free: "replay_agree es obj \<Longrightarrow> replay_agree (es @ [Ev_f p]) (obj(p := None))"
  by (auto simp: replay_agree_def replay_snoc split: if_splits)

lemma replay_moved:
  assumes "replay_agree es obj" and "p \<noteq> 0" and "n \<noteq> 0"
    and "if q = 0 then True else \<exists>ys. unat n \<le> length ys \<and> obj' = obj(p := None, q \<mapsto> ys)"
  shows "replay_agree (es @ [Ev_r p n q]) obj'"
  using assms by (auto simp: replay_agree_def replay_snoc split: if_splits)

lemma replay_realloc_null:
  assumes "replay_agree es obj"
    and "if p = 0 then obj' = obj else obj p = None \<and> (\<exists>xs. unat n \<le> length xs \<and> obj' = obj(p \<mapsto> xs))"
  shows "replay_agree (es @ [Ev_r 0 n p]) obj'"
  using assms by (auto simp: replay_agree_def replay_snoc split: if_splits)

lemma replay_realloc_zero: "replay_agree es obj \<Longrightarrow> p \<noteq> 0 \<Longrightarrow> replay_agree (es @ [Ev_r p 0 0]) (obj(p := None))"
  by (auto simp: replay_agree_def replay_snoc split: if_splits)

lemma replay_written:
  assumes "replay_agree es obj" and "obj p = Some xs" and "length ys = length xs"
  shows "replay_agree es (obj(p \<mapsto> ys))"
  using assms by (auto simp: replay_agree_def simp flip: not_None_eq)

lemma length_overwrite: "i + length ys \<le> length xs \<Longrightarrow> length (overwrite i ys xs) = length xs"
  by (simp add: overwrite_def)

context allocator
begin

text \<open>The line a traced call appends keeps the replay in step with the live objects.\<close>

lemma replay_malloc:
  assumes ok: "ok st" and n: "unat n < 2 ^ 63" and call: "op_malloc ops n st = Some (p, st')" and R: "replay_agree es (obj st)"
  shows "replay_agree (es @ [Ev_m n p]) (obj st')"
  using malloc_law [OF ok n] call by (intro replay_new [OF R]) (auto simp: fresh_object_def)

lemma replay_calloc:
  assumes ok: "ok st" and lg: "unat k * unat n < 2 ^ 63 \<or> 2 ^ 64 \<le> unat k * unat n"
    and call: "op_calloc ops k n st = Some (p, st')" and R: "replay_agree es (obj st)"
  shows "replay_agree (es @ [Ev_c (k * n) p]) (obj st')"
proof (cases "0 < unat k * unat n \<and> unat k * unat n < 2 ^ 63")
  case True
  then have t: "unat (k * n) = unat k * unat n" by (simp add: unat_word_ariths)
  show ?thesis using calloc_law [OF ok, of k n] True call
    by (intro replay_new [OF R, where n = "k * n"]) (auto simp: fresh_object_def t)
next
  case False
  then have "unat k * unat n = 0 \<or> 2 ^ 64 \<le> unat k * unat n" using lg by auto
  from calloc_null_law [OF ok this] show ?thesis using call by (intro replay_new [OF R, where n = "k * n"]) auto
qed

lemma replay_realloc:
  assumes ok: "ok st" and lg: "legal lim (obj st) (Realloc p n)" and call: "op_realloc ops p n st = Some (q, st')"
    and R: "replay_agree es (obj st)"
  shows "replay_agree (es @ [Ev_r p n q]) (obj st')"
proof (cases "p = 0")
  case True
  then have "unat n < 2 ^ 63" using lg by simp
  from realloc_null_law [OF ok this] show ?thesis
    using call True by (auto simp: fresh_object_def intro!: replay_realloc_null [OF R])
next
  case False
  then obtain xs where p: "obj st p = Some xs" "unat n < lim" using lg by auto
  show ?thesis
  proof (cases "n = 0")
    case True
    then show ?thesis using realloc_zero_law [OF ok p(1)] call replay_realloc_zero [OF R False] by auto
  next
    case nz: False
    then have "0 < unat n" by (simp add: unat_gt_0)
    from realloc_law [OF ok p(1) this p(2)] show ?thesis
      using call by (intro replay_moved [OF R False nz]) auto
  qed
qed

abbreviation wstep where
  "wstep \<equiv> heap_step lim (w_ops ops) (\<lambda>d. obj (heap d))"

lemma trace_step:
  assumes "wstep c d d'" and ok: "ok (heap d)" and t: "trace_fp d = Some es" "accounts cs es (TS_AllocStat d) (obj (heap d))"
  shows "\<exists>es'. trace_fp d' = Some es' \<and> accounts (cs @ [c]) es' (TS_AllocStat d') (obj (heap d'))"
proof -
  have lg: "legal lim (obj (heap d)) c" and call: "do_call (w_ops ops) c d = Some d'"
    using assms(1) by (simp_all add: heap_step_iff)
  have R: "list_all2 logs es (filter logged cs)" "stats_agree (count_list cs (Free 0)) es (TS_AllocStat d)"
    "replay_agree es (obj (heap d))" using t(2) by (simp_all add: accounts_def)
  show ?thesis
  proof (cases c)
    case (Malloc n)
    then obtain p h where h: "op_malloc ops n (heap d) = Some (p, h)"
      and d': "d' = fprintf_trace (Ev_m n p) (d\<lparr>TS_AllocStat := count_malloc n (TS_AllocStat d), heap := h\<rparr>)"
      using call by (auto simp: w_malloc_iff)
    show ?thesis using replay_malloc [OF ok _ h R(3)] lg Malloc R stats_snoc(1) [OF R(2)] t(1)
      by (auto simp: d' fprintf_trace_def accounts_def list_all2_appendI)
  next
    case (Calloc k n)
    then obtain p h where h: "op_calloc ops k n (heap d) = Some (p, h)"
      and d': "d' = fprintf_trace (Ev_c (k * n) p) (d\<lparr>TS_AllocStat := count_calloc (k * n) (TS_AllocStat d), heap := h\<rparr>)"
      using call by (auto simp: w_calloc_iff)
    show ?thesis using replay_calloc [OF ok _ h R(3)] lg Calloc R stats_snoc(2) [OF R(2)] t(1)
      by (auto simp: d' fprintf_trace_def accounts_def list_all2_appendI)
  next
    case (Realloc p n)
    then obtain q h where h: "op_realloc ops p n (heap d) = Some (q, h)"
      and d': "d' = fprintf_trace (Ev_r p n q) (d\<lparr>TS_AllocStat := count_realloc (TS_AllocStat d), heap := h\<rparr>)"
      using call by (auto simp: w_realloc_iff)
    show ?thesis using replay_realloc [OF ok lg [unfolded Realloc] h R(3)] Realloc R stats_snoc(3) [OF R(2)] t(1)
      by (auto simp: d' fprintf_trace_def accounts_def list_all2_appendI)
  next
    case (Free p)
    then obtain h where h: "op_free ops p (heap d) = Some h" and
      d': "d' = (if p \<noteq> 0 then fprintf_trace (Ev_f p) else id) (d\<lparr>TS_AllocStat := count_free (TS_AllocStat d), heap := h\<rparr>)"
      using call by (auto simp: w_free_iff)
    show ?thesis
    proof (cases "p = 0")
      case True
      then have "obj h = obj (heap d)" using free_null_law [OF ok] h by auto
      then show ?thesis using True Free R stats_snoc(5) [OF R(2)] t(1) by (auto simp: d' accounts_def)
    next
      case False
      then obtain xs where "obj (heap d) p = Some xs" using lg Free by auto
      then have "obj h = (obj (heap d))(p := None)" using free_law [OF ok] h by fastforce
      then show ?thesis using False Free R stats_snoc(4) [OF R(2)] replay_free [OF R(3)] t(1)
        by (auto simp: d' fprintf_trace_def accounts_def list_all2_appendI)
    qed
  next
    case (Write p i ys)
    then obtain h where h: "op_write ops p i ys (heap d) = Some h" "d' = d\<lparr>heap := h\<rparr>"
      using call by (auto simp: w_write_iff)
    obtain xs where xs: "obj (heap d) p = Some xs" "i + length ys \<le> length xs"
      using lg Write by (auto split: option.splits)
    have "obj h = (obj (heap d))(p \<mapsto> overwrite i ys xs)" using write_law [OF ok xs] h(1) by auto
    then show ?thesis using t(1) R Write h(2) replay_written [OF R(3) xs(1) length_overwrite [OF xs(2)]]
      by (auto simp: accounts_def)
  qed
qed

lemma trace_run:
  assumes "heap_run lim (w_ops ops) (\<lambda>d. obj (heap d)) cs d d'" and "ok (heap d)" and "trace_fp d = Some []"
    and "TS_AllocStat d = zero_DataStat" and "obj (heap d) = Map.empty"
  shows "ok (heap d') \<and> (\<exists>es. trace_fp d' = Some es \<and> accounts cs es (TS_AllocStat d') (obj (heap d')))"
  using assms
proof (induction rule: heap_run.induct)
  case (run_nil d)
  then show ?case by (simp add: accounts_def stats_agree_init replay_agree_def replay_def)
next
  case (run_snoc cs d d1 c d2)
  then obtain es where "ok (heap d1)" "trace_fp d1 = Some es" "accounts cs es (TS_AllocStat d1) (obj (heap d1))" by blast
  then show ?case
    using trace_step [OF run_snoc.hyps(2)] allocator.step_ok [OF w_allocator [OF allocator_axioms] run_snoc.hyps(2)] by blast
qed

end

end
