(* ===== verification/Driver_Files.thy ===== *)
theory Driver_Files
  imports Prelude "HOL-Library.Char_ord" "HOL-Library.List_Lexorder" "HOL-Library.Multiset"
begin

text \<open>
  How the benchmark driver (\<open>src/bench/driver.c\<close>) finds and loads its inputs: the growing vector of
  source files, the walk of the directory tree, and the reading of the files. The C library's
  allocations may fail, each as an explicit list of outcomes says, and the blocks and handles the
  driver holds are counted, so that a leak or a double release is visible. Paths are C strings
  without their terminating zero; a file system is a tree that the walk unfolds.
\<close>

section \<open>The C library\<close>

record io =
  alloc_fail :: "bool list"
  live :: int

definition acquire :: "io \<Rightarrow> io" where "acquire i = i\<lparr>live := live i + 1\<rparr>"
definition release :: "io \<Rightarrow> io" where "release i = i\<lparr>live := live i - 1\<rparr>"

text \<open>The next allocation succeeds or not; with no outcome listed it succeeds.\<close>

definition try_alloc :: "io \<Rightarrow> bool \<times> io" where
  "try_alloc i = (case alloc_fail i of [] \<Rightarrow> (True, i) | f # fs \<Rightarrow> (\<not> f, i\<lparr>alloc_fail := fs\<rparr>))"

definition libc_malloc :: "io \<Rightarrow> bool \<times> io" where
  "libc_malloc i = (let (good, i) = try_alloc i in if good then (True, acquire i) else (False, i))"

text \<open>A file, as \<open>fseek\<close>, \<open>ftell\<close> and \<open>fread\<close> show it.\<close>

record rfile =
  seek_ok :: bool
  tell :: int
  contents :: string

datatype fs = Reg | Dir "(string \<times> fs) list" | Closed_Dir | Special | Unknown

section \<open>The vector of source files\<close>

record SourceFile =
  path :: "string option"
  sdata :: "string option"
  slen :: nat

record SourceVec =
  items :: "SourceFile list"
  cap :: nat

definition empty_vec :: SourceVec where
  "empty_vec = \<lparr>items = [], cap = 0\<rparr>"

definition xstrdup :: "string \<Rightarrow> io \<Rightarrow> string option \<times> io" where
  "xstrdup s i = (let (good, i) = libc_malloc i in (if good then Some s else None, i))"

definition vec_grow :: "SourceVec \<Rightarrow> io \<Rightarrow> bool \<times> SourceVec \<times> io" where
  "vec_grow v i =
     (if length (items v) = cap v then
        let next = (if cap v \<noteq> 0 then cap v * 2 else 128); (good, i) = try_alloc i in
        if good then (True, v\<lparr>cap := next\<rparr>, if cap v = 0 then acquire i else i) else (False, v, i)
      else (True, v, i))"

definition vec_push_path :: "SourceVec \<Rightarrow> string \<Rightarrow> io \<Rightarrow> bool \<times> SourceVec \<times> io" where
  "vec_push_path v p i =
     (let (good, v, i) = vec_grow v i in
      if \<not> good then (False, v, i)
      else let (copy, i) = xstrdup p i in
        if copy = None then (False, v, i)
        else (True, v\<lparr>items := items v @ [\<lparr>path = copy, sdata = None, slen = 0\<rparr>]\<rparr>, i))"

section \<open>Finding the sources\<close>

definition has_suffix :: "string \<Rightarrow> string \<Rightarrow> bool" where
  "has_suffix s suffix \<longleftrightarrow> length s \<ge> length suffix \<and> drop (length s - length suffix) s = suffix"

definition is_source_path :: "string \<Rightarrow> bool \<Rightarrow> bool" where
  "is_source_path p include_headers \<longleftrightarrow> has_suffix p ''.c'' \<or> include_headers \<and> has_suffix p ''.h''"

fun collect_sources :: "bool \<Rightarrow> string \<Rightarrow> fs \<Rightarrow> SourceVec \<Rightarrow> io \<Rightarrow> bool \<times> SourceVec \<times> io"
  and collect_entries :: "bool \<Rightarrow> string \<Rightarrow> (string \<times> fs) list \<Rightarrow> SourceVec \<Rightarrow> io \<Rightarrow> bool \<times> SourceVec \<times> io"
  and collect_entry :: "bool \<Rightarrow> string \<Rightarrow> fs \<Rightarrow> SourceVec \<Rightarrow> io \<Rightarrow> bool \<times> SourceVec \<times> io" where
  "collect_sources h root e v i =
     (case e of
        Dir es \<Rightarrow> let (good, v, i) = collect_entries h root es v (acquire i) in (good, v, release i)
      | _ \<Rightarrow> (False, v, i))"
| "collect_entries h root [] v i = (True, v, i)"
| "collect_entries h root ((name, e) # es) v i =
     (if name = ''.'' \<or> name = ''..'' then collect_entries h root es v i
      else let (good, i) = libc_malloc i in
        if \<not> good then (False, v, i)
        else let (good, v, i) = collect_entry h (root @ ''/'' @ name) e v i; i = release i
             in if good then collect_entries h root es v i else (False, v, i))"
| "collect_entry h p (Dir ds) v i = collect_sources h p (Dir ds) v i"
| "collect_entry h p Closed_Dir v i = collect_sources h p Closed_Dir v i"
| "collect_entry h p Reg v i = (if is_source_path p h then vec_push_path v p i else (True, v, i))"
| "collect_entry h p Special v i = (True, v, i)"
| "collect_entry h p Unknown v i = (True, v, i)"

definition cmp_source_path :: "SourceFile \<Rightarrow> string" where
  "cmp_source_path s = (case path s of Some p \<Rightarrow> p | None \<Rightarrow> [])"

text \<open>\<open>qsort\<close> with \<open>strcmp\<close> on the paths.\<close>

definition sort_sources :: "SourceVec \<Rightarrow> SourceVec" where
  "sort_sources v = v\<lparr>items := sort_key cmp_source_path (items v)\<rparr>"

section \<open>Loading the sources\<close>

definition read_file :: "(string \<rightharpoonup> rfile) \<Rightarrow> SourceFile \<Rightarrow> io \<Rightarrow> bool \<times> SourceFile \<times> io" where
  "read_file fopen src i =
     (case Option.bind (path src) fopen of
        None \<Rightarrow> (False, src, i)
      | Some f \<Rightarrow>
          let i = acquire i in
          if \<not> seek_ok f then (False, src, release i)
          else if tell f < 0 then (False, src, release i)
          else let (good, i) = libc_malloc i in
            if \<not> good then (False, src\<lparr>sdata := None\<rparr>, release i)
            else let got = take (nat (tell f)) (contents f) in
              (True, src\<lparr>sdata := Some got, slen := length got\<rparr>, release i))"

fun load_items :: "(string \<rightharpoonup> rfile) \<Rightarrow> SourceFile list \<Rightarrow> io \<Rightarrow> bool \<times> SourceFile list \<times> io" where
  "load_items fopen [] i = (True, [], i)"
| "load_items fopen (s # ss) i =
     (let (good, s, i) = read_file fopen s i in
      if good then let (good, ss, i) = load_items fopen ss i in (good, s # ss, i) else (False, s # ss, i))"

definition load_sources :: "(string \<rightharpoonup> rfile) \<Rightarrow> SourceVec \<Rightarrow> io \<Rightarrow> bool \<times> SourceVec \<times> io" where
  "load_sources fopen v i = (let (good, ss, i) = load_items fopen (items v) i in (good, v\<lparr>items := ss\<rparr>, i))"

definition release_if :: "'a option \<Rightarrow> io \<Rightarrow> io" where
  "release_if p i = (if p = None then i else release i)"

definition free_sources :: "SourceVec \<Rightarrow> io \<Rightarrow> io" where
  "free_sources v i =
     (let i = fold (\<lambda>s i. release_if (sdata s) (release_if (path s) i)) (items v) i
      in if cap v = 0 then i else release i)"

section \<open>Ownership\<close>

text \<open>The blocks a vector owns: its array, and the path and data of each of its files.\<close>

definition file_blocks :: "SourceFile \<Rightarrow> int" where
  "file_blocks s = (if path s = None then 0 else 1) + (if sdata s = None then 0 else 1)"

definition vec_blocks :: "SourceVec \<Rightarrow> int" where
  "vec_blocks v = (if cap v = 0 then 0 else 1) + (\<Sum>s \<leftarrow> items v. file_blocks s)"

definition vec_ok :: "SourceVec \<Rightarrow> bool" where
  "vec_ok v \<longleftrightarrow> length (items v) \<le> cap v \<and> (\<forall>s \<in> set (items v). path s \<noteq> None)"

text \<open>An operation balances the blocks when all that it acquires is owned by the vector it returns.\<close>

definition balanced :: "SourceVec \<Rightarrow> io \<Rightarrow> bool \<times> SourceVec \<times> io \<Rightarrow> bool" where
  "balanced v i r = (case r of (good, v', i') \<Rightarrow> live i' - live i = vec_blocks v' - vec_blocks v)"

lemma live_simps [simp]:
  "live (acquire i) = live i + 1" "live (release i) = live i - 1" "live (snd (try_alloc i)) = live i"
  by (simp_all add: acquire_def release_def try_alloc_def split: list.split)

lemma live_try_alloc: "try_alloc i = (good, i') \<Longrightarrow> live i' = live i"
  using live_simps(3) [of i] by simp

lemma live_libc_malloc: "libc_malloc i = (good, i') \<Longrightarrow> live i' = (if good then live i + 1 else live i)"
  by (auto simp: libc_malloc_def live_try_alloc split: prod.splits if_splits)

lemma vec_push_path_ok:
  assumes "vec_ok v" and "vec_push_path v p i = (good, v', i')"
  shows "vec_ok v'" and "balanced v i (good, v', i')" and
    "items v' = items v @ (if good then [\<lparr>path = Some p, sdata = None, slen = 0\<rparr>] else [])"
proof -
  obtain g w j where g: "vec_grow v i = (g, w, j)" by (cases "vec_grow v i") auto
  have w: "items w = items v" "vec_ok w" "live j - live i = vec_blocks w - vec_blocks v"
    "g \<Longrightarrow> length (items w) < cap w"
    using g assms(1)
    by (auto simp: vec_grow_def vec_ok_def vec_blocks_def Let_def split: if_splits prod.splits dest!: live_try_alloc)
  obtain c k where c: "xstrdup p j = (c, k)" by (cases "xstrdup p j")
  then have ck: "live k = (if c = None then live j else live j + 1)" "c = None \<or> c = Some p"
    by (auto simp: xstrdup_def dest!: live_libc_malloc split: prod.splits if_splits)
  show "vec_ok v'" "balanced v i (good, v', i')"
    "items v' = items v @ (if good then [\<lparr>path = Some p, sdata = None, slen = 0\<rparr>] else [])"
    using assms(2) g c w ck
    by (auto simp: vec_push_path_def balanced_def vec_blocks_def file_blocks_def vec_ok_def split: if_splits)
qed

section \<open>The walk\<close>

text \<open>The paths the walk should find, and the directories that can be walked to the end.\<close>

fun found :: "bool \<Rightarrow> string \<Rightarrow> fs \<Rightarrow> string list" where
  "found h p Reg = (if is_source_path p h then [p] else [])"
| "found h p (Dir es) =
     concat (map (\<lambda>(name, e). if name = ''.'' \<or> name = ''..'' then [] else found h (p @ ''/'' @ name) e) es)"
| "found h p _ = []"

fun walkable :: "fs \<Rightarrow> bool" where
  "walkable (Dir es) \<longleftrightarrow> list_all (\<lambda>(name, e). name = ''.'' \<or> name = ''..'' \<or> walkable e) es"
| "walkable Closed_Dir \<longleftrightarrow> False"
| "walkable _ \<longleftrightarrow> True"

fun is_dir :: "fs \<Rightarrow> bool" where
  "is_dir (Dir es) \<longleftrightarrow> True"
| "is_dir _ \<longleftrightarrow> False"

definition new_file :: "string \<Rightarrow> SourceFile" where
  "new_file p = \<lparr>path = Some p, sdata = None, slen = 0\<rparr>"

text \<open>What a walk does: it keeps the vector well formed and balanced, and finds the paths unless it fails.\<close>

definition walks :: "string list \<Rightarrow> bool \<Rightarrow> SourceVec \<Rightarrow> io \<Rightarrow> bool \<times> SourceVec \<times> io \<Rightarrow> bool" where
  "walks ps can v i r = (case r of (good, v', i') \<Rightarrow>
     vec_ok v' \<and> live i' - live i = vec_blocks v' - vec_blocks v \<and>
     (good \<longrightarrow> items v' = items v @ map new_file ps) \<and> (alloc_fail i = [] \<longrightarrow> alloc_fail i' = [] \<and> (can \<longrightarrow> good)))"

lemma try_alloc_Nil: "alloc_fail i = [] \<Longrightarrow> try_alloc i = (True, i)"
  by (simp add: try_alloc_def)

lemma alloc_fail_simps [simp]: "alloc_fail (acquire i) = alloc_fail i" "alloc_fail (release i) = alloc_fail i"
  by (simp_all add: acquire_def release_def)

lemma libc_malloc_Nil: "alloc_fail i = [] \<Longrightarrow> libc_malloc i = (True, acquire i)"
  by (simp add: libc_malloc_def try_alloc_Nil)

lemma vec_push_path_walks: "vec_ok v \<Longrightarrow> walks [p] True v i (vec_push_path v p i)"
proof -
  assume v: "vec_ok v"
  obtain good v' i' where r: "vec_push_path v p i = (good, v', i')" by (cases "vec_push_path v p i") auto
  have "alloc_fail i = [] \<Longrightarrow> good \<and> alloc_fail i' = []"
    using r by (auto simp: vec_push_path_def vec_grow_def xstrdup_def try_alloc_Nil libc_malloc_Nil Let_def split: if_splits)
  then show ?thesis using vec_push_path_ok [OF v r] by (auto simp: r walks_def balanced_def new_file_def)
qed

lemma walks_nothing: "vec_ok v \<Longrightarrow> walks [] can v i (good, v, i) \<longleftrightarrow> (alloc_fail i = [] \<longrightarrow> can \<longrightarrow> good)"
  by (auto simp: walks_def)

lemma collect_ok:
  "vec_ok v \<Longrightarrow> walks (found h root e) (walkable e \<and> is_dir e) v i (collect_sources h root e v i)"
  "vec_ok v \<Longrightarrow> walks (found h root (Dir es)) (walkable (Dir es)) v i (collect_entries h root es v i)"
  "vec_ok v \<Longrightarrow> walks (found h p e) (walkable e) v i (collect_entry h p e v i)"
proof (induction h root e v i and h root es v i and h p e v i rule: collect_sources_collect_entries_collect_entry.induct)
  case (1 h root e v i)
  show ?case
  proof (cases e)
    case (Dir es)
    obtain good v' i' where r: "collect_entries h root es v (acquire i) = (good, v', i')"
      by (cases "collect_entries h root es v (acquire i)") auto
    show ?thesis using 1 Dir by (auto simp: r walks_def)
  qed (use 1 in \<open>auto simp: walks_def\<close>)
next
  case (2 h root v i)
  then show ?case by (simp add: walks_def)
next
  case (3 h root name e es v i)
  show ?case
  proof (cases "name = ''.'' \<or> name = ''..''")
    case True
    then show ?thesis using 3 by auto
  next
    case name: False
    obtain g i1 where m: "libc_malloc i = (g, i1)" by (cases "libc_malloc i")
    show ?thesis
    proof (cases g)
      case False
      then show ?thesis using name m 3 libc_malloc_Nil [of i] live_libc_malloc [OF m] by (auto simp: walks_def)
    next
      case g: True
      obtain good v2 i2 where r: "collect_entry h (root @ ''/'' @ name) e v i1 = (good, v2, i2)"
        by (cases "collect_entry h (root @ ''/'' @ name) e v i1") auto
      have one: "walks (found h (root @ ''/'' @ name) e) (walkable e) v i1 (good, v2, i2)"
        using 3(2) [OF name refl m [symmetric]] 3(4) g r by simp
      have rest: "walks (found h root (Dir es)) (walkable (Dir es)) v2 (release i2) (collect_entries h root es v2 (release i2))"
        if good
        using 3(3) [OF name refl m [symmetric] _ refl r [symmetric] refl refl that] g one by (simp add: walks_def)
      have eval: "collect_entries h root ((name, e) # es) v i =
          (if good then collect_entries h root es v2 (release i2) else (False, v2, release i2))"
        using name m g r by simp
      have i1: "live i1 = live i + 1" "alloc_fail i = [] \<Longrightarrow> alloc_fail i1 = []"
        using live_libc_malloc [OF m] g m libc_malloc_Nil [of i] by auto
      show ?thesis unfolding eval
        using one rest name i1 by (cases "collect_entries h root es v2 (release i2)") (auto simp: walks_def)
    qed
  qed
qed (auto simp: vec_push_path_walks walks_nothing simp del: collect_sources.simps)

section \<open>Loading and releasing\<close>

lemma read_file_ok:
  assumes "read_file fopen s i = (good, s', i')" and "sdata s = None"
  shows "live i' - live i = file_blocks s' - file_blocks s" and "path s' = path s"
    and "good \<Longrightarrow> \<exists>p f. path s = Some p \<and> fopen p = Some f \<and> sdata s' = Some (take (nat (tell f)) (contents f)) \<and>
      slen s' = length (take (nat (tell f)) (contents f))"
  using assms
  by (auto simp: read_file_def file_blocks_def Let_def bind_eq_Some_conv split: option.splits if_splits prod.splits
      dest!: live_libc_malloc)

lemma load_items_ok:
  "load_items fopen ss i = (good, ss', i') \<Longrightarrow> \<forall>s \<in> set ss. sdata s = None \<Longrightarrow>
     live i' - live i = (\<Sum>s \<leftarrow> ss'. file_blocks s) - (\<Sum>s \<leftarrow> ss. file_blocks s) \<and> map path ss' = map path ss \<and>
     (good \<longrightarrow> (\<forall>s \<in> set ss'. \<exists>p f. path s = Some p \<and> fopen p = Some f \<and>
        sdata s = Some (take (nat (tell f)) (contents f)) \<and> slen s = length (take (nat (tell f)) (contents f))))"
proof (induction ss arbitrary: i good ss' i')
  case (Cons s ss)
  obtain g s1 i1 where r: "read_file fopen s i = (g, s1, i1)" by (cases "read_file fopen s i") auto
  obtain h ss2 i2 where l: "load_items fopen ss i1 = (h, ss2, i2)" by (cases "load_items fopen ss i1") auto
  note R = read_file_ok [OF r]
  have "sdata s = None" "\<forall>s \<in> set ss. sdata s = None" using Cons.prems(2) by auto
  with Cons.IH [OF l] Cons.prems(1) R show ?case by (cases g) (auto simp: r l)
qed auto

lemma load_items_length: "load_items fopen ss i = (good, ss', i') \<Longrightarrow> length ss' = length ss"
  by (induction ss arbitrary: i good ss' i') (auto split: prod.splits if_splits)

lemma load_sources_length: "load_sources fopen v i = (good, v', i') \<Longrightarrow> length (items v') = length (items v)"
  by (auto simp: load_sources_def dest: load_items_length split: prod.splits)

lemma load_sources_ok:
  assumes "load_sources fopen v i = (good, v', i')" and "\<forall>s \<in> set (items v). sdata s = None" and "vec_ok v"
  shows "live i' - live i = vec_blocks v' - vec_blocks v" and "vec_ok v'"
proof -
  obtain ss where l: "load_items fopen (items v) i = (good, ss, i')" "v' = v\<lparr>items := ss\<rparr>"
    using assms(1) by (auto simp: load_sources_def split: prod.splits)
  note L = load_items_ok [OF l(1) assms(2)]
  show "live i' - live i = vec_blocks v' - vec_blocks v" using L by (simp add: l(2) vec_blocks_def)
  have "length ss = length (items v)" "path ` set ss = path ` set (items v)" using L
    by (metis length_map, metis list.set_map)
  then show "vec_ok v'" using assms(3) by (auto simp: vec_ok_def l(2)) (metis imageE imageI)
qed

lemma free_sources_live: "live (free_sources v i) = live i - vec_blocks v"
proof -
  have "live (fold (\<lambda>s i. release_if (sdata s) (release_if (path s) i)) ss j) = live j - (\<Sum>s \<leftarrow> ss. file_blocks s)" for ss j
    by (induction ss arbitrary: j) (auto simp: release_if_def file_blocks_def)
  then show ?thesis by (simp add: free_sources_def vec_blocks_def)
qed

lemma sort_sources_blocks: "vec_blocks (sort_sources v) = vec_blocks v"
proof -
  have "mset (map file_blocks (sort_key cmp_source_path ss)) = mset (map file_blocks ss)" for ss by simp
  then show ?thesis unfolding vec_blocks_def sort_sources_def by (simp flip: sum_mset_sum_list)
qed

lemma sort_sources_ok: "vec_ok v \<Longrightarrow> vec_ok (sort_sources v)"
  by (simp add: vec_ok_def sort_sources_def)

end
