(* ===== verification/Driver_Tree.thy ===== *)
theory Driver_Tree
  imports Prelude
begin

text \<open>
  The cursor traversal of the benchmark driver (\<open>count_nodes_and_errors\<close> of \<open>src/bench/driver.c\<close>).
  The cursor of tree-sitter is a parameter: three moves that say whether they moved, on a type of
  cursors of which only the position is known. What the traversal relies on is \<open>cursor_api\<close>, the
  documented behaviour of the moves on a tree. The traversal ends, and counts every leaf once and
  every inner node twice: once on the way down and once more on the way up.
\<close>

section \<open>Code\<close>

partial_function (option) count_loop ::
  "('c \<Rightarrow> bool \<times> 'c) \<Rightarrow> ('c \<Rightarrow> bool \<times> 'c) \<Rightarrow> ('c \<Rightarrow> bool \<times> 'c) \<Rightarrow> bool \<Rightarrow> u64 \<Rightarrow> 'c \<Rightarrow> (u64 \<times> 'c) option" where
  "count_loop goto_first_child goto_next_sibling goto_parent descending nodes cur =
     (let nodes = nodes + 1; (moved, cur) = (if descending then goto_first_child cur else (False, cur)) in
      if moved then count_loop goto_first_child goto_next_sibling goto_parent descending nodes cur
      else let (moved, cur) = goto_next_sibling cur in
        if moved then count_loop goto_first_child goto_next_sibling goto_parent True nodes cur
        else let (moved, cur) = goto_parent cur in
          if moved then count_loop goto_first_child goto_next_sibling goto_parent False nodes cur
          else Some (nodes, cur))"

declare count_loop.simps [code]

section \<open>Trees and cursors\<close>

datatype tree = Node (children: "tree list")

fun nodes_of :: "tree \<Rightarrow> nat" where
  "nodes_of (Node ts) = 1 + sum_list (map nodes_of ts)"

fun inner_of :: "tree \<Rightarrow> nat" where
  "inner_of (Node ts) = (if ts = [] then 0 else 1) + sum_list (map inner_of ts)"

fun visits :: "tree \<Rightarrow> nat" where
  "visits (Node ts) = (if ts = [] then 1 else 2) + sum_list (map visits ts)"

text \<open>A position is the list of child indices from the root.\<close>

fun subtree :: "tree \<Rightarrow> nat list \<Rightarrow> tree" where
  "subtree t [] = t"
| "subtree t (i # p) = subtree (children t ! i) p"

definition first_child :: "tree \<Rightarrow> nat list \<Rightarrow> bool \<times> nat list" where
  "first_child t p = (if children (subtree t p) \<noteq> [] then (True, p @ [0]) else (False, p))"

definition next_sibling :: "tree \<Rightarrow> nat list \<Rightarrow> bool \<times> nat list" where
  "next_sibling t p =
     (if p \<noteq> [] \<and> last p + 1 < length (children (subtree t (butlast p))) then (True, butlast p @ [last p + 1])
      else (False, p))"

definition parent :: "tree \<Rightarrow> nat list \<Rightarrow> bool \<times> nat list" where
  "parent t p = (if p \<noteq> [] then (True, butlast p) else (False, p))"

definition cursor_api ::
  "('c \<Rightarrow> nat list) \<Rightarrow> tree \<Rightarrow> ('c \<Rightarrow> bool \<times> 'c) \<Rightarrow> ('c \<Rightarrow> bool \<times> 'c) \<Rightarrow> ('c \<Rightarrow> bool \<times> 'c) \<Rightarrow> bool" where
  "cursor_api pos t goto_first_child goto_next_sibling goto_parent \<longleftrightarrow>
     (\<forall>c. map_prod id pos (goto_first_child c) = first_child t (pos c)) \<and>
     (\<forall>c. map_prod id pos (goto_next_sibling c) = next_sibling t (pos c)) \<and>
     (\<forall>c. map_prod id pos (goto_parent c) = parent t (pos c))"

lemma visits_eq: "visits t = nodes_of t + inner_of t"
proof (induction t)
  case (Node ts)
  then have "sum_list (map visits ts) = sum_list (map nodes_of ts) + sum_list (map inner_of ts)"
    by (induction ts) auto
  then show ?case by simp
qed

lemma subtree_snoc: "subtree t (p @ [i]) = children (subtree t p) ! i"
  by (induction p arbitrary: t) auto

section \<open>The traversal\<close>

lemma move_cases:
  assumes "map_prod id pos (f c) = r"
  obtains c' where "f c = (fst r, c')" and "pos c' = snd r"
  using assms by (cases "f c") auto

text \<open>The rest of a round, once there is no way further down.\<close>

definition finish ::
  "('c \<Rightarrow> bool \<times> 'c) \<Rightarrow> ('c \<Rightarrow> bool \<times> 'c) \<Rightarrow> ('c \<Rightarrow> bool \<times> 'c) \<Rightarrow> u64 \<Rightarrow> 'c \<Rightarrow> (u64 \<times> 'c) option" where
  "finish ff fn fp nodes cur =
     (let (moved, cur) = fn cur in
      if moved then count_loop ff fn fp True nodes cur
      else let (moved, cur) = fp cur in
        if moved then count_loop ff fn fp False nodes cur else Some (nodes, cur))"

lemma count_up: "count_loop ff fn fp False n c = finish ff fn fp (n + 1) c"
  by (subst count_loop.simps) (simp add: finish_def Let_def)

lemma count_down:
  "count_loop ff fn fp True n c =
     (if fst (ff c) then count_loop ff fn fp True (n + 1) (snd (ff c)) else finish ff fn fp (n + 1) (snd (ff c)))"
  by (subst count_loop.simps) (simp add: finish_def Let_def split: prod.split)

lemma count_children:
  assumes api: "cursor_api pos T ff fn fp"
    and ts: "children (subtree T p) = ts"
    and each: "\<And>t c n. t \<in> set ts \<Longrightarrow> subtree T (pos c) = t \<Longrightarrow>
      \<exists>c'. count_loop ff fn fp True n c = finish ff fn fp (n + of_nat (visits t)) c' \<and> pos c' = pos c"
    and "pos c = p @ [i]" and "i < length ts"
  shows "\<exists>c'. count_loop ff fn fp True n c = count_loop ff fn fp False (n + of_nat (sum_list (map visits (drop i ts)))) c' \<and> pos c' = p"
  using assms(4,5)
proof (induction "length ts - i" arbitrary: i c n)
  case (Suc k)
  let ?t = "ts ! i"
  have d: "drop i ts = ?t # drop (i + 1) ts" using Suc.prems(2) by (simp add: Cons_nth_drop_Suc)
  have "subtree T (pos c) = ?t" using Suc.prems(1) ts by (simp add: subtree_snoc)
  then obtain c1 where c1: "count_loop ff fn fp True n c = finish ff fn fp (n + of_nat (visits ?t)) c1" "pos c1 = p @ [i]"
    using each [OF nth_mem [OF Suc.prems(2)]] Suc.prems(1) by metis
  have "map_prod id pos (fn c1) = next_sibling T (pos c1)" using api by (simp add: cursor_api_def)
  then obtain c2 where c2: "fn c1 = (fst (next_sibling T (pos c1)), c2)" "pos c2 = snd (next_sibling T (pos c1))"
    by (rule move_cases)
  show ?case
  proof (cases "i + 1 < length ts")
    case True
    have k: "k = length ts - (i + 1)" using Suc.hyps(2) by simp
    have "fn c1 = (True, c2)" "pos c2 = p @ [i + 1]" using True c2 c1(2) ts by (simp_all add: next_sibling_def)
    moreover from this obtain c3 where "count_loop ff fn fp True (n + of_nat (visits ?t)) c2 =
        count_loop ff fn fp False (n + of_nat (visits ?t) + of_nat (sum_list (map visits (drop (i + 1) ts)))) c3" "pos c3 = p"
      using Suc.hyps(1) [OF k _ True, of c2] by blast
    ultimately show ?thesis using c1(1) by (auto simp: finish_def d add.assoc)
  next
    case False
    then have n: "fn c1 = (False, c2)" "pos c2 = p @ [i]" using c2 c1(2) ts by (simp_all add: next_sibling_def)
    have "map_prod id pos (fp c2) = parent T (pos c2)" using api by (simp add: cursor_api_def)
    then obtain c3 where "fp c2 = (fst (parent T (pos c2)), c3)" "pos c3 = snd (parent T (pos c2))" by (rule move_cases)
    then have "fp c2 = (True, c3)" "pos c3 = p" using n by (simp_all add: parent_def)
    then show ?thesis using c1(1) n False Suc.prems(2) by (auto simp: finish_def d)
  qed
qed simp

lemma count_subtree:
  assumes api: "cursor_api pos T ff fn fp"
  shows "subtree T (pos c) = t \<Longrightarrow>
    \<exists>c'. count_loop ff fn fp True n c = finish ff fn fp (n + of_nat (visits t)) c' \<and> pos c' = pos c"
proof (induction t arbitrary: c n)
  case (Node ts)
  have "map_prod id pos (ff c) = first_child T (pos c)" using api by (simp add: cursor_api_def)
  then obtain c1 where c1: "ff c = (fst (first_child T (pos c)), c1)" "pos c1 = snd (first_child T (pos c))"
    by (rule move_cases)
  show ?case
  proof (cases "ts = []")
    case True
    then have "ff c = (False, c1)" "pos c1 = pos c" using c1 Node.prems by (simp_all add: first_child_def)
    then show ?thesis using True by (subst count_down) auto
  next
    case False
    then have f: "ff c = (True, c1)" "pos c1 = pos c @ [0]" using c1 Node.prems by (simp_all add: first_child_def)
    have "\<exists>c'. count_loop ff fn fp True (n + 1) c1 = count_loop ff fn fp False (n + 1 + of_nat (sum_list (map visits (drop 0 ts)))) c' \<and> pos c' = pos c"
      by (rule count_children [OF api _ Node.IH f(2)]) (use Node.prems False in auto)
    then show ?thesis using False f by (subst count_down) (auto simp: count_up add_ac)
  qed
qed

lemma count_tree:
  assumes api: "cursor_api pos T ff fn fp" and "pos c = []"
  shows "\<exists>c'. count_loop ff fn fp True 0 c = Some (of_nat (visits T), c') \<and> pos c' = []"
proof -
  obtain c1 where c1: "count_loop ff fn fp True 0 c = finish ff fn fp (of_nat (visits T)) c1" "pos c1 = []"
    using count_subtree [OF api, of c T 0] assms(2) by auto
  have "map_prod id pos (fn c1) = next_sibling T (pos c1)" using api by (simp add: cursor_api_def)
  then obtain c2 where c2: "fn c1 = (fst (next_sibling T (pos c1)), c2)" "pos c2 = snd (next_sibling T (pos c1))"
    by (rule move_cases)
  have "map_prod id pos (fp c2) = parent T (pos c2)" using api by (simp add: cursor_api_def)
  then obtain c3 where c3: "fp c2 = (fst (parent T (pos c2)), c3)" "pos c3 = snd (parent T (pos c2))" by (rule move_cases)
  show ?thesis using c1 c2 c3 by (simp add: finish_def next_sibling_def parent_def)
qed

end
