(* ===== verification/Buffer.thy ===== *)
theory Buffer
  imports Memory
begin

text \<open>
  Byte buffers of the corpus: the bytes of one allocation as a list, accessed at an offset that
  may be computed by C arithmetic and is therefore an integer. An access that is not inside the
  buffer is a fault, the value \<open>None\<close>. A buffer of records of equal size is the concatenation of
  their encodings; the lemmas of the last section read, replace, insert and delete one of them.
\<close>

section \<open>Accesses\<close>

definition bread :: "u8 list \<Rightarrow> int \<Rightarrow> nat \<Rightarrow> u8 list option" where
  "bread bs off n =
     (if 0 \<le> off \<and> off + int n \<le> int (length bs) then Some (take n (drop (nat off) bs)) else None)"

definition bwrite :: "u8 list \<Rightarrow> int \<Rightarrow> u8 list \<Rightarrow> u8 list option" where
  "bwrite bs off xs =
     (if 0 \<le> off \<and> off + int (length xs) \<le> int (length bs)
      then Some (take (nat off) bs @ xs @ drop (nat off + length xs) bs) else None)"

definition put :: "u8 list \<Rightarrow> nat \<Rightarrow> u8 \<Rightarrow> u8 list option" where
  "put buf i c = (if i < length buf then Some (buf[i := c]) else None)"

definition bmove :: "u8 list \<Rightarrow> int \<Rightarrow> int \<Rightarrow> nat \<Rightarrow> u8 list option" where
  "bmove bs dst src n = do { xs \<leftarrow> bread bs src n; bwrite bs dst xs }"

text \<open>\<open>realloc\<close> of the buffer to \<open>n\<close> bytes; the bytes it adds are unspecified, here \<open>g i\<close>.\<close>

definition brealloc :: "(nat \<Rightarrow> u8) \<Rightarrow> nat \<Rightarrow> u8 list \<Rightarrow> u8 list" where
  "brealloc g n bs = map (\<lambda>i. if i < length bs then bs ! i else g i) [0..<n]"

lemma bread_append:
  "length xs = k \<Longrightarrow> n = length ys \<Longrightarrow> off = int k \<Longrightarrow> bread (xs @ ys @ zs) off n = Some ys"
  by (simp add: bread_def)

lemma bread_nat: "bread bs (int k) n = (if k + n \<le> length bs then Some (take n (drop k bs)) else None)"
  by (auto simp: bread_def)

lemma bwrite_nat: "bwrite bs (int k) xs =
    (if k + length xs \<le> length bs then Some (take k bs @ xs @ drop (k + length xs) bs) else None)"
  by (auto simp: bwrite_def)

lemma length_bread: "bread bs off n = Some ys \<Longrightarrow> length ys = n"
  by (auto simp: bread_def split: if_splits)

lemma bwrite_append:
  "length xs = k \<Longrightarrow> length ys' = length ys \<Longrightarrow> off = int k \<Longrightarrow>
    bwrite (xs @ ys @ zs) off ys' = Some (xs @ ys' @ zs)"
  by (simp add: bwrite_def)

lemma length_bwrite: "bwrite bs off xs = Some bs' \<Longrightarrow> length bs' = length bs"
  by (auto simp: bwrite_def split: if_splits)

lemma length_brealloc [simp]: "length (brealloc g n bs) = n"
  by (simp add: brealloc_def)

lemma brealloc_grow: "length bs \<le> n \<Longrightarrow> brealloc g n bs = bs @ map g [length bs..<n]"
  by (rule nth_equalityI) (auto simp: brealloc_def nth_append)

lemma brealloc_shrink: "n \<le> length bs \<Longrightarrow> brealloc g n bs = take n bs"
  by (rule nth_equalityI) (auto simp: brealloc_def)

section \<open>Buffers of equal records\<close>

abbreviation uniform :: "nat \<Rightarrow> ('a \<Rightarrow> u8 list) \<Rightarrow> bool" where
  "uniform e f \<equiv> \<forall>x. length (f x) = e"

definition enc_all :: "('a \<Rightarrow> u8 list) \<Rightarrow> 'a list \<Rightarrow> u8 list" where
  "enc_all f vs = concat (map f vs)"

lemma enc_all_simps [simp]:
  "enc_all f [] = []" "enc_all f (v # vs) = f v @ enc_all f vs" "enc_all f (us @ vs) = enc_all f us @ enc_all f vs"
  by (simp_all add: enc_all_def)

lemma length_enc_all: "uniform e f \<Longrightarrow> length (enc_all f vs) = length vs * e"
  by (induction vs) auto

lemma bread_enc_all:
  assumes "uniform e f" and "i < length vs"
  shows "bread (enc_all f vs @ zs) (int i * int e) e = Some (f (vs ! i))"
proof -
  have "enc_all f vs @ zs = enc_all f (take i vs) @ f (vs ! i) @ enc_all f (drop (Suc i) vs) @ zs"
    using assms(2) by (metis append_assoc enc_all_simps(2,3) id_take_nth_drop)
  then show ?thesis
    using assms by (simp only:) (rule bread_append, auto simp: length_enc_all)
qed

lemma bwrite_enc_all:
  assumes "uniform e f" and "i < length vs"
  shows "bwrite (enc_all f vs) (int i * int e) (f v) = Some (enc_all f (vs[i := v]))"
proof -
  have "enc_all f vs = enc_all f (take i vs) @ f (vs ! i) @ enc_all f (drop (Suc i) vs)"
    using assms(2) by (metis enc_all_simps(2,3) id_take_nth_drop)
  moreover have "enc_all f (vs[i := v]) = enc_all f (take i vs) @ f v @ enc_all f (drop (Suc i) vs)"
    using assms(2) by (simp add: upd_conv_take_nth_drop)
  ultimately show ?thesis
    using assms by (simp only:) (rule bwrite_append, auto simp: length_enc_all)
qed

end
