(* ===== verification/Numbers.thy ===== *)
theory Numbers
  imports Buffer
begin

text \<open>
  Conversion between machine integers and decimal strings, from
  \<open>src/bench/redis-src/util.c\<close>: \<open>digits10\<close>, \<open>sdigits10\<close>, \<open>ull2string\<close>, \<open>ll2string\<close>,
  \<open>string2ll\<close>, \<open>string2l\<close>, the hexadecimal reader and \<open>memtoull\<close>. Strings are lists of bytes;
  a destination buffer is the list of its \<open>dstlen\<close> bytes, and a write outside of it is a
  fault (\<open>None\<close>). A \<open>long long\<close> is an integer between \<open>LLONG_MIN\<close> and \<open>LLONG_MAX\<close>.
\<close>

definition LLONG_MIN :: int where "LLONG_MIN = - (2 ^ 63)"

definition LLONG_MAX :: int where "LLONG_MAX = 2 ^ 63 - 1"

definition ULLONG_MAX :: u64 where "ULLONG_MAX = - 1"

definition LONG_STR_SIZE :: nat where "LONG_STR_SIZE = 21"

section \<open>Printing\<close>

function digits10 :: "u64 \<Rightarrow> nat" where
  "digits10 v =
     (if v < 10 then 1
      else if v < 100 then 2
      else if v < 1000 then 3
      else if v < 1000000000000 then
        (if v < 100000000 then
           (if v < 1000000 then
              (if v < 10000 then 4 else 5 + (if v \<ge> 100000 then 1 else 0))
            else 7 + (if v \<ge> 10000000 then 1 else 0))
         else if v < 10000000000 then 9 + (if v \<ge> 1000000000 then 1 else 0)
         else 11 + (if v \<ge> 100000000000 then 1 else 0))
      else 12 + digits10 (v div 1000000000000))"
  by auto
termination
  by (relation "measure unat") (auto simp: unat_div word_less_nat_alt intro: div_less_dividend)

declare digits10.simps [simp del]

definition sdigits10 :: "int \<Rightarrow> nat" where
  "sdigits10 v =
     (if v < 0 then
        let uv = (if v \<noteq> LLONG_MIN then word_of_int (- v) else word_of_int LLONG_MAX + 1 :: u64)
        in digits10 uv + 1
      else digits10 (word_of_int v))"

definition digit_pairs :: "u8 list" where
  "digit_pairs = map of_char
     (''0001020304050607080910111213141516171819'' @
      ''2021222324252627282930313233343536373839'' @
      ''4041424344454647484950515253545556575859'' @
      ''6061626364656667686970717273747576777879'' @
      ''8081828384858687888990919293949596979899'')"

text \<open>The loop that stores two digits at a time from the right, and the last one or two digits.\<close>

function ull2string_loop :: "u8 list \<Rightarrow> u32 \<Rightarrow> u64 \<Rightarrow> u8 list option" where
  "ull2string_loop dst nxt value =
     (if value \<ge> 100 then
        let i = unat (value mod 100) * 2 in
        do {
          dst \<leftarrow> put dst (unat nxt) (digit_pairs ! (i + 1));
          dst \<leftarrow> put dst (unat (nxt - 1)) (digit_pairs ! i);
          ull2string_loop dst (nxt - 2) (value div 100)
        }
      else if value < 10 then put dst (unat nxt) (48 + ucast value)
      else
        let i = unat value * 2 in
        do {
          dst \<leftarrow> put dst (unat nxt) (digit_pairs ! (i + 1));
          put dst (unat (nxt - 1)) (digit_pairs ! i)
        })"
  by auto
termination
  by (relation "measure (\<lambda>(_, _, v). unat v)") (auto simp: unat_div word_le_nat_alt intro: div_less_dividend)

declare ull2string_loop.simps [simp del]

definition terminate_empty :: "u8 list \<Rightarrow> u8 list" where
  "terminate_empty dst = (if length dst > 0 then dst[0 := 0] else dst)"

definition ull2string :: "u8 list \<Rightarrow> u64 \<Rightarrow> (nat \<times> u8 list) option" where
  "ull2string dst value =
     (let len = digits10 value in
      if len \<ge> length dst then Some (0, terminate_empty dst)
      else
        let nxt = w32 (len - 1) in
        do {
          dst \<leftarrow> put dst (unat nxt + 1) 0;
          dst \<leftarrow> ull2string_loop dst nxt value;
          Some (len, dst)
        })"

definition ll2string :: "u8 list \<Rightarrow> int \<Rightarrow> (nat \<times> u8 list) option" where
  "ll2string dst svalue =
     (if svalue < 0 then
        let value = (if svalue \<noteq> LLONG_MIN then word_of_int (- svalue) else word_of_int LLONG_MAX + 1 :: u64)
        in if length dst < 2 then Some (0, terminate_empty dst)
           else do {
             dst \<leftarrow> put dst 0 45;
             (n, rest) \<leftarrow> ull2string (drop 1 dst) value;
             Some (if n = 0 then 0 else n + 1, take 1 dst @ rest)
           }
      else ull2string dst (word_of_int svalue))"

section \<open>Parsing\<close>

fun string2ll_loop :: "u64 \<Rightarrow> u8 list \<Rightarrow> (u64 \<times> u8 list) option" where
  "string2ll_loop v [] = Some (v, [])"
| "string2ll_loop v (c # p) =
     (if 48 \<le> c \<and> c \<le> 57 then
        if v > ULLONG_MAX div 10 then None
        else
          let v = v * 10 in
          if v > ULLONG_MAX - ucast (c - 48) then None
          else string2ll_loop (v + ucast (c - 48)) p
      else Some (v, c # p))"

text \<open>\<open>None\<close> is the return value 0; \<open>Some z\<close> is the return value 1 with \<open>*value = z\<close>.\<close>

definition string2ll_unsigned :: "bool \<Rightarrow> u8 list \<Rightarrow> int option" where
  "string2ll_unsigned negative p =
     (case p of
        [] \<Rightarrow> None
      | c # p \<Rightarrow>
          if 49 \<le> c \<and> c \<le> 57 then
            case string2ll_loop (ucast (c - 48)) p of
              None \<Rightarrow> None
            | Some (v, rest) \<Rightarrow>
                if rest \<noteq> [] then None
                else if negative then
                  (if v > word_of_int (- (LLONG_MIN + 1)) + 1 then None else Some (sint (- v)))
                else (if v > word_of_int LLONG_MAX then None else Some (sint v))
          else None)"

definition string2ll :: "u8 list \<Rightarrow> int option" where
  "string2ll s =
     (if length s = 0 \<or> length s \<ge> LONG_STR_SIZE then None
      else if length s = 1 \<and> s ! 0 = 48 then Some 0
      else if s ! 0 = 45 then
        (if length s = 1 then None else string2ll_unsigned True (drop 1 s))
      else string2ll_unsigned False s)"

definition string2l :: "u8 list \<Rightarrow> int option" where
  "string2l s =
     (case string2ll s of
        None \<Rightarrow> None
      | Some llval \<Rightarrow> if llval < LLONG_MIN \<or> llval > LLONG_MAX then None else Some llval)"

text \<open>
  The signal-safe hexadecimal reader. It reads \<open>src[i]\<close> before it compares \<open>i\<close> with \<open>slen\<close>; a read
  past the end of the buffer is a fault. \<open>Some None\<close> is the return value -1.
\<close>

definition safe_is_c_in_range :: "u8 \<Rightarrow> u8 \<Rightarrow> u8 \<Rightarrow> bool" where
  "safe_is_c_in_range c start end' \<longleftrightarrow> start \<le> c \<and> c \<le> end'"

definition base_16_char_type :: "u8 \<Rightarrow> nat option" where
  "base_16_char_type c =
     (if safe_is_c_in_range c 48 57 then Some 0
      else if safe_is_c_in_range c 97 102 then Some 1
      else if safe_is_c_in_range c 65 70 then Some 2
      else None)"

definition ascii_to_dec :: "u8 list" where "ascii_to_dec = [48, 97 - 10, 65 - 10]"

function base16_loop :: "u8 list \<Rightarrow> nat \<Rightarrow> nat \<Rightarrow> u64 \<Rightarrow> u64 option option" where
  "base16_loop src slen i result =
     (if i < length src then
        case base_16_char_type (src ! i) of
          None \<Rightarrow> Some (Some result)
        | Some t \<Rightarrow>
            if i < slen then
              let curr_val = ucast (src ! i - ascii_to_dec ! t) in
              if result > ULLONG_MAX div 16 \<or> result > (ULLONG_MAX - curr_val) div 16 then Some None
              else base16_loop src slen (i + 1) (result * 16 + curr_val)
            else Some (Some result)
      else None)"
  by auto
termination by (relation "measure (\<lambda>(_, slen, i, _). slen - i)") auto

declare base16_loop.simps [simp del]

definition string2ul_base16_async_signal_safe :: "u8 list \<Rightarrow> nat \<Rightarrow> u64 option option" where
  "string2ul_base16_async_signal_safe src slen = base16_loop src slen 0 0"

text \<open>
  \<open>memtoull\<close> on a C string without its terminator. Whether \<open>strtoull\<close> reports \<open>EINVAL\<close> for a string
  with no digits is left to the C library (the flag \<open>einval\<close>); on digits it saturates.
\<close>

definition lower :: "u8 \<Rightarrow> u8" where
  "lower c = (if 65 \<le> c \<and> c \<le> 90 then c + 32 else c)"

definition isdigit :: "u8 \<Rightarrow> bool" where
  "isdigit c \<longleftrightarrow> 48 \<le> c \<and> c \<le> 57"

definition strtoull_digits :: "u8 list \<Rightarrow> u64" where
  "strtoull_digits ds =
     (let n = foldl (\<lambda>n c. n * 10 + unat (c - 48)) 0 ds in if n < 2 ^ 64 then w64 n else ULLONG_MAX)"

definition mem_unit :: "u8 list \<Rightarrow> u64 option" where
  "mem_unit u =
     (let u = map lower u in
      if u = [] \<or> u = [98] then Some 1
      else if u = [107] then Some 1000
      else if u = [107, 98] then Some 1024
      else if u = [109] then Some (1000 * 1000)
      else if u = [109, 98] then Some (1024 * 1024)
      else if u = [103] then Some (1000 * 1000 * 1000)
      else if u = [103, 98] then Some (1024 * 1024 * 1024)
      else None)"

definition memtoull :: "bool \<Rightarrow> u8 list \<Rightarrow> u64 option" where
  "memtoull einval p =
     (if p \<noteq> [] \<and> hd p = 45 then None
      else
        let digits = takeWhile isdigit p; u = dropWhile isdigit p in
        case mem_unit u of
          None \<Rightarrow> None
        | Some mul \<Rightarrow>
            if length digits \<ge> 128 then None
            else
              let val = strtoull_digits digits in
              if digits = [] \<and> einval then None
              else if val > ULLONG_MAX div mul then Some ULLONG_MAX
              else Some (val * mul))"

text \<open>Searching and mapping bytes in a buffer; the result of the search is an index.\<close>

fun mempbrk :: "u8 list \<Rightarrow> u8 list \<Rightarrow> nat option" where
  "mempbrk [] chars = None"
| "mempbrk (c # s) chars = (if list_ex (\<lambda>d. c = d) chars then Some 0 else map_option Suc (mempbrk s chars))"

fun mapchar :: "u8 \<Rightarrow> u8 list \<Rightarrow> u8 list \<Rightarrow> u8" where
  "mapchar c (f # from) (t # to) = (if c = f then t else mapchar c from to)"
| "mapchar c _ _ = c"

definition memmapchars :: "u8 list \<Rightarrow> u8 list \<Rightarrow> u8 list \<Rightarrow> u8 list" where
  "memmapchars s from to = map (\<lambda>c. mapchar c from to) s"

section \<open>Decimal notation\<close>

fun dec :: "nat \<Rightarrow> u8 list" where
  "dec n = (if n < 10 then [48 + of_nat n] else dec (n div 10) @ [48 + of_nat (n mod 10)])"

declare dec.simps [simp del]

definition dec_int :: "int \<Rightarrow> u8 list" where
  "dec_int z = (if z < 0 then 45 # dec (nat (- z)) else dec (nat z))"

definition is_digit :: "u8 \<Rightarrow> bool" where
  "is_digit c \<longleftrightarrow> 48 \<le> c \<and> c \<le> 57"

definition dval :: "nat \<Rightarrow> u8 list \<Rightarrow> nat" where
  "dval = foldl (\<lambda>n c. n * 10 + unat (c - 48))"

lemma length_dec_div:
  "10 ^ k \<le> n \<Longrightarrow> length (dec n) = k + length (dec (n div 10 ^ k))"
proof (induction k arbitrary: n)
  case (Suc k)
  have "10 * 10 ^ k \<le> n" using Suc.prems by simp
  moreover have "(10::nat) \<le> 10 * 10 ^ k" by simp
  ultimately have n: "10 \<le> n" "10 ^ k \<le> n div 10" by (linarith, simp add: less_eq_div_iff_mult_less_eq)
  show ?case using Suc.IH [OF n(2)] n(1) by (subst dec.simps) (simp add: div_mult2_eq)
qed simp

lemma length_dec_eq:
  assumes "10 ^ k \<le> n" and "n < 10 ^ Suc k"
  shows "length (dec n) = Suc k"
proof -
  have "n div 10 ^ k < 10" using assms(2) by (simp add: less_mult_imp_div_less)
  then show ?thesis using length_dec_div [OF assms(1)] by (simp add: dec.simps)
qed

lemma length_dec_small: "n < 10 \<Longrightarrow> length (dec n) = 1"
  by (simp add: dec.simps)

lemma digits10_length: "digits10 v = length (dec (unat v))"
proof (induction v rule: digits10.induct)
  case (1 v)
  show ?case
  proof (cases "v < 1000000000000")
    case True
    then have l: "unat v < 1000000000000" by (simp add: word_less_nat_alt)
    show ?thesis using l
      length_dec_eq [of 1 "unat v"] length_dec_eq [of 2 "unat v"] length_dec_eq [of 3 "unat v"]
      length_dec_eq [of 4 "unat v"] length_dec_eq [of 5 "unat v"] length_dec_eq [of 6 "unat v"]
      length_dec_eq [of 7 "unat v"] length_dec_eq [of 8 "unat v"] length_dec_eq [of 9 "unat v"]
      length_dec_eq [of 10 "unat v"] length_dec_eq [of 11 "unat v"] length_dec_small [of "unat v"]
      by (subst digits10.simps) (simp add: word_less_nat_alt word_le_nat_alt)
  next
    case False
    then have ge: "10 ^ 12 \<le> unat v" by (simp add: word_less_nat_alt)
    have "\<not> v < 10" "\<not> v < 100" "\<not> v < 1000" using False by (auto simp: word_less_nat_alt)
    then show ?thesis
      using 1 False length_dec_div [OF ge] by (subst digits10.simps) (simp add: unat_div)
  qed
qed

lemma unat_word_of_int: "0 \<le> z \<Longrightarrow> z < 2 ^ 64 \<Longrightarrow> unat (word_of_int z :: u64) = nat z"
  by (simp only: unat_eq_nat_uint) (simp add: unsigned_of_int take_bit_int_eq_self)

lemma llong_abs_word:
  "(if z \<noteq> LLONG_MIN then word_of_int (- z) else word_of_int LLONG_MAX + 1 :: u64) = word_of_int (- z)"
  by (simp add: LLONG_MAX_def LLONG_MIN_def)

lemma llong_abs:
  assumes "LLONG_MIN \<le> z" and "z < 0"
  shows "unat (word_of_int (- z) :: u64) = nat (- z)"
  using assms unfolding LLONG_MIN_def by (intro unat_word_of_int) auto

lemma llong_pos:
  assumes "z \<le> LLONG_MAX" and "0 \<le> z"
  shows "unat (word_of_int z :: u64) = nat z"
  using assms unfolding LLONG_MAX_def by (intro unat_word_of_int) auto

lemma sdigits10_length:
  assumes "LLONG_MIN \<le> z" and "z \<le> LLONG_MAX"
  shows "sdigits10 z = length (dec_int z)"
proof (cases "z < 0")
  case True
  then show ?thesis
    by (simp only: sdigits10_def llong_abs_word dec_int_def digits10_length llong_abs [OF assms(1) True] Let_def) simp
next
  case False
  then show ?thesis
    using llong_pos [OF assms(2)] by (simp add: sdigits10_def dec_int_def digits10_length)
qed

section \<open>Printing is decimal notation\<close>

lemma nth_concat_pairs:
  "i < n \<Longrightarrow> concat (map (\<lambda>i. [f i, g i]) [0..<n]) ! (i * 2) = f i \<and>
    concat (map (\<lambda>i. [f i, g i]) [0..<n]) ! (i * 2 + 1) = g i"
proof (induction n)
  case (Suc n)
  have "length (concat (map (\<lambda>i. [f i, g i]) [0..<n])) = n * 2" by (induction n) simp_all
  then show ?case using Suc by (auto simp: nth_append less_Suc_eq)
qed simp

lemma digit_pairs_eq:
  "digit_pairs = concat (map (\<lambda>i. [48 + of_nat (i div 10), 48 + of_nat (i mod 10)]) [0..<100])"
  unfolding digit_pairs_def by (simp add: upt_conv_Cons)

lemma digit_pairs_nth:
  "i < 100 \<Longrightarrow> digit_pairs ! (i * 2) = 48 + of_nat (i div 10) \<and> digit_pairs ! (i * 2 + 1) = 48 + of_nat (i mod 10)"
  unfolding digit_pairs_eq by (rule nth_concat_pairs)

lemma dec_100:
  assumes "10 \<le> n"
  shows "dec n = (if n < 100 then [] else dec (n div 100)) @ [48 + of_nat (n mod 100 div 10), 48 + of_nat (n mod 100 mod 10)]"
proof -
  have m: "n mod 100 div 10 = n div 10 mod 10" "n mod 100 mod 10 = n mod 10"
    using mod_mult2_eq [of n 10 10] by (simp_all add: mod_mod_cancel)
  have d: "n div 10 < 10 \<longleftrightarrow> n < 100" "n div 10 div 10 = n div 100" by (auto simp flip: div_mult2_eq)
  show ?thesis using assms m d by (subst dec.simps, subst dec.simps) simp
qed

lemma put2:
  assumes "Suc k < length dst"
  shows "do { d \<leftarrow> put dst (Suc k) b; put d k a } = Some (take k dst @ a # b # drop (Suc (Suc k)) dst)"
proof -
  have "dst[Suc k := b, k := a] = take k dst @ a # b # drop (Suc (Suc k)) dst"
    using assms by (simp add: upd_conv_take_nth_drop take_update_swap drop_update_swap Suc_leI)
  then show ?thesis using assms by (simp add: put_def)
qed

lemma ull2string_loop_dec:
  assumes "length (dec (unat v)) = Suc k" and "Suc k \<le> length dst" and "k < 2 ^ 32"
  shows "ull2string_loop dst (w32 k) v = Some (dec (unat v) @ drop (Suc k) dst)"
  using assms
proof (induction "unat v" arbitrary: v k dst rule: less_induct)
  case less
  note A = less.prems
  show ?case
  proof (cases "unat v < 10")
    case True
    then have k: "k = 0" using A(1) by (simp add: dec.simps)
    have "\<not> 100 \<le> v" "v < 10" using True by (simp_all add: word_le_nat_alt word_less_nat_alt)
    then have "ull2string_loop dst (w32 k) v = put dst 0 (48 + ucast v)"
      by (subst ull2string_loop.simps) (simp add: k w32_def)
    moreover have "dst[0 := 48 + of_nat (unat v)] = (48 + of_nat (unat v)) # drop 1 dst"
      using A(2) by (cases dst) simp_all
    ultimately show ?thesis using True A(2) k by (auto simp: dec.simps put_def)
  next
    case False
    then have d: "dec (unat v) = (if unat v < 100 then [] else dec (unat v div 100)) @
        [48 + of_nat (unat v mod 100 div 10), 48 + of_nat (unat v mod 100 mod 10)]" by (intro dec_100) simp
    then obtain j where k: "k = Suc j" using A(1) by (cases k) (auto split: if_splits)
    have w: "w32 (Suc j) - 1 = w32 j" by (simp add: w32_def)
    have w2: "w32 (Suc j) - 2 = w32 (j - 1)" if "0 < j" using that by (cases j) (simp_all add: w32_def)
    have u: "unat (w32 (Suc j)) = Suc j" "unat (w32 j) = j"
      using A(3) k by (auto simp: unat_w32_small)
    have m: "unat v mod 100 < 100" by simp
    note P = put2 [of j dst] digit_pairs_nth [OF m]
    show ?thesis
    proof (cases "unat v < 100")
      case True
      then have "\<not> 100 \<le> v" "\<not> v < 10" "j = 0" using False A(1) d k
        by (simp_all add: word_le_nat_alt word_less_nat_alt)
      then show ?thesis using d True A(2) P k u w by (subst ull2string_loop.simps) (simp add: Let_def)
    next
      case F: False
      then have v: "100 \<le> v" by (simp add: word_le_nat_alt)
      have j: "length (dec (unat v div 100)) = j" using A(1) d k F by simp
      then have j0: "0 < j" by (subst (asm) dec.simps) (auto split: if_splits)
      let ?d = "take j dst @ (48 + of_nat (unat v mod 100 div 10)) # (48 + of_nat (unat v mod 100 mod 10)) # drop (Suc (Suc j)) dst"
      have "unat (v div 100) < unat v" using F by (simp add: unat_div)
      moreover have "length (dec (unat (v div 100))) = Suc (j - 1)" using j j0 by (simp add: unat_div)
      moreover have "Suc (j - 1) \<le> length ?d" "j - 1 < 2 ^ 32" using A(2,3) k j0 by simp_all
      ultimately have "ull2string_loop ?d (w32 (j - 1)) (v div 100) = Some (dec (unat (v div 100)) @ drop (Suc (j - 1)) ?d)"
        by (rule less.hyps)
      then have ih: "ull2string_loop ?d (w32 (j - 1)) (v div 100) = Some (dec (unat v) @ drop (Suc k) dst)"
        using d F k j0 A(2) by (simp add: unat_div)
      have "ull2string_loop dst (w32 k) v =
          do { d \<leftarrow> do { d \<leftarrow> put dst (Suc j) (digit_pairs ! (unat v mod 100 * 2 + 1)); put d j (digit_pairs ! (unat v mod 100 * 2)) };
               ull2string_loop d (w32 (j - 1)) (v div 100) }"
        using v k j0 u by (subst ull2string_loop.simps) (simp add: w w2 unat_mod Let_def)
      then show ?thesis using P A(2) k ih by simp
    qed
  qed
qed

lemma length_dec_pos: "0 < length (dec n)"
  by (subst dec.simps) simp

lemma length_dec_le: "n < 10 ^ Suc k \<Longrightarrow> length (dec n) \<le> Suc k"
proof (induction k arbitrary: n)
  case (Suc k)
  then show ?case by (subst dec.simps) (simp add: less_mult_imp_div_less)
qed (simp add: dec.simps)

lemma length_dec_u64: "length (dec (unat (v :: u64))) \<le> 20"
  using length_dec_le [of "unat v" 19] unat_less64 [of v] by simp

lemma ull2string_dec:
  "ull2string dst v =
     Some (if length (dec (unat v)) < length dst
           then (length (dec (unat v)), dec (unat v) @ 0 # drop (length (dec (unat v)) + 1) dst)
           else (0, terminate_empty dst))"
proof -
  obtain k where k: "length (dec (unat v)) = Suc k" using length_dec_pos by (metis Suc_pred)
  then have k20: "k < 20" using length_dec_u64 [of v] by simp
  then have u: "unat (w32 k) = k" by (intro unat_w32_small) simp
  have "ull2string_loop (dst[Suc k := 0]) (w32 k) v = Some (dec (unat v) @ drop (Suc k) (dst[Suc k := 0]))"
    if "Suc k < length dst"
    using that k k20 by (intro ull2string_loop_dec) auto
  then show ?thesis using k u by (auto simp: ull2string_def digits10_length put_def drop_update_swap not_less Cons_nth_drop_Suc [symmetric])
qed

lemma ll2string_dec:
  assumes "LLONG_MIN \<le> z" and "z \<le> LLONG_MAX" and fits: "length (dec_int z) < length dst"
  shows "ll2string dst z = Some (length (dec_int z), dec_int z @ 0 # drop (length (dec_int z) + 1) dst)"
proof (cases "z < 0")
  case True
  obtain c dst' where dst: "dst = c # dst'" using fits by (cases dst) auto
  have n: "length (dec (nat (- z))) < length dst'" "2 \<le> length dst" "length (dec (nat (- z))) \<noteq> 0"
    using fits True dst length_dec_pos [of "nat (- z)"] by (auto simp: dec_int_def)
  show ?thesis
    using True n dst llong_abs [OF assms(1) True]
    by (simp only: ll2string_def llong_abs_word ull2string_dec Let_def) (auto simp: put_def dec_int_def)
next
  case False
  then show ?thesis
    using fits llong_pos [OF assms(2)] by (simp add: ll2string_def ull2string_dec dec_int_def)
qed

section \<open>Parsing inverts printing\<close>

lemma is_digit_unat: "is_digit c \<longleftrightarrow> 48 \<le> unat c \<and> unat c \<le> 57"
  by (simp add: is_digit_def word_le_nat_alt)

lemma digit_value:
  assumes "is_digit c"
  shows "unat (c - 48) = unat c - 48" "unat (ucast (c - 48) :: u64) = unat c - 48" "unat c - 48 < 10"
proof -
  show e: "unat (c - 48) = unat c - 48" using assms by (simp add: is_digit_def unat_sub)
  show "unat (ucast (c - 48) :: u64) = unat c - 48"
    using e unsigned_less [of "c - 48", where 'a = nat]
    by (simp add: unsigned_ucast_eq take_bit_nat_eq_self)
  show "unat c - 48 < 10" using assms by (auto simp: is_digit_unat)
qed

lemma dval_simps [simp]: "dval n [] = n" "dval n (c # cs) = dval (n * 10 + unat (c - 48)) cs"
  "dval n (cs @ [c]) = dval n cs * 10 + unat (c - 48)"
  by (simp_all add: dval_def)

lemma dval_ge: "n \<le> dval n cs"
proof (induction cs arbitrary: n)
  case (Cons c cs)
  have "n \<le> n * 10 + unat (c - 48)" by simp
  then show ?case using Cons.IH [of "n * 10 + unat (c - 48)"] by simp
qed simp

lemma string2ll_loop_digits:
  assumes "list_all is_digit cs"
  shows "string2ll_loop v cs = (if dval (unat v) cs < 2 ^ 64 then Some (of_nat (dval (unat v) cs), []) else None)"
  using assms
proof (induction cs arbitrary: v)
  case Nil
  then show ?case by simp
next
  case (Cons c cs)
  let ?d = "unat c - 48"
  have c: "is_digit c" "48 \<le> c" "c \<le> 57" using Cons.prems by (auto simp: is_digit_def)
  note D = digit_value [OF c(1)]
  have max: "unat ULLONG_MAX = 2 ^ 64 - 1" by (simp add: ULLONG_MAX_def unsigned_minus_1_eq_mask mask_eq_exp_minus_1)
  have big: "dval (unat v) (c # cs) \<ge> unat v * 10 + ?d" using dval_ge D(1) by simp
  have a: "v > ULLONG_MAX div 10 \<longleftrightarrow> unat v > (2 ^ 64 - 1) div 10" by (simp add: word_less_nat_alt unat_div max)
  show ?case
  proof (cases "unat v * 10 + ?d < 2 ^ 64")
    case True
    then have v: "\<not> v > ULLONG_MAX div 10" "unat (v * 10) = unat v * 10"
      using a by (auto simp: unat_word_ariths)
    have "unat (ULLONG_MAX - ucast (c - 48)) = 2 ^ 64 - 1 - ?d"
      using D by (subst unat_sub) (simp_all add: max word_le_nat_alt)
    then have b: "\<not> v * 10 > ULLONG_MAX - ucast (c - 48)" using v True by (simp add: word_less_nat_alt)
    have "unat (v * 10 + ucast (c - 48)) = unat v * 10 + ?d"
      using True v(2) D(2) by (simp add: unat_word_ariths)
    then show ?thesis using Cons c v(1) b D(1) by simp
  next
    case False
    have "\<not> v > ULLONG_MAX div 10 \<Longrightarrow> v * 10 > ULLONG_MAX - ucast (c - 48)"
    proof -
      assume "\<not> v > ULLONG_MAX div 10"
      then have "unat (v * 10) = unat v * 10" using a by (simp add: unat_word_ariths)
      moreover have "unat (ULLONG_MAX - ucast (c - 48)) = 2 ^ 64 - 1 - ?d"
        using D by (subst unat_sub) (simp_all add: max word_le_nat_alt)
      ultimately show ?thesis using False D(3) by (simp add: word_less_nat_alt)
    qed
    then show ?thesis using False big c by simp
  qed
qed

lemma string2ll_loop_other:
  assumes "\<not> list_all is_digit cs"
  shows "string2ll_loop v cs = None \<or> (\<exists>w c rest. string2ll_loop v cs = Some (w, c # rest))"
  using assms
proof (induction cs arbitrary: v)
  case (Cons c cs)
  then show ?case by (cases "is_digit c") (auto simp: is_digit_def Let_def)
qed simp

lemma dec_digits: "list_all is_digit (dec n)" "dval 0 (dec n) = n" "0 < n \<Longrightarrow> hd (dec n) \<noteq> 48"
proof -
  have d: "unat (48 + of_nat k :: u8) = 48 + k" "unat (of_nat k :: u8) = k" if "k < 10" for k
    using that by (simp_all add: unat_word_ariths unsigned_of_nat take_bit_nat_eq_self)
  have "list_all is_digit (dec n) \<and> dval 0 (dec n) = n \<and> (0 < n \<longrightarrow> hd (dec n) \<noteq> 48)"
  proof (induction n rule: dec.induct)
    case (1 n)
    show ?case
    proof (cases "n < 10")
      case True
      have "(48 + of_nat n :: u8) \<noteq> 48" if "0 < n" using d(2) [OF True] that by auto
      then show ?thesis using True d by (simp add: dec.simps is_digit_unat)
    next
      case False
      have m: "n mod 10 < 10" by simp
      have "dec (n div 10) \<noteq> []" using length_dec_pos [of "n div 10"] by blast
      moreover have "is_digit (48 + of_nat (n mod 10))" using d(1) [OF m] by (auto simp: is_digit_unat)
      ultimately show ?thesis using 1 False d [OF m] by (subst (1 2 3) dec.simps) simp
    qed
  qed
  then show "list_all is_digit (dec n)" "dval 0 (dec n) = n" "0 < n \<Longrightarrow> hd (dec n) \<noteq> 48" by blast+
qed

lemma dec_dval:
  assumes "list_all is_digit (c # cs)" and "c \<noteq> 48"
  shows "dec (dval 0 (c # cs)) = c # cs \<and> 0 < dval 0 (c # cs)"
  using assms(1)
proof (induction cs rule: rev_induct)
  case Nil
  then have "is_digit c" by simp
  note D = digit_value [OF this]
  have "0 < unat (c - 48)" using assms(2) by (simp add: unat_gt_0)
  then show ?case using D(1,3) by (simp add: dec.simps)
next
  case (snoc d cs)
  then have "is_digit d" by simp
  note D = digit_value [OF this]
  have IH: "dec (dval 0 (c # cs)) = c # cs" "0 < dval 0 (c # cs)" using snoc by auto
  have "dval 0 (c # cs @ [d]) = dval 0 (c # cs) * 10 + unat (d - 48)" by simp
  moreover have "unat (d - 48) < 10" using D(1,3) by simp
  ultimately show ?case using IH by (subst dec.simps) simp
qed

lemma sint_of_nat_u64:
  "n < 2 ^ 63 \<Longrightarrow> sint (of_nat n :: u64) = int n"
  "n \<le> 2 ^ 63 \<Longrightarrow> sint (- of_nat n :: u64) = - int n"
  using signed_of_int [where 'b = 64 and 'a = int, of "int n"] signed_of_int [where 'b = 64 and 'a = int, of "- int n"]
  by (simp_all add: signed_take_bit_int_eq_self)

lemma string2ll_unsigned_dec:
  assumes "0 < n"
  shows "string2ll_unsigned False (dec n) = (if n < 2 ^ 63 then Some (int n) else None)" (is ?A)
    and "string2ll_unsigned True (dec n) = (if n \<le> 2 ^ 63 then Some (- int n) else None)" (is ?B)
proof -
  obtain c cs where d: "dec n = c # cs" using length_dec_pos [of n] by (cases "dec n") auto
  have c: "is_digit c" "list_all is_digit cs" "c \<noteq> 48" and n: "dval (unat (c - 48)) cs = n"
    using dec_digits [of n] assms d by auto
  have c': "49 \<le> c" "c \<le> 57"
    using c(1,3) word_unat_eq_iff [of c 48] by (auto simp: is_digit_def word_le_nat_alt)
  have loop: "string2ll_loop (ucast (c - 48)) cs = (if n < 2 ^ 64 then Some (of_nat n, []) else None)"
    using string2ll_loop_digits [OF c(2)] n digit_value [OF c(1)] by simp
  have u: "unat (of_nat n :: u64) = n" if "n < 2 ^ 64" using that unat_w64_small [of n] by (simp add: w64_def)
  have lim: "unat (word_of_int LLONG_MAX :: u64) = 2 ^ 63 - 1"
    "unat (word_of_int (- (LLONG_MIN + 1)) + 1 :: u64) = 2 ^ 63"
    by (simp_all add: LLONG_MAX_def LLONG_MIN_def)
  show ?A
  proof (cases "n < 2 ^ 64")
    case True
    then show ?thesis using loop d c' u [OF True] lim(1)
      by (simp add: string2ll_unsigned_def word_less_nat_alt sint_of_nat_u64)
  qed (use loop d c' in \<open>simp add: string2ll_unsigned_def\<close>)
  show ?B
  proof (cases "n < 2 ^ 64")
    case True
    then show ?thesis using loop d c' u [OF True] lim(2)
      by (simp only: string2ll_unsigned_def word_less_nat_alt) (simp add: sint_of_nat_u64)
  qed (use loop d c' in \<open>simp add: string2ll_unsigned_def\<close>)
qed

lemma string2ll_unsigned_some:
  assumes "string2ll_unsigned b p = Some z"
  shows "\<exists>n > 0. p = dec n"
proof -
  obtain c cs where p: "p = c # cs" "49 \<le> c" "c \<le> 57"
    using assms by (auto simp: string2ll_unsigned_def split: list.splits if_splits)
  have "list_all is_digit cs"
    using assms p string2ll_loop_other [of cs "ucast (c - 48)"]
    by (cases "list_all is_digit cs") (auto simp: string2ll_unsigned_def split: option.splits if_splits)
  moreover have "is_digit c" "c \<noteq> 48" using p by (auto simp: is_digit_def word_le_nat_alt)
  ultimately have "dec (dval 0 (c # cs)) = c # cs \<and> 0 < dval 0 (c # cs)" by (intro dec_dval) auto
  then show ?thesis using p(1) by metis
qed

lemma length_dec_llong: "n \<le> 2 ^ 63 \<Longrightarrow> length (dec n) \<le> 19"
  using length_dec_le [of n 18] by simp

lemma string2ll_iff:
  "string2ll s = Some z \<longleftrightarrow> LLONG_MIN \<le> z \<and> z \<le> LLONG_MAX \<and> s = dec_int z"
proof
  assume L: "string2ll s = Some z"
  show "LLONG_MIN \<le> z \<and> z \<le> LLONG_MAX \<and> s = dec_int z"
  proof (cases "length s = 1 \<and> s ! 0 = 48")
    case True
    then show ?thesis using L by (cases s) (auto simp: string2ll_def LONG_STR_SIZE_def LLONG_MIN_def LLONG_MAX_def dec_int_def dec.simps)
  next
    case F: False
    show ?thesis
    proof (cases "s ! 0 = 45")
      case True
      then have "string2ll_unsigned True (drop 1 s) = Some z" "s \<noteq> []"
        using L F by (auto simp: string2ll_def split: if_splits)
      moreover from this obtain n where "0 < n" "drop 1 s = dec n" using string2ll_unsigned_some by blast
      ultimately show ?thesis using string2ll_unsigned_dec(2) [of n] True
        by (cases s) (auto simp: dec_int_def LLONG_MIN_def LLONG_MAX_def split: if_splits)
    next
      case False
      then have "string2ll_unsigned False s = Some z" using L F by (auto simp: string2ll_def split: if_splits)
      moreover from this obtain n where "0 < n" "s = dec n" using string2ll_unsigned_some by blast
      ultimately show ?thesis using string2ll_unsigned_dec(1) [of n]
        by (auto simp: dec_int_def LLONG_MIN_def LLONG_MAX_def split: if_splits)
    qed
  qed
next
  assume R: "LLONG_MIN \<le> z \<and> z \<le> LLONG_MAX \<and> s = dec_int z"
  consider "z = 0" | "0 < z" | "z < 0" by linarith
  then show "string2ll s = Some z"
  proof cases
    case 1
    then show ?thesis using R by (simp add: dec_int_def dec.simps string2ll_def LONG_STR_SIZE_def)
  next
    case 2
    define n where "n = nat z"
    then have n: "0 < n" "n < 2 ^ 63" "z = int n" "s = dec n"
      using 2 R by (auto simp: LLONG_MAX_def dec_int_def)
    obtain c cs where d: "dec n = c # cs" using length_dec_pos [of n] by (cases "dec n") auto
    have "c \<noteq> 48" "c \<noteq> 45" using dec_digits(1,3) [of n] d n(1) by (auto simp: is_digit_def)
    then show ?thesis using string2ll_unsigned_dec(1) [OF n(1)] n length_dec_llong [of n] d
      by (simp add: string2ll_def LONG_STR_SIZE_def)
  next
    case 3
    define n where "n = nat (- z)"
    then have n: "0 < n" "n \<le> 2 ^ 63" "z = - int n" "s = 45 # dec n"
      using 3 R by (auto simp: LLONG_MIN_def dec_int_def)
    then show ?thesis using string2ll_unsigned_dec(2) [OF n(1)] length_dec_llong [of n] length_dec_pos [of n]
      by (simp add: string2ll_def LONG_STR_SIZE_def)
  qed
qed

section \<open>Hexadecimal\<close>

definition hexval :: "nat \<Rightarrow> u8 list \<Rightarrow> nat" where
  "hexval = foldl (\<lambda>n c. n * 16 + unat (c - ascii_to_dec ! the (base_16_char_type c)))"

definition is_hex :: "u8 \<Rightarrow> bool" where
  "is_hex c \<longleftrightarrow> base_16_char_type c \<noteq> None"

lemma hexval_simps [simp]: "hexval n [] = n"
  "hexval n (c # cs) = hexval (n * 16 + unat (c - ascii_to_dec ! the (base_16_char_type c))) cs"
  by (simp_all add: hexval_def)

lemma hexval_ge: "n \<le> hexval n cs"
proof (induction cs arbitrary: n)
  case (Cons c cs)
  show ?case using Cons.IH [of "n * 16 + unat (c - ascii_to_dec ! the (base_16_char_type c))"] by simp
qed simp

lemma hex_digit:
  assumes "base_16_char_type c = Some t"
  shows "unat (c - ascii_to_dec ! t) < 16"
  using assms by (auto simp: base_16_char_type_def safe_is_c_in_range_def ascii_to_dec_def word_le_nat_alt unat_sub
      split: if_splits)

lemma base16_step:
  assumes "d < 16"
  shows "(r > ULLONG_MAX div 16 \<or> r > (ULLONG_MAX - w64 d) div 16) \<longleftrightarrow> 2 ^ 64 \<le> unat r * 16 + d"
    and "unat r * 16 + d < 2 ^ 64 \<Longrightarrow> unat (r * 16 + w64 d) = unat r * 16 + d"
proof -
  have max: "unat ULLONG_MAX = 2 ^ 64 - 1" by (simp add: ULLONG_MAX_def unsigned_minus_1_eq_mask mask_eq_exp_minus_1)
  have d: "unat (w64 d) = d" using assms by (simp add: unat_w64_small)
  have "unat (ULLONG_MAX - w64 d) = 2 ^ 64 - 1 - d"
    using assms d by (subst unat_sub) (simp_all add: max word_le_nat_alt)
  then show "(r > ULLONG_MAX div 16 \<or> r > (ULLONG_MAX - w64 d) div 16) \<longleftrightarrow> 2 ^ 64 \<le> unat r * 16 + d"
    using assms by (auto simp: word_less_nat_alt unat_div max)
  show "unat r * 16 + d < 2 ^ 64 \<Longrightarrow> unat (r * 16 + w64 d) = unat r * 16 + d"
    by (simp add: unat_word_ariths d)
qed

lemma base16_loop_hex:
  assumes "i < length src" and "i < slen" and "base_16_char_type (src ! i) = Some t"
  defines "d \<equiv> unat (src ! i - ascii_to_dec ! t)"
  shows "base16_loop src slen i r =
    (if unat r * 16 + d < 2 ^ 64 then base16_loop src slen (i + 1) (r * 16 + w64 d) else Some None)"
proof -
  have "ucast (src ! i - ascii_to_dec ! t) = w64 d" by (simp add: d_def w64_def)
  moreover have "d < 16" using hex_digit [OF assms(3)] by (simp add: d_def)
  ultimately show ?thesis using assms(1-3) base16_step(1) [of d r]
    by (subst base16_loop.simps) (simp add: Let_def not_less)
qed

lemma base16_loop_spec:
  assumes "i \<le> slen" and "slen < length src"
  shows "base16_loop src slen i r =
    Some (let n = hexval (unat r) (takeWhile is_hex (take (slen - i) (drop i src)))
          in if n < 2 ^ 64 then Some (w64 n) else None)"
  using assms
proof (induction "slen - i" arbitrary: i r)
  case 0
  then show ?case by (subst base16_loop.simps) (simp split: option.split)
next
  case (Suc k)
  then have i: "i < slen" "i < length src" by simp_all
  have l: "take (slen - i) (drop i src) = src ! i # take (slen - (i + 1)) (drop (i + 1) src)"
    using i Suc.hyps(2) by (simp add: take_Cons' Cons_nth_drop_Suc [symmetric])
  show ?case
  proof (cases "base_16_char_type (src ! i)")
    case None
    then show ?thesis using i l by (subst base16_loop.simps) (simp add: is_hex_def)
  next
    case (Some t)
    define d where "d = unat (src ! i - ascii_to_dec ! t)"
    have d: "d < 16" using hex_digit [OF Some] by (simp add: d_def)
    have IH: "base16_loop src slen (i + 1) (r * 16 + w64 d) = Some (let n = hexval (unat (r * 16 + w64 d))
        (takeWhile is_hex (take (slen - (i + 1)) (drop (i + 1) src))) in if n < 2 ^ 64 then Some (w64 n) else None)"
      using Suc.hyps(2) i Suc.prems(2) by (intro Suc.hyps(1)) simp_all
    have "takeWhile is_hex (take (slen - i) (drop i src)) =
        src ! i # takeWhile is_hex (take (slen - (i + 1)) (drop (i + 1) src))"
      using Some by (simp add: l is_hex_def)
    then show ?thesis
      using base16_loop_hex [OF i(2,1) Some, of r] IH base16_step(2) [OF d, of r] Some
        hexval_ge [of "unat r * 16 + d" "takeWhile is_hex (take (slen - (i + 1)) (drop (i + 1) src))"]
      by (auto simp: d_def [symmetric] Let_def)
  qed
qed

lemma base16_overread:
  assumes "list_all is_hex (drop i src)" and "i \<le> length src" and "hexval (unat r) (drop i src) < 2 ^ 64"
  shows "base16_loop src (length src) i r = None"
  using assms
proof (induction "length src - i" arbitrary: i r)
  case 0
  then show ?case by (subst base16_loop.simps) simp
next
  case (Suc k)
  then have i: "i < length src" by simp
  have l: "drop i src = src ! i # drop (i + 1) src" using i by (simp add: Cons_nth_drop_Suc [symmetric])
  then obtain t where t: "base_16_char_type (src ! i) = Some t" using Suc.prems(1) by (auto simp: is_hex_def)
  define d where "d = unat (src ! i - ascii_to_dec ! t)"
  have d: "d < 16" using hex_digit [OF t] by (simp add: d_def)
  have n: "hexval (unat r * 16 + d) (drop (i + 1) src) < 2 ^ 64" using Suc.prems(3) l t by (simp add: d_def)
  then have lt: "unat r * 16 + d < 2 ^ 64" using hexval_ge [of "unat r * 16 + d" "drop (i + 1) src"] by linarith
  have "base16_loop src (length src) (i + 1) (r * 16 + w64 d) = None"
  proof (rule Suc.hyps(1))
    show "hexval (unat (r * 16 + w64 d)) (drop (i + 1) src) < 2 ^ 64" using n base16_step(2) [OF d lt] by simp
  qed (use Suc.hyps(2) Suc.prems(1) l i in auto)
  then show ?case using base16_loop_hex [OF i i t, of r] lt by (simp add: d_def)
qed

section \<open>Memory amounts\<close>

lemma min_scaled:
  fixes n m M :: nat
  assumes "0 < m" and "0 < M"
  shows "M div m < min M n \<Longrightarrow> min M (n * m) = M"
    and "\<not> M div m < min M n \<Longrightarrow> min M (n * m) = min M n * m \<and> min M n * m \<le> M"
proof -
  have iff: "M div m < min M n \<longleftrightarrow> M < min M n * m" using div_less_iff_less_mult [OF assms(1), of M "min M n"] .
  have le: "min M n * m \<le> n * m" by simp
  then show "M div m < min M n \<Longrightarrow> min M (n * m) = M" using iff by linarith
  assume "\<not> M div m < min M n"
  then have "\<not> M < min M n * m" using iff by blast
  then have b: "min M n * m \<le> M" by (rule leI)
  show "min M (n * m) = min M n * m \<and> min M n * m \<le> M"
  proof (cases "n \<le> M")
    case False
    then have "m = 1" using b assms by (cases m) (auto simp: min_def)
    then show ?thesis by simp
  qed (use b in \<open>auto simp: min_def\<close>)
qed

lemma memtoull_digits:
  assumes "list_all isdigit ds" and "ds \<noteq> []" and "length ds < 128" and "u = [] \<or> \<not> isdigit (hd u)"
    and "mem_unit u = Some mul"
  shows "memtoull einval (ds @ u) = Some (w64 (min (2 ^ 64 - 1) (dval 0 ds * unat mul)))"
proof -
  let ?n = "dval 0 ds"
  have "hd (ds @ u) \<noteq> 45" using assms(1,2) by (cases ds) (auto simp: isdigit_def word_le_nat_alt)
  moreover have "takeWhile isdigit (ds @ u) = ds" "dropWhile isdigit (ds @ u) = u"
    using assms(1,4) by (cases u; auto simp: list_all_iff takeWhile_append2 dropWhile_append2)+
  moreover have mul: "0 < unat mul" "1 \<le> mul"
    using assms(5) by (auto simp: mem_unit_def Let_def split: if_splits)
  moreover have max: "unat ULLONG_MAX = 2 ^ 64 - 1" by (simp add: ULLONG_MAX_def unsigned_minus_1_eq_mask mask_eq_exp_minus_1)
  moreover have M: "w64 (2 ^ 64 - 1) = ULLONG_MAX" by (metis max w64_unat)
  moreover have val: "unat (strtoull_digits ds) = min (2 ^ 64 - 1) ?n"
    using max by (auto simp: strtoull_digits_def dval_def Let_def unat_w64_small)
  ultimately have eval: "memtoull einval (ds @ u) =
      (if unat ULLONG_MAX div unat mul < min (2 ^ 64 - 1) ?n then Some ULLONG_MAX else Some (strtoull_digits ds * mul))"
    using assms(2,3,5) by (simp add: memtoull_def Let_def word_less_nat_alt unat_div)
  show ?thesis
  proof (cases "(2 ^ 64 - 1) div unat mul < min (2 ^ 64 - 1) ?n")
    case True
    then show ?thesis using eval max M min_scaled(1) [OF mul(1) _ True] by simp
  next
    case False
    note S = min_scaled(2) [OF mul(1) _ False]
    have "strtoull_digits ds * mul = w64 (min (2 ^ 64 - 1) ?n * unat mul)"
      using val by (metis of_nat_mult w64_def w64_unat)
    then show ?thesis using eval max False S by auto
  qed
qed

end
