(* ===== verification/Driver_Main.thy ===== *)
theory Driver_Main
  imports Driver_Alloc Driver_Files Driver_Tree Numbers
begin

text \<open>
  The run of the benchmark driver (\<open>src/bench/driver.c\<close>): its options, the loading of the inputs, the
  warm-up and measured iterations, and the histogram of the report. tree-sitter, the file system,
  the clock and the arithmetic of \<open>double\<close> are fields of an environment. A result of \<open>None\<close> is
  undefined behaviour, an abort of the heap checker or a traversal that does not end; every
  \<open>return\<close> of \<open>main\<close> is an exit code.
\<close>

section \<open>Data\<close>

datatype AllocatorMode = ALLOC_DEFAULT | ALLOC_MMAP_ARENA

definition allocator_name :: "AllocatorMode \<Rightarrow> string" where
  "allocator_name mode = (if mode = ALLOC_MMAP_ARENA then ''mmap-arena'' else ''default'')"

record ParseStats =
  files :: u64
  errors :: u64
  nodes :: u64
  bytes :: u64

definition zero_ParseStats :: ParseStats where
  "zero_ParseStats = \<lparr>files = 0, errors = 0, nodes = 0, bytes = 0\<rparr>"

text \<open>tree-sitter: parsers, trees and cursors, on a state \<open>'w\<close> that they may change.\<close>

record ('t, 'c, 'w) ts_api =
  ts_parser_new :: "'w \<Rightarrow> bool \<times> 'w"
  ts_parser_set_language :: "'w \<Rightarrow> bool \<times> 'w"
  ts_parser_parse_string :: "string \<Rightarrow> 'w \<Rightarrow> 't option \<times> 'w"
  ts_node_has_error :: "'t \<Rightarrow> bool"
  ts_tree_cursor_new :: "'t \<Rightarrow> 'w \<Rightarrow> 'c"
  ts_tree_cursor_goto_first_child :: "'c \<Rightarrow> bool \<times> 'c"
  ts_tree_cursor_goto_next_sibling :: "'c \<Rightarrow> bool \<times> 'c"
  ts_tree_cursor_goto_parent :: "'c \<Rightarrow> bool \<times> 'c"
  ts_tree_cursor_delete :: "'c \<Rightarrow> 'w"
  ts_tree_delete :: "'t \<Rightarrow> 'w \<Rightarrow> 'w"
  ts_parser_delete :: "'w \<Rightarrow> 'w"

section \<open>One pass over the sources\<close>

definition count_nodes_and_errors :: "('t, 'c, 'w) ts_api \<Rightarrow> 't \<Rightarrow> 'w \<Rightarrow> (u64 \<times> bool \<times> 'w) option" where
  "count_nodes_and_errors ts tree w =
     do {
       let has_error = ts_node_has_error ts tree;
       (n, cur) \<leftarrow> count_loop (ts_tree_cursor_goto_first_child ts) (ts_tree_cursor_goto_next_sibling ts)
         (ts_tree_cursor_goto_parent ts) True 0 (ts_tree_cursor_new ts tree w);
       Some (n, has_error, ts_tree_cursor_delete ts cur)
     }"

text \<open>The parser is given the length as a 32-bit number.\<close>

definition parse_input :: "SourceFile \<Rightarrow> string" where
  "parse_input src = take (slen src mod 2 ^ 32) (case sdata src of Some d \<Rightarrow> d | None \<Rightarrow> [])"

fun parse_files :: "('t, 'c, 'w) ts_api \<Rightarrow> SourceFile list \<Rightarrow> ParseStats \<Rightarrow> 'w \<Rightarrow> (bool \<times> ParseStats \<times> 'w) option" where
  "parse_files ts [] stats w = Some (True, stats, ts_parser_delete ts w)"
| "parse_files ts (src # srcs) stats w =
     (let (t, w) = ts_parser_parse_string ts (parse_input src) w in
      case t of
        None \<Rightarrow> Some (False, stats, ts_parser_delete ts w)
      | Some tree \<Rightarrow>
          do {
            (n, has_error, w) \<leftarrow> count_nodes_and_errors ts tree w;
            let stats = \<lparr>files = files stats + 1, errors = errors stats + (if has_error then 1 else 0),
                         nodes = nodes stats + n, bytes = bytes stats + of_nat (slen src)\<rparr>;
            parse_files ts srcs stats (ts_tree_delete ts tree w)
          })"

definition parse_once :: "('t, 'c, 'w) ts_api \<Rightarrow> SourceVec \<Rightarrow> 'w \<Rightarrow> (bool \<times> ParseStats \<times> 'w) option" where
  "parse_once ts sources w =
     (let stats = zero_ParseStats; (good, w) = ts_parser_new ts w in
      if \<not> good then Some (False, stats, w)
      else let (good, w) = ts_parser_set_language ts w in
        if \<not> good then Some (False, stats, ts_parser_delete ts w)
        else parse_files ts (items sources) stats w)"

section \<open>Statistics of the times\<close>

text \<open>\<open>qsort\<close> with \<open>cmp_double\<close>, then the middle; \<open>half\<close> is \<open>(a + b) / 2.0\<close>.\<close>

definition median :: "('d :: linorder \<Rightarrow> 'd \<Rightarrow> 'd) \<Rightarrow> 'd list \<Rightarrow> 'd option" where
  "median half values =
     (let vs = sort values; n = length vs in
      if n = 0 then None
      else if n mod 2 = 1 then Some (vs ! (n div 2)) else Some (half (vs ! (n div 2 - 1)) (vs ! (n div 2))))"

section \<open>Options\<close>

record options =
  allocator :: AllocatorMode
  root :: string
  iters :: int
  warmup :: int
  include_headers :: bool
  csv :: bool
  trace_path :: "string option"
  explicit_files :: bool

definition default_options :: options where
  "default_options = \<lparr>allocator = ALLOC_DEFAULT, root = ''bench/redis-src'', iters = 5, warmup = 1,
     include_headers = False, csv = False, trace_path = None, explicit_files = False\<rparr>"

text \<open>\<open>atoi\<close>: white space, a sign, digits; a value out of the range of \<open>int\<close> is undefined.\<close>

definition is_dec_digit :: "char \<Rightarrow> bool" where
  "is_dec_digit c \<longleftrightarrow> 48 \<le> (of_char c :: nat) \<and> (of_char c :: nat) \<le> 57"

definition is_space :: "char \<Rightarrow> bool" where
  "is_space c \<longleftrightarrow> (of_char c :: nat) = 32 \<or> 9 \<le> (of_char c :: nat) \<and> (of_char c :: nat) \<le> 13"

definition atoi_digits :: "string \<Rightarrow> int" where
  "atoi_digits s = foldl (\<lambda>n c. 10 * n + (int (of_char c) - 48)) 0 (takeWhile is_dec_digit s)"

definition atoi :: "string \<Rightarrow> int option" where
  "atoi s =
     (let s = dropWhile is_space s;
          z = (case s of
                 [] \<Rightarrow> 0
               | c # cs \<Rightarrow> if c = CHR ''-'' then - atoi_digits cs else if c = CHR ''+'' then atoi_digits cs
                   else atoi_digits s)
      in if - (2 ^ 31) \<le> z \<and> z < 2 ^ 31 then Some z else None)"

definition starts_with :: "string \<Rightarrow> string \<Rightarrow> bool" where
  "starts_with pre s \<longleftrightarrow> take (length pre) s = pre"

text \<open>One argument: \<open>Inl\<close> is a return from \<open>main\<close>.\<close>

definition parse_arg :: "string \<Rightarrow> options \<Rightarrow> SourceVec \<Rightarrow> io \<Rightarrow> ((int + options) \<times> SourceVec \<times> io) option" where
  "parse_arg a opts v i =
     (if starts_with ''--allocator='' a then
        let name = drop 12 a in
        if name = ''default'' then Some (Inr (opts\<lparr>allocator := ALLOC_DEFAULT\<rparr>), v, i)
        else if name = ''mmap-arena'' then Some (Inr (opts\<lparr>allocator := ALLOC_MMAP_ARENA\<rparr>), v, i)
        else Some (Inl 2, v, i)
      else if starts_with ''--root='' a then Some (Inr (opts\<lparr>root := drop 7 a\<rparr>), v, i)
      else if starts_with ''--iters='' a then
        do { n \<leftarrow> atoi (drop 8 a); Some (Inr (opts\<lparr>iters := n\<rparr>), v, i) }
      else if starts_with ''--warmup='' a then
        do { n \<leftarrow> atoi (drop 9 a); Some (Inr (opts\<lparr>warmup := n\<rparr>), v, i) }
      else if a = ''--include-headers'' then Some (Inr (opts\<lparr>include_headers := True\<rparr>), v, i)
      else if a = ''--csv'' then Some (Inr (opts\<lparr>csv := True\<rparr>), v, i)
      else if starts_with ''--trace='' a then Some (Inr (opts\<lparr>trace_path := Some (drop 8 a)\<rparr>), v, i)
      else if a = ''--help'' then Some (Inl 0, v, i)
      else if starts_with ''-'' a then Some (Inl 2, v, i)
      else let (good, v, i) = vec_push_path v a i in
        if good then Some (Inr (opts\<lparr>explicit_files := True\<rparr>), v, i) else Some (Inl 1, v, i))"

fun parse_args :: "string list \<Rightarrow> options \<Rightarrow> SourceVec \<Rightarrow> io \<Rightarrow> ((int + options) \<times> SourceVec \<times> io) option" where
  "parse_args [] opts v i = Some (Inr opts, v, i)"
| "parse_args (a # as) opts v i =
     do {
       (r, v, i) \<leftarrow> parse_arg a opts v i;
       (case r of Inl code \<Rightarrow> Some (Inl code, v, i) | Inr opts \<Rightarrow> parse_args as opts v i)
     }"

section \<open>Preparing a run\<close>

record ('t, 'c, 'st, 'd) env =
  ts_with :: "AllocatorMode \<Rightarrow> ('t, 'c, 'st driver) ts_api"
  dir_at :: "string \<Rightarrow> fs"
  fopen_rb :: "string \<rightharpoonup> rfile"
  fopen_w :: "string \<Rightarrow> bool"
  alloc_reset :: "'st \<Rightarrow> 'st"
  heap_check :: "('st \<Rightarrow> bool) option"
  now_sec :: "nat \<Rightarrow> 'd"
  dzero :: 'd
  dminus :: "'d \<Rightarrow> 'd \<Rightarrow> 'd"
  dplus :: "'d \<Rightarrow> 'd \<Rightarrow> 'd"
  dhalf :: "'d \<Rightarrow> 'd \<Rightarrow> 'd"

text \<open>The sources of the run: collected or named, sorted and loaded. \<open>Inl\<close> is a return from \<open>main\<close>.\<close>

definition prepare :: "('t, 'c, 'st, 'd) env \<Rightarrow> options \<Rightarrow> SourceVec \<Rightarrow> io \<Rightarrow> (int + SourceVec) \<times> io" where
  "prepare env opts v i =
     (let (good, v, i) =
        (if explicit_files opts then (True, v, i)
         else collect_sources (include_headers opts) (root opts) (dir_at env (root opts)) v i)
      in if \<not> good then (Inl 1, free_sources v i)
      else let v = sort_sources v in
        if items v = [] then (Inl 1, free_sources v i)
        else let (good, v, i) = load_sources (fopen_rb env) v i in
          if \<not> good then (Inl 1, free_sources v i)
          else if trace_path opts \<noteq> None \<and> allocator opts \<noteq> ALLOC_MMAP_ARENA then (Inl 2, free_sources v i)
          else (Inr v, i))"

section \<open>Iterations\<close>

definition maybe_check_heap :: "('t, 'c, 'st, 'd) env \<Rightarrow> AllocatorMode \<Rightarrow> 'st driver \<Rightarrow> unit option" where
  "maybe_check_heap env mode d =
     (case heap_check env of
        None \<Rightarrow> Some ()
      | Some chk \<Rightarrow> if mode = ALLOC_MMAP_ARENA \<and> \<not> chk (heap d) then None else Some ())"

fun warmup_loop :: "('t, 'c, 'st, 'd) env \<Rightarrow> AllocatorMode \<Rightarrow> SourceVec \<Rightarrow> nat \<Rightarrow> 'st driver \<Rightarrow> (bool \<times> 'st driver) option" where
  "warmup_loop env mode v 0 d = Some (True, d)"
| "warmup_loop env mode v (Suc n) d =
     do {
       (good, stats, d) \<leftarrow> parse_once (ts_with env mode) v d;
       (if \<not> good then Some (False, d)
        else do { maybe_check_heap env mode d; warmup_loop env mode v n d })
     }"

text \<open>What is measured: the times in order, their sum, the smallest and the largest.\<close>

record 'd timing =
  times :: "'d list"
  total :: 'd
  tmin :: 'd
  tmax :: 'd

definition add_time :: "('t, 'c, 'st, 'd :: linorder) env \<Rightarrow> 'd \<Rightarrow> 'd timing \<Rightarrow> 'd timing" where
  "add_time env t m =
     \<lparr>times = times m @ [t], total = dplus env (total m) t,
      tmin = (if times m = [] \<or> t < tmin m then t else tmin m),
      tmax = (if times m = [] \<or> t > tmax m then t else tmax m)\<rparr>"

fun measure_loop ::
  "('t, 'c, 'st, 'd :: linorder) env \<Rightarrow> AllocatorMode \<Rightarrow> SourceVec \<Rightarrow> nat \<Rightarrow> nat \<Rightarrow> 'd timing \<Rightarrow> ParseStats \<Rightarrow> 'st driver \<Rightarrow>
    (bool \<times> 'd timing \<times> ParseStats \<times> 'st driver) option" where
  "measure_loop env mode v k 0 m stats d = Some (True, m, stats, d)"
| "measure_loop env mode v k (Suc n) m stats d =
     do {
       let t0 = now_sec env (2 * k);
       (good, stats, d) \<leftarrow> parse_once (ts_with env mode) v d;
       (if \<not> good then Some (False, m, stats, d)
        else do {
          let t1 = now_sec env (2 * k + 1);
          maybe_check_heap env mode d;
          measure_loop env mode v (Suc k) n (add_time env (dminus env t1 t0) m) stats d
        })
     }"

section \<open>main\<close>

record 'd report =
  timing_of :: "'d timing"
  med :: "'d option"
  last_stats :: ParseStats
  alloc_stats :: DataStat
  trace_lines :: "trace_event list option"

text \<open>The statistics of the warm-up are dropped, and the trace is opened only now.\<close>

definition reset_stats :: "('t, 'c, 'st, 'd) env \<Rightarrow> 'st driver \<Rightarrow> 'st driver" where
  "reset_stats env d = d\<lparr>heap := alloc_reset env (heap d), TS_AllocStat := zero_DataStat\<rparr>"

definition open_trace :: "('t, 'c, 'st, 'd) env \<Rightarrow> options \<Rightarrow> io \<Rightarrow> 'st driver \<Rightarrow> bool \<times> io \<times> 'st driver" where
  "open_trace env opts i d =
     (case trace_path opts of
        None \<Rightarrow> (True, i, d)
      | Some p \<Rightarrow> if fopen_w env p then (True, acquire i, d\<lparr>trace_fp := Some []\<rparr>) else (False, i, d))"

text \<open>The report keeps the lines written; \<open>fclose\<close> gives the handle back.\<close>

definition close_trace :: "io \<Rightarrow> 'st driver \<Rightarrow> io \<times> 'st driver" where
  "close_trace i d = (if trace_fp d \<noteq> None then (release i, d\<lparr>trace_fp := None\<rparr>) else (i, d))"

text \<open>The two failure exits return with the trace file open.\<close>

definition measured_run ::
  "('t, 'c, 'st, 'd :: linorder) env \<Rightarrow> options \<Rightarrow> SourceVec \<Rightarrow> io \<Rightarrow> 'st driver \<Rightarrow> (int \<times> 'd report option \<times> io) option" where
  "measured_run env opts v i d =
     (let (good1, i) = libc_malloc i; (good2, i) = libc_malloc i in
      if \<not> good1 \<or> \<not> good2 then
        let i = (if good1 then release i else i); i = (if good2 then release i else i) in Some (1, None, free_sources v i)
      else
        do {
          (good, m, stats, d) \<leftarrow> measure_loop env (allocator opts) v 0 (nat (iters opts))
            \<lparr>times = [], total = dzero env, tmin = dzero env, tmax = dzero env\<rparr> zero_ParseStats d;
          (if \<not> good then Some (1, None, free_sources v (release (release i)))
           else
             let lines = trace_fp d; (i, d) = close_trace i d;
                 r = \<lparr>timing_of = m, med = median (dhalf env) (times m), last_stats = stats, alloc_stats = TS_AllocStat d,
                      trace_lines = lines\<rparr>
             in Some (0, Some r, free_sources v (release (release i))))
        })"

definition run_sources ::
  "('t, 'c, 'st, 'd :: linorder) env \<Rightarrow> options \<Rightarrow> SourceVec \<Rightarrow> io \<Rightarrow> 'st driver \<Rightarrow> (int \<times> 'd report option \<times> io) option" where
  "run_sources env opts v i d =
     do {
       (good, d) \<leftarrow> warmup_loop env (allocator opts) v (nat (warmup opts)) d;
       (if \<not> good then Some (1, None, free_sources v i)
        else let (good, i, d) = open_trace env opts i (reset_stats env d) in
          if \<not> good then Some (1, None, free_sources v i) else measured_run env opts v i d)
     }"

definition main ::
  "('t, 'c, 'st, 'd :: linorder) env \<Rightarrow> string list \<Rightarrow> io \<Rightarrow> 'st driver \<Rightarrow> (int \<times> 'd report option \<times> io) option" where
  "main env args i d =
     do {
       (r, v, i) \<leftarrow> parse_args args default_options empty_vec i;
       (case r of
          Inl code \<Rightarrow> Some (code, None, i)
        | Inr opts \<Rightarrow>
            if iters opts \<le> 0 \<or> warmup opts < 0 then Some (2, None, i)
            else case prepare env opts v i of
                (Inl code, i) \<Rightarrow> Some (code, None, i)
              | (Inr v, i) \<Rightarrow> run_sources env opts v i d)
     }"

section \<open>The histogram of the report\<close>

text \<open>
  One line of the histogram: the bounds of the bucket and the width of its bar. A shift by the width
  of the type, for the last bucket, is undefined.
\<close>

definition hist_max :: "u64 list \<Rightarrow> u64" where
  "hist_max hist = fold (\<lambda>h m. if h > m then h else m) hist 0"

definition hist_row :: "u64 list \<Rightarrow> nat \<Rightarrow> (u64 \<times> u64 \<times> u64) option" where
  "hist_row hist b =
     (if b + 1 \<ge> 64 then None
      else Some ((if b = 0 then 0 else push_bit b 1), push_bit (b + 1) 1 - 1,
        (hist ! b * 40 + hist_max hist - 1) div hist_max hist))"

text \<open>The histogram column of the CSV output, in a buffer of 2048 bytes; a bucket that does not fit ends it.\<close>

definition csv_item :: "u8 list \<Rightarrow> nat \<Rightarrow> u64 \<Rightarrow> u8 list" where
  "csv_item acc b c = (if acc = [] then [] else [59]) @ dec b @ [58] @ dec (unat c)"

fun hist_csv :: "nat \<Rightarrow> u64 list \<Rightarrow> u8 list \<Rightarrow> u8 list" where
  "hist_csv b [] acc = acc"
| "hist_csv b (c # cs) acc =
     (if c = 0 then hist_csv (b + 1) cs acc
      else let s = csv_item acc b c in
        if length s \<ge> 2048 - length acc then acc else hist_csv (b + 1) cs (acc @ s))"

end
