(* ===== verification/Driver_Check.thy ===== *)
theory Driver_Check
  imports Driver_Main "HOL-Library.Sublist"
begin

text \<open>
  What the benchmark driver guarantees: after its options are read no block or handle is lost on any path, but
  for the trace file where a measured run fails; the report is about the measured iterations, and the histogram of the report is complete
  and in bounds.
\<close>

section \<open>Resources\<close>

definition no_data :: "SourceVec \<Rightarrow> bool" where
  "no_data v \<longleftrightarrow> (\<forall>s \<in> set (items v). sdata s = None)"

lemma parse_arg_ok:
  assumes "parse_arg a opts v i = Some (r, v', i')" and "vec_ok v" and "no_data v"
  shows "vec_ok v' \<and> no_data v' \<and> live i' - live i = vec_blocks v' - vec_blocks v"
proof (cases "vec_push_path v a i")
  case (fields good w j)
  have "vec_ok w \<and> no_data w \<and> live j - live i = vec_blocks w - vec_blocks v"
    using vec_push_path_ok [OF assms(2) fields] assms(3) by (auto simp: no_data_def balanced_def)
  then show ?thesis
    using assms fields by (auto simp: parse_arg_def Let_def bind_eq_Some_conv split: if_splits)
qed

lemma parse_args_ok:
  "parse_args as opts v i = Some (r, v', i') \<Longrightarrow> vec_ok v \<Longrightarrow> no_data v \<Longrightarrow>
    vec_ok v' \<and> no_data v' \<and> live i' - live i = vec_blocks v' - vec_blocks v"
proof (induction as opts v i rule: parse_args.induct)
  case (2 a as opts v i)
  then obtain r1 v1 i1 where p: "parse_arg a opts v i = Some (r1, v1, i1)" by (auto simp: bind_eq_Some_conv)
  note P = parse_arg_ok [OF p 2(3,4)]
  show ?case
  proof (cases r1)
    case (Inl c)
    then show ?thesis using p 2(2) P by auto
  next
    case (Inr o1)
    then show ?thesis using p 2 P by fastforce
  qed
qed auto

lemma prepare_ok:
  assumes "prepare env opts v i = (r, i')" and v: "vec_ok v" "no_data v" and live: "live i = vec_blocks v"
  shows "case r of Inl _ \<Rightarrow> live i' = 0 | Inr v' \<Rightarrow> live i' = vec_blocks v' \<and> items v' \<noteq> []"
proof -
  let ?c = "if explicit_files opts then (True, v, i)
    else collect_sources (include_headers opts) (root opts) (dir_at env (root opts)) v i"
  obtain g v1 i1 where c: "?c = (g, v1, i1)" by (cases ?c) auto
  have "walks (found (include_headers opts) (root opts) (dir_at env (root opts)))
      (walkable (dir_at env (root opts)) \<and> is_dir (dir_at env (root opts))) v i
      (collect_sources (include_headers opts) (root opts) (dir_at env (root opts)) v i)"
    by (rule collect_ok(1) [OF v(1)])
  then have 1: "vec_ok v1" "live i1 = vec_blocks v1" "g \<longrightarrow> no_data v1"
    using c v live by (auto simp: walks_def no_data_def new_file_def split: if_splits)
  let ?v2 = "sort_sources v1"
  have 2: "vec_ok ?v2" "live i1 = vec_blocks ?v2" "g \<longrightarrow> (\<forall>s \<in> set (items ?v2). sdata s = None)"
    using 1 sort_sources_ok [OF 1(1)] by (auto simp: sort_sources_blocks no_data_def) (simp add: sort_sources_def)
  obtain g3 v3 i3 where l: "load_sources (fopen_rb env) ?v2 i1 = (g3, v3, i3)"
    by (cases "load_sources (fopen_rb env) ?v2 i1") auto
  have 3: "live i3 = vec_blocks v3" if g using load_sources_ok(1) [OF l _ 2(1)] 2 that by auto
  have "items v3 \<noteq> []" if "items ?v2 \<noteq> []" using load_sources_length [OF l] that by auto
  then show ?thesis
    using assms(1) c 1 2 3 l by (auto simp: prepare_def Let_def free_sources_live split: if_splits)
qed

text \<open>
  tree-sitter reaches the state of the driver through the wrappers only, which write to the trace but neither
  open nor close it.
\<close>

definition keeps_trace :: "('t, 'c, 'st, 'd) env \<Rightarrow> AllocatorMode \<Rightarrow> bool" where
  "keeps_trace env mode \<longleftrightarrow> (\<forall>v d good st d'. parse_once (ts_with env mode) v d = Some (good, st, d') \<longrightarrow>
     (trace_fp d' = None \<longleftrightarrow> trace_fp d = None))"

lemma keeps_traceD:
  "parse_once (ts_with env mode) v d = Some (good, st, d') \<Longrightarrow> keeps_trace env mode \<Longrightarrow> trace_fp d' = None \<longleftrightarrow> trace_fp d = None"
  by (simp add: keeps_trace_def)

lemma warmup_trace:
  assumes kt: "keeps_trace env mode"
  shows "warmup_loop env mode v n d = Some (good, d') \<Longrightarrow> trace_fp d' = None \<longleftrightarrow> trace_fp d = None"
proof (induction n arbitrary: d)
  case (Suc n)
  then obtain g st d1 where p: "parse_once (ts_with env mode) v d = Some (g, st, d1)" by (auto simp: bind_eq_Some_conv)
  show ?case
    using Suc p keeps_traceD [OF p kt] by (cases g) (auto simp: bind_eq_Some_conv)
qed simp

lemma measure_trace:
  assumes kt: "keeps_trace env mode"
  shows "measure_loop env mode v k n m st d = Some (good, m', st', d') \<Longrightarrow> trace_fp d' = None \<longleftrightarrow> trace_fp d = None"
proof (induction n arbitrary: k m st d)
  case (Suc n)
  then obtain g st d1 where p: "parse_once (ts_with env mode) v d = Some (g, st, d1)" by (auto simp: bind_eq_Some_conv)
  show ?case
    using Suc.prems Suc.IH [of "Suc k" _ st d1] p keeps_traceD [OF p kt] by (cases g) (auto simp: bind_eq_Some_conv Let_def)
qed simp

text \<open>What a measured run leaves behind: the open trace file, when it fails.\<close>

lemma measured_run_live:
  assumes run: "measured_run env opts v i d = Some (code, rep, i')" and kt: "keeps_trace env (allocator opts)"
    and live: "live i = vec_blocks v + of_bool (trace_fp d \<noteq> None)"
  shows "live i' = of_bool (trace_fp d \<noteq> None \<and> code \<noteq> 0)"
proof -
  obtain g1 i1 where m1: "libc_malloc i = (g1, i1)" by (cases "libc_malloc i")
  obtain g2 i2 where m2: "libc_malloc i1 = (g2, i2)" by (cases "libc_malloc i1")
  note L = live_libc_malloc [OF m1] live_libc_malloc [OF m2]
  let ?m0 = "\<lparr>times = [], total = dzero env, tmin = dzero env, tmax = dzero env\<rparr>"
  show ?thesis
  proof (cases "g1 \<and> g2")
    case True
    then obtain good m st d' where l: "measure_loop env (allocator opts) v 0 (nat (iters opts)) ?m0 zero_ParseStats d = Some (good, m, st, d')"
      using run m1 m2 by (auto simp: measured_run_def bind_eq_Some_conv)
    show ?thesis using run m1 m2 True l L live measure_trace [OF kt l]
      by (cases good) (auto simp: measured_run_def close_trace_def Let_def free_sources_live split: if_splits)
  next
    case False
    then show ?thesis using run m1 m2 L live
      by (auto simp: measured_run_def Let_def free_sources_live split: if_splits)
  qed
qed

text \<open>Whether the run of the sources \<open>v\<close> gets as far as opening a trace file.\<close>

definition trace_opened :: "('t, 'c, 'st, 'd) env \<Rightarrow> options \<Rightarrow> SourceVec \<Rightarrow> 'st driver \<Rightarrow> bool" where
  "trace_opened env opts v d \<longleftrightarrow>
     (case warmup_loop env (allocator opts) v (nat (warmup opts)) d of Some (True, _) \<Rightarrow> True | _ \<Rightarrow> False) \<and>
     (case trace_path opts of None \<Rightarrow> False | Some p \<Rightarrow> fopen_w env p)"

lemma run_sources_live:
  assumes run: "run_sources env opts v i d = Some (code, rep, i')" and kt: "keeps_trace env (allocator opts)"
    and live: "live i = vec_blocks v" and d: "trace_fp d = None"
  shows "live i' = of_bool (trace_opened env opts v d \<and> code \<noteq> 0)"
proof -
  obtain g d1 where w: "warmup_loop env (allocator opts) v (nat (warmup opts)) d = Some (g, d1)"
    using run by (auto simp: run_sources_def bind_eq_Some_conv)
  have d1: "trace_fp (reset_stats env d1) = None" using warmup_trace [OF kt w] d by (simp add: reset_stats_def)
  obtain g2 j d2 where o: "open_trace env opts i (reset_stats env d1) = (g2, j, d2)"
    by (cases "open_trace env opts i (reset_stats env d1)")
  show ?thesis
  proof (cases "g \<and> g2")
    case True
    then have "measured_run env opts v j d2 = Some (code, rep, i')" using run w o by (simp add: run_sources_def)
    moreover have "live j = vec_blocks v + of_bool (trace_fp d2 \<noteq> None)"
      using o True d1 live by (auto simp: open_trace_def acquire_def split: option.splits if_splits)
    ultimately have "live i' = of_bool (trace_fp d2 \<noteq> None \<and> code \<noteq> 0)" using measured_run_live [OF _ kt] by blast
    moreover have "trace_fp d2 \<noteq> None \<longleftrightarrow> trace_opened env opts v d"
      using o True d1 w by (auto simp: open_trace_def trace_opened_def split: option.splits if_splits)
    ultimately show ?thesis by simp
  next
    case False
    then have "live i' = 0"
      using run w o live by (auto simp: run_sources_def open_trace_def free_sources_live split: option.splits if_splits)
    moreover have "\<not> trace_opened env opts v d"
      using False w o by (auto simp: trace_opened_def open_trace_def split: option.splits if_splits)
    ultimately show ?thesis by simp
  qed
qed

lemma vec_empty [simp]: "vec_ok empty_vec" "no_data empty_vec" "vec_blocks empty_vec = 0"
  by (simp_all add: vec_ok_def no_data_def vec_blocks_def empty_vec_def)

text \<open>Whether \<open>main\<close>, past its options, gets as far as opening a trace file.\<close>

definition main_traces :: "('t, 'c, 'st, 'd) env \<Rightarrow> options \<Rightarrow> SourceVec \<Rightarrow> io \<Rightarrow> 'st driver \<Rightarrow> bool" where
  "main_traces env opts v i d \<longleftrightarrow> (case prepare env opts v i of (Inl _, _) \<Rightarrow> False | (Inr w, _) \<Rightarrow> trace_opened env opts w d)"

lemma main_live:
  assumes "main env args i d = Some (code, rep, i')" and "live i = 0" and d: "trace_fp d = None"
    and "parse_args args default_options empty_vec i = Some (Inr opts, v, j)" and "0 < iters opts" "0 \<le> warmup opts"
    and kt: "keeps_trace env (allocator opts)"
  shows "live i' = of_bool (main_traces env opts v j d \<and> code \<noteq> 0)"
proof -
  have j: "vec_ok v" "no_data v" "live j = vec_blocks v" using parse_args_ok [OF assms(4)] assms(2) by auto
  obtain r k where p: "prepare env opts v j = (r, k)" by (cases "prepare env opts v j")
  note P = prepare_ok [OF p j]
  show ?thesis
  proof (cases r)
    case (Inl c)
    then show ?thesis using assms p P by (simp add: main_def main_traces_def)
  next
    case (Inr w)
    then have "run_sources env opts w k d = Some (code, rep, i')" using assms p by (simp add: main_def)
    then show ?thesis using run_sources_live [OF _ kt _ d] P Inr p by (simp add: main_traces_def)
  qed
qed

section \<open>The report\<close>

lemma parse_files_stats:
  "parse_files ts ss st w = Some (True, st', w') \<Longrightarrow>
     files st' = files st + of_nat (length ss) \<and> bytes st' = bytes st + of_nat (\<Sum>s \<leftarrow> ss. slen s)"
proof (induction ss arbitrary: st w)
  case (Cons src srcs)
  then show ?case by (fastforce simp: bind_eq_Some_conv Let_def split: prod.splits option.splits)
qed auto

text \<open>The statistics of a complete pass cover all the sources.\<close>

definition pass_stats :: "SourceVec \<Rightarrow> ParseStats \<Rightarrow> bool" where
  "pass_stats v st \<longleftrightarrow> files st = of_nat (length (items v)) \<and> bytes st = of_nat (\<Sum>s \<leftarrow> items v. slen s)"

lemma parse_once_stats: "parse_once ts v w = Some (True, st, w') \<Longrightarrow> pass_stats v st"
  by (auto simp: parse_once_def pass_stats_def zero_ParseStats_def Let_def dest!: parse_files_stats split: prod.splits if_splits)

definition timing_ok :: "'d :: linorder timing \<Rightarrow> bool" where
  "timing_ok m \<longleftrightarrow> times m \<noteq> [] \<longrightarrow> tmin m = Min (set (times m)) \<and> tmax m = Max (set (times m))"

lemma add_time_ok: "timing_ok m \<Longrightarrow> timing_ok (add_time env t m)"
proof (cases "times m = []")
  case False
  assume "timing_ok m"
  then have m: "tmin m = Min (set (times m))" "tmax m = Max (set (times m))" using False by (simp_all add: timing_ok_def)
  have "tmin (add_time env t m) = min t (tmin m)" "tmax (add_time env t m) = max t (tmax m)"
    using False by (auto simp: add_time_def min_def max_def)
  then show ?thesis using False unfolding timing_ok_def m by (simp add: add_time_def)
qed (simp add: timing_ok_def add_time_def)

lemma times_add_time [simp]: "times (add_time env t m) = times m @ [t]"
  by (simp add: add_time_def)

lemma measure_loop_ok:
  "measure_loop env mode v k n m st d = Some (True, m', st', d') \<Longrightarrow> timing_ok m \<Longrightarrow>
     timing_ok m' \<and> times m' = times m @ map (\<lambda>j. dminus env (now_sec env (2 * j + 1)) (now_sec env (2 * j))) [k ..< k + n] \<and>
     (0 < n \<longrightarrow> pass_stats v st')"
proof (induction n arbitrary: k m st d)
  case (Suc n)
  then obtain st1 d1 where p: "parse_once (ts_with env mode) v d = Some (True, st1, d1)"
    and l: "measure_loop env mode v (Suc k) n (add_time env (dminus env (now_sec env (2 * k + 1)) (now_sec env (2 * k))) m) st1 d1 =
      Some (True, m', st', d')"
    by (auto simp: bind_eq_Some_conv Let_def split: if_splits)
  have "[k ..< k + Suc n] = k # [Suc k ..< Suc k + n]" using upt_conv_Cons [of k "k + Suc n"] by simp
  then show ?case using Suc.IH [OF l add_time_ok [OF Suc.prems(2)]] l parse_once_stats [OF p] by (cases n) auto
qed simp

lemma measured_run_ok:
  assumes "measured_run env opts v i d = Some (0, Some r, i')" and "0 < iters opts"
  shows "length (times (timing_of r)) = nat (iters opts)" "timing_ok (timing_of r)"
    "med r = median (dhalf env) (times (timing_of r))" "pass_stats v (last_stats r)"
proof -
  let ?m0 = "\<lparr>times = [], total = dzero env, tmin = dzero env, tmax = dzero env\<rparr>"
  obtain m st d' where l: "measure_loop env (allocator opts) v 0 (nat (iters opts)) ?m0 zero_ParseStats d = Some (True, m, st, d')"
    and r: "timing_of r = m" "med r = median (dhalf env) (times m)" "last_stats r = st"
    using assms(1) by (auto simp: measured_run_def close_trace_def Let_def bind_eq_Some_conv split: if_splits prod.splits)
  have "timing_ok ?m0" by (simp add: timing_ok_def)
  from measure_loop_ok [OF l this] show "length (times (timing_of r)) = nat (iters opts)" "timing_ok (timing_of r)"
    "med r = median (dhalf env) (times (timing_of r))" "pass_stats v (last_stats r)"
    using r assms(2) by auto
qed

lemma main_report:
  assumes "main env args i d = Some (0, Some r, i')"
  shows "\<exists>opts v0 j v. parse_args args default_options empty_vec i = Some (Inr opts, v0, j) \<and> 0 < iters opts \<and>
    length (times (timing_of r)) = nat (iters opts) \<and> timing_ok (timing_of r) \<and>
    med r = median (dhalf env) (times (timing_of r)) \<and> items v \<noteq> [] \<and> pass_stats v (last_stats r)"
proof -
  obtain q v j where q: "parse_args args default_options empty_vec i = Some (q, v, j)"
    using assms by (auto simp: main_def bind_eq_Some_conv)
  then obtain opts where "q = Inr opts" using assms by (cases q) (auto simp: main_def)
  with q assms have a: "parse_args args default_options empty_vec i = Some (Inr opts, v, j)"
    "0 < iters opts" "0 \<le> warmup opts" by (auto simp: main_def split: if_splits)
  obtain w k where p: "prepare env opts v j = (Inr w, k)" and "run_sources env opts w k d = Some (0, Some r, i')"
    using assms a by (auto simp: main_def split: prod.splits sum.splits)
  then obtain k1 d1 where m: "measured_run env opts w k1 d1 = Some (0, Some r, i')"
    by (auto simp: run_sources_def bind_eq_Some_conv split: if_splits prod.splits)
  have "items w \<noteq> []"
    using p by (auto simp: prepare_def Let_def split: prod.splits if_splits dest!: load_sources_length)
  then show ?thesis using a measured_run_ok [OF m a(2)] by blast
qed

section \<open>Histogram\<close>

text \<open>The column of the CSV output without the limit of the buffer.\<close>

fun hist_text :: "nat \<Rightarrow> u64 list \<Rightarrow> u8 list \<Rightarrow> u8 list" where
  "hist_text b [] acc = acc"
| "hist_text b (c # cs) acc = hist_text (b + 1) cs (acc @ (if c = 0 then [] else csv_item acc b c))"

lemma csv_item_length: "b < 100 \<Longrightarrow> length (csv_item acc b c) \<le> 24"
  using length_dec_le [of b 1] length_dec_u64 [of c] by (simp add: csv_item_def)

lemma hist_csv_complete:
  "b + length cs \<le> 64 \<Longrightarrow> length acc \<le> 24 * b \<Longrightarrow>
     hist_csv b cs acc = hist_text b cs acc \<and> length (hist_text b cs acc) \<le> 24 * (b + length cs)"
proof (induction cs arbitrary: b acc)
  case (Cons c cs)
  have "length (csv_item acc b c) \<le> 24" using Cons.prems by (intro csv_item_length) simp
  then show ?case using Cons.IH [of "b + 1" acc] Cons.IH [of "b + 1" "acc @ csv_item acc b c"] Cons.prems
    by (auto simp: Let_def)
qed simp

lemma hist_max_ge: "c \<in> set hist \<Longrightarrow> c \<le> hist_max hist"
proof -
  have "m \<le> fold (\<lambda>h m. if h > m then h else m) hist m \<and>
      (\<forall>c \<in> set hist. c \<le> fold (\<lambda>h m. if h > m then h else m) hist m)" for m :: u64
  proof (induction hist arbitrary: m)
    case (Cons h hist)
    from Cons [of h] Cons [of m] show ?case by (auto simp: not_less intro: order_trans)
  qed simp
  then show "c \<in> set hist \<Longrightarrow> c \<le> hist_max hist" by (simp add: hist_max_def)
qed

lemma hist_width:
  fixes c mx :: u64
  assumes "0 < c" and "c \<le> mx" and "unat mx < 2 ^ 58"
  shows "1 \<le> unat ((c * 40 + mx - 1) div mx)" and "unat ((c * 40 + mx - 1) div mx) \<le> 40"
proof -
  have c: "0 < unat c" "unat c \<le> unat mx" using assms by (simp_all add: word_less_nat_alt word_le_nat_alt unat_gt_0)
  have "c * 40 + mx - 1 = of_nat (unat c * 40 + unat mx - 1)" using c by (simp add: of_nat_diff)
  moreover have "unat c * 40 + unat mx - 1 < 2 ^ 64" using c assms(3) by simp
  ultimately have "unat (c * 40 + mx - 1) = unat c * 40 + unat mx - 1" by (simp only: w64_def [symmetric] unat_w64_small)
  then have e: "unat ((c * 40 + mx - 1) div mx) = (unat c * 40 + unat mx - 1) div unat mx" by (simp add: unat_div)
  have "unat mx \<le> unat c * 40 + unat mx - 1" using c by linarith
  then show "1 \<le> unat ((c * 40 + mx - 1) div mx)" unfolding e using c by (simp add: div_greater_zero_iff Suc_leI)
  have "unat c * 40 + unat mx - 1 < 41 * unat mx" using c by linarith
  then show "unat ((c * 40 + mx - 1) div mx) \<le> 40" unfolding e using less_mult_imp_div_less by fastforce
qed

section \<open>Median\<close>

lemma median_perm: "mset xs = mset ys \<Longrightarrow> median half xs = median half ys"
  unfolding median_def using properties_for_sort [of "sort xs" ys] by simp

lemma filter_le_sorted:
  assumes "sorted vs" and "k < length vs"
  shows "k + 1 \<le> length (filter (\<lambda>x. x \<le> vs ! k) vs)" and "length vs - k \<le> length (filter (\<lambda>x. vs ! k \<le> x) vs)"
proof -
  have "filter (\<lambda>x. x \<le> vs ! k) (take (k + 1) vs) = take (k + 1) vs"
    using assms by (auto simp: filter_id_conv in_set_conv_nth sorted_iff_nth_mono)
  then have "k + 1 = length (filter (\<lambda>x. x \<le> vs ! k) (take (k + 1) vs))" using assms(2) by simp
  also have "\<dots> \<le> length (filter (\<lambda>x. x \<le> vs ! k) (take (k + 1) vs @ drop (k + 1) vs))" by (simp only: filter_append) simp
  finally show "k + 1 \<le> length (filter (\<lambda>x. x \<le> vs ! k) vs)" by simp
  have "filter (\<lambda>x. vs ! k \<le> x) (drop k vs) = drop k vs"
    using assms by (auto simp: filter_id_conv in_set_conv_nth sorted_iff_nth_mono)
  then have "length vs - k = length (filter (\<lambda>x. vs ! k \<le> x) (drop k vs))" by simp
  also have "\<dots> \<le> length (filter (\<lambda>x. vs ! k \<le> x) (take k vs @ drop k vs))" by (simp only: filter_append) simp
  finally show "length vs - k \<le> length (filter (\<lambda>x. vs ! k \<le> x) vs)" by simp
qed

lemma length_filter_mono: "(\<And>x. P x \<Longrightarrow> Q x) \<Longrightarrow> length (filter P xs) \<le> length (filter Q xs)"
  by (induction xs) auto

lemma length_filter_sort: "length (filter P (sort xs)) = length (filter P xs)"
  by (metis mset_filter mset_sort size_mset)

lemma median_between:
  assumes m: "median half xs = Some m" and half: "\<And>a b. a \<le> b \<Longrightarrow> a \<le> half a b \<and> half a b \<le> b"
  shows "length xs \<le> 2 * length (filter (\<lambda>x. x \<le> m) xs)" and "length xs \<le> 2 * length (filter (\<lambda>x. m \<le> x) xs)"
proof -
  define vs where "vs = sort xs"
  let ?n = "length vs" and ?l = "(length vs - 1) div 2" and ?h = "length vs div 2"
  have n: "0 < ?n" using m by (auto simp: median_def vs_def Let_def)
  have vs: "sorted vs" "length vs = length xs" by (simp_all add: vs_def)
  have lh: "?l < ?n" "?h < ?n" "?l \<le> ?h" "?n \<le> 2 * (?l + 1)" "?n \<le> 2 * (?n - ?h)"
    using n by presburger+
  then have "vs ! ?l \<le> vs ! ?h" using vs(1) by (simp add: sorted_iff_nth_mono)
  moreover have "odd ?n \<Longrightarrow> ?l = ?h" "even ?n \<Longrightarrow> ?h - 1 = ?l" using n by (auto elim!: oddE evenE)
  ultimately have b: "vs ! ?l \<le> m" "m \<le> vs ! ?h"
    using m half [of "vs ! ?l" "vs ! ?h"] n
    by (auto simp: median_def Let_def vs_def [symmetric] odd_iff_mod_2_eq_one [symmetric] split: if_splits)
  have "?l + 1 \<le> length (filter (\<lambda>x. x \<le> m) vs)"
    using filter_le_sorted(1) [OF vs(1) lh(1)] length_filter_mono [of "\<lambda>x. x \<le> vs ! ?l" "\<lambda>x. x \<le> m" vs] b(1) by fastforce
  then show "length xs \<le> 2 * length (filter (\<lambda>x. x \<le> m) xs)" using lh(4) vs(2) by (simp add: vs_def length_filter_sort)
  have "?n - ?h \<le> length (filter (\<lambda>x. m \<le> x) vs)"
    using filter_le_sorted(2) [OF vs(1) lh(2)] length_filter_mono [of "\<lambda>x. vs ! ?h \<le> x" "\<lambda>x. m \<le> x" vs] b(2) by fastforce
  then show "length xs \<le> 2 * length (filter (\<lambda>x. m \<le> x) xs)" using lh(5) vs(2) by (simp add: vs_def length_filter_sort)
qed

lemma has_suffix_iff: "has_suffix s t \<longleftrightarrow> suffix t s"
  by (auto simp: has_suffix_def suffix_def) (metis append_take_drop_id)

end
