(* ===== verification/Siphash.thy ===== *)
theory Siphash
  imports Memory
begin

text \<open>
  The keyed hash of the hash tables of the corpus, \<open>src/bench/redis-src/siphash.c\<close>: SipHash with
  one compression and two finalisation rounds, and its case-insensitive variant. Both are
  separate copies of the same loop in the source and separate definitions here. The state is
  the record of the four variables \<open>v0\<close> to \<open>v3\<close>; the input is a list of bytes, whose
  length is \<open>inlen\<close>.
\<close>

section \<open>Macros\<close>

definition siptlw :: "int \<Rightarrow> int" where
  "siptlw c = (if 65 \<le> c \<and> c \<le> 90 then c + (97 - 65) else c)"

definition ROTL :: "u64 \<Rightarrow> nat \<Rightarrow> u64" where
  "ROTL x b = push_bit b x OR drop_bit (64 - b) x"

text \<open>The load of an unaligned little-endian machine, and the portable expression for the others.\<close>

definition U8TO64_LE :: "u8 list \<Rightarrow> u64" where
  "U8TO64_LE p = le_word (take 8 p)"

definition U8TO64_LE_portable :: "u8 list \<Rightarrow> u64" where
  "U8TO64_LE_portable p =
     ucast (p ! 0) OR push_bit 8 (ucast (p ! 1)) OR push_bit 16 (ucast (p ! 2)) OR
     push_bit 24 (ucast (p ! 3)) OR push_bit 32 (ucast (p ! 4)) OR push_bit 40 (ucast (p ! 5)) OR
     push_bit 48 (ucast (p ! 6)) OR push_bit 56 (ucast (p ! 7))"

definition tlw64 :: "u8 \<Rightarrow> u64" where
  "tlw64 c = word_of_int (siptlw (uint c))"

definition U8TO64_LE_NOCASE :: "u8 list \<Rightarrow> u64" where
  "U8TO64_LE_NOCASE p =
     tlw64 (p ! 0) OR push_bit 8 (tlw64 (p ! 1)) OR push_bit 16 (tlw64 (p ! 2)) OR
     push_bit 24 (tlw64 (p ! 3)) OR push_bit 32 (tlw64 (p ! 4)) OR push_bit 40 (tlw64 (p ! 5)) OR
     push_bit 48 (tlw64 (p ! 6)) OR push_bit 56 (tlw64 (p ! 7))"

record sip =
  v0 :: u64
  v1 :: u64
  v2 :: u64
  v3 :: u64

definition SIPROUND :: "sip \<Rightarrow> sip" where
  "SIPROUND s =
     (let s = s\<lparr>v0 := v0 s + v1 s\<rparr>;
          s = s\<lparr>v1 := ROTL (v1 s) 13\<rparr>;
          s = s\<lparr>v1 := v1 s XOR v0 s\<rparr>;
          s = s\<lparr>v0 := ROTL (v0 s) 32\<rparr>;
          s = s\<lparr>v2 := v2 s + v3 s\<rparr>;
          s = s\<lparr>v3 := ROTL (v3 s) 16\<rparr>;
          s = s\<lparr>v3 := v3 s XOR v2 s\<rparr>;
          s = s\<lparr>v0 := v0 s + v3 s\<rparr>;
          s = s\<lparr>v3 := ROTL (v3 s) 21\<rparr>;
          s = s\<lparr>v3 := v3 s XOR v0 s\<rparr>;
          s = s\<lparr>v2 := v2 s + v1 s\<rparr>;
          s = s\<lparr>v1 := ROTL (v1 s) 17\<rparr>;
          s = s\<lparr>v1 := v1 s XOR v2 s\<rparr>
      in s\<lparr>v2 := ROTL (v2 s) 32\<rparr>)"

section \<open>The hash functions\<close>

text \<open>The keyed initial state; the key is sixteen bytes.\<close>

definition sip_init :: "u8 list \<Rightarrow> sip" where
  "sip_init k =
     (let k0 = U8TO64_LE k; k1 = U8TO64_LE (drop 8 k)
      in \<lparr>v0 = 0x736f6d6570736575 XOR k0, v1 = 0x646f72616e646f6d XOR k1,
          v2 = 0x6c7967656e657261 XOR k0, v3 = 0x7465646279746573 XOR k1\<rparr>)"

text \<open>The loop over whole words, which leaves the last \<open>inlen mod 8\<close> bytes.\<close>

fun siphash_loop :: "sip \<Rightarrow> u8 list \<Rightarrow> sip \<times> u8 list" where
  "siphash_loop s p =
     (if length p < 8 then (s, p)
      else
        let m = U8TO64_LE p;
            s = SIPROUND (s\<lparr>v3 := v3 s XOR m\<rparr>)
        in siphash_loop (s\<lparr>v0 := v0 s XOR m\<rparr>) (drop 8 p))"

fun siphash_nocase_loop :: "sip \<Rightarrow> u8 list \<Rightarrow> sip \<times> u8 list" where
  "siphash_nocase_loop s p =
     (if length p < 8 then (s, p)
      else
        let m = U8TO64_LE_NOCASE p;
            s = SIPROUND (s\<lparr>v3 := v3 s XOR m\<rparr>)
        in siphash_nocase_loop (s\<lparr>v0 := v0 s XOR m\<rparr>) (drop 8 p))"

declare siphash_loop.simps [simp del] siphash_nocase_loop.simps [simp del]

text \<open>The switch with its fall-through: case \<open>n\<close> takes the bytes \<open>n - 1\<close> down to 0.\<close>

fun sip_tail :: "(u8 \<Rightarrow> u64) \<Rightarrow> u64 \<Rightarrow> u8 list \<Rightarrow> nat \<Rightarrow> u64" where
  "sip_tail f b p 0 = b"
| "sip_tail f b p (Suc n) = sip_tail f (b OR push_bit (8 * n) (f (p ! n))) p n"

definition sip_final :: "u64 \<Rightarrow> sip \<Rightarrow> u64" where
  "sip_final b s =
     (let s = SIPROUND (s\<lparr>v3 := v3 s XOR b\<rparr>);
          s = s\<lparr>v0 := v0 s XOR b, v2 := v2 s XOR 0xff\<rparr>;
          s = SIPROUND (SIPROUND s)
      in v0 s XOR v1 s XOR v2 s XOR v3 s)"

definition siphash :: "u8 list \<Rightarrow> u8 list \<Rightarrow> u64" where
  "siphash inp k =
     (let (s, rest) = siphash_loop (sip_init k) inp;
          b = push_bit 56 (of_nat (length inp))
      in sip_final (sip_tail ucast b rest (length rest)) s)"

definition siphash_nocase :: "u8 list \<Rightarrow> u8 list \<Rightarrow> u64" where
  "siphash_nocase inp k =
     (let (s, rest) = siphash_nocase_loop (sip_init k) inp;
          b = push_bit 56 (of_nat (length inp))
      in sip_final (sip_tail tlw64 b rest (length rest)) s)"

section \<open>Properties\<close>

definition lower8 :: "u8 \<Rightarrow> u8" where
  "lower8 c = (if 65 \<le> c \<and> c \<le> 90 then c + 32 else c)"

lemma tlw64_lower8: "tlw64 c = ucast (lower8 c)"
proof -
  have "uint (c + 32) = uint c + 32" if "c \<le> 90"
    using that by (simp add: word_le_def uint_word_ariths)
  then have "siptlw (uint c) = uint (lower8 c)" by (simp add: siptlw_def lower8_def word_le_def)
  then show ?thesis by (simp only: tlw64_def ucast_eq)
qed

lemma length_take8: "8 \<le> length p \<Longrightarrow>
  take 8 p = [p ! 0, p ! 1, p ! 2, p ! 3, p ! 4, p ! 5, p ! 6, p ! 7]"
  by (rule nth_equalityI) (auto simp: less_Suc_eq numeral_eq_Suc)

lemma U8TO64_LE_portable: "8 \<le> length p \<Longrightarrow> U8TO64_LE_portable p = U8TO64_LE p"
  by (simp add: U8TO64_LE_portable_def U8TO64_LE_def length_take8 push_bit_or or.assoc)

lemma U8TO64_LE_NOCASE_eq:
  assumes "8 \<le> length p"
  shows "U8TO64_LE_NOCASE p = U8TO64_LE (map lower8 p)"
proof -
  have "map lower8 p ! 0 = lower8 (p ! 0)" using assms by (cases p) simp_all
  then show ?thesis using assms U8TO64_LE_portable [of "map lower8 p"]
    by (simp add: U8TO64_LE_NOCASE_def U8TO64_LE_portable_def tlw64_lower8)
qed

lemma siphash_nocase_loop_eq:
  "siphash_loop s (map lower8 p) = map_prod id (map lower8) (siphash_nocase_loop s p)"
proof (induction s p rule: siphash_nocase_loop.induct)
  case (1 s p)
  show ?case
    using 1 by (simp add: siphash_loop.simps [of s "map lower8 p"] siphash_nocase_loop.simps [of s p]
        U8TO64_LE_NOCASE_eq drop_map Let_def)
qed

lemma siphash_loop_rest: "length (snd (siphash_loop s p)) = length p mod 8"
proof (induction s p rule: siphash_loop.induct)
  case (1 s p)
  then show ?case by (simp add: siphash_loop.simps [of s p] Let_def mod_if le_mod_geq)
qed

lemma sip_tail_map: "n \<le> length p \<Longrightarrow> sip_tail ucast b (map lower8 p) n = sip_tail tlw64 b p n"
  by (induction n arbitrary: b) (simp_all add: tlw64_lower8)

lemma siphash_nocase_lower: "siphash_nocase inp k = siphash (map lower8 inp) k"
  by (simp add: siphash_def siphash_nocase_def siphash_nocase_loop_eq split_beta sip_tail_map)

lemma lower8_idem [simp]: "lower8 (lower8 c) = lower8 c"
proof (cases "65 \<le> c \<and> c \<le> 90")
  case True
  then have "uint (c + 32) = uint c + 32" by (simp add: word_le_def uint_word_ariths)
  then show ?thesis using True by (simp add: lower8_def word_le_def)
qed (simp add: lower8_def)

end
