(* ===== verification/Intset.thy ===== *)
theory Intset
  imports Buffer
begin

text \<open>
  The sorted set of integers of the corpus, \<open>src/bench/redis-src/intset.c\<close>: a header with the width
  of the elements (2, 4 or 8 bytes) and their number, followed by the elements as little-endian
  bytes in increasing order. Adding an element that does not fit widens all the others in place.
  The bytes that \<open>zrealloc\<close> adds are unspecified (the parameter \<open>g\<close>), and every access to
  \<open>contents\<close> is checked against the size that was last allocated.
\<close>

record intset =
  is_encoding :: u32
  is_length :: u32
  contents :: "u8 list"

definition INTSET_ENC_INT16 :: nat where "INTSET_ENC_INT16 = 2"
definition INTSET_ENC_INT32 :: nat where "INTSET_ENC_INT32 = 4"
definition INTSET_ENC_INT64 :: nat where "INTSET_ENC_INT64 = 8"

lemmas enc_defs = INTSET_ENC_INT16_def INTSET_ENC_INT32_def INTSET_ENC_INT64_def

definition intsetValueEncoding :: "int \<Rightarrow> nat" where
  "intsetValueEncoding v =
     (if v < - (2 ^ 31) \<or> v > 2 ^ 31 - 1 then INTSET_ENC_INT64
      else if v < - (2 ^ 15) \<or> v > 2 ^ 15 - 1 then INTSET_ENC_INT32
      else INTSET_ENC_INT16)"

definition intsetGetEncoded :: "intset \<Rightarrow> int \<Rightarrow> nat \<Rightarrow> int option" where
  "intsetGetEncoded s pos enc =
     (if enc = INTSET_ENC_INT64 then
        map_option (\<lambda>bs. sint (le_word bs :: 64 word)) (bread (contents s) (pos * 8) 8)
      else if enc = INTSET_ENC_INT32 then
        map_option (\<lambda>bs. sint (le_word bs :: 32 word)) (bread (contents s) (pos * 4) 4)
      else
        map_option (\<lambda>bs. sint (le_word bs :: 16 word)) (bread (contents s) (pos * 2) 2))"

text \<open>The parameter \<open>enc\<close> of the source is a \<open>uint8_t\<close>.\<close>

definition intsetGet_at :: "intset \<Rightarrow> int \<Rightarrow> int option" where
  "intsetGet_at s pos = intsetGetEncoded s pos (unat (is_encoding s) mod 256)"

definition intsetSet :: "intset \<Rightarrow> int \<Rightarrow> int \<Rightarrow> intset option" where
  "intsetSet s pos v =
     (let encoding = unat (is_encoding s) in
      map_option (\<lambda>bs. s\<lparr>contents := bs\<rparr>)
        (if encoding = INTSET_ENC_INT64 then bwrite (contents s) (pos * 8) (le_bytes 8 (word_of_int v :: 64 word))
         else if encoding = INTSET_ENC_INT32 then bwrite (contents s) (pos * 4) (le_bytes 4 (word_of_int v :: 32 word))
         else bwrite (contents s) (pos * 2) (le_bytes 2 (word_of_int v :: 16 word))))"

definition intsetNew :: intset where
  "intsetNew = \<lparr>is_encoding = w32 INTSET_ENC_INT16, is_length = 0, contents = []\<rparr>"

definition sizeof_intset :: u64 where "sizeof_intset = 8"

definition intsetAllocSize :: "intset \<Rightarrow> u64 option" where
  "intsetAllocSize s =
     (let size = ucast (is_length s) * ucast (is_encoding s) :: u64 in
      if size \<le> - 1 - sizeof_intset then Some (sizeof_intset + size) else None)"

definition intsetResize :: "(nat \<Rightarrow> u8) \<Rightarrow> intset \<Rightarrow> u32 \<Rightarrow> intset option" where
  "intsetResize g s len =
     (let size = ucast len * ucast (is_encoding s) :: u64 in
      if size \<le> - 1 - sizeof_intset then Some (s\<lparr>contents := brealloc g (unat size) (contents s)\<rparr>) else None)"

section \<open>Search\<close>

partial_function (option) intsetSearch_loop ::
  "intset \<Rightarrow> int \<Rightarrow> int \<Rightarrow> int \<Rightarrow> int \<Rightarrow> int \<Rightarrow> (int \<times> int \<times> int) option" where
  "intsetSearch_loop s v min' max' mid cur =
     (if max' \<ge> min' then
        (let mid = (min' + max') mod 2 ^ 32 div 2 in
         do {
           cur \<leftarrow> intsetGet_at s mid;
           if v > cur then intsetSearch_loop s v (mid + 1) max' mid cur
           else if v < cur then intsetSearch_loop s v min' (mid - 1) mid cur
           else Some (min', mid, cur)
         })
      else Some (min', mid, cur))"

declare intsetSearch_loop.simps [code]

definition intsetSearch :: "intset \<Rightarrow> int \<Rightarrow> (bool \<times> u32) option" where
  "intsetSearch s v =
     (let max = sint (is_length s - 1) in
      if is_length s = 0 then Some (False, 0)
      else do {
        hi \<leftarrow> intsetGet_at s max;
        if v > hi then Some (False, is_length s)
        else do {
          lo \<leftarrow> intsetGet_at s 0;
          if v < lo then Some (False, 0)
          else do {
            (min, mid, cur) \<leftarrow> intsetSearch_loop s v 0 max (- 1) (- 1);
            Some (if v = cur then (True, word_of_int mid) else (False, word_of_int min))
          }
        }
      })"

section \<open>Insertion and removal\<close>

text \<open>The loop of the upgrade runs from the last element to the first.\<close>

fun upgrade_loop :: "intset \<Rightarrow> nat \<Rightarrow> int \<Rightarrow> nat \<Rightarrow> intset option" where
  "upgrade_loop s curenc prepend 0 = Some s"
| "upgrade_loop s curenc prepend (Suc len) =
     do {
       v \<leftarrow> intsetGetEncoded s (int len) curenc;
       s \<leftarrow> intsetSet s (int len + prepend) v;
       upgrade_loop s curenc prepend len
     }"

definition intsetUpgradeAndAdd :: "(nat \<Rightarrow> u8) \<Rightarrow> intset \<Rightarrow> int \<Rightarrow> intset option" where
  "intsetUpgradeAndAdd g s v =
     (let curenc = unat (is_encoding s) mod 256;
          newenc = intsetValueEncoding v;
          len = unat (is_length s);
          prepend = (if v < 0 then 1 else 0);
          s = s\<lparr>is_encoding := w32 newenc\<rparr>
      in do {
           s \<leftarrow> intsetResize g s (is_length s + 1);
           s \<leftarrow> upgrade_loop s curenc prepend len;
           s \<leftarrow> (if prepend \<noteq> 0 then intsetSet s 0 v else intsetSet s (sint (is_length s)) v);
           Some (s\<lparr>is_length := is_length s + 1\<rparr>)
         })"

definition intsetMoveTail :: "intset \<Rightarrow> u32 \<Rightarrow> u32 \<Rightarrow> intset option" where
  "intsetMoveTail s from to =
     (let n = is_length s - from; encoding = unat (is_encoding s) in
      map_option (\<lambda>bs. s\<lparr>contents := bs\<rparr>)
        (if encoding = INTSET_ENC_INT64 then
           bmove (contents s) (uint to * 8) (uint from * 8) (unat (n * 8))
         else if encoding = INTSET_ENC_INT32 then
           bmove (contents s) (uint to * 4) (uint from * 4) (unat (n * 4))
         else bmove (contents s) (uint to * 2) (uint from * 2) (unat (n * 2))))"

text \<open>The second component of the result is \<open>*success\<close>.\<close>

definition intsetAdd :: "(nat \<Rightarrow> u8) \<Rightarrow> intset \<Rightarrow> int \<Rightarrow> (intset \<times> bool) option" where
  "intsetAdd g s v =
     (if intsetValueEncoding v > unat (is_encoding s) then
        map_option (\<lambda>s. (s, True)) (intsetUpgradeAndAdd g s v)
      else do {
        (found, pos) \<leftarrow> intsetSearch s v;
        if found then Some (s, False)
        else do {
          s \<leftarrow> intsetResize g s (is_length s + 1);
          s \<leftarrow> (if pos < is_length s then intsetMoveTail s pos (pos + 1) else Some s);
          s \<leftarrow> intsetSet s (sint pos) v;
          Some (s\<lparr>is_length := is_length s + 1\<rparr>, True)
        }
      })"

definition intsetRemove :: "(nat \<Rightarrow> u8) \<Rightarrow> intset \<Rightarrow> int \<Rightarrow> (intset \<times> bool) option" where
  "intsetRemove g s v =
     (if intsetValueEncoding v \<le> unat (is_encoding s) then
        do {
          (found, pos) \<leftarrow> intsetSearch s v;
          if found then
            let len = is_length s in
            do {
              s \<leftarrow> (if pos < len - 1 then intsetMoveTail s (pos + 1) pos else Some s);
              s \<leftarrow> intsetResize g s (len - 1);
              Some (s\<lparr>is_length := len - 1\<rparr>, True)
            }
          else Some (s, False)
        }
      else Some (s, False))"

section \<open>Queries\<close>

definition intsetFind :: "intset \<Rightarrow> int \<Rightarrow> bool option" where
  "intsetFind s v =
     (if intsetValueEncoding v \<le> unat (is_encoding s) then map_option fst (intsetSearch s v) else Some False)"

text \<open>\<open>r\<close> is what \<open>rand()\<close> returned; \<open>None\<close> is the failed assertion (or a fault).\<close>

definition intsetRandom :: "nat \<Rightarrow> intset \<Rightarrow> int option" where
  "intsetRandom r s =
     (let len = unat (is_length s) in if len \<noteq> 0 then intsetGet_at s (int (r mod len)) else None)"

definition intsetMax :: "intset \<Rightarrow> int option" where
  "intsetMax s = intsetGet_at s (sint (is_length s - 1))"

definition intsetMin :: "intset \<Rightarrow> int option" where
  "intsetMin s = intsetGet_at s 0"

text \<open>\<open>Some None\<close> is the return value 0, out of range.\<close>

definition intsetGet :: "intset \<Rightarrow> u32 \<Rightarrow> int option option" where
  "intsetGet s pos =
     (if pos < is_length s then map_option Some (intsetGet_at s (sint pos)) else Some None)"

definition intsetLen :: "intset \<Rightarrow> u32" where
  "intsetLen s = is_length s"

definition intsetBlobLen :: "intset \<Rightarrow> u64" where
  "intsetBlobLen s = sizeof_intset + ucast (is_length s) * ucast (is_encoding s)"

text \<open>The bytes of the structure as they are stored, and the check of such bytes.\<close>

definition intset_blob :: "intset \<Rightarrow> u8 list" where
  "intset_blob s = le_bytes 4 (is_encoding s) @ le_bytes 4 (is_length s) @ contents s"

definition intset_of_blob :: "u8 list \<Rightarrow> intset" where
  "intset_of_blob p =
     \<lparr>is_encoding = le_word (take 4 p), is_length = le_word (take 4 (drop 4 p)), contents = drop 8 p\<rparr>"

fun validate_loop :: "intset \<Rightarrow> int \<Rightarrow> nat \<Rightarrow> nat \<Rightarrow> bool option" where
  "validate_loop s prev i 0 = Some True"
| "validate_loop s prev i (Suc n) =
     do {
       cur \<leftarrow> intsetGet_at s (int i);
       if cur \<le> prev then Some False else validate_loop s cur (i + 1) n
     }"

definition intsetValidateIntegrity :: "u8 list \<Rightarrow> bool \<Rightarrow> bool option" where
  "intsetValidateIntegrity p deep =
     (if length p < 8 then Some False
      else
        let s = intset_of_blob p;
            encoding = unat (is_encoding s);
            count = unat (is_length s)
        in if encoding \<notin> {INTSET_ENC_INT64, INTSET_ENC_INT32, INTSET_ENC_INT16} then Some False
           else if 8 + count * encoding \<noteq> length p then Some False
           else if count = 0 then Some False
           else if \<not> deep then Some True
           else do { prev \<leftarrow> intsetGet_at s 0; validate_loop s prev 1 (count - 1) })"

end
