(* ===== verification/Intset_Set.thy ===== *)
theory Intset_Set
  imports Intset
begin

text \<open>
  What the integer set means: its contents are the encodings of a strictly increasing list, and
  the operations are insertion into and deletion from that list. The size in bytes has to stay
  below \<open>2^32\<close>, because \<open>intsetMoveTail\<close> counts bytes in 32 bits.
\<close>

section \<open>Representation\<close>

definition enc_int :: "nat \<Rightarrow> int \<Rightarrow> u8 list" where
  "enc_int e v =
     (if e = 8 then le_bytes 8 (word_of_int v :: 64 word)
      else if e = 4 then le_bytes 4 (word_of_int v :: 32 word)
      else le_bytes 2 (word_of_int v :: 16 word))"

definition valid_enc :: "nat \<Rightarrow> bool" where
  "valid_enc e \<longleftrightarrow> e = 2 \<or> e = 4 \<or> e = 8"

definition in_range :: "nat \<Rightarrow> int \<Rightarrow> bool" where
  "in_range e v \<longleftrightarrow> - (2 ^ (8 * e - 1)) \<le> v \<and> v < 2 ^ (8 * e - 1)"

lemma uniform_enc_int: "valid_enc e \<Longrightarrow> uniform e (enc_int e)"
  by (auto simp: enc_int_def valid_enc_def)

lemma dec_enc_int:
  assumes "in_range e v"
  shows "e = 8 \<Longrightarrow> sint (le_word (enc_int e v) :: 64 word) = v"
    and "e = 4 \<Longrightarrow> sint (le_word (enc_int e v) :: 32 word) = v"
    and "e = 2 \<Longrightarrow> sint (le_word (enc_int e v) :: 16 word) = v"
  using assms
  by (simp_all add: enc_int_def in_range_def le_word_le_bytes signed_of_int signed_take_bit_int_eq_self
      take_bit_word_eq_self)

lemma in_range_mono: "in_range e v \<Longrightarrow> e \<le> e' \<Longrightarrow> in_range e' v"
proof -
  assume v: "in_range e v" and "e \<le> e'"
  then have "(2::int) ^ (8 * e - 1) \<le> 2 ^ (8 * e' - 1)" by (intro power_increasing) auto
  then show ?thesis using v unfolding in_range_def by linarith
qed

lemma value_encoding:
  assumes "in_range 8 v"
  shows "valid_enc (intsetValueEncoding v)" "valid_enc e \<Longrightarrow> intsetValueEncoding v \<le> e \<longleftrightarrow> in_range e v"
  using assms by (auto simp: intsetValueEncoding_def valid_enc_def in_range_def enc_defs)

definition represents :: "intset \<Rightarrow> nat \<Rightarrow> int list \<Rightarrow> bool" where
  "represents s e vs \<longleftrightarrow> valid_enc e \<and> is_encoding s = w32 e \<and> is_length s = w32 (length vs) \<and>
     contents s = enc_all (enc_int e) vs \<and> length vs < 2 ^ 29 \<and> (\<forall>v \<in> set vs. in_range e v) \<and> sorted_wrt (<) vs"

lemma representsD:
  assumes "represents s e vs"
  shows "valid_enc e" "is_encoding s = w32 e" "is_length s = w32 (length vs)"
    "contents s = enc_all (enc_int e) vs" "length vs < 2 ^ 29" "\<forall>v \<in> set vs. in_range e v" "sorted_wrt (<) vs"
    "unat (is_encoding s) = e" "unat (is_length s) = length vs"
  using assms by (auto simp: represents_def valid_enc_def unat_w32_small)

lemma get_encoded:
  assumes "valid_enc e" and "contents s = enc_all (enc_int e) vs @ zs" and "i < length vs" and "in_range e (vs ! i)"
  shows "intsetGetEncoded s (int i) e = Some (vs ! i)"
proof -
  have "bread (contents s) (int i * int e) e = Some (enc_int e (vs ! i))"
    unfolding assms(2) by (rule bread_enc_all [OF uniform_enc_int [OF assms(1)] assms(3)])
  then show ?thesis
    using assms(1) dec_enc_int [OF assms(4)] by (auto simp: intsetGetEncoded_def enc_defs valid_enc_def)
qed

lemma get_at:
  assumes "represents s e vs" and "i < length vs"
  shows "intsetGet_at s (int i) = Some (vs ! i)"
proof -
  have "unat (is_encoding s) mod 256 = e" using representsD(1,8) [OF assms(1)] by (auto simp: valid_enc_def)
  then show ?thesis
    using get_encoded [of e s vs "[]" i] representsD(1,4,6) [OF assms(1)] assms(2) by (simp add: intsetGet_at_def)
qed

lemma set_at:
  assumes "valid_enc e" and "is_encoding s = w32 e" and "contents s = xs @ ys @ zs"
    and "length xs = i * e" and "length ys = e"
  shows "intsetSet s (int i) v = Some (s\<lparr>contents := xs @ enc_int e v @ zs\<rparr>)"
proof -
  have "bwrite (contents s) (int i * int e) (enc_int e v) = Some (xs @ enc_int e v @ zs)"
    unfolding assms(3) by (rule bwrite_append [OF assms(4)]) (use assms uniform_enc_int in auto)
  moreover have "unat (is_encoding s) = e" using assms(1,2) by (auto simp: valid_enc_def unat_w32_small)
  ultimately show ?thesis using assms(1) by (auto simp: intsetSet_def enc_defs valid_enc_def enc_int_def)
qed

lemma represents_new: "represents intsetNew 2 []"
  by (simp add: represents_def intsetNew_def enc_defs valid_enc_def w32_def)

section \<open>Search\<close>

lemma sint_w32: "n < 2 ^ 31 \<Longrightarrow> sint (w32 n) = int n"
  using signed_of_int [where 'b = 32 and 'a = int, of "int n"] by (simp add: w32_def signed_take_bit_int_eq_self)

lemma search_loop_ok:
  assumes rep: "represents s e vs" and "0 \<le> lo" and "hi < int (length vs)" and "lo \<le> hi + 1"
    and "\<forall>i < nat lo. vs ! i < v" and "\<forall>i < length vs. hi < int i \<longrightarrow> v < vs ! i"
    and "hi < lo \<Longrightarrow> cur \<noteq> v"
  shows "\<exists>lo' mid' cur'. intsetSearch_loop s v lo hi mid cur = Some (lo', mid', cur') \<and>
    (if cur' = v then 0 \<le> mid' \<and> mid' < int (length vs) \<and> vs ! nat mid' = v
     else 0 \<le> lo' \<and> lo' \<le> int (length vs) \<and> (\<forall>i < nat lo'. vs ! i < v) \<and> (\<forall>i < length vs. nat lo' \<le> i \<longrightarrow> v < vs ! i))"
  using assms(2-)
proof (induction "nat (hi - lo + 1)" arbitrary: lo hi mid cur rule: less_induct)
  case less
  note A = less.prems
  have n: "int (length vs) < 2 ^ 29" using representsD(5) [OF rep] by simp
  show ?case
  proof (cases "lo \<le> hi")
    case False
    then show ?thesis using A by (subst intsetSearch_loop.simps) (auto simp: le_nat_iff)
  next
    case True
    define m where "m = (lo + hi) div 2"
    have m: "(lo + hi) mod 2 ^ 32 div 2 = m" "lo \<le> m" "m \<le> hi" "0 \<le> m"
      using True A(1,2) n by (auto simp: m_def)
    define x where "x = vs ! nat m"
    have x: "intsetGet_at s m = Some x" using get_at [OF rep, of "nat m"] m A(2) by (simp add: x_def)
    have mn: "nat m < length vs" using m(3) A(2) m(4) by linarith
    have below: "vs ! i \<le> x" if "i \<le> nat m" for i
      using that sorted_wrt_nth_less [OF representsD(7) [OF rep] _ mn, of i]
      by (cases "i = nat m") (simp_all add: x_def order.strict_implies_order)
    have above: "x \<le> vs ! i" if "nat m \<le> i" "i < length vs" for i
      using that sorted_wrt_nth_less [OF representsD(7) [OF rep] _ that(2), of "nat m"]
      by (cases "i = nat m") (simp_all add: x_def order.strict_implies_order)
    have step: "intsetSearch_loop s v lo hi mid cur =
      (if v > x then intsetSearch_loop s v (m + 1) hi m x
       else if v < x then intsetSearch_loop s v lo (m - 1) m x else Some (lo, m, x))"
      using True x m(1) by (subst intsetSearch_loop.simps) (simp add: Let_def)
    consider "v > x" | "v < x" | "v = x" by linarith
    then show ?thesis
    proof cases
      case 1
      have "\<forall>i < nat (m + 1). vs ! i < v"
      proof (intro allI impI)
        fix i assume "i < nat (m + 1)"
        then have "vs ! i \<le> x" using m(4) by (intro below) simp
        then show "vs ! i < v" using 1 by simp
      qed
      then have "\<exists>lo' mid' cur'. intsetSearch_loop s v (m + 1) hi m x = Some (lo', mid', cur') \<and>
        (if cur' = v then 0 \<le> mid' \<and> mid' < int (length vs) \<and> vs ! nat mid' = v
         else 0 \<le> lo' \<and> lo' \<le> int (length vs) \<and> (\<forall>i < nat lo'. vs ! i < v) \<and> (\<forall>i < length vs. nat lo' \<le> i \<longrightarrow> v < vs ! i))"
        using m True A 1 by (intro less.hyps) auto
      then show ?thesis using step 1 by simp
    next
      case 2
      have "\<forall>i < length vs. m - 1 < int i \<longrightarrow> v < vs ! i"
      proof (intro allI impI)
        fix i assume "i < length vs" "m - 1 < int i"
        then have "x \<le> vs ! i" using m(4) by (intro above) simp_all
        then show "v < vs ! i" using 2 by simp
      qed
      then have "\<exists>lo' mid' cur'. intsetSearch_loop s v lo (m - 1) m x = Some (lo', mid', cur') \<and>
        (if cur' = v then 0 \<le> mid' \<and> mid' < int (length vs) \<and> vs ! nat mid' = v
         else 0 \<le> lo' \<and> lo' \<le> int (length vs) \<and> (\<forall>i < nat lo'. vs ! i < v) \<and> (\<forall>i < length vs. nat lo' \<le> i \<longrightarrow> v < vs ! i))"
        using m True A 2 by (intro less.hyps) auto
      then show ?thesis using step 2 by simp
    next
      case 3
      then show ?thesis using step m A(2) by (auto simp: x_def)
    qed
  qed
qed

lemma w32_diff_1: "0 < n \<Longrightarrow> w32 n - 1 = w32 (n - 1)"
  by (simp add: w32_def)

lemma w32_eq_0_iff: "n < 2 ^ 32 \<Longrightarrow> w32 n = 0 \<longleftrightarrow> n = 0"
  using unat_w32_small [of n] by (metis unat_eq_zero)

lemma w32_add_1: "w32 n + 1 = w32 (n + 1)"
  by (simp add: w32_def)

text \<open>Where the search puts an element that is missing: all before are smaller, all after larger.\<close>

definition insertion_point :: "int list \<Rightarrow> int \<Rightarrow> nat \<Rightarrow> bool" where
  "insertion_point vs v i \<longleftrightarrow> i \<le> length vs \<and> (\<forall>x \<in> set (take i vs). x < v) \<and> (\<forall>x \<in> set (drop i vs). v < x)"

lemma insertion_pointI:
  assumes "i \<le> length vs" and "\<forall>j < i. vs ! j < v" and "\<forall>j < length vs. i \<le> j \<longrightarrow> v < vs ! j"
  shows "insertion_point vs v i"
  using assms by (auto simp: insertion_point_def in_set_conv_nth)

lemma search_ok:
  assumes rep: "represents s e vs"
  obtains i where "i < length vs" "vs ! i = v" "intsetSearch s v = Some (True, w32 i)"
  | i where "insertion_point vs v i" "intsetSearch s v = Some (False, w32 i)"
proof (cases "vs = []")
  case True
  then have "intsetSearch s v = Some (False, w32 0)" using representsD(3) [OF rep] by (simp add: intsetSearch_def w32_def)
  then show ?thesis using that(2) [of 0] True by (simp add: insertion_point_def)
next
  case False
  define n where "n = length vs"
  have n: "0 < n" "n < 2 ^ 29" using False representsD(5) [OF rep] by (simp_all add: n_def)
  have L: "is_length s \<noteq> 0" "sint (is_length s - 1) = int (n - 1)" "is_length s = w32 n"
    using representsD(3) [OF rep] n w32_eq_0_iff [of n] by (simp_all add: n_def w32_diff_1 sint_w32)
  have hi: "intsetGet_at s (int (n - 1)) = Some (vs ! (n - 1))" by (rule get_at [OF rep]) (use n in \<open>simp add: n_def\<close>)
  have lo: "intsetGet_at s 0 = Some (vs ! 0)" using get_at [OF rep, of 0] n by (simp add: n_def)
  note srt = sorted_wrt_nth_less [OF representsD(7) [OF rep]]
  consider "v > vs ! (n - 1)" | "v < vs ! 0" "v \<le> vs ! (n - 1)" | "vs ! 0 \<le> v" "v \<le> vs ! (n - 1)" by linarith
  then show ?thesis
  proof cases
    case 1
    have "\<forall>j < n. vs ! j < v"
    proof (intro allI impI)
      fix j assume "j < n"
      then have "j = n - 1 \<or> vs ! j < vs ! (n - 1)" using srt [of j "n - 1"] n(1) by (simp add: n_def) linarith
      then show "vs ! j < v" using 1 by auto
    qed
    then have "insertion_point vs v n" by (intro insertion_pointI) (auto simp: n_def)
    moreover have "intsetSearch s v = Some (False, w32 n)" using L hi 1 by (simp add: intsetSearch_def Let_def)
    ultimately show ?thesis by (rule that(2))
  next
    case 2
    have "\<forall>j < n. v < vs ! j"
    proof (intro allI impI)
      fix j assume "j < n"
      then show "v < vs ! j" using srt [of 0 j] 2 by (cases "j = 0") (auto simp: n_def)
    qed
    then have "insertion_point vs v 0" by (intro insertion_pointI) (auto simp: n_def)
    moreover have "intsetSearch s v = Some (False, w32 0)"
      using L hi lo 2 by (simp add: intsetSearch_def Let_def w32_def)
    ultimately show ?thesis by (rule that(2))
  next
    case 3
    have "\<exists>lo' mid' cur'. intsetSearch_loop s v 0 (int (n - 1)) (- 1) (- 1) = Some (lo', mid', cur') \<and>
      (if cur' = v then 0 \<le> mid' \<and> mid' < int n \<and> vs ! nat mid' = v
       else 0 \<le> lo' \<and> lo' \<le> int n \<and> (\<forall>i < nat lo'. vs ! i < v) \<and> (\<forall>i < n. nat lo' \<le> i \<longrightarrow> v < vs ! i))"
      by (rule search_loop_ok [OF rep, of 0 "int (n - 1)" v, folded n_def]) (use n in auto)
    then obtain lo' mid' cur' where R: "intsetSearch_loop s v 0 (int (n - 1)) (- 1) (- 1) = Some (lo', mid', cur')"
      "if cur' = v then 0 \<le> mid' \<and> mid' < int n \<and> vs ! nat mid' = v
       else 0 \<le> lo' \<and> lo' \<le> int n \<and> (\<forall>i < nat lo'. vs ! i < v) \<and> (\<forall>i < n. nat lo' \<le> i \<longrightarrow> v < vs ! i)"
      by blast
    have S: "intsetSearch s v = Some (if v = cur' then (True, word_of_int mid') else (False, word_of_int lo'))"
      using L hi lo 3 R(1) by (simp add: intsetSearch_def Let_def)
    have w: "word_of_int z = w32 (nat z)" if "0 \<le> z" for z using that by (simp add: w32_def)
    show ?thesis
    proof (cases "cur' = v")
      case True
      then show ?thesis using that(1) [of "nat mid'"] R(2) S w by (auto simp: n_def nat_less_iff)
    next
      case False
      then have "insertion_point vs v (nat lo')" using R(2) by (intro insertion_pointI) (auto simp: n_def)
      then show ?thesis using that(2) [of "nat lo'"] False R(2) S w by simp
    qed
  qed
qed

lemma search_iff:
  assumes rep: "represents s e vs"
  shows "\<exists>i. intsetSearch s v = Some (v \<in> set vs, w32 i) \<and> (if v \<in> set vs then i < length vs \<and> vs ! i = v else insertion_point vs v i)"
proof (rule search_ok [OF rep, of v])
  fix i assume i: "insertion_point vs v i" and "intsetSearch s v = Some (False, w32 i)"
  moreover have "v \<notin> set vs" using i set_append [of "take i vs" "drop i vs"] by (auto simp: insertion_point_def)
  ultimately show ?thesis by auto
qed auto

lemma insertion_point_sorted:
  "insertion_point vs v i \<Longrightarrow> sorted_wrt (<) vs \<Longrightarrow> sorted_wrt (<) (take i vs @ v # drop i vs)"
  by (auto simp: insertion_point_def sorted_wrt_append sorted_wrt_take sorted_wrt_drop intro: less_trans)

section \<open>Insertion\<close>

lemma resize_ok:
  assumes "valid_enc e" and "is_encoding s = w32 e" and "k < 2 ^ 30"
  shows "intsetResize g s (w32 k) = Some (s\<lparr>contents := brealloc g (k * e) (contents s)\<rparr>)"
proof -
  have k: "k * e < 2 ^ 34" using assms(1,3) by (auto simp: valid_enc_def)
  have "ucast (w32 k) * ucast (is_encoding s) = w64 (k * e)"
    using assms by (auto simp: valid_enc_def ucast_w32 w64_def)
  moreover have "w64 (k * e) \<le> - 1 - sizeof_intset"
    using k by (simp add: word_le_nat_alt unat_w64_small sizeof_intset_def)
  ultimately show ?thesis using k by (simp add: intsetResize_def unat_w64_small)
qed

lemma bmove_append:
  assumes "length xs = k" and "length ys = n"
  shows "bmove (xs @ ys @ zs) dst (int k) n = bwrite (xs @ ys @ zs) dst ys"
  using bread_append [OF assms(1), of n ys "int k" zs] assms(2) by (simp add: bmove_def)

lemma move_tail:
  assumes "valid_enc e" and "is_encoding s = w32 e" and "is_length s = w32 n" and "i \<le> n" and "n < 2 ^ 29"
    and "contents s = xs @ ys @ zs" and "length xs = i * e" and "length ys = (n - i) * e" and "j < 2 ^ 29"
  shows "intsetMoveTail s (w32 i) (w32 j) =
    map_option (\<lambda>bs. s\<lparr>contents := bs\<rparr>) (bwrite (contents s) (int (j * e)) ys)"
proof -
  have u: "unat (is_encoding s) = e" using assms(1,2) by (auto simp: valid_enc_def unat_w32_small)
  have "is_length s - w32 i = w32 (n - i)" using assms(3,4) by (simp add: w32_def)
  moreover have "unat (w32 (n - i) * w32 e) = (n - i) * e"
    using assms(1,5) unat_w32_small [of "(n - i) * e"] by (auto simp: valid_enc_def w32_def)
  moreover have "uint (w32 i) = int i" "uint (w32 j) = int j"
    using assms(4,5,9) by (simp_all add: uint_nat unat_w32_small)
  moreover have "bmove (contents s) (int (j * e)) (int (i * e)) ((n - i) * e) = bwrite (contents s) (int (j * e)) ys"
    unfolding assms(6) by (rule bmove_append [OF assms(7,8)])
  ultimately show ?thesis
    using assms(1) u by (auto simp: intsetMoveTail_def enc_defs valid_enc_def w32_def)
qed

lemma add_new:
  assumes rep: "represents s e vs" and ip: "insertion_point vs v i" and v: "in_range e v" "v \<notin> set vs"
    and room: "length vs + 1 < 2 ^ 29" and S: "intsetSearch s v = Some (False, w32 i)"
    and enc: "intsetValueEncoding v \<le> e"
  obtains s' where "intsetAdd g s v = Some (s', True)" "represents s' e (take i vs @ v # drop i vs)"
proof -
  note R = representsD [OF rep]
  define n where "n = length vs"
  define A where "A = enc_all (enc_int e) (take i vs)"
  define B where "B = enc_all (enc_int e) (drop i vs)"
  define J where "J = map g [n * e..<(n + 1) * e]"
  have i: "i \<le> n" "n < 2 ^ 29" "i < 2 ^ 29" using ip room by (auto simp: insertion_point_def n_def)
  have lens: "length A = i * e" "length B = (n - i) * e" "length J = e"
    using length_enc_all [OF uniform_enc_int [OF R(1)]] i by (auto simp: A_def B_def J_def n_def algebra_simps)
  have c: "contents s = A @ B" by (simp add: R(4) A_def B_def flip: enc_all_simps(3))
  define s1 where "s1 = s\<lparr>contents := A @ B @ J\<rparr>"
  have "length (contents s) = n * e" using lens i c by (simp flip: add_mult_distrib)
  then have r: "intsetResize g s (is_length s + 1) = Some s1"
    using resize_ok [OF R(1,2), of "n + 1" g] i c brealloc_grow [of "contents s" "(n + 1) * e" g]
    by (simp add: R(3) n_def [symmetric] w32_add_1 s1_def J_def)
  obtain X where X: "length X = e"
    and m: "(if w32 i < is_length s1 then intsetMoveTail s1 (w32 i) (w32 i + 1) else Some s1) = Some (s\<lparr>contents := A @ X @ B\<rparr>)"
  proof (cases "i < n")
    case True
    define Y where "Y = take e (B @ J)"
    define Z where "Z = drop e (B @ J)"
    have YZ: "B @ J = Y @ Z" "length Y = e" "length Z = length B" using lens
      by (simp_all add: Y_def Z_def del: take_append drop_append)
    have "intsetMoveTail s1 (w32 i) (w32 (i + 1)) =
        map_option (\<lambda>bs. s1\<lparr>contents := bs\<rparr>) (bwrite (contents s1) (int ((i + 1) * e)) B)"
      by (rule move_tail [OF R(1), where n = n and xs = A and zs = J]) (use R lens i True in \<open>auto simp: s1_def n_def\<close>)
    moreover have "bwrite ((A @ Y) @ Z @ []) (int ((i + 1) * e)) B = Some ((A @ Y) @ B @ [])"
      by (rule bwrite_append [where k = "(i + 1) * e"]) (use lens YZ in auto)
    then have "bwrite (contents s1) (int ((i + 1) * e)) B = Some (A @ Y @ B)" using YZ(1) by (simp add: s1_def)
    moreover have "w32 i < is_length s1" using True i R(3) by (simp add: s1_def n_def word_less_nat_alt unat_w32_small)
    ultimately show ?thesis using that [OF YZ(2)] by (simp add: w32_add_1 s1_def)
  next
    case False
    then have "i = n" "B = []" using i lens by auto
    moreover have "\<not> w32 i < is_length s1" using False i R(3) by (simp add: s1_def n_def word_less_nat_alt unat_w32_small)
    ultimately show ?thesis using that [of J] lens by (simp add: s1_def)
  qed
  have st: "intsetSet (s\<lparr>contents := A @ X @ B\<rparr>) (int i) v = Some (s\<lparr>contents := A @ enc_int e v @ B\<rparr>)"
    using set_at [OF R(1), of "s\<lparr>contents := A @ X @ B\<rparr>" A X B i v] R(2) lens X by simp
  let ?s = "s\<lparr>contents := A @ enc_int e v @ B, is_length := is_length s + 1\<rparr>"
  have "intsetAdd g s v = Some (?s, True)"
    using enc S r m st i by (simp add: intsetAdd_def R(8) sint_w32)
  moreover have "represents ?s e (take i vs @ v # drop i vs)"
    using R ip v(1) room insertion_point_sorted [OF ip R(7)] i
    by (auto simp: represents_def A_def B_def w32_add_1 n_def dest: in_set_takeD in_set_dropD)
  ultimately show ?thesis by (rule that)
qed

section \<open>Widening\<close>

lemma upgrade_loop_ok:
  assumes e: "valid_enc e" "valid_enc e'" "e \<le> e'" and rng: "\<forall>v \<in> set vs. in_range e v"
    and "k \<le> length vs" and "is_encoding s = w32 e'"
    and "contents s = Q @ enc_all (enc_int e') (drop k vs) @ T"
    and "length Q = (k + p) * e'" and "take (k * e) Q = enc_all (enc_int e) (take k vs)"
  shows "\<exists>Q'. length Q' = p * e' \<and>
    upgrade_loop s e (int p) k = Some (s\<lparr>contents := Q' @ enc_all (enc_int e') vs @ T\<rparr>)"
  using assms(5-)
proof (induction k arbitrary: s Q)
  case 0
  then show ?case by auto
next
  case (Suc k)
  note A = Suc.prems
  define Q' where "Q' = take ((k + p) * e') Q"
  have k: "k < length vs" using A(1) by simp
  have tk: "take (Suc k) vs = take k vs @ [vs ! k]" using k by (simp add: take_Suc_conv_app_nth)
  have ke: "k * e \<le> (k + p) * e'" using e(3) by (intro mult_le_mono) auto
  have "contents s = enc_all (enc_int e) (take (Suc k) vs) @ drop (Suc k * e) Q @ enc_all (enc_int e') (drop (Suc k) vs) @ T"
    using A(3,5) by (metis append.assoc append_take_drop_id)
  then have get: "intsetGetEncoded s (int k) e = Some (vs ! k)"
    using get_encoded [OF e(1), of s "take (Suc k) vs" _ k] k rng by simp
  have split: "Q = Q' @ drop ((k + p) * e') Q" by (simp add: Q'_def)
  have l: "length (drop ((k + p) * e') Q) = e'" "length Q' = (k + p) * e'" using A(4) by (auto simp: Q'_def)
  have set: "intsetSet s (int (k + p)) (vs ! k) =
      Some (s\<lparr>contents := Q' @ enc_int e' (vs ! k) @ enc_all (enc_int e') (drop (Suc k) vs) @ T\<rparr>)"
    by (rule set_at [OF e(2) A(2), where ys = "drop ((k + p) * e') Q"]) (use A(3) split l in auto)
  have ec: "enc_int e' (vs ! k) @ enc_all (enc_int e') (drop (Suc k) vs) @ T = enc_all (enc_int e') (drop k vs) @ T"
    using k by (simp flip: Cons_nth_drop_Suc)
  have "take (k * e) Q' = take (k * e) (take (Suc k * e) Q)" using ke by (simp add: Q'_def min_def)
  also have "\<dots> = take (k * e) (enc_all (enc_int e) (take k vs) @ enc_int e (vs ! k))" using A(5) tk by simp
  also have "\<dots> = enc_all (enc_int e) (take k vs)"
    using length_enc_all [OF uniform_enc_int [OF e(1)], of "take k vs"] k by simp
  finally have "take (k * e) Q' = enc_all (enc_int e) (take k vs)" .
  then obtain Q'' where "length Q'' = p * e'"
    "upgrade_loop (s\<lparr>contents := Q' @ enc_all (enc_int e') (drop k vs) @ T\<rparr>) e (int p) k =
      Some (s\<lparr>contents := Q'' @ enc_all (enc_int e') vs @ T\<rparr>)"
    using Suc.IH [of "s\<lparr>contents := Q' @ enc_all (enc_int e') (drop k vs) @ T\<rparr>" Q'] k A(2) l(2) by auto
  then show ?case using get set ec by auto
qed

lemma add_upgrade:
  assumes rep: "represents s e vs" and v: "in_range 8 v" and big: "intsetValueEncoding v > e"
    and room: "length vs + 1 < 2 ^ 29"
  defines "vs' \<equiv> (if v < 0 then v # vs else vs @ [v])"
  obtains s' where "intsetAdd g s v = Some (s', True)" "represents s' (intsetValueEncoding v) vs'"
proof -
  note R = representsD [OF rep]
  define e' where "e' = intsetValueEncoding v"
  define p where "p = (if v < 0 then 1 else 0 :: nat)"
  define n where "n = length vs"
  have e': "valid_enc e'" "in_range e' v" "e < e'" "\<not> in_range e v"
    using value_encoding(1) [OF v] value_encoding(2) [OF v, of e] value_encoding(2) [OF v, of "intsetValueEncoding v"] big R(1)
    by (auto simp: e'_def)
  define s0 where "s0 = s\<lparr>is_encoding := w32 e'\<rparr>"
  define J where "J = map g [n * e..<(n + 1) * e']"
  define s1 where "s1 = s0\<lparr>contents := enc_all (enc_int e) vs @ J\<rparr>"
  have le: "n * e \<le> (n + 1) * e'" using e'(3) by (intro mult_le_mono) auto
  have r: "intsetResize g s0 (is_length s + 1) = Some s1"
    using resize_ok [OF e'(1), of s0 "n + 1" g] room brealloc_grow [of "contents s" "(n + 1) * e'" g] le
      length_enc_all [OF uniform_enc_int [OF R(1)], of vs]
    by (simp add: s0_def s1_def R(3,4) n_def [symmetric] w32_add_1 J_def)
  define W where "W = enc_all (enc_int e) vs @ J"
  define Q where "Q = take ((n + p) * e') W"
  define T where "T = drop ((n + p) * e') W"
  have W: "length W = (n + 1) * e'"
    using le length_enc_all [OF uniform_enc_int [OF R(1)], of vs] by (simp add: W_def J_def n_def)
  have Q: "length Q = (n + p) * e'" "length T = (1 - p) * e'"
    using W by (auto simp: Q_def T_def p_def)
  have ne: "n * e \<le> (n + p) * e'" using e'(3) by (intro mult_le_mono) auto
  then have tQ: "take (n * e) Q = enc_all (enc_int e) vs"
    using length_enc_all [OF uniform_enc_int [OF R(1)], of vs] by (simp add: Q_def W_def min_def n_def)
  have all: "drop n vs = []" "take n vs = vs" by (simp_all add: n_def)
  have pre: "n \<le> length vs" "is_encoding s1 = w32 e'" "contents s1 = Q @ enc_all (enc_int e') (drop n vs) @ T"
    by (simp_all add: n_def s1_def s0_def Q_def T_def W_def del: take_append drop_append)
  obtain Q' where U: "length Q' = p * e'"
    "upgrade_loop s1 e (int p) n = Some (s1\<lparr>contents := Q' @ enc_all (enc_int e') vs @ T\<rparr>)"
    using upgrade_loop_ok [OF R(1) e'(1) less_imp_le [OF e'(3)] R(6), of n s1 Q T p] pre tQ Q(1) unfolding all by blast
  define s2 where "s2 = s1\<lparr>contents := Q' @ enc_all (enc_int e') vs @ T\<rparr>"
  have st: "(if int p \<noteq> 0 then intsetSet s2 0 v else intsetSet s2 (sint (is_length s2)) v) =
      Some (s1\<lparr>contents := enc_all (enc_int e') vs'\<rparr>)"
  proof (cases "v < 0")
    case True
    then have "intsetSet s2 (int 0) v = Some (s2\<lparr>contents := [] @ enc_int e' v @ enc_all (enc_int e') vs\<rparr>)"
      using U(1) Q(2) by (intro set_at [OF e'(1), where ys = Q']) (auto simp: s2_def s1_def s0_def p_def)
    then show ?thesis using True by (simp add: p_def vs'_def s2_def)
  next
    case False
    then have "intsetSet s2 (int n) v = Some (s2\<lparr>contents := enc_all (enc_int e') vs @ enc_int e' v @ []\<rparr>)"
      using U(1) Q(2) length_enc_all [OF uniform_enc_int [OF e'(1)], of vs]
      by (intro set_at [OF e'(1), where ys = T]) (auto simp: s2_def s1_def s0_def p_def n_def)
    moreover have "sint (is_length s2) = int n" using room R(3) by (simp add: s2_def s1_def s0_def n_def sint_w32)
    ultimately show ?thesis using False by (simp add: p_def vs'_def s2_def)
  qed
  let ?s = "s1\<lparr>contents := enc_all (enc_int e') vs', is_length := is_length s1 + 1\<rparr>"
  have pp: "(if v < 0 then 1 else 0) = int p" by (simp add: p_def)
  have "e mod 256 = e" using R(1) by (auto simp: valid_enc_def)
  then have "intsetUpgradeAndAdd g s v = Some ?s"
    using r U(2) st R(8,9)
    by (simp add: intsetUpgradeAndAdd_def Let_def pp s0_def [symmetric] e'_def [symmetric] n_def [symmetric] s2_def [symmetric])
  then have "intsetAdd g s v = Some (?s, True)" using big by (simp add: intsetAdd_def R(8))
  moreover have "represents ?s e' vs'"
  proof -
    have "in_range e' x" if "x \<in> set vs" for x using that R(6) e'(3) in_range_mono [of e x e'] by simp
    moreover have "sorted_wrt (<) vs'"
    proof -
      have "x < v \<longleftrightarrow> \<not> v < 0" "v < x \<longleftrightarrow> v < 0" if "x \<in> set vs" for x
        using that R(6) e'(4) by (fastforce simp: in_range_def)+
      then show ?thesis using R(7) by (simp add: vs'_def sorted_wrt_append)
    qed
    ultimately show ?thesis
      using e' R(3) room by (simp add: represents_def vs'_def s1_def s0_def w32_add_1)
  qed
  ultimately show ?thesis using that by (simp add: e'_def)
qed

section \<open>Removal\<close>

lemma remove_found:
  assumes rep: "represents s e vs" and i: "i < length vs" and v: "vs ! i = v"
    and S: "intsetSearch s v = Some (True, w32 i)" and enc: "intsetValueEncoding v \<le> e"
  obtains s' where "intsetRemove g s v = Some (s', True)" "represents s' e (take i vs @ drop (Suc i) vs)"
proof -
  note R = representsD [OF rep]
  define n where "n = length vs"
  define A where "A = enc_all (enc_int e) (take i vs)"
  define B where "B = enc_all (enc_int e) (drop (Suc i) vs)"
  have n: "i < n" "n < 2 ^ 29" using i R(5) by (simp_all add: n_def)
  have lens: "length A = i * e" "length B = (n - Suc i) * e" "length (enc_int e v) = e"
    using length_enc_all [OF uniform_enc_int [OF R(1)]] uniform_enc_int [OF R(1)] n by (auto simp: A_def B_def n_def)
  have c: "contents s = A @ enc_int e v @ B"
    using id_take_nth_drop [OF i] v by (metis A_def B_def R(4) enc_all_simps(2,3))
  have l1: "is_length s - 1 = w32 (n - 1)" using n by (simp add: R(3) n_def [symmetric] w32_diff_1)
  obtain Z where Z: "length Z = e"
    and m: "(if w32 i < is_length s - 1 then intsetMoveTail s (w32 i + 1) (w32 i) else Some s) = Some (s\<lparr>contents := A @ B @ Z\<rparr>)"
  proof (cases "i < n - 1")
    case True
    define Y where "Y = take (length B) (enc_int e v @ B)"
    define Z where "Z = drop (length B) (enc_int e v @ B)"
    have YZ: "enc_int e v @ B = Y @ Z" "length Y = length B" "length Z = e" using lens
      by (simp_all add: Y_def Z_def del: take_append drop_append)
    have "intsetMoveTail s (w32 (i + 1)) (w32 i) =
        map_option (\<lambda>bs. s\<lparr>contents := bs\<rparr>) (bwrite (contents s) (int (i * e)) B)"
      by (rule move_tail [OF R(1), where n = n and xs = "A @ enc_int e v" and zs = "[]"])
        (use R lens n True c in \<open>auto simp: n_def\<close>)
    moreover have "bwrite (A @ Y @ Z) (int (i * e)) B = Some (A @ B @ Z)"
      by (rule bwrite_append [OF lens(1)]) (use YZ in auto)
    moreover have "w32 i < is_length s - 1" using True n l1 by (simp add: word_less_nat_alt unat_w32_small)
    ultimately show ?thesis using that [OF YZ(3)] c YZ(1) by (simp add: w32_add_1)
  next
    case False
    then have "i = n - 1" "B = []" using n lens by auto
    moreover have "\<not> w32 i < is_length s - 1" using False n l1 by (simp add: word_less_nat_alt unat_w32_small)
    moreover have "s = s\<lparr>contents := A @ B @ enc_int e v\<rparr>" using c \<open>B = []\<close> by simp
    ultimately show ?thesis using that [OF lens(3)] by simp
  qed
  let ?s = "s\<lparr>contents := A @ B, is_length := w32 (n - 1)\<rparr>"
  have "length (A @ B) = (n - 1) * e" using lens n by (simp flip: add_mult_distrib)
  then have "intsetResize g (s\<lparr>contents := A @ B @ Z\<rparr>) (w32 (n - 1)) = Some (s\<lparr>contents := A @ B\<rparr>)"
    using resize_ok [OF R(1), of "s\<lparr>contents := A @ B @ Z\<rparr>" "n - 1" g] R(2) n
      brealloc_shrink [of "(n - 1) * e" "(A @ B) @ Z" g] by simp
  then have "intsetRemove g s v = Some (?s, True)"
    using enc S m l1 by (simp add: intsetRemove_def R(8) Let_def)
  moreover have "represents ?s e (take i vs @ drop (Suc i) vs)"
  proof -
    have "sorted_wrt (<) (take i vs @ vs ! i # drop (Suc i) vs)" using R(7) id_take_nth_drop [OF i] by simp
    then have "sorted_wrt (<) (take i vs @ drop (Suc i) vs)" by (auto simp: sorted_wrt_append)
    then show ?thesis using R n by (auto simp: represents_def A_def B_def n_def dest: in_set_takeD in_set_dropD)
  qed
  ultimately show ?thesis by (rule that)
qed

section \<open>The set it stands for\<close>

definition intset_list :: "intset \<Rightarrow> int list" where
  "intset_list s = map (\<lambda>i. the (intsetGet_at s (int i))) [0..<unat (is_length s)]"

definition intset_ok :: "intset \<Rightarrow> bool" where
  "intset_ok s \<longleftrightarrow> represents s (unat (is_encoding s)) (intset_list s)"

lemma represents_list: "represents s e vs \<Longrightarrow> intset_list s = vs"
  by (rule nth_equalityI) (auto simp: intset_list_def representsD(9) get_at)

lemma intset_okI: "represents s e vs \<Longrightarrow> intset_ok s"
  using represents_list [of s e vs] representsD(8) [of s e vs] by (simp add: intset_ok_def)

lemma intset_okE:
  assumes "intset_ok s"
  obtains e where "represents s e (intset_list s)"
  using assms by (auto simp: intset_ok_def)

lemma intset_sorted: "intset_ok s \<Longrightarrow> sorted_wrt (<) (intset_list s)"
  by (auto elim!: intset_okE dest: representsD(7))

lemma intset_range: "intset_ok s \<Longrightarrow> v \<in> set (intset_list s) \<Longrightarrow> in_range 8 v"
proof (erule intset_okE)
  fix e assume v: "v \<in> set (intset_list s)" and R: "represents s e (intset_list s)"
  then have "in_range e v" "e \<le> 8" using representsD(1,6) [OF R] by (auto simp: valid_enc_def)
  then show ?thesis by (rule in_range_mono)
qed

lemma set_insert_at: "set (take i vs @ v # drop i vs) = insert v (set vs)"
  by (metis append_take_drop_id list.simps(15) set_append Un_insert_right)

lemma set_delete_at:
  assumes "distinct vs" and "i < length vs"
  shows "set (take i vs @ drop (Suc i) vs) = set vs - {vs ! i}"
proof -
  obtain xs v ys where "vs = xs @ v # ys" "length xs = i" using assms(2) by (metis id_take_nth_drop length_take min.absorb4)
  then show ?thesis using assms(1) by auto
qed

lemma intsetAdd_ok:
  assumes ok: "intset_ok s" and v: "in_range 8 v" and room: "length (intset_list s) + 1 < 2 ^ 29"
  shows "\<exists>s'. intsetAdd g s v = Some (s', v \<notin> set (intset_list s)) \<and> intset_ok s' \<and>
    set (intset_list s') = insert v (set (intset_list s))"
proof -
  obtain e where rep: "represents s e (intset_list s)" using ok by (rule intset_okE)
  note R = representsD [OF rep]
  show ?thesis
  proof (cases "intsetValueEncoding v \<le> e")
    case True
    then have vr: "in_range e v" using value_encoding(2) [OF v R(1)] by blast
    obtain i where i: "intsetSearch s v = Some (v \<in> set (intset_list s), w32 i)"
      "if v \<in> set (intset_list s) then i < length (intset_list s) \<and> intset_list s ! i = v else insertion_point (intset_list s) v i"
      using search_iff [OF rep, of v] by blast
    show ?thesis
    proof (cases "v \<in> set (intset_list s)")
      case mem: True
      then have "intsetAdd g s v = Some (s, False)" using i(1) True by (simp add: intsetAdd_def R(8))
      then show ?thesis using ok mem by auto
    next
      case False
      then obtain s' where s': "intsetAdd g s v = Some (s', True)" "represents s' e (take i (intset_list s) @ v # drop i (intset_list s))"
        using add_new [OF rep _ vr False room _ True] i by auto
      then show ?thesis using False represents_list [OF s'(2)] intset_okI [OF s'(2)] set_insert_at [of i "intset_list s" v] by simp
    qed
  next
    case False
    obtain s' where s': "intsetAdd g s v = Some (s', True)"
      "represents s' (intsetValueEncoding v) (if v < 0 then v # intset_list s else intset_list s @ [v])"
      using add_upgrade [OF rep v _ room] False by (metis not_le)
    moreover have "v \<notin> set (intset_list s)" using False R(6) value_encoding(2) [OF v R(1)] by blast
    ultimately show ?thesis using represents_list [OF s'(2)] intset_okI [OF s'(2)] by auto
  qed
qed

lemma intsetFind_ok:
  assumes ok: "intset_ok s" and v: "in_range 8 v"
  shows "intsetFind s v = Some (v \<in> set (intset_list s))"
proof -
  obtain e where rep: "represents s e (intset_list s)" using ok by (rule intset_okE)
  note R = representsD [OF rep]
  show ?thesis
  proof (cases "intsetValueEncoding v \<le> e")
    case True
    then show ?thesis using search_iff [OF rep, of v] by (auto simp: intsetFind_def R(8))
  next
    case False
    then have "v \<notin> set (intset_list s)" using R(6) value_encoding(2) [OF v R(1)] by blast
    then show ?thesis using False by (simp add: intsetFind_def R(8))
  qed
qed

lemma intsetRemove_ok:
  assumes ok: "intset_ok s" and v: "in_range 8 v"
  shows "\<exists>s'. intsetRemove g s v = Some (s', v \<in> set (intset_list s)) \<and> intset_ok s' \<and>
    set (intset_list s') = set (intset_list s) - {v}"
proof -
  obtain e where rep: "represents s e (intset_list s)" using ok by (rule intset_okE)
  note R = representsD [OF rep]
  show ?thesis
  proof (cases "v \<in> set (intset_list s)")
    case True
    have enc: "intsetValueEncoding v \<le> e" using True R(6) value_encoding(2) [OF v R(1)] by blast
    obtain i where i: "intsetSearch s v = Some (True, w32 i)" "i < length (intset_list s)" "intset_list s ! i = v"
      using search_iff [OF rep, of v] True by auto
    then obtain s' where s': "intsetRemove g s v = Some (s', True)" "represents s' e (take i (intset_list s) @ drop (Suc i) (intset_list s))"
      using remove_found [OF rep _ _ _ enc] by blast
    have "distinct (intset_list s)" using R(7) by (simp add: strict_sorted_iff)
    then have "set (take i (intset_list s) @ drop (Suc i) (intset_list s)) = set (intset_list s) - {v}"
      using set_delete_at [OF _ i(2)] i(3) by blast
    then show ?thesis using s' True represents_list [OF s'(2)] intset_okI [OF s'(2)] by simp
  next
    case False
    then have "intsetRemove g s v = Some (s, False)"
      using search_iff [OF rep, of v] by (auto simp: intsetRemove_def)
    then show ?thesis using ok False by auto
  qed
qed

end
