(* ===== verification/Intset_Check.thy ===== *)
theory Intset_Check
  imports Intset_Set
begin

text \<open>
  The interface of a set of integers that may hold at most \<open>cap\<close> elements, its client, and the
  integer set of the corpus as an instance; then the serialised form and \<open>intsetValidateIntegrity\<close>.
\<close>

section \<open>Interface\<close>

datatype set_cmd = Ins int | Del int | Has int

fun set_step :: "set_cmd \<Rightarrow> int set \<Rightarrow> bool \<times> int set" where
  "set_step (Ins v) A = (v \<notin> A, insert v A)"
| "set_step (Del v) A = (v \<in> A, A - {v})"
| "set_step (Has v) A = (v \<in> A, A)"

fun set_run :: "set_cmd list \<Rightarrow> int set \<Rightarrow> bool list" where
  "set_run [] A = []"
| "set_run (c # cs) A = (let (b, A') = set_step c A in b # set_run cs A')"

fun arg :: "set_cmd \<Rightarrow> int" where
  "arg (Ins v) = v" | "arg (Del v) = v" | "arg (Has v) = v"

text \<open>The client on an implementation.\<close>

fun impl_run :: "('s \<Rightarrow> int \<Rightarrow> ('s \<times> bool) option) \<Rightarrow> ('s \<Rightarrow> int \<Rightarrow> ('s \<times> bool) option) \<Rightarrow>
    ('s \<Rightarrow> int \<Rightarrow> bool option) \<Rightarrow> set_cmd list \<Rightarrow> 's \<Rightarrow> bool list option" where
  "impl_run add del has [] s = Some []"
| "impl_run add del has (Ins v # cs) s = do { (s, b) \<leftarrow> add s v; bs \<leftarrow> impl_run add del has cs s; Some (b # bs) }"
| "impl_run add del has (Del v # cs) s = do { (s, b) \<leftarrow> del s v; bs \<leftarrow> impl_run add del has cs s; Some (b # bs) }"
| "impl_run add del has (Has v # cs) s = do { b \<leftarrow> has s v; bs \<leftarrow> impl_run add del has cs s; Some (b # bs) }"

locale int_set =
  fixes ok :: "'s \<Rightarrow> bool" and elems :: "'s \<Rightarrow> int set" and cap :: nat
    and add del :: "'s \<Rightarrow> int \<Rightarrow> ('s \<times> bool) option" and has :: "'s \<Rightarrow> int \<Rightarrow> bool option"
    and good :: "int \<Rightarrow> bool"
  assumes finite_elems: "ok s \<Longrightarrow> finite (elems s)"
    and add_law: "ok s \<Longrightarrow> good v \<Longrightarrow> card (elems s) < cap \<Longrightarrow>
      \<exists>s'. add s v = Some (s', v \<notin> elems s) \<and> ok s' \<and> elems s' = insert v (elems s)"
    and del_law: "ok s \<Longrightarrow> good v \<Longrightarrow>
      \<exists>s'. del s v = Some (s', v \<in> elems s) \<and> ok s' \<and> elems s' = elems s - {v}"
    and has_law: "ok s \<Longrightarrow> good v \<Longrightarrow> has s v = Some (v \<in> elems s)"
begin

lemma card_ins: "ok s \<Longrightarrow> card (insert v (elems s)) \<le> card (elems s) + 1"
  using finite_elems [of s] by (simp add: card_insert_if)

lemma run_refines:
  assumes "ok s" and "\<forall>c \<in> set cs. good (arg c)" and "card (elems s) + length cs \<le> cap"
  shows "impl_run add del has cs s = Some (set_run cs (elems s))"
  using assms
proof (induction cs arbitrary: s)
  case (Cons c cs)
  show ?case
  proof (cases c)
    case (Ins v)
    then obtain s' where s': "add s v = Some (s', v \<notin> elems s)" "ok s'" "elems s' = insert v (elems s)"
      using add_law [of s v] Cons.prems by auto
    then have "card (elems s') + length cs \<le> cap" using card_ins [OF Cons.prems(1), of v] Cons.prems(3) by simp
    then have "impl_run add del has cs s' = Some (set_run cs (elems s'))" using Cons.IH [OF s'(2)] Cons.prems(2) by simp
    then show ?thesis using s' Ins by simp
  next
    case (Del v)
    then obtain s' where s': "del s v = Some (s', v \<in> elems s)" "ok s'" "elems s' = elems s - {v}"
      using del_law [of s v] Cons.prems by auto
    moreover have "card (elems s') \<le> card (elems s)"
      using s'(3) finite_elems [OF Cons.prems(1)] by (simp add: card_mono)
    ultimately have "impl_run add del has cs s' = Some (set_run cs (elems s'))" using Cons.IH [OF s'(2)] Cons.prems(2,3) by simp
    then show ?thesis using s' Del by simp
  next
    case (Has v)
    then show ?thesis using Cons.IH [of s] Cons.prems has_law [of s v] by simp
  qed
qed simp

end

definition intset_elems :: "intset \<Rightarrow> int set" where
  "intset_elems s = set (intset_list s)"

lemma card_intset: "intset_ok s \<Longrightarrow> card (intset_elems s) = length (intset_list s)"
  using intset_sorted [of s] by (simp add: intset_elems_def strict_sorted_iff distinct_card)

interpretation iset: int_set intset_ok intset_elems "2 ^ 29 - 1" "intsetAdd g" "intsetRemove g" intsetFind "in_range 8" for g
proof
  fix s v assume s: "intset_ok s" and v: "in_range 8 v"
  show "\<exists>s'. intsetRemove g s v = Some (s', v \<in> intset_elems s) \<and> intset_ok s' \<and> intset_elems s' = intset_elems s - {v}"
    using intsetRemove_ok [OF s v] by (simp add: intset_elems_def)
  show "intsetFind s v = Some (v \<in> intset_elems s)"
    using intsetFind_ok [OF s v] by (simp add: intset_elems_def)
  assume "card (intset_elems s) < 2 ^ 29 - 1"
  then have "length (intset_list s) + 1 < 2 ^ 29" using card_intset [OF s] by simp
  from intsetAdd_ok [OF s v this]
  show "\<exists>s'. intsetAdd g s v = Some (s', v \<notin> intset_elems s) \<and> intset_ok s' \<and> intset_elems s' = insert v (intset_elems s)"
    by (simp add: intset_elems_def)
qed (simp add: intset_elems_def)

section \<open>Serialised sets\<close>

lemma blob_roundtrip: "intset_of_blob (intset_blob s) = s"
  by (simp add: intset_of_blob_def intset_blob_def le_word_le_bytes take_bit_word_eq_self)

lemma validate_loop_iff:
  assumes "\<forall>j < i + n. intsetGet_at s (int j) = Some (vs ! j)" and "0 < i"
  shows "validate_loop s (vs ! (i - 1)) i n = Some (\<forall>j. i \<le> j \<and> j < i + n \<longrightarrow> vs ! (j - 1) < vs ! j)"
  using assms
proof (induction n arbitrary: i)
  case (Suc n)
  have g: "intsetGet_at s (int i) = Some (vs ! i)" using Suc.prems(1) by simp
  have IH: "validate_loop s (vs ! i) (Suc i) n = Some (\<forall>j. Suc i \<le> j \<and> j < Suc i + n \<longrightarrow> vs ! (j - 1) < vs ! j)"
    using Suc.IH [of "Suc i"] Suc.prems(1) by simp
  have all: "(\<forall>j. i \<le> j \<and> j < i + Suc n \<longrightarrow> P j) \<longleftrightarrow> P i \<and> (\<forall>j. Suc i \<le> j \<and> j < Suc i + n \<longrightarrow> P j)" for P
    by (metis Suc_leI add_Suc_right add_Suc le_neq_implies_less less_add_Suc1 le_refl Suc_leD)
  show ?case using g IH by (simp only: validate_loop.simps all) (simp add: not_le)
qed simp

lemma validate_accepts:
  assumes "intset_ok s" and "intset_list s \<noteq> []"
  shows "intsetValidateIntegrity (intset_blob s) deep = Some True"
proof -
  define vs where "vs = intset_list s"
  obtain e where rep: "represents s e vs" using assms(1) unfolding vs_def by (rule intset_okE)
  note R = representsD [OF rep]
  have len: "length (intset_blob s) = 8 + length vs * e"
    using length_enc_all [OF uniform_enc_int [OF R(1)], of vs] by (simp add: intset_blob_def R(4))
  have n: "0 < length vs" using assms(2) by (simp add: vs_def)
  have g: "\<forall>j < 1 + (length vs - 1). intsetGet_at s (int j) = Some (vs ! j)" using get_at [OF rep] n by simp
  have "validate_loop s (vs ! 0) 1 (length vs - 1) = Some True"
    using validate_loop_iff [OF g] n sorted_wrt_nth_less [OF R(7)] by auto
  then show ?thesis
    using R n len g by (auto simp: intsetValidateIntegrity_def blob_roundtrip Let_def valid_enc_def enc_defs)
qed

lemma enc_dec_int:
  assumes "valid_enc e" and "bread (contents s) (int i * int e) e = Some bs"
  shows "\<exists>v. intsetGetEncoded s (int i) e = Some v \<and> in_range e v \<and> enc_int e v = bs"
proof -
  have l: "length bs = e" using assms(2) by (rule length_bread)
  consider "e = 8" | "e = 4" | "e = 2" using assms(1) by (auto simp: valid_enc_def)
  then show ?thesis
  proof cases
    case 1
    then show ?thesis using assms(2) l le_bytes_le_word [of bs, where 'a = 64]
        sint_ge [of "le_word bs :: 64 word"] sint_lt [of "le_word bs :: 64 word"]
      by (simp add: intsetGetEncoded_def enc_defs enc_int_def in_range_def)
  next
    case 2
    then show ?thesis using assms(2) l le_bytes_le_word [of bs, where 'a = 32]
        sint_ge [of "le_word bs :: 32 word"] sint_lt [of "le_word bs :: 32 word"]
      by (simp add: intsetGetEncoded_def enc_defs enc_int_def in_range_def)
  next
    case 3
    then show ?thesis using assms(2) l le_bytes_le_word [of bs, where 'a = 16]
        sint_ge [of "le_word bs :: 16 word"] sint_lt [of "le_word bs :: 16 word"]
      by (simp add: intsetGetEncoded_def enc_defs enc_int_def in_range_def)
  qed
qed

lemma enc_all_chunks:
  assumes "length bs = n * e" and "\<forall>i < n. f (vs i) = take e (drop (i * e) bs)"
  shows "enc_all f (map vs [0..<n]) = bs"
  using assms
proof (induction n arbitrary: bs)
  case (Suc n)
  have "enc_all f (map vs [0..<n]) = take (n * e) bs"
  proof (rule Suc.IH)
    show "\<forall>i < n. f (vs i) = take e (drop (i * e) (take (n * e) bs))"
    proof (intro allI impI)
      fix i assume i: "i < n"
      then have "i * e + e \<le> n * e" by (metis Suc_leI add.commute mult_Suc mult_le_mono1)
      then show "f (vs i) = take e (drop (i * e) (take (n * e) bs))" using Suc.prems(2) i by (simp add: drop_take min_def)
    qed
  qed (use Suc.prems(1) in simp)
  moreover have "f (vs n) = drop (n * e) bs" using Suc.prems by simp
  ultimately show ?case by simp
qed simp

lemma validate_sound:
  assumes valid: "intsetValidateIntegrity p True = Some True" and small: "length p < 2 ^ 29"
  shows "intset_ok (intset_of_blob p) \<and> intset_blob (intset_of_blob p) = p"
proof -
  define s where "s = intset_of_blob p"
  define e where "e = unat (is_encoding s)"
  define n where "n = unat (is_length s)"
  have V: "8 \<le> length p" "valid_enc e" "8 + n * e = length p" "0 < n"
    "do { prev \<leftarrow> intsetGet_at s 0; validate_loop s prev 1 (n - 1) } = Some True"
    using valid by (auto simp: intsetValidateIntegrity_def Let_def s_def [symmetric] e_def [symmetric] n_def [symmetric]
        enc_defs valid_enc_def not_less split: if_splits)
  have e: "is_encoding s = w32 e" "is_length s = w32 n" "e mod 256 = e" using V(2) by (auto simp: e_def n_def valid_enc_def)
  have c: "length (contents s) = n * e" using V(3) by (simp add: s_def intset_of_blob_def)
  have "n \<le> n * e" using V(2) by (auto simp: valid_enc_def)
  then have n29: "n < 2 ^ 29" using V(3) small by linarith
  have el: "intsetGet_at s (int i) = Some (intset_list s ! i) \<and> in_range e (intset_list s ! i) \<and>
      enc_int e (intset_list s ! i) = take e (drop (i * e) (contents s))" if "i < n" for i
  proof -
    have "i * e + e \<le> n * e" using that by (metis Suc_leI add.commute mult_Suc mult_le_mono1)
    then have "bread (contents s) (int i * int e) e = Some (take e (drop (i * e) (contents s)))"
      using bread_nat [of "contents s" "i * e" e] c by simp
    then obtain v where "intsetGetEncoded s (int i) e = Some v" "in_range e v" "enc_int e v = take e (drop (i * e) (contents s))"
      using enc_dec_int [OF V(2)] by blast
    then show ?thesis using that e(3) by (simp add: intset_list_def intsetGet_at_def e_def [symmetric] n_def [symmetric])
  qed
  have len: "length (intset_list s) = n" by (simp add: intset_list_def n_def)
  have "enc_all (enc_int e) (map (\<lambda>i. intset_list s ! i) [0..<n]) = contents s"
    by (rule enc_all_chunks [OF c]) (use el in blast)
  then have cont: "contents s = enc_all (enc_int e) (intset_list s)" using len by (metis map_nth)
  have "\<forall>j < 1 + (n - 1). intsetGet_at s (int j) = Some (intset_list s ! j)" using el V(4) by simp
  then have ord: "\<forall>j. 1 \<le> j \<and> j < n \<longrightarrow> intset_list s ! (j - 1) < intset_list s ! j"
    using validate_loop_iff [of 1 "n - 1" s "intset_list s"] V(4,5) el [OF V(4)] by simp
  have "sorted_wrt (<) (intset_list s)"
    unfolding sorted_wrt_iff_nth_Suc_transp [OF transp_on_less] using ord len by (metis Suc_leI diff_Suc_1 le_add1 plus_1_eq_Suc)
  then have "represents s e (intset_list s)"
    using V(2) e n29 len cont el by (auto simp: represents_def in_set_conv_nth)
  moreover have "take 4 p @ take 4 (drop 4 p) @ drop 8 p = p"
    using append_take_drop_id [of 4 "drop 4 p"] append_take_drop_id [of 4 p] by simp
  then have "intset_blob s = p"
    using V(1) le_bytes_le_word [of "take 4 p", where 'a = 32] le_bytes_le_word [of "take 4 (drop 4 p)", where 'a = 32]
    by (simp add: s_def intset_blob_def intset_of_blob_def)
  ultimately show ?thesis using intset_okI by (simp add: s_def)
qed

end
