(* ===== verification/Stream_Hash.thy ===== *)
theory Stream_Hash
  imports Buffer
begin

text \<open>
  What the two hash functions of the corpus, SHA-1 and SHA-256, have in common: they absorb a
  message in blocks of 64 bytes, keep the bytes of an unfinished block, and end with a padding that
  encodes the length. The contract is the locale \<open>stream_hash\<close>; its client theorem says that
  hashing a message piece by piece is hashing it at once.
\<close>

section \<open>The construction\<close>

function absorb :: "('s \<Rightarrow> u8 list \<Rightarrow> 's) \<Rightarrow> 's \<Rightarrow> u8 list \<Rightarrow> 's \<times> u8 list" where
  "absorb f s xs = (if length xs < 64 then (s, xs) else absorb f (f s (take 64 xs)) (drop 64 xs))"
  by auto
termination by (relation "measure (\<lambda>(_, _, xs). length xs)") auto

declare absorb.simps [simp del]

text \<open>The padding: the byte 0x80, zeros up to eight bytes before a block boundary, the length in bits.\<close>

definition be64 :: "u64 \<Rightarrow> u8 list" where
  "be64 v = rev (le_bytes 8 v)"

definition md_tail :: "nat \<Rightarrow> u8 list" where
  "md_tail n = 0x80 # replicate ((119 - n mod 64) mod 64) 0 @ be64 (w64 (8 * n))"

definition md_pad :: "u8 list \<Rightarrow> u8 list" where
  "md_pad msg = msg @ md_tail (length msg)"

definition md_state :: "('s \<Rightarrow> u8 list \<Rightarrow> 's) \<Rightarrow> 's \<Rightarrow> u8 list \<Rightarrow> 's" where
  "md_state f s msg = fst (absorb f s (md_pad msg))"

section \<open>Absorbing\<close>

lemma absorb_small: "length xs < 64 \<Longrightarrow> absorb f s xs = (s, xs)"
  by (simp add: absorb.simps)

lemma absorb_block: "length xs = 64 \<Longrightarrow> absorb f s (xs @ ys) = absorb f (f s xs) ys"
  by (subst absorb.simps) simp

lemma absorb_append:
  "absorb f s (xs @ ys) = (let (s', r) = absorb f s xs in absorb f s' (r @ ys))"
proof (induction f s xs rule: absorb.induct)
  case (1 f s xs)
  show ?case
  proof (cases "length xs < 64")
    case False
    have "absorb f s (xs @ ys) = absorb f (f s (take 64 xs)) (drop 64 xs @ ys)"
      using False absorb_block [of "take 64 xs" f s "drop 64 xs @ ys"] by (simp flip: append_assoc)
    moreover have "absorb f s xs = absorb f (f s (take 64 xs)) (drop 64 xs)" using False by (subst absorb.simps) simp
    ultimately show ?thesis using 1 False by simp
  qed (simp add: absorb_small)
qed

lemma absorb_rest: "length (snd (absorb f s xs)) = length xs mod 64"
proof (induction f s xs rule: absorb.induct)
  case (1 f s xs)
  then show ?case by (subst absorb.simps) (simp add: le_mod_geq not_less)
qed

lemma absorb_snoc:
  assumes "length xs < 64"
  shows "absorb f s (xs @ [x]) = (if length xs = 63 then (f s (xs @ [x]), []) else (s, xs @ [x]))"
  using assms absorb_block [of "xs @ [x]" f s "[]"] by (auto simp: absorb_small)

lemma length_be64 [simp]: "length (be64 v) = 8"
  by (simp add: be64_def)

section \<open>Contract\<close>

fun hash_feed :: "('c \<Rightarrow> u8 list \<Rightarrow> 'c option) \<Rightarrow> u8 list list \<Rightarrow> 'c \<Rightarrow> 'c option" where
  "hash_feed update [] c = Some c"
| "hash_feed update (xs # xss) c = update c xs \<bind> hash_feed update xss"

locale stream_hash =
  fixes ok :: "'c \<Rightarrow> nat \<Rightarrow> bool" \<comment> \<open>the context is well formed after that many bytes\<close>
    and chain :: "'c \<Rightarrow> 's" and pending :: "'c \<Rightarrow> u8 list" and start :: 'c
    and compress :: "'s \<Rightarrow> u8 list \<Rightarrow> 's"
    and update :: "'c \<Rightarrow> u8 list \<Rightarrow> 'c option" and final :: "'c \<Rightarrow> 's option"
    and limit :: nat
  assumes start_law: "ok start 0" "pending start = []"
    and pending_law: "ok c n \<Longrightarrow> length (pending c) = n mod 64"
    and update_law: "ok c n \<Longrightarrow> length xs < limit \<Longrightarrow>
      \<exists>c'. update c xs = Some c' \<and> ok c' (n + length xs) \<and> (chain c', pending c') = absorb compress (chain c) (pending c @ xs)"
    and final_law: "ok c n \<Longrightarrow> final c = Some (fst (absorb compress (chain c) (pending c @ md_tail n)))"
begin

text \<open>Feeding the pieces of a message one after the other, then finishing.\<close>

lemma feed:
  assumes "ok c n" and "\<forall>xs \<in> set xss. length xs < limit"
  shows "\<exists>c'. hash_feed update xss c = Some c' \<and> ok c' (n + length (concat xss)) \<and>
    (chain c', pending c') = absorb compress (chain c) (pending c @ concat xss)"
  using assms
proof (induction xss arbitrary: c n)
  case Nil
  then show ?case using pending_law [of c n] by (simp add: absorb_small)
next
  case (Cons xs xss)
  obtain c' where c': "update c xs = Some c'" "ok c' (n + length xs)"
    "(chain c', pending c') = absorb compress (chain c) (pending c @ xs)"
    using update_law [of c n xs] Cons.prems by auto
  obtain c'' where "hash_feed update xss c' = Some c''" "ok c'' (n + length xs + length (concat xss))"
    "(chain c'', pending c'') = absorb compress (chain c') (pending c' @ concat xss)"
    using Cons.IH [OF c'(2)] Cons.prems(2) by auto
  then show ?case
    using c'(1,3) absorb_append [of compress "chain c" "pending c @ xs" "concat xss"] by (auto simp: add.assoc split: prod.splits)
qed

theorem hash_pieces:
  assumes "\<forall>xs \<in> set xss. length xs < limit"
  shows "hash_feed update xss start \<bind> final = Some (md_state compress (chain start) (concat xss))"
proof -
  obtain c where "hash_feed update xss start = Some c" "ok c (length (concat xss))"
    "(chain c, pending c) = absorb compress (chain start) (concat xss)"
    using feed [OF start_law(1) assms] start_law(2) by auto
  then show ?thesis
    using final_law [of c] absorb_append [of compress "chain start" "concat xss" "md_tail (length (concat xss))"]
    by (auto simp: md_state_def md_pad_def split: prod.splits)
qed

end

end
