(* ===== verification/Sha1.thy ===== *)
theory Sha1
  imports Stream_Hash
begin

text \<open>
  SHA-1, \<open>src/bench/redis-src/sha1.c\<close>. The message schedule is computed in place in a circular
  buffer of sixteen words; the 80 unrolled macro calls, which rotate the roles of the five
  variables, are a loop that rotates the tuple instead. The 64-bit count of bits is kept in two
  32-bit words.
\<close>

section \<open>Compression\<close>

definition rol :: "u32 \<Rightarrow> nat \<Rightarrow> u32" where
  "rol v bits = push_bit bits v OR drop_bit (32 - bits) v"

text \<open>\<open>blk0\<close> and \<open>blk\<close> update the block and return the word they stored.\<close>

definition blk0 :: "u32 list \<Rightarrow> nat \<Rightarrow> u32 \<times> u32 list" where
  "blk0 l i =
     (let v = (rol (l ! i) 24 AND 0xFF00FF00) OR (rol (l ! i) 8 AND 0x00FF00FF) in (v, l[i := v]))"

definition blk :: "u32 list \<Rightarrow> nat \<Rightarrow> u32 \<times> u32 list" where
  "blk l i =
     (let v = rol (l ! ((i + 13) mod 16) XOR l ! ((i + 8) mod 16) XOR l ! ((i + 2) mod 16) XOR l ! (i mod 16)) 1
      in (v, l[i mod 16 := v]))"

type_synonym sha1_vars = "u32 \<times> u32 \<times> u32 \<times> u32 \<times> u32"

definition sha1_f :: "nat \<Rightarrow> u32 \<Rightarrow> u32 \<Rightarrow> u32 \<Rightarrow> u32" where
  "sha1_f i w x y =
     (if i < 20 then (w AND (x XOR y)) XOR y
      else if i < 40 then w XOR x XOR y
      else if i < 60 then ((w OR x) AND y) OR (w AND x)
      else w XOR x XOR y)"

definition sha1_const :: "nat \<Rightarrow> u32" where
  "sha1_const i =
     (if i < 20 then 0x5A827999 else if i < 40 then 0x6ED9EBA1 else if i < 60 then 0x8F1BBCDC else 0xCA62C1D6)"

text \<open>One macro \<open>R0\<close> to \<open>R4\<close>; the next call sees the variables as \<open>z, v, w, x, y\<close>.\<close>

definition sha1_R :: "nat \<Rightarrow> sha1_vars \<times> u32 list \<Rightarrow> sha1_vars \<times> u32 list" where
  "sha1_R i = (\<lambda>((v, w, x, y, z), l).
     let (b, l) = (if i < 16 then blk0 l i else blk l i);
         z = z + (sha1_f i w x y + b + sha1_const i + rol v 5);
         w = rol w 30
     in ((z, v, w, x, y), l))"

text \<open>The bytes of the buffer seen as sixteen little-endian words through the union.\<close>

fun sha1_words :: "u8 list \<Rightarrow> u32 list" where
  "sha1_words (b0 # b1 # b2 # b3 # data) = le_word [b0, b1, b2, b3] # sha1_words data"
| "sha1_words _ = []"

definition SHA1Transform :: "sha1_vars \<Rightarrow> u8 list \<Rightarrow> sha1_vars" where
  "SHA1Transform st buffer =
     (let ((a, b, c, d, e), _) = fold sha1_R [0..<80] (st, sha1_words buffer);
          (s0, s1, s2, s3, s4) = st
      in (s0 + a, s1 + b, s2 + c, s3 + d, s4 + e))"

section \<open>Context\<close>

record SHA1_CTX =
  sha1_state :: sha1_vars
  count0 :: u32
  count1 :: u32
  sha1_buffer :: "u8 list"

definition SHA1Init :: "(nat \<Rightarrow> u8) \<Rightarrow> SHA1_CTX" where
  "SHA1Init g =
     \<lparr>sha1_state = (0x67452301, 0xEFCDAB89, 0x98BADCFE, 0x10325476, 0xC3D2E1F0),
      count0 = 0, count1 = 0, sha1_buffer = map g [0..<64]\<rparr>"

partial_function (option) SHA1_blocks :: "u8 list \<Rightarrow> u32 \<Rightarrow> u32 \<Rightarrow> sha1_vars \<Rightarrow> (u32 \<times> sha1_vars) option" where
  "SHA1_blocks data len i st =
     (if i + 63 < len then
        do {
          b \<leftarrow> bread data (uint i) 64;
          SHA1_blocks data len (i + 64) (SHA1Transform st b)
        }
      else Some (i, st))"

declare SHA1_blocks.simps [code]

definition SHA1Update :: "SHA1_CTX \<Rightarrow> u8 list \<Rightarrow> u32 \<Rightarrow> SHA1_CTX option" where
  "SHA1Update ctx data len =
     (let j = count0 ctx;
          c0 = count0 ctx + push_bit 3 len;
          c1 = (if c0 < j then count1 ctx + 1 else count1 ctx) + drop_bit 29 len;
          ctx = ctx\<lparr>count0 := c0, count1 := c1\<rparr>;
          j = drop_bit 3 j AND 63
      in do {
        (i, j, ctx) \<leftarrow>
          (if j + len > 63 then
             do {
               let i = 64 - j;
               xs \<leftarrow> bread data 0 (unat i);
               b \<leftarrow> bwrite (sha1_buffer ctx) (uint j) xs;
               (i, st) \<leftarrow> SHA1_blocks data len i (SHA1Transform (sha1_state ctx) b);
               Some (i, 0, ctx\<lparr>sha1_buffer := b, sha1_state := st\<rparr>)
             }
           else Some (0, j, ctx));
        xs \<leftarrow> bread data (uint i) (unat (len - i));
        b \<leftarrow> bwrite (sha1_buffer ctx) (uint j) xs;
        Some (ctx\<lparr>sha1_buffer := b\<rparr>)
      })"

text \<open>The padding loop, one zero byte at a time.\<close>

partial_function (option) SHA1_pad :: "SHA1_CTX \<Rightarrow> SHA1_CTX option" where
  "SHA1_pad ctx =
     (if count0 ctx AND 504 \<noteq> 448 then SHA1Update ctx [0] 1 \<bind> SHA1_pad else Some ctx)"

declare SHA1_pad.simps [code]

definition sha1_finalcount :: "SHA1_CTX \<Rightarrow> u8 list" where
  "sha1_finalcount ctx =
     map (\<lambda>i. ucast (drop_bit ((3 - i mod 4) * 8) (if i \<ge> 4 then count0 ctx else count1 ctx))) [0..<8]"

definition SHA1Final_ctx :: "SHA1_CTX \<Rightarrow> SHA1_CTX option" where
  "SHA1Final_ctx ctx =
     (let finalcount = sha1_finalcount ctx in
      do {
        ctx \<leftarrow> SHA1Update ctx [0x80] 1;
        ctx \<leftarrow> SHA1_pad ctx;
        SHA1Update ctx finalcount 8
      })"

definition sha1_digest :: "sha1_vars \<Rightarrow> u8 list" where
  "sha1_digest = (\<lambda>(s0, s1, s2, s3, s4).
     map (\<lambda>i. ucast (drop_bit ((3 - i mod 4) * 8) ([s0, s1, s2, s3, s4] ! (i div 4)))) [0..<20])"

definition SHA1Final :: "SHA1_CTX \<Rightarrow> u8 list option" where
  "SHA1Final ctx = map_option (\<lambda>ctx. sha1_digest (sha1_state ctx)) (SHA1Final_ctx ctx)"

section \<open>Correctness\<close>

definition sha1_ok :: "SHA1_CTX \<Rightarrow> nat \<Rightarrow> bool" where
  "sha1_ok ctx n \<longleftrightarrow> length (sha1_buffer ctx) = 64 \<and>
     (unat (count1 ctx) * 2 ^ 32 + unat (count0 ctx)) = (8 * n) mod 2 ^ 64"

definition sha1_pending :: "SHA1_CTX \<Rightarrow> u8 list" where
  "sha1_pending ctx = take (unat (drop_bit 3 (count0 ctx) AND 63)) (sha1_buffer ctx)"

text \<open>The two-word counter.\<close>

lemma unat_and_mask: "unat (x AND mask k) = unat x mod 2 ^ k"
proof -
  have "unat (x AND mask k) = unat (take_bit k x)" by (simp only: take_bit_eq_mask)
  also have "\<dots> = take_bit k (unat x)" by (rule unsigned_take_bit_eq)
  finally show ?thesis by (simp only: take_bit_eq_mod)
qed

lemma sha1_count_low: "sha1_ok ctx n \<Longrightarrow> unat (count0 ctx) = (8 * n) mod 2 ^ 32"
proof -
  assume "sha1_ok ctx n"
  then have "(unat (count1 ctx) * 2 ^ 32 + unat (count0 ctx)) mod 2 ^ 32 = (8 * n) mod 2 ^ 64 mod 2 ^ 32"
    by (simp add: sha1_ok_def)
  moreover have "unat (count0 ctx) < 2 ^ 32" by (rule unat_less32)
  ultimately show ?thesis by (simp add: mod_mod_cancel)
qed

lemma sha1_index: "sha1_ok ctx n \<Longrightarrow> unat (drop_bit 3 (count0 ctx) AND 63) = n mod 64"
proof -
  assume ok: "sha1_ok ctx n"
  have "unat (drop_bit 3 (count0 ctx) AND 63) = unat (count0 ctx) div 8 mod 64"
    using unat_and_mask [of "drop_bit 3 (count0 ctx)" 6] by (simp add: mask_eq_exp_minus_1 drop_bit_eq_div unat_div)
  also have "\<dots> = (8 * n) mod 2 ^ 32 div 8 mod 64" using sha1_count_low [OF ok] by simp
  also have "(8 * n) mod 2 ^ 32 div 8 = n mod 2 ^ 29" using mult_mod_right [of 8 n "2 ^ 29"] by simp
  finally show ?thesis by (simp add: mod_mod_cancel)
qed

lemma sha1_count_add:
  fixes c0 c1 len :: u32
  assumes "unat c1 * 2 ^ 32 + unat c0 = (8 * n) mod 2 ^ 64"
  defines "c0' \<equiv> c0 + push_bit 3 len"
  defines "c1' \<equiv> (if c0' < c0 then c1 + 1 else c1) + drop_bit 29 len"
  shows "unat c1' * 2 ^ 32 + unat c0' = (8 * (n + unat len)) mod 2 ^ 64"
proof -
  define M :: nat where "M = 2 ^ 32"
  define L where "L = unat len"
  define b where "b = 8 * L mod M"
  define q where "q = (unat c0 + b) div M"
  have lt: "unat c0 < M" "unat c1 < M" "L < M" 
    using unat_less32 [of c0] unat_less32 [of c1] unat_less32 [of len] by (simp_all add: M_def L_def)
  have b: "unat (push_bit 3 len) = b" by (simp add: push_bit_eq_mult unat_word_ariths b_def L_def M_def mult.commute)
  have bM: "b < M" by (simp add: b_def M_def)
  have c0': "unat c0' = (unat c0 + b) mod M" by (simp add: c0'_def unat_word_ariths b M_def)
  have q: "q = (if c0' < c0 then 1 else 0)"
  proof (cases "unat c0 + b < M")
    case True
    then show ?thesis using c0' by (simp add: q_def word_less_nat_alt)
  next
    case False
    then have "unat c0' = unat c0 + b - M" using c0' lt bM by (simp add: le_mod_geq)
    moreover have "q = 1" using False lt bM by (simp add: q_def le_div_geq)
    ultimately show ?thesis using lt bM False by (simp add: word_less_nat_alt)
  qed
  have "unat (drop_bit 29 len) = 8 * L div M" by (simp add: drop_bit_eq_div unat_div L_def M_def)
  then have c1': "unat c1' = (unat c1 + q + 8 * L div M) mod M"
    by (auto simp: c1'_def q unat_word_ariths M_def mod_simps)
  have "8 * L = 8 * L div M * M + b" by (simp add: b_def)
  moreover have "unat c0 + b = q * M + unat c0'" by (simp add: q_def c0')
  ultimately have sum: "unat c1 * M + unat c0 + 8 * L = (unat c1 + q + 8 * L div M) * M + unat c0'"
    by (simp add: algebra_simps)
  have "unat c0' < M" by (simp add: c0' M_def)
  then have "unat c1' * M + unat c0' = (unat c1 * M + unat c0 + 8 * L) mod (M * M)"
    unfolding sum c1' mod_mult2_eq by simp
  also have "\<dots> = (8 * n mod (M * M) + 8 * L) mod (M * M)" using assms(1) by (simp add: M_def)
  also have "\<dots> = (8 * (n + L)) mod (M * M)" by (simp add: mod_add_left_eq distrib_left)
  finally show ?thesis by (simp add: M_def L_def)
qed

lemma sha1_blocks_ok:
  assumes "length data = unat len" and "unat len < 2 ^ 32 - 64" and "unat i \<le> unat len"
  shows "\<exists>i' st'. SHA1_blocks data len i st = Some (i', st') \<and> unat i' \<le> unat len \<and> unat len - unat i' < 64 \<and>
    absorb SHA1Transform st (drop (unat i) data) = (st', drop (unat i') data)"
  using assms(3)
proof (induction "unat len - unat i" arbitrary: i st rule: less_induct)
  case less
  have u: "unat (i + 63) = unat i + 63" "unat (i + 64) = unat i + 64"
    using less.prems assms(2) by (simp_all add: unat_word_ariths)
  show ?case
  proof (cases "i + 63 < len")
    case True
    then have lt: "unat i + 64 \<le> unat len" using u by (simp add: word_less_nat_alt)
    have r: "bread data (uint i) 64 = Some (take 64 (drop (unat i) data))"
      using lt assms(1) bread_nat [of data "unat i" 64] by simp
    have ih: "\<exists>i' st'. SHA1_blocks data len (i + 64) (SHA1Transform st (take 64 (drop (unat i) data))) = Some (i', st') \<and>
        unat i' \<le> unat len \<and> unat len - unat i' < 64 \<and>
        absorb SHA1Transform (SHA1Transform st (take 64 (drop (unat i) data))) (drop (unat (i + 64)) data) = (st', drop (unat i') data)"
      using lt u by (intro less.hyps) simp_all
    have ab: "absorb SHA1Transform st (drop (unat i) data) =
        absorb SHA1Transform (SHA1Transform st (take 64 (drop (unat i) data))) (drop (unat (i + 64)) data)"
      using lt assms(1) u by (subst absorb.simps) (auto simp: add.commute)
    have "SHA1_blocks data len i st = SHA1_blocks data len (i + 64) (SHA1Transform st (take 64 (drop (unat i) data)))"
      using True r by (subst SHA1_blocks.simps) simp
    then show ?thesis using ih by (simp only: ab)
  next
    case False
    then have "unat len - unat i < 64" using u less.prems by (simp add: word_less_nat_alt)
    then show ?thesis using False less.prems assms(1) by (subst SHA1_blocks.simps) (simp add: absorb_small)
  qed
qed

lemma unat_sub_small: "unat b \<le> unat a \<Longrightarrow> unat (a - b) = unat a - unat (b :: 'a::len word)"
  by (simp add: unat_sub word_le_nat_alt)

lemma sha1_update_ok:
  assumes ok: "sha1_ok ctx n" and small: "length xs < 2 ^ 32 - 128"
  shows "\<exists>ctx'. SHA1Update ctx xs (w32 (length xs)) = Some ctx' \<and> sha1_ok ctx' (n + length xs) \<and>
    (sha1_state ctx', sha1_pending ctx') = absorb SHA1Transform (sha1_state ctx) (sha1_pending ctx @ xs)"
proof -
  define len where "len = w32 (length xs)"
  define c0 where "c0 = count0 ctx + push_bit 3 len"
  define c1 where "c1 = (if c0 < count0 ctx then count1 ctx + 1 else count1 ctx) + drop_bit 29 len"
  define j where "j = drop_bit 3 (count0 ctx) AND 63"
  define ctx1 where "ctx1 = ctx\<lparr>count0 := c0, count1 := c1\<rparr>"
  have len: "unat len = length xs" using small by (simp add: len_def unat_w32_small)
  have j: "unat j = n mod 64" "unat j < 64" using sha1_index [OF ok] by (simp_all add: j_def)
  have ok1: "sha1_ok (ctx1\<lparr>sha1_buffer := b, sha1_state := s\<rparr>) (n + length xs)" if "length b = 64" for b s
    using that ok sha1_count_add [of "count1 ctx" "count0 ctx" n len] len
    by (simp add: sha1_ok_def ctx1_def c0_def c1_def)
  have pend: "sha1_pending (ctx1\<lparr>sha1_buffer := b, sha1_state := s\<rparr>) = take ((n + length xs) mod 64) b" if "length b = 64" for b s
    using sha1_index [OF ok1 [OF that]] by (simp add: sha1_pending_def)
  have P: "sha1_pending ctx = take (unat j) (sha1_buffer ctx)" "length (sha1_buffer ctx) = 64"
    using ok by (simp_all add: sha1_pending_def j_def sha1_ok_def)
  have U: "SHA1Update ctx xs len =
      do {
        (i, j, c) \<leftarrow>
          (if j + len > 63 then
             do {
               xs' \<leftarrow> bread xs 0 (unat (64 - j));
               b \<leftarrow> bwrite (sha1_buffer ctx) (uint j) xs';
               (i, st) \<leftarrow> SHA1_blocks xs len (64 - j) (SHA1Transform (sha1_state ctx) b);
               Some (i, 0, ctx1\<lparr>sha1_buffer := b, sha1_state := st\<rparr>)
             }
           else Some (0, j, ctx1));
        xs' \<leftarrow> bread xs (uint i) (unat (len - i));
        b \<leftarrow> bwrite (sha1_buffer c) (uint j) xs';
        Some (c\<lparr>sha1_buffer := b\<rparr>)
      }"
    by (simp add: SHA1Update_def Let_def c0_def c1_def j_def ctx1_def)
  have jl: "unat (j + len) = unat j + length xs" using j len small by (simp add: unat_word_ariths)
  show ?thesis
  proof (cases "unat j + length xs < 64")
    case True
    then have "\<not> j + len > 63" using jl by (simp add: word_less_nat_alt)
    moreover define b where "b = take (unat j) (sha1_buffer ctx) @ xs @ drop (unat j + length xs) (sha1_buffer ctx)"
    have "bread xs 0 (unat len) = Some xs" "bwrite (sha1_buffer ctx) (uint j) xs = Some b"
      using True P len bread_nat [of xs 0 "unat len"] bwrite_nat [of "sha1_buffer ctx" "unat j" xs] by (simp_all add: b_def)
    ultimately have "SHA1Update ctx xs len = Some (ctx1\<lparr>sha1_buffer := b\<rparr>)"
      by (simp add: U ctx1_def)
    moreover have lb: "length b = 64" using True P by (simp add: b_def)
    moreover have "(n + length xs) mod 64 = unat j + length xs" using True j by (metis mod_add_left_eq mod_less)
    then have "sha1_pending (ctx1\<lparr>sha1_buffer := b, sha1_state := sha1_state ctx\<rparr>) = sha1_pending ctx @ xs"
      using pend [OF lb] P True by (simp add: b_def)
    ultimately show ?thesis
      using ok1 [OF lb, of "sha1_state ctx"] absorb_small [of "sha1_pending ctx @ xs" SHA1Transform "sha1_state ctx"] P True
      by (simp add: len_def ctx1_def)
  next
    case False
    then have big: "j + len > 63" using jl by (simp add: word_less_nat_alt)
    have i0: "unat (64 - j) = 64 - unat j" "unat (64 - j) \<le> unat len"
      using j False len by (simp_all add: unat_sub_small)
    define b where "b = sha1_pending ctx @ take (64 - unat j) xs"
    have lb: "length b = 64" using P j False by (simp add: b_def)
    have r1: "bread xs 0 (unat (64 - j)) = Some (take (64 - unat j) xs)"
      using i0 len bread_nat [of xs 0 "unat (64 - j)"] by simp
    have w1: "bwrite (sha1_buffer ctx) (uint j) (take (64 - unat j) xs) = Some b"
      using P j(2) False bwrite_nat [of "sha1_buffer ctx" "unat j" "take (64 - unat j) xs"] by (simp add: b_def)
    obtain i st where B: "SHA1_blocks xs len (64 - j) (SHA1Transform (sha1_state ctx) b) = Some (i, st)"
      "unat i \<le> unat len" "unat len - unat i < 64"
      "absorb SHA1Transform (SHA1Transform (sha1_state ctx) b) (drop (64 - unat j) xs) = (st, drop (unat i) xs)"
      using sha1_blocks_ok [of xs len "64 - j" "SHA1Transform (sha1_state ctx) b"] len small i0 by auto
    define b' where "b' = drop (unat i) xs @ drop (length xs - unat i) b"
    have lb': "length b' = 64" using lb B(2,3) len by (simp add: b'_def)
    have r2: "bread xs (uint i) (unat (len - i)) = Some (drop (unat i) xs)"
      using B(2) len bread_nat [of xs "unat i" "unat (len - i)"] by (simp add: unat_sub_small)
    have w2: "bwrite b 0 (drop (unat i) xs) = Some b'"
      using lb B(2,3) len bwrite_nat [of b 0 "drop (unat i) xs"] by (simp add: b'_def)
    have run: "SHA1Update ctx xs len = Some (ctx1\<lparr>sha1_buffer := b', sha1_state := st\<rparr>)"
      using big r1 w1 B(1) r2 w2 by (simp add: U)
    have ab: "absorb SHA1Transform (sha1_state ctx) (sha1_pending ctx @ xs) = (st, drop (unat i) xs)"
      using absorb_block [OF lb, of SHA1Transform "sha1_state ctx" "drop (64 - unat j) xs"] B(4) by (simp add: b_def)
    have "length (sha1_pending ctx) = n mod 64" using P j by simp
    then have "(n + length xs) mod 64 = length (drop (unat i) xs)"
      using absorb_rest [of SHA1Transform "sha1_state ctx" "sha1_pending ctx @ xs"] ab by (simp add: mod_add_left_eq)
    then have "sha1_pending (ctx1\<lparr>sha1_buffer := b', sha1_state := st\<rparr>) = drop (unat i) xs"
      using pend [OF lb'] by (simp add: b'_def)
    then show ?thesis using run ok1 [OF lb'] ab by (simp add: len_def)
  qed
qed

section \<open>Padding\<close>

lemma sha1_pad_guard: "sha1_ok ctx n \<Longrightarrow> count0 ctx AND 504 = 448 \<longleftrightarrow> n mod 64 = 56"
proof -
  assume ok: "sha1_ok ctx n"
  have "count0 ctx AND 504 = push_bit 3 (drop_bit 3 (count0 ctx) AND 63)"
  proof (rule bit_word_eqI)
    fix k assume "k < LENGTH(32)"
    have e: "(504 :: u32) = push_bit 3 (mask 6)" "(63 :: u32) = mask 6" by (simp_all add: mask_eq_exp_minus_1 push_bit_eq_mult)
    show "bit (count0 ctx AND 504) k = bit (push_bit 3 (drop_bit 3 (count0 ctx) AND 63)) k"
      unfolding e using \<open>k < LENGTH(32)\<close> by (auto simp: bit_simps)
  qed
  moreover have "unat (push_bit 3 (drop_bit 3 (count0 ctx) AND 63)) = 8 * (n mod 64)"
    using sha1_index [OF ok] by (simp add: push_bit_eq_mult unat_word_ariths)
  moreover have "unat (448 :: u32) = 8 * 56" by simp
  ultimately show ?thesis by (metis mult_left_cancel word_unat_eq_iff zero_neq_numeral)
qed

lemma w32_1: "w32 (Suc 0) = 1"
  by (simp add: w32_def)

lemma sha1_pad_ok:
  assumes "sha1_ok ctx n" and "(n + k) mod 64 = 56" and "\<forall>i < k. (n + i) mod 64 \<noteq> 56"
  shows "\<exists>ctx'. SHA1_pad ctx = Some ctx' \<and> sha1_ok ctx' (n + k) \<and>
    (sha1_state ctx', sha1_pending ctx') = absorb SHA1Transform (sha1_state ctx) (sha1_pending ctx @ replicate k 0)"
  using assms
proof (induction k arbitrary: ctx n)
  case 0
  have "length (sha1_pending ctx) < 64"
    using sha1_index [OF 0(1)] by (simp add: sha1_pending_def min_less_iff_disj)
  then show ?case using 0 sha1_pad_guard [OF 0(1)] by (subst SHA1_pad.simps) (simp add: absorb_small)
next
  case (Suc k)
  obtain c where c: "SHA1Update ctx [0] 1 = Some c" "sha1_ok c (n + 1)"
    "(sha1_state c, sha1_pending c) = absorb SHA1Transform (sha1_state ctx) (sha1_pending ctx @ [0])"
    using sha1_update_ok [OF Suc.prems(1), of "[0]"] by (auto simp: w32_1)
  have guard: "count0 ctx AND 504 \<noteq> 448" using sha1_pad_guard [OF Suc.prems(1)] Suc.prems(3) [rule_format, of 0] by simp
  have "\<exists>ctx'. SHA1_pad c = Some ctx' \<and> sha1_ok ctx' (n + 1 + k) \<and>
    (sha1_state ctx', sha1_pending ctx') = absorb SHA1Transform (sha1_state c) (sha1_pending c @ replicate k 0)"
    using Suc.prems(2,3) by (intro Suc.IH [OF c(2)]) auto
  moreover have "SHA1_pad ctx = SHA1_pad c" using guard c(1) by (subst SHA1_pad.simps) simp
  moreover have "absorb SHA1Transform (sha1_state ctx) (sha1_pending ctx @ replicate (Suc k) 0) =
      absorb SHA1Transform (sha1_state c) (sha1_pending c @ replicate k 0)"
    using absorb_append [of SHA1Transform "sha1_state ctx" "sha1_pending ctx @ [0]" "replicate k 0"] c(3)
    by (auto split: prod.splits)
  ultimately show ?case by simp
qed

lemma w64_mod: "w64 (a mod 2 ^ 64) = w64 a"
  using w64_unat [of "w64 a"] by (simp only: unat_w64)

lemma sha1_finalcount_be64:
  assumes "sha1_ok ctx n"
  shows "sha1_finalcount ctx = be64 (w64 (8 * n))"
proof -
  let ?v = "push_bit 32 (ucast (count1 ctx)) OR ucast (count0 ctx) :: u64"
  have "?v = push_bit 32 (ucast (count1 ctx)) + ucast (count0 ctx)"
    by (rule disjunctive_add [symmetric]) (auto simp: bit_simps dest: bit_imp_le_length)
  also have "\<dots> = w64 (unat (count1 ctx) * 2 ^ 32 + unat (count0 ctx))"
    by (simp add: push_bit_eq_mult w64_def mult.commute)
  also have "\<dots> = w64 (8 * n)" using assms w64_mod [of "8 * n"] by (simp add: sha1_ok_def)
  finally have v: "w64 (8 * n) = ?v" by simp
  have bytes: "ucast (drop_bit k ?v) = (ucast (drop_bit (k - 32) (count1 ctx)) :: u8)" if "32 \<le> k" for k
    using that by (intro bit_word_eqI) (auto simp: bit_simps dest: bit_imp_le_length)
  have bytes0: "ucast (drop_bit k ?v) = (ucast (drop_bit k (count0 ctx)) :: u8)" if "k \<le> 24" for k
    using that by (intro bit_word_eqI) (auto simp: bit_simps dest: bit_imp_le_length)
  have "le_bytes 8 ?v = map (\<lambda>k. ucast (drop_bit k ?v)) [0, 8, 16, 24, 32, 40, 48, 56]"
    by (simp add: numeral_eq_Suc drop_bit_drop_bit del: drop_bit_or)
  then have "be64 ?v = map (\<lambda>k. ucast (drop_bit k ?v)) [56, 48, 40, 32, 24, 16, 8, 0]"
    by (simp add: be64_def)
  also have "\<dots> = sha1_finalcount ctx"
    using bytes [of 56] bytes [of 48] bytes [of 40] bytes [of 32] bytes0 [of 24] bytes0 [of 16] bytes0 [of 8] bytes0 [of 0]
    by (simp add: sha1_finalcount_def upt_conv_Cons)
  finally show ?thesis using v by simp
qed

lemma pad_length:
  fixes n k :: nat
  assumes "k = (119 - n mod 64) mod 64"
  shows "(n + 1 + k) mod 64 = 56" "\<forall>i < k. (n + 1 + i) mod 64 \<noteq> 56"
proof -
  define r where "r = n mod 64"
  have r: "r < 64" by (simp add: r_def)
  have red: "(n + 1 + i) mod 64 = (r + 1 + i) mod 64" for i
    unfolding r_def add.assoc by (rule mod_add_left_eq [symmetric])
  have k: "k = (if r \<le> 55 then 55 - r else 119 - r)"
  proof (cases "r \<le> 55")
    case True
    then have "119 - r = 64 + (55 - r)" by simp
    then have "(119 - r) mod 64 = 55 - r" by (simp only: mod_add_self1) simp
    then show ?thesis using True assms by (simp add: r_def [symmetric])
  qed (use r assms in \<open>simp add: r_def [symmetric]\<close>)
  have "r + 1 + k = 56 \<or> r + 1 + k = 120" using k r by (auto split: if_splits)
  then show "(n + 1 + k) mod 64 = 56" unfolding red by (elim disjE) (simp_all only:, simp_all)
  show "\<forall>i < k. (n + 1 + i) mod 64 \<noteq> 56"
  proof (intro allI impI)
    fix i assume "i < k"
    then have "r + 1 + i < 56 \<or> (56 < r + 1 + i \<and> r + 1 + i < 120)" using k r by (auto split: if_splits)
    then show "(n + 1 + i) mod 64 \<noteq> 56" unfolding red
    proof
      assume "56 < r + 1 + i \<and> r + 1 + i < 120"
      then show "(r + 1 + i) mod 64 \<noteq> 56" by (cases "r + 1 + i < 64") (auto simp: le_mod_geq not_less)
    qed simp
  qed
qed

lemma sha1_final_ctx_ok:
  assumes ok: "sha1_ok ctx n"
  shows "map_option sha1_state (SHA1Final_ctx ctx) =
    Some (fst (absorb SHA1Transform (sha1_state ctx) (sha1_pending ctx @ md_tail n)))"
proof -
  define k where "k = (119 - n mod 64) mod 64"
  let ?ab = "absorb SHA1Transform"
  obtain c1 where c1: "SHA1Update ctx [0x80] 1 = Some c1" "sha1_ok c1 (n + 1)"
    "(sha1_state c1, sha1_pending c1) = ?ab (sha1_state ctx) (sha1_pending ctx @ [0x80])"
    using sha1_update_ok [OF ok, of "[0x80]"] by (auto simp: w32_1)
  obtain c2 where c2: "SHA1_pad c1 = Some c2" "sha1_ok c2 (n + 1 + k)"
    "(sha1_state c2, sha1_pending c2) = ?ab (sha1_state c1) (sha1_pending c1 @ replicate k 0)"
    using sha1_pad_ok [OF c1(2) pad_length [OF k_def]] by blast
  have "w32 (length (be64 (w64 (8 * n)))) = 8" by (simp add: w32_def)
  then obtain c3 where c3: "SHA1Update c2 (be64 (w64 (8 * n))) 8 = Some c3"
    "(sha1_state c3, sha1_pending c3) = ?ab (sha1_state c2) (sha1_pending c2 @ be64 (w64 (8 * n)))"
    using sha1_update_ok [OF c2(2), of "be64 (w64 (8 * n))"] by auto
  have "SHA1Final_ctx ctx = Some c3"
    using c1(1) c2(1) c3(1) sha1_finalcount_be64 [OF ok] by (simp add: SHA1Final_ctx_def Let_def)
  moreover have "?ab (sha1_state ctx) (sha1_pending ctx @ md_tail n) = (sha1_state c3, sha1_pending c3)"
    using absorb_append [of SHA1Transform "sha1_state ctx" "sha1_pending ctx @ [0x80]" "replicate k 0 @ be64 (w64 (8 * n))"]
      absorb_append [of SHA1Transform "sha1_state c1" "sha1_pending c1 @ replicate k 0" "be64 (w64 (8 * n))"]
    by (simp add: md_tail_def k_def [symmetric] c1(3) [symmetric] c2(3) [symmetric] c3(2) [symmetric])
  ultimately show ?thesis by simp
qed

interpretation sha1: stream_hash sha1_ok sha1_state sha1_pending "SHA1Init g" SHA1Transform
  "\<lambda>c xs. SHA1Update c xs (w32 (length xs))" "\<lambda>c. map_option sha1_state (SHA1Final_ctx c)" "2 ^ 32 - 128" for g
proof
  show "sha1_ok (SHA1Init g) 0" "sha1_pending (SHA1Init g) = []"
    by (simp_all add: sha1_ok_def SHA1Init_def sha1_pending_def)
  fix c n and xs :: "u8 list" assume ok: "sha1_ok c n"
  show "length (sha1_pending c) = n mod 64"
    using ok sha1_index [OF ok] by (simp add: sha1_pending_def sha1_ok_def)
  show "map_option sha1_state (SHA1Final_ctx c) = Some (fst (absorb SHA1Transform (sha1_state c) (sha1_pending c @ md_tail n)))"
    using ok by (rule sha1_final_ctx_ok)
  assume "length xs < 2 ^ 32 - 128"
  then show "\<exists>c'. SHA1Update c xs (w32 (length xs)) = Some c' \<and> sha1_ok c' (n + length xs) \<and>
      (sha1_state c', sha1_pending c') = absorb SHA1Transform (sha1_state c) (sha1_pending c @ xs)"
    by (rule sha1_update_ok [OF ok])
qed

lemma sha1_pieces:
  assumes "\<forall>xs \<in> set xss. length xs < 2 ^ 32 - 128"
  shows "hash_feed (\<lambda>c xs. SHA1Update c xs (w32 (length xs))) xss (SHA1Init g) \<bind> SHA1Final =
    Some (sha1_digest (md_state SHA1Transform (sha1_state (SHA1Init g)) (concat xss)))"
proof -
  let ?u = "\<lambda>c xs. SHA1Update c xs (w32 (length xs))"
  have "map_option sha1_digest (hash_feed ?u xss (SHA1Init g) \<bind> (\<lambda>c. map_option sha1_state (SHA1Final_ctx c))) =
    hash_feed ?u xss (SHA1Init g) \<bind> SHA1Final"
    by (cases "hash_feed ?u xss (SHA1Init g)") (simp_all add: SHA1Final_def option.map_comp comp_def)
  then show ?thesis using sha1.hash_pieces [OF assms, of g] by simp
qed

end
