(* ===== verification/Sha256.thy ===== *)
theory Sha256
  imports Stream_Hash
begin

text \<open>
  SHA-256, \<open>src/bench/redis-src/sha256.c\<close>. The context keeps the 64-byte block buffer, the number
  of bytes in it, the number of bits compressed so far and the eight words of the state.
\<close>

section \<open>Compression\<close>

definition ROTRIGHT :: "u32 \<Rightarrow> nat \<Rightarrow> u32" where
  "ROTRIGHT a b = drop_bit b a OR push_bit (32 - b) a"

definition CH :: "u32 \<Rightarrow> u32 \<Rightarrow> u32 \<Rightarrow> u32" where
  "CH x y z = (x AND y) XOR (NOT x AND z)"

definition MAJ :: "u32 \<Rightarrow> u32 \<Rightarrow> u32 \<Rightarrow> u32" where
  "MAJ x y z = (x AND y) XOR (x AND z) XOR (y AND z)"

definition EP0 :: "u32 \<Rightarrow> u32" where "EP0 x = ROTRIGHT x 2 XOR ROTRIGHT x 13 XOR ROTRIGHT x 22"
definition EP1 :: "u32 \<Rightarrow> u32" where "EP1 x = ROTRIGHT x 6 XOR ROTRIGHT x 11 XOR ROTRIGHT x 25"
definition SIG0 :: "u32 \<Rightarrow> u32" where "SIG0 x = ROTRIGHT x 7 XOR ROTRIGHT x 18 XOR drop_bit 3 x"
definition SIG1 :: "u32 \<Rightarrow> u32" where "SIG1 x = ROTRIGHT x 17 XOR ROTRIGHT x 19 XOR drop_bit 10 x"

definition sha256_k :: "u32 list" where
  "sha256_k = concat
    [[0x428a2f98, 0x71374491, 0xb5c0fbcf, 0xe9b5dba5, 0x3956c25b, 0x59f111f1, 0x923f82a4, 0xab1c5ed5],
     [0xd807aa98, 0x12835b01, 0x243185be, 0x550c7dc3, 0x72be5d74, 0x80deb1fe, 0x9bdc06a7, 0xc19bf174],
     [0xe49b69c1, 0xefbe4786, 0x0fc19dc6, 0x240ca1cc, 0x2de92c6f, 0x4a7484aa, 0x5cb0a9dc, 0x76f988da],
     [0x983e5152, 0xa831c66d, 0xb00327c8, 0xbf597fc7, 0xc6e00bf3, 0xd5a79147, 0x06ca6351, 0x14292967],
     [0x27b70a85, 0x2e1b2138, 0x4d2c6dfc, 0x53380d13, 0x650a7354, 0x766a0abb, 0x81c2c92e, 0x92722c85],
     [0xa2bfe8a1, 0xa81a664b, 0xc24b8b70, 0xc76c51a3, 0xd192e819, 0xd6990624, 0xf40e3585, 0x106aa070],
     [0x19a4c116, 0x1e376c08, 0x2748774c, 0x34b0bcb5, 0x391c0cb3, 0x4ed8aa4a, 0x5b9cca4f, 0x682e6ff3],
     [0x748f82ee, 0x78a5636f, 0x84c87814, 0x8cc70208, 0x90befffa, 0xa4506ceb, 0xbef9a3f7, 0xc67178f2]]"

text \<open>The first sixteen words of the schedule \<open>m\<close>, big-endian, and its extension to 64.\<close>

fun sha256_words :: "u8 list \<Rightarrow> u32 list" where
  "sha256_words (b0 # b1 # b2 # b3 # data) =
     (push_bit 24 (ucast b0) OR push_bit 16 (ucast b1) OR push_bit 8 (ucast b2) OR ucast b3) # sha256_words data"
| "sha256_words _ = []"

fun sha256_extend :: "nat \<Rightarrow> u32 list \<Rightarrow> u32 list" where
  "sha256_extend 0 m = m"
| "sha256_extend (Suc n) m =
     (let i = length m in
      sha256_extend n (m @ [SIG1 (m ! (i - 2)) + m ! (i - 7) + SIG0 (m ! (i - 15)) + m ! (i - 16)]))"

type_synonym sha256_vars = "u32 \<times> u32 \<times> u32 \<times> u32 \<times> u32 \<times> u32 \<times> u32 \<times> u32"

definition sha256_round :: "u32 \<Rightarrow> u32 \<Rightarrow> sha256_vars \<Rightarrow> sha256_vars" where
  "sha256_round ki mi = (\<lambda>(a, b, c, d, e, f, g, h).
     let t1 = h + EP1 e + CH e f g + ki + mi;
         t2 = EP0 a + MAJ a b c
     in (t1 + t2, a, b, c, d + t1, e, f, g))"

definition sha256_compress :: "sha256_vars \<Rightarrow> u8 list \<Rightarrow> sha256_vars" where
  "sha256_compress s data =
     (let m = sha256_extend 48 (sha256_words data);
          (a, b, c, d, e, f, g, h) = fold (\<lambda>i. sha256_round (sha256_k ! i) (m ! i)) [0..<64] s;
          (s0, s1, s2, s3, s4, s5, s6, s7) = s
      in (s0 + a, s1 + b, s2 + c, s3 + d, s4 + e, s5 + f, s6 + g, s7 + h))"

section \<open>Context\<close>

record SHA256_CTX =
  ctx_data :: "u8 list"
  datalen :: u32
  bitlen :: u64
  ctx_state :: sha256_vars

definition sha256_transform :: "SHA256_CTX \<Rightarrow> SHA256_CTX" where
  "sha256_transform ctx = ctx\<lparr>ctx_state := sha256_compress (ctx_state ctx) (ctx_data ctx)\<rparr>"

text \<open>\<open>g\<close> is what the uninitialised buffer of the context holds.\<close>

definition sha256_init :: "(nat \<Rightarrow> u8) \<Rightarrow> SHA256_CTX" where
  "sha256_init g =
     \<lparr>ctx_data = map g [0..<64], datalen = 0, bitlen = 0,
      ctx_state = (0x6a09e667, 0xbb67ae85, 0x3c6ef372, 0xa54ff53a, 0x510e527f, 0x9b05688c, 0x1f83d9ab, 0x5be0cd19)\<rparr>"

definition sha256_byte :: "SHA256_CTX \<Rightarrow> u8 \<Rightarrow> SHA256_CTX option" where
  "sha256_byte ctx b =
     do {
       d \<leftarrow> put (ctx_data ctx) (unat (datalen ctx)) b;
       let ctx = ctx\<lparr>ctx_data := d, datalen := datalen ctx + 1\<rparr>;
       Some (if datalen ctx = 64
             then (sha256_transform ctx)\<lparr>bitlen := bitlen ctx + 512, datalen := 0\<rparr>
             else ctx)
     }"

fun sha256_loop :: "SHA256_CTX \<Rightarrow> u8 list \<Rightarrow> SHA256_CTX option" where
  "sha256_loop ctx [] = Some ctx"
| "sha256_loop ctx (b # data) = sha256_byte ctx b \<bind> (\<lambda>ctx. sha256_loop ctx data)"

text \<open>The index of the loop has 32 bits and the length 64: from \<open>2^32\<close> bytes on the loop never ends.\<close>

definition sha256_update :: "SHA256_CTX \<Rightarrow> u8 list \<Rightarrow> SHA256_CTX option" where
  "sha256_update ctx data = (if length data < 2 ^ 32 then sha256_loop ctx data else None)"

text \<open>Filling the buffer with zeros from \<open>i\<close> up to \<open>n\<close>.\<close>

function sha256_zeros :: "u8 list \<Rightarrow> nat \<Rightarrow> nat \<Rightarrow> u8 list option" where
  "sha256_zeros d i n = (if i < n then put d i 0 \<bind> (\<lambda>d. sha256_zeros d (i + 1) n) else Some d)"
  by auto
termination by (relation "measure (\<lambda>(_, i, n). n - i)") auto

declare sha256_zeros.simps [simp del]

fun put_all :: "u8 list \<Rightarrow> (nat \<times> u8) list \<Rightarrow> u8 list option" where
  "put_all d [] = Some d"
| "put_all d ((i, b) # ps) = put d i b \<bind> (\<lambda>d. put_all d ps)"

definition sha256_final_ctx :: "SHA256_CTX \<Rightarrow> SHA256_CTX option" where
  "sha256_final_ctx ctx =
     do {
       let i = unat (datalen ctx);
       ctx \<leftarrow> (if datalen ctx < 56 then
                 do {
                   d \<leftarrow> put (ctx_data ctx) i 0x80;
                   d \<leftarrow> sha256_zeros d (i + 1) 56;
                   Some (ctx\<lparr>ctx_data := d\<rparr>)
                 }
               else
                 do {
                   d \<leftarrow> put (ctx_data ctx) i 0x80;
                   d \<leftarrow> sha256_zeros d (i + 1) 64;
                   let ctx = sha256_transform (ctx\<lparr>ctx_data := d\<rparr>);
                   d \<leftarrow> bwrite (ctx_data ctx) 0 (replicate 56 0);
                   Some (ctx\<lparr>ctx_data := d\<rparr>)
                 });
       let ctx = ctx\<lparr>bitlen := bitlen ctx + ucast (datalen ctx * 8)\<rparr>;
       let l = bitlen ctx;
       d \<leftarrow> put_all (ctx_data ctx)
         [(63, ucast l), (62, ucast (drop_bit 8 l)), (61, ucast (drop_bit 16 l)), (60, ucast (drop_bit 24 l)),
          (59, ucast (drop_bit 32 l)), (58, ucast (drop_bit 40 l)), (57, ucast (drop_bit 48 l)), (56, ucast (drop_bit 56 l))];
       Some (sha256_transform (ctx\<lparr>ctx_data := d\<rparr>))
     }"

definition be32 :: "u32 \<Rightarrow> u8 list" where
  "be32 w = map (\<lambda>i. ucast (drop_bit (24 - i * 8) w)) [0..<4]"

definition sha256_digest :: "sha256_vars \<Rightarrow> u8 list" where
  "sha256_digest = (\<lambda>(s0, s1, s2, s3, s4, s5, s6, s7).
     be32 s0 @ be32 s1 @ be32 s2 @ be32 s3 @ be32 s4 @ be32 s5 @ be32 s6 @ be32 s7)"

definition sha256_final :: "SHA256_CTX \<Rightarrow> u8 list option" where
  "sha256_final ctx = map_option (\<lambda>ctx. sha256_digest (ctx_state ctx)) (sha256_final_ctx ctx)"

section \<open>Correctness\<close>

definition sha256_ok :: "SHA256_CTX \<Rightarrow> nat \<Rightarrow> bool" where
  "sha256_ok ctx n \<longleftrightarrow> length (ctx_data ctx) = 64 \<and> datalen ctx = w32 (n mod 64) \<and> bitlen ctx = w64 (8 * (n - n mod 64))"

definition sha256_pending :: "SHA256_CTX \<Rightarrow> u8 list" where
  "sha256_pending ctx = take (unat (datalen ctx)) (ctx_data ctx)"

lemma sha256_okD:
  assumes "sha256_ok ctx n"
  shows "length (ctx_data ctx) = 64" "unat (datalen ctx) = n mod 64" "length (sha256_pending ctx) = n mod 64"
  using assms by (auto simp: sha256_ok_def sha256_pending_def unat_w32_small)

lemma sha256_byte_ok:
  assumes ok: "sha256_ok ctx n"
  shows "\<exists>ctx'. sha256_byte ctx b = Some ctx' \<and> sha256_ok ctx' (n + 1) \<and>
    (ctx_state ctx', sha256_pending ctx') = absorb sha256_compress (ctx_state ctx) (sha256_pending ctx @ [b])"
proof -
  note D = sha256_okD [OF ok]
  have m: "n mod 64 < 64" by simp
  define d where "d = (ctx_data ctx)[n mod 64 := b]"
  have p: "put (ctx_data ctx) (unat (datalen ctx)) b = Some d" using D m by (simp add: put_def d_def)
  have t: "take (n mod 64 + 1) d = sha256_pending ctx @ [b]" and ld: "length d = 64"
    using D m by (simp_all add: d_def sha256_pending_def take_Suc_conv_app_nth)
  have l1: "datalen ctx + 1 = w32 (n mod 64 + 1)" using ok by (simp add: sha256_ok_def w32_def)
  have full: "w32 (n mod 64 + 1) = 64 \<longleftrightarrow> n mod 64 = 63"
    using unat_w32_small [of "n mod 64 + 1"] m by (auto simp: w32_def)
  show ?thesis
  proof (cases "n mod 64 = 63")
    case True
    let ?c = "(sha256_transform (ctx\<lparr>ctx_data := d, datalen := w32 (n mod 64 + 1)\<rparr>))\<lparr>bitlen := bitlen ctx + 512, datalen := 0\<rparr>"
    have run: "sha256_byte ctx b = Some ?c" using p l1 full True by (simp add: sha256_byte_def Let_def sha256_transform_def)
    have "(n + 1) mod 64 = 0" using True by (simp add: mod_Suc)
    moreover have "63 \<le> n" using True mod_less_eq_dividend [of n 64] by simp
    then have "8 * (n - 63) + 512 = 8 + 8 * n" by simp
    then have "w64 (8 * (n - 63) + 512) = w64 (8 + 8 * n)" by (rule arg_cong)
    ultimately have "sha256_ok ?c (n + 1)"
      using ok ld True by (simp add: sha256_ok_def sha256_transform_def w32_def)
    moreover have "d = sha256_pending ctx @ [b]" using t ld True by simp
    ultimately show ?thesis
      using run absorb_snoc [of "sha256_pending ctx" sha256_compress "ctx_state ctx" b] D(3) True
      by (simp add: sha256_pending_def sha256_transform_def)
  next
    case False
    then have m1: "(n + 1) mod 64 = n mod 64 + 1" by (simp add: mod_Suc)
    let ?c = "ctx\<lparr>ctx_data := d, datalen := w32 (n mod 64 + 1)\<rparr>"
    have "sha256_byte ctx b = Some ?c" using p l1 full False by (simp add: sha256_byte_def Let_def)
    moreover have "sha256_ok ?c (n + 1)" using ok ld m1 by (simp add: sha256_ok_def)
    moreover have "sha256_pending ?c = sha256_pending ctx @ [b]"
      using t m unat_w32_small [of "n mod 64 + 1"] by (simp add: sha256_pending_def)
    ultimately show ?thesis
      using absorb_snoc [of "sha256_pending ctx" sha256_compress "ctx_state ctx" b] D(3) False m by simp
  qed
qed

lemma sha256_loop_ok:
  assumes "sha256_ok ctx n"
  shows "\<exists>ctx'. sha256_loop ctx xs = Some ctx' \<and> sha256_ok ctx' (n + length xs) \<and>
    (ctx_state ctx', sha256_pending ctx') = absorb sha256_compress (ctx_state ctx) (sha256_pending ctx @ xs)"
  using assms
proof (induction xs arbitrary: ctx n)
  case Nil
  then show ?case using sha256_okD(3) [of ctx n] by (simp add: absorb_small)
next
  case (Cons x xs)
  obtain c where c: "sha256_byte ctx x = Some c" "sha256_ok c (n + 1)"
    "(ctx_state c, sha256_pending c) = absorb sha256_compress (ctx_state ctx) (sha256_pending ctx @ [x])"
    using sha256_byte_ok [OF Cons.prems] by blast
  from Cons.IH [OF c(2)] show ?case
    using c(1,3) absorb_append [of sha256_compress "ctx_state ctx" "sha256_pending ctx @ [x]" xs]
    by (auto split: prod.splits)
qed

lemma sha256_zeros_eq:
  "i \<le> n \<Longrightarrow> n \<le> length d \<Longrightarrow> sha256_zeros d i n = Some (take i d @ replicate (n - i) 0 @ drop n d)"
proof (induction "n - i" arbitrary: i d)
  case 0
  then show ?case by (subst sha256_zeros.simps) simp
next
  case (Suc k)
  then have i: "i < n" "i < length d" by simp_all
  have "sha256_zeros (d[i := 0]) (i + 1) n = Some (take (i + 1) (d[i := 0]) @ replicate (n - (i + 1)) 0 @ drop n (d[i := 0]))"
    using Suc.hyps(2) Suc.prems i by (intro Suc.hyps(1)) simp_all
  moreover have "replicate (n - i) 0 = (0 :: u8) # replicate (n - (i + 1)) 0" using i by (simp flip: replicate_Suc)
  ultimately show ?case using i by (subst sha256_zeros.simps) (simp add: put_def take_Suc_conv_app_nth)
qed

lemma length_8: "length ys = 8 \<Longrightarrow> \<exists>x0 x1 x2 x3 x4 x5 x6 x7. ys = [x0, x1, x2, x3, x4, x5, x6, x7]"
  by (auto simp: length_Suc_conv eval_nat_numeral)

lemma put_all_be64:
  assumes "length d = 64"
  shows "put_all d [(63, ucast l), (62, ucast (drop_bit 8 l)), (61, ucast (drop_bit 16 l)), (60, ucast (drop_bit 24 l)),
      (59, ucast (drop_bit 32 l)), (58, ucast (drop_bit 40 l)), (57, ucast (drop_bit 48 l)), (56, ucast (drop_bit 56 l))]
    = Some (take 56 d @ be64 l)"
proof -
  obtain x0 x1 x2 x3 x4 x5 x6 x7 where "drop 56 d = [x0, x1, x2, x3, x4, x5, x6, x7]"
    using length_8 [of "drop 56 d"] assms by auto
  then have d: "d = take 56 d @ [x0, x1, x2, x3, x4, x5, x6, x7]" by (metis append_take_drop_id)
  have "le_bytes 8 l = [ucast l, ucast (drop_bit 8 l), ucast (drop_bit 16 l), ucast (drop_bit 24 l),
      ucast (drop_bit 32 l), ucast (drop_bit 40 l), ucast (drop_bit 48 l), ucast (drop_bit 56 l)]"
    by (simp add: numeral_eq_Suc drop_bit_drop_bit)
  moreover have "length (take 56 d) = 56" using assms by simp
  ultimately show ?thesis by (subst d) (simp add: put_def list_update_append be64_def)
qed

lemma sha256_final_ctx_ok:
  assumes ok: "sha256_ok ctx n"
  shows "map_option ctx_state (sha256_final_ctx ctx) =
    Some (fst (absorb sha256_compress (ctx_state ctx) (sha256_pending ctx @ md_tail n)))"
proof -
  note D = sha256_okD [OF ok]
  define r where "r = n mod 64"
  define P where "P = sha256_pending ctx"
  define L where "L = w64 (8 * n)"
  have r: "r < 64" "length P = r" "unat (datalen ctx) = r" "take r (ctx_data ctx) = P" "r \<le> n" "n mod 64 = r"
    using D by (auto simp: r_def P_def sha256_pending_def)
  have small: "datalen ctx < 56 \<longleftrightarrow> r < 56" using r(3) by (simp add: word_less_nat_alt)
  have "ucast (datalen ctx * 8) = w64 (8 * r)"
    using ok r(1) ucast_w32 [of "8 * r"] by (simp add: sha256_ok_def r_def w32_def mult.commute)
  then have len: "bitlen ctx + ucast (datalen ctx * 8) = L"
    using ok r(5) by (simp add: sha256_ok_def r_def [symmetric] L_def flip: distrib_left)
  define d where "d = (ctx_data ctx)[r := 0x80]"
  have d: "put (ctx_data ctx) r 0x80 = Some d" "length d = 64" "take (r + 1) d = P @ [0x80]"
    using D(1) r by (simp_all add: put_def d_def take_Suc_conv_app_nth)
  show ?thesis
  proof (cases "r < 56")
    case True
    define B where "B = P @ 0x80 # replicate (55 - r) 0"
    have z: "sha256_zeros d (r + 1) 56 = Some (B @ drop 56 d)" "length B = 56"
      using sha256_zeros_eq [of "r + 1" 56 d] d True r by (simp_all add: B_def)
    have "sha256_final_ctx ctx = Some (sha256_transform (ctx\<lparr>bitlen := L, ctx_data := B @ be64 L\<rparr>))"
      using small True d z r(3) len put_all_be64 [of "B @ drop 56 d" L]
      by (simp add: sha256_final_ctx_def Let_def del: put_all.simps)
    moreover have "119 - r = 64 + (55 - r)" using True by simp
    then have "(119 - r) mod 64 = 55 - r" by (simp only: mod_add_self1) simp
    then have "P @ md_tail n = B @ be64 L" by (simp add: md_tail_def B_def r(6) L_def)
    ultimately show ?thesis
      using absorb_block [of "B @ be64 L" sha256_compress "ctx_state ctx" "[]"] z
      by (simp add: P_def sha256_transform_def absorb_small)
  next
    case False
    define B where "B = P @ 0x80 # replicate (63 - r) 0"
    have z: "sha256_zeros d (r + 1) 64 = Some B" "length B = 64"
      using sha256_zeros_eq [of "r + 1" 64 d] d r by (simp_all add: B_def)
    let ?s = "sha256_compress (ctx_state ctx) B"
    have w: "bwrite B 0 (replicate 56 0) = Some (replicate 56 0 @ drop 56 B)" using z by (simp add: bwrite_def)
    have "sha256_final_ctx ctx = Some (sha256_transform (ctx\<lparr>ctx_state := ?s, bitlen := L, ctx_data := replicate 56 0 @ be64 L\<rparr>))"
      using small False d z w r(3) len put_all_be64 [of "replicate 56 0 @ drop 56 B" L]
      by (simp add: sha256_final_ctx_def sha256_transform_def Let_def del: put_all.simps)
    moreover have "(119 - r) mod 64 = (63 - r) + 56" using False r(1) by simp
    then have "P @ md_tail n = B @ replicate 56 0 @ be64 L"
      by (simp only: md_tail_def r(6) replicate_add) (simp add: B_def L_def)
    ultimately show ?thesis
      using absorb_block [OF z(2), of sha256_compress "ctx_state ctx" "replicate 56 0 @ be64 L"]
        absorb_block [of "replicate 56 0 @ be64 L" sha256_compress ?s "[]"]
      by (simp add: P_def sha256_transform_def absorb_small)
  qed
qed

interpretation sha256: stream_hash sha256_ok ctx_state sha256_pending "sha256_init g" sha256_compress sha256_update
  "\<lambda>c. map_option ctx_state (sha256_final_ctx c)" "2 ^ 32" for g
proof
  show "sha256_ok (sha256_init g) 0" "sha256_pending (sha256_init g) = []"
    by (simp_all add: sha256_ok_def sha256_init_def sha256_pending_def w32_def)
  fix c n and xs :: "u8 list" assume ok: "sha256_ok c n"
  show "length (sha256_pending c) = n mod 64" using ok by (rule sha256_okD)
  show "map_option ctx_state (sha256_final_ctx c) =
      Some (fst (absorb sha256_compress (ctx_state c) (sha256_pending c @ md_tail n)))"
    using ok by (rule sha256_final_ctx_ok)
  assume "length xs < 2 ^ 32"
  then show "\<exists>c'. sha256_update c xs = Some c' \<and> sha256_ok c' (n + length xs) \<and>
      (ctx_state c', sha256_pending c') = absorb sha256_compress (ctx_state c) (sha256_pending c @ xs)"
    using sha256_loop_ok [OF ok] by (simp add: sha256_update_def)
qed

lemma sha256_pieces:
  assumes "\<forall>xs \<in> set xss. length xs < 2 ^ 32"
  shows "hash_feed sha256_update xss (sha256_init g) \<bind> sha256_final =
    Some (sha256_digest (md_state sha256_compress (ctx_state (sha256_init g)) (concat xss)))"
proof -
  have "map_option sha256_digest (hash_feed sha256_update xss (sha256_init g) \<bind> (\<lambda>c. map_option ctx_state (sha256_final_ctx c))) =
    hash_feed sha256_update xss (sha256_init g) \<bind> sha256_final"
    by (cases "hash_feed sha256_update xss (sha256_init g)") (simp_all add: sha256_final_def option.map_comp comp_def)
  then show ?thesis using sha256.hash_pieces [OF assms, of g] by simp
qed

lemma sha256_abc: "sha256_digest (md_state sha256_compress (ctx_state (sha256_init g)) [0x61, 0x62, 0x63]) =
  [0xba, 0x78, 0x16, 0xbf, 0x8f, 0x01, 0xcf, 0xea, 0x41, 0x41, 0x40, 0xde, 0x5d, 0xae, 0x22, 0x23,
   0xb0, 0x03, 0x61, 0xa3, 0x96, 0x17, 0x7a, 0x9c, 0xb4, 0x10, 0xff, 0x61, 0xf2, 0x00, 0x15, 0xad]"
  by code_simp

end
