(* ===== verification/Adlist.thy ===== *)
theory Adlist
  imports Prelude
begin

text \<open>
  The doubly linked list of the corpus, \<open>src/bench/redis-src/adlist.c\<close>. Nodes live in an explicit
  store from addresses to nodes, which several lists share; an access through NULL or to a node
  that was freed is a fault (\<open>None\<close>). The address that \<open>zmalloc\<close> returns is an argument (0 when
  memory is exhausted), and so are the methods \<open>dup\<close> and \<open>match\<close> of the list; the values handed to its
  \<open>free\<close> method are part of the result.
\<close>

type_synonym addr = nat

record 'v listNode =
  node_prev :: addr
  node_next :: addr
  node_value :: 'v

record list_hdr =
  l_head :: addr
  l_tail :: addr
  l_len :: u64

record listIter =
  iter_next :: addr
  from_head :: bool \<comment> \<open>\<open>AL_START_HEAD\<close>\<close>

type_synonym 'v store = "addr \<rightharpoonup> 'v listNode"

definition node_at :: "'v store \<Rightarrow> addr \<Rightarrow> 'v listNode option" where
  "node_at h p = (if p = 0 then None else h p)"

definition set_prev :: "'v store \<Rightarrow> addr \<Rightarrow> addr \<Rightarrow> 'v store option" where
  "set_prev h p v = map_option (\<lambda>n. h(p \<mapsto> n\<lparr>node_prev := v\<rparr>)) (node_at h p)"

definition set_next :: "'v store \<Rightarrow> addr \<Rightarrow> addr \<Rightarrow> 'v store option" where
  "set_next h p v = map_option (\<lambda>n. h(p \<mapsto> n\<lparr>node_next := v\<rparr>)) (node_at h p)"

section \<open>Operations\<close>

text \<open>\<open>got\<close> says whether \<open>zmalloc\<close> gave room for the header.\<close>

definition listCreate :: "bool \<Rightarrow> list_hdr option" where
  "listCreate got = (if got then Some \<lparr>l_head = 0, l_tail = 0, l_len = 0\<rparr> else None)"

text \<open>The loop runs \<open>len\<close> times; the second result is what was handed to \<open>free\<close>.\<close>

fun listEmpty_loop :: "'v store \<Rightarrow> addr \<Rightarrow> nat \<Rightarrow> ('v store \<times> 'v list) option" where
  "listEmpty_loop h current 0 = Some (h, [])"
| "listEmpty_loop h current (Suc len) =
     do {
       n \<leftarrow> node_at h current;
       (h, freed) \<leftarrow> listEmpty_loop (h(current := None)) (node_next n) len;
       Some (h, node_value n # freed)
     }"

definition listEmpty :: "'v store \<Rightarrow> list_hdr \<Rightarrow> ('v store \<times> list_hdr \<times> 'v list) option" where
  "listEmpty h l =
     do {
       (h, freed) \<leftarrow> listEmpty_loop h (l_head l) (unat (l_len l));
       Some (h, l\<lparr>l_head := 0, l_tail := 0, l_len := 0\<rparr>, freed)
     }"

definition listLinkNodeHead :: "'v store \<Rightarrow> list_hdr \<Rightarrow> addr \<Rightarrow> ('v store \<times> list_hdr) option" where
  "listLinkNodeHead h l node =
     do {
       (h, l) \<leftarrow>
         (if l_len l = 0 then
            do {
              h \<leftarrow> set_next h node 0;
              h \<leftarrow> set_prev h node 0;
              Some (h, l\<lparr>l_head := node, l_tail := node\<rparr>)
            }
          else
            do {
              h \<leftarrow> set_prev h node 0;
              h \<leftarrow> set_next h node (l_head l);
              h \<leftarrow> set_prev h (l_head l) node;
              Some (h, l\<lparr>l_head := node\<rparr>)
            });
       Some (h, l\<lparr>l_len := l_len l + 1\<rparr>)
     }"

definition listLinkNodeTail :: "'v store \<Rightarrow> list_hdr \<Rightarrow> addr \<Rightarrow> ('v store \<times> list_hdr) option" where
  "listLinkNodeTail h l node =
     do {
       (h, l) \<leftarrow>
         (if l_len l = 0 then
            do {
              h \<leftarrow> set_next h node 0;
              h \<leftarrow> set_prev h node 0;
              Some (h, l\<lparr>l_head := node, l_tail := node\<rparr>)
            }
          else
            do {
              h \<leftarrow> set_prev h node (l_tail l);
              h \<leftarrow> set_next h node 0;
              h \<leftarrow> set_next h (l_tail l) node;
              Some (h, l\<lparr>l_tail := node\<rparr>)
            });
       Some (h, l\<lparr>l_len := l_len l + 1\<rparr>)
     }"

text \<open>A node fresh from \<open>zmalloc\<close>; its links hold whatever \<open>junk\<close> was there.\<close>

definition new_node :: "'v listNode \<Rightarrow> 'v store \<Rightarrow> addr \<Rightarrow> 'v \<Rightarrow> 'v store" where
  "new_node junk h a v = h(a \<mapsto> junk\<lparr>node_value := v\<rparr>)"

text \<open>The outer \<open>None\<close> is a fault, the inner one the return value NULL.\<close>

definition listAddNodeHead ::
  "addr \<Rightarrow> 'v listNode \<Rightarrow> 'v store \<Rightarrow> list_hdr \<Rightarrow> 'v \<Rightarrow> ('v store \<times> list_hdr) option option" where
  "listAddNodeHead a junk h l v =
     (if a = 0 then Some None else map_option Some (listLinkNodeHead (new_node junk h a v) l a))"

definition listAddNodeTail ::
  "addr \<Rightarrow> 'v listNode \<Rightarrow> 'v store \<Rightarrow> list_hdr \<Rightarrow> 'v \<Rightarrow> ('v store \<times> list_hdr) option option" where
  "listAddNodeTail a junk h l v =
     (if a = 0 then Some None else map_option Some (listLinkNodeTail (new_node junk h a v) l a))"

definition relink_next :: "'v store \<Rightarrow> addr \<Rightarrow> addr \<Rightarrow> 'v store option" where
  "relink_next h p a = (if p \<noteq> 0 then set_next h p a else Some h)"

definition relink_prev :: "'v store \<Rightarrow> addr \<Rightarrow> addr \<Rightarrow> 'v store option" where
  "relink_prev h p a = (if p \<noteq> 0 then set_prev h p a else Some h)"

definition listInsertNode ::
  "addr \<Rightarrow> 'v listNode \<Rightarrow> 'v store \<Rightarrow> list_hdr \<Rightarrow> addr \<Rightarrow> 'v \<Rightarrow> bool \<Rightarrow> ('v store \<times> list_hdr) option option" where
  "listInsertNode a junk h l old_node v after =
     (if a = 0 then Some None
      else
        let h = new_node junk h a v in
        do {
          old \<leftarrow> node_at h old_node;
          (h, l) \<leftarrow>
            (if after then
               do {
                 h \<leftarrow> set_prev h a old_node;
                 h \<leftarrow> set_next h a (node_next old);
                 Some (h, if l_tail l = old_node then l\<lparr>l_tail := a\<rparr> else l)
               }
             else
               do {
                 h \<leftarrow> set_next h a old_node;
                 h \<leftarrow> set_prev h a (node_prev old);
                 Some (h, if l_head l = old_node then l\<lparr>l_head := a\<rparr> else l)
               });
          n \<leftarrow> node_at h a;
          h \<leftarrow> relink_next h (node_prev n) a;
          n \<leftarrow> node_at h a;
          h \<leftarrow> relink_prev h (node_next n) a;
          Some (Some (h, l\<lparr>l_len := l_len l + 1\<rparr>))
        })"

text \<open>The two conditional statements of the unlinking, for the neighbours on either side.\<close>

definition unlink_prev :: "'v store \<Rightarrow> list_hdr \<Rightarrow> 'v listNode \<Rightarrow> ('v store \<times> list_hdr) option" where
  "unlink_prev h l n =
     (if node_prev n \<noteq> 0 then do { h \<leftarrow> set_next h (node_prev n) (node_next n); Some (h, l) }
      else Some (h, l\<lparr>l_head := node_next n\<rparr>))"

definition unlink_next :: "'v store \<Rightarrow> list_hdr \<Rightarrow> 'v listNode \<Rightarrow> ('v store \<times> list_hdr) option" where
  "unlink_next h l n =
     (if node_next n \<noteq> 0 then do { h \<leftarrow> set_prev h (node_next n) (node_prev n); Some (h, l) }
      else Some (h, l\<lparr>l_tail := node_prev n\<rparr>))"

definition listUnlinkNode :: "'v store \<Rightarrow> list_hdr \<Rightarrow> addr \<Rightarrow> ('v store \<times> list_hdr) option" where
  "listUnlinkNode h l node =
     do {
       n \<leftarrow> node_at h node;
       (h, l) \<leftarrow> unlink_prev h l n;
       n \<leftarrow> node_at h node;
       (h, l) \<leftarrow> unlink_next h l n;
       h \<leftarrow> set_next h node 0;
       h \<leftarrow> set_prev h node 0;
       Some (h, l\<lparr>l_len := l_len l - 1\<rparr>)
     }"

text \<open>The third result is the value handed to \<open>free\<close>.\<close>

definition listDelNode :: "'v store \<Rightarrow> list_hdr \<Rightarrow> addr \<Rightarrow> ('v store \<times> list_hdr \<times> 'v) option" where
  "listDelNode h l node =
     do {
       (h, l) \<leftarrow> listUnlinkNode h l node;
       n \<leftarrow> node_at h node;
       Some (h(node := None), l, node_value n)
     }"

section \<open>Iteration\<close>

definition listInitIterator :: "list_hdr \<Rightarrow> bool \<Rightarrow> listIter" where
  "listInitIterator l dir = \<lparr>iter_next = (if dir then l_head l else l_tail l), from_head = dir\<rparr>"

definition listRewind :: "list_hdr \<Rightarrow> listIter" where
  "listRewind l = \<lparr>iter_next = l_head l, from_head = True\<rparr>"

definition listRewindTail :: "list_hdr \<Rightarrow> listIter" where
  "listRewindTail l = \<lparr>iter_next = l_tail l, from_head = False\<rparr>"

definition listNext :: "'v store \<Rightarrow> listIter \<Rightarrow> (addr \<times> listIter) option" where
  "listNext h it =
     (let current = iter_next it in
      if current \<noteq> 0 then
        do {
          n \<leftarrow> node_at h current;
          Some (current, it\<lparr>iter_next := (if from_head it then node_next n else node_prev n)\<rparr>)
        }
      else Some (current, it))"

text \<open>\<open>matches\<close> is the \<open>match\<close> method applied to the key, or equality with the key without one.\<close>

partial_function (option) listSearch_loop :: "('v \<Rightarrow> bool) \<Rightarrow> 'v store \<Rightarrow> listIter \<Rightarrow> addr option" where
  "listSearch_loop matches h it =
     do {
       (node, it) \<leftarrow> listNext h it;
       if node = 0 then Some 0
       else do {
         n \<leftarrow> node_at h node;
         if matches (node_value n) then Some node else listSearch_loop matches h it
       }
     }"

declare listSearch_loop.simps [code]

definition listSearchKey :: "('v \<Rightarrow> bool) \<Rightarrow> 'v store \<Rightarrow> list_hdr \<Rightarrow> addr option" where
  "listSearchKey matches h l = listSearch_loop matches h (listRewind l)"

fun listIndex_loop :: "bool \<Rightarrow> 'v store \<Rightarrow> nat \<Rightarrow> addr \<Rightarrow> addr option" where
  "listIndex_loop fwd h 0 n = Some n"
| "listIndex_loop fwd h (Suc index) n =
     (if n \<noteq> 0 then
        do { nd \<leftarrow> node_at h n; listIndex_loop fwd h index (if fwd then node_next nd else node_prev nd) }
      else Some n)"

definition listIndex :: "'v store \<Rightarrow> list_hdr \<Rightarrow> int \<Rightarrow> addr option" where
  "listIndex h l index =
     (if index < 0 then listIndex_loop False h (nat (- index - 1)) (l_tail l)
      else listIndex_loop True h (nat index) (l_head l))"

text \<open>
  \<open>dup\<close> is the duplication method (\<open>None\<close> when none is set); a duplicate of \<open>None\<close> stands for NULL.
  The list \<open>as\<close> holds the addresses that \<open>zmalloc\<close> returns, one per node.
  The last result is what was handed to the \<open>free\<close> method.
\<close>

partial_function (option) listDup_loop ::
  "('v \<Rightarrow> 'v option) option \<Rightarrow> 'v listNode \<Rightarrow> addr list \<Rightarrow> 'v store \<Rightarrow> list_hdr \<Rightarrow> listIter \<Rightarrow>
    ('v store \<times> list_hdr option \<times> 'v list) option" where
  "listDup_loop dup junk as h copy it =
     do {
       (node, it) \<leftarrow> listNext h it;
       if node = 0 then Some (h, Some copy, [])
       else do {
         n \<leftarrow> node_at h node;
         (case (case dup of None \<Rightarrow> Some (node_value n) | Some d \<Rightarrow> d (node_value n)) of
            None \<Rightarrow> do { (h, _, freed) \<leftarrow> listEmpty h copy; Some (h, None, freed) }
          | Some v \<Rightarrow>
              do {
                r \<leftarrow> listAddNodeTail (hd as) junk h copy v;
                (case r of
                   None \<Rightarrow> do { (h, _, freed) \<leftarrow> listEmpty h copy; Some (h, None, v # freed) }
                 | Some (h, copy) \<Rightarrow> listDup_loop dup junk (tl as) h copy it)
              })
       }
     }"

declare listDup_loop.simps [code]

definition listDup ::
  "bool \<Rightarrow> ('v \<Rightarrow> 'v option) option \<Rightarrow> 'v listNode \<Rightarrow> addr list \<Rightarrow> 'v store \<Rightarrow> list_hdr \<Rightarrow>
    ('v store \<times> list_hdr option \<times> 'v list) option" where
  "listDup got dup junk as h orig =
     (case listCreate got of
        None \<Rightarrow> Some (h, None, [])
      | Some copy \<Rightarrow> listDup_loop dup junk as h copy (listRewind orig))"

section \<open>Rotation and concatenation\<close>

definition listRotateTailToHead :: "'v store \<Rightarrow> list_hdr \<Rightarrow> ('v store \<times> list_hdr) option" where
  "listRotateTailToHead h l =
     (if l_len l \<le> 1 then Some (h, l)
      else
        let tail = l_tail l in
        do {
          t \<leftarrow> node_at h tail;
          let l = l\<lparr>l_tail := node_prev t\<rparr>;
          h \<leftarrow> set_next h (l_tail l) 0;
          h \<leftarrow> set_prev h (l_head l) tail;
          h \<leftarrow> set_prev h tail 0;
          h \<leftarrow> set_next h tail (l_head l);
          Some (h, l\<lparr>l_head := tail\<rparr>)
        })"

definition listRotateHeadToTail :: "'v store \<Rightarrow> list_hdr \<Rightarrow> ('v store \<times> list_hdr) option" where
  "listRotateHeadToTail h l =
     (if l_len l \<le> 1 then Some (h, l)
      else
        let head = l_head l in
        do {
          t \<leftarrow> node_at h head;
          let l = l\<lparr>l_head := node_next t\<rparr>;
          h \<leftarrow> set_prev h (l_head l) 0;
          h \<leftarrow> set_next h (l_tail l) head;
          h \<leftarrow> set_next h head 0;
          h \<leftarrow> set_prev h head (l_tail l);
          Some (h, l\<lparr>l_tail := head\<rparr>)
        })"

definition listJoin :: "'v store \<Rightarrow> list_hdr \<Rightarrow> list_hdr \<Rightarrow> ('v store \<times> list_hdr \<times> list_hdr) option" where
  "listJoin h l other =
     (if l_len other = 0 then Some (h, l, other)
      else do {
        h \<leftarrow> set_prev h (l_head other) (l_tail l);
        (h, l) \<leftarrow>
          (if l_tail l \<noteq> 0 then do { h \<leftarrow> set_next h (l_tail l) (l_head other); Some (h, l) }
           else Some (h, l\<lparr>l_head := l_head other\<rparr>));
        Some (h, l\<lparr>l_tail := l_tail other, l_len := l_len l + l_len other\<rparr>,
              other\<lparr>l_head := 0, l_tail := 0, l_len := 0\<rparr>)
      })"

definition listInitNode :: "'v store \<Rightarrow> addr \<Rightarrow> 'v \<Rightarrow> 'v store option" where
  "listInitNode h node v =
     map_option (\<lambda>n. h(node \<mapsto> \<lparr>node_prev = 0, node_next = 0, node_value = v\<rparr>)) (node_at h node)"

end
