(* ===== verification/Adlist_Spec.thy ===== *)
theory Adlist_Spec
  imports Adlist
begin

text \<open>
  What the linked list means: a list header represents a sequence of pairs of an address and a
  value when following the links from the head visits exactly these nodes, and the backward links
  mirror the forward ones. Every operation is the corresponding operation on sequences, and
  nodes outside the list are untouched.
\<close>

section \<open>Segments\<close>

definition nxt :: "(addr \<times> 'v) list \<Rightarrow> addr \<Rightarrow> addr" where
  "nxt xs n = (if xs = [] then n else fst (hd xs))"

definition lst :: "addr \<Rightarrow> (addr \<times> 'v) list \<Rightarrow> addr" where
  "lst p xs = (if xs = [] then p else fst (last xs))"

definition addrs :: "(addr \<times> 'v) list \<Rightarrow> addr set" where
  "addrs xs = set (map fst xs)"

definition adistinct :: "(addr \<times> 'v) list \<Rightarrow> bool" where
  "adistinct xs \<longleftrightarrow> distinct (map fst xs)"

lemma addrs_simps [simp]:
  "addrs [] = {}" "addrs ((a, v) # xs) = insert a (addrs xs)" "addrs (xs @ ys) = addrs xs \<union> addrs ys"
  by (auto simp: addrs_def)

lemma adistinct_simps [simp]:
  "adistinct []" "adistinct ((a, v) # xs) \<longleftrightarrow> a \<notin> addrs xs \<and> adistinct xs"
  "adistinct (xs @ ys) \<longleftrightarrow> adistinct xs \<and> adistinct ys \<and> addrs xs \<inter> addrs ys = {}"
  by (auto simp: addrs_def adistinct_def)

fun dseg :: "'v store \<Rightarrow> addr \<Rightarrow> (addr \<times> 'v) list \<Rightarrow> addr \<Rightarrow> bool" where
  "dseg h p [] n \<longleftrightarrow> True"
| "dseg h p ((a, v) # xs) n \<longleftrightarrow>
     a \<noteq> 0 \<and> h a = Some \<lparr>node_prev = p, node_next = nxt xs n, node_value = v\<rparr> \<and> dseg h a xs n"

lemma nxt_simps [simp]: "nxt [] n = n" "nxt ((a, v) # xs) n = a"
  by (simp_all add: nxt_def)

lemma nxt_append: "nxt (xs @ ys) n = nxt xs (nxt ys n)"
  by (simp add: nxt_def)

lemma lst_simps [simp]: "lst p [] = p" "lst p ((a, v) # xs) = lst a xs" "lst p (xs @ [(a, v)]) = a"
  by (auto simp: lst_def)

lemma lst_append: "lst p (xs @ ys) = lst (lst p xs) ys"
  by (simp add: lst_def)

lemma lst_in: "xs \<noteq> [] \<Longrightarrow> lst p xs \<in> addrs xs"
  by (simp add: lst_def addrs_def)

lemma nxt_in: "xs \<noteq> [] \<Longrightarrow> nxt xs n \<in> addrs xs"
  by (simp add: nxt_def addrs_def)

lemma dseg_append: "dseg h p (xs @ ys) n \<longleftrightarrow> dseg h p xs (nxt ys n) \<and> dseg h (lst p xs) ys n"
  by (induction h p xs "nxt ys n" rule: dseg.induct) (auto simp: nxt_append)

lemma dseg_frame: "dseg h p xs n \<Longrightarrow> \<forall>a \<in> addrs xs. h' a = h a \<Longrightarrow> dseg h' p xs n"
  by (induction h p xs n rule: dseg.induct) auto

lemma dseg_nonnull: "dseg h p xs n \<Longrightarrow> 0 \<notin> addrs xs"
  by (induction h p xs n rule: dseg.induct) auto

lemma dseg_first:
  assumes "dseg h p xs n" and "xs \<noteq> []" and "adistinct xs"
  obtains h' where "set_prev h (nxt xs k) q = Some h'" "dseg h' q xs n" "\<forall>a. a \<noteq> nxt xs k \<longrightarrow> h' a = h a"
proof -
  obtain a v ys where xs: "xs = (a, v) # ys" using assms(2) by (cases xs) auto
  let ?h = "h(a \<mapsto> \<lparr>node_prev = q, node_next = nxt ys n, node_value = v\<rparr>)"
  have "dseg ?h a ys n" by (rule dseg_frame [of h]) (use assms xs in auto)
  then show ?thesis using that [of ?h] assms xs by (simp add: set_prev_def node_at_def)
qed

lemma dseg_last:
  assumes "dseg h p xs n" and "xs \<noteq> []" and "adistinct xs"
  obtains h' where "set_next h (lst k xs) q = Some h'" "dseg h' p xs q" "\<forall>a. a \<noteq> lst k xs \<longrightarrow> h' a = h a"
proof -
  obtain a v ys where xs: "xs = ys @ [(a, v)]" using assms(2) by (cases xs rule: rev_cases) auto
  let ?h = "h(a \<mapsto> \<lparr>node_prev = lst p ys, node_next = q, node_value = v\<rparr>)"
  have "dseg ?h p ys a" by (rule dseg_frame [of h]) (use assms xs in \<open>auto simp: dseg_append\<close>)
  then show ?thesis using that [of ?h] assms xs by (simp add: set_next_def node_at_def dseg_append)
qed

section \<open>Lists\<close>

lemma w64_Suc_0 [simp]: "w64 (Suc 0) = 1"
  by (simp add: w64_def)

lemma w64_minus_1: "0 < n \<Longrightarrow> w64 n - 1 = w64 (n - 1)"
  by (simp add: w64_def)

definition dlist :: "'v store \<Rightarrow> list_hdr \<Rightarrow> (addr \<times> 'v) list \<Rightarrow> bool" where
  "dlist h l xs \<longleftrightarrow> adistinct xs \<and> dseg h 0 xs 0 \<and> l_head l = nxt xs 0 \<and> l_tail l = lst 0 xs \<and>
     l_len l = w64 (length xs) \<and> length xs < 2 ^ 64"

lemma dlist_create: "listCreate True = Some l \<Longrightarrow> dlist h l []"
  by (auto simp: dlist_def listCreate_def)

lemma dlistD:
  assumes "dlist h l xs"
  shows "adistinct xs" "dseg h 0 xs 0" "l_head l = nxt xs 0" "l_tail l = lst 0 xs"
    "l_len l = w64 (length xs)" "length xs < 2 ^ 64" "l_len l = 0 \<longleftrightarrow> xs = []"
  using assms w64_eq_0_iff [of "length xs"] by (auto simp: dlist_def)

lemma dlist_frame: "dlist h l xs \<Longrightarrow> \<forall>a \<in> addrs xs. h' a = h a \<Longrightarrow> dlist h' l xs"
  by (auto simp: dlist_def intro: dseg_frame)

lemma set_links:
  assumes "a \<noteq> 0" and "h a = Some nd"
  shows "set_prev h a p = Some (h(a \<mapsto> nd\<lparr>node_prev := p\<rparr>))" "set_next h a p = Some (h(a \<mapsto> nd\<lparr>node_next := p\<rparr>))"
  using assms by (simp_all add: set_prev_def set_next_def node_at_def)

lemma node_links:
  "nd\<lparr>node_prev := p, node_next := n\<rparr> = \<lparr>node_prev = p, node_next = n, node_value = node_value nd\<rparr>"
  by (cases nd) simp

lemma link_head_ok:
  assumes "dlist h l xs" and "a \<noteq> 0" "a \<notin> addrs xs" and "h a = Some nd" and "length xs + 1 < 2 ^ 64"
  shows "\<exists>h' l'. listLinkNodeHead h l a = Some (h', l') \<and> dlist h' l' ((a, node_value nd) # xs) \<and>
    (\<forall>b. b \<noteq> a \<and> b \<notin> addrs xs \<longrightarrow> h' b = h b)"
proof (cases "xs = []")
  case True
  then show ?thesis using assms dlistD(7) [OF assms(1)]
    by (simp add: listLinkNodeHead_def set_prev_def set_next_def node_at_def dlist_def)
next
  case False
  note D = dlistD [OF assms(1)]
  let ?h = "h(a \<mapsto> \<lparr>node_prev = 0, node_next = nxt xs 0, node_value = node_value nd\<rparr>)"
  have "dseg ?h 0 xs 0" by (rule dseg_frame [OF D(2)]) (use assms in auto)
  then obtain h' where h': "set_prev ?h (nxt xs 0) a = Some h'" "dseg h' a xs 0" "\<forall>b. b \<noteq> nxt xs 0 \<longrightarrow> h' b = ?h b"
    using dseg_first [OF _ False D(1)] by blast
  have fr: "h' b = ?h b" if "b \<notin> addrs xs" for b using h'(3) that nxt_in [OF False] by metis
  have "listLinkNodeHead h l a = Some (h', l\<lparr>l_head := a, l_len := l_len l + 1\<rparr>)"
    using D(3,7) False assms(2,4) h'(1) by (simp add: listLinkNodeHead_def set_links node_links)
  moreover have "dlist h' (l\<lparr>l_head := a, l_len := l_len l + 1\<rparr>) ((a, node_value nd) # xs)"
    using D False assms(2,3,5) h'(2) fr [OF assms(3)] by (cases xs) (auto simp: dlist_def)
  ultimately show ?thesis using fr by auto
qed

lemma link_tail_ok:
  assumes "dlist h l xs" and "a \<noteq> 0" "a \<notin> addrs xs" and "h a = Some nd" and "length xs + 1 < 2 ^ 64"
  shows "\<exists>h' l'. listLinkNodeTail h l a = Some (h', l') \<and> dlist h' l' (xs @ [(a, node_value nd)]) \<and>
    (\<forall>b. b \<noteq> a \<and> b \<notin> addrs xs \<longrightarrow> h' b = h b)"
proof (cases "xs = []")
  case True
  then show ?thesis using assms dlistD(7) [OF assms(1)]
    by (simp add: listLinkNodeTail_def set_prev_def set_next_def node_at_def dlist_def)
next
  case False
  note D = dlistD [OF assms(1)]
  let ?h = "h(a \<mapsto> \<lparr>node_prev = lst 0 xs, node_next = 0, node_value = node_value nd\<rparr>)"
  have "dseg ?h 0 xs 0" by (rule dseg_frame [OF D(2)]) (use assms in auto)
  then obtain h' where h': "set_next ?h (lst 0 xs) a = Some h'" "dseg h' 0 xs a" "\<forall>b. b \<noteq> lst 0 xs \<longrightarrow> h' b = ?h b"
    using dseg_last [OF _ False D(1)] by blast
  have fr: "h' b = ?h b" if "b \<notin> addrs xs" for b using h'(3) that lst_in [OF False] by metis
  have "listLinkNodeTail h l a = Some (h', l\<lparr>l_tail := a, l_len := l_len l + 1\<rparr>)"
    using D(4,7) False assms(2,4) h'(1) by (simp add: listLinkNodeTail_def set_links node_links)
  moreover have "dlist h' (l\<lparr>l_tail := a, l_len := l_len l + 1\<rparr>) (xs @ [(a, node_value nd)])"
    using D False assms(2,3,5) h'(2) fr [OF assms(3)] by (auto simp: dlist_def dseg_append nxt_def)
  ultimately show ?thesis using fr by auto
qed

lemma lst_nonzero: "dseg h p xs n \<Longrightarrow> lst 0 xs = 0 \<longleftrightarrow> xs = []"
  using dseg_nonnull [of h p xs n] by (cases xs rule: rev_cases) (auto simp: lst_def)

lemma nxt_nonzero: "dseg h p xs n \<Longrightarrow> nxt xs 0 = 0 \<longleftrightarrow> xs = []"
  using dseg_nonnull [of h p xs n] by (cases xs) (auto simp: nxt_def)

text \<open>Redirecting the end of a segment that may be empty.\<close>

lemma relink_last:
  assumes "dseg h 0 xs n" and "adistinct xs"
  obtains h' where "relink_next h (lst 0 xs) q = Some h'"
    "dseg h' 0 xs q" "\<forall>a. a \<notin> addrs xs \<longrightarrow> h' a = h a"
proof (cases "xs = []")
  case False
  obtain h' where h': "set_next h (lst 0 xs) q = Some h'" "dseg h' 0 xs q" "\<forall>a. a \<noteq> lst 0 xs \<longrightarrow> h' a = h a"
    using dseg_last [OF assms(1) False assms(2)] by blast
  have "\<forall>a. a \<notin> addrs xs \<longrightarrow> h' a = h a" using h'(3) lst_in [OF False, of 0] by metis
  then show ?thesis using that [of h'] h'(1,2) lst_nonzero [OF assms(1)] False by (simp add: relink_next_def)
qed (use that [of h] in \<open>simp add: relink_next_def\<close>)

lemma relink_first:
  assumes "dseg h p xs 0" and "adistinct xs"
  obtains h' where "relink_prev h (nxt xs 0) q = Some h'"
    "dseg h' q xs 0" "\<forall>a. a \<notin> addrs xs \<longrightarrow> h' a = h a"
proof (cases "xs = []")
  case False
  obtain h' where h': "set_prev h (nxt xs 0) q = Some h'" "dseg h' q xs 0" "\<forall>a. a \<noteq> nxt xs 0 \<longrightarrow> h' a = h a"
    using dseg_first [OF assms(1) False assms(2)] by blast
  have "\<forall>a. a \<notin> addrs xs \<longrightarrow> h' a = h a" using h'(3) nxt_in [OF False, of 0] by metis
  then show ?thesis using that [of h'] h'(1,2) nxt_nonzero [OF assms(1)] False by (simp add: relink_prev_def)
qed (use that [of h] in \<open>simp add: relink_prev_def\<close>)

lemma unlink_ok:
  assumes dl: "dlist h l (xs @ (a, v) # ys)"
  shows "\<exists>h' l'. listUnlinkNode h l a = Some (h', l') \<and> dlist h' l' (xs @ ys) \<and>
    h' a = Some \<lparr>node_prev = 0, node_next = 0, node_value = v\<rparr> \<and>
    (\<forall>b. b \<notin> addrs (xs @ (a, v) # ys) \<longrightarrow> h' b = h b)"
proof -
  note D = dlistD [OF dl]
  have seg: "dseg h 0 xs a" "h a = Some \<lparr>node_prev = lst 0 xs, node_next = nxt ys 0, node_value = v\<rparr>" "a \<noteq> 0" "dseg h a ys 0"
    using D(2) by (auto simp: dseg_append)
  have dist: "adistinct xs" "adistinct ys" "a \<notin> addrs xs" "a \<notin> addrs ys" "addrs xs \<inter> addrs ys = {}"
    using D(1) by auto
  obtain h1 where h1: "relink_next h (lst 0 xs) (nxt ys 0) = Some h1"
    "dseg h1 0 xs (nxt ys 0)" "\<forall>b. b \<notin> addrs xs \<longrightarrow> h1 b = h b"
    using relink_last [OF seg(1) dist(1)] by blast
  have ys1: "dseg h1 a ys 0" by (rule dseg_frame [OF seg(4)]) (use h1(3) dist in auto)
  obtain h2 where h2: "relink_prev h1 (nxt ys 0) (lst 0 xs) = Some h2"
    "dseg h2 (lst 0 xs) ys 0" "\<forall>b. b \<notin> addrs ys \<longrightarrow> h2 b = h1 b"
    using relink_first [OF ys1 dist(2)] by blast
  define h3 where "h3 = h2(a \<mapsto> \<lparr>node_prev = 0, node_next = 0, node_value = v\<rparr>)"
  have a1: "h1 a = h a" "h2 a = h a" using h1(3) h2(3) dist by auto
  have xs2: "dseg h3 0 xs (nxt ys 0)"
    by (rule dseg_frame [OF h1(2)]) (use h2(3) dist in \<open>auto simp: h3_def\<close>)
  have ys2: "dseg h3 (lst 0 xs) ys 0"
    by (rule dseg_frame [OF h2(2)]) (use dist in \<open>auto simp: h3_def\<close>)
  define l' where "l' = l\<lparr>l_head := nxt (xs @ ys) 0, l_tail := lst 0 (xs @ ys), l_len := l_len l - 1\<rparr>"
  have hd: "l_head l = nxt xs a" "l_tail l = lst a ys" using D(3,4) by (simp_all add: nxt_append lst_append)
  have "listUnlinkNode h l a = Some (h3, l')"
  proof -
    let ?n = "\<lparr>node_prev = lst 0 xs, node_next = nxt ys 0, node_value = v\<rparr>"
    have f1: "unlink_prev h l ?n = Some (h1, l\<lparr>l_head := nxt (xs @ ys) 0\<rparr>)"
      using h1(1) hd(1) lst_nonzero [OF seg(1)] by (auto simp: unlink_prev_def relink_next_def nxt_def split: if_splits)
    have f2: "unlink_next h1 l2 ?n = Some (h2, l2\<lparr>l_tail := lst 0 (xs @ ys)\<rparr>)" if "l_tail l2 = lst a ys" for l2 :: list_hdr
      using that h2(1) nxt_nonzero [OF ys1] by (auto simp: unlink_next_def relink_prev_def lst_def split: if_splits)
    show ?thesis
      using seg f1 f2 [of "l\<lparr>l_head := nxt (xs @ ys) 0\<rparr>"] hd a1
      by (simp add: listUnlinkNode_def node_at_def set_links h3_def l'_def)
  qed
  moreover have "dlist h3 l' (xs @ ys)"
    using D(5,6) dist xs2 ys2 by (auto simp: dlist_def l'_def dseg_append w64_minus_1)
  moreover have "h3 b = h b" if "b \<notin> addrs (xs @ (a, v) # ys)" for b
    using that h1(3) h2(3) by (auto simp: h3_def)
  ultimately show ?thesis by (auto simp: h3_def)
qed

lemma del_ok:
  assumes "dlist h l (xs @ (a, v) # ys)"
  shows "\<exists>h' l'. listDelNode h l a = Some (h', l', v) \<and> dlist h' l' (xs @ ys) \<and> h' a = None \<and>
    (\<forall>b. b \<notin> addrs (xs @ (a, v) # ys) \<longrightarrow> h' b = h b)"
proof -
  obtain h' l' where U: "listUnlinkNode h l a = Some (h', l')" "dlist h' l' (xs @ ys)"
    "h' a = Some \<lparr>node_prev = 0, node_next = 0, node_value = v\<rparr>" "\<forall>b. b \<notin> addrs (xs @ (a, v) # ys) \<longrightarrow> h' b = h b"
    using unlink_ok [OF assms] by blast
  have a: "a \<noteq> 0" "a \<notin> addrs (xs @ ys)" using dlistD(1,2) [OF assms] by (auto simp: dseg_append)
  have "listDelNode h l a = Some (h'(a := None), l', v)" using U a by (simp add: listDelNode_def node_at_def)
  moreover have "dlist (h'(a := None)) l' (xs @ ys)" by (rule dlist_frame [OF U(2)]) (use a in auto)
  ultimately show ?thesis using U(4) by auto
qed

section \<open>Insertion\<close>

text \<open>Between two segments, a node whose links already point to its neighbours is spliced in.\<close>

lemma splice:
  assumes "dseg h 0 xs (nxt ys 0)" and "dseg h (lst 0 xs) ys 0" and "adistinct (xs @ (a, v) # ys)" and "a \<noteq> 0"
    and "h a = Some \<lparr>node_prev = lst 0 xs, node_next = nxt ys 0, node_value = v\<rparr>"
  obtains h1 h2 where "relink_next h (lst 0 xs) a = Some h1" "h1 a = h a" "relink_prev h1 (nxt ys 0) a = Some h2"
    "dseg h2 0 (xs @ (a, v) # ys) 0" "\<forall>b. b \<notin> addrs (xs @ (a, v) # ys) \<longrightarrow> h2 b = h b"
proof -
  have dist: "adistinct xs" "adistinct ys" "a \<notin> addrs xs" "a \<notin> addrs ys" "addrs xs \<inter> addrs ys = {}"
    using assms(3) by auto
  obtain h1 where h1: "relink_next h (lst 0 xs) a = Some h1" "dseg h1 0 xs a" "\<forall>b. b \<notin> addrs xs \<longrightarrow> h1 b = h b"
    using relink_last [OF assms(1) dist(1)] by blast
  have "dseg h1 (lst 0 xs) ys 0" by (rule dseg_frame [OF assms(2)]) (use h1(3) dist in auto)
  then obtain h2 where h2: "relink_prev h1 (nxt ys 0) a = Some h2" "dseg h2 a ys 0" "\<forall>b. b \<notin> addrs ys \<longrightarrow> h2 b = h1 b"
    using relink_first [OF _ dist(2)] by blast
  have "dseg h2 0 xs a" by (rule dseg_frame [OF h1(2)]) (use h2(3) dist in auto)
  then have "dseg h2 0 (xs @ (a, v) # ys) 0"
    using h2(2,3) h1(3) dist assms(4,5) by (simp add: dseg_append)
  moreover have "h1 a = h a" using h1(3) dist by simp
  moreover have "\<forall>b. b \<notin> addrs (xs @ (a, v) # ys) \<longrightarrow> h2 b = h b" using h1(3) h2(3) by auto
  ultimately show ?thesis using that h1(1) h2(1) by blast
qed

lemma insert_ok:
  assumes dl: "dlist h l (xs @ (c, w) # ys)" and a: "a \<noteq> 0" "a \<notin> addrs (xs @ (c, w) # ys)"
    and len: "length (xs @ (c, w) # ys) + 1 < 2 ^ 64"
  shows "\<exists>h' l'. listInsertNode a junk h l c v after = Some (Some (h', l')) \<and>
    dlist h' l' (if after then xs @ (c, w) # (a, v) # ys else xs @ (a, v) # (c, w) # ys)"
proof -
  note D = dlistD [OF dl]
  define us where "us = (if after then xs @ [(c, w)] else xs)"
  define ws where "ws = (if after then ys else (c, w) # ys)"
  have uw: "us @ ws = xs @ (c, w) # ys" by (simp add: us_def ws_def)
  have seg: "dseg h 0 us (nxt ws 0)" "dseg h (lst 0 us) ws 0" using D(2) uw by (metis dseg_append)+
  define h1 where "h1 = h(a \<mapsto> \<lparr>node_prev = lst 0 us, node_next = nxt ws 0, node_value = v\<rparr>)"
  have au: "a \<notin> addrs us" "a \<notin> addrs ws" using a(2) by (auto simp flip: uw)
  have dist: "adistinct (us @ (a, v) # ws)" using D(1) au by (auto simp flip: uw)
  have c: "h c = Some \<lparr>node_prev = lst 0 xs, node_next = nxt ys 0, node_value = w\<rparr>" "c \<noteq> 0" "c \<noteq> a"
    using D(2) a by (auto simp: dseg_append)
  have s1: "dseg h1 0 us (nxt ws 0)" "dseg h1 (lst 0 us) ws 0"
    using dseg_frame [OF seg(1), of h1] dseg_frame [OF seg(2), of h1] au by (auto simp: h1_def)
  have h1a: "h1 a = Some \<lparr>node_prev = lst 0 us, node_next = nxt ws 0, node_value = v\<rparr>" by (simp add: h1_def)
  obtain h2 h3 where S: "relink_next h1 (lst 0 us) a = Some h2" "h2 a = h1 a" "relink_prev h2 (nxt ws 0) a = Some h3"
    "dseg h3 0 (us @ (a, v) # ws) 0"
    using splice [OF s1 dist a(1) h1a] by blast
  have links: "(new_node junk h a v)(a \<mapsto> junk\<lparr>node_value := v, node_prev := lst 0 us, node_next := nxt ws 0\<rparr>) = h1"
    "(new_node junk h a v)(a \<mapsto> junk\<lparr>node_value := v, node_next := nxt ws 0, node_prev := lst 0 us\<rparr>) = h1"
    by (cases junk; simp add: new_node_def h1_def)+
  define l1 where "l1 = (if after then if l_tail l = c then l\<lparr>l_tail := a\<rparr> else l else if l_head l = c then l\<lparr>l_head := a\<rparr> else l)"
  have run: "listInsertNode a junk h l c v after = Some (Some (h3, l1\<lparr>l_len := l_len l1 + 1\<rparr>))"
    using a(1) c S links
    by (cases after) (simp_all add: listInsertNode_def Let_def node_at_def set_prev_def set_next_def us_def ws_def l1_def new_node_def h1a)
  have cu: "c \<notin> addrs xs" "c \<notin> addrs ys" using D(1) by auto
  have "lst c ys = c \<longleftrightarrow> ys = []" "nxt xs c = c \<longleftrightarrow> xs = []"
    using cu lst_in nxt_in by (metis lst_simps(1), metis nxt_simps(1))
  then have "l_head l1 = nxt (us @ (a, v) # ws) 0" "l_tail l1 = lst 0 (us @ (a, v) # ws)" "l_len l1 = l_len l"
    using D(3,4) by (auto simp: l1_def us_def ws_def nxt_append lst_append nxt_def lst_def)
  then have "dlist h3 (l1\<lparr>l_len := l_len l1 + 1\<rparr>) (us @ (a, v) # ws)"
    using S(4) dist D(5) len by (simp add: dlist_def us_def ws_def)
  then show ?thesis using run by (cases after) (auto simp: us_def ws_def)
qed

section \<open>Emptying, searching, indexing\<close>

lemma empty_loop_ok:
  "dseg h p xs n \<Longrightarrow> adistinct xs \<Longrightarrow>
    \<exists>h'. listEmpty_loop h (nxt xs n) (length xs) = Some (h', map snd xs) \<and> (\<forall>b. h' b = (if b \<in> addrs xs then None else h b))"
proof (induction xs arbitrary: h p)
  case (Cons x xs)
  obtain a v where x: "x = (a, v)" by (cases x)
  have "dseg (h(a := None)) a xs n" by (rule dseg_frame [of h]) (use Cons.prems x in auto)
  then obtain h' where h': "listEmpty_loop (h(a := None)) (nxt xs n) (length xs) = Some (h', map snd xs)"
    "\<forall>b. h' b = (if b \<in> addrs xs then None else (h(a := None)) b)"
    using Cons.IH Cons.prems x by fastforce
  then show ?case using Cons.prems x by (auto simp: node_at_def)
qed simp

lemma empty_ok:
  assumes "dlist h l xs"
  shows "\<exists>h'. listEmpty h l = Some (h', l\<lparr>l_head := 0, l_tail := 0, l_len := 0\<rparr>, map snd xs) \<and>
    (\<forall>b. h' b = (if b \<in> addrs xs then None else h b))"
  using empty_loop_ok [OF dlistD(2,1) [OF assms]] dlistD(3,5,6) [OF assms]
  by (auto simp: listEmpty_def unat_w64_small)

lemma list_search_loop_ok:
  assumes "dseg h p xs 0"
  shows "listSearch_loop m h \<lparr>iter_next = nxt xs 0, from_head = True\<rparr> =
    Some (case find (\<lambda>(a, v). m v) xs of None \<Rightarrow> 0 | Some (a, v) \<Rightarrow> a)"
  using assms
proof (induction xs arbitrary: p)
  case Nil
  then show ?case by (subst listSearch_loop.simps) (simp add: listNext_def)
next
  case (Cons x xs)
  obtain a v where x: "x = (a, v)" by (cases x)
  show ?case using Cons x by (subst listSearch_loop.simps) (auto simp: listNext_def node_at_def Let_def)
qed

lemma list_search_ok:
  "dlist h l xs \<Longrightarrow> listSearchKey m h l = Some (case find (\<lambda>(a, v). m v) xs of None \<Rightarrow> 0 | Some (a, v) \<Rightarrow> a)"
  using list_search_loop_ok [of h 0 xs m] by (simp add: listSearchKey_def listRewind_def dlist_def)

lemma index_fwd:
  "dseg h p xs 0 \<Longrightarrow> listIndex_loop True h i (nxt xs 0) = Some (if i < length xs then fst (xs ! i) else 0)"
proof (induction xs arbitrary: p i)
  case Nil
  then show ?case by (cases i) simp_all
next
  case (Cons x xs)
  obtain a v where x: "x = (a, v)" by (cases x)
  show ?case using Cons x by (cases i) (auto simp: node_at_def)
qed

lemma index_bwd:
  "dseg h 0 xs n \<Longrightarrow> listIndex_loop False h i (lst 0 xs) = Some (if i < length xs then fst (xs ! (length xs - 1 - i)) else 0)"
proof (induction xs arbitrary: n i rule: rev_induct)
  case Nil
  then show ?case by (cases i) simp_all
next
  case (snoc x xs)
  obtain a v where x: "x = (a, v)" by (cases x)
  show ?case using snoc x by (cases i) (auto simp: node_at_def dseg_append nth_append)
qed

lemma index_ok:
  assumes "dlist h l xs"
  shows "listIndex h l i =
    Some (if 0 \<le> i \<and> i < int (length xs) then fst (xs ! nat i)
          else if i < 0 \<and> - i \<le> int (length xs) then fst (xs ! nat (int (length xs) + i)) else 0)"
proof (cases "i < 0")
  case True
  define k where "k = nat (- i - 1)"
  have i: "i = - int k - 1" using True by (simp add: k_def)
  have e: "nat (int (length xs) + i) = length xs - 1 - k" if "k < length xs" using that i by simp
  have "- i \<le> int (length xs) \<longleftrightarrow> k < length xs" using i by linarith
  then show ?thesis
    using True index_bwd [OF dlistD(2) [OF assms], of k] dlistD(4) [OF assms] e
    by (auto simp: listIndex_def k_def [symmetric])
next
  case False
  then show ?thesis
    using index_fwd [OF dlistD(2) [OF assms], of "nat i"] dlistD(3) [OF assms] by (auto simp: listIndex_def)
qed

section \<open>Rotation and concatenation\<close>

lemma len_le_1: "dlist h l xs \<Longrightarrow> l_len l \<le> 1 \<longleftrightarrow> length xs \<le> 1"
  using dlistD(5,6) [of h l xs] by (simp add: word_le_nat_alt unat_w64_small)

lemma rotate_tail_ok:
  assumes dl: "dlist h l (xs @ [(t, v)])" and ne: "xs \<noteq> []"
  shows "\<exists>h' l'. listRotateTailToHead h l = Some (h', l') \<and> dlist h' l' ((t, v) # xs)"
proof -
  note D = dlistD [OF dl]
  have seg: "dseg h 0 xs t" "h t = Some \<lparr>node_prev = lst 0 xs, node_next = 0, node_value = v\<rparr>" "t \<noteq> 0"
    and dist: "adistinct xs" "t \<notin> addrs xs" using D(1,2) by (auto simp: dseg_append)
  have hd: "l_head l = nxt xs 0" "l_tail l = t" using D(3,4) ne by (simp_all add: nxt_def)
  obtain h1 where h1: "set_next h (lst 0 xs) 0 = Some h1" "dseg h1 0 xs 0" "\<forall>b. b \<noteq> lst 0 xs \<longrightarrow> h1 b = h b"
    using dseg_last [OF seg(1) ne dist(1)] by blast
  obtain h2 where h2: "set_prev h1 (nxt xs 0) t = Some h2" "dseg h2 t xs 0" "\<forall>b. b \<noteq> nxt xs 0 \<longrightarrow> h2 b = h1 b"
    using dseg_first [OF h1(2) ne dist(1)] by blast
  have t: "h2 t = h t" using h1(3) h2(3) dist lst_in [OF ne, of 0] nxt_in [OF ne, of 0] by metis
  let ?h = "h2(t \<mapsto> \<lparr>node_prev = 0, node_next = nxt xs 0, node_value = v\<rparr>)"
  let ?l = "l\<lparr>l_tail := lst 0 xs, l_head := t\<rparr>"
  have "\<not> l_len l \<le> 1" using len_le_1 [OF dl] ne by simp
  then have "listRotateTailToHead h l = Some (?h, ?l)"
    using hd seg h1(1) h2(1) t by (simp add: listRotateTailToHead_def Let_def node_at_def set_links)
  moreover have "dseg ?h t xs 0" by (rule dseg_frame [OF h2(2)]) (use dist in auto)
  then have "dlist ?h ?l ((t, v) # xs)" using D(5,6) dist seg(3) ne by (simp add: dlist_def lst_def)
  ultimately show ?thesis by blast
qed

lemma rotate_head_ok:
  assumes dl: "dlist h l ((t, v) # xs)" and ne: "xs \<noteq> []"
  shows "\<exists>h' l'. listRotateHeadToTail h l = Some (h', l') \<and> dlist h' l' (xs @ [(t, v)])"
proof -
  note D = dlistD [OF dl]
  have seg: "dseg h t xs 0" "h t = Some \<lparr>node_prev = 0, node_next = nxt xs 0, node_value = v\<rparr>" "t \<noteq> 0"
    and dist: "adistinct xs" "t \<notin> addrs xs" using D(1,2) by auto
  have hd: "l_head l = t" "l_tail l = lst 0 xs" using D(3,4) ne by (simp_all add: lst_def)
  obtain h1 where h1: "set_prev h (nxt xs 0) 0 = Some h1" "dseg h1 0 xs 0" "\<forall>b. b \<noteq> nxt xs 0 \<longrightarrow> h1 b = h b"
    using dseg_first [OF seg(1) ne dist(1)] by blast
  obtain h2 where h2: "set_next h1 (lst 0 xs) t = Some h2" "dseg h2 0 xs t" "\<forall>b. b \<noteq> lst 0 xs \<longrightarrow> h2 b = h1 b"
    using dseg_last [OF h1(2) ne dist(1)] by blast
  have t: "h2 t = h t" using h1(3) h2(3) dist lst_in [OF ne, of 0] nxt_in [OF ne, of 0] by metis
  let ?h = "h2(t \<mapsto> \<lparr>node_prev = lst 0 xs, node_next = 0, node_value = v\<rparr>)"
  let ?l = "l\<lparr>l_head := nxt xs 0, l_tail := t\<rparr>"
  have "\<not> l_len l \<le> 1" using len_le_1 [OF dl] ne by simp
  then have "listRotateHeadToTail h l = Some (?h, ?l)"
    using hd seg h1(1) h2(1) t by (simp add: listRotateHeadToTail_def Let_def node_at_def set_links)
  moreover have "dseg ?h 0 xs t" by (rule dseg_frame [OF h2(2)]) (use dist in auto)
  then have "dlist ?h ?l (xs @ [(t, v)])" using D(5,6) dist seg(3) ne by (simp add: dlist_def dseg_append nxt_def)
  ultimately show ?thesis by blast
qed

lemma join_ok:
  assumes l: "dlist h l xs" and other: "dlist h other ys" and dist: "addrs xs \<inter> addrs ys = {}"
    and len: "length xs + length ys < 2 ^ 64"
  shows "\<exists>h' l' other'. listJoin h l other = Some (h', l', other') \<and> dlist h' l' (xs @ ys) \<and> dlist h' other' []"
proof (cases "ys = []")
  case True
  then show ?thesis using l other dlistD(7) [OF other] by (auto simp: listJoin_def)
next
  case False
  note D = dlistD [OF l] and E = dlistD [OF other]
  obtain h1 where h1: "set_prev h (nxt ys 0) (lst 0 xs) = Some h1" "dseg h1 (lst 0 xs) ys 0" "\<forall>b. b \<noteq> nxt ys 0 \<longrightarrow> h1 b = h b"
    using dseg_first [OF E(2) False E(1)] by blast
  have fr: "h1 b = h b" if "b \<notin> addrs ys" for b using h1(3) that nxt_in [OF False, of 0] by metis
  have xs1: "dseg h1 0 xs 0" by (rule dseg_frame [OF D(2)]) (use dist fr in auto)
  obtain h2 where h2: "relink_next h1 (lst 0 xs) (nxt ys 0) = Some h2" "dseg h2 0 xs (nxt ys 0)" "\<forall>b. b \<notin> addrs xs \<longrightarrow> h2 b = h1 b"
    using relink_last [OF xs1 D(1)] by blast
  have ys2: "dseg h2 (lst 0 xs) ys 0" by (rule dseg_frame [OF h1(2)]) (use dist h2(3) in auto)
  let ?l = "l\<lparr>l_head := nxt (xs @ ys) 0, l_tail := lst 0 ys, l_len := l_len l + l_len other\<rparr>"
  let ?o = "other\<lparr>l_head := 0, l_tail := 0, l_len := 0\<rparr>"
  have "listJoin h l other = Some (h2, ?l, ?o)"
    using D(3,4) E(3,4,7) False h1(1) h2(1) lst_nonzero [OF D(2)]
    by (auto simp: listJoin_def relink_next_def nxt_def split: if_splits)
  moreover have "dlist h2 ?l (xs @ ys)"
    using D(1,5) E(1,5) h2(2) ys2 dist len False by (simp add: dlist_def dseg_append lst_def)
  ultimately show ?thesis by (auto simp: dlist_def)
qed

section \<open>Duplication\<close>

definition dup_value :: "('v \<Rightarrow> 'v option) option \<Rightarrow> 'v \<Rightarrow> 'v option" where
  "dup_value dup v = (case dup of None \<Rightarrow> Some v | Some d \<Rightarrow> d v)"

lemma add_tail_ok:
  assumes "dlist h l xs" and "a \<noteq> 0" "a \<notin> addrs xs" and "length xs + 1 < 2 ^ 64"
  shows "\<exists>h' l'. listAddNodeTail a junk h l v = Some (Some (h', l')) \<and> dlist h' l' (xs @ [(a, v)]) \<and>
    (\<forall>b. b \<noteq> a \<and> b \<notin> addrs xs \<longrightarrow> h' b = h b)"
proof -
  have "dlist (new_node junk h a v) l xs" by (rule dlist_frame [OF assms(1)]) (use assms in \<open>auto simp: new_node_def\<close>)
  from link_tail_ok [OF this assms(2,3), of "junk\<lparr>node_value := v\<rparr>"] assms(2,4) show ?thesis
    by (auto simp: listAddNodeTail_def new_node_def)
qed

lemma add_head_ok:
  assumes "dlist h l xs" and "a \<noteq> 0" "a \<notin> addrs xs" and "length xs + 1 < 2 ^ 64"
  shows "\<exists>h' l'. listAddNodeHead a junk h l v = Some (Some (h', l')) \<and> dlist h' l' ((a, v) # xs) \<and>
    (\<forall>b. b \<noteq> a \<and> b \<notin> addrs xs \<longrightarrow> h' b = h b)"
proof -
  have "dlist (new_node junk h a v) l xs" by (rule dlist_frame [OF assms(1)]) (use assms in \<open>auto simp: new_node_def\<close>)
  from link_head_ok [OF this assms(2,3), of "junk\<lparr>node_value := v\<rparr>"] assms(2,4) show ?thesis
    by (auto simp: listAddNodeHead_def new_node_def)
qed

lemma dup_loop_ok:
  assumes "dseg h p ys 0" and "dlist h copy zs" and "addrs zs \<inter> addrs ys = {}"
    and "distinct as" "0 \<notin> set as" "set as \<inter> (addrs ys \<union> addrs zs) = {}" "length ys \<le> length as"
    and "length zs + length ys < 2 ^ 64" and "\<forall>v \<in> snd ` set ys. dup_value dup v = Some (f v)"
  shows "\<exists>h' copy'. listDup_loop dup junk as h copy \<lparr>iter_next = nxt ys 0, from_head = True\<rparr> = Some (h', Some copy', []) \<and>
    dlist h' copy' (zs @ zip as (map (f \<circ> snd) ys)) \<and> (\<forall>b. b \<notin> set as \<union> addrs zs \<longrightarrow> h' b = h b)"
  using assms
proof (induction ys arbitrary: h p copy zs as)
  case Nil
  then show ?case by (subst listDup_loop.simps) (simp add: listNext_def)
next
  case (Cons y ys)
  obtain b w where y: "y = (b, w)" by (cases y)
  obtain a as' where as: "as = a # as'" using Cons.prems(7) by (cases as) auto
  have a: "a \<noteq> 0" "a \<notin> addrs zs" "a \<notin> addrs ys" "a \<noteq> b" using Cons.prems(5,6) as y by auto
  have b: "h b = Some \<lparr>node_prev = p, node_next = nxt ys 0, node_value = w\<rparr>" "b \<noteq> 0" "dseg h b ys 0"
    using Cons.prems(1) y by auto
  have zs1: "length zs + 1 < 2 ^ 64" using Cons.prems(8) by simp
  obtain h1 l1 where A: "listAddNodeTail a junk h copy (f w) = Some (Some (h1, l1))" "dlist h1 l1 (zs @ [(a, f w)])"
    "\<forall>c. c \<noteq> a \<and> c \<notin> addrs zs \<longrightarrow> h1 c = h c"
    using add_tail_ok [OF Cons.prems(2) a(1,2) zs1] by blast
  have seg: "dseg h1 b ys 0" by (rule dseg_frame [OF b(3)]) (use A(3) a Cons.prems(3) y in auto)
  have "\<exists>h' copy'. listDup_loop dup junk as' h1 l1 \<lparr>iter_next = nxt ys 0, from_head = True\<rparr> = Some (h', Some copy', []) \<and>
    dlist h' copy' ((zs @ [(a, f w)]) @ zip as' (map (f \<circ> snd) ys)) \<and> (\<forall>b. b \<notin> set as' \<union> addrs (zs @ [(a, f w)]) \<longrightarrow> h' b = h1 b)"
    by (rule Cons.IH [OF seg A(2)]) (use Cons.prems(3-9) as y a in auto)
  then obtain h' copy' where R: "listDup_loop dup junk as' h1 l1 \<lparr>iter_next = nxt ys 0, from_head = True\<rparr> = Some (h', Some copy', [])"
    "dlist h' copy' ((zs @ [(a, f w)]) @ zip as' (map (f \<circ> snd) ys))" "\<forall>b. b \<notin> set as' \<union> addrs (zs @ [(a, f w)]) \<longrightarrow> h' b = h1 b"
    by blast
  have d: "(case dup of None \<Rightarrow> Some w | Some d \<Rightarrow> d w) = Some (f w)"
    using Cons.prems(9) y by (simp add: dup_value_def)
  have "listDup_loop dup junk as h copy \<lparr>iter_next = nxt (y # ys) 0, from_head = True\<rparr> = Some (h', Some copy', [])"
    using b as y A(1) R(1) d by (subst listDup_loop.simps) (cases dup; simp add: listNext_def node_at_def Let_def)
  moreover have "\<forall>c. c \<notin> set as \<union> addrs zs \<longrightarrow> h' c = h c" using R(3) A(3) as by auto
  ultimately show ?case using R(2) as y by (auto simp: comp_def)
qed

lemma listDup_ok:
  assumes dl: "dlist h orig xs" and "distinct as" "0 \<notin> set as" "set as \<inter> addrs xs = {}" "length xs \<le> length as"
    and "\<forall>v \<in> snd ` set xs. dup_value dup v = Some (f v)"
  shows "\<exists>h' copy. listDup True dup junk as h orig = Some (h', Some copy, []) \<and> dlist h' copy (zip as (map (f \<circ> snd) xs)) \<and> dlist h' orig xs"
proof -
  obtain l where l: "listCreate True = Some l" by (simp add: listCreate_def)
  obtain h' copy where R: "listDup True dup junk as h orig = Some (h', Some copy, [])" "dlist h' copy (zip as (map (f \<circ> snd) xs))"
    "\<forall>b. b \<notin> set as \<longrightarrow> h' b = h b"
    using dup_loop_ok [OF dlistD(2) [OF dl] dlist_create [OF l], of as dup f junk] assms dlistD(3,6) [OF dl] l
    by (auto simp: listDup_def listRewind_def)
  moreover have "dlist h' orig xs" by (rule dlist_frame [OF dl]) (use R(3) assms(4) in auto)
  ultimately show ?thesis by blast
qed

end
