(* ===== verification/Lzf.thy ===== *)
theory Lzf
  imports Buffer
begin

text \<open>
  The LZF compressor and decompressor of the corpus, \<open>src/bench/redis-src/lzf_c.c\<close> and
  \<open>src/bench/redis-src/lzf_d.c\<close>, in the configuration of \<open>lzfP.h\<close>: \<open>VERY_FAST\<close>, \<open>CHECK_INPUT\<close>, an
  uninitialised hash table of pointers and unaligned 16-bit loads. Positions are offsets from
  \<open>in_data\<close> and \<open>out_data\<close>. The hash table is a function from slots to offsets, arbitrary at the start:
  it holds whatever the stack held. A read or write outside of a buffer is a fault (\<open>None\<close>).
\<close>

section \<open>Compression\<close>

definition HLOG :: nat where "HLOG = 16"
definition MAX_LIT :: nat where "MAX_LIT = 32"
definition MAX_OFF :: int where "MAX_OFF = 8192"
definition MAX_REF :: nat where "MAX_REF = 264"

definition rd :: "u8 list \<Rightarrow> nat \<Rightarrow> u8 option" where
  "rd xs i = (if i < length xs then Some (xs ! i) else None)"

definition FRST :: "u8 list \<Rightarrow> nat \<Rightarrow> u32 option" where
  "FRST inp p = do { a \<leftarrow> rd inp p; b \<leftarrow> rd inp (p + 1); Some (push_bit 8 (ucast a) OR ucast b) }"

definition NEXT :: "u8 list \<Rightarrow> u32 \<Rightarrow> nat \<Rightarrow> u32 option" where
  "NEXT inp v p = do { c \<leftarrow> rd inp (p + 2); Some (push_bit 8 v OR ucast c) }"

definition IDX :: "u32 \<Rightarrow> u32" where
  "IDX h = (drop_bit (3 * 8 - HLOG) h - h * 5) AND (2 ^ HLOG - 1)"

type_synonym htab = "u32 \<Rightarrow> int"

text \<open>The sixteen unrolled comparisons; the flag says whether one of them left the loop.\<close>

fun match16 :: "u8 list \<Rightarrow> nat \<Rightarrow> nat \<Rightarrow> nat \<Rightarrow> nat \<Rightarrow> (bool \<times> nat) option" where
  "match16 inp ref ip 0 len = Some (False, len)"
| "match16 inp ref ip (Suc n) len =
     do {
       a \<leftarrow> rd inp (ref + (len + 1));
       b \<leftarrow> rd inp (ip + (len + 1));
       if a \<noteq> b then Some (True, len + 1) else match16 inp ref ip n (len + 1)
     }"

function match_more :: "u8 list \<Rightarrow> nat \<Rightarrow> nat \<Rightarrow> nat \<Rightarrow> nat \<Rightarrow> nat option" where
  "match_more inp ref ip maxlen len =
     (let len' = len + 1 in
      if len' < maxlen then
        do {
          a \<leftarrow> rd inp (ref + len');
          b \<leftarrow> rd inp (ip + len');
          if a = b then match_more inp ref ip maxlen len' else Some len'
        }
      else Some len')"
  by auto
termination by (relation "measure (\<lambda>(_, _, _, maxlen, len). maxlen - len)") auto

declare match_more.simps [simp del]

text \<open>The number of octets that match, from the first three that are known to.\<close>

definition match_len :: "u8 list \<Rightarrow> nat \<Rightarrow> nat \<Rightarrow> nat option" where
  "match_len inp ref ip =
     (let maxlen = min MAX_REF (length inp - ip - 2) in
      do {
        (broke, len) \<leftarrow> (if maxlen > 16 then match16 inp ref ip 16 2 else Some (False, 2));
        if broke then Some len else match_more inp ref ip maxlen len
      })"

text \<open>The bytes of a back reference to \<open>off + 1\<close> octets before, of \<open>len + 2\<close> octets.\<close>

definition ref_bytes :: "nat \<Rightarrow> nat \<Rightarrow> u8 list" where
  "ref_bytes off len =
     (if len < 7 then [of_nat (off div 256) + push_bit 5 (of_nat len)]
      else [of_nat (off div 256) + push_bit 5 7, of_nat (len - 7)]) @ [of_nat off]"

definition is_match :: "u8 list \<Rightarrow> nat \<Rightarrow> int \<Rightarrow> bool option" where
  "is_match inp ip ref =
     (let off = int ip - ref - 1 in
      if 0 \<le> off \<and> off < MAX_OFF \<and> ref > 0 then
        do {
          r2 \<leftarrow> rd inp (nat ref + 2); i2 \<leftarrow> rd inp (ip + 2);
          if r2 = i2 then
            do {
              r0 \<leftarrow> rd inp (nat ref); r1 \<leftarrow> rd inp (nat ref + 1);
              i0 \<leftarrow> rd inp ip; i1 \<leftarrow> rd inp (ip + 1);
              Some (r0 = i0 \<and> r1 = i1)
            }
          else Some False
        }
      else Some False)"

text \<open>Ending a run of literals: \<open>op[-lit-1] = lit - 1\<close>.\<close>

definition stop_run :: "u8 list \<Rightarrow> nat \<Rightarrow> nat \<Rightarrow> u8 list option" where
  "stop_run out op lit = bwrite out (int op - int lit - 1) [of_int (int lit - 1)]"

text \<open>One literal byte, which starts a new run when the current one is full.\<close>

definition put_literal :: "u8 list \<Rightarrow> nat \<Rightarrow> nat \<Rightarrow> nat \<Rightarrow> u8 list \<Rightarrow> (nat \<times> nat \<times> u8 list) option" where
  "put_literal inp ip op lit out =
     do {
       c \<leftarrow> rd inp ip;
       out \<leftarrow> bwrite out (int op) [c];
       let op = op + 1;
       let lit = lit + 1;
       (if lit = MAX_LIT then do { out \<leftarrow> stop_run out op lit; Some (op + 1, 0, out) } else Some (op, lit, out))
     }"

text \<open>
  The main loop. \<open>Inl\<close> is \<open>return 0\<close>, with the buffer at that moment: the output does not fit;
  otherwise the result is \<open>ip\<close>, \<open>op\<close>, \<open>lit\<close> and the buffer when the loop is left.
\<close>

partial_function (option) lzf_loop ::
  "u8 list \<Rightarrow> nat \<Rightarrow> nat \<Rightarrow> nat \<Rightarrow> u32 \<Rightarrow> htab \<Rightarrow> u8 list \<Rightarrow> (u8 list + nat \<times> nat \<times> nat \<times> u8 list) option" where
  "lzf_loop inp ip op lit hval htab out =
     (if int ip < int (length inp) - 2 then
        do {
          hval \<leftarrow> NEXT inp hval ip;
          let ref = htab (IDX hval);
          let htab = htab(IDX hval := int ip);
          m \<leftarrow> is_match inp ip ref;
          (if m then
             (if op + 3 + 1 \<ge> length out \<and> op - (if lit = 0 then 1 else 0) + 3 + 1 \<ge> length out then Some (Inl out)
              else do {
                out \<leftarrow> stop_run out op lit;
                let op = op - (if lit = 0 then 1 else 0);
                len \<leftarrow> match_len inp (nat ref) ip;
                let bytes = ref_bytes (nat (int ip - ref - 1)) (len - 2);
                out \<leftarrow> bwrite out (int op) bytes;
                let op = op + length bytes + 1;
                let ip = ip + len;
                (if int ip \<ge> int (length inp) - 2 then Some (Inr (ip, op, 0, out))
                 else do {
                   hval \<leftarrow> FRST inp (ip - 2);
                   hval \<leftarrow> NEXT inp hval (ip - 2);
                   let htab = htab(IDX hval := int (ip - 2));
                   hval \<leftarrow> NEXT inp hval (ip - 1);
                   let htab = htab(IDX hval := int (ip - 1));
                   lzf_loop inp ip op 0 hval htab out
                 })
              })
           else if op \<ge> length out then Some (Inl out)
           else do {
             (op, lit, out) \<leftarrow> put_literal inp ip op lit out;
             lzf_loop inp (ip + 1) op lit hval htab out
           })
        }
      else Some (Inr (ip, op, lit, out)))"

declare lzf_loop.simps [code]

text \<open>The literals that remain at the end.\<close>

function lzf_rest :: "u8 list \<Rightarrow> nat \<Rightarrow> nat \<Rightarrow> nat \<Rightarrow> u8 list \<Rightarrow> (nat \<times> nat \<times> u8 list) option" where
  "lzf_rest inp ip op lit out =
     (if ip < length inp then
        put_literal inp ip op lit out \<bind> (\<lambda>(op, lit, out). lzf_rest inp (ip + 1) op lit out)
      else Some (op, lit, out))"
  by auto
termination by (relation "measure (\<lambda>(inp, ip, _). length inp - ip)") auto

declare lzf_rest.simps [simp del]

text \<open>The result is the compressed length, 0 on failure, and the output buffer.\<close>

definition lzf_compress :: "htab \<Rightarrow> u8 list \<Rightarrow> u8 list \<Rightarrow> (nat \<times> u8 list) option" where
  "lzf_compress htab inp out =
     (if length inp = 0 \<or> length out = 0 then Some (0, out)
      else do {
        hval \<leftarrow> FRST inp 0;
        r \<leftarrow> lzf_loop inp 0 1 0 hval htab out;
        (case r of
           Inl out \<Rightarrow> Some (0, out)
         | Inr (ip, op, lit, out) \<Rightarrow>
             if op + 3 > length out then Some (0, out)
             else do {
               (op, lit, out) \<leftarrow> lzf_rest inp ip op lit out;
               out \<leftarrow> stop_run out op lit;
               Some (op - (if lit = 0 then 1 else 0), out)
             })
      })"

section \<open>Decompression\<close>

datatype lzf_error = E2BIG | EINVAL

text \<open>Copying octet by octet, where the areas may overlap.\<close>

fun copy_octets :: "u8 list \<Rightarrow> nat \<Rightarrow> nat \<Rightarrow> nat \<Rightarrow> u8 list option" where
  "copy_octets out op ref 0 = Some out"
| "copy_octets out op ref (Suc n) =
     do { c \<leftarrow> rd out ref; out \<leftarrow> bwrite out (int op) [c]; copy_octets out (op + 1) (ref + 1) n }"

definition copy_ref :: "u8 list \<Rightarrow> nat \<Rightarrow> nat \<Rightarrow> nat \<Rightarrow> u8 list option" where
  "copy_ref out op ref len =
     (if len \<le> 9 then copy_octets out op ref (len + 2)
      else if op \<ge> ref + (len + 2) then bmove out (int op) (int ref) (len + 2)
      else copy_octets out op ref (len + 2))"

text \<open>The rest of a back reference: its length, the low byte of its offset and the next position.\<close>

definition ref_args :: "u8 list \<Rightarrow> nat \<Rightarrow> nat \<Rightarrow> (lzf_error + nat \<times> nat \<times> nat) option" where
  "ref_args inp ip ctrl =
     (let len = ctrl div 32 in
      if ip \<ge> length inp then Some (Inl EINVAL)
      else if len = 7 then
        do {
          l \<leftarrow> rd inp ip;
          (if ip + 1 \<ge> length inp then Some (Inl EINVAL)
           else do { c \<leftarrow> rd inp (ip + 1); Some (Inr (len + unat l, unat c, ip + 2)) })
        }
      else do { c \<leftarrow> rd inp ip; Some (Inr (len, unat c, ip + 1)) })"

definition back_ref :: "u8 list \<Rightarrow> nat \<Rightarrow> nat \<Rightarrow> nat \<Rightarrow> nat \<Rightarrow> (lzf_error + u8 list) option" where
  "back_ref out op hi lo len =
     (let ref = int op - int (hi * 256) - 1 - int lo in
      if op + len + 2 > length out then Some (Inl E2BIG)
      else if ref < 0 then Some (Inl EINVAL)
      else map_option Inr (copy_ref out op (nat ref) len))"

text \<open>The result is the error or the decompressed length, and the output buffer.\<close>

partial_function (option) lzf_d_loop ::
  "u8 list \<Rightarrow> nat \<Rightarrow> nat \<Rightarrow> u8 list \<Rightarrow> ((lzf_error + nat) \<times> u8 list) option" where
  "lzf_d_loop inp ip op out =
     (if ip < length inp then
        do {
          c \<leftarrow> rd inp ip;
          let ctrl = unat c;
          let ip = ip + 1;
          (if ctrl < 32 then
             let n = ctrl + 1 in
             if op + n > length out then Some (Inl E2BIG, out)
             else if ip + n > length inp then Some (Inl EINVAL, out)
             else do {
               xs \<leftarrow> bread inp (int ip) n;
               out \<leftarrow> bwrite out (int op) xs;
               lzf_d_loop inp (ip + n) (op + n) out
             }
           else do {
             a \<leftarrow> ref_args inp ip ctrl;
             (case a of
                Inl e \<Rightarrow> Some (Inl e, out)
              | Inr (len, lo, ip) \<Rightarrow>
                  do {
                    r \<leftarrow> back_ref out op (ctrl mod 32) lo len;
                    (case r of
                       Inl e \<Rightarrow> Some (Inl e, out)
                     | Inr out \<Rightarrow> lzf_d_loop inp ip (op + (len + 2)) out)
                  })
           })
        }
      else Some (Inr op, out))"

declare lzf_d_loop.simps [code]

definition lzf_decompress :: "u8 list \<Rightarrow> u8 list \<Rightarrow> ((lzf_error + nat) \<times> u8 list) option" where
  "lzf_decompress inp out = lzf_d_loop inp 0 0 out"

end
