(* ===== verification/Lzf_Roundtrip.thy ===== *)
theory Lzf_Roundtrip
  imports Lzf
begin

text \<open>
  The compressed format as an inductive relation between a text \<open>D\<close>, a string of tokens and the part
  of \<open>D\<close> they stand for; the compressor produces such a string for any contents of its hash table, and
  the decompressor turns every such string back into \<open>D\<close>.
\<close>

section \<open>Format\<close>

inductive lzf_enc :: "u8 list \<Rightarrow> nat \<Rightarrow> u8 list \<Rightarrow> nat \<Rightarrow> bool" for D where
  enc_nil: "k \<le> length D \<Longrightarrow> lzf_enc D k [] k"
| enc_lit: "1 \<le> n \<Longrightarrow> n \<le> 32 \<Longrightarrow> k + n \<le> length D \<Longrightarrow> lzf_enc D (k + n) cs m \<Longrightarrow>
    lzf_enc D k (of_nat (n - 1) # take n (drop k D) @ cs) m"
| enc_ref: "1 \<le> len \<Longrightarrow> len \<le> 262 \<Longrightarrow> off < 8192 \<Longrightarrow> off + 1 \<le> k \<Longrightarrow> k + (len + 2) \<le> length D \<Longrightarrow>
    \<forall>i < len + 2. D ! (k + i) = D ! (k - off - 1 + i) \<Longrightarrow> lzf_enc D (k + (len + 2)) cs m \<Longrightarrow>
    lzf_enc D k (ref_bytes off len @ cs) m"

lemma lzf_enc_append: "lzf_enc D a cs b \<Longrightarrow> lzf_enc D b ds c \<Longrightarrow> lzf_enc D a (cs @ ds) c"
proof (induction rule: lzf_enc.induct)
  case (enc_lit n k cs m)
  then show ?case using lzf_enc.enc_lit [of n k D "cs @ ds" c] by simp
next
  case (enc_ref len off k cs m)
  then show ?case using lzf_enc.enc_ref [of len off k D "cs @ ds" c] by simp
qed simp

lemma lzf_enc_le: "lzf_enc D a cs b \<Longrightarrow> b \<le> length D"
  by (induction rule: lzf_enc.induct) auto

section \<open>Decompression\<close>

lemma take_snoc:
  assumes "take k out = take k D" and "k < length out" and "k < length D"
  shows "take (k + 1) (out[k := D ! k]) = take (k + 1) D"
  using assms by (simp add: take_Suc_conv_app_nth)

lemma bwrite_1: "k < length out \<Longrightarrow> bwrite out (int k) [c] = Some (out[k := c])"
  by (simp add: bwrite_nat upd_conv_take_nth_drop)

lemma copy_octets_ok:
  assumes "take op out = take op D" and "op + n \<le> length out" and "op + n \<le> length D" and "ref < op"
    and "\<forall>i < n. D ! (op + i) = D ! (ref + i)"
  shows "\<exists>out'. copy_octets out op ref n = Some out' \<and> length out' = length out \<and> take (op + n) out' = take (op + n) D"
  using assms
proof (induction n arbitrary: op ref out)
  case (Suc n)
  have "out ! ref = D ! ref" using Suc.prems(1,4) by (metis nth_take)
  also have "\<dots> = D ! op" using Suc.prems(5) [rule_format, of 0] by simp
  finally have c: "rd out ref = Some (D ! op)" using Suc.prems(2,4) by (simp add: rd_def)
  have w: "bwrite out (int op) [D ! op] = Some (out[op := D ! op])" using Suc.prems(2) by (intro bwrite_1) simp
  have "\<exists>out'. copy_octets (out[op := D ! op]) (op + 1) (ref + 1) n = Some out' \<and> length out' = length (out[op := D ! op]) \<and>
      take (op + 1 + n) out' = take (op + 1 + n) D"
  proof (rule Suc.IH)
    show "take (op + 1) (out[op := D ! op]) = take (op + 1) D" using Suc.prems by (intro take_snoc) auto
    show "\<forall>i < n. D ! (op + 1 + i) = D ! (ref + 1 + i)"
      using Suc.prems(5) by (metis add.assoc add_Suc_right plus_1_eq_Suc Suc_less_eq)
  qed (use Suc.prems in auto)
  then show ?case using c w by simp
qed auto

lemma copy_ref_ok:
  assumes "take op out = take op D" and "op + (len + 2) \<le> length out" and "op + (len + 2) \<le> length D" and "ref < op"
    and eq: "\<forall>i < len + 2. D ! (op + i) = D ! (ref + i)"
  shows "\<exists>out'. copy_ref out op ref len = Some out' \<and> length out' = length out \<and> take (op + (len + 2)) out' = take (op + (len + 2)) D"
proof (cases "len \<le> 9 \<or> op < ref + (len + 2)")
  case True
  then show ?thesis using copy_octets_ok [OF assms(1-5)] by (auto simp: copy_ref_def)
next
  case False
  define xs where "xs = take (len + 2) (drop op D)"
  have "take (len + 2) (drop ref out) = take (len + 2) (drop ref (take op out))" using False by (auto simp: drop_take min_def)
  also have "\<dots> = take (len + 2) (drop ref D)" using False assms(1) by (auto simp: drop_take min_def)
  also have "\<dots> = xs" using eq assms(2-) False by (intro nth_equalityI) (auto simp: xs_def)
  finally have "bread out (int ref) (len + 2) = Some xs" using False assms(2) by (simp add: bread_nat)
  moreover have "length xs = len + 2" using assms(3) by (simp add: xs_def)
  moreover have "bwrite out (int op) xs = Some (take op out @ xs @ drop (op + (len + 2)) out)"
    using assms(2) \<open>length xs = len + 2\<close> by (simp add: bwrite_nat)
  moreover have "take op D @ xs = take (op + (len + 2)) D" by (simp only: xs_def take_add)
  ultimately show ?thesis using False assms(1-3) by (simp add: copy_ref_def bmove_def)
qed

lemma unat_of_nat_u8: "n < 256 \<Longrightarrow> unat (of_nat n :: u8) = n"
  by (simp add: unsigned_of_nat take_bit_nat_eq_self)

lemma unat_of_nat_u8_mod: "unat (of_nat n :: u8) = n mod 256"
  by (simp add: unsigned_of_nat take_bit_eq_mod)

lemma ref_ctrl:
  assumes "h < 32" and "l < 8"
  shows "unat (of_nat h + push_bit 5 (of_nat l) :: u8) = h + 32 * l"
proof -
  have "of_nat h + push_bit 5 (of_nat l) = (of_nat (h + 32 * l) :: u8)" by (simp add: push_bit_eq_mult)
  moreover have "h + 32 * l < 256" using assms by simp
  ultimately show ?thesis by (simp only: unat_of_nat_u8)
qed

lemma ref_args_ok:
  assumes "1 \<le> len" "len \<le> 262" "off < 8192" and inp: "inp = pre @ ref_bytes off len @ cs"
  shows "\<exists>c. rd inp (length pre) = Some c \<and> 32 \<le> unat c \<and> unat c mod 32 = off div 256 \<and>
    ref_args inp (length pre + 1) (unat c) = Some (Inr (len, off mod 256, length (pre @ ref_bytes off len)))"
proof -
  have o: "off div 256 < 32" using assms(3) by simp
  show ?thesis
  proof (cases "len < 7")
    case True
    let ?c = "of_nat (off div 256) + push_bit 5 (of_nat len) :: u8"
    have c: "unat ?c = off div 256 + 32 * len" using ref_ctrl [OF o, of len] True by simp
    have rb: "ref_bytes off len = [?c, of_nat off]" using True by (simp add: ref_bytes_def)
    have d: "(off div 256 + 32 * len) div 32 = len" "(off div 256 + 32 * len) mod 32 = off div 256" using o by simp_all
    have "rd inp (length pre) = Some ?c" "rd inp (length pre + 1) = Some (of_nat off)" "length pre + 1 < length inp"
      using inp rb by (simp_all add: rd_def nth_append)
    then show ?thesis using True c d assms(1) rb by (simp add: ref_args_def Let_def unat_of_nat_u8_mod)
  next
    case False
    define c :: u8 where "c = of_nat (off div 256) + push_bit 5 7"
    define l :: u8 where "l = of_nat (len - 7)"
    have c: "unat c = off div 256 + 32 * 7" using ref_ctrl [OF o, of 7] by (simp add: c_def)
    have l: "unat l = len - 7" unfolding l_def using assms(2) by (intro unat_of_nat_u8) simp
    have rb: "ref_bytes off len = [c, l, of_nat off]" using False by (simp add: ref_bytes_def c_def l_def)
    have e: "(off div 256 + 32 * l) div 32 = l" "(off div 256 + 32 * l) mod 32 = off div 256" for l using o by simp_all
    have d: "unat c div 32 = 7" "unat c mod 32 = off div 256" unfolding c by (rule e)+
    have "32 \<le> unat c" using c by simp
    moreover have "rd inp (length pre) = Some c" "rd inp (length pre + 1) = Some l"
      "rd inp (length pre + 1 + 1) = Some (of_nat off)" "length pre + 1 + 1 < length inp"
      using inp rb by (simp_all add: rd_def nth_append)
    ultimately show ?thesis using False d l rb by (simp add: ref_args_def Let_def unat_of_nat_u8_mod)
  qed
qed

lemma decompress_ok:
  assumes "lzf_enc D k cs m" and "inp = pre @ cs" and "take k out = take k D" and "length D \<le> length out"
  shows "\<exists>out'. lzf_d_loop inp (length pre) k out = Some (Inr m, out') \<and> length out' = length out \<and> take m out' = take m D"
  using assms
proof (induction arbitrary: pre out rule: lzf_enc.induct)
  case (enc_nil k)
  then show ?case by (subst lzf_d_loop.simps) simp
next
  case (enc_lit n k cs m)
  have n: "unat (of_nat (n - 1) :: u8) = n - 1" using enc_lit.hyps by (intro unat_of_nat_u8) simp
  define xs where "xs = take n (drop k D)"
  have xs: "length xs = n" using enc_lit.hyps by (simp add: xs_def)
  define out1 where "out1 = take k out @ xs @ drop (k + n) out"
  have w: "bwrite out (int k) xs = Some out1" using xs enc_lit.hyps enc_lit.prems by (simp add: bwrite_nat out1_def)
  have r: "bread inp (int (length pre + 1)) n = Some xs"
  proof -
    have inp: "inp = (pre @ [of_nat (n - 1)]) @ xs @ cs" using enc_lit.prems(1) by (simp add: xs_def)
    show ?thesis unfolding inp by (rule bread_append [where k = "length pre + 1"]) (simp_all add: xs)
  qed
  have t: "take (k + n) out1 = take (k + n) D"
    using xs enc_lit.hyps enc_lit.prems by (simp add: out1_def xs_def take_add)
  have l: "length out1 = length out" using xs enc_lit.hyps enc_lit.prems by (simp add: out1_def)
  have "n - 1 < 32" using enc_lit.hyps(2) by simp
  then have step: "lzf_d_loop inp (length pre) k out = lzf_d_loop inp (length pre + 1 + n) (k + n) out1"
    using enc_lit.hyps enc_lit.prems n w r xs
    by (subst lzf_d_loop.simps) (simp add: rd_def nth_append Let_def xs_def [symmetric])
  have "\<exists>out'. lzf_d_loop inp (length (pre @ of_nat (n - 1) # xs)) (k + n) out1 = Some (Inr m, out') \<and>
      length out' = length out1 \<and> take m out' = take m D"
    by (rule enc_lit.IH) (use enc_lit.prems t l in \<open>simp_all add: xs_def\<close>)
  then show ?case using step l xs by simp
next
  case (enc_ref len off k cs m)
  obtain c where c: "rd inp (length pre) = Some c" "32 \<le> unat c" "unat c mod 32 = off div 256"
    "ref_args inp (length pre + 1) (unat c) = Some (Inr (len, off mod 256, length (pre @ ref_bytes off len)))"
    using ref_args_ok [OF enc_ref.hyps(1-3), of inp pre cs] enc_ref.prems(1) by auto
  have ref: "int k - int (off div 256 * 256) - 1 - int (off mod 256) = int (k - off - 1)"
    using enc_ref.hyps(4) div_mult_mod_eq [of off 256] by linarith
  obtain out1 where out1: "copy_ref out k (k - off - 1) len = Some out1" "length out1 = length out"
    "take (k + (len + 2)) out1 = take (k + (len + 2)) D"
    using copy_ref_ok [of k out D len "k - off - 1"] enc_ref.hyps enc_ref.prems by auto
  have b: "back_ref out k (off div 256) (off mod 256) len = Some (Inr out1)"
    using out1(1) enc_ref.hyps(5) enc_ref.prems(3) by (simp only: back_ref_def Let_def ref) simp
  have "length pre < length inp" using c(1) by (auto simp: rd_def split: if_splits)
  then have step: "lzf_d_loop inp (length pre) k out =
      lzf_d_loop inp (length (pre @ ref_bytes off len)) (k + (len + 2)) out1"
    using c b by (subst lzf_d_loop.simps) (simp add: Let_def)
  have "\<exists>out'. lzf_d_loop inp (length (pre @ ref_bytes off len)) (k + (len + 2)) out1 = Some (Inr m, out') \<and>
      length out' = length out1 \<and> take m out' = take m D"
    by (rule enc_ref.IH) (use enc_ref.prems out1 in simp_all)
  then show ?case using step out1(2) by simp
qed

section \<open>Finding a match\<close>

lemma match16_ok:
  assumes "\<forall>i \<le> len. D ! (ref + i) = D ! (ip + i)" and "ref < ip" and "ip + len + n < length D"
  shows "\<exists>b l. match16 D ref ip n len = Some (b, l) \<and> len \<le> l \<and> l \<le> len + n \<and>
    (if b then len < l \<and> (\<forall>i < l. D ! (ref + i) = D ! (ip + i)) else l = len + n \<and> (\<forall>i \<le> l. D ! (ref + i) = D ! (ip + i)))"
  using assms
proof (induction n arbitrary: len)
  case (Suc n)
  have r: "rd D (ref + (len + 1)) = Some (D ! (ref + (len + 1)))" "rd D (ip + (len + 1)) = Some (D ! (ip + (len + 1)))"
    using Suc.prems by (simp_all add: rd_def)
  show ?case
  proof (cases "D ! (ref + (len + 1)) = D ! (ip + (len + 1))")
    case True
    then have "\<forall>i \<le> len + 1. D ! (ref + i) = D ! (ip + i)" using Suc.prems(1) by (auto simp: le_Suc_eq)
    then have "\<exists>b l. match16 D ref ip n (len + 1) = Some (b, l) \<and> len + 1 \<le> l \<and> l \<le> len + 1 + n \<and>
      (if b then len + 1 < l \<and> (\<forall>i < l. D ! (ref + i) = D ! (ip + i)) else l = len + 1 + n \<and> (\<forall>i \<le> l. D ! (ref + i) = D ! (ip + i)))"
      using Suc.prems by (intro Suc.IH) auto
    then show ?thesis using r True by (auto split: if_splits)
  next
    case False
    then show ?thesis using r Suc.prems(1) by auto
  qed
qed auto

lemma match_more_ok:
  assumes "\<forall>i \<le> len. D ! (ref + i) = D ! (ip + i)" and "ref < ip" and "ip + maxlen \<le> length D"
  shows "\<exists>l. match_more D ref ip maxlen len = Some l \<and> len < l \<and> l \<le> max (len + 1) maxlen \<and> (\<forall>i < l. D ! (ref + i) = D ! (ip + i))"
  using assms
proof (induction "maxlen - len" arbitrary: len)
  case 0
  then show ?case by (subst match_more.simps) (auto simp: Let_def)
next
  case (Suc k)
  show ?case
  proof (cases "len + 1 < maxlen")
    case True
    then have r: "rd D (ref + (len + 1)) = Some (D ! (ref + (len + 1)))" "rd D (ip + (len + 1)) = Some (D ! (ip + (len + 1)))"
      using Suc.prems by (simp_all add: rd_def)
    show ?thesis
    proof (cases "D ! (ref + (len + 1)) = D ! (ip + (len + 1))")
      case eq: True
      then have "\<forall>i \<le> len + 1. D ! (ref + i) = D ! (ip + i)" using Suc.prems(1) by (auto simp: le_Suc_eq)
      then have "\<exists>l. match_more D ref ip maxlen (len + 1) = Some l \<and> len + 1 < l \<and> l \<le> max (len + 1 + 1) maxlen \<and>
          (\<forall>i < l. D ! (ref + i) = D ! (ip + i))"
        using Suc by (intro Suc.hyps(1)) auto
      moreover have "match_more D ref ip maxlen len = match_more D ref ip maxlen (len + 1)"
        using True r eq by (subst match_more.simps) (simp add: Let_def)
      ultimately show ?thesis using True by (auto simp: max_def split: if_splits)
    next
      case False
      then show ?thesis using True r Suc.prems(1) by (subst match_more.simps) (auto simp: Let_def)
    qed
  next
    case False
    then show ?thesis using Suc.prems(1) by (subst match_more.simps) (auto simp: Let_def)
  qed
qed

lemma match_len_ok:
  assumes "\<forall>i < 3. D ! (ref + i) = D ! (ip + i)" and "ref < ip" and "ip + 2 < length D"
  shows "\<exists>l. match_len D ref ip = Some l \<and> 3 \<le> l \<and> l \<le> 264 \<and> ip + l \<le> length D \<and> (\<forall>i < l. D ! (ref + i) = D ! (ip + i))"
proof -
  define maxlen where "maxlen = min MAX_REF (length D - ip - 2)"
  have m: "maxlen \<le> 264" "ip + maxlen + 2 \<le> length D" using assms(3) by (auto simp: maxlen_def MAX_REF_def)
  have three: "\<forall>i \<le> 2. D ! (ref + i) = D ! (ip + i)" using assms(1) by auto
  have eval: "match_len D ref ip =
      do {
        (broke, len) \<leftarrow> (if maxlen > 16 then match16 D ref ip 16 2 else Some (False, 2));
        if broke then Some len else match_more D ref ip maxlen len
      }"
    by (simp only: match_len_def Let_def maxlen_def)
  show ?thesis
  proof (cases "maxlen > 16")
    case False
    then show ?thesis
      using match_more_ok [OF three assms(2), of maxlen] m assms(3) by (auto simp: eval max_def split: if_splits)
  next
    case True
    obtain b l where bl: "match16 D ref ip 16 2 = Some (b, l)" "2 \<le> l" "l \<le> 18"
      "if b then 2 < l \<and> (\<forall>i < l. D ! (ref + i) = D ! (ip + i)) else l = 18 \<and> (\<forall>i \<le> l. D ! (ref + i) = D ! (ip + i))"
      using match16_ok [OF three assms(2), of 16] True m by auto
    show ?thesis
    proof (cases b)
      case B: True
      then show ?thesis using bl m True by (auto simp: eval)
    next
      case B: False
      then have "\<forall>i \<le> 18. D ! (ref + i) = D ! (ip + i)" using bl by auto
      from match_more_ok [OF this assms(2), of maxlen] obtain k where
        "match_more D ref ip maxlen 18 = Some k" "18 < k" "k \<le> max 19 maxlen" "\<forall>i < k. D ! (ref + i) = D ! (ip + i)"
        using m by auto
      then show ?thesis using bl B m True by (auto simp: eval max_def split: if_splits)
    qed
  qed
qed

lemma is_match_ok:
  assumes "ip + 2 < length D"
  shows "\<exists>m. is_match D ip ref = Some m \<and>
    (m \<longrightarrow> 0 < ref \<and> nat ref < ip \<and> ip - nat ref - 1 < 8192 \<and> (\<forall>i < 3. D ! (nat ref + i) = D ! (ip + i)))"
proof (cases "0 \<le> int ip - ref - 1 \<and> int ip - ref - 1 < MAX_OFF \<and> ref > 0")
  case True
  then have r: "nat ref + 2 < length D" "nat ref < ip" "ip - nat ref - 1 < 8192"
    using assms by (auto simp: MAX_OFF_def nat_less_iff)
  have three: "(\<forall>i < 3. P i) \<longleftrightarrow> P 0 \<and> P 1 \<and> P (2 :: nat)" for P
    by (metis One_nat_def less_2_cases_iff less_Suc_eq numeral_2_eq_2 numeral_3_eq_3)
  have "is_match D ip ref = Some (D ! (nat ref + 2) = D ! (ip + 2) \<and> D ! nat ref = D ! ip \<and> D ! (nat ref + 1) = D ! (ip + 1))"
    using True assms r by (simp add: is_match_def rd_def Let_def)
  then show ?thesis using True r unfolding three by auto
qed (auto simp: is_match_def Let_def)

section \<open>Compression\<close>

text \<open>
  The state of the compressor: the first \<open>b\<close> bytes of the output encode the first \<open>k\<close> bytes of the text,
  one byte is reserved for the length of the current run, and the run holds the next \<open>lit\<close> bytes.
\<close>

definition running :: "u8 list \<Rightarrow> nat \<Rightarrow> nat \<Rightarrow> nat \<Rightarrow> u8 list \<Rightarrow> bool" where
  "running D k b lit out \<longleftrightarrow> lzf_enc D 0 (take b out) k \<and> b \<le> length out \<and> lit < 32 \<and> k + lit \<le> length D \<and>
     (0 < lit \<longrightarrow> b + 1 + lit \<le> length out) \<and> take lit (drop (b + 1) out) = take lit (drop k D)"

lemma stop_run_lit:
  assumes run: "lzf_enc D 0 (take b out) k" and lit: "1 \<le> lit" "lit \<le> 32" "k + lit \<le> length D" "b + 1 + lit \<le> length out"
    and eq: "take lit (drop (b + 1) out) = take lit (drop k D)"
  obtains out' where "stop_run out (b + lit + 1) lit = Some out'" "length out' = length out"
    "lzf_enc D 0 (take (b + lit + 1) out') (k + lit)"
proof -
  let ?out = "out[b := of_nat (lit - 1)]"
  have w: "stop_run out (b + lit + 1) lit = Some ?out"
    using lit bwrite_1 [of b out "of_nat (lit - 1)"] by (simp add: stop_run_def)
  have "take (b + lit + 1) ?out = take b out @ of_nat (lit - 1) # take lit (drop (b + 1) out)"
    using lit by (simp add: upd_conv_take_nth_drop)
  moreover have "lzf_enc D k (of_nat (lit - 1) # take lit (drop k D) @ []) (k + lit)"
    using lit by (intro enc_lit enc_nil)
  ultimately have "lzf_enc D 0 (take (b + lit + 1) ?out) (k + lit)"
    using lzf_enc_append [OF run] eq by simp
  then show ?thesis using that w by simp
qed

lemma put_literal_ok:
  assumes J: "running D k b lit out" and ip: "k + lit < length D" and op: "b + lit + 1 < length out"
  shows "\<exists>k' b' lit' out'. put_literal D (k + lit) (b + lit + 1) lit out = Some (b' + lit' + 1, lit', out') \<and>
    running D k' b' lit' out' \<and> k' + lit' = k + lit + 1 \<and> length out' = length out \<and>
    (if lit + 1 = 32 then lit' = 0 \<and> b' + 1 = b + lit + 3 else lit' = lit + 1 \<and> b' = b)"
proof -
  let ?c = "D ! (k + lit)" and ?out = "out[b + lit + 1 := D ! (k + lit)]"
  note R = J [unfolded running_def]
  have c: "rd D (k + lit) = Some ?c" using ip by (simp add: rd_def)
  have w: "bwrite out (int (b + lit + 1)) [?c] = Some ?out" using op by (intro bwrite_1)
  have tb: "take b ?out = take b out" by simp
  have "take (lit + 1) (drop (b + 1) ?out) = take lit (drop (b + 1) out) @ [?c]"
    using op by (simp add: drop_update_swap take_Suc_conv_app_nth)
  also have "\<dots> = take (lit + 1) (drop k D)" using R ip by (simp add: take_Suc_conv_app_nth)
  finally have tl: "take (lit + 1) (drop (b + 1) ?out) = take (lit + 1) (drop k D)" .
  show ?thesis
  proof (cases "lit + 1 = 32")
    case False
    then have "put_literal D (k + lit) (b + lit + 1) lit out = Some (b + (lit + 1) + 1, lit + 1, ?out)"
      using c w by (simp add: put_literal_def Let_def MAX_LIT_def)
    moreover have "running D k b (lit + 1) ?out" using R False op ip tl tb by (auto simp: running_def)
    ultimately show ?thesis using False
      by - (rule exI [of _ k], rule exI [of _ b], rule exI [of _ "lit + 1"], rule exI [of _ ?out], simp)
  next
    case True
    have "lzf_enc D 0 (take b ?out) k" using R tb by simp
    then obtain out' where o': "stop_run ?out (b + (lit + 1) + 1) (lit + 1) = Some out'" "length out' = length ?out"
      "lzf_enc D 0 (take (b + (lit + 1) + 1) out') (k + (lit + 1))"
      by (rule stop_run_lit [of D b ?out k "lit + 1"]) (use True op ip tl in auto)
    have "put_literal D (k + lit) (b + lit + 1) lit out = Some (b + (lit + 1) + 1 + 0 + 1, 0, out')"
      using c w o'(1) True by (simp add: put_literal_def Let_def MAX_LIT_def)
    moreover have "running D (k + (lit + 1)) (b + (lit + 1) + 1) 0 out'"
      using o' op ip by (auto simp: running_def)
    ultimately show ?thesis using o'(2) True
      by - (rule exI [of _ "k + (lit + 1)"], rule exI [of _ "b + (lit + 1) + 1"], rule exI [of _ 0], rule exI [of _ out'], simp add: add.commute)
  qed
qed

text \<open>Closing a run, empty or not, leaves an encoding of everything before \<open>ip\<close>.\<close>

lemma close_run:
  assumes J: "running D k b lit out" and op: "lit = 0 \<longrightarrow> b < length out"
  obtains out' where "stop_run out (b + lit + 1) lit = Some out'" "length out' = length out"
    "lzf_enc D 0 (take (b + lit + 1 - (if lit = 0 then 1 else 0)) out') (k + lit)"
proof (cases "lit = 0")
  case True
  have "stop_run out (b + lit + 1) lit = Some (out[b := of_int (- 1)])"
    using True op bwrite_1 [of b out "of_int (- 1)"] by (simp add: stop_run_def)
  then show ?thesis using that [of "out[b := of_int (- 1)]"] True J by (simp add: running_def)
next
  case False
  obtain out' where "stop_run out (b + lit + 1) lit = Some out'" "length out' = length out"
    "lzf_enc D 0 (take (b + lit + 1) out') (k + lit)"
    by (rule stop_run_lit [of D b out k lit]) (use J False in \<open>auto simp: running_def\<close>)
  then show ?thesis using that False by simp
qed

lemma ref_step:
  assumes enc: "lzf_enc D 0 (take p out) ip" and p: "p + 3 \<le> length out"
    and m: "0 < ref" "ref < ip" "ip - ref - 1 < 8192"
    and l: "3 \<le> l" "l \<le> 264" "ip + l \<le> length D" "\<forall>i < l. D ! (ref + i) = D ! (ip + i)"
  defines "bytes \<equiv> ref_bytes (ip - ref - 1) (l - 2)"
  obtains out' where "bwrite out (int p) bytes = Some out'" "length out' = length out" "length bytes \<le> 3"
    "running D (ip + l) (p + length bytes) 0 out'"
proof -
  have len: "length bytes \<le> 3" by (simp add: bytes_def ref_bytes_def)
  let ?out = "take p out @ bytes @ drop (p + length bytes) out"
  have w: "bwrite out (int p) bytes = Some ?out" using p len by (simp add: bwrite_nat)
  have two: "l - 2 + 2 = l" using l(1) by simp
  have "lzf_enc D ip (ref_bytes (ip - ref - 1) (l - 2) @ []) (ip + (l - 2 + 2))"
  proof (rule enc_ref)
    have "ip - (ip - ref - 1) - 1 = ref" using m by simp
    then show "\<forall>i < l - 2 + 2. D ! (ip + i) = D ! (ip - (ip - ref - 1) - 1 + i)" using l by simp
  qed (use m l in \<open>auto intro: enc_nil\<close>)
  then have "lzf_enc D 0 (take (p + length bytes) ?out) (ip + l)"
    unfolding two using lzf_enc_append [OF enc] p by (simp add: bytes_def)
  then have "running D (ip + l) (p + length bytes) 0 ?out" using p len l(3) by (simp add: running_def)
  then show ?thesis using that w len p by simp
qed

lemma NEXT_ok: "p + 2 < length D \<Longrightarrow> \<exists>h. NEXT D v p = Some h"
  by (simp add: NEXT_def rd_def)

lemma FRST_ok: "p + 1 < length D \<Longrightarrow> \<exists>h. FRST D p = Some h"
  by (simp add: FRST_def rd_def)

text \<open>What the main loop returns: nothing, or a state from which at most two bytes remain.\<close>

definition loop_result :: "u8 list \<Rightarrow> nat \<Rightarrow> u8 list + nat \<times> nat \<times> nat \<times> u8 list \<Rightarrow> bool" where
  "loop_result D n r = (case r of Inl out' \<Rightarrow> length out' = n
     | Inr (ip, op, lit, out') \<Rightarrow> \<exists>k b. ip = k + lit \<and> op = b + lit + 1 \<and> running D k b lit out' \<and> length out' = n \<and>
         length D \<le> ip + 2)"

lemma loop_match:
  assumes ip: "ip + 2 < length D" and h: "NEXT D hval ip = Some h" and m: "is_match D ip ref = Some True"
    and ref: "ref = htab (IDX h)" and p: "p = op - (if lit = 0 then 1 else 0)" and room: "p + 4 < length out"
    and o1: "stop_run out op lit = Some out1" and l: "match_len D (nat ref) ip = Some l"
    and bytes: "bytes = ref_bytes (nat (int ip - ref - 1)) (l - 2)" and o2: "bwrite out1 (int p) bytes = Some out2"
  shows "lzf_loop D ip op lit hval htab out =
      (if int (ip + l) \<ge> int (length D) - 2 then Some (Inr (ip + l, p + length bytes + 1, 0, out2))
       else do {
         hv \<leftarrow> FRST D (ip + l - 2);
         hv \<leftarrow> NEXT D hv (ip + l - 2);
         let ht = (htab(IDX h := int ip))(IDX hv := int (ip + l - 2));
         hv \<leftarrow> NEXT D hv (ip + l - 1);
         let ht = ht(IDX hv := int (ip + l - 1));
         lzf_loop D (ip + l) (p + length bytes + 1) 0 hv ht out2
       })"
proof -
  have 1: "int ip < int (length D) - 2" using ip by simp
  have 2: "\<not> (op + 3 + 1 \<ge> length out \<and> p + 3 + 1 \<ge> length out)" using room by simp
  show ?thesis
    by (subst lzf_loop.simps)
      (simp only: 1 2 h m o1 l o2 Let_def ref [symmetric] p [symmetric] bytes [symmetric] bind.simps if_True if_False)
qed

text \<open>
  One round that finds a match: the run is closed, the reference is written, and either the input is
  exhausted or the loop goes on after the match.
\<close>

lemma match_step:
  assumes J: "running D k b lit out" and ip: "k + lit + 2 < length D" and h: "NEXT D hval (k + lit) = Some h"
    and m: "is_match D (k + lit) (htab (IDX h)) = Some True"
    and room: "b + lit + 1 - (if lit = 0 then 1 else 0) + 4 < length out"
  shows "\<exists>k' b' out'. running D k' b' 0 out' \<and> length out' = length out \<and> k + lit < k' \<and>
    (lzf_loop D (k + lit) (b + lit + 1) lit hval htab out = Some (Inr (k', b' + 1, 0, out')) \<and> length D \<le> k' + 2 \<or>
     (\<exists>hv ht. lzf_loop D (k + lit) (b + lit + 1) lit hval htab out = lzf_loop D k' (b' + 1) 0 hv ht out'))"
proof -
  let ?ip = "k + lit" and ?op = "b + lit + 1"
  define ref where "ref = htab (IDX h)"
  define p where "p = ?op - (if lit = 0 then 1 else 0)"
  have p: "p + 4 < length out" using room by (simp only: p_def)
  have ref: "0 < nat ref" "nat ref < ?ip" "?ip - nat ref - 1 < 8192" "\<forall>i < 3. D ! (nat ref + i) = D ! (?ip + i)" "0 < ref"
    using is_match_ok [OF ip, of ref] m by (auto simp: ref_def)
  obtain l where l: "match_len D (nat ref) ?ip = Some l" "3 \<le> l" "l \<le> 264" "?ip + l \<le> length D"
    "\<forall>i < l. D ! (nat ref + i) = D ! (?ip + i)"
    using match_len_ok [OF ref(4,2) ip] by blast
  obtain out1 where o1: "stop_run out ?op lit = Some out1" "length out1 = length out" "lzf_enc D 0 (take p out1) ?ip"
    by (rule close_run [OF J]) (use p in \<open>auto simp: p_def\<close>)
  define bytes where "bytes = ref_bytes (?ip - nat ref - 1) (l - 2)"
  obtain out2 where o2: "bwrite out1 (int p) bytes = Some out2" "length out2 = length out1"
    "running D (?ip + l) (p + length bytes) 0 out2"
    by (rule ref_step [OF o1(3) _ ref(1-3) l(2-5)]) (use p o1(2) in \<open>auto simp: bytes_def\<close>)
  have off: "nat (int ?ip - ref - 1) = ?ip - nat ref - 1" using ref by linarith
  define ht where "ht = htab(IDX h := int ?ip)"
  have eval: "lzf_loop D ?ip ?op lit hval htab out =
      (if int (?ip + l) \<ge> int (length D) - 2 then Some (Inr (?ip + l, p + length bytes + 1, 0, out2))
       else do {
         hv \<leftarrow> FRST D (?ip + l - 2);
         hv \<leftarrow> NEXT D hv (?ip + l - 2);
         let ht = ht(IDX hv := int (?ip + l - 2));
         hv \<leftarrow> NEXT D hv (?ip + l - 1);
         let ht = ht(IDX hv := int (?ip + l - 1));
         lzf_loop D (?ip + l) (p + length bytes + 1) 0 hv ht out2
       })"
    unfolding ht_def
    by (rule loop_match [where htab = htab, OF ip h m [folded ref_def] ref_def p_def p o1(1) l(1)])
      (use o2(1) off in \<open>simp_all only: bytes_def\<close>)
  show ?thesis
  proof (rule exI [of _ "?ip + l"], rule exI [of _ "p + length bytes"], rule exI [of _ out2], intro conjI)
    show "lzf_loop D ?ip ?op lit hval htab out = Some (Inr (?ip + l, p + length bytes + 1, 0, out2)) \<and> length D \<le> ?ip + l + 2 \<or>
      (\<exists>hv ht. lzf_loop D ?ip ?op lit hval htab out = lzf_loop D (?ip + l) (p + length bytes + 1) 0 hv ht out2)"
    proof (cases "length D \<le> ?ip + l + 2")
      case False
      obtain f n1 where "FRST D (?ip + l - 2) = Some f" "NEXT D f (?ip + l - 2) = Some n1"
        using FRST_ok [of "?ip + l - 2" D] NEXT_ok [of "?ip + l - 2" D] False l(2) by fastforce
      moreover obtain n2 where "NEXT D n1 (?ip + l - 1) = Some n2"
        using NEXT_ok [of "?ip + l - 1" D n1] False l(2) by fastforce
      ultimately show ?thesis using False unfolding eval by (simp add: Let_def) blast
    qed (unfold eval, simp)
  qed (use o1 o2 l in auto)
qed

lemma loop_ok:
  assumes "running D k b lit out"
  shows "\<exists>r. lzf_loop D (k + lit) (b + lit + 1) lit hval htab out = Some r \<and> loop_result D (length out) r"
  using assms
proof (induction "length D - (k + lit)" arbitrary: k b lit hval htab out rule: less_induct)
  case less
  let ?ip = "k + lit" and ?op = "b + lit + 1"
  show ?case
  proof (cases "?ip + 2 < length D")
    case False
    then show ?thesis using less.prems by (subst lzf_loop.simps) (auto simp: loop_result_def)
  next
    case ip: True
    obtain h where h: "NEXT D hval ?ip = Some h" using NEXT_ok ip by blast
    define ref where "ref = htab (IDX h)"
    define ht where "ht = htab(IDX h := int ?ip)"
    obtain m where m: "is_match D ?ip ref = Some m"
      "m \<Longrightarrow> 0 < ref \<and> nat ref < ?ip \<and> ?ip - nat ref - 1 < 8192 \<and> (\<forall>i < 3. D ! (nat ref + i) = D ! (?ip + i))"
      using is_match_ok [OF ip, of ref] by blast
    show ?thesis
    proof (cases m)
      case False
      show ?thesis
      proof (cases "?op < length out")
        case True
        obtain k' b' lit' out' where p: "put_literal D ?ip ?op lit out = Some (b' + lit' + 1, lit', out')"
          "running D k' b' lit' out'" "k' + lit' = ?ip + 1" "length out' = length out"
          using put_literal_ok [OF less.prems, of] True ip by auto
        have "\<exists>r. lzf_loop D (k' + lit') (b' + lit' + 1) lit' h ht out' = Some r \<and> loop_result D (length out') r"
          by (rule less.hyps) (use p ip in auto)
        moreover have "lzf_loop D ?ip ?op lit hval htab out = lzf_loop D (k' + lit') (b' + lit' + 1) lit' h ht out'"
          using ip h m(1) False True p(1,3) by (subst lzf_loop.simps) (simp add: ref_def ht_def Let_def)
        ultimately show ?thesis using p(4) by simp
      qed (use ip h m(1) False in \<open>subst lzf_loop.simps, simp add: ref_def Let_def loop_result_def\<close>)
    next
      case True
      define p where "p = ?op - (if lit = 0 then 1 else 0)"
      show ?thesis
      proof (cases "p + 4 < length out")
        case False
        then have full: "?op + 3 + 1 \<ge> length out \<and> p + 3 + 1 \<ge> length out" by (auto simp: p_def split: if_splits)
        then have "lzf_loop D ?ip ?op lit hval htab out = Some (Inl out)"
          using ip h m(1) True by (subst lzf_loop.simps) (simp add: ref_def Let_def p_def)
        then show ?thesis by (simp add: loop_result_def)
      next
        case room: True
        have mt: "is_match D ?ip ref = Some True" using m(1) True by simp
        obtain k' b' out' where s: "running D k' b' 0 out'" "length out' = length out" "?ip < k'"
          and or: "lzf_loop D ?ip ?op lit hval htab out = Some (Inr (k', b' + 1, 0, out')) \<and> length D \<le> k' + 2 \<or>
            (\<exists>hv ht. lzf_loop D ?ip ?op lit hval htab out = lzf_loop D k' (b' + 1) 0 hv ht out')"
          using match_step [OF less.prems ip h, of htab] mt room unfolding ref_def p_def by blast
        from or show ?thesis
        proof
          assume "lzf_loop D ?ip ?op lit hval htab out = Some (Inr (k', b' + 1, 0, out')) \<and> length D \<le> k' + 2"
          then show ?thesis using s by (auto simp: loop_result_def)
        next
          assume "\<exists>hv ht. lzf_loop D ?ip ?op lit hval htab out = lzf_loop D k' (b' + 1) 0 hv ht out'"
          then obtain hv ht where "lzf_loop D ?ip ?op lit hval htab out = lzf_loop D (k' + 0) (b' + 0 + 1) 0 hv ht out'" by auto
          moreover have "\<exists>r. lzf_loop D (k' + 0) (b' + 0 + 1) 0 hv ht out' = Some r \<and> loop_result D (length out') r"
            by (rule less.hyps) (use s ip in auto)
          ultimately show ?thesis using s(2) by simp
        qed
      qed
      qed
    qed
  qed

section \<open>The last literals\<close>

lemma rest_ok:
  assumes "running D k b lit out" and "length D - (k + lit) < 32"
    and "b + lit + 1 + (length D - (k + lit)) + (if 32 \<le> lit + (length D - (k + lit)) then 1 else 0) \<le> length out"
  shows "\<exists>k' b' lit' out'. lzf_rest D (k + lit) (b + lit + 1) lit out = Some (b' + lit' + 1, lit', out') \<and>
    running D k' b' lit' out' \<and> k' + lit' = length D \<and> length out' = length out \<and> b' < length out'"
  using assms
proof (induction "length D - (k + lit)" arbitrary: k b lit out)
  case 0
  then have "k + lit = length D" by (simp add: running_def)
  then show ?case using 0 by (subst lzf_rest.simps) auto
next
  case (Suc n)
  have ip: "k + lit < length D" using Suc.hyps(2) by simp
  then have op: "b + lit + 1 < length out" using Suc.prems(3) by linarith
  obtain k' b' lit' out' where p: "put_literal D (k + lit) (b + lit + 1) lit out = Some (b' + lit' + 1, lit', out')"
    "running D k' b' lit' out'" "k' + lit' = k + lit + 1" "length out' = length out"
    "if lit + 1 = 32 then lit' = 0 \<and> b' + 1 = b + lit + 3 else lit' = lit + 1 \<and> b' = b"
    using put_literal_ok [OF Suc.prems(1) ip op] by blast
  have lit: "lit < 32" using Suc.prems(1) by (simp add: running_def)
  have "\<exists>k'' b'' lit'' out''. lzf_rest D (k' + lit') (b' + lit' + 1) lit' out' = Some (b'' + lit'' + 1, lit'', out'') \<and>
    running D k'' b'' lit'' out'' \<and> k'' + lit'' = length D \<and> length out'' = length out' \<and> b'' < length out''"
  proof (rule Suc.hyps(1))
    show "n = length D - (k' + lit')" using Suc.hyps(2) p(3) by simp
    show "b' + lit' + 1 + (length D - (k' + lit')) + (if 32 \<le> lit' + (length D - (k' + lit')) then 1 else 0) \<le> length out'"
      using p(3-5) Suc.prems(2,3) Suc.hyps(2) lit by (auto split: if_splits)
  qed (use p Suc.prems(2) in auto)
  moreover have "lzf_rest D (k + lit) (b + lit + 1) lit out = lzf_rest D (k' + lit') (b' + lit' + 1) lit' out'"
    using p ip by (subst lzf_rest.simps) simp
  ultimately show ?case using p(4) by simp
qed

section \<open>Compressing\<close>

text \<open>The compressor returns, writes nothing outside of the output buffer, and either gives up or encodes the text.\<close>

lemma compress_ok:
  assumes D: "2 \<le> length D"
  shows "\<exists>n out'. lzf_compress htab D out = Some (n, out') \<and> length out' = length out \<and> n \<le> length out \<and>
    (n \<noteq> 0 \<longrightarrow> lzf_enc D 0 (take n out') (length D))"
proof (cases "length out = 0")
  case False
  obtain h where h: "FRST D 0 = Some h" using FRST_ok [of 0 D] D by auto
  have "running D 0 0 0 out" by (simp add: running_def enc_nil)
  from loop_ok [OF this, of h htab] obtain r where r: "lzf_loop D 0 1 0 h htab out = Some r" "loop_result D (length out) r"
    by auto
  have eval: "lzf_compress htab D out = (case r of Inl out \<Rightarrow> Some (0, out)
         | Inr (ip, op, lit, out) \<Rightarrow>
             if op + 3 > length out then Some (0, out)
             else do {
               (op, lit, out) \<leftarrow> lzf_rest D ip op lit out;
               out \<leftarrow> stop_run out op lit;
               Some (op - (if lit = 0 then 1 else 0), out)
             })"
    using D False h r(1) by (auto simp: lzf_compress_def)
  show ?thesis
  proof (cases r)
    case (Inl out')
    then show ?thesis using r(2) eval by (simp add: loop_result_def)
  next
    case (Inr t)
    then obtain k b lit out1 where t: "r = Inr (k + lit, b + lit + 1, lit, out1)" "running D k b lit out1"
      "length out1 = length out" "length D \<le> k + lit + 2"
      using r(2) by (cases t) (auto simp: loop_result_def)
    show ?thesis
    proof (cases "b + lit + 1 + 3 > length out1")
      case True
      then show ?thesis using t eval by simp
    next
      case room: False
      have "length D - (k + lit) \<le> 2" using t(4) by simp
      then have n: "length D - (k + lit) < 32" and n1: "length D - (k + lit) + (if P then 1 else 0) \<le> 3" for P
        by simp_all
      have fits: "b + lit + 1 + (length D - (k + lit)) + (if 32 \<le> lit + (length D - (k + lit)) then 1 else 0) \<le> length out1"
        using room n1 [of "32 \<le> lit + (length D - (k + lit))"] by linarith
      obtain k' b' lit' out2 where o2: "lzf_rest D (k + lit) (b + lit + 1) lit out1 = Some (b' + lit' + 1, lit', out2)"
        "running D k' b' lit' out2" "k' + lit' = length D" "length out2 = length out1" "b' < length out2"
        using rest_ok [OF t(2) n fits] by blast
      obtain out3 where o3: "stop_run out2 (b' + lit' + 1) lit' = Some out3" "length out3 = length out2"
        "lzf_enc D 0 (take (b' + lit' + 1 - (if lit' = 0 then 1 else 0)) out3) (k' + lit')"
        by (rule close_run [OF o2(2)]) (use o2(5) in auto)
      have "b' + lit' + 1 - (if lit' = 0 then 1 else 0) \<le> length out" using o2(2,4) t(3) by (auto simp: running_def)
      then show ?thesis using room eval t o2 o3 by simp
    qed
  qed
qed (simp add: lzf_compress_def)

section \<open>Round trip\<close>

lemma lzf_roundtrip_any:
  assumes "2 \<le> length D" and "length D \<le> length dst"
  shows "\<exists>n out'. lzf_compress htab D out = Some (n, out') \<and> length out' = length out \<and> n \<le> length out \<and>
    (n \<noteq> 0 \<longrightarrow> (\<exists>dst'. lzf_decompress (take n out') dst = Some (Inr (length D), dst') \<and> take (length D) dst' = D))"
proof -
  obtain n out' where c: "lzf_compress htab D out = Some (n, out')" "length out' = length out" "n \<le> length out"
    "n \<noteq> 0 \<Longrightarrow> lzf_enc D 0 (take n out') (length D)"
    using compress_ok [OF assms(1)] by blast
  have "\<exists>dst'. lzf_decompress (take n out') dst = Some (Inr (length D), dst') \<and> take (length D) dst' = D" if "n \<noteq> 0"
    using decompress_ok [OF c(4) [OF that], of "take n out'" "[]" dst] assms(2) by (auto simp: lzf_decompress_def)
  then show ?thesis using c by blast
qed

end
