(* ===== verification/Lzf_Safety.thy ===== *)
theory Lzf_Safety
  imports Lzf_Roundtrip
begin

text \<open>
  The decompressor on arbitrary input: it returns, with a length or one of its two errors, and every
  read and write it makes is inside of its buffers.
\<close>

lemma copy_octets_safe:
  assumes "ref < op" and "op + n \<le> length out"
  shows "\<exists>out'. copy_octets out op ref n = Some out' \<and> length out' = length out"
  using assms
proof (induction n arbitrary: op ref out)
  case (Suc n)
  have "rd out ref = Some (out ! ref)" using Suc.prems by (simp add: rd_def)
  moreover have "bwrite out (int op) [out ! ref] = Some (out[op := out ! ref])" using Suc.prems by (intro bwrite_1) simp
  moreover have "\<exists>out'. copy_octets (out[op := out ! ref]) (op + 1) (ref + 1) n = Some out' \<and> length out' = length (out[op := out ! ref])"
    using Suc.prems by (intro Suc.IH) auto
  ultimately show ?case by auto
qed simp

lemma bread_Some: "i + n \<le> length xs \<Longrightarrow> bread xs (int i) n = Some (take n (drop i xs))"
  by (simp add: bread_nat)

lemma bwrite_Some: "i + length ys \<le> length xs \<Longrightarrow> \<exists>xs'. bwrite xs (int i) ys = Some xs' \<and> length xs' = length xs"
  by (simp add: bwrite_nat)

lemma copy_ref_safe:
  assumes "ref < op" and "op + (len + 2) \<le> length out"
  shows "\<exists>out'. copy_ref out op ref len = Some out' \<and> length out' = length out"
proof (cases "len \<le> 9 \<or> op < ref + (len + 2)")
  case True
  then show ?thesis using copy_octets_safe [OF assms] by (auto simp: copy_ref_def)
next
  case False
  have "\<exists>out'. bmove out (int op) (int ref) (len + 2) = Some out' \<and> length out' = length out"
    using bread_Some [of ref "len + 2" out] bwrite_Some [of op "take (len + 2) (drop ref out)" out] assms False
    by (auto simp: bmove_def)
  then show ?thesis using False by (simp add: copy_ref_def)
qed

lemma ref_args_safe:
  "\<exists>r. ref_args inp ip ctrl = Some r \<and> (\<forall>len lo ip'. r = Inr (len, lo, ip') \<longrightarrow> ip < ip')"
  by (auto simp: ref_args_def Let_def rd_def)

lemma back_ref_safe:
  "\<exists>r. back_ref out op hi lo len = Some r \<and>
     (\<forall>out'. r = Inr out' \<longrightarrow> length out' = length out \<and> op + (len + 2) \<le> length out)"
proof (cases "op + len + 2 \<le> length out \<and> 0 \<le> int op - int (hi * 256) - 1 - int lo")
  case True
  then have "nat (int op - int (hi * 256) - 1 - int lo) < op" by linarith
  from copy_ref_safe [OF this, of len out] show ?thesis using True by (auto simp: back_ref_def Let_def)
next
  case False
  then show ?thesis by (auto simp: back_ref_def Let_def)
qed

definition d_result :: "nat \<Rightarrow> ((lzf_error + nat) \<times> u8 list) option \<Rightarrow> bool" where
  "d_result n r = (case r of None \<Rightarrow> False
     | Some (e, out) \<Rightarrow> length out = n \<and> (case e of Inl _ \<Rightarrow> True | Inr m \<Rightarrow> m \<le> n))"

lemma lzf_d_loop_safe: "op \<le> length out \<Longrightarrow> d_result (length out) (lzf_d_loop inp ip op out)"
proof (induction "length inp - ip" arbitrary: ip op out rule: less_induct)
  case less
  show ?case
  proof (cases "ip < length inp")
    case False
    then show ?thesis using less.prems by (subst lzf_d_loop.simps) (simp add: d_result_def)
  next
    case ip: True
    define ctrl where "ctrl = unat (inp ! ip)"
    have rd: "rd inp ip = Some (inp ! ip)" using ip by (simp add: rd_def)
    show ?thesis
    proof (cases "ctrl < 32")
      case True
      show ?thesis
      proof (cases "op + (ctrl + 1) \<le> length out \<and> ip + 1 + (ctrl + 1) \<le> length inp")
        case False
        then show ?thesis using ip rd True
          by (subst lzf_d_loop.simps) (auto simp: Let_def ctrl_def [symmetric] d_result_def)
      next
        case fits: True
        define xs where "xs = take (ctrl + 1) (drop (ip + 1) inp)"
        have r: "bread inp (int (ip + 1)) (ctrl + 1) = Some xs" using fits unfolding xs_def by (intro bread_Some) simp
        obtain out' where w: "bwrite out (int op) xs = Some out'" "length out' = length out"
          using bwrite_Some [of op xs out] fits by (auto simp: xs_def)
        have "d_result (length out') (lzf_d_loop inp (ip + 1 + (ctrl + 1)) (op + (ctrl + 1)) out')"
          by (rule less.hyps) (use ip fits w in auto)
        moreover have "lzf_d_loop inp ip op out = lzf_d_loop inp (ip + 1 + (ctrl + 1)) (op + (ctrl + 1)) out'"
          using ip rd True fits r w by (subst lzf_d_loop.simps) (simp add: Let_def ctrl_def [symmetric])
        ultimately show ?thesis using w(2) by simp
      qed
    next
      case False
      obtain a where a: "ref_args inp (ip + 1) ctrl = Some a" "\<And>len lo ip'. a = Inr (len, lo, ip') \<Longrightarrow> ip + 1 < ip'"
        using ref_args_safe by blast
      show ?thesis
      proof (cases a)
        case (Inl e)
        then show ?thesis using ip rd False a(1)
          by (subst lzf_d_loop.simps) (simp add: Let_def ctrl_def [symmetric] d_result_def)
      next
        case (Inr t)
        then obtain len lo ip' where t: "a = Inr (len, lo, ip')" by (cases t) auto
        obtain r where r: "back_ref out op (ctrl mod 32) lo len = Some r"
          "\<And>out'. r = Inr out' \<Longrightarrow> length out' = length out \<and> op + (len + 2) \<le> length out"
          using back_ref_safe by blast
        show ?thesis
        proof (cases r)
          case (Inl e)
          then show ?thesis using ip rd False a(1) t r(1)
            by (subst lzf_d_loop.simps) (simp add: Let_def ctrl_def [symmetric] d_result_def)
        next
          case (Inr out')
          have "d_result (length out') (lzf_d_loop inp ip' (op + (len + 2)) out')"
            by (rule less.hyps) (use ip a(2) [OF t] r(2) [OF Inr] in auto)
          moreover have "lzf_d_loop inp ip op out = lzf_d_loop inp ip' (op + (len + 2)) out'"
            using ip rd False a(1) t r(1) Inr by (subst lzf_d_loop.simps) (simp add: Let_def ctrl_def [symmetric])
          ultimately show ?thesis using r(2) [OF Inr] by simp
        qed
      qed
    qed
  qed
qed

end
