(* ===== verification/Fwtree.thy ===== *)
theory Fwtree
  imports Prelude
begin

text \<open>
  The Fenwick tree of the corpus, \<open>src/bench/redis-src/fwtree.c\<close>: prefix sums of an array of counters
  under point updates, and the search for the element where the running sum reaches a target.
  Indices are the C \<open>int\<close>s of the code, counters are 64-bit words. A failed assertion, an access outside of the
  array and an overflow of signed arithmetic are \<open>None\<close>. The flag of \<open>fwTreeUpdate\<close> says whether the build defines
  \<open>DEBUG_ASSERTIONS\<close>.
\<close>

section \<open>Code\<close>

record fenwickTree =
  tree :: "u64 list"
  size_bits :: nat
  fsize :: int
  ftotal :: u64

definition fwTreeCreate :: "nat \<Rightarrow> fenwickTree option" where
  "fwTreeCreate sizeBits =
     (if sizeBits < 31
      then Some \<lparr>tree = replicate (2 ^ sizeBits + 1) 0, size_bits = sizeBits, fsize = 2 ^ sizeBits, ftotal = 0\<rparr>
      else None)"

partial_function (option) prefix_loop :: "u64 list \<Rightarrow> int \<Rightarrow> u64 \<Rightarrow> u64 option" where
  "prefix_loop t idx s =
     (if idx > 0 then
        if nat idx < length t then prefix_loop t (idx - (idx AND - idx)) (s + t ! nat idx) else None
      else Some s)"

definition fwTreePrefixSum :: "fenwickTree \<Rightarrow> int \<Rightarrow> u64 option" where
  "fwTreePrefixSum ft idx =
     (if idx < 0 then Some 0
      else let idx = (if idx \<ge> fsize ft then fsize ft - 1 else idx) in prefix_loop (tree ft) (idx + 1) 0)"

partial_function (option) update_loop :: "int \<Rightarrow> int \<Rightarrow> u64 list \<Rightarrow> int \<Rightarrow> u64 list option" where
  "update_loop sz delta t idx =
     (if idx \<le> sz then
        if idx < 0 \<or> nat idx \<ge> length t then None
        else if delta < 0 \<and> (c_llong (- delta) = None \<or> int (unat (t ! nat idx)) < - delta) then None
        else do {
          let t = t[nat idx := t ! nat idx + of_int delta];
          idx \<leftarrow> c_int (idx + (idx AND - idx));
          update_loop sz delta t idx
        }
      else Some t)"

definition fwTreeUpdate :: "bool \<Rightarrow> fenwickTree \<Rightarrow> int \<Rightarrow> int \<Rightarrow> fenwickTree option" where
  "fwTreeUpdate debug ft idx delta =
     (if idx < 0 \<or> idx \<ge> fsize ft then Some ft
      else do {
        t \<leftarrow> update_loop (fsize ft) delta (tree ft) (idx + 1);
        let ft = ft\<lparr>ftotal := ftotal ft + of_int delta, tree := t\<rparr>;
        (if debug then do {
           s \<leftarrow> fwTreePrefixSum ft (fsize ft - 1);
           if ftotal ft = s then Some ft else None }
         else Some ft)
      })"

text \<open>The descent; \<open>i\<close> is halved until it is zero.\<close>

fun find_loop :: "u64 list \<Rightarrow> nat \<Rightarrow> int \<Rightarrow> u64 \<Rightarrow> int option" where
  "find_loop t n result target =
     (let current = result + 2 ^ n in
      if nat current \<ge> length t then None
      else
        let (target, result) =
          (if target > t ! nat current then (target - t ! nat current, current) else (target, result))
        in case n of 0 \<Rightarrow> Some result | Suc m \<Rightarrow> find_loop t m result target)"

definition fwTreeFindIndex :: "fenwickTree \<Rightarrow> u64 \<Rightarrow> int option" where
  "fwTreeFindIndex ft target = (if target \<le> 0 then Some 0 else find_loop (tree ft) (size_bits ft) 0 target)"

definition fwTreeFindFirstNonEmpty :: "fenwickTree \<Rightarrow> int option" where
  "fwTreeFindFirstNonEmpty ft = fwTreeFindIndex ft 1"

definition fwTreeFindNextNonEmpty :: "fenwickTree \<Rightarrow> int \<Rightarrow> int option" where
  "fwTreeFindNextNonEmpty ft idx =
     (if idx < 0 \<or> idx \<ge> fsize ft then Some (- 1)
      else do {
        s \<leftarrow> fwTreePrefixSum ft idx;
        let next_sum = s + 1;
        (if next_sum \<le> ftotal ft then fwTreeFindIndex ft next_sum else Some (- 1))
      })"

definition fwTreeClear :: "fenwickTree \<Rightarrow> fenwickTree" where
  "fwTreeClear ft = ft\<lparr>tree := replicate (nat (fsize ft) + 1) 0, ftotal := 0\<rparr>"

declare prefix_loop.simps [code] update_loop.simps [code] find_loop.simps [simp del]

section \<open>The lowest set bit\<close>

definition low :: "nat \<Rightarrow> nat" where
  "low n = nat (int n AND - int n)"

lemma and_neg_odd: "(2 ^ k * (2 * c + 1)) AND - (2 ^ k * (2 * c + 1)) = (2 ^ k :: int)"
proof (induction k)
  case 0
  have "- (2 * c + 1) = 2 * NOT c + 1" by (simp add: not_int_def)
  moreover have "(2 * c + 1) AND (2 * NOT c + 1) = 1" by (subst and_rec) simp
  ultimately show ?case by (simp only: power_0 mult_1)
next
  case (Suc k)
  let ?x = "2 ^ k * (2 * c + 1)"
  have double: "(2 * x) AND (2 * y) = 2 * (x AND y)" for x y :: int by (subst and_rec) simp
  have "2 ^ Suc k * (2 * c + 1) = 2 * ?x" "- (2 * ?x) = 2 * - ?x" by simp_all
  then show ?case by (simp only: double Suc) simp
qed

lemma pow_odd_exists: "0 < n \<Longrightarrow> \<exists>k c. n = 2 ^ k * (2 * c + 1 :: nat)"
proof (induction n rule: less_induct)
  case (less n)
  show ?case
  proof (cases "even n")
    case True
    then obtain m where m: "n = 2 * m" by (auto elim: evenE)
    then have "m < n" "0 < m" using less.prems by auto
    then obtain k c where "m = 2 ^ k * (2 * c + 1)" using less.IH by blast
    then show ?thesis using m by (intro exI [of _ "Suc k"] exI [of _ c]) simp
  next
    case False
    then obtain m where "n = 2 * m + 1" by (auto elim: oddE)
    then show ?thesis by (intro exI [of _ 0] exI [of _ m]) simp
  qed
qed

lemma low_eq: "low (2 ^ k * (2 * c + 1)) = 2 ^ k"
proof -
  have "int (2 ^ k * (2 * c + 1)) = 2 ^ k * (2 * int c + 1)" by (simp add: algebra_simps)
  then show ?thesis by (simp only: low_def and_neg_odd) (simp add: nat_power_eq)
qed

lemma low_bounds:
  assumes "0 < n"
  shows "0 < low n" and "low n \<le> n"
proof -
  obtain k c where n: "n = 2 ^ k * (2 * c + 1)" using pow_odd_exists [OF assms] by blast
  show "0 < low n" "low n \<le> n" unfolding n low_eq by simp_all
qed

lemma int_low: "int n AND - int n = int (low n)"
  by (cases "n = 0") (auto simp: low_def)

text \<open>The next node up covers at least what this one does, and no node between covers anything before it.\<close>

lemma low_next:
  assumes "0 < n"
  shows "n + low n - low (n + low n) \<le> n - low n"
proof -
  obtain k c where n: "n = 2 ^ k * (2 * c + 1)" using pow_odd_exists [OF assms] by blast
  have l: "low n = 2 ^ k" unfolding n by (rule low_eq)
  obtain j e where m: "c + 1 = 2 ^ j * (2 * e + 1)" using pow_odd_exists [of "c + 1"] by auto
  have "n + low n = 2 ^ Suc k * (c + 1)" using l n by (simp add: algebra_simps)
  also have "\<dots> = 2 ^ (Suc k + j) * (2 * e + 1)" unfolding m by (simp add: power_add algebra_simps)
  finally have "low (n + low n) = 2 ^ (Suc k + j)" by (simp only: low_eq)
  moreover have "(2 :: nat) ^ Suc k \<le> 2 ^ (Suc k + j)" by (rule power_increasing) auto
  ultimately have "2 * low n \<le> low (n + low n)" unfolding l by simp
  then show ?thesis by linarith
qed

lemma low_between:
  assumes "0 < n" and "n < m" and "m < n + low n"
  shows "n \<le> m - low m"
proof -
  obtain k c where n: "n = 2 ^ k * (2 * c + 1)" using pow_odd_exists [OF assms(1)] by blast
  have l: "low n = 2 ^ k" unfolding n by (rule low_eq)
  define r where "r = m - n"
  have r: "0 < r" "r < 2 ^ k" "m = n + r" using assms l by (auto simp: r_def)
  obtain j e where e: "r = 2 ^ j * (2 * e + 1)" using pow_odd_exists [OF r(1)] by blast
  have "(2 :: nat) ^ j \<le> r" unfolding e by simp
  then have "(2 :: nat) ^ j < 2 ^ k" using r(2) by (rule le_less_trans)
  then have "j < k" by simp
  then obtain i where i: "k = Suc (j + i)" by (auto dest: less_imp_Suc_add)
  have "m = 2 ^ j * (2 * (2 ^ i * (2 * c + 1) + e) + 1)"
    unfolding r(3) n e i by (simp add: power_add algebra_simps)
  then have "low m = 2 ^ j" by (simp only: low_eq)
  then have "low m \<le> r" unfolding e by simp
  then show ?thesis using r(3) by simp
qed

lemma low_add:
  assumes "2 ^ Suc k dvd r"
  shows "low (r + 2 ^ k) = 2 ^ k"
proof -
  obtain c where "r = 2 ^ Suc k * c" using assms by (auto elim: dvdE)
  then have "r + 2 ^ k = 2 ^ k * (2 * c + 1)" by simp
  then show ?thesis by (simp only: low_eq)
qed

section \<open>What the tree holds\<close>

text \<open>
  The abstract counters are a list of naturals; the node \<open>n\<close> holds the sum of the counters in
  \<open>{n - low n ..< n}\<close>. A tree of \<open>2^30\<close> counters can be made, but the index of an update then overflows.
\<close>

definition psum :: "nat list \<Rightarrow> nat \<Rightarrow> nat" where
  "psum a i = sum_list (take i a)"

definition fw_ok :: "fenwickTree \<Rightarrow> nat list \<Rightarrow> bool" where
  "fw_ok ft a \<longleftrightarrow> size_bits ft < 30 \<and> length a = 2 ^ size_bits ft \<and> fsize ft = 2 ^ size_bits ft \<and>
     length (tree ft) = length a + 1 \<and> sum_list a < 2 ^ 64 \<and> ftotal ft = of_nat (sum_list a) \<and>
     (\<forall>n. 0 < n \<and> n \<le> length a \<longrightarrow> tree ft ! n = of_nat (psum a n - psum a (n - low n)))"

lemma psum_mono: "i \<le> j \<Longrightarrow> psum a i \<le> psum a j"
proof -
  assume "i \<le> j"
  then have "take j a = take i a @ take (j - i) (drop i a)" by (metis le_add_diff_inverse take_add)
  then show ?thesis by (simp add: psum_def)
qed

lemma psum_Suc: "i < length a \<Longrightarrow> psum a (Suc i) = psum a i + a ! i"
  by (simp add: psum_def take_Suc_conv_app_nth)

lemma psum_0 [simp]: "psum a 0 = 0"
  by (simp add: psum_def)

lemma psum_all: "psum a (length a) = sum_list a"
  by (simp add: psum_def)

lemma psum_le: "psum a i \<le> sum_list a"
  using psum_mono [of i "max i (length a)" a] by (simp add: psum_def)

lemma psum_zeros [simp]: "psum (replicate m 0) n = 0" "sum_list (replicate m (0 :: nat)) = 0"
  by (simp_all add: psum_def sum_list_replicate)

lemma fw_ok_create: "b < 30 \<Longrightarrow> \<exists>ft. fwTreeCreate b = Some ft \<and> fw_ok ft (replicate (2 ^ b) 0)"
  by (auto simp: fw_ok_def fwTreeCreate_def less_Suc_eq_le simp del: replicate_Suc)

lemma fw_ok_clear: "fw_ok ft a \<Longrightarrow> fw_ok (fwTreeClear ft) (replicate (length a) 0)"
  by (auto simp: fw_ok_def fwTreeClear_def nat_power_eq less_Suc_eq_le simp del: replicate_Suc)

section \<open>Queries\<close>

lemma prefix_loop_ok:
  assumes ft: "fw_ok ft a"
  shows "n \<le> length a \<Longrightarrow> prefix_loop (tree ft) (int n) s = Some (s + of_nat (psum a n))"
proof (induction n arbitrary: s rule: less_induct)
  case (less n)
  show ?case
  proof (cases "n = 0")
    case True
    then show ?thesis by (subst prefix_loop.simps) simp
  next
    case False
    then have l: "0 < low n" "low n \<le> n" using low_bounds [of n] by simp_all
    have t: "tree ft ! n = of_nat (psum a n - psum a (n - low n))" "n < length (tree ft)"
      using ft less.prems False by (auto simp: fw_ok_def)
    have i: "int n - (int n AND - int n) = int (n - low n)" using l by (simp add: int_low of_nat_diff)
    have "prefix_loop (tree ft) (int n) s = prefix_loop (tree ft) (int (n - low n)) (s + tree ft ! n)"
      using False t(2) by (subst prefix_loop.simps) (simp only: i, simp)
    also have "\<dots> = Some (s + tree ft ! n + of_nat (psum a (n - low n)))" using l less.prems by (intro less.IH) auto
    also have "\<dots> = Some (s + of_nat (psum a n))" using psum_mono [of "n - low n" n a] by (simp add: t(1) of_nat_diff)
    finally show ?thesis .
  qed
qed

lemma prefix_sum_ok:
  assumes ft: "fw_ok ft a" and "0 \<le> idx"
  shows "fwTreePrefixSum ft idx = Some (of_nat (psum a (nat idx + 1)))"
proof -
  let ?i = "if idx \<ge> fsize ft then fsize ft - 1 else idx"
  have sz: "fsize ft = int (length a)" "0 < length a" using ft by (auto simp: fw_ok_def)
  define n where "n = nat ?i + 1"
  have i: "0 \<le> ?i" "?i < int (length a)" using assms(2) sz by auto
  then have n: "?i + 1 = int n" "n \<le> length a" unfolding n_def by linarith+
  have "psum a n = psum a (nat idx + 1)"
    using assms(2) sz by (auto simp: n_def psum_def nat_diff_distrib)
  then show ?thesis using assms(2) prefix_loop_ok [OF ft n(2), of 0] by (simp add: fwTreePrefixSum_def Let_def n(1))
qed

section \<open>Updates\<close>

definition covers :: "nat \<Rightarrow> nat \<Rightarrow> bool" where
  "covers n p \<longleftrightarrow> n - low n \<le> p \<and> p < n"

lemma update_loop_ok:
  assumes "0 < n" and "covers n p" and "length t = sz + 1" and lim: "sz < 2 ^ 30" "- (2 ^ 63) < delta"
    and "\<forall>m. n \<le> m \<and> m \<le> sz \<and> covers m p \<longrightarrow> 0 \<le> int (unat (t ! m)) + delta"
  shows "\<exists>t'. update_loop (int sz) delta t (int n) = Some t' \<and> length t' = length t \<and>
    (\<forall>m \<le> sz. t' ! m = (if n \<le> m \<and> covers m p then t ! m + of_int delta else t ! m))"
  using assms(1-3,6)
proof (induction "sz + 1 - n" arbitrary: n t rule: less_induct)
  case less
  show ?case
  proof (cases "n \<le> sz")
    case False
    then show ?thesis by (subst update_loop.simps) auto
  next
    case True
    let ?t = "t[n := t ! n + of_int delta]" and ?n = "n + low n"
    have l: "0 < low n" using low_bounds less.prems(1) by simp
    have c: "covers ?n p"
      using low_next [OF less.prems(1)] less.prems(2) l by (auto simp: covers_def)
    have gap: "\<not> covers m p" if "n < m" "m < ?n" for m
      using low_between [OF less.prems(1) that] less.prems(2) by (auto simp: covers_def)
    have "0 \<le> int (unat (t ! n)) + delta" using less.prems(2,4) True by blast
    moreover have "c_int (int n + int (low n)) = Some (int ?n)"
      using True lim(1) low_bounds(2) [OF less.prems(1)] by (auto simp: c_int_def)
    moreover have "delta < 0 \<Longrightarrow> c_llong (- delta) \<noteq> None" using lim(2) by (auto simp: c_llong_def)
    ultimately have step: "update_loop (int sz) delta t (int n) = update_loop (int sz) delta ?t (int ?n)"
      using True less.prems(3) by (subst update_loop.simps) (auto simp: int_low)
    have "\<exists>t'. update_loop (int sz) delta ?t (int ?n) = Some t' \<and> length t' = length ?t \<and>
      (\<forall>m \<le> sz. t' ! m = (if ?n \<le> m \<and> covers m p then ?t ! m + of_int delta else ?t ! m))"
      using less.prems l c True by (intro less.hyps) auto
    then obtain t' where t': "update_loop (int sz) delta ?t (int ?n) = Some t'" "length t' = length t"
      "\<And>m. m \<le> sz \<Longrightarrow> t' ! m = (if ?n \<le> m \<and> covers m p then ?t ! m + of_int delta else ?t ! m)" by auto
    have "t' ! m = (if n \<le> m \<and> covers m p then t ! m + of_int delta else t ! m)" if "m \<le> sz" for m
    proof (cases "m = n")
      case True
      then show ?thesis using t'(3) [OF that] l less.prems(2,3) that by simp
    next
      case False
      then show ?thesis using t'(3) [OF that] gap [of m] l by (auto simp: not_le)
    qed
    then show ?thesis using step t'(1,2) by auto
  qed
qed

lemma psum_update:
  assumes "p < length a"
  shows "int (psum (a[p := v]) i) = int (psum a i) + (if p < i then int v - int (a ! p) else 0)"
proof (induction i)
  case (Suc i)
  show ?case
  proof (cases "i < length a")
    case True
    then show ?thesis using Suc psum_Suc [of i a] psum_Suc [of i "a[p := v]"] by (auto simp: nth_list_update less_Suc_eq split: if_splits)
  next
    case False
    then have "psum (a[p := v]) (Suc i) = psum (a[p := v]) i" "psum a (Suc i) = psum a i" by (simp_all add: psum_def)
    then show ?thesis using Suc False assms by simp
  qed
qed simp

lemma update_ok:
  assumes ft: "fw_ok ft a" and p: "p < length a" and v: "int (a ! p) + delta = int v" and s: "sum_list (a[p := v]) < 2 ^ 64"
    and delta: "- (2 ^ 63) < delta"
  shows "\<exists>ft'. fwTreeUpdate debug ft (int p) delta = Some ft' \<and> fw_ok ft' (a[p := v])"
proof -
  let ?b = "a[p := v]"
  have F: "size_bits ft < 30" "length a = 2 ^ size_bits ft" "fsize ft = int (length a)" "length (tree ft) = length a + 1"
    "ftotal ft = of_nat (sum_list a)"
    "\<And>n. 0 < n \<Longrightarrow> n \<le> length a \<Longrightarrow> tree ft ! n = of_nat (psum a n - psum a (n - low n))"
    using ft by (auto simp: fw_ok_def)
  have small: "psum a n < 2 ^ 64" for n using psum_le [of a n] ft by (simp add: fw_ok_def)
  have diff: "int (psum ?b n - psum ?b (n - low n)) = int (psum a n - psum a (n - low n)) + (if covers n p then delta else 0)"
    if "0 < n" for n
    using psum_update [OF p, of v n] psum_update [OF p, of v "n - low n"] psum_mono [of "n - low n" n a]
      psum_mono [of "n - low n" n ?b] v by (auto simp: covers_def of_nat_diff split: if_splits)
  have node: "0 \<le> int (unat (tree ft ! n)) + delta" if "0 < n" "n \<le> length a" "covers n p" for n
  proof -
    have "psum a n - psum a (n - low n) < 2 ^ 64" using small [of n] by simp
    then have "unat (tree ft ! n) = psum a n - psum a (n - low n)"
      using F(6) [OF that(1,2)] unat_w64_small by (simp add: w64_def)
    then show ?thesis using diff [OF that(1)] that(3) by (metis (full_types) of_nat_0_le_iff)
  qed
  have "(2 :: nat) ^ size_bits ft < 2 ^ 30" using F(1) by (intro power_strict_increasing) simp_all
  then have lim: "length a < 2 ^ 30" using F(2) by simp
  have "covers (p + 1) p" using low_bounds [of "p + 1"] by (auto simp: covers_def)
  then obtain t where t: "update_loop (int (length a)) delta (tree ft) (int (p + 1)) = Some t" "length t = length (tree ft)"
    "\<And>m. m \<le> length a \<Longrightarrow> t ! m = (if p + 1 \<le> m \<and> covers m p then tree ft ! m + of_int delta else tree ft ! m)"
    using update_loop_ok [of "p + 1" p "tree ft" "length a" delta] F(4) node lim delta by auto
  let ?ft = "ft\<lparr>ftotal := ftotal ft + of_int delta, tree := t\<rparr>"
  have ok: "fw_ok ?ft ?b"
    unfolding fw_ok_def
  proof (intro conjI allI impI)
    show "ftotal ?ft = of_nat (sum_list ?b)"
    proof -
      have "int (sum_list ?b) = int (sum_list a) + delta"
        using psum_update [OF p, of v "length a"] p v psum_all [of a] psum_all [of ?b] by simp
      then have "(of_int (int (sum_list ?b)) :: u64) = of_int (int (sum_list a) + delta)" by simp
      then show ?thesis using F(5) by simp
    qed
    fix n assume n: "0 < n \<and> n \<le> length ?b"
    have "(of_int (int (psum ?b n - psum ?b (n - low n))) :: u64) =
        of_int (int (psum a n - psum a (n - low n)) + (if covers n p then delta else 0))"
      using diff n by simp
    then show "tree ?ft ! n = of_nat (psum ?b n - psum ?b (n - low n))"
      using t(3) [of n] F(6) [of n] n by (auto simp: covers_def split: if_splits)
  qed (use F t s in auto)
  have "fwTreePrefixSum ?ft (fsize ?ft - 1) = Some (ftotal ?ft)"
  proof -
    have "0 \<le> fsize ?ft - 1" "nat (fsize ?ft - 1) + 1 = length ?b" using F(2,3) by (simp_all add: nat_diff_distrib)
    then have "fwTreePrefixSum ?ft (fsize ?ft - 1) = Some (of_nat (sum_list ?b))"
      using prefix_sum_ok [OF ok, of "fsize ?ft - 1"] psum_all [of ?b] by simp
    then show ?thesis using ok by (simp add: fw_ok_def)
  qed
  then have "fwTreeUpdate debug ft (int p) delta = Some ?ft"
    using t(1) p F(3) by (simp add: fwTreeUpdate_def add.commute Let_def)
  then show ?thesis using ok by blast
qed

text \<open>With \<open>2^30\<close> counters the last node of every update has the index \<open>2^30\<close>, and the next index is no \<open>int\<close>.\<close>

lemma update_overflows:
  assumes "length t = 2 ^ 30 + 1" and "0 \<le> delta"
  shows "update_loop (2 ^ 30) delta t (2 ^ 30) = None"
proof -
  have "int (low (2 ^ 30)) = 2 ^ 30" using low_eq [of 30 0] by simp
  then have "(2 ^ 30 :: int) AND - (2 ^ 30) = 2 ^ 30" using int_low [of "2 ^ 30"] by simp
  then show ?thesis using assms by (subst update_loop.simps) (simp add: c_int_def)
qed

section \<open>Search\<close>

lemma find_step:
  assumes ft: "fw_ok ft a" and dvd: "2 ^ Suc n dvd r" and c: "r + 2 ^ n \<le> length a"
    and target: "psum a r < target" "target \<le> sum_list a"
  defines "r' \<equiv> if psum a (r + 2 ^ n) < target then r + 2 ^ n else r"
  shows "find_loop (tree ft) n (int r) (of_nat (target - psum a r)) =
    (case n of 0 \<Rightarrow> Some (int r') | Suc m \<Rightarrow> find_loop (tree ft) m (int r') (of_nat (target - psum a r')))"
proof -
  let ?c = "r + 2 ^ n"
  define x where "x = target - psum a r"
  define y where "y = psum a ?c - psum a r"
  have le: "psum a r \<le> psum a ?c" by (rule psum_mono) simp
  have xy: "x < 2 ^ 64" "y < 2 ^ 64" using ft target psum_le [of a ?c] by (auto simp: fw_ok_def x_def y_def)
  have "int r + 2 ^ n = int ?c" by simp
  then have cur: "nat (int r + 2 ^ n) = ?c" by (simp only: nat_int)
  have "?c - low ?c = r" using low_add [OF dvd] by simp
  then have node: "tree ft ! ?c = w64 y" "?c < length (tree ft)"
    using ft c by (auto simp: fw_ok_def y_def w64_def)
  have gt: "w64 x > w64 y \<longleftrightarrow> psum a ?c < target"
    using xy target le by (auto simp: w64_less_iff x_def y_def)
  have sub: "w64 x - w64 y = w64 (target - psum a ?c)" if "psum a ?c < target"
    using that le by (simp add: x_def y_def)
  have "find_loop (tree ft) n (int r) (w64 x) =
    (case n of 0 \<Rightarrow> Some (int r') | Suc m \<Rightarrow> find_loop (tree ft) m (int r') (w64 (target - psum a r')))"
  proof (cases "psum a ?c < target")
    case True
    then show ?thesis using gt node sub by (subst find_loop.simps) (simp add: cur Let_def, cases n, simp_all add: r'_def)
  next
    case False
    then show ?thesis using gt node by (subst find_loop.simps) (simp add: cur Let_def, cases n, simp_all add: r'_def x_def)
  qed
  then show ?thesis unfolding x_def w64_def .
qed

lemma find_loop_ok:
  assumes ft: "fw_ok ft a" and "2 ^ Suc n dvd r" and "r + 2 ^ Suc n \<le> length a"
    and "psum a r < target" and "target \<le> psum a (r + 2 ^ Suc n)"
  shows "\<exists>j < length a. find_loop (tree ft) n (int r) (of_nat (target - psum a r)) = Some (int j) \<and>
    psum a j < target \<and> target \<le> psum a (Suc j)"
  using assms(2-)
proof (induction n arbitrary: r)
  case (Suc n)
  define r' where "r' = (if psum a (r + 2 ^ Suc n) < target then r + 2 ^ Suc n else r)"
  have t: "target \<le> sum_list a" using Suc.prems(4) psum_le order_trans by blast
  have double: "(2 :: nat) ^ Suc (Suc n) = 2 ^ Suc n + 2 ^ Suc n" by simp
  have d: "2 ^ Suc n dvd r" using Suc.prems(1) by (metis dvd_trans dvd_triv_right power_Suc)
  have c: "r + 2 ^ Suc n \<le> length a" using Suc.prems(2) by simp
  have step: "find_loop (tree ft) (Suc n) (int r) (of_nat (target - psum a r)) =
      find_loop (tree ft) n (int r') (of_nat (target - psum a r'))"
    using find_step [OF ft Suc.prems(1) c Suc.prems(3) t] by (simp only: nat.case r'_def)
  have "2 ^ Suc n dvd r'" "r' + 2 ^ Suc n \<le> length a" "psum a r' < target" "target \<le> psum a (r' + 2 ^ Suc n)"
    using d Suc.prems(2-4) unfolding r'_def double by (auto simp: add.assoc)
  from Suc.IH [OF this] show ?case by (simp only: step)
next
  case 0
  have t: "target \<le> sum_list a" using 0(4) psum_le order_trans by blast
  have r: "r + 1 < length a" using 0(2) by simp
  have "find_loop (tree ft) 0 (int r) (of_nat (target - psum a r)) = Some (int (if psum a (r + 1) < target then r + 1 else r))"
    using find_step [OF ft 0(1) _ 0(3) t] r by simp
  then show ?case using 0 r by auto
qed

lemma find_index_ok:
  assumes ft: "fw_ok ft a" and t: "0 < target" "target \<le> sum_list a"
  shows "\<exists>j < length a. fwTreeFindIndex ft (of_nat target) = Some (int j) \<and> psum a j < target \<and> target \<le> psum a (Suc j)"
proof -
  have F: "length a = 2 ^ size_bits ft" "length (tree ft) = length a + 1" "sum_list a < 2 ^ 64"
    "tree ft ! length a = of_nat (psum a (length a) - psum a (length a - low (length a)))"
    using ft by (auto simp: fw_ok_def)
  have "low (length a) = length a" using low_eq [of "size_bits ft" 0] F(1) by simp
  then have node: "tree ft ! (2 ^ size_bits ft) = w64 (sum_list a)" using F(1,4) psum_all [of a] by (simp add: w64_def)
  have pos: "\<not> w64 target \<le> 0" "\<not> w64 target > w64 (sum_list a)"
    using t F(3) w64_eq_0_iff [of target] by (auto simp: w64_less_iff)
  have first: "find_loop (tree ft) (size_bits ft) 0 (w64 target) =
      (case size_bits ft of 0 \<Rightarrow> Some 0 | Suc m \<Rightarrow> find_loop (tree ft) m 0 (w64 target))"
    using F(1,2) node pos(2) by (subst find_loop.simps) (simp add: nat_power_eq Let_def)
  show ?thesis
  proof (cases "size_bits ft")
    case 0
    then have "length a = 1" using F(1) by simp
    then show ?thesis using 0 first pos(1) t psum_all [of a] by (simp add: fwTreeFindIndex_def w64_def)
  next
    case (Suc m)
    have "\<exists>j < length a. find_loop (tree ft) m (int 0) (of_nat (target - psum a 0)) = Some (int j) \<and>
        psum a j < target \<and> target \<le> psum a (Suc j)"
      using F(1) Suc t psum_all [of a] by (intro find_loop_ok [OF ft]) auto
    then show ?thesis using Suc first pos(1) by (simp add: fwTreeFindIndex_def w64_def)
  qed
qed

text \<open>The next element after \<open>idx\<close> that is not zero, or -1.\<close>

lemma find_next_ok:
  assumes ft: "fw_ok ft a" and idx: "idx < length a" and s: "sum_list a < 2 ^ 64 - 1"
  shows "\<exists>j. fwTreeFindNextNonEmpty ft (int idx) = Some j \<and>
    (if j = - 1 then \<forall>i. idx < i \<and> i < length a \<longrightarrow> a ! i = 0
     else int idx < j \<and> nat j < length a \<and> 0 < a ! nat j \<and> (\<forall>i. idx < i \<and> i < nat j \<longrightarrow> a ! i = 0))"
proof -
  let ?s = "psum a (idx + 1)"
  have sz: "fsize ft = int (length a)" "ftotal ft = w64 (sum_list a)" using ft by (auto simp: fw_ok_def w64_def)
  have p: "fwTreePrefixSum ft (int idx) = Some (w64 ?s)" using prefix_sum_ok [OF ft, of "int idx"] by (simp add: w64_def)
  have le: "?s \<le> sum_list a" by (rule psum_le)
  have cmp: "w64 ?s + 1 \<le> ftotal ft \<longleftrightarrow> ?s < sum_list a" using le s sz(2) by (auto simp: w64_le_iff)
  have zero: "a ! i = 0" if "idx < i" "i < k" "k \<le> length a" "psum a k \<le> ?s" for i k
  proof -
    have "psum a (idx + 1) \<le> psum a i" "psum a (Suc i) \<le> psum a k" using that by (auto intro: psum_mono)
    then show ?thesis using psum_Suc [of i a] that by simp
  qed
  show ?thesis
  proof (cases "?s < sum_list a")
    case False
    then have "fwTreeFindNextNonEmpty ft (int idx) = Some (- 1)" using p cmp sz idx by (simp add: fwTreeFindNextNonEmpty_def Let_def)
    moreover have "\<forall>i. idx < i \<and> i < length a \<longrightarrow> a ! i = 0" using zero [of _ "length a"] False psum_all [of a] by auto
    ultimately show ?thesis by auto
  next
    case True
    obtain j where j: "j < length a" "fwTreeFindIndex ft (of_nat (?s + 1)) = Some (int j)" "psum a j < ?s + 1" "?s + 1 \<le> psum a (Suc j)"
      using find_index_ok [OF ft, of "?s + 1"] True by auto
    have find: "fwTreeFindIndex ft (w64 ?s + 1) = Some (int j)" using j(2) by (simp only: w64_def of_nat_add of_nat_1)
    have "idx < j" using j(4) psum_mono [of "Suc j" "idx + 1" a] by linarith
    moreover have "0 < a ! j" using j psum_Suc [OF j(1)] by simp
    moreover have "fwTreeFindNextNonEmpty ft (int idx) = Some (int j)"
      using p cmp sz(1) idx True find by (simp add: fwTreeFindNextNonEmpty_def Let_def del: w64_plus)
    ultimately show ?thesis using j(1,3) zero [of _ j] by auto
  qed
qed

end
