(* ===== verification/Rand48.thy ===== *)
theory Rand48
  imports Memory
begin

text \<open>
  Two small arithmetic components of the corpus. \<open>src/bench/redis-src/rand.c\<close> is the 48-bit linear
  congruential generator behind Redis' scripting, computed on 16-bit limbs with explicit carries;
  \<open>src/bench/redis-src/endianconv.c\<close> reverses the bytes of integers in place.
\<close>

section \<open>The generator\<close>

record rand_st =
  rx :: "u32 \<times> u32 \<times> u32"
  ra :: "u32 \<times> u32 \<times> u32"
  rc :: u32

definition MASK :: u32 where "MASK = 65535"

definition LOW :: "u32 \<Rightarrow> u32" where "LOW x = x AND MASK"
definition HIGH :: "u32 \<Rightarrow> u32" where "HIGH x = LOW (drop_bit 16 x)"

text \<open>The product of two limbs, kept in 32 bits and split; the sign of \<open>l\<close> does not reach the limbs.\<close>

definition MUL :: "u32 \<Rightarrow> u32 \<Rightarrow> u32 \<times> u32" where
  "MUL x y = (let l = x * y in (LOW l, HIGH l))"

definition CARRY :: "u32 \<Rightarrow> u32 \<Rightarrow> u32" where
  "CARRY x y = (if sint x + int (unat y) > 65535 then 1 else 0)"

text \<open>\<open>ADDEQU(x, y, z)\<close>: the new \<open>x\<close> and the carry \<open>z\<close>.\<close>

definition ADDEQU :: "u32 \<Rightarrow> u32 \<Rightarrow> u32 \<times> u32" where
  "ADDEQU x y = (LOW (x + y), CARRY x y)"

definition rand_init :: rand_st where
  "rand_init = \<lparr>rx = (0x330E, 0xABCD, 0x1234), ra = (0xE66D, 0xDEEC, 0x5), rc = 0xB\<rparr>"

definition rand_next :: "rand_st \<Rightarrow> rand_st" where
  "rand_next s =
     (let (x0, x1, x2) = rx s; (a0, a1, a2) = ra s;
          (p0, p1) = MUL a0 x0;
          (p0, carry0) = ADDEQU p0 (rc s);
          (p1, carry1) = ADDEQU p1 carry0;
          (q0, q1) = MUL a0 x1;
          (p1, carry0) = ADDEQU p1 q0;
          (r0, r1) = MUL a1 x0;
          x2 = LOW (carry0 + carry1 + CARRY p1 r0 + q1 + r1 + a0 * x2 + a1 * x1 + a2 * x0);
          x1 = LOW (p1 + r0);
          x0 = LOW p0
      in s\<lparr>rx := (x0, x1, x2)\<rparr>)"

definition redisLrand48 :: "rand_st \<Rightarrow> u32 \<times> rand_st" where
  "redisLrand48 s =
     (let s = rand_next s; (x0, x1, x2) = rx s in (push_bit 15 x2 + drop_bit 1 x1, s))"

definition redisSrand48 :: "u32 \<Rightarrow> rand_st \<Rightarrow> rand_st" where
  "redisSrand48 seedval s = s\<lparr>rx := (0x330E, LOW seedval, HIGH seedval), ra := (0xE66D, 0xDEEC, 0x5), rc := 0xB\<rparr>"

section \<open>Limbs\<close>

definition limb :: "u32 \<Rightarrow> bool" where "limb x \<longleftrightarrow> unat x < 65536"

fun val3 :: "u32 \<times> u32 \<times> u32 \<Rightarrow> nat" where
  "val3 (x0, x1, x2) = unat x0 + 65536 * unat x1 + 4294967296 * unat x2"

fun limbs :: "u32 \<times> u32 \<times> u32 \<Rightarrow> bool" where
  "limbs (x0, x1, x2) \<longleftrightarrow> limb x0 \<and> limb x1 \<and> limb x2"

lemma unat_LOW: "unat (LOW x) = unat x mod 65536"
proof -
  have "LOW x = take_bit 16 x" by (simp add: LOW_def MASK_def take_bit_eq_mask mask_eq_exp_minus_1)
  then show ?thesis by (simp add: take_bit_eq_mod unat_mod)
qed

lemma unat_HIGH: "unat (HIGH x) = unat x div 65536"
proof -
  have "unat x div 65536 < 65536" using unat_less32 [of x] by simp
  then show ?thesis by (simp add: HIGH_def unat_LOW drop_bit_eq_div unat_div)
qed

lemma limb_LOW [simp]: "limb (LOW x)"
  by (simp add: limb_def unat_LOW)

lemma limb_HIGH [simp]: "limb (HIGH x)"
  by (simp add: HIGH_def)

lemma MUL_ok:
  assumes "limb x" and "limb y" and "MUL x y = (l, h)"
  shows "unat x * unat y = unat l + 65536 * unat h" and "limb l" and "limb h"
proof -
  have "unat x * unat y \<le> 65535 * 65535" using assms(1,2) by (intro mult_le_mono) (simp_all add: limb_def)
  then have "unat (x * y) = unat x * unat y" by (simp add: unat_word_ariths)
  then show "unat x * unat y = unat l + 65536 * unat h" "limb l" "limb h"
    using assms(3) by (auto simp: MUL_def Let_def unat_LOW unat_HIGH)
qed

lemma sint_limb: "limb x \<Longrightarrow> sint x = uint x"
proof -
  assume "limb x"
  then have "int (unat x) < 65536" by (simp only: limb_def)
  then have "uint x < 65536" by simp
  moreover have "- 2147483648 \<le> uint x" by (rule order_trans [OF _ uint_ge_0]) simp
  ultimately show ?thesis by (subst sint_uint) (rule signed_take_bit_int_eq_self, simp_all)
qed

lemma CARRY_ok:
  assumes "limb x" and "limb y"
  shows "unat (CARRY x y) = (unat x + unat y) div 65536"
proof (cases "unat x + unat y < 65536")
  case True
  then have "int (unat x) + int (unat y) < 65536" by linarith
  then have "CARRY x y = 0" using assms by (simp add: CARRY_def sint_limb)
  then show ?thesis using True by simp
next
  case False
  then have "int (unat x) + int (unat y) > 65535" by linarith
  then have "CARRY x y = 1" using assms by (simp add: CARRY_def sint_limb)
  moreover have "(unat x + unat y) div 65536 = 1" using False assms by (intro div_nat_eqI) (simp_all add: limb_def)
  ultimately show ?thesis by simp
qed

lemma ADDEQU_ok:
  assumes "limb x" and "limb y" and "ADDEQU x y = (z, c)"
  shows "unat x + unat y = unat z + 65536 * unat c" and "limb z" and "unat c \<le> 1"
proof -
  have c: "unat (CARRY x y) \<le> 1" by (simp add: CARRY_def)
  have "unat x + unat y < 2 ^ 32" using assms(1,2) by (simp add: limb_def)
  then have "unat (x + y) = unat x + unat y" by (simp add: unat_word_ariths)
  then show "unat x + unat y = unat z + 65536 * unat c" "limb z" "unat c \<le> 1"
    using assms(3) CARRY_ok [OF assms(1,2)] c by (auto simp: ADDEQU_def unat_LOW)
qed

lemma unat_LOW_sum:
  "unat (LOW (a + b)) = (unat a + unat b) mod 65536" "unat (LOW (a * b)) = (unat a * unat b) mod 65536"
proof -
  have m: "n mod 2 ^ 32 mod 65536 = n mod (65536 :: nat)" for n by (rule mod_mod_cancel) simp
  show "unat (LOW (a + b)) = (unat a + unat b) mod 65536" "unat (LOW (a * b)) = (unat a * unat b) mod 65536"
    using m by (simp_all add: unat_LOW unat_word_ariths)
qed

text \<open>The last limb is computed in 32 bits, but only its residue matters.\<close>

lemma unat_LOW_8:
  "unat (LOW (a + b + c + d + e + f * g + h * i + j * k)) =
    (unat a + unat b + unat c + unat d + unat e + unat f * unat g + unat h * unat i + unat j * unat k) mod 65536"
proof -
  have "LOW y = LOW (of_nat (unat y))" for y by simp
  let ?n = "unat a + unat b + unat c + unat d + unat e + unat f * unat g + unat h * unat i + unat j * unat k"
  have "a + b + c + d + e + f * g + h * i + j * k = w32 ?n" by (simp add: w32_def)
  then have "unat (a + b + c + d + e + f * g + h * i + j * k) = ?n mod 2 ^ 32" by (simp only: unat_w32)
  then show ?thesis by (simp only: unat_LOW) (rule mod_mod_cancel, simp)
qed

section \<open>The generator steps a linear congruence\<close>

lemma limb_sum:
  fixes P Q R M N :: nat
  assumes "P = p0 + 65536 * p1" and "p0 + c = p0' + 65536 * c0" and "p1 + c0 = p1' + 65536 * c1"
    and "Q = q0 + 65536 * q1" and "p1' + q0 = p1'' + 65536 * c2" and "R = r0 + 65536 * r1"
    and "p1'' + r0 = y1 + 65536 * c3" and "c2 + c1 + c3 + q1 + r1 + M = y2 + 65536 * k"
  shows "P + c + 65536 * (Q + R) + 4294967296 * M + 281474976710656 * N =
    p0' + 65536 * y1 + 4294967296 * y2 + 281474976710656 * (k + N)"
  using assms by simp

lemma rand_next_ok:
  assumes "limbs (rx s)" and "limbs (ra s)" and "limb (rc s)"
  shows "limbs (rx (rand_next s))"
    and "val3 (rx (rand_next s)) = (val3 (ra s) * val3 (rx s) + unat (rc s)) mod 2 ^ 48"
    and "ra (rand_next s) = ra s" and "rc (rand_next s) = rc s"
proof -
  obtain x0 x1 x2 where x: "rx s = (x0, x1, x2)" by (cases "rx s")
  obtain a0 a1 a2 where a: "ra s = (a0, a1, a2)" by (cases "ra s")
  have l: "limb x0" "limb x1" "limb a0" "limb a1" using assms x a by auto
  obtain p0 p1 where p: "MUL a0 x0 = (p0, p1)" by (cases "MUL a0 x0")
  note P = MUL_ok [OF l(3,1) p]
  obtain p0' c0 where e0: "ADDEQU p0 (rc s) = (p0', c0)" by (cases "ADDEQU p0 (rc s)")
  note E0 = ADDEQU_ok [OF P(2) assms(3) e0]
  have c0: "limb c0" using E0(3) by (simp add: limb_def)
  obtain p1' c1 where e1: "ADDEQU p1 c0 = (p1', c1)" by (cases "ADDEQU p1 c0")
  note E1 = ADDEQU_ok [OF P(3) c0 e1]
  obtain q0 q1 where q: "MUL a0 x1 = (q0, q1)" by (cases "MUL a0 x1")
  note Q = MUL_ok [OF l(3,2) q]
  obtain p1'' c2 where e2: "ADDEQU p1' q0 = (p1'', c2)" by (cases "ADDEQU p1' q0")
  note E2 = ADDEQU_ok [OF E1(2) Q(2) e2]
  obtain r0 r1 where r: "MUL a1 x0 = (r0, r1)" by (cases "MUL a1 x0")
  note R = MUL_ok [OF l(4,1) r]
  let ?y2 = "LOW (c2 + c1 + CARRY p1'' r0 + q1 + r1 + a0 * x2 + a1 * x1 + a2 * x0)" and ?y1 = "LOW (p1'' + r0)"
  have y: "rx (rand_next s) = (LOW p0', ?y1, ?y2)"
    unfolding rand_next_def x a by (simp add: p e0 e1 q e2 r Let_def)
  show "limbs (rx (rand_next s))" unfolding y by simp
  show "ra (rand_next s) = ra s" "rc (rand_next s) = rc s"
    by (simp_all add: rand_next_def Let_def split: prod.splits)
  have low: "unat (LOW p0') = unat p0'" using E0(2) by (simp add: unat_LOW limb_def)
  have c3: "unat p1'' + unat r0 = unat ?y1 + 65536 * unat (CARRY p1'' r0)"
    using CARRY_ok [OF E2(2) R(2)] by (simp add: unat_LOW_sum(1))
  define M N where "M = unat a0 * unat x2 + unat a1 * unat x1 + unat a2 * unat x0"
    and "N = unat a1 * unat x2 + unat a2 * unat x1 + 65536 * (unat a2 * unat x2)"
  have "unat ?y2 = (unat c2 + unat c1 + unat (CARRY p1'' r0) + unat q1 + unat r1 + M) mod 65536"
    unfolding unat_LOW_8 M_def by (simp only: add.assoc)
  then obtain k where k: "unat c2 + unat c1 + unat (CARRY p1'' r0) + unat q1 + unat r1 + M = unat ?y2 + 65536 * k"
    by (metis mod_mult_div_eq)
  define A X Y where "A = val3 (ra s)" and "X = val3 (rx s)" and "Y = val3 (rx (rand_next s))"
  have "A * X + unat (rc s) = unat a0 * unat x0 + unat (rc s) + 65536 * (unat a0 * unat x1 + unat a1 * unat x0) +
      4294967296 * M + 281474976710656 * N"
    unfolding A_def X_def x a M_def N_def by (simp add: algebra_simps)
  also have "\<dots> = Y + 281474976710656 * (k + N)"
    unfolding Y_def y val3.simps low
    by (rule limb_sum [OF P(1) E0(1) E1(1) Q(1) E2(1) R(1) c3 k])
  finally have "A * X + unat (rc s) = Y + 281474976710656 * (k + N)" .
  moreover have "Y < 281474976710656"
    unfolding Y_def y val3.simps using limb_LOW [of p0'] limb_LOW [of "p1'' + r0"]
      limb_LOW [of "c2 + c1 + CARRY p1'' r0 + q1 + r1 + a0 * x2 + a1 * x1 + a2 * x0"] unfolding limb_def by linarith
  ultimately have "(A * X + unat (rc s)) mod 281474976710656 = Y" by (simp only: mod_mult_self2 mod_less)
  then show "val3 (rx (rand_next s)) = (val3 (ra s) * val3 (rx s) + unat (rc s)) mod 2 ^ 48"
    unfolding A_def X_def Y_def by simp
qed

text \<open>The number returned is the upper 31 bits of the 48.\<close>

lemma lrand48_ok:
  assumes "limbs (rx s)" and "limbs (ra s)" and "limb (rc s)" and "redisLrand48 s = (v, s')"
  shows "s' = rand_next s" and "unat v = val3 (rx s') div 2 ^ 17"
proof -
  show s': "s' = rand_next s" using assms(4) by (simp add: redisLrand48_def Let_def split: prod.splits)
  obtain x0 x1 x2 where x: "rx s' = (x0, x1, x2)" by (cases "rx s'")
  have l: "unat x0 < 65536" "unat x1 < 65536" "unat x2 < 65536"
    using rand_next_ok(1) [OF assms(1-3)] x s' by (auto simp: limb_def)
  have v: "v = push_bit 15 x2 + drop_bit 1 x1" using assms(4) x s' by (simp add: redisLrand48_def Let_def)
  have "push_bit 15 x2 + drop_bit 1 x1 = w32 (32768 * unat x2 + unat x1 div 2)"
  proof -
    have "drop_bit 1 x1 = w32 (unat x1 div 2)"
      by (rule word_unat_eq_iff [THEN iffD2]) (use l in \<open>simp add: unat_w32 drop_bit_eq_div unat_div\<close>)
    then show ?thesis by (simp add: w32_def push_bit_eq_mult)
  qed
  moreover have "32768 * unat x2 + unat x1 div 2 < 2 ^ 32" using l by simp
  ultimately have "unat v = 32768 * unat x2 + unat x1 div 2" unfolding v by (simp only: unat_w32_small)
  also have "\<dots> = (unat x0 + 65536 * unat x1 + 4294967296 * unat x2) div 131072"
    using l by linarith
  finally show "unat v = val3 (rx s') div 2 ^ 17" by (simp add: x)
qed

section \<open>Byte order\<close>

definition memrev16 :: "u8 list \<Rightarrow> u8 list" where
  "memrev16 x = (let t = x ! 0; x = x[0 := x ! 1]; x = x[1 := t] in x)"

definition memrev32 :: "u8 list \<Rightarrow> u8 list" where
  "memrev32 x =
     (let t = x ! 0; x = x[0 := x ! 3]; x = x[3 := t];
          t = x ! 1; x = x[1 := x ! 2]; x = x[2 := t] in x)"

definition memrev64 :: "u8 list \<Rightarrow> u8 list" where
  "memrev64 x =
     (let t = x ! 0; x = x[0 := x ! 7]; x = x[7 := t];
          t = x ! 1; x = x[1 := x ! 6]; x = x[6 := t];
          t = x ! 2; x = x[2 := x ! 5]; x = x[5 := t];
          t = x ! 3; x = x[3 := x ! 4]; x = x[4 := t] in x)"

definition intrev16 :: "16 word \<Rightarrow> 16 word" where "intrev16 v = le_word (memrev16 (le_bytes 2 v))"
definition intrev32 :: "u32 \<Rightarrow> u32" where "intrev32 v = le_word (memrev32 (le_bytes 4 v))"
definition intrev64 :: "u64 \<Rightarrow> u64" where "intrev64 v = le_word (memrev64 (le_bytes 8 v))"

lemma memrev_rev:
  "length x = 2 \<Longrightarrow> memrev16 x = rev x" "length x = 4 \<Longrightarrow> memrev32 x = rev x" "length x = 8 \<Longrightarrow> memrev64 x = rev x"
  by (auto simp: memrev16_def memrev32_def memrev64_def numeral_eq_Suc length_Suc_conv)

text \<open>Only the bytes of the integer are touched.\<close>

lemma memrev_prefix:
  "2 \<le> length x \<Longrightarrow> memrev16 x = rev (take 2 x) @ drop 2 x"
  "4 \<le> length x \<Longrightarrow> memrev32 x = rev (take 4 x) @ drop 4 x"
  "8 \<le> length x \<Longrightarrow> memrev64 x = rev (take 8 x) @ drop 8 x"
  by (auto simp: memrev16_def memrev32_def memrev64_def numeral_eq_Suc Suc_le_length_iff)

text \<open>The bytes of the result are those of the argument in the other order, so reversing twice is the identity.\<close>

lemma intrev_bytes:
  "le_bytes 2 (intrev16 v) = rev (le_bytes 2 v)" "le_bytes 4 (intrev32 w) = rev (le_bytes 4 w)"
  "le_bytes 8 (intrev64 x) = rev (le_bytes 8 x)"
  using le_bytes_le_word [of "memrev16 (le_bytes 2 v)", where 'a = 16]
    le_bytes_le_word [of "memrev32 (le_bytes 4 w)", where 'a = 32]
    le_bytes_le_word [of "memrev64 (le_bytes 8 x)", where 'a = 64]
  by (simp_all add: intrev16_def intrev32_def intrev64_def memrev_rev)

lemma intrev_intrev: "intrev16 (intrev16 v) = v" "intrev32 (intrev32 w) = w" "intrev64 (intrev64 x) = x"
proof -
  have "le_word (memrev16 (le_bytes 2 (intrev16 v))) = (le_word (le_bytes 2 v) :: 16 word)"
    by (simp add: memrev_rev(1) intrev_bytes(1))
  then show "intrev16 (intrev16 v) = v" by (simp add: intrev16_def le_word_le_bytes take_bit_word_eq_self)
  have "le_word (memrev32 (le_bytes 4 (intrev32 w))) = (le_word (le_bytes 4 w) :: u32)"
    by (simp add: memrev_rev(2) intrev_bytes(2))
  then show "intrev32 (intrev32 w) = w" by (simp add: intrev32_def le_word_le_bytes take_bit_word_eq_self)
  have "le_word (memrev64 (le_bytes 8 (intrev64 x))) = (le_word (le_bytes 8 x) :: u64)"
    by (simp add: memrev_rev(3) intrev_bytes(3))
  then show "intrev64 (intrev64 x) = x" by (simp add: intrev64_def le_word_le_bytes take_bit_word_eq_self)
qed

end
