(* ===== verification/Localtime.thy ===== *)
theory Localtime
  imports Prelude "HOL-Library.Signed_Division"
begin

text \<open>
  The lock-free \<open>localtime\<close> of the corpus, \<open>src/bench/redis-src/localtime.c\<close>. Times are integers, with
  the division of C, which truncates; an overflow of \<open>time_t\<close> or of the \<open>int\<close> that holds the year is \<open>None\<close>, and
  the conversion of \<open>time_t\<close> to \<open>int\<close> wraps around. The specification is the other direction: the number of
  seconds from the epoch to a broken-down time.
\<close>

section \<open>Code\<close>

definition is_leap_year :: "int \<Rightarrow> int" where
  "is_leap_year year =
     (if year smod 4 \<noteq> 0 then 0 else if year smod 100 \<noteq> 0 then 1 else if year smod 400 \<noteq> 0 then 0 else 1)"

record tm =
  tm_sec :: int
  tm_min :: int
  tm_hour :: int
  tm_mday :: int
  tm_mon :: nat
  tm_year :: int
  tm_wday :: int
  tm_yday :: int
  tm_isdst :: int

lemma is_leap_year_cases: "is_leap_year y = 0 \<or> is_leap_year y = 1"
  by (simp add: is_leap_year_def)

function year_loop :: "int \<Rightarrow> int \<Rightarrow> (int \<times> int) option" where
  "year_loop year days =
     (let days_this_year = 365 + is_leap_year year in
      if days_this_year > days then Some (year, days)
      else case c_int (year + 1) of None \<Rightarrow> None | Some year \<Rightarrow> year_loop year (days - days_this_year))"
  by auto
termination
proof (relation "measure (\<lambda>(_, days). nat days)")
  fix year days x y :: int
  assume "x = 365 + is_leap_year year" and "\<not> days < x"
  then show "((y, days - x), year, days) \<in> measure (\<lambda>(_, days). nat days)"
    using is_leap_year_cases [of year] by auto
qed simp

declare year_loop.simps [simp del]

definition mdays_of :: "int \<Rightarrow> int list" where
  "mdays_of year = [31, 28 + is_leap_year year, 31, 30, 31, 30, 31, 31, 30, 31, 30, 31]"

text \<open>The month and the rest of the days; running past December is \<open>None\<close>.\<close>

fun month_loop :: "int list \<Rightarrow> nat \<Rightarrow> int \<Rightarrow> (nat \<times> int) option" where
  "month_loop [] mon days = None"
| "month_loop (n # mdays) mon days = (if days \<ge> n then month_loop mdays (mon + 1) (days - n) else Some (mon, days))"

definition nolocks_localtime :: "int \<Rightarrow> int \<Rightarrow> int \<Rightarrow> tm option" where
  "nolocks_localtime t tz dst =
     do {
       t \<leftarrow> c_llong (t - tz);
       off \<leftarrow> c_int (3600 * dst);
       t \<leftarrow> c_llong (t + off);
       let days = t sdiv 86400;
       let seconds = t smod 86400;
       let wday = (days + 4) smod 7;
       (year, yday) \<leftarrow> year_loop 1970 days;
       (mon, d) \<leftarrow> month_loop (mdays_of year) 0 yday;
       Some \<lparr>tm_sec = (seconds smod 3600) smod 60, tm_min = (seconds smod 3600) sdiv 60, tm_hour = seconds sdiv 3600,
         tm_mday = to_int (d + 1), tm_mon = mon, tm_year = year - 1900, tm_wday = wday, tm_yday = to_int yday,
         tm_isdst = dst\<rparr>
     }"

section \<open>The calendar\<close>

text \<open>The Gregorian calendar, with leap years counted by division.\<close>

definition leap :: "int \<Rightarrow> bool" where
  "leap y \<longleftrightarrow> 4 dvd y \<and> (100 dvd y \<longrightarrow> 400 dvd y)"

definition leaps_until :: "int \<Rightarrow> int" where
  "leaps_until y = y div 4 - y div 100 + y div 400"

definition days_to_year :: "int \<Rightarrow> int" where
  "days_to_year y = 365 * (y - 1970) + leaps_until (y - 1) - leaps_until 1969"

definition month_days :: "int \<Rightarrow> int list" where
  "month_days y = [31, if leap y then 29 else 28, 31, 30, 31, 30, 31, 31, 30, 31, 30, 31]"

text \<open>The days from the epoch to the first of January of the \<open>n\<close>-th year after 1970, as the loop counts them.\<close>

fun days_before :: "nat \<Rightarrow> int" where
  "days_before 0 = 0"
| "days_before (Suc n) = days_before n + 365 + is_leap_year (1970 + int n)"

definition day_number :: "tm \<Rightarrow> int" where
  "day_number d =
     days_to_year (tm_year d + 1900) + sum_list (take (tm_mon d) (month_days (tm_year d + 1900))) + tm_mday d - 1"

definition timegm :: "tm \<Rightarrow> int" where
  "timegm d = 86400 * day_number d + 3600 * tm_hour d + 60 * tm_min d + tm_sec d"

definition tm_valid :: "tm \<Rightarrow> bool" where
  "tm_valid d \<longleftrightarrow> 0 \<le> tm_sec d \<and> tm_sec d < 60 \<and> 0 \<le> tm_min d \<and> tm_min d < 60 \<and> 0 \<le> tm_hour d \<and> tm_hour d < 24 \<and>
     tm_mon d < 12 \<and> 1 \<le> tm_mday d \<and> tm_mday d \<le> month_days (tm_year d + 1900) ! tm_mon d \<and> 70 \<le> tm_year d \<and>
     0 \<le> tm_wday d \<and> tm_wday d < 7 \<and>
     tm_yday d = sum_list (take (tm_mon d) (month_days (tm_year d + 1900))) + tm_mday d - 1"

lemma sdiv_div: "0 \<le> a \<Longrightarrow> 0 < b \<Longrightarrow> a sdiv b = a div (b :: int)" "0 \<le> a \<Longrightarrow> 0 < b \<Longrightarrow> a smod b = a mod (b :: int)"
  by (simp_all add: signed_divide_int_def signed_modulo_int_def sgn_if minus_div_mult_eq_mod)

lemma div_step: "0 < k \<Longrightarrow> y div k = (y - 1) div k + (if k dvd y then 1 else (0 :: int))"
proof -
  assume k: "0 < k"
  show ?thesis
  proof (cases "k dvd y")
    case True
    then obtain q where "y = k * q" by blast
    moreover have "(k * q - 1) div k = q - 1"
      using k div_mult_self2 [of k "k - 1" "q - 1"] by (simp add: algebra_simps)
    ultimately show ?thesis using k by simp
  next
    case False
    then have "0 < y mod k" using k by (metis dvd_eq_mod_eq_0 le_less pos_mod_sign)
    moreover have "y - 1 = k * (y div k) + (y mod k - 1)" by simp
    moreover have "(k * q + r) div k = q" if "0 \<le> r" "r < k" for q r :: int using that k by simp
    ultimately have "(y - 1) div k = y div k" using k pos_mod_bound [of k y] by (metis le_less less_iff_diff_less_0 diff_ge_0_iff_ge zless_imp_add1_zle add_0 diff_less_eq less_add_one order_less_trans)
    then show ?thesis using False by simp
  qed
qed

lemma is_leap_year_leap: "0 \<le> y \<Longrightarrow> is_leap_year y = (if leap y then 1 else 0)"
  by (auto simp: is_leap_year_def leap_def sdiv_div dvd_eq_mod_eq_0)

lemma mdays_of_month_days: "0 \<le> y \<Longrightarrow> mdays_of y = month_days y"
  by (simp add: mdays_of_def month_days_def is_leap_year_leap)

lemma leaps_step: "leaps_until y = leaps_until (y - 1) + (if leap y then 1 else 0)"
proof -
  define a b c where "a = (4 dvd y)" and "b = (100 dvd y)" and "c = (400 dvd y)"
  have "b \<Longrightarrow> a" unfolding a_def b_def using dvd_trans [of 4 100 y] by simp
  moreover have "c \<Longrightarrow> b" unfolding b_def c_def using dvd_trans [of 100 400 y] by simp
  moreover have "y div 4 = (y - 1) div 4 + (if a then 1 else 0)" "y div 100 = (y - 1) div 100 + (if b then 1 else 0)"
    "y div 400 = (y - 1) div 400 + (if c then 1 else 0)"
    unfolding a_def b_def c_def by (rule div_step; simp)+
  moreover have "leap y \<longleftrightarrow> a \<and> (b \<longrightarrow> c)" by (simp add: leap_def a_def b_def c_def)
  ultimately show ?thesis
    unfolding leaps_until_def by (cases a; cases b; cases c) simp_all
qed

lemma days_before_year: "days_before n = days_to_year (1970 + int n)"
proof (induction n)
  case (Suc n)
  then show ?case
    using leaps_step [of "1970 + int n"] is_leap_year_leap [of "1970 + int n"] by (simp add: days_to_year_def algebra_simps)
qed (simp add: days_to_year_def)

lemma days_before_mono: "m \<le> n \<Longrightarrow> days_before m \<le> days_before n"
proof (induction rule: dec_induct)
  case (step n)
  then show ?case using is_leap_year_cases [of "1970 + int n"] by auto
qed simp

text \<open>The loop stays inside \<open>int\<close> up to the end of the year \<open>2^31 - 1\<close>.\<close>

lemma year_loop_ok:
  assumes "0 \<le> days" and "days_before n + days < days_before N" and N: "int N = 2 ^ 31 - 1970"
  shows "\<exists>m yday. year_loop (1970 + int n) days = Some (1970 + int m, yday) \<and> n \<le> m \<and> days_before n + days = days_before m + yday \<and>
    0 \<le> yday \<and> yday < 365 + is_leap_year (1970 + int m)"
  using assms(1,2)
proof (induction "nat days" arbitrary: days n rule: less_induct)
  case less
  let ?k = "365 + is_leap_year (1970 + int n)"
  show ?case
  proof (cases "?k > days")
    case True
    then show ?thesis using less.prems by (subst year_loop.simps) auto
  next
    case False
    have "Suc n < N" using days_before_mono [of N "Suc n"] less.prems(2) False by (cases "Suc n < N") auto
    then have "c_int (1970 + int n + 1) = Some (1970 + int (Suc n))" using N by (auto simp: c_int_def)
    then have step: "year_loop (1970 + int n) days = year_loop (1970 + int (Suc n)) (days - ?k)"
      using False by (subst year_loop.simps) simp
    have "nat (days - ?k) < nat days" using False is_leap_year_cases [of "1970 + int n"] by auto
    then have "\<exists>m yday. year_loop (1970 + int (Suc n)) (days - ?k) = Some (1970 + int m, yday) \<and> Suc n \<le> m \<and>
        days_before (Suc n) + (days - ?k) = days_before m + yday \<and> 0 \<le> yday \<and> yday < 365 + is_leap_year (1970 + int m)"
      using False less.prems(2) by (intro less.hyps) auto
    then show ?thesis unfolding step by auto
  qed
qed

lemma month_loop_ok:
  assumes "0 \<le> days" and "days < sum_list ns" and "\<forall>n \<in> set ns. 0 < n"
  shows "\<exists>k d. month_loop ns mon days = Some (mon + k, d) \<and> k < length ns \<and> 0 \<le> d \<and> d < ns ! k \<and> days = sum_list (take k ns) + d"
  using assms
proof (induction ns arbitrary: mon days)
  case (Cons n ns)
  show ?case
  proof (cases "days \<ge> n")
    case True
    then obtain k d where "month_loop ns (mon + 1) (days - n) = Some (mon + 1 + k, d)" "k < length ns" "0 \<le> d" "d < ns ! k"
      "days - n = sum_list (take k ns) + d"
      using Cons.IH [of "days - n" "mon + 1"] Cons.prems by auto
    then show ?thesis using True by (intro exI [of _ "Suc k"] exI [of _ d]) auto
  next
    case False
    then show ?thesis using Cons.prems by (intro exI [of _ 0] exI [of _ days]) auto
  qed
qed simp

lemma mdays_of_props:
  "length (mdays_of y) = 12" "sum_list (mdays_of y) = 365 + is_leap_year y" "\<forall>n \<in> set (mdays_of y). 0 < n"
  using is_leap_year_cases [of y] by (auto simp: mdays_of_def)

lemma localtime_ok:
  assumes "0 \<le> t - tz + 3600 * dst" and lim: "t - tz + 3600 * dst < 86400 * days_to_year (2 ^ 31)" and dst: "\<bar>3600 * dst\<bar> < 2 ^ 31"
  shows "\<exists>d. nolocks_localtime t tz dst = Some d \<and> tm_valid d \<and> timegm d = t - tz + 3600 * dst \<and>
    tm_wday d = (day_number d + 4) mod 7 \<and> tm_isdst d = dst"
proof -
  define u where "u = t - tz + 3600 * dst"
  have u: "0 \<le> u" "u < 86400 * days_to_year (2 ^ 31)" using assms by (simp_all add: u_def)
  define days secs where "days = u div 86400" and "secs = u mod 86400"
  have ds: "0 \<le> days" "0 \<le> secs" "secs < 86400" "u = 86400 * days + secs" using u by (simp_all add: days_def secs_def)
  define N where "N = nat (2 ^ 31 - 1970)"
  have N: "int N = 2 ^ 31 - 1970" by (simp add: N_def)
  have "1970 + int N = 2 ^ 31" using N by simp
  then have "days < days_before N" unfolding days_before_year using u(2) ds by simp
  then obtain m yday where y: "year_loop 1970 days = Some (1970 + int m, yday)" and
    m: "days = days_before m + yday" "0 \<le> yday" "yday < 365 + is_leap_year (1970 + int m)"
    using year_loop_ok [OF ds(1) _ N, of 0] by auto
  define year where "year = 1970 + int m"
  have year: "0 \<le> year" "yday < 365 + is_leap_year year" using m(3) by (simp_all add: year_def)
  obtain mon d where d: "month_loop (mdays_of year) 0 yday = Some (mon, d)" "mon < 12" "0 \<le> d" "d < mdays_of year ! mon"
    "yday = sum_list (take mon (mdays_of year)) + d"
    using month_loop_ok [of yday "mdays_of year" 0] m year mdays_of_props [of year] by auto
  have "d \<le> yday" using d(5) mdays_of_props(3) [of year] by (auto intro!: sum_list_nonneg intro: less_imp_le dest!: in_set_takeD)
  then have small: "to_int (d + 1) = d + 1" "to_int yday = yday"
    using d(3) m(2) year is_leap_year_cases [of year] by (auto simp: to_int_def)
  let ?d = "\<lparr>tm_sec = (secs mod 3600) mod 60, tm_min = (secs mod 3600) div 60, tm_hour = secs div 3600,
    tm_mday = d + 1, tm_mon = mon, tm_year = year - 1900, tm_wday = (days + 4) mod 7, tm_yday = yday, tm_isdst = dst\<rparr>"
  have div: "u sdiv 86400 = days" "u smod 86400 = secs" using u by (simp_all add: sdiv_div days_def secs_def)
  have "days_to_year (2 ^ 31) < 2 ^ 40" by (simp add: days_to_year_def leaps_until_def)
  then have lim64: "u < 2 ^ 62" using u(2) by simp
  have c: "c_llong (t - tz) = Some (t - tz)" "c_int (3600 * dst) = Some (3600 * dst)" "c_llong (t - tz + 3600 * dst) = Some u"
    using u(1) lim64 dst by (auto simp: c_llong_def c_int_def u_def)
  have "nolocks_localtime t tz dst = Some ?d"
    using d(1) y ds small by (simp add: nolocks_localtime_def c div sdiv_div year_def [symmetric])
  moreover have dn: "day_number ?d = days"
    using m d(5) year(1) by (simp add: day_number_def days_before_year mdays_of_month_days year_def [symmetric])
  moreover have "tm_valid ?d" using d m year ds by (auto simp: tm_valid_def mdays_of_month_days year_def)
  moreover have "timegm ?d = u" using ds by (simp add: timegm_def dn)
  ultimately show ?thesis unfolding u_def by auto
qed

end
