(* ===== verification/Gf2.thy ===== *)
theory Gf2
  imports Memory
begin

text \<open>
  Functions on words that are linear over the field of two elements, where addition is exclusive or.
  They are what the cyclic redundancy codes compute with: a function of this kind is known from its
  values on the single bits, its powers are linear too, and a matrix with those values as rows
  represents it. The matrix product, its square and the cache of squares are those of
  \<open>src/bench/redis-src/crccombine.c\<close>.
\<close>

section \<open>Linear functions\<close>

locale xor_linear =
  fixes f :: "'a::len word \<Rightarrow> 'b::len word"
  assumes xor: "f (a XOR b) = f a XOR f b"
begin

lemma zero: "f 0 = 0"
  using xor [of 0 0] by simp

lemma cond: "f (if c then a else 0) = (if c then f a else 0)"
  by (simp add: zero)

end

lemma take_bit_Suc_word:
  "take_bit (Suc k) (v :: 'a::len word) = take_bit k v XOR (if bit v k then 2 ^ k else 0)"
  by (rule bit_word_eqI) (auto simp: bit_simps less_Suc_eq)

lemma xor_linear_ext:
  fixes f g :: "'a::len word \<Rightarrow> 'b::len word"
  assumes f: "xor_linear f" and g: "xor_linear g"
    and basis: "\<And>n. n < LENGTH('a) \<Longrightarrow> f (2 ^ n) = g (2 ^ n)"
  shows "f v = g v"
proof -
  have "k \<le> LENGTH('a) \<Longrightarrow> f (take_bit k v) = g (take_bit k v)" for k
    by (induction k) (simp_all add: take_bit_Suc_word xor_linear.xor [OF f] xor_linear.xor [OF g]
      xor_linear.cond [OF f] xor_linear.cond [OF g] xor_linear.zero [OF f] xor_linear.zero [OF g] basis)
  from this [of "LENGTH('a)"] show ?thesis
    by (simp add: take_bit_word_eq_self)
qed

lemma xor_linear_funpow: "xor_linear (f :: 'a::len word \<Rightarrow> 'a word) \<Longrightarrow> xor_linear (f ^^ n)"
  by (induction n) (auto simp: xor_linear_def)

lemma xor_linear_comp: "xor_linear f \<Longrightarrow> xor_linear g \<Longrightarrow> xor_linear (\<lambda>x. f (g x))"
  by (simp add: xor_linear_def)

lemma xor_linear_push: "xor_linear (push_bit n)"
  by unfold_locales (rule bit_word_eqI, auto simp: bit_simps)

lemma xor_linear_drop: "xor_linear (drop_bit n)"
  by unfold_locales (rule bit_word_eqI, auto simp: bit_simps)

lemma xor_linear_and: "xor_linear (\<lambda>x. x AND m)"
  by unfold_locales (rule bit_word_eqI, auto simp: bit_simps)

lemma xor_linear_ucast: "xor_linear ucast"
  by unfold_locales (rule bit_word_eqI, auto simp: bit_simps)

lemma xor_linear_xor: "xor_linear f \<Longrightarrow> xor_linear g \<Longrightarrow> xor_linear (\<lambda>x. f x XOR g x)"
  by (simp add: xor_linear_def ac_simps)

lemma xor_linear_id: "xor_linear (\<lambda>x. x)"
  by unfold_locales simp

lemma xor_linear_test: "xor_linear (\<lambda>x. if bit x n then (c :: 'b::len word) else 0)"
  by unfold_locales (auto simp: bit_simps)

lemmas xor_linear_intros =
  xor_linear_comp xor_linear_xor xor_linear_push xor_linear_drop xor_linear_and xor_linear_ucast xor_linear_id xor_linear_test

lemma or_xor_word: "(a :: 'a::len word) AND b = 0 \<Longrightarrow> a OR b = a XOR b"
  by (rule bit_word_eqI) (metis bit_and_iff bit_or_iff bit_xor_iff bit_0_eq bot_apply bot_bool_def)

lemma and_ff_take: "x AND 0xff = take_bit 8 (x :: 'a::len word)"
  using take_bit_eq_mask [of 8 x] by (simp add: mask_eq_exp_minus_1)

section \<open>Matrices\<close>

text \<open>Sixteen cases of the low four bits, as the switch has them; \<open>i\<close> is how far \<open>mat\<close> has moved.\<close>

definition switch_sum :: "u64 list \<Rightarrow> nat \<Rightarrow> u64 \<Rightarrow> u64 \<Rightarrow> u64" where
  "switch_sum mat i k acc =
     (if k = 15 then acc XOR (mat ! i XOR mat ! (i + 1) XOR mat ! (i + 2) XOR mat ! (i + 3))
      else if k = 14 then acc XOR (mat ! (i + 1) XOR mat ! (i + 2) XOR mat ! (i + 3))
      else if k = 13 then acc XOR (mat ! i XOR mat ! (i + 2) XOR mat ! (i + 3))
      else if k = 12 then acc XOR (mat ! (i + 2) XOR mat ! (i + 3))
      else if k = 11 then acc XOR (mat ! i XOR mat ! (i + 1) XOR mat ! (i + 3))
      else if k = 10 then acc XOR (mat ! (i + 1) XOR mat ! (i + 3))
      else if k = 9 then acc XOR (mat ! i XOR mat ! (i + 3))
      else if k = 8 then acc XOR mat ! (i + 3)
      else if k = 7 then acc XOR (mat ! i XOR mat ! (i + 1) XOR mat ! (i + 2))
      else if k = 6 then acc XOR (mat ! (i + 1) XOR mat ! (i + 2))
      else if k = 5 then acc XOR (mat ! i XOR mat ! (i + 2))
      else if k = 4 then acc XOR mat ! (i + 2)
      else if k = 3 then acc XOR (mat ! i XOR mat ! (i + 1))
      else if k = 2 then acc XOR mat ! (i + 1)
      else if k = 1 then acc XOR mat ! i
      else acc)"

lemma drop_bit_less: "vec \<noteq> 0 \<Longrightarrow> unat (drop_bit 4 (vec :: u64)) < unat vec"
  using unat_gt_0 [of vec] by (simp add: unat_drop_bit_eq drop_bit_eq_div [of 4 "unat vec"] del: unat_gt_0)

function times_loop :: "u64 list \<Rightarrow> nat \<Rightarrow> u64 \<Rightarrow> u64 \<Rightarrow> u64" where
  "times_loop mat i vec acc =
     (if vec = 0 then acc
      else times_loop mat (i + 4) (drop_bit 4 vec) (switch_sum mat i (vec AND 15) acc))"
  by pat_completeness auto
termination
  by (relation "measure (\<lambda>(_, _, vec, _). unat vec)") (auto simp: drop_bit_less)

declare times_loop.simps [simp del]

definition gf2_matrix_times_switch :: "u64 list \<Rightarrow> u64 \<Rightarrow> u64" where
  "gf2_matrix_times_switch mat vec = times_loop mat 0 vec 0"

definition gf2_matrix_square :: "u64 list \<Rightarrow> u64 list \<Rightarrow> nat \<Rightarrow> u64 list" where
  "gf2_matrix_square square mat dim = map (\<lambda>n. gf2_matrix_times_switch mat (mat ! n)) [0..<dim] @ drop dim square"

text \<open>The reference: the sum of the rows that the bits below \<open>k\<close> select.\<close>

primrec row_sum :: "u64 list \<Rightarrow> u64 \<Rightarrow> nat \<Rightarrow> u64" where
  "row_sum mat v 0 = 0"
| "row_sum mat v (Suc k) = row_sum mat v k XOR (if bit v k then mat ! k else 0)"

definition matrix_of :: "u64 list \<Rightarrow> (u64 \<Rightarrow> u64) \<Rightarrow> bool" where
  "matrix_of mat f \<longleftrightarrow> length mat = 64 \<and> (\<forall>n < 64. mat ! n = f (2 ^ n))"

lemma row_sum_matrix:
  "matrix_of mat f \<Longrightarrow> xor_linear f \<Longrightarrow> k \<le> 64 \<Longrightarrow> row_sum mat v k = f (take_bit k v)"
  by (induction k) (simp_all add: take_bit_Suc_word xor_linear.xor xor_linear.cond xor_linear.zero matrix_of_def)

lemma nibble_bits:
  "(vec :: u64) AND 15 = of_bool (bit vec 0) + 2 * of_bool (bit vec 1) + 4 * of_bool (bit vec 2) + 8 * of_bool (bit vec 3)"
proof -
  have "vec AND 15 = take_bit 4 vec"
    using take_bit_eq_mask [of 4 vec] by (simp add: mask_eq_exp_minus_1)
  also have "\<dots> = take_bit 0 vec XOR (if bit vec 0 then 2 ^ 0 else 0) XOR (if bit vec 1 then 2 ^ 1 else 0)
      XOR (if bit vec 2 then 2 ^ 2 else 0) XOR (if bit vec 3 then 2 ^ 3 else 0)"
    using take_bit_Suc_word [of 0 vec, folded One_nat_def] take_bit_Suc_word [of 1 vec, folded numeral_2_eq_2 One_nat_def]
      take_bit_Suc_word [of 2 vec] take_bit_Suc_word [of 3 vec]
    by (simp add: xor.assoc numeral_2_eq_2 [symmetric] del: One_nat_def)
  also have "\<dots> = of_bool (bit vec 0) + 2 * of_bool (bit vec 1) + 4 * of_bool (bit vec 2) + 8 * of_bool (bit vec 3)"
    by (cases "bit vec 0"; cases "bit vec 1"; cases "bit vec 2"; cases "bit vec 3") simp_all
  finally show ?thesis .
qed

lemma switch_sum_rows:
  "switch_sum mat i (drop_bit i v AND 15) (row_sum mat v i) = row_sum mat v (i + 4)"
proof -
  define b where "b j = bit v (i + j)" for j
  have n: "drop_bit i v AND 15 = of_bool (b 0) + 2 * of_bool (b 1) + 4 * of_bool (b 2) + 8 * of_bool (b 3)"
    unfolding nibble_bits b_def by (simp add: bit_drop_bit_eq)
  have "row_sum mat v (i + 4) = row_sum mat v i XOR (if b 0 then mat ! i else 0) XOR (if b 1 then mat ! (i + 1) else 0)
      XOR (if b 2 then mat ! (i + 2) else 0) XOR (if b 3 then mat ! (i + 3) else 0)"
    unfolding b_def by (simp add: numeral_eq_Suc xor.assoc)
  then show ?thesis
    unfolding n switch_sum_def
    by (cases "b 0"; cases "b 1"; cases "b 2"; cases "b 3") (simp_all add: xor.assoc)
qed

lemma row_sum_rest: "drop_bit i v = 0 \<Longrightarrow> row_sum mat v (i + j) = row_sum mat v i"
proof (induction j)
  case (Suc j)
  have "bit v (i + j) = bit (drop_bit i v) j" by (simp add: bit_drop_bit_eq)
  then show ?case using Suc by simp
qed simp

lemma times_loop_rows:
  "vec = drop_bit i v \<Longrightarrow> acc = row_sum mat v i \<Longrightarrow> i \<le> 64 \<Longrightarrow> 4 dvd i \<Longrightarrow> times_loop mat i vec acc = row_sum mat v 64"
proof (induction mat i vec acc rule: times_loop.induct)
  case (1 mat i vec acc)
  show ?case
  proof (cases "vec = 0")
    case True
    then show ?thesis
      using 1 row_sum_rest [of i v mat "64 - i"] by (simp add: times_loop.simps [of mat i])
  next
    case False
    have "i \<noteq> 64"
    proof
      assume "i = 64"
      then have "vec = 0" using 1(2) by (intro bit_word_eqI) (auto simp: bit_simps dest: bit_imp_le_length)
      then show False using False by simp
    qed
    then have "i + 4 \<le> 64" using 1(4,5) by presburger
    moreover have "drop_bit 4 vec = drop_bit (i + 4) v" using 1(2) by (simp add: add.commute)
    ultimately show ?thesis
      using 1 False switch_sum_rows [of mat i v] by (simp add: times_loop.simps [of mat i])
  qed
qed

lemma times_matrix:
  assumes "matrix_of mat f" "xor_linear f"
  shows "gf2_matrix_times_switch mat v = f v"
proof -
  have "gf2_matrix_times_switch mat v = row_sum mat v 64"
    unfolding gf2_matrix_times_switch_def by (rule times_loop_rows) simp_all
  then show ?thesis
    using row_sum_matrix [OF assms, of 64 v] by (simp add: take_bit_word_eq_self)
qed

lemma square_matrix:
  assumes "matrix_of mat f" "xor_linear f" "length square = 64"
  shows "matrix_of (gf2_matrix_square square mat 64) (f ^^ 2)"
  using assms(1,3) times_matrix [OF assms(1,2)]
  by (simp add: matrix_of_def gf2_matrix_square_def numeral_2_eq_2)

end
