(* ===== verification/Crc64.thy ===== *)
theory Crc64
  imports Gf2
begin

text \<open>
  The 64-bit cyclic redundancy code of \<open>src/bench/redis-src/crc64.c\<close>, bit by bit, and the fast version
  of \<open>crcspeed.c\<close> and \<open>crccombine.c\<close>: tables for eight bytes at a time, two or three streams over long
  inputs, and a cache of matrices that joins the streams. The state is the static data of the three
  files. A buffer is its address, whose low bits decide the alignment loop, and its bytes.
\<close>

section \<open>The bitwise code\<close>

definition POLY :: u64 where "POLY = 0xad93d23594c935a9"

definition CRC64_REVERSED_POLY :: u64 where "CRC64_REVERSED_POLY = 0x95ac9329ac4bc9b5"

text \<open>The byte swap that the compiler provides, and the one written out for the other compilers.\<close>

definition bswap64 :: "u64 \<Rightarrow> u64" where "bswap64 a = le_word (rev (le_bytes 8 a))"

definition rev8 :: "u64 \<Rightarrow> u64" where
  "rev8 a =
     (let m = 0xff00ff00ff00ff; a = (drop_bit 8 a AND m) OR push_bit 8 (a AND m);
          m = 0xffff0000ffff; a = (drop_bit 16 a AND m) OR push_bit 16 (a AND m)
      in drop_bit 32 a OR push_bit 32 a)"

text \<open>\<open>None\<close> is the failed assertion, or the shift by 64 of an empty width.\<close>

definition crc_reflect :: "u64 \<Rightarrow> nat \<Rightarrow> u64 option" where
  "crc_reflect data data_len =
     (if data_len > 64 \<or> data_len = 0 then None
      else
        let data = (drop_bit 1 data AND 0x5555555555555555) OR push_bit 1 (data AND 0x5555555555555555);
            data = (drop_bit 2 data AND 0x3333333333333333) OR push_bit 2 (data AND 0x3333333333333333);
            data = (drop_bit 4 data AND 0x0F0F0F0F0F0F0F0F) OR push_bit 4 (data AND 0x0F0F0F0F0F0F0F0F);
            data = bswap64 data
        in Some (drop_bit (64 - data_len) data))"

definition crc64_bit :: "u8 \<Rightarrow> u64 \<Rightarrow> u8 \<Rightarrow> u64" where
  "crc64_bit c crc i =
     (let b = crc AND 0x8000000000000000;
          b = (if c AND i \<noteq> 0 then of_bool (b = 0) else b);
          crc = push_bit 1 crc
      in if b \<noteq> 0 then crc XOR POLY else crc)"

definition crc64_byte :: "u64 \<Rightarrow> u8 \<Rightarrow> u64" where
  "crc64_byte crc c = foldl (crc64_bit c) crc [0x01, 0x02, 0x04, 0x08, 0x10, 0x20, 0x40, 0x80] AND 0xffffffffffffffff"

definition crc64_bits :: "u64 \<Rightarrow> u8 list \<Rightarrow> u64 option" where
  "crc64_bits crc data =
     do {
       r \<leftarrow> crc_reflect (foldl crc64_byte crc data AND 0xffffffffffffffff) 64;
       Some (r XOR 0x0000000000000000)
     }"

section \<open>Tables\<close>

definition next_entry :: "u64 list \<Rightarrow> u64 \<Rightarrow> u64" where
  "next_entry t0 crc = t0 ! unat (crc AND 0xff) XOR drop_bit 8 crc"

definition crcspeed64little_init :: "(u64 \<Rightarrow> u8 list \<Rightarrow> u64 option) \<Rightarrow> u64 list list option" where
  "crcspeed64little_init crcfn =
     do {
       t0 \<leftarrow> those (map (\<lambda>n. crcfn 0 [of_nat n]) [0..<256]);
       Some (map (\<lambda>k. map (\<lambda>n. (next_entry t0 ^^ k) (t0 ! n)) [0..<256]) [0..<8])
     }"

section \<open>Joining two codes\<close>

type_synonym cache = "u64 list list"

definition init_combine_cache :: "cache \<Rightarrow> u64 \<Rightarrow> nat \<Rightarrow> cache" where
  "init_combine_cache cache poly dim =
     (let cache = cache[1 := poly # map (\<lambda>n. push_bit (n - 1) 1) [1..<dim] @ drop dim (cache ! 1)];
          cache = cache[0 := gf2_matrix_square (cache ! 0) (cache ! 1) dim];
          cache = cache[1 := gf2_matrix_square (cache ! 1) (cache ! 0) dim]
      in foldl (\<lambda>cache k. cache[k := gf2_matrix_square (cache ! k) (cache ! (if k = 0 then 1 else k - 1)) dim])
           cache [0..<64])"

function combine_loop :: "cache \<Rightarrow> nat \<Rightarrow> nat \<Rightarrow> u64 \<Rightarrow> u64" where
  "combine_loop cache cache_num len2 crc1 =
     (let crc1 = (if odd len2 then gf2_matrix_times_switch (cache ! cache_num) crc1 else crc1);
          len2 = len2 div 2; cache_num = (cache_num + 1) mod 64
      in if len2 \<noteq> 0 then combine_loop cache cache_num len2 crc1 else crc1)"
  by pat_completeness auto
termination
  by (relation "measure (\<lambda>(_, _, len2, _). len2)") auto

declare combine_loop.simps [simp del]

definition crc64_combine :: "cache \<Rightarrow> u64 \<Rightarrow> u64 \<Rightarrow> nat \<Rightarrow> u64 \<Rightarrow> nat \<Rightarrow> u64 \<times> cache" where
  "crc64_combine cache crc1 crc2 len2 poly dim =
     (if len2 = 0 then (crc1, cache)
      else
        let cache = (if cache ! 0 ! 0 = 0 then init_combine_cache cache poly dim else cache)
        in (combine_loop cache 0 len2 crc1 XOR crc2, cache))"

section \<open>The fast code\<close>

record crc_state =
  crc64_table :: "u64 list list"
  combine_cache :: cache
  CRC64_DUAL_CUTOFF :: nat
  CRC64_TRI_CUTOFF :: nat

definition set_crc64_cutoffs :: "nat \<Rightarrow> nat \<Rightarrow> crc_state \<Rightarrow> crc_state" where
  "set_crc64_cutoffs dual_cutoff tri_cutoff st = st\<lparr>CRC64_DUAL_CUTOFF := dual_cutoff, CRC64_TRI_CUTOFF := tri_cutoff\<rparr>"

definition one_byte :: "u64 list list \<Rightarrow> u64 \<Rightarrow> u8 \<Rightarrow> u64" where
  "one_byte t crc b = t ! 0 ! unat ((crc XOR ucast b) AND 0xff) XOR drop_bit 8 crc"

definition DO_8_1 :: "u64 \<Rightarrow> u8 list \<Rightarrow> u64" where
  "DO_8_1 crc next = crc XOR le_word (take 8 next)"

definition DO_8_2 :: "u64 list list \<Rightarrow> u64 \<Rightarrow> u64" where
  "DO_8_2 t crc =
     t ! 7 ! unat (ucast crc :: u8) XOR
     t ! 6 ! unat (ucast (drop_bit 8 crc) :: u8) XOR
     t ! 5 ! unat (ucast (drop_bit 16 crc) :: u8) XOR
     t ! 4 ! unat (ucast (drop_bit 24 crc) :: u8) XOR
     t ! 3 ! unat (ucast (drop_bit 32 crc) :: u8) XOR
     t ! 2 ! unat (ucast (drop_bit 40 crc) :: u8) XOR
     t ! 1 ! unat (ucast (drop_bit 48 crc) :: u8) XOR
     t ! 0 ! unat (drop_bit 56 crc)"

definition CRC64_SPLIT :: "nat \<Rightarrow> nat \<Rightarrow> nat" where
  "CRC64_SPLIT len d = unat ((w64 (len div d)) AND 0x7ffffffffffffff8)"

fun align_loop :: "u64 list list \<Rightarrow> u64 \<Rightarrow> u64 \<Rightarrow> u8 list \<Rightarrow> u64 \<times> u8 list" where
  "align_loop t addr crc1 [] = (crc1, [])"
| "align_loop t addr crc1 (b # s) =
     (if addr AND 7 \<noteq> 0 then align_loop t (addr + 1) (one_byte t crc1 b) s else (crc1, b # s))"

function word_loop :: "u64 list list \<Rightarrow> u64 \<Rightarrow> u8 list \<Rightarrow> u64 \<times> u8 list" where
  "word_loop t crc1 s =
     (if length s \<ge> 8 then word_loop t (DO_8_2 t (DO_8_1 crc1 s)) (drop 8 s) else (crc1, s))"
  by pat_completeness auto
termination
  by (relation "measure (\<lambda>(_, _, s). length s)") auto

fun dual_loop :: "u64 list list \<Rightarrow> nat \<Rightarrow> u64 \<times> u8 list \<Rightarrow> u64 \<times> u8 list \<Rightarrow> (u64 \<times> u8 list) \<times> (u64 \<times> u8 list)" where
  "dual_loop t len (crc1, next1) (crc2, next2) =
     (if len \<ge> 8 then
        let crc1 = DO_8_1 crc1 next1; crc2 = DO_8_1 crc2 next2
        in dual_loop t (len - 8) (DO_8_2 t crc1, drop 8 next1) (DO_8_2 t crc2, drop 8 next2)
      else ((crc1, next1), (crc2, next2)))"

fun tri_loop :: "u64 list list \<Rightarrow> nat \<Rightarrow> u64 \<times> u8 list \<Rightarrow> u64 \<times> u8 list \<Rightarrow> u64 \<times> u8 list
    \<Rightarrow> (u64 \<times> u8 list) \<times> (u64 \<times> u8 list) \<times> (u64 \<times> u8 list)" where
  "tri_loop t len (crc1, next1) (crc2, next2) (crc3, next3) =
     (if len \<ge> 8 then
        let crc1 = DO_8_1 crc1 next1; crc2 = DO_8_1 crc2 next2; crc3 = DO_8_1 crc3 next3
        in tri_loop t (len - 8) (DO_8_2 t crc1, drop 8 next1) (DO_8_2 t crc2, drop 8 next2) (DO_8_2 t crc3, drop 8 next3)
      else ((crc1, next1), (crc2, next2), (crc3, next3)))"

declare word_loop.simps [simp del] dual_loop.simps [simp del] tri_loop.simps [simp del]

definition crcspeed64little :: "crc_state \<Rightarrow> u64 \<Rightarrow> u64 \<Rightarrow> u8 list \<Rightarrow> u64 \<times> crc_state" where
  "crcspeed64little st crc1 buf s =
     (let t = crc64_table st in
      if CRC64_DUAL_CUTOFF st < 1 then (foldl (one_byte t) crc1 s, st)
      else
        let (crc1, s) = align_loop t buf crc1 s; olen = length s;
            (crc1, s, cache) =
              (if olen > CRC64_TRI_CUTOFF st then
                 let len = CRC64_SPLIT olen 3;
                     ((crc1, next1), (crc2, next2), (crc3, next3)) =
                       tri_loop t len (crc1, s) (0, drop len s) (0, drop (len + len) s);
                     (crc1, cache) = crc64_combine (combine_cache st) crc1 crc2 len CRC64_REVERSED_POLY 64;
                     (crc1, cache) = crc64_combine cache crc1 crc3 len CRC64_REVERSED_POLY 64
                 in (crc1, next3, cache)
               else if olen > CRC64_DUAL_CUTOFF st then
                 let len = CRC64_SPLIT olen 2;
                     ((crc1, next1), (crc2, next2)) = dual_loop t len (crc1, s) (0, drop len s);
                     (crc1, cache) = crc64_combine (combine_cache st) crc1 crc2 len CRC64_REVERSED_POLY 64
                 in (crc1, next2, cache)
               else (crc1, s, combine_cache st));
            (crc1, s) = word_loop t crc1 s
        in (foldl (one_byte t) crc1 s, st\<lparr>combine_cache := cache\<rparr>))"

section \<open>Big-endian machines\<close>

text \<open>A load of eight bytes gives the bytes in the opposite order; the register and the tables are kept swapped.\<close>

definition crcspeed64big_init :: "(u64 \<Rightarrow> u8 list \<Rightarrow> u64 option) \<Rightarrow> u64 list list option" where
  "crcspeed64big_init fn = map_option (map (map rev8)) (crcspeed64little_init fn)"

definition big_byte :: "u64 list list \<Rightarrow> u64 \<Rightarrow> u8 \<Rightarrow> u64" where
  "big_byte t crc b = t ! 0 ! unat (drop_bit 56 crc XOR ucast b) XOR push_bit 8 crc"

definition big_word :: "u64 list list \<Rightarrow> u64 \<Rightarrow> u64" where
  "big_word t crc =
     t ! 0 ! unat (crc AND 0xff) XOR
     t ! 1 ! unat (drop_bit 8 crc AND 0xff) XOR
     t ! 2 ! unat (drop_bit 16 crc AND 0xff) XOR
     t ! 3 ! unat (drop_bit 24 crc AND 0xff) XOR
     t ! 4 ! unat (drop_bit 32 crc AND 0xff) XOR
     t ! 5 ! unat (drop_bit 40 crc AND 0xff) XOR
     t ! 6 ! unat (drop_bit 48 crc AND 0xff) XOR
     t ! 7 ! unat (drop_bit 56 crc)"

fun big_align_loop :: "u64 list list \<Rightarrow> u64 \<Rightarrow> u64 \<Rightarrow> u8 list \<Rightarrow> u64 \<times> u8 list" where
  "big_align_loop t addr crc [] = (crc, [])"
| "big_align_loop t addr crc (b # s) =
     (if addr AND 7 \<noteq> 0 then big_align_loop t (addr + 1) (big_byte t crc b) s else (crc, b # s))"

function big_word_loop :: "u64 list list \<Rightarrow> u64 \<Rightarrow> u8 list \<Rightarrow> u64 \<times> u8 list" where
  "big_word_loop t crc s =
     (if length s \<ge> 8 then big_word_loop t (big_word t (crc XOR le_word (rev (take 8 s)))) (drop 8 s) else (crc, s))"
  by pat_completeness auto
termination
  by (relation "measure (\<lambda>(_, _, s). length s)") auto

declare big_word_loop.simps [simp del]

definition crcspeed64big :: "u64 list list \<Rightarrow> u64 \<Rightarrow> u64 \<Rightarrow> u8 list \<Rightarrow> u64" where
  "crcspeed64big t crc buf s =
     (let crc = rev8 crc;
          (crc, s) = big_align_loop t buf crc s;
          (crc, s) = big_word_loop t crc s
      in rev8 (foldl (big_byte t) crc s))"

section \<open>The functions the program calls\<close>

definition crcspeed64native_init :: "bool \<Rightarrow> (u64 \<Rightarrow> u8 list \<Rightarrow> u64 option) \<Rightarrow> u64 list list option" where
  "crcspeed64native_init big fn = (if \<not> big then crcspeed64little_init fn else crcspeed64big_init fn)"

definition crcspeed64native :: "bool \<Rightarrow> crc_state \<Rightarrow> u64 \<Rightarrow> u64 \<Rightarrow> u8 list \<Rightarrow> u64 \<times> crc_state" where
  "crcspeed64native big st crc buf s =
     (if \<not> big then crcspeed64little st crc buf s else (crcspeed64big (crc64_table st) crc buf s, st))"

definition crc64_init :: "bool \<Rightarrow> crc_state \<Rightarrow> crc_state option" where
  "crc64_init big st = map_option (\<lambda>t. st\<lparr>crc64_table := t\<rparr>) (crcspeed64native_init big crc64_bits)"

definition crc64 :: "bool \<Rightarrow> crc_state \<Rightarrow> u64 \<Rightarrow> u64 \<Rightarrow> u8 list \<Rightarrow> u64 \<times> crc_state" where
  "crc64 big st crc buf s = crcspeed64native big st crc buf s"

text \<open>The static data before the first call.\<close>

definition crc_start :: crc_state where
  "crc_start = \<lparr>crc64_table = replicate 8 (replicate 256 0), combine_cache = replicate 64 (replicate 64 0),
     CRC64_DUAL_CUTOFF = 1024, CRC64_TRI_CUTOFF = 16 * 1024\<rparr>"

end
