(* ===== verification/Crc64_Spec.thy ===== *)
theory Crc64_Spec
  imports Crc64
begin

text \<open>
  The code that the two implementations compute: one step of the reflected shift register per bit. The
  bitwise implementation keeps the register unreflected and reverses it at the end, and the tables and
  matrices of the fast one hold powers of the step.
\<close>

section \<open>Swapping and reversing bits\<close>

lemma all_less_64: "(\<forall>n < 64. P n) \<longleftrightarrow> list_all P [0..<64]"
  by (auto simp: list_all_iff)

lemma upt_64:
  "[0..<64] = [0, 1, 2, 3, 4, 5, 6, 7, 8, 9, 10, 11, 12, 13, 14, 15, 16, 17, 18, 19, 20, 21, 22, 23, 24, 25, 26, 27, 28, 29,
     30, 31, 32, 33, 34, 35, 36, 37, 38, 39, 40, 41, 42, 43, 44, 45, 46, 47, 48, 49, 50, 51, 52, 53, 54, 55, 56, 57, 58, 59,
     60, 61, 62, 63]"
  by (simp add: upt_rec)

lemma bit_masks:
  "\<forall>n < 64. bit (0x5555555555555555 :: u64) n = even (n div 1)"
  "\<forall>n < 64. bit (0x3333333333333333 :: u64) n = even (n div 2)"
  "\<forall>n < 64. bit (0x0F0F0F0F0F0F0F0F :: u64) n = even (n div 4)"
  "\<forall>n < 64. bit (0xff00ff00ff00ff :: u64) n = even (n div 8)"
  "\<forall>n < 64. bit (0xffff0000ffff :: u64) n = even (n div 16)"
  unfolding all_less_64 upt_64 by simp_all

definition flip :: "nat \<Rightarrow> nat \<Rightarrow> nat" where
  "flip s n = (if even (n div s) then n + s else n - s)"

definition swap_bits :: "nat \<Rightarrow> u64 \<Rightarrow> u64 \<Rightarrow> u64" where
  "swap_bits s m x = (drop_bit s x AND m) OR push_bit s (x AND m)"

lemma bit_swap:
  fixes x m :: u64
  assumes "n < 64" "flip s n < 64" "0 < s" "\<forall>n < 64. bit m n = even (n div s)"
  shows "bit (swap_bits s m x) n \<longleftrightarrow> bit x (flip s n)"
proof (cases "even (n div s)")
  case True
  then have "\<not> (s \<le> n \<and> bit m (n - s))"
    using assms le_div_geq [of s n] by auto
  then show ?thesis
    using True assms by (auto simp: swap_bits_def bit_simps flip_def add.commute)
next
  case False
  then have "s \<le> n" by (metis div_less even_zero not_le)
  then have "bit m (n - s)" using False assms le_div_geq [of s n] by auto
  then show ?thesis
    using False \<open>s \<le> n\<close> assms by (auto simp: swap_bits_def bit_simps flip_def)
qed

definition swap_halves :: "u64 \<Rightarrow> u64" where
  "swap_halves x = drop_bit 32 x OR push_bit 32 x"

lemma bit_swap32: "n < 64 \<Longrightarrow> bit (swap_halves x) n \<longleftrightarrow> bit x (flip 32 n)"
  by (cases "n < 32") (auto simp: swap_halves_def bit_simps flip_def add.commute le_div_geq dest: bit_imp_le_length)

lemma flips:
  "\<forall>n < 64. flip 1 n < 64 \<and> flip 2 n < 64 \<and> flip 4 n < 64 \<and> flip 8 n < 64 \<and> flip 16 n < 64 \<and> flip 32 n < 64"
  "\<forall>n < 64. flip 1 (flip 2 (flip 4 (flip 8 (flip 16 (flip 32 n))))) = 63 - n"
  "\<forall>n < 64. flip 8 (flip 16 (flip 32 n)) = 8 * (7 - n div 8) + n mod 8"
  unfolding all_less_64 upt_64 by (simp_all add: flip_def)

lemma bit_swaps:
  assumes "n < 64"
  shows "bit (swap_bits 1 0x5555555555555555 x) n \<longleftrightarrow> bit x (flip 1 n)"
    "bit (swap_bits 2 0x3333333333333333 x) n \<longleftrightarrow> bit x (flip 2 n)"
    "bit (swap_bits 4 0x0F0F0F0F0F0F0F0F x) n \<longleftrightarrow> bit x (flip 4 n)"
    "bit (swap_bits 8 0xff00ff00ff00ff x) n \<longleftrightarrow> bit x (flip 8 n)"
    "bit (swap_bits 16 0xffff0000ffff x) n \<longleftrightarrow> bit x (flip 16 n)"
  using flips(1) [rule_format, OF assms] by (intro bit_swap assms bit_masks; simp only: zero_less_numeral zero_less_one)+

lemma rev8_swaps: "rev8 a = swap_halves (swap_bits 16 0xffff0000ffff (swap_bits 8 0xff00ff00ff00ff a))"
  unfolding rev8_def Let_def swap_bits_def swap_halves_def ..

lemma bit_rev8: "n < 64 \<Longrightarrow> bit (rev8 a) n \<longleftrightarrow> bit a (8 * (7 - n div 8) + n mod 8)"
  using flips(1,3) by (simp add: rev8_swaps bit_swaps bit_swap32)

lemma nth_le_bytes: "i < n \<Longrightarrow> le_bytes n v ! i = ucast (drop_bit (8 * i) v)"
  by (induction n arbitrary: i v) (auto simp: nth_Cons' gr0_conv_Suc less_Suc_eq_0_disj add.commute)

lemma bit_le_word_nth:
  "bit (le_word bs :: 'a::len word) n \<longleftrightarrow> n < LENGTH('a) \<and> n div 8 < length bs \<and> bit (bs ! (n div 8)) (n mod 8)"
proof (induction bs arbitrary: n)
  case (Cons b bs)
  show ?case
  proof (cases "n < 8")
    case True
    then show ?thesis by (auto simp: bit_simps)
  next
    case False
    then have "n div 8 = Suc ((n - 8) div 8)" "n mod 8 = (n - 8) mod 8"
      by (simp_all add: le_div_geq le_mod_geq)
    then show ?thesis
      using False Cons.IH [of "n - 8"] by (auto simp: bit_simps dest: bit_imp_le_length)
  qed
qed simp

lemma bswap64_rev8: "bswap64 a = rev8 a"
proof (rule bit_word_eqI)
  fix n assume "n < LENGTH(64)"
  moreover from this have "7 - n div 8 < 8" "n div 8 < 8" by auto
  ultimately show "bit (bswap64 a) n = bit (rev8 a) n"
    by (simp add: bswap64_def bit_le_word_nth rev_nth nth_le_bytes bit_rev8 bit_simps)
qed

definition reflect :: "u64 \<Rightarrow> u64" where
  "reflect x = rev8 (swap_bits 4 0x0F0F0F0F0F0F0F0F (swap_bits 2 0x3333333333333333 (swap_bits 1 0x5555555555555555 x)))"

lemma crc_reflect_64 [simp]: "crc_reflect x 64 = Some (reflect x)"
  unfolding crc_reflect_def Let_def reflect_def swap_bits_def bswap64_rev8 by simp

lemma bit_reflect: "bit (reflect x) n \<longleftrightarrow> n < 64 \<and> bit x (63 - n)"
proof (cases "n < 64")
  case True
  then show ?thesis
    using flips(1) flips(2) [rule_format, OF True]
    by (simp add: reflect_def rev8_swaps bit_swaps bit_swap32 del: One_nat_def)
next
  case False
  then have "\<not> bit (reflect x) n" using bit_imp_le_length [of "reflect x" n] by auto
  then show ?thesis using False by simp
qed

lemma reflect_reflect: "reflect (reflect x) = x"
  by (rule bit_word_eqI) (auto simp: bit_reflect)

section \<open>The shift register\<close>

definition rstep :: "u64 \<Rightarrow> u64" where
  "rstep c = drop_bit 1 c XOR (if bit c 0 then CRC64_REVERSED_POLY else 0)"

definition zeros :: "u64 \<Rightarrow> u64" where "zeros = rstep ^^ 8"

definition crc64_spec :: "u64 \<Rightarrow> u8 list \<Rightarrow> u64" where
  "crc64_spec = foldl (\<lambda>crc b. zeros (crc XOR ucast b))"

interpretation rstep: xor_linear rstep
  unfolding rstep_def [abs_def] by (intro xor_linear_xor xor_linear_drop xor_linear_test)

interpretation zeros: xor_linear zeros
  unfolding zeros_def by (intro xor_linear_funpow rstep.xor_linear_axioms)

lemmas zeros_pow = xor_linear_funpow [OF zeros.xor_linear_axioms]

lemma rstep_double: "\<not> bit x 63 \<Longrightarrow> rstep (push_bit 1 x) = x"
proof (rule bit_word_eqI)
  fix n assume "\<not> bit x 63" "n < LENGTH(64)"
  moreover from this have "bit x n \<Longrightarrow> n < 63" by (cases "n = 63") auto
  ultimately show "bit (rstep (push_bit 1 x)) n = bit x n"
    by (auto simp: rstep_def bit_simps simp del: push_bit_Suc One_nat_def)
qed

lemma rstep_shift: "k \<le> 64 \<Longrightarrow> \<forall>j. 64 - k \<le> j \<longrightarrow> \<not> bit x j \<Longrightarrow> (rstep ^^ k) (push_bit k x) = x"
proof (induction k)
  case (Suc k)
  have "push_bit (Suc k) x = push_bit 1 (push_bit k x)" by simp
  moreover have "\<not> bit (push_bit k x) 63" using Suc.prems by (auto simp: bit_simps)
  ultimately have "rstep (push_bit (Suc k) x) = push_bit k x"
    using rstep_double [of "push_bit k x"] by (simp only: not_False_eq_True)
  then show ?case
    using Suc by (simp only: funpow_Suc_right comp_apply) (simp add: Suc_diff_le)
qed simp

lemma zeros_shift: "drop_bit 56 x = 0 \<Longrightarrow> zeros (push_bit 8 x) = x"
proof -
  assume x: "drop_bit 56 x = 0"
  have "\<not> bit x j" if "56 \<le> j" for j
    using arg_cong [OF x, of "\<lambda>y. bit y (j - 56)"] that by (simp add: bit_simps)
  then show ?thesis unfolding zeros_def by (intro rstep_shift) auto
qed

lemma zeros_split: "zeros x = zeros (x AND 0xff) XOR drop_bit 8 x"
proof -
  have "x = (x AND 0xff) XOR push_bit 8 (drop_bit 8 x)"
  proof (rule bit_word_eqI)
    fix n assume "n < LENGTH(64)"
    moreover have "bit (0xff :: u64) n \<longleftrightarrow> n < 8"
      using bit_mask_iff [of 8 n, where 'a = u64] by (auto simp: mask_eq_exp_minus_1)
    ultimately show "bit x n = bit ((x AND 0xff) XOR push_bit 8 (drop_bit 8 x)) n"
      by (auto simp: bit_simps)
  qed
  moreover have "zeros (push_bit 8 (drop_bit 8 x)) = drop_bit 8 x"
    by (rule zeros_shift) simp
  ultimately show ?thesis
    using zeros.xor [of "x AND 0xff" "push_bit 8 (drop_bit 8 x)"] by simp
qed

section \<open>The bitwise implementation\<close>

lemma reflect_POLY: "reflect POLY = CRC64_REVERSED_POLY"
  unfolding reflect_def POLY_def CRC64_REVERSED_POLY_def rev8_def swap_bits_def Let_def by simp

lemma bit_POLY: "n < 64 \<Longrightarrow> bit POLY (63 - n) = bit CRC64_REVERSED_POLY n"
  using bit_reflect [of POLY n] by (simp add: reflect_POLY)

text \<open>One bit of the message, seen through the reflection.\<close>

lemma crc64_bit_reflect:
  "reflect (crc64_bit c crc i) =
     drop_bit 1 (reflect crc) XOR (if bit (reflect crc) 0 \<noteq> (c AND i \<noteq> 0) then CRC64_REVERSED_POLY else 0)"
proof -
  have "crc AND 0x8000000000000000 \<noteq> 0 \<longleftrightarrow> bit crc 63"
    using and_exp_eq_0_iff_not_bit [of crc 63] by simp
  then have c: "crc64_bit c crc i = push_bit 1 crc XOR (if bit crc 63 \<noteq> (c AND i \<noteq> 0) then POLY else 0)"
    by (auto simp: crc64_bit_def Let_def)
  show ?thesis
    unfolding c by (rule bit_word_eqI) (auto simp: bit_reflect bit_simps bit_POLY Suc_diff_Suc less_Suc_eq simp del: push_bit_Suc One_nat_def)
qed

lemma and_ones [simp]: "(x :: u64) AND 0xffffffffffffffff = x"
  using and.right_neutral [of x] by (simp only: mask_full [symmetric] mask_eq_exp_minus_1) simp

lemma rstep_bit:
  assumes "k < 8"
  shows "rstep (reflect crc XOR drop_bit k (ucast c)) = reflect (crc64_bit c crc (2 ^ k)) XOR drop_bit (Suc k) (ucast c)"
proof -
  have "c AND 2 ^ k \<noteq> 0 \<longleftrightarrow> bit c k"
    using and_exp_eq_0_iff_not_bit [of c k] by simp
  then have b: "bit (reflect crc XOR drop_bit k (ucast c)) 0 \<longleftrightarrow> bit (reflect crc) 0 \<noteq> (c AND 2 ^ k \<noteq> 0)"
    using assms by (simp add: bit_xor_iff bit_drop_bit_eq bit_ucast_iff)
  have "drop_bit 1 (reflect crc XOR drop_bit k (ucast c)) = drop_bit 1 (reflect crc) XOR drop_bit (Suc k) (ucast c)"
    by (simp only: xor_linear.xor [OF xor_linear_drop] drop_bit_drop_bit) simp
  then show ?thesis
    unfolding rstep_def b crc64_bit_reflect by (simp only: ac_simps)
qed

lemma rstep_bits:
  "k \<le> 8 \<Longrightarrow> (rstep ^^ k) (reflect crc XOR ucast c) =
    reflect (foldl (crc64_bit c) crc (map (\<lambda>k. 2 ^ k) [0..<k])) XOR drop_bit k (ucast c)"
  by (induction k) (simp_all add: rstep_bit)

lemma crc64_byte_reflect: "reflect (crc64_byte crc c) = zeros (reflect crc XOR ucast c)"
proof -
  have "map (\<lambda>k. 2 ^ k) [0..<8] = [0x01, 0x02, 0x04, 0x08, 0x10, 0x20, 0x40, 0x80 :: u8]"
    by (simp add: upt_rec)
  moreover have "drop_bit 8 (ucast c :: u64) = 0"
    by (rule bit_word_eqI) (auto simp: bit_simps dest: bit_imp_le_length)
  ultimately show ?thesis
    using rstep_bits [of 8 crc c] by (simp add: zeros_def crc64_byte_def)
qed

lemma crc64_bits_ok: "crc64_bits crc s = Some (crc64_spec (reflect crc) s)"
proof -
  have "reflect (foldl crc64_byte crc s) = crc64_spec (reflect crc) s"
    unfolding crc64_spec_def by (induction s arbitrary: crc) (simp_all add: crc64_byte_reflect)
  then show ?thesis by (simp add: crc64_bits_def)
qed

lemma reflect_0 [simp]: "reflect 0 = 0"
  by (rule bit_word_eqI) (simp add: bit_reflect)

section \<open>Laws of the code\<close>

lemma crc64_spec_append: "crc64_spec crc (s @ t) = crc64_spec (crc64_spec crc s) t"
  by (simp add: crc64_spec_def)

lemma crc64_spec_xor: "crc64_spec (a XOR b) s = (zeros ^^ length s) a XOR crc64_spec b s"
proof (induction s arbitrary: a b)
  case (Cons c s)
  show ?case
    using Cons [of "zeros a" "zeros (b XOR ucast c)"]
    by (simp add: crc64_spec_def zeros.xor [symmetric] xor.assoc funpow_swap1)
qed (simp add: crc64_spec_def)

lemma crc64_spec_split: "crc64_spec crc (s @ t) = (zeros ^^ length t) (crc64_spec crc s) XOR crc64_spec 0 t"
  using crc64_spec_xor [of "crc64_spec crc s" 0 t] by (simp add: crc64_spec_append)

text \<open>A word of up to eight bytes is taken in one piece.\<close>

lemma crc64_spec_word: "length bs \<le> 8 \<Longrightarrow> crc64_spec crc bs = (zeros ^^ length bs) (crc XOR le_word bs)"
proof (induction bs arbitrary: crc)
  case (Cons b bs)
  have "le_word (b # bs) = ucast b XOR push_bit 8 (le_word bs :: u64)"
    by (simp, rule bit_word_eqI) (auto simp: bit_simps dest: bit_imp_le_length)
  moreover have "zeros (push_bit 8 (le_word bs)) = le_word bs"
  proof (rule zeros_shift, rule bit_word_eqI)
    fix n show "bit (drop_bit 56 (le_word bs :: u64)) n = bit 0 n"
      using bit_le_word [of bs "56 + n", where 'a = 64] Cons.prems by (auto simp: bit_simps)
  qed
  ultimately have "zeros (crc XOR le_word (b # bs)) = zeros (crc XOR ucast b) XOR le_word bs"
    by (simp add: zeros.xor xor.assoc [symmetric])
  then show ?case
    using Cons by (simp add: crc64_spec_def funpow_swap1)
qed (simp add: crc64_spec_def)

section \<open>Tables\<close>

definition table_ok :: "u64 list list \<Rightarrow> bool" where
  "table_ok t \<longleftrightarrow> length t = 8 \<and> (\<forall>k < 8. length (t ! k) = 256 \<and> (\<forall>n < 256. t ! k ! n = (zeros ^^ Suc k) (of_nat n)))"

lemma unat_and_ff: "unat (x AND 0xff :: u64) < 256"
  using word_and_le1 [of x 255] by (simp add: word_le_nat_alt)

lemma next_entry_zeros: "(\<And>n. n < 256 \<Longrightarrow> t0 ! n = zeros (of_nat n)) \<Longrightarrow> next_entry t0 crc = zeros crc"
  using zeros_split [of crc] unat_and_ff [of crc] by (simp add: next_entry_def)

lemma crcspeed64little_init_ok: "\<exists>t. crcspeed64little_init crc64_bits = Some t \<and> table_ok t"
proof -
  define t0 where "t0 = map (\<lambda>n. crc64_spec 0 [of_nat n]) [0..<256]"
  have t: "crcspeed64little_init crc64_bits = Some (map (\<lambda>k. map (\<lambda>n. (next_entry t0 ^^ k) (t0 ! n)) [0..<256]) [0..<8])"
    by (simp add: crcspeed64little_init_def crc64_bits_ok those_map_Some [of _ _ "\<lambda>n. crc64_spec 0 [of_nat n]"] t0_def)
  have e: "t0 ! n = zeros (of_nat n)" if "n < 256" for n
    using that by (simp add: t0_def crc64_spec_def unsigned_of_nat take_bit_nat_eq_self)
  have "next_entry t0 = zeros" using next_entry_zeros [OF e] by blast
  then show ?thesis unfolding t table_ok_def by (simp add: e funpow_swap1)
qed

lemma one_byte_ok: "table_ok t \<Longrightarrow> one_byte t crc b = zeros (crc XOR ucast b)"
proof -
  assume t: "table_ok t"
  have b: "drop_bit 8 (ucast b :: u64) = 0"
    by (rule bit_word_eqI) (auto simp: bit_simps dest: bit_imp_le_length)
  show ?thesis
    using t unat_and_ff [of "crc XOR ucast b"] zeros_split [of "crc XOR ucast b"] b
    by (simp add: table_ok_def one_byte_def xor_linear.xor [OF xor_linear_drop])
qed

lemma one_byte_loop: "table_ok t \<Longrightarrow> foldl (one_byte t) crc s = crc64_spec crc s"
  unfolding crc64_spec_def by (induction s arbitrary: crc) (simp_all add: one_byte_ok)

end
