(* ===== verification/Crc64_Check.thy ===== *)
theory Crc64_Check
  imports Crc64_Spec
begin

text \<open>
  The fast code computes the same value as the bitwise one: for every table made by the initialisation,
  every state of the matrix cache that the code can leave behind, every alignment of the buffer and
  every choice of the cutoffs.
\<close>

section \<open>Eight bytes at a time\<close>

lemma zeros_pow_shift:
  assumes "drop_bit (64 - 8 * k) x = 0" "k \<le> 8"
  shows "(zeros ^^ k) (push_bit (8 * k) x) = x"
proof -
  have "\<not> bit x j" if "64 - 8 * k \<le> j" for j
    using arg_cong [OF assms(1), of "\<lambda>y. bit y (j - (64 - 8 * k))"] that by (simp add: bit_drop_bit_eq)
  then have "(rstep ^^ (8 * k)) (push_bit (8 * k) x) = x"
    using assms(2) by (intro rstep_shift) auto
  then show ?thesis by (simp add: zeros_def funpow_mult)
qed

lemma byte_shift:
  assumes "k \<le> 7"
  shows "(zeros ^^ (8 - k)) (ucast b :: u64) = (zeros ^^ 8) (push_bit (8 * k) (ucast (b :: u8)))"
proof -
  have "(zeros ^^ k) (push_bit (8 * k) (ucast b)) = (ucast b :: u64)"
    using assms by (intro zeros_pow_shift bit_word_eqI) (auto simp: bit_simps dest: bit_imp_le_length)
  moreover have "(zeros ^^ 8) y = (zeros ^^ (8 - k)) ((zeros ^^ k) y)" for y
    using assms fun_cong [OF funpow_add [of "8 - k" k zeros], of y] by simp
  ultimately show ?thesis by simp
qed

lemma split_bytes:
  "(x :: u64) = ucast (ucast x :: u8) XOR push_bit 8 (ucast (ucast (drop_bit 8 x) :: u8))
     XOR push_bit 16 (ucast (ucast (drop_bit 16 x) :: u8)) XOR push_bit 24 (ucast (ucast (drop_bit 24 x) :: u8))
     XOR push_bit 32 (ucast (ucast (drop_bit 32 x) :: u8)) XOR push_bit 40 (ucast (ucast (drop_bit 40 x) :: u8))
     XOR push_bit 48 (ucast (ucast (drop_bit 48 x) :: u8)) XOR push_bit 56 (ucast (ucast (drop_bit 56 x) :: u8))"
  (is "_ = ?y")
proof -
  have "\<forall>n < 64. bit ?y n = bit x n"
    unfolding all_less_64 upt_64 by (simp add: bit_simps)
  then show ?thesis by (intro bit_word_eqI) simp
qed

lemma DO_8_2_ok:
  assumes t: "table_ok t"
  shows "DO_8_2 t x = (zeros ^^ 8) x"
proof -
  have e: "t ! (7 - k) ! unat b = (zeros ^^ 8) (push_bit (8 * k) (ucast b))" if "k \<le> 7" for k and b :: u8
  proof -
    have "unat b < 256" using unsigned_less [of b] by simp
    then have "t ! (7 - k) ! unat b = (zeros ^^ Suc (7 - k)) (of_nat (unat b))" using t that by (simp add: table_ok_def)
    moreover have "of_nat (unat b) = (ucast b :: u64)" by simp
    ultimately show ?thesis using byte_shift [OF that, of b] Suc_diff_le [OF that] by (simp only: eval_nat_numeral BitM.simps)
  qed
  have top: "unat (drop_bit 56 x) = unat (ucast (drop_bit 56 x) :: u8)"
  proof -
    have "unat (drop_bit 56 x) < 2 ^ 8"
      unfolding unat_drop_bit_eq by (simp add: drop_bit_eq_div [of 56 "unat x"] div_less_iff_less_mult)
    then show ?thesis by (simp only: unsigned_ucast_eq) (simp add: take_bit_nat_eq_self)
  qed
  note z = xor_linear.xor [OF zeros_pow, of 8]
  note e' = e [of 0, simplified] e [of 1, simplified] e [of 2, simplified] e [of 3, simplified]
    e [of 4, simplified] e [of 5, simplified] e [of 6, simplified] e [of 7, simplified]
  have "DO_8_2 t x = (zeros ^^ 8) (ucast (ucast x :: u8) XOR push_bit 8 (ucast (ucast (drop_bit 8 x) :: u8))
     XOR push_bit 16 (ucast (ucast (drop_bit 16 x) :: u8)) XOR push_bit 24 (ucast (ucast (drop_bit 24 x) :: u8))
     XOR push_bit 32 (ucast (ucast (drop_bit 32 x) :: u8)) XOR push_bit 40 (ucast (ucast (drop_bit 40 x) :: u8))
     XOR push_bit 48 (ucast (ucast (drop_bit 48 x) :: u8)) XOR push_bit 56 (ucast (ucast (drop_bit 56 x) :: u8)))"
    unfolding DO_8_2_def z top e' One_nat_def ..
  then show ?thesis unfolding split_bytes [symmetric] .
qed

section \<open>The loops\<close>

lemma DO_8_ok: "table_ok t \<Longrightarrow> 8 \<le> length s \<Longrightarrow> DO_8_2 t (DO_8_1 crc s) = crc64_spec crc (take 8 s)"
  using crc64_spec_word [of "take 8 s" crc] by (simp add: DO_8_2_ok DO_8_1_def)

lemma spec_take_drop: "crc64_spec (crc64_spec crc (take n s)) (drop n s) = crc64_spec crc s"
  by (metis append_take_drop_id crc64_spec_append)

lemma align_loop_ok: "table_ok t \<Longrightarrow> align_loop t addr crc s = (crc', s') \<Longrightarrow>
    crc64_spec crc' s' = crc64_spec crc s \<and> length s' \<le> length s"
  by (induction t addr crc s rule: align_loop.induct) (auto simp: one_byte_ok crc64_spec_def split: if_splits)

lemma word_loop_ok: "table_ok t \<Longrightarrow> word_loop t crc s = (crc', s') \<Longrightarrow> crc64_spec crc' s' = crc64_spec crc s"
proof (induction t crc s rule: word_loop.induct)
  case (1 t crc s)
  then show ?case
    using spec_take_drop [of crc 8 s] by (auto simp: word_loop.simps [of t crc s] DO_8_ok split: if_splits)
qed

text \<open>The parallel loops advance each stream by \<open>len\<close> bytes, a multiple of eight.\<close>

definition advance :: "nat \<Rightarrow> u64 \<times> u8 list \<Rightarrow> u64 \<times> u8 list" where
  "advance len = (\<lambda>(crc, s). (crc64_spec crc (take len s), drop len s))"

lemma advance_0: "advance 0 a = a"
  by (simp add: advance_def crc64_spec_def split: prod.splits)

lemma advance_8:
  assumes "table_ok t" "8 \<le> len" "len \<le> length s"
  shows "advance (len - 8) (DO_8_2 t (DO_8_1 crc s), drop 8 s) = advance len (crc, s)"
proof -
  have "take len s = take 8 s @ take (len - 8) (drop 8 s)"
    using assms by (simp flip: take_add)
  then show ?thesis
    using assms by (simp add: advance_def DO_8_ok crc64_spec_append)
qed

lemma dual_loop_ok:
  "table_ok t \<Longrightarrow> 8 dvd len \<Longrightarrow> len \<le> length (snd a) \<Longrightarrow> len \<le> length (snd b) \<Longrightarrow>
   dual_loop t len a b = (advance len a, advance len b)"
proof (induction t len a b rule: dual_loop.induct)
  case (1 t len crc1 s1 crc2 s2)
  then show ?case
    using dvd_imp_le [of 8 len] advance_0
    by (cases "8 \<le> len"; cases "len = 0") (auto simp: dual_loop.simps [of t len] dual_loop.simps [of t 0] Let_def advance_8 dvd_diff_nat)
qed

lemma tri_loop_ok:
  "table_ok t \<Longrightarrow> 8 dvd len \<Longrightarrow> len \<le> length (snd a) \<Longrightarrow> len \<le> length (snd b) \<Longrightarrow> len \<le> length (snd c) \<Longrightarrow>
   tri_loop t len a b c = (advance len a, advance len b, advance len c)"
proof (induction t len a b c rule: tri_loop.induct)
  case (1 t len crc1 s1 crc2 s2 crc3 s3)
  then show ?case
    using dvd_imp_le [of 8 len] advance_0
    by (cases "8 \<le> len"; cases "len = 0") (auto simp: tri_loop.simps [of t len] tri_loop.simps [of t 0] Let_def advance_8 dvd_diff_nat)
qed

lemma CRC64_SPLIT_ok:
  assumes "len < 2 ^ 64" "2 \<le> d"
  shows "8 dvd CRC64_SPLIT len d" "d * CRC64_SPLIT len d \<le> len"
proof -
  have l: "len div d < 2 ^ 63"
    using assms div_le_mono2 [of 2 d len] by (simp add: less_mult_imp_div_less)
  have "w64 (len div d) AND 0x7ffffffffffffff8 = w64 (len div d) AND NOT (mask 3)"
  proof (rule bit_word_eqI)
    fix n assume n: "n < LENGTH(64)"
    have "(0x7ffffffffffffff8 :: u64) = push_bit 3 (mask 60)"
      by (simp add: mask_eq_exp_minus_1 push_bit_eq_mult)
    then have "bit (0x7ffffffffffffff8 :: u64) n \<longleftrightarrow> 3 \<le> n \<and> n < 63"
      using n by (simp only: bit_push_bit_iff bit_mask_iff) auto
    moreover have "\<not> bit (w64 (len div d)) 63"
      using l by (simp add: w64_def bit_of_nat_iff bit_iff_odd [of "len div d"] div_less)
    ultimately show "bit (w64 (len div d) AND 0x7ffffffffffffff8) n = bit (w64 (len div d) AND NOT (mask 3)) n"
      using n by (cases "n = 63") (auto simp: bit_simps)
  qed
  then have "CRC64_SPLIT len d = len div d div 8 * 8"
    using unat_and_not_mask [of 3 "w64 (len div d)"] l by (simp add: CRC64_SPLIT_def unat_w64_small)
  then show "8 dvd CRC64_SPLIT len d" "d * CRC64_SPLIT len d \<le> len"
    using assms div_times_less_eq_dividend [of "len div d" 8] div_times_less_eq_dividend [of len d]
    by (simp_all, metis le_trans mult.commute mult_le_mono2)
qed

section \<open>Joining\<close>

lemma matrix_of_rstep:
  "matrix_of (CRC64_REVERSED_POLY # map (\<lambda>n. push_bit (n - 1) 1) [1..<64] @ drop 64 row) rstep" if "length row = 64"
proof -
  have "rstep (2 ^ n) = (if n = 0 then CRC64_REVERSED_POLY else 2 ^ (n - 1))" if "n < 64" for n
    using that by (intro bit_word_eqI) (auto simp: rstep_def bit_simps)
  then show ?thesis
    using that by (auto simp: matrix_of_def nth_Cons' nth_append)
qed

definition cache_shape :: "cache \<Rightarrow> bool" where
  "cache_shape c \<longleftrightarrow> length c = 64 \<and> (\<forall>k < 64. length (c ! k) = 64)"

definition cache_filled :: "cache \<Rightarrow> bool" where
  "cache_filled c \<longleftrightarrow> length c = 64 \<and> (\<forall>k < 64. matrix_of (c ! k) (zeros ^^ (2 ^ k)))"

text \<open>Either the cache is as it was at the start of the program, or it has been filled.\<close>

definition cache_ok :: "cache \<Rightarrow> bool" where
  "cache_ok c \<longleftrightarrow> cache_shape c \<and> (c ! 0 ! 0 = 0 \<or> cache_filled c)"

lemma length_matrix: "matrix_of m f \<Longrightarrow> length m = 64"
  by (simp add: matrix_of_def)

lemma square_zeros:
  "matrix_of m (zeros ^^ n) \<Longrightarrow> length row = 64 \<Longrightarrow> matrix_of (gf2_matrix_square row m 64) (zeros ^^ (2 * n))"
  using square_matrix [OF _ zeros_pow, of m n row] by (simp add: funpow_mult mult.commute)

lemma fill_loop:
  assumes "cache_shape c" "matrix_of (c ! 1) (rstep ^^ 4)" "k \<le> 64"
  shows "cache_shape (foldl (\<lambda>cache k. cache[k := gf2_matrix_square (cache ! k) (cache ! (if k = 0 then 1 else k - 1)) 64]) c [0..<k])
    \<and> (\<forall>j < k. matrix_of (foldl (\<lambda>cache k. cache[k := gf2_matrix_square (cache ! k) (cache ! (if k = 0 then 1 else k - 1)) 64]) c [0..<k] ! j) (zeros ^^ (2 ^ j)))"
  using assms(3)
proof (induction k)
  case (Suc k)
  define c' where "c' = foldl (\<lambda>cache k. cache[k := gf2_matrix_square (cache ! k) (cache ! (if k = 0 then 1 else k - 1)) 64]) c [0..<k]"
  have c': "cache_shape c'" "\<forall>j < k. matrix_of (c' ! j) (zeros ^^ (2 ^ j))" "k = 0 \<Longrightarrow> c' = c"
    using Suc by (auto simp: c'_def)
  have "matrix_of (gf2_matrix_square (c' ! k) (c' ! (if k = 0 then 1 else k - 1)) 64) (zeros ^^ (2 ^ k))"
  proof (cases k)
    case 0
    then show ?thesis
      using c'(3) assms(1) square_matrix [OF assms(2) xor_linear_funpow [OF rstep.xor_linear_axioms], of "c ! 0"]
      by (simp add: cache_shape_def zeros_def funpow_mult)
  next
    case (Suc i)
    then show ?thesis
      using c'(1,2) \<open>Suc k \<le> 64\<close> square_zeros [of "c' ! i" "2 ^ i" "c' ! k"] by (simp add: cache_shape_def)
  qed
  then show ?case
    using c' Suc.prems length_matrix unfolding c'_def [symmetric] cache_shape_def
    by (auto simp: nth_list_update less_Suc_eq simp flip: c'_def)
qed (use assms in simp)

lemma init_combine_cache_ok:
  assumes "cache_shape c"
  shows "cache_filled (init_combine_cache c CRC64_REVERSED_POLY 64)"
proof -
  define row where "row = CRC64_REVERSED_POLY # map (\<lambda>n. push_bit (n - 1) 1) [1..<64] @ drop 64 (c ! 1)"
  define c1 where "c1 = c[1 := row]"
  define c2 where "c2 = c1[0 := gf2_matrix_square (c1 ! 0) (c1 ! 1) 64]"
  define c3 where "c3 = c2[1 := gf2_matrix_square (c2 ! 1) (c2 ! 0) 64]"
  note rl = rstep.xor_linear_axioms
  have c: "length c = 64" "length (c ! 0) = 64" "length (c ! 1) = 64" using assms by (auto simp: cache_shape_def)
  have r: "matrix_of row rstep" using matrix_of_rstep [OF c(3)] by (simp add: row_def)
  have r2: "matrix_of (c2 ! 0) (rstep ^^ 2)"
    using square_matrix [OF r rl] c by (simp add: c2_def c1_def)
  have r3: "matrix_of (c3 ! 1) (rstep ^^ 4)"
    using square_matrix [OF r2 xor_linear_funpow [OF rl], of "c2 ! 1"] c length_matrix [OF r]
    by (simp add: c3_def c2_def c1_def funpow_mult)
  have "cache_shape c3"
    using assms length_matrix [OF r] length_matrix [OF r2] length_matrix [OF r3] c
    by (auto simp: cache_shape_def c3_def c2_def c1_def nth_list_update)
  moreover have "init_combine_cache c CRC64_REVERSED_POLY 64 =
      foldl (\<lambda>cache k. cache[k := gf2_matrix_square (cache ! k) (cache ! (if k = 0 then 1 else k - 1)) 64]) c3 [0..<64]"
    unfolding init_combine_cache_def Let_def c3_def c2_def c1_def row_def ..
  ultimately show ?thesis
    using fill_loop [of c3 64, OF _ r3] by (simp only: cache_filled_def cache_shape_def) simp
qed

lemma combine_loop_ok:
  "cache_filled c \<Longrightarrow> k < 64 \<Longrightarrow> 2 ^ k * n < 2 ^ 64 \<Longrightarrow> combine_loop c k n crc = (zeros ^^ (2 ^ k * n)) crc"
proof (induction c k n crc rule: combine_loop.induct)
  case (1 c k n crc)
  define crc' where "crc' = (if odd n then gf2_matrix_times_switch (c ! k) crc else crc)"
  have crc': "crc' = (zeros ^^ (2 ^ k * (n mod 2))) crc"
    using 1(2,3) times_matrix [OF _ zeros_pow, of "c ! k" "2 ^ k"] by (auto simp: crc'_def cache_filled_def odd_iff_mod_2_eq_one)
  have "2 ^ k * (2 * q + r) = 2 ^ Suc k * q + 2 ^ k * r" for q r :: nat
    by (simp add: algebra_simps)
  from this [of "n div 2" "n mod 2"] have n: "2 ^ k * n = 2 ^ Suc k * (n div 2) + 2 ^ k * (n mod 2)"
    by (simp only: mult_div_mod_eq)
  have "(zeros ^^ (2 ^ k * n)) crc = (zeros ^^ (2 ^ Suc k * (n div 2))) crc'"
    unfolding crc' n by (simp only: funpow_add comp_apply)
  moreover have "combine_loop c ((k + 1) mod 64) (n div 2) crc' = (zeros ^^ (2 ^ Suc k * (n div 2))) crc'" if "n div 2 \<noteq> 0"
  proof -
    have "Suc k < 64"
    proof (rule ccontr)
      assume "\<not> Suc k < 64"
      then have "k = 63" using 1(3) by simp
      then show False using 1(4) that by simp
    qed
    then show ?thesis
      using 1(1) [OF crc'_def refl refl that] 1(2,4) n by simp
  qed
  ultimately show ?case
    by (simp add: combine_loop.simps [of c k n] Let_def crc'_def)
qed

lemma crc64_combine_ok:
  assumes "cache_ok c" "n < 2 ^ 64" "crc64_combine c crc1 crc2 n CRC64_REVERSED_POLY 64 = (crc, c')" "n = 0 \<Longrightarrow> crc2 = 0"
  shows "crc = (zeros ^^ n) crc1 XOR crc2 \<and> cache_ok c'"
proof (cases "n = 0")
  case False
  define d where "d = (if c ! 0 ! 0 = 0 then init_combine_cache c CRC64_REVERSED_POLY 64 else c)"
  have "cache_filled d" using assms(1) init_combine_cache_ok by (auto simp: d_def cache_ok_def)
  moreover from this have "cache_ok d" by (auto simp: cache_ok_def cache_filled_def cache_shape_def matrix_of_def)
  ultimately show ?thesis
    using assms(2,3) False combine_loop_ok [of d 0 n crc1] by (auto simp: crc64_combine_def Let_def d_def)
qed (use assms in \<open>auto simp: crc64_combine_def\<close>)

section \<open>The whole\<close>

definition crc_ok :: "crc_state \<Rightarrow> bool" where
  "crc_ok st \<longleftrightarrow> table_ok (crc64_table st) \<and> cache_ok (combine_cache st)"

lemma spec_streams:
  "crc64_spec crc s = crc64_spec ((zeros ^^ n) (crc64_spec crc (take n s)) XOR crc64_spec 0 (take n (drop n s))) (drop (n + n) s)"
  if "n + n \<le> length s"
proof -
  have "s = (take n s @ take n (drop n s)) @ drop (n + n) s"
    by (metis append_take_drop_id drop_drop take_add)
  then have "crc64_spec crc s = crc64_spec (crc64_spec crc (take n s @ take n (drop n s))) (drop (n + n) s)"
    by (metis crc64_spec_append)
  moreover have "length (take n (drop n s)) = n" using that by simp
  ultimately show ?thesis by (simp add: crc64_spec_split)
qed

lemma spec_take_0: "n = 0 \<Longrightarrow> crc64_spec 0 (take n s) = 0"
  by (simp add: crc64_spec_def)

lemma dual_ok:
  assumes st: "table_ok t" "cache_ok c" and len: "length s < 2 ^ 64" "n = CRC64_SPLIT (length s) 2"
    and d: "dual_loop t n (crc, s) (0, drop n s) = ((crc1, next1), (crc2, next2))"
    and c: "crc64_combine c crc1 crc2 n CRC64_REVERSED_POLY 64 = (crc', c')"
  shows "crc64_spec crc' next2 = crc64_spec crc s \<and> cache_ok c'"
proof -
  have n: "8 dvd n" "n + n \<le> length s" using CRC64_SPLIT_ok [OF len(1), of 2] len(2) by auto
  then have "crc1 = crc64_spec crc (take n s)" "crc2 = crc64_spec 0 (take n (drop n s))" "next2 = drop (n + n) s"
    using dual_loop_ok [OF st(1) n(1), of "(crc, s)" "(0, drop n s)"] d by (auto simp: advance_def)
  with crc64_combine_ok [OF st(2) _ c] n len(1) spec_streams [OF n(2), of crc] spec_take_0 show ?thesis
    by auto
qed

lemma tri_ok:
  assumes st: "table_ok t" "cache_ok c" and len: "length s < 2 ^ 64" "n = CRC64_SPLIT (length s) 3"
    and d: "tri_loop t n (crc, s) (0, drop n s) (0, drop (n + n) s) = ((crc1, next1), (crc2, next2), (crc3, next3))"
    and c: "crc64_combine c crc1 crc2 n CRC64_REVERSED_POLY 64 = (crc', c')"
      "crc64_combine c' crc' crc3 n CRC64_REVERSED_POLY 64 = (crc'', c'')"
  shows "crc64_spec crc'' next3 = crc64_spec crc s \<and> cache_ok c''"
proof -
  have n: "8 dvd n" "n + n + n \<le> length s" using CRC64_SPLIT_ok [OF len(1), of 3] len(2) by auto
  then have a: "crc1 = crc64_spec crc (take n s)" "crc2 = crc64_spec 0 (take n (drop n s))"
    "crc3 = crc64_spec 0 (take n (drop (n + n) s))" "next3 = drop n (drop (n + n) s)"
    using tri_loop_ok [OF st(1) n(1), of "(crc, s)" "(0, drop n s)" "(0, drop (n + n) s)"] d by (auto simp: advance_def)
  have 1: "crc' = (zeros ^^ n) crc1 XOR crc2 \<and> cache_ok c'"
    using crc64_combine_ok [OF st(2) _ c(1)] n len(1) a spec_take_0 by auto
  then have 2: "crc'' = (zeros ^^ n) crc' XOR crc3 \<and> cache_ok c''"
    using crc64_combine_ok [OF _ _ c(2)] n len(1) a spec_take_0 by auto
  have "n \<le> length (drop (n + n) s)" using n by simp
  then have "crc64_spec crc'' next3 = crc64_spec crc' (drop (n + n) s)"
    using 2 a crc64_spec_xor [of crc' 0 "take n (drop (n + n) s)"] spec_take_drop [of crc' n "drop (n + n) s"]
    by (simp del: drop_drop)
  then show ?thesis
    using 1 2 a n spec_streams [of n s crc] by simp
qed

lemma crcspeed64little_ok:
  assumes st: "crc_ok st" and len: "length s < 2 ^ 64"
  shows "\<exists>st'. crcspeed64little st crc buf s = (crc64_spec crc s, st') \<and> crc_ok st'"
proof -
  define t where "t = crc64_table st"
  have t: "table_ok t" "cache_ok (combine_cache st)" using st by (auto simp: crc_ok_def t_def)
  obtain crc1 s1 where a: "align_loop t buf crc s = (crc1, s1)" by fastforce
  define mid where "mid = (if length s1 > CRC64_TRI_CUTOFF st then
       let len = CRC64_SPLIT (length s1) 3;
           ((crc1, next1), (crc2, next2), (crc3, next3)) = tri_loop t len (crc1, s1) (0, drop len s1) (0, drop (len + len) s1);
           (crc1, cache) = crc64_combine (combine_cache st) crc1 crc2 len CRC64_REVERSED_POLY 64;
           (crc1, cache) = crc64_combine cache crc1 crc3 len CRC64_REVERSED_POLY 64
       in (crc1, next3, cache)
     else if length s1 > CRC64_DUAL_CUTOFF st then
       let len = CRC64_SPLIT (length s1) 2;
           ((crc1, next1), (crc2, next2)) = dual_loop t len (crc1, s1) (0, drop len s1);
           (crc1, cache) = crc64_combine (combine_cache st) crc1 crc2 len CRC64_REVERSED_POLY 64
       in (crc1, next2, cache)
     else (crc1, s1, combine_cache st))"
  obtain crc2 s2 cache where m: "mid = (crc2, s2, cache)" by (cases mid)
  obtain crc3 s3 where w: "word_loop t crc2 s2 = (crc3, s3)" by fastforce
  have 1: "crc64_spec crc1 s1 = crc64_spec crc s" "length s1 < 2 ^ 64"
    using align_loop_ok [OF t(1) a] len by auto
  have 2: "crc64_spec crc2 s2 = crc64_spec crc1 s1 \<and> cache_ok cache"
    using m unfolding mid_def Let_def
    by (auto split: if_splits prod.splits intro: t dest: tri_ok [OF t 1(2) refl] dual_ok [OF t 1(2) refl])
  have 3: "crc64_spec crc3 s3 = crc64_spec crc2 s2"
    by (rule word_loop_ok [OF t(1) w])
  show ?thesis
  proof (cases "CRC64_DUAL_CUTOFF st < 1")
    case True
    then show ?thesis using st t one_byte_loop by (simp add: crcspeed64little_def t_def)
  next
    case False
    then have "crcspeed64little st crc buf s = (foldl (one_byte t) crc3 s3, st\<lparr>combine_cache := cache\<rparr>)"
      unfolding crcspeed64little_def t_def [symmetric] Let_def [of t] using a m [unfolded mid_def] w by simp
    then show ?thesis
      using 1 2 3 t one_byte_loop [OF t(1), of crc3 s3] by (simp add: crc_ok_def t_def)
  qed
qed

section \<open>Big-endian machines\<close>

lemma div_8_minus: "8 \<le> n \<Longrightarrow> (n - 8) div 8 = n div 8 - 1" "8 \<le> n \<Longrightarrow> (n - 8) mod 8 = (n :: nat) mod 8"
  by (simp_all add: le_div_geq le_mod_geq)

lemma bit_rev8': "bit (rev8 a) n \<longleftrightarrow> n < 64 \<and> bit a (8 * (7 - n div 8) + n mod 8)"
  using bit_rev8 [of n a] bit_imp_le_length [of "rev8 a" n] by auto

interpretation rev8: xor_linear rev8
  by unfold_locales (rule bit_word_eqI, simp add: bit_rev8' bit_xor_iff)

lemma rev8_rev8: "rev8 (rev8 a) = a"
proof (rule bit_word_eqI)
  fix n assume n: "n < LENGTH(64)"
  define q r where "q = n div 8" and "r = n mod 8"
  have "n = 8 * q + r" "q \<le> 7" "r < 8" using n by (auto simp: q_def r_def)
  moreover from this have "(8 * (7 - q) + r) div 8 = 7 - q" "(8 * (7 - q) + r) mod 8 = r" "8 * (7 - q) + r < 64" by auto
  ultimately show "bit (rev8 (rev8 a)) n = bit a n"
    unfolding bit_rev8' by (simp flip: q_def r_def)
qed

lemma rev8_drop: "push_bit 8 (rev8 a) = rev8 (drop_bit 8 a)"
proof (rule bit_word_eqI)
  fix n assume n: "n < LENGTH(64)"
  define q r where "q = n div 8" and "r = n mod 8"
  have "n = 8 * q + r" "q \<le> 7" "r < 8" using n by (auto simp: q_def r_def)
  then show "bit (push_bit 8 (rev8 a)) n = bit (rev8 (drop_bit 8 a)) n"
    unfolding bit_rev8' bit_push_bit_iff bit_drop_bit_eq comp_apply
    by (cases "8 \<le> n") (auto simp: div_8_minus algebra_simps diff_mult_distrib2 simp flip: q_def r_def dest: bit_imp_le_length)
qed

lemma rev8_load: "length bs = 8 \<Longrightarrow> le_word (rev bs) = rev8 (le_word bs)"
  using le_bytes_le_word [of bs, where 'a = 64] by (simp add: bswap64_rev8 [symmetric] bswap64_def)

lemma and_ff: "x AND 0xff = (ucast (ucast x :: u8) :: u64)"
  unfolding and_ff_take by (rule bit_word_eqI) (auto simp: bit_simps)

lemma unat_ucast_byte: "unat (ucast (c :: u8) :: u64) = unat c"
  by (simp add: unsigned_ucast_eq take_bit_nat_eq_self unsigned_less [THEN less_le_trans])

lemma byte_rev8:
  assumes "k \<le> 7"
  shows "(ucast (drop_bit (8 * k) (rev8 x)) :: u8) = ucast (drop_bit (8 * (7 - k)) x)"
proof (rule bit_word_eqI)
  fix n assume "n < LENGTH(8)"
  then have "(8 * k + n) div 8 = k" "(8 * k + n) mod 8 = n" "8 * k + n < 64" "n < 8" using assms by auto
  then show "bit (ucast (drop_bit (8 * k) (rev8 x)) :: u8) n = bit (ucast (drop_bit (8 * (7 - k)) x) :: u8) n"
    by (simp add: bit_ucast_iff bit_drop_bit_eq bit_rev8')
qed

lemma top_byte: "drop_bit 56 (x :: u64) = ucast (ucast (drop_bit 56 x) :: u8)"
  by (rule bit_word_eqI) (auto simp: bit_simps dest: bit_imp_le_length)

lemma big_byte_ok:
  assumes t: "table_ok t"
  shows "big_byte (map (map rev8) t) (rev8 crc) b = rev8 (zeros (crc XOR ucast b))"
proof -
  have "drop_bit 56 (rev8 crc) XOR ucast b = (crc XOR ucast b) AND 0xff"
  proof -
    have "drop_bit 56 (rev8 crc) = ucast (ucast crc :: u8)"
      using top_byte [of "rev8 crc"] byte_rev8 [of 7 crc] by simp
    moreover have "(crc XOR ucast b) AND 0xff = ucast (ucast crc :: u8) XOR ucast b"
      unfolding and_ff_take by (rule bit_word_eqI) (auto simp: bit_simps dest: bit_imp_le_length)
    ultimately show ?thesis by simp
  qed
  then have "big_byte (map (map rev8) t) (rev8 crc) b = rev8 (one_byte t crc b)"
    using t unat_and_ff [of "crc XOR ucast b"]
    by (simp add: big_byte_def one_byte_def rev8_drop rev8.xor table_ok_def)
  then show ?thesis by (simp add: one_byte_ok [OF t])
qed

lemma big_word_ok:
  assumes t: "table_ok t"
  shows "big_word (map (map rev8) t) (rev8 x) = rev8 ((zeros ^^ 8) x)"
proof -
  have b: "unat (drop_bit (8 * k) (rev8 x) AND 0xff) = unat (ucast (drop_bit (8 * (7 - k)) x) :: u8)" if "k \<le> 7" for k
    unfolding and_ff byte_rev8 [OF that] unat_ucast_byte ..
  have e: "map (map rev8) t ! k ! unat c = rev8 (t ! k ! unat c)" if "k < 8" for k and c :: u8
    using t that unsigned_less [of c, where 'a = nat] by (simp add: table_ok_def)
  have top: "unat (drop_bit 56 (rev8 x)) = unat (ucast x :: u8)" "unat (drop_bit 56 x) = unat (ucast (drop_bit 56 x) :: u8)"
    using arg_cong [OF top_byte [of "rev8 x"], of unat] byte_rev8 [of 7 x] arg_cong [OF top_byte [of x], of unat]
    unfolding unat_ucast_byte by simp_all
  have "big_word (map (map rev8) t) (rev8 x) = rev8 (DO_8_2 t x)"
    using b [of 0] b [of 1] b [of 2] b [of 3] b [of 4] b [of 5] b [of 6]
    by (simp add: big_word_def DO_8_2_def top e rev8.xor ac_simps)
  then show ?thesis by (simp add: DO_8_2_ok [OF t])
qed

lemma big_align_loop_ok: "table_ok t \<Longrightarrow> big_align_loop (map (map rev8) t) addr (rev8 crc) s = (crc', s') \<Longrightarrow>
    \<exists>c. crc' = rev8 c \<and> crc64_spec c s' = crc64_spec crc s"
proof (induction s arbitrary: addr crc)
  case (Cons b s)
  then show ?case
    using Cons.IH [of "addr + 1" "zeros (crc XOR ucast b)"] by (auto simp: big_byte_ok crc64_spec_def split: if_splits)
qed auto

lemma big_word_loop_ok: "table_ok t \<Longrightarrow> big_word_loop (map (map rev8) t) (rev8 crc) s = (crc', s') \<Longrightarrow>
    \<exists>c. crc' = rev8 c \<and> crc64_spec c s' = crc64_spec crc s"
proof (induction s arbitrary: crc rule: length_induct)
  case (1 s)
  show ?case
  proof (cases "8 \<le> length s")
    case True
    have "big_word (map (map rev8) t) (rev8 crc XOR le_word (rev (take 8 s))) = rev8 (crc64_spec crc (take 8 s))"
      using True 1(2) rev8_load [of "take 8 s"] crc64_spec_word [of "take 8 s" crc] big_word_ok [of t "crc XOR le_word (take 8 s)"]
      by (simp add: rev8.xor)
    then have "big_word_loop (map (map rev8) t) (rev8 (crc64_spec crc (take 8 s))) (drop 8 s) = (crc', s')"
      using 1(3) True by (simp add: big_word_loop.simps [of _ "rev8 crc" s])
    then show ?thesis
      using 1(1) [rule_format, of "drop 8 s"] 1(2) True spec_take_drop [of crc 8 s] by fastforce
  next
    case False
    then show ?thesis using 1 by (auto simp: big_word_loop.simps [of _ "rev8 crc" s])
  qed
qed

lemma big_byte_loop: "table_ok t \<Longrightarrow> foldl (big_byte (map (map rev8) t)) (rev8 crc) s = rev8 (crc64_spec crc s)"
  unfolding crc64_spec_def by (induction s arbitrary: crc) (simp_all add: big_byte_ok)

lemma crcspeed64big_ok:
  assumes t: "table_ok t"
  shows "crcspeed64big (map (map rev8) t) crc buf s = crc64_spec crc s"
proof -
  obtain crc1 s1 where a: "big_align_loop (map (map rev8) t) buf (rev8 crc) s = (crc1, s1)" by fastforce
  then obtain c1 where c1: "crc1 = rev8 c1" "crc64_spec c1 s1 = crc64_spec crc s"
    using big_align_loop_ok [OF t] by blast
  obtain crc2 s2 where w: "big_word_loop (map (map rev8) t) crc1 s1 = (crc2, s2)" by fastforce
  then obtain c2 where c2: "crc2 = rev8 c2" "crc64_spec c2 s2 = crc64_spec c1 s1"
    using big_word_loop_ok [OF t] c1(1) by blast
  show ?thesis
    using a w c1 c2 big_byte_loop [OF t, of c2 s2] by (simp add: crcspeed64big_def rev8_rev8)
qed

section \<open>Every machine\<close>

definition native_ok :: "bool \<Rightarrow> crc_state \<Rightarrow> bool" where
  "native_ok big st \<longleftrightarrow> cache_ok (combine_cache st) \<and>
     (if big then \<exists>t. table_ok t \<and> crc64_table st = map (map rev8) t else table_ok (crc64_table st))"

lemma crc64_init_ok: "cache_ok (combine_cache st) \<Longrightarrow> \<exists>st'. crc64_init big st = Some st' \<and> native_ok big st'"
  using crcspeed64little_init_ok
  by (auto simp: crc64_init_def crcspeed64native_init_def crcspeed64big_init_def native_ok_def)

lemma cache_ok_start: "cache_ok (combine_cache crc_start)"
  by (simp add: crc_start_def cache_ok_def cache_shape_def)

lemma crc64_ok:
  "native_ok big st \<Longrightarrow> length s < 2 ^ 64 \<Longrightarrow> \<exists>st'. crc64 big st crc buf s = (crc64_spec crc s, st') \<and> native_ok big st'"
  using crcspeed64little_ok [of st s crc buf] crcspeed64big_ok [of _ crc buf s]
  by (cases big) (auto simp: crc64_def crcspeed64native_def native_ok_def crc_ok_def)

text \<open>A client that feeds a message piece by piece, each in a buffer of its own.\<close>

fun crc64_feed :: "bool \<Rightarrow> crc_state \<Rightarrow> u64 \<Rightarrow> (u64 \<times> u8 list) list \<Rightarrow> u64 \<times> crc_state" where
  "crc64_feed big st crc [] = (crc, st)"
| "crc64_feed big st crc ((buf, s) # ps) = (let (crc, st) = crc64 big st crc buf s in crc64_feed big st crc ps)"

lemma crc64_feed_ok:
  "native_ok big st \<Longrightarrow> \<forall>p \<in> set ps. length (snd p) < 2 ^ 64 \<Longrightarrow>
   \<exists>st'. crc64_feed big st crc ps = (crc64_spec crc (concat (map snd ps)), st') \<and> native_ok big st'"
proof (induction ps arbitrary: st crc)
  case Nil
  then show ?case by (simp add: crc64_spec_def)
next
  case (Cons p ps)
  obtain buf s where p: "p = (buf, s)" by (cases p)
  obtain st1 where "crc64 big st crc buf s = (crc64_spec crc s, st1)" "native_ok big st1"
    using crc64_ok [OF Cons.prems(1), of s crc buf] Cons.prems(2) p by auto
  then show ?case
    using Cons.IH [of st1 "crc64_spec crc s"] Cons.prems(2) p by (auto simp: crc64_spec_append)
qed

end
