(* ===== verification/Crc16.thy ===== *)
theory Crc16
  imports Crc64_Check
begin

text \<open>
  The 16-bit cyclic redundancy code: the table-driven \<open>crc16\<close> of \<open>src/bench/redis-src/crc16.c\<close>, which
  assigns keys to cluster slots, and the 16-bit functions of \<open>crcspeed.c\<close>. Both are compared with the
  shift register of the polynomial \<open>0x1021\<close>, most significant bit first.
\<close>

type_synonym u16 = "16 word"

section \<open>One byte at a time\<close>

definition crc16tab :: "u16 list" where
  "crc16tab =
    [0x0000, 0x1021, 0x2042, 0x3063, 0x4084, 0x50a5, 0x60c6, 0x70e7,
     0x8108, 0x9129, 0xa14a, 0xb16b, 0xc18c, 0xd1ad, 0xe1ce, 0xf1ef,
     0x1231, 0x0210, 0x3273, 0x2252, 0x52b5, 0x4294, 0x72f7, 0x62d6,
     0x9339, 0x8318, 0xb37b, 0xa35a, 0xd3bd, 0xc39c, 0xf3ff, 0xe3de,
     0x2462, 0x3443, 0x0420, 0x1401, 0x64e6, 0x74c7, 0x44a4, 0x5485,
     0xa56a, 0xb54b, 0x8528, 0x9509, 0xe5ee, 0xf5cf, 0xc5ac, 0xd58d,
     0x3653, 0x2672, 0x1611, 0x0630, 0x76d7, 0x66f6, 0x5695, 0x46b4,
     0xb75b, 0xa77a, 0x9719, 0x8738, 0xf7df, 0xe7fe, 0xd79d, 0xc7bc,
     0x48c4, 0x58e5, 0x6886, 0x78a7, 0x0840, 0x1861, 0x2802, 0x3823,
     0xc9cc, 0xd9ed, 0xe98e, 0xf9af, 0x8948, 0x9969, 0xa90a, 0xb92b,
     0x5af5, 0x4ad4, 0x7ab7, 0x6a96, 0x1a71, 0x0a50, 0x3a33, 0x2a12,
     0xdbfd, 0xcbdc, 0xfbbf, 0xeb9e, 0x9b79, 0x8b58, 0xbb3b, 0xab1a,
     0x6ca6, 0x7c87, 0x4ce4, 0x5cc5, 0x2c22, 0x3c03, 0x0c60, 0x1c41,
     0xedae, 0xfd8f, 0xcdec, 0xddcd, 0xad2a, 0xbd0b, 0x8d68, 0x9d49,
     0x7e97, 0x6eb6, 0x5ed5, 0x4ef4, 0x3e13, 0x2e32, 0x1e51, 0x0e70,
     0xff9f, 0xefbe, 0xdfdd, 0xcffc, 0xbf1b, 0xaf3a, 0x9f59, 0x8f78,
     0x9188, 0x81a9, 0xb1ca, 0xa1eb, 0xd10c, 0xc12d, 0xf14e, 0xe16f,
     0x1080, 0x00a1, 0x30c2, 0x20e3, 0x5004, 0x4025, 0x7046, 0x6067,
     0x83b9, 0x9398, 0xa3fb, 0xb3da, 0xc33d, 0xd31c, 0xe37f, 0xf35e,
     0x02b1, 0x1290, 0x22f3, 0x32d2, 0x4235, 0x5214, 0x6277, 0x7256,
     0xb5ea, 0xa5cb, 0x95a8, 0x8589, 0xf56e, 0xe54f, 0xd52c, 0xc50d,
     0x34e2, 0x24c3, 0x14a0, 0x0481, 0x7466, 0x6447, 0x5424, 0x4405,
     0xa7db, 0xb7fa, 0x8799, 0x97b8, 0xe75f, 0xf77e, 0xc71d, 0xd73c,
     0x26d3, 0x36f2, 0x0691, 0x16b0, 0x6657, 0x7676, 0x4615, 0x5634,
     0xd94c, 0xc96d, 0xf90e, 0xe92f, 0x99c8, 0x89e9, 0xb98a, 0xa9ab,
     0x5844, 0x4865, 0x7806, 0x6827, 0x18c0, 0x08e1, 0x3882, 0x28a3,
     0xcb7d, 0xdb5c, 0xeb3f, 0xfb1e, 0x8bf9, 0x9bd8, 0xabbb, 0xbb9a,
     0x4a75, 0x5a54, 0x6a37, 0x7a16, 0x0af1, 0x1ad0, 0x2ab3, 0x3a92,
     0xfd2e, 0xed0f, 0xdd6c, 0xcd4d, 0xbdaa, 0xad8b, 0x9de8, 0x8dc9,
     0x7c26, 0x6c07, 0x5c64, 0x4c45, 0x3ca2, 0x2c83, 0x1ce0, 0x0cc1,
     0xef1f, 0xff3e, 0xcf5d, 0xdf7c, 0xaf9b, 0xbfba, 0x8fd9, 0x9ff8,
     0x6e17, 0x7e36, 0x4e55, 0x5e74, 0x2e93, 0x3eb2, 0x0ed1, 0x1ef0]"

text \<open>The arithmetic is that of \<open>int\<close>: a character is extended with its sign, the result is cut to 16 bits.\<close>

definition crc16_byte :: "u16 \<Rightarrow> u8 \<Rightarrow> u16" where
  "crc16_byte crc b =
     ucast (push_bit 8 (ucast crc :: u32) XOR ucast (crc16tab ! unat ((drop_bit 8 (ucast crc :: u32) XOR scast b) AND 0x00FF)))"

definition crc16 :: "u8 list \<Rightarrow> u16" where
  "crc16 buf = foldl crc16_byte 0 buf"

section \<open>Eight bytes at a time\<close>

text \<open>\<open>low_address_byte\<close> is the byte that \<open>&n\<close> points to for an \<open>int n\<close> below 256.\<close>

definition low_address_byte :: "bool \<Rightarrow> nat \<Rightarrow> u8" where
  "low_address_byte big n = (if big then 0 else of_nat n)"

definition next_entry16 :: "u16 list \<Rightarrow> u16 \<Rightarrow> u16" where
  "next_entry16 t0 crc = t0 ! unat (drop_bit 8 crc AND 0xff) XOR push_bit 8 crc"

definition crcspeed16little_init :: "bool \<Rightarrow> (u16 \<Rightarrow> u8 list \<Rightarrow> u16) \<Rightarrow> u16 list list" where
  "crcspeed16little_init big crcfn =
     (let t0 = map (\<lambda>n. crcfn 0 [low_address_byte big n]) [0..<256]
      in map (\<lambda>k. map (\<lambda>n. (next_entry16 t0 ^^ k) (t0 ! n)) [0..<256]) [0..<8])"

definition one_byte16 :: "u16 list list \<Rightarrow> u16 \<Rightarrow> u8 \<Rightarrow> u16" where
  "one_byte16 t crc b = t ! 0 ! unat ((drop_bit 8 crc XOR ucast b) AND 0xff) XOR push_bit 8 crc"

definition one_word16 :: "u16 list list \<Rightarrow> u16 \<Rightarrow> u64 \<Rightarrow> u16" where
  "one_word16 t crc n =
     t ! 7 ! unat ((n AND 0xff) XOR (ucast (drop_bit 8 crc) AND 0xff)) XOR
     t ! 6 ! unat ((drop_bit 8 n AND 0xff) XOR (ucast crc AND 0xff)) XOR
     t ! 5 ! unat (drop_bit 16 n AND 0xff) XOR
     t ! 4 ! unat (drop_bit 24 n AND 0xff) XOR
     t ! 3 ! unat (drop_bit 32 n AND 0xff) XOR
     t ! 2 ! unat (drop_bit 40 n AND 0xff) XOR
     t ! 1 ! unat (drop_bit 48 n AND 0xff) XOR
     t ! 0 ! unat (drop_bit 56 n)"

fun align_loop16 :: "u16 list list \<Rightarrow> u64 \<Rightarrow> u16 \<Rightarrow> u8 list \<Rightarrow> u16 \<times> u8 list" where
  "align_loop16 t addr crc [] = (crc, [])"
| "align_loop16 t addr crc (b # s) =
     (if addr AND 7 \<noteq> 0 then align_loop16 t (addr + 1) (one_byte16 t crc b) s else (crc, b # s))"

function word_loop16 :: "u16 list list \<Rightarrow> u16 \<Rightarrow> u8 list \<Rightarrow> u16 \<times> u8 list" where
  "word_loop16 t crc s =
     (if length s \<ge> 8 then word_loop16 t (one_word16 t crc (le_word (take 8 s))) (drop 8 s) else (crc, s))"
  by pat_completeness auto
termination
  by (relation "measure (\<lambda>(_, _, s). length s)") auto

declare word_loop16.simps [simp del]

definition crcspeed16little :: "u16 list list \<Rightarrow> u16 \<Rightarrow> u64 \<Rightarrow> u8 list \<Rightarrow> u16" where
  "crcspeed16little t crc buf s =
     (let (crc, s) = align_loop16 t buf crc s; (crc, s) = word_loop16 t crc s
      in foldl (one_byte16 t) crc s)"

section \<open>Big-endian machines\<close>

definition crcspeed16big_init :: "(u16 \<Rightarrow> u8 list \<Rightarrow> u16) \<Rightarrow> u16 list list" where
  "crcspeed16big_init fn = map (map (\<lambda>e. ucast (rev8 (ucast e)))) (crcspeed16little_init True fn)"

definition big_byte16 :: "u16 list list \<Rightarrow> u64 \<Rightarrow> u8 \<Rightarrow> u64" where
  "big_byte16 t crc b = ucast (t ! 0 ! unat ((drop_bit (56 - 8) crc XOR ucast b) AND 0xff)) XOR drop_bit 8 crc"

definition big_word16 :: "u16 list list \<Rightarrow> u64 \<Rightarrow> u64 \<Rightarrow> u64" where
  "big_word16 t crc n =
     ucast (t ! 0 ! unat ((n AND 0xff) XOR (drop_bit (56 - 8) crc AND 0xff)) XOR
     t ! 1 ! unat ((drop_bit 8 n AND 0xff) XOR (crc AND 0xff)) XOR
     t ! 2 ! unat (drop_bit 16 n AND 0xff) XOR
     t ! 3 ! unat (drop_bit 24 n AND 0xff) XOR
     t ! 4 ! unat (drop_bit 32 n AND 0xff) XOR
     t ! 5 ! unat (drop_bit 40 n AND 0xff) XOR
     t ! 6 ! unat (drop_bit 48 n AND 0xff) XOR
     t ! 7 ! unat (drop_bit 56 n))"

fun big_align_loop16 :: "u16 list list \<Rightarrow> u64 \<Rightarrow> u64 \<Rightarrow> u8 list \<Rightarrow> u64 \<times> u8 list" where
  "big_align_loop16 t addr crc [] = (crc, [])"
| "big_align_loop16 t addr crc (b # s) =
     (if addr AND 7 \<noteq> 0 then big_align_loop16 t (addr + 1) (big_byte16 t crc b) s else (crc, b # s))"

function big_word_loop16 :: "u16 list list \<Rightarrow> u64 \<Rightarrow> u8 list \<Rightarrow> u64 \<times> u8 list" where
  "big_word_loop16 t crc s =
     (if length s \<ge> 8 then big_word_loop16 t (big_word16 t crc (le_word (rev (take 8 s)))) (drop 8 s) else (crc, s))"
  by pat_completeness auto
termination
  by (relation "measure (\<lambda>(_, _, s). length s)") auto

declare big_word_loop16.simps [simp del]

definition crcspeed16big :: "u16 list list \<Rightarrow> u16 \<Rightarrow> u64 \<Rightarrow> u8 list \<Rightarrow> u16" where
  "crcspeed16big t crc_in buf s =
     (let crc = rev8 (ucast crc_in);
          (crc, s) = big_align_loop16 t buf crc s; (crc, s) = big_word_loop16 t crc s
      in ucast (rev8 (foldl (big_byte16 t) crc s)))"

definition crcspeed16native_init :: "bool \<Rightarrow> (u16 \<Rightarrow> u8 list \<Rightarrow> u16) \<Rightarrow> u16 list list" where
  "crcspeed16native_init big fn = (if \<not> big then crcspeed16little_init big fn else crcspeed16big_init fn)"

definition crcspeed16native :: "bool \<Rightarrow> u16 list list \<Rightarrow> u16 \<Rightarrow> u64 \<Rightarrow> u8 list \<Rightarrow> u16" where
  "crcspeed16native big t crc buf s = (if \<not> big then crcspeed16little t crc buf s else crcspeed16big t crc buf s)"

section \<open>The shift register\<close>

definition lstep :: "u16 \<Rightarrow> u16" where
  "lstep c = push_bit 1 c XOR (if bit c 15 then 0x1021 else 0)"

definition zeros16 :: "u16 \<Rightarrow> u16" where "zeros16 = lstep ^^ 8"

definition crc16_spec :: "u16 \<Rightarrow> u8 list \<Rightarrow> u16" where
  "crc16_spec = foldl (\<lambda>crc b. zeros16 (crc XOR push_bit 8 (ucast b)))"

interpretation lstep: xor_linear lstep
  unfolding lstep_def [abs_def] by (intro xor_linear_xor xor_linear_push xor_linear_test)

interpretation zeros16: xor_linear zeros16
  unfolding zeros16_def by (intro xor_linear_funpow lstep.xor_linear_axioms)

text \<open>The table doubles with each bit of its index, so that it is known from eight entries.\<close>

definition entries :: "nat \<Rightarrow> u16 list" where
  "entries k = map (\<lambda>n. zeros16 (push_bit 8 (of_nat n))) [0..<2 ^ k]"

lemma entries_Suc:
  assumes "k < 8"
  shows "entries (Suc k) = entries k @ map (\<lambda>x. x XOR zeros16 (push_bit 8 (2 ^ k))) (entries k)"
proof -
  have s: "of_nat (n + 2 ^ k) = (of_nat n :: u16) XOR 2 ^ k" if "n < 2 ^ k" for n
  proof -
    have "(2 :: nat) ^ k AND n = 0"
      using that by (metis and.commute and_exp_eq_0_iff_not_bit bit_take_bit_iff less_irrefl take_bit_nat_eq_self)
    then have "n + (2 ^ k :: nat) = n XOR 2 ^ k"
      by (metis and.commute disjunctive_add_eq_xor)
    then show ?thesis by (metis of_nat_xor_eq of_nat_power of_nat_numeral)
  qed
  have "[0..<2 ^ Suc k] = [0..<2 ^ k] @ map (\<lambda>n. n + 2 ^ k) [0..<2 ^ k]"
    using upt_add_eq_append [of 0 "2 ^ k" "2 ^ k"] by (simp add: mult_2 map_add_upt)
  moreover have "zeros16 (push_bit 8 (of_nat (n + 2 ^ k))) = zeros16 (push_bit 8 (of_nat n)) XOR zeros16 (push_bit 8 (2 ^ k))"
    if "n < 2 ^ k" for n
    unfolding s [OF that] xor_linear.xor [OF xor_linear_push] zeros16.xor ..
  ultimately show ?thesis
    unfolding entries_def by (simp only: map_append map_map comp_def) (simp only: append_same_eq same_append_eq, intro map_cong, auto)
qed

lemma zeros16_8: "zeros16 x = lstep (lstep (lstep (lstep (lstep (lstep (lstep (lstep x)))))))"
  by (simp add: zeros16_def numeral_eq_Suc)

lemma lstep_numeral:
  "lstep (numeral w) = (if bit (numeral w :: u16) 15 then push_bit 1 (numeral w) XOR 0x1021 else push_bit 1 (numeral w))"
  by (simp add: lstep_def)

lemma basis16:
  "zeros16 0x100 = 0x1021" "zeros16 0x200 = 0x2042" "zeros16 0x400 = 0x4084" "zeros16 0x800 = 0x8108"
  "zeros16 0x1000 = 0x1231" "zeros16 0x2000 = 0x2462" "zeros16 0x4000 = 0x48c4" "zeros16 0x8000 = 0x9188"
  by (simp_all add: zeros16_8 lstep_numeral)

lemma entries_0: "entries 0 = [0]"
  by (simp add: entries_def zeros16.zero)

lemma entries_8: "entries 8 = crc16tab"
proof -
  have 4: "entries 4 = [0x0000, 0x1021, 0x2042, 0x3063, 0x4084, 0x50a5, 0x60c6, 0x70e7,
     0x8108, 0x9129, 0xa14a, 0xb16b, 0xc18c, 0xd1ad, 0xe1ce, 0xf1ef]"
  proof -
    have 1: "entries 1 = [0, 0x1021]"
      using entries_Suc [of 0] by (simp add: entries_0 basis16)
    have 2: "entries 2 = [0, 0x1021, 0x2042, 0x3063]"
      using entries_Suc [of 1] by (simp add: 1 [unfolded One_nat_def] basis16 numeral_2_eq_2 [symmetric])
    show ?thesis
      using entries_Suc [of 2] entries_Suc [of 3] by (simp add: 2 basis16)
  qed
  show ?thesis
    using entries_Suc [of 4] entries_Suc [of 5] entries_Suc [of 6] entries_Suc [of 7] by (simp add: 4 basis16 crc16tab_def)
qed

lemma crc16tab_ok: "n < 256 \<Longrightarrow> crc16tab ! n = zeros16 (push_bit 8 (of_nat n))"
  using entries_8 by (simp add: entries_def [of 8] flip: entries_8)

lemma low_byte16: "zeros16 x = push_bit 8 x" if "drop_bit 8 x = 0"
proof -
  have l: "lstep y = push_bit 1 y" if "\<not> bit y 15" for y
    using that by (simp add: lstep_def)
  have b: "\<not> bit x j" if "8 \<le> j" for j
    using arg_cong [OF \<open>drop_bit 8 x = 0\<close>, of "\<lambda>y. bit y (j - 8)"] that by (simp add: bit_drop_bit_eq)
  have "k \<le> 8 \<Longrightarrow> (lstep ^^ k) x = push_bit k x" for k
  proof (induction k)
    case (Suc k)
    have "\<not> bit (push_bit k x) 15" using Suc.prems b [of "15 - k"] by (auto simp: bit_push_bit_iff)
    then show ?case using Suc l [of "push_bit k x"] by (simp add: push_bit_push_bit del: push_bit_Suc)
  qed simp
  from this [of 8] show ?thesis by (simp add: zeros16_def)
qed

text \<open>The high byte goes through the table, the low byte moves up.\<close>

lemma zeros16_split: "zeros16 x = zeros16 (push_bit 8 (drop_bit 8 x)) XOR push_bit 8 x"
proof -
  have x: "x = push_bit 8 (drop_bit 8 x) XOR take_bit 8 x"
    by (rule bit_word_eqI) (auto simp: bit_simps)
  have "zeros16 (take_bit 8 x) = push_bit 8 (take_bit 8 x)"
    by (rule low_byte16) (rule bit_word_eqI, auto simp: bit_simps)
  also have "\<dots> = push_bit 8 x"
    by (rule bit_word_eqI) (auto simp: bit_simps)
  finally show ?thesis
    using arg_cong [OF x, of zeros16] unfolding zeros16.xor by simp
qed

lemma unat_ff: "unat (x AND 0xff :: 'a::len word) < 256" if "8 \<le> LENGTH('a)"
proof -
  have "unat (x AND 0xff) = unat (take_bit 8 x)" by (simp only: and_ff_take)
  also have "\<dots> = take_bit 8 (unat x)" using that by (simp add: unsigned_take_bit_eq)
  also have "\<dots> < 256" using take_bit_nat_less_exp [of 8 "unat x"] by simp
  finally show ?thesis .
qed

lemma bit_u8: "bit (b :: u8) n \<Longrightarrow> n < 8"
  using bit_imp_le_length [of b n] by simp

lemma crc16_byte_ok: "crc16_byte crc b = zeros16 (crc XOR push_bit 8 (ucast b))"
proof -
  define i where "i = (drop_bit 8 (ucast crc :: u32) XOR scast b) AND 0x00FF"
  have "i = take_bit 8 (drop_bit 8 (ucast crc) XOR scast b)"
    by (simp only: i_def and_ff_take)
  then have i: "(of_nat (unat i) :: u16) = drop_bit 8 crc XOR ucast b"
    by (intro bit_word_eqI) (auto simp: bit_simps dest: bit_u8 bit_imp_le_length)
  have c: "drop_bit 8 (crc XOR push_bit 8 (ucast b)) = drop_bit 8 crc XOR ucast b" "push_bit 8 (crc XOR push_bit 8 (ucast b)) = push_bit 8 crc"
    by (rule bit_word_eqI, auto simp: bit_simps dest: bit_u8)+
  have t: "crc16tab ! unat i = zeros16 (push_bit 8 (of_nat (unat i)))"
    by (rule crc16tab_ok) (simp add: i_def unat_ff)
  have "crc16_byte crc b = push_bit 8 crc XOR crc16tab ! unat i"
    unfolding crc16_byte_def i_def [symmetric] by (rule bit_word_eqI) (auto simp: bit_simps)
  then show ?thesis
    unfolding zeros16_split [of "crc XOR push_bit 8 (ucast b)"] c t i by (simp only: xor.commute)
qed

lemma crc16_ok: "crc16 s = crc16_spec 0 s"
  unfolding crc16_def crc16_spec_def by (simp add: crc16_byte_ok [abs_def])

section \<open>The fast code\<close>

definition table16_ok :: "u16 list list \<Rightarrow> bool" where
  "table16_ok t \<longleftrightarrow> (\<forall>k < 8. \<forall>n < 256. t ! k ! n = (zeros16 ^^ Suc k) (push_bit 8 (of_nat n)))"

lemma unat_index [simp]: "unat (ucast (b :: u8) :: u16) = unat b" "unat b < 256"
  using unsigned_less [of b, where 'a = nat] by (simp_all add: unsigned_ucast_eq take_bit_nat_eq_self)

lemma table16_byte: "table16_ok t \<Longrightarrow> k < 8 \<Longrightarrow> t ! k ! unat (b :: u8) = (zeros16 ^^ Suc k) (push_bit 8 (ucast b))"
  by (simp add: table16_ok_def del: funpow.simps)

lemma index16: "unat ((drop_bit 8 crc XOR ucast b) AND 0xff :: u16) = unat (ucast (drop_bit 8 crc) XOR b :: u8)"
proof -
  have "(drop_bit 8 crc XOR ucast b) AND 0xff = (ucast (ucast (drop_bit 8 crc) XOR b :: u8) :: u16)"
    unfolding and_ff_take by (rule bit_word_eqI) (auto simp: bit_simps dest: bit_u8 bit_imp_le_length)
  then show ?thesis by simp
qed

lemma one_byte16_ok: "table16_ok t \<Longrightarrow> one_byte16 t crc b = zeros16 (crc XOR push_bit 8 (ucast b))"
proof -
  assume t: "table16_ok t"
  have c: "ucast (ucast (drop_bit 8 crc) XOR b :: u8) = drop_bit 8 (crc XOR push_bit 8 (ucast b))"
    "push_bit 8 (crc XOR push_bit 8 (ucast b)) = push_bit 8 crc"
    by (rule bit_word_eqI, auto simp: bit_simps dest: bit_u8 bit_imp_le_length)+
  show ?thesis
    unfolding one_byte16_def index16 table16_byte [OF t zero_less_numeral] c zeros16_split [of "crc XOR push_bit 8 (ucast b)"] by simp
qed

lemma crc16_spec_xor: "crc16_spec (a XOR b) s = (zeros16 ^^ length s) a XOR crc16_spec b s"
proof (induction s arbitrary: a b)
  case (Cons c s)
  show ?case
    using Cons [of "zeros16 a" "zeros16 (b XOR push_bit 8 (ucast c))"]
    by (simp add: crc16_spec_def zeros16.xor [symmetric] xor.assoc funpow_swap1)
qed (simp add: crc16_spec_def)

lemma crc16_spec_Cons:
  "crc16_spec crc (b # s) = (zeros16 ^^ Suc (length s)) crc XOR (zeros16 ^^ Suc (length s)) (push_bit 8 (ucast b)) XOR crc16_spec 0 s"
  using crc16_spec_xor [of "zeros16 (crc XOR push_bit 8 (ucast b))" 0 s]
  by (simp add: crc16_spec_def zeros16.xor funpow_swap1 xor.assoc xor_linear.xor [OF xor_linear_funpow [OF zeros16.xor_linear_axioms]])

lemma byte_of_word:
  assumes "length bs = 8" "k < 8"
  shows "drop_bit (8 * k) (le_word bs :: u64) AND 0xff = ucast (bs ! k)"
  unfolding and_ff_take
proof (rule bit_word_eqI)
  fix n assume "n < LENGTH(64)"
  moreover have "(8 * k + n) div 8 = k" "(8 * k + n) mod 8 = n" if "n < 8" using that by auto
  ultimately show "bit (take_bit 8 (drop_bit (8 * k) (le_word bs :: u64))) n = bit (ucast (bs ! k) :: u64) n"
    using assms bit_imp_le_length [of "bs ! k" n]
    by (cases "n < 8") (auto simp: bit_take_bit_iff bit_drop_bit_eq bit_ucast_iff bit_le_word_nth)
qed

lemma top_byte_of_word: "length bs = 8 \<Longrightarrow> drop_bit 56 (le_word bs :: u64) = ucast (bs ! 7)"
  using byte_of_word [of bs 7] top_byte [of "le_word bs"] by (simp add: and_ff)

lemma one_word16_ok:
  assumes t: "table16_ok t" and s: "length bs = 8"
  shows "one_word16 t crc (le_word bs) = crc16_spec crc bs"
proof -
  obtain b0 b1 b2 b3 b4 b5 b6 b7 where bs: "bs = [b0, b1, b2, b3, b4, b5, b6, b7]"
    using s by (auto simp: numeral_eq_Suc length_Suc_conv)
  have x: "(ucast b0 :: u64) XOR (ucast (drop_bit 8 crc) AND 0xff) = ucast (b0 XOR ucast (drop_bit 8 crc))"
    "(ucast b1 :: u64) XOR (ucast crc AND 0xff) = ucast (b1 XOR ucast crc)"
    unfolding and_ff_take by (rule bit_word_eqI, auto simp: bit_simps dest: bit_u8 bit_imp_le_length)+
  note e = table16_byte [OF t]
  define z where "z k = zeros16 ^^ k" for k
  have zx: "z k (a XOR b) = z k a XOR z k b" for k a b
    unfolding z_def by (rule xor_linear.xor [OF xor_linear_funpow [OF zeros16.xor_linear_axioms]])
  have z0: "z k 0 = 0" for k using zx [of k 0 0] by simp
  have hi: "push_bit 8 (ucast (b0 XOR ucast (drop_bit 8 crc))) = push_bit 8 (ucast b0) XOR push_bit 8 (drop_bit 8 crc)"
    and lo: "push_bit 8 (ucast (b1 XOR ucast crc)) = push_bit 8 (ucast b1) XOR push_bit 8 crc"
    by (rule bit_word_eqI, auto simp: bit_simps dest: bit_u8 bit_imp_le_length)+
  have "z 8 y = z 7 (zeros16 y)" for y
    using fun_cong [OF funpow_add [of 7 1 zeros16], of y] by (simp add: z_def)
  then have c: "z 8 crc = z 8 (push_bit 8 (drop_bit 8 crc)) XOR z 7 (push_bit 8 crc)"
    using zeros16_split [of crc] zx [of 7] by simp
  have spec: "crc16_spec crc bs = z 8 crc XOR z 8 (push_bit 8 (ucast b0)) XOR z 7 (push_bit 8 (ucast b1)) XOR z 6 (push_bit 8 (ucast b2))
      XOR z 5 (push_bit 8 (ucast b3)) XOR z 4 (push_bit 8 (ucast b4)) XOR z 3 (push_bit 8 (ucast b5)) XOR z 2 (push_bit 8 (ucast b6))
      XOR z 1 (push_bit 8 (ucast b7))"
    unfolding bs crc16_spec_Cons z_def [symmetric] by (simp add: z0 numeral_eq_Suc crc16_spec_def xor.assoc)
  have word: "one_word16 t crc (le_word bs) = z 8 (push_bit 8 (ucast (b0 XOR ucast (drop_bit 8 crc)))) XOR z 7 (push_bit 8 (ucast (b1 XOR ucast crc)))
      XOR z 6 (push_bit 8 (ucast b2)) XOR z 5 (push_bit 8 (ucast b3)) XOR z 4 (push_bit 8 (ucast b4)) XOR z 3 (push_bit 8 (ucast b5))
      XOR z 2 (push_bit 8 (ucast b6)) XOR z 1 (push_bit 8 (ucast b7))"
    unfolding one_word16_def byte_of_word [OF s, of 0, simplified] byte_of_word [OF s, of 1, simplified] byte_of_word [OF s, of 2, simplified]
      byte_of_word [OF s, of 3, simplified] byte_of_word [OF s, of 4, simplified] byte_of_word [OF s, of 5, simplified]
      byte_of_word [OF s, of 6, simplified] top_byte_of_word [OF s]
    by (simp add: bs x unat_ucast_byte e z_def [symmetric] del: funpow.simps) (simp add: numeral_eq_Suc)
  show ?thesis
    unfolding word spec hi lo zx c by (simp add: ac_simps)
qed

lemma crc16_spec_append: "crc16_spec crc (s @ t) = crc16_spec (crc16_spec crc s) t"
  by (simp add: crc16_spec_def)

lemma align_loop16_ok: "table16_ok t \<Longrightarrow> align_loop16 t addr crc s = (crc', s') \<Longrightarrow> crc16_spec crc' s' = crc16_spec crc s"
  by (induction t addr crc s rule: align_loop16.induct) (auto simp: one_byte16_ok crc16_spec_def split: if_splits)

lemma word_loop16_ok: "table16_ok t \<Longrightarrow> word_loop16 t crc s = (crc', s') \<Longrightarrow> crc16_spec crc' s' = crc16_spec crc s"
proof (induction t crc s rule: word_loop16.induct)
  case (1 t crc s)
  then show ?case
    using crc16_spec_append [of crc "take 8 s" "drop 8 s"] one_word16_ok [of t "take 8 s" crc]
    by (auto simp: word_loop16.simps [of t crc s] split: if_splits)
qed

lemma crcspeed16little_ok: "table16_ok t \<Longrightarrow> crcspeed16little t crc buf s = crc16_spec crc s"
proof -
  assume t: "table16_ok t"
  obtain crc1 s1 where a: "align_loop16 t buf crc s = (crc1, s1)" by fastforce
  obtain crc2 s2 where w: "word_loop16 t crc1 s1 = (crc2, s2)" by fastforce
  have "foldl (one_byte16 t) c u = crc16_spec c u" for c u
    unfolding crc16_spec_def by (induction u arbitrary: c) (simp_all add: one_byte16_ok [OF t])
  then show ?thesis
    using a w align_loop16_ok [OF t a] word_loop16_ok [OF t w] by (simp add: crcspeed16little_def)
qed

lemma crcspeed16little_init_ok:
  assumes "\<And>b. fn 0 [b] = crc16_spec 0 [b]"
  shows "table16_ok (crcspeed16little_init False fn)"
proof -
  define t0 where "t0 = map (\<lambda>n. fn 0 [low_address_byte False n]) [0..<256]"
  have e: "t0 ! n = zeros16 (push_bit 8 (of_nat n))" if "n < 256" for n
    using that by (simp add: t0_def assms low_address_byte_def crc16_spec_def unsigned_of_nat take_bit_nat_eq_self)
  have "next_entry16 t0 c = zeros16 c" for c
  proof -
    have "of_nat (unat (drop_bit 8 c AND 0xff)) = drop_bit 8 c"
      unfolding and_ff_take by (rule bit_word_eqI) (auto simp: bit_simps dest: bit_imp_le_length)
    then show ?thesis
      using e [of "unat (drop_bit 8 c AND 0xff)", OF unat_ff] zeros16_split [of c] by (simp add: next_entry16_def)
  qed
  then have "next_entry16 t0 = zeros16" by blast
  then show ?thesis
    unfolding crcspeed16little_init_def t0_def [symmetric] Let_def table16_ok_def by (simp add: e funpow_swap1)
qed

section \<open>Big-endian machines\<close>

text \<open>
  The initialisation reads the wrong byte of the index and swaps eight bytes of a two-byte entry, of
  which none is left: the table is zero, and with it the code of every buffer.
\<close>

lemma swapped_entry: "ucast (rev8 (ucast (e :: u16))) = (0 :: u16)"
proof (rule bit_word_eqI)
  fix n assume n: "n < LENGTH(16)"
  then have "n div 8 \<le> 1" by auto
  then have "16 \<le> 8 * (7 - n div 8) + n mod 8" by linarith
  then show "bit (ucast (rev8 (ucast e)) :: u16) n = bit (0 :: u16) n"
    using n bit_imp_le_length [of e "8 * (7 - n div 8) + n mod 8"] by (auto simp: bit_ucast_iff bit_rev8')
qed

lemma crcspeed16big_init_zero: "crcspeed16big_init fn = replicate 8 (replicate 256 0)"
  unfolding crcspeed16big_init_def crcspeed16little_init_def Let_def
  by (simp add: comp_def swapped_entry map_replicate_const)

lemma big_byte16_zero: "big_byte16 (replicate 8 (replicate 256 0)) 0 b = 0"
  unfolding big_byte16_def by (simp add: unat_ff)

lemma big_word16_zero: "big_word16 (replicate 8 (replicate 256 0)) 0 n = 0"
proof -
  have "unat (drop_bit 56 n) < 256"
    using top_byte [of n] unat_ucast_byte [of "ucast (drop_bit 56 n)"] by (metis unat_index(2))
  then show ?thesis by (simp add: big_word16_def unat_ff)
qed

lemma crcspeed16big_zero: "crcspeed16big (crcspeed16big_init fn) 0 buf s = 0"
proof -
  define t :: "u16 list list" where "t = replicate 8 (replicate 256 0)"
  have a: "\<exists>s'. big_align_loop16 t addr 0 s = (0, s')" for addr s
    by (induction s arbitrary: addr) (simp_all add: t_def big_byte16_zero)
  have w: "\<exists>s'. big_word_loop16 t 0 s = (0, s')" for s
    by (induction s rule: length_induct) (subst big_word_loop16.simps, auto simp: t_def big_word16_zero)
  have f: "foldl (big_byte16 t) 0 s = 0" for s
    by (induction s) (simp_all add: t_def big_byte16_zero)
  from a [of buf s] w show ?thesis
    unfolding crcspeed16big_init_zero t_def [symmetric]
    by (auto simp: crcspeed16big_def rev8.zero f split: prod.splits) (metis f rev8.zero fst_conv unsigned_0)
qed

end
