(* ===== verification/Glob.thy ===== *)
theory Glob
  imports Prelude
begin

text \<open>
  Glob-style matching, \<open>stringmatchlen\<close> and \<open>prefixmatch\<close> of \<open>src/bench/redis-src/util.c\<close>. The pattern
  and the string are the bytes that remain; \<open>past\<close> is the byte right after the pattern, which the
  code reads when the pattern ends in a star: \<open>None\<close> when there is none, and a result of \<open>None\<close> is a
  read or a length that has left the pattern. A C string has a zero there.
\<close>

section \<open>One item of a pattern\<close>

definition tolower :: "int \<Rightarrow> int" where
  "tolower c = (if 65 \<le> c \<and> c \<le> 90 then c + 32 else c)"

definition same_char :: "bool \<Rightarrow> u8 \<Rightarrow> u8 \<Rightarrow> bool" where
  "same_char nocase a b \<longleftrightarrow> (if nocase then tolower (sint a) = tolower (sint b) else a = b)"

definition in_class_range :: "bool \<Rightarrow> u8 \<Rightarrow> u8 \<Rightarrow> u8 \<Rightarrow> bool" where
  "in_class_range nocase a b d =
     (let start = sint a; end' = sint b; c = sint d;
          (start, end') = (if start > end' then (end', start) else (start, end'));
          (start, end', c) = (if nocase then (tolower start, tolower end', tolower c) else (start, end', c))
      in c \<ge> start \<and> c \<le> end')"

text \<open>The loop over a class, after the bracket and the caret: whether \<open>d\<close> is in it, and the rest.\<close>

fun class_loop :: "bool \<Rightarrow> u8 \<Rightarrow> bool \<Rightarrow> u8 list \<Rightarrow> bool \<times> u8 list" where
  "class_loop nocase d m [] = (m, [])"
| "class_loop nocase d m [a] =
     (if a = 93 then (m, []) else class_loop nocase d (m \<or> same_char nocase a d) [])"
| "class_loop nocase d m [a, b] =
     (if a = 92 then class_loop nocase d (m \<or> b = d) []
      else if a = 93 then (m, [b])
      else class_loop nocase d (m \<or> same_char nocase a d) [b])"
| "class_loop nocase d m (a # b # c # p) =
     (if a = 92 then class_loop nocase d (m \<or> b = d) (c # p)
      else if a = 93 then (m, b # c # p)
      else if b = 45 then class_loop nocase d (m \<or> in_class_range nocase a c d) p
      else class_loop nocase d (m \<or> same_char nocase a d) (b # c # p))"

text \<open>Whether the first item of the pattern, not a star, matches the character, and the rest.\<close>

definition one_item :: "bool \<Rightarrow> u8 list \<Rightarrow> u8 \<Rightarrow> bool \<times> u8 list" where
  "one_item nocase p d =
     (if hd p = 63 then (True, tl p)
      else if hd p = 91 then
        let q = tl p; not = (q \<noteq> [] \<and> hd q = 94); q = (if not then tl q else q); (m, rest) = class_loop nocase d False q
        in (if not then \<not> m else m, rest)
      else if hd p = 92 \<and> length p \<ge> 2 then (same_char nocase (p ! 1) d, drop 2 p)
      else (same_char nocase (hd p) d, tl p))"

text \<open>Several stars in a row: the pattern from the last of them on.\<close>

fun star_run :: "u8 option \<Rightarrow> u8 list \<Rightarrow> u8 list option" where
  "star_run past [] = None"
| "star_run past [a] = (case past of None \<Rightarrow> None | Some b \<Rightarrow> if b = 42 then None else Some [a])"
| "star_run past (a # b # p) = (if b = 42 then star_run past (b # p) else Some (a # b # p))"

lemma length_class_loop: "class_loop nocase d m p = (m', q) \<Longrightarrow> length q \<le> length p"
  by (induction nocase d m p rule: class_loop.induct) (auto split: if_splits)

lemma length_one_item: "p \<noteq> [] \<Longrightarrow> one_item nocase p d = (m, q) \<Longrightarrow> length q < length p"
proof -
  assume p: "p \<noteq> []" "one_item nocase p d = (m, q)"
  obtain a p' where a: "p = a # p'" using p(1) by (cases p) auto
  have "length (snd (class_loop nocase d False r)) \<le> length r" for r
    using length_class_loop [of nocase d False r] by (cases "class_loop nocase d False r") auto
  from this [of p'] this [of "tl p'"] show ?thesis
    using p(2) a by (auto simp: one_item_def Let_def split: if_splits prod.splits)
qed

lemma length_star_run: "star_run past p = Some q \<Longrightarrow> length q \<le> length p \<and> q \<noteq> []"
  by (induction past p rule: star_run.induct) (auto split: if_splits option.splits)

lemma length_one_item_sym: "(m, q) = one_item nocase p d \<Longrightarrow> p \<noteq> [] \<Longrightarrow> length q < length p"
  using length_one_item [of p nocase d m q] by simp

lemma length_star_run_tl: "star_run past p = Some q \<Longrightarrow> length q - Suc 0 < length p"
  using length_star_run [of past p q] by (cases q) auto

section \<open>Matching\<close>

text \<open>
  The result is whether there is a match and \<open>skipLongerMatches\<close>. The three functions are the entry,
  with its limit on the nesting, the loop over the pattern and the loop of a star over the string.
\<close>

function stringmatchlen_impl :: "u8 option \<Rightarrow> bool \<Rightarrow> nat \<Rightarrow> u8 list \<Rightarrow> u8 list \<Rightarrow> bool \<Rightarrow> (bool \<times> bool) option"
  and match_loop :: "u8 option \<Rightarrow> bool \<Rightarrow> nat \<Rightarrow> u8 list \<Rightarrow> u8 list \<Rightarrow> bool \<Rightarrow> (bool \<times> bool) option"
  and star_loop :: "u8 option \<Rightarrow> bool \<Rightarrow> nat \<Rightarrow> u8 list \<Rightarrow> u8 list \<Rightarrow> bool \<Rightarrow> (bool \<times> bool) option" where
  "stringmatchlen_impl past nocase nesting p s skip =
     (if nesting > 1000 then Some (False, skip) else match_loop past nocase nesting p s skip)"
| "match_loop past nocase nesting p s skip =
     (if p = [] \<or> s = [] then Some (p = [] \<and> s = [], skip)
      else if hd p = 42 then
        case star_run past p of
          None \<Rightarrow> None
        | Some q \<Rightarrow> if length q = 1 then Some (True, skip) else star_loop past nocase nesting (tl q) s skip
      else
        let (ok, q) = one_item nocase p (hd s) in
        if \<not> ok then Some (False, skip)
        else if tl s = [] then Some (dropWhile (\<lambda>c. c = 42) q = [], skip)
        else match_loop past nocase nesting q (tl s) skip)"
| "star_loop past nocase nesting q s skip =
     (case s of
        [] \<Rightarrow> Some (False, True)
      | c # s' \<Rightarrow>
          (case stringmatchlen_impl past nocase (nesting + 1) q s skip of
             None \<Rightarrow> None
           | Some (m, skip) \<Rightarrow>
               if m then Some (True, skip) else if skip then Some (False, skip)
               else star_loop past nocase nesting q s' skip))"
  by pat_completeness auto
termination
  by (relation "measures [\<lambda>x. case x of Inl (_, _, _, p, _) \<Rightarrow> length p | Inr (Inl (_, _, _, p, _)) \<Rightarrow> length p
      | Inr (Inr (_, _, _, p, _)) \<Rightarrow> length p,
    \<lambda>x. case x of Inl (_, _, _, _, s, _) \<Rightarrow> 3 * length s + 1 | Inr (Inl (_, _, _, _, s, _)) \<Rightarrow> 3 * length s
      | Inr (Inr (_, _, _, _, s, _)) \<Rightarrow> 3 * length s + 2]")
    (auto dest: length_one_item_sym length_star_run_tl)

declare stringmatchlen_impl.simps [simp del] match_loop.simps [simp del] star_loop.simps [simp del]

definition stringmatchlen :: "u8 option \<Rightarrow> u8 list \<Rightarrow> u8 list \<Rightarrow> bool \<Rightarrow> bool option" where
  "stringmatchlen past p s nocase = map_option fst (stringmatchlen_impl past nocase 0 p s False)"

text \<open>With C strings, whose terminating zero is the byte after the pattern.\<close>

definition stringmatch :: "u8 list \<Rightarrow> u8 list \<Rightarrow> bool \<Rightarrow> bool option" where
  "stringmatch p s nocase = stringmatchlen (Some 0) p s nocase"

definition prefixmatch :: "u8 option \<Rightarrow> u8 list \<Rightarrow> u8 list \<Rightarrow> bool \<Rightarrow> bool option" where
  "prefixmatch past p s nocase =
     do {
       (m, skip) \<leftarrow> stringmatchlen_impl past nocase 0 p s False;
       (if \<not> m then Some False
        else if p = [] \<or> last p \<noteq> 42 then Some False
        else Some (even (length (takeWhile (\<lambda>c. c = 92) (rev (butlast p))))))
     }"

section \<open>What a pattern means\<close>

text \<open>
  The reference: a pattern is read once into a list of items, and a star matches any number of
  characters. It is independent of the string, of the nesting and of \<open>skipLongerMatches\<close>.
\<close>

datatype member = Escaped u8 | Range u8 u8 | Plain u8

datatype item = Star | Any | Class bool "member list" | Single u8

fun member_has :: "bool \<Rightarrow> u8 \<Rightarrow> member \<Rightarrow> bool" where
  "member_has nocase d (Escaped a) = (a = d)"
| "member_has nocase d (Range a b) = in_class_range nocase a b d"
| "member_has nocase d (Plain a) = same_char nocase a d"

fun item_has :: "bool \<Rightarrow> u8 \<Rightarrow> item \<Rightarrow> bool" where
  "item_has nocase d Star = False"
| "item_has nocase d Any = True"
| "item_has nocase d (Class neg ms) = (list_ex (member_has nocase d) ms \<noteq> neg)"
| "item_has nocase d (Single a) = same_char nocase a d"

fun gmatch :: "bool \<Rightarrow> item list \<Rightarrow> u8 list \<Rightarrow> bool" where
  "gmatch nocase [] s = (s = [])"
| "gmatch nocase (i # is) s =
     (if i = Star then \<exists>k \<le> length s. gmatch nocase is (drop k s)
      else s \<noteq> [] \<and> item_has nocase (hd s) i \<and> gmatch nocase is (tl s))"

fun parse_class :: "u8 list \<Rightarrow> member list \<times> u8 list" where
  "parse_class [] = ([], [])"
| "parse_class [a] = (if a = 93 then ([], []) else ([Plain a], []))"
| "parse_class [a, b] =
     (if a = 92 then ([Escaped b], [])
      else if a = 93 then ([], [b])
      else case parse_class [b] of (ms, q) \<Rightarrow> (Plain a # ms, q))"
| "parse_class (a # b # c # p) =
     (if a = 92 then case parse_class (c # p) of (ms, q) \<Rightarrow> (Escaped b # ms, q)
      else if a = 93 then ([], b # c # p)
      else if b = 45 then case parse_class p of (ms, q) \<Rightarrow> (Range a c # ms, q)
      else case parse_class (b # c # p) of (ms, q) \<Rightarrow> (Plain a # ms, q))"

definition parse_item :: "u8 list \<Rightarrow> item \<times> u8 list" where
  "parse_item p =
     (if hd p = 63 then (Any, tl p)
      else if hd p = 91 then
        if tl p \<noteq> [] \<and> p ! 1 = 94 then case parse_class (drop 2 p) of (ms, q) \<Rightarrow> (Class True ms, q)
        else case parse_class (tl p) of (ms, q) \<Rightarrow> (Class False ms, q)
      else if hd p = 92 \<and> length p \<ge> 2 then (Single (p ! 1), drop 2 p)
      else (Single (hd p), tl p))"

lemma class_loop_parse:
  "class_loop nocase d m p = (m \<or> list_ex (member_has nocase d) (fst (parse_class p)), snd (parse_class p))"
  by (induction nocase d m p rule: class_loop.induct) (auto split: prod.splits)

lemma one_item_parse:
  "p \<noteq> [] \<Longrightarrow> one_item nocase p d = (item_has nocase d (fst (parse_item p)), snd (parse_item p))"
  by (cases p) (auto simp: one_item_def parse_item_def class_loop_parse Let_def hd_conv_nth drop_Suc split: prod.splits)

lemma length_parse_item: "p \<noteq> [] \<Longrightarrow> length (snd (parse_item p)) < length p"
  using length_one_item [of p False 0] one_item_parse [of p False 0] by simp

lemma parse_item_not_Star [simp]: "fst (parse_item p) \<noteq> Star"
  by (auto simp: parse_item_def split: prod.splits)

function pattern_items :: "u8 list \<Rightarrow> item list" where
  "pattern_items p =
     (if p = [] then []
      else if hd p = 42 then Star # pattern_items (tl p)
      else fst (parse_item p) # pattern_items (snd (parse_item p)))"
  by pat_completeness auto
termination
  by (relation "measure length") (auto simp: length_parse_item)

declare pattern_items.simps [simp del]

lemma pattern_items_Nil [simp]: "pattern_items [] = []"
  by (simp add: pattern_items.simps)

lemma pattern_items_star [simp]: "pattern_items (42 # p) = Star # pattern_items p"
  by (simp add: pattern_items.simps [of "42 # p"])

lemma pattern_items_one: "p \<noteq> [] \<Longrightarrow> hd p \<noteq> 42 \<Longrightarrow> pattern_items p = fst (parse_item p) # pattern_items (snd (parse_item p))"
  by (simp add: pattern_items.simps [of p])

abbreviation stars :: "u8 list \<Rightarrow> nat" where
  "stars p \<equiv> count_list (pattern_items p) Star"

lemma gmatch_empty: "gmatch nocase (pattern_items p) [] \<longleftrightarrow> dropWhile (\<lambda>c. c = 42) p = []"
proof (induction p rule: pattern_items.induct)
  case (1 p)
  then show ?case
    by (cases p; cases "hd p = 42") (auto simp: pattern_items_one)
qed

lemma gmatch_star: "gmatch nocase (Star # is) s \<longleftrightarrow> (\<exists>k. gmatch nocase is (drop k s))"
  by (simp, metis drop_all drop_eq_Nil nat_le_linear)

lemma gmatch_star_star: "gmatch nocase (Star # Star # is) s = gmatch nocase (Star # is) s"
  by (simp only: gmatch_star drop_drop) (metis add_0)

lemma star_run_ok:
  "b \<noteq> 42 \<Longrightarrow> p \<noteq> [] \<Longrightarrow> hd p = 42 \<Longrightarrow>
   \<exists>q. star_run (Some b) p = Some (42 # q) \<and> (q = [] \<or> hd q \<noteq> 42) \<and>
     (\<forall>s. gmatch nocase (pattern_items p) s = gmatch nocase (pattern_items (42 # q)) s) \<and> stars q < stars p"
proof (induction "Some b" p rule: star_run.induct)
  case (3 a c p)
  show ?case
  proof (cases "c = 42")
    case True
    then obtain q where q: "star_run (Some b) (c # p) = Some (42 # q)" "q = [] \<or> hd q \<noteq> 42"
      "\<forall>s. gmatch nocase (pattern_items (c # p)) s = gmatch nocase (pattern_items (42 # q)) s" "stars q < stars (c # p)"
      using 3 by auto
    have "gmatch nocase (pattern_items (42 # 42 # p)) s = gmatch nocase (pattern_items (42 # q)) s" for s
      using gmatch_star_star [of nocase "pattern_items p" s] q(3) True by (simp del: gmatch.simps)
    then show ?thesis
      using q True 3(4) by (intro exI [of _ q]) (auto simp del: gmatch.simps)
  qed (use 3 in auto)
qed auto

section \<open>The matcher decides the reference\<close>

abbreviation dead :: "bool \<Rightarrow> u8 list \<Rightarrow> u8 list \<Rightarrow> bool" where
  "dead nocase p s \<equiv> \<forall>k. \<not> gmatch nocase (pattern_items p) (drop k s)"

definition decided :: "bool \<Rightarrow> u8 list \<Rightarrow> u8 list \<Rightarrow> (bool \<times> bool) option \<Rightarrow> bool" where
  "decided nocase p s r \<longleftrightarrow> (\<exists>m skip. r = Some (m, skip) \<and>
     (m \<longleftrightarrow> (if s = [] then p = [] else gmatch nocase (pattern_items p) s)) \<and> (\<not> m \<and> skip \<longrightarrow> dead nocase p s))"

definition star_decided :: "bool \<Rightarrow> u8 list \<Rightarrow> u8 list \<Rightarrow> (bool \<times> bool) option \<Rightarrow> bool" where
  "star_decided nocase q s r \<longleftrightarrow> (\<exists>m skip. r = Some (m, skip) \<and> (m \<longleftrightarrow> \<not> dead nocase q s))"

lemma decided_Some:
  "decided nocase p s (Some (m, skip)) \<longleftrightarrow>
     (m \<longleftrightarrow> (if s = [] then p = [] else gmatch nocase (pattern_items p) s)) \<and> (\<not> m \<and> skip \<longrightarrow> dead nocase p s)"
  unfolding decided_def by (simp only: option.inject prod.inject) blast

lemma decided_item:
  assumes p: "p \<noteq> []" "hd p \<noteq> 42" and s: "s \<noteq> []" and i: "one_item nocase p (hd s) = (ok, q)"
  shows "\<not> ok \<Longrightarrow> decided nocase p s (Some (False, False))"
    and "ok \<Longrightarrow> tl s = [] \<Longrightarrow> decided nocase p s (Some (dropWhile (\<lambda>c. c = 42) q = [], False))"
    and "ok \<Longrightarrow> tl s \<noteq> [] \<Longrightarrow> decided nocase q (tl s) r \<Longrightarrow> decided nocase p s r"
proof -
  have i': "ok = item_has nocase (hd s) (fst (parse_item p))" "q = snd (parse_item p)"
    using one_item_parse [of p nocase "hd s"] p i by auto
  have g: "gmatch nocase (pattern_items p) t \<longleftrightarrow> t \<noteq> [] \<and> item_has nocase (hd t) (fst (parse_item p)) \<and> gmatch nocase (pattern_items q) (tl t)" for t
    using pattern_items_one [OF p] i'(2) by simp
  show "\<not> ok \<Longrightarrow> decided nocase p s (Some (False, False))"
    using s g [of s] i' by (auto simp: decided_def)
  show "ok \<Longrightarrow> tl s = [] \<Longrightarrow> decided nocase p s (Some (dropWhile (\<lambda>c. c = 42) q = [], False))"
    using s g [of s] i' gmatch_empty [of nocase q] by (auto simp: decided_def)
  assume r: "ok" "tl s \<noteq> []" "decided nocase q (tl s) r"
  have "dead nocase p s" if "dead nocase q (tl s)"
    using that g s by (metis drop_Suc tl_drop)
  then show "decided nocase p s r"
    using r s g [of s] i' unfolding decided_def by auto
qed

lemma decided_star:
  assumes p: "p \<noteq> []" "hd p = 42" and s: "s \<noteq> []"
    and q: "\<And>t. gmatch nocase (pattern_items p) t = gmatch nocase (pattern_items (42 # q)) t"
  shows "q = [] \<Longrightarrow> decided nocase p s (Some (True, False))"
    and "star_decided nocase q s r \<Longrightarrow> decided nocase p s r"
proof -
  have g: "gmatch nocase (pattern_items p) t \<longleftrightarrow> (\<exists>k. gmatch nocase (pattern_items q) (drop k t))" for t
    by (simp only: q pattern_items_star gmatch_star)
  show "q = [] \<Longrightarrow> decided nocase p s (Some (True, False))"
    using g [of s] s by (auto simp: decided_def intro: exI [of _ "length s"])
  assume "star_decided nocase q s r"
  moreover have "dead nocase p s" if "dead nocase q s"
    using that unfolding g by simp
  ultimately show "decided nocase p s r"
    using g [of s] s unfolding star_decided_def decided_def by auto
qed

lemma star_step:
  assumes q: "q \<noteq> []" "hd q \<noteq> 42" and r: "decided nocase q (c # s) (Some (m, skip))"
  shows "m \<Longrightarrow> star_decided nocase q (c # s) (Some (True, skip))"
    and "\<not> m \<Longrightarrow> skip \<Longrightarrow> star_decided nocase q (c # s) (Some (False, skip))"
    and "\<not> m \<Longrightarrow> star_decided nocase q s r' \<Longrightarrow> star_decided nocase q (c # s) r'"
proof -
  show "m \<Longrightarrow> star_decided nocase q (c # s) (Some (True, skip))"
    using r by (auto simp: decided_def star_decided_def intro: exI [of _ 0])
  show "\<not> m \<Longrightarrow> skip \<Longrightarrow> star_decided nocase q (c # s) (Some (False, skip))"
    using r by (auto simp: decided_def star_decided_def)
  assume m: "\<not> m" "star_decided nocase q s r'"
  have "dead nocase q (c # s) = dead nocase q s"
  proof
    show "dead nocase q s" if "dead nocase q (c # s)"
      using that by (metis drop_Suc_Cons)
    show "dead nocase q (c # s)" if d: "dead nocase q s"
    proof
      fix k show "\<not> gmatch nocase (pattern_items q) (drop k (c # s))"
        using d r m by (cases k) (auto simp: decided_def)
    qed
  qed
  then show "star_decided nocase q (c # s) r'"
    using m by (simp add: star_decided_def)
qed

lemma match_loops_ok:
  assumes b: "b \<noteq> 42"
  shows "past = Some b \<Longrightarrow> \<not> skip \<Longrightarrow> nesting + stars p \<le> 1000 \<Longrightarrow>
      decided nocase p s (stringmatchlen_impl past nocase nesting p s skip)"
    and "past = Some b \<Longrightarrow> \<not> skip \<Longrightarrow> nesting + stars p \<le> 1000 \<Longrightarrow>
      decided nocase p s (match_loop past nocase nesting p s skip)"
    and "past = Some b \<Longrightarrow> \<not> skip \<Longrightarrow> nesting + stars p < 1000 \<Longrightarrow> p \<noteq> [] \<Longrightarrow> hd p \<noteq> 42 \<Longrightarrow>
      star_decided nocase p s (star_loop past nocase nesting p s skip)"
proof (induction past nocase nesting p s skip and past nocase nesting p s skip and past nocase nesting p s skip
    rule: stringmatchlen_impl_match_loop_star_loop.induct)
  case (1 past nocase nesting p s skip)
  then show ?case by (simp add: stringmatchlen_impl.simps)
next
  case (2 past nocase nesting p s skip)
  show ?case
  proof (cases "p = [] \<or> s = []")
    case True
    then have "match_loop past nocase nesting p s skip = Some (p = [] \<and> s = [], False)"
      using 2(4) True by (subst match_loop.simps) (simp only: if_True simp_thms)
    moreover have "decided nocase p s (Some (p = [] \<and> s = [], False))"
      using True unfolding decided_Some by (cases p; cases s) simp_all
    ultimately show ?thesis by (simp only:)
  next
    case ne: False
    show ?thesis
    proof (cases "hd p = 42")
      case True
      obtain q where q: "star_run (Some b) p = Some (42 # q)" "q = [] \<or> hd q \<noteq> 42"
        "\<And>s. gmatch nocase (pattern_items p) s = gmatch nocase (pattern_items (42 # q)) s" "stars q < stars p"
        using star_run_ok [OF b, of p nocase] ne True by blast
      note d = decided_star [of p s nocase q, OF _ True _ q(3)]
      have m: "match_loop past nocase nesting p s skip = (if q = [] then Some (True, False) else star_loop past nocase nesting q s False)"
        using ne True q(1) 2(3,4) by (simp add: match_loop.simps [of _ _ _ p])
      show ?thesis
      proof (cases "q = []")
        case False
        have "star_decided nocase (tl (42 # q)) s (star_loop past nocase nesting (tl (42 # q)) s skip)"
        proof (rule 2(1))
          show "nesting + stars (tl (42 # q)) < 1000" using q(4) 2(5) by simp
        qed (use 2(3,4) ne True q(1,2) False in auto)
        with m d(2) ne False 2(4) show ?thesis by simp
      qed (use m d(1) ne in simp)
    next
      case False
      obtain ok q where i: "one_item nocase p (hd s) = (ok, q)" by fastforce
      note d = decided_item [OF _ False _ i]
      have "stars q = stars p"
        using pattern_items_one [of p] ne False one_item_parse [of p nocase "hd s"] i by auto
      moreover have "decided nocase q (tl s) (match_loop past nocase nesting q (tl s) skip)" if "ok" "tl s \<noteq> []" "stars q = stars p"
        by (rule 2(2) [OF _ _ i [symmetric] refl]) (use that ne False 2(3-5) in simp_all)
      moreover have "match_loop past nocase nesting p s skip =
          (if \<not> ok then Some (False, False) else if tl s = [] then Some (dropWhile (\<lambda>c. c = 42) q = [], False)
           else match_loop past nocase nesting q (tl s) skip)"
        using ne False i 2(4) by (subst match_loop.simps) simp
      ultimately show ?thesis
        using d ne by simp
    qed
  qed
next
  case (3 past nocase nesting q s skip)
  show ?case
  proof (cases s)
    case Nil
    have "\<not> gmatch nocase (pattern_items q) []" using 3(6,7) by (cases q) (auto simp: gmatch_empty)
    then show ?thesis using Nil by (auto simp: star_loop.simps [of _ _ _ q] star_decided_def)
  next
    case (Cons c s')
    have "decided nocase q s (stringmatchlen_impl past nocase (nesting + 1) q s skip)"
      using 3(1) [OF Cons] 3(3-7) by auto
    moreover from this obtain m skip' where r: "stringmatchlen_impl past nocase (nesting + 1) q s skip = Some (m, skip')"
      by (auto simp: decided_def)
    ultimately have d: "decided nocase q (c # s') (Some (m, skip'))" using Cons by simp
    note e = star_step [OF 3(6,7) d]
    show ?thesis
      using 3(2) [OF Cons r, of m skip'] 3(3-7) Cons r e by (cases m; cases skip') (auto simp: star_loop.simps [of _ _ _ q])
  qed
qed

lemma stringmatchlen_ok:
  "b \<noteq> 42 \<Longrightarrow> stars p \<le> 1000 \<Longrightarrow>
   stringmatchlen (Some b) p s nocase = Some (if s = [] then p = [] else gmatch nocase (pattern_items p) s)"
  using match_loops_ok(1) [of b "Some b" False 0 p nocase s] by (auto simp: decided_def stringmatchlen_def)

lemma gmatch_append_star: "gmatch nocase (is @ [Star]) s \<Longrightarrow> gmatch nocase (is @ [Star]) (s @ t)"
proof (induction "is" arbitrary: s)
  case Nil
  then show ?case by auto
next
  case (Cons i "is")
  show ?case
  proof (cases "i = Star")
    case True
    then obtain k where k: "k \<le> length s" "gmatch nocase (is @ [Star]) (drop k s)"
      using Cons.prems by auto
    then have "gmatch nocase (is @ [Star]) (drop k (s @ t))"
      using Cons.IH [of "drop k s"] by simp
    then show ?thesis
      using True by (auto simp only: append_Cons gmatch_star)
  qed (use Cons in auto)
qed

lemma prefixmatch_match:
  "prefixmatch past p s nocase = Some True \<Longrightarrow>
   stringmatchlen past p s nocase = Some True \<and> p \<noteq> [] \<and> last p = 42"
  by (auto simp: prefixmatch_def stringmatchlen_def Option.bind_eq_Some_conv split: if_splits)

text \<open>When the closing star of the pattern is an item, a prefix that is accepted is accepted with everything after it.\<close>

lemma prefixmatch_ok:
  assumes "b \<noteq> 42" "stars p \<le> 1000" "pattern_items p = is @ [Star]" "prefixmatch (Some b) p s nocase = Some True"
  shows "stringmatchlen (Some b) p (s @ t) nocase = Some True"
  using prefixmatch_match [OF assms(4)] stringmatchlen_ok [OF assms(1,2), of _ nocase] gmatch_append_star [of nocase "is" s t] assms(3)
  by (auto split: if_splits)

text \<open>A star that closes the pattern inside a class is not an item: here the longer string does not match.\<close>

lemma prefixmatch_class:
  "prefixmatch (Some 0) [91, 42] [42] nocase = Some True \<and> stringmatchlen (Some 0) [91, 42] [42, 120] nocase = Some False"
proof -
  have i: "pattern_items [91, 42] = [Class False [Plain 42]]"
    by (simp add: pattern_items.simps [of "[91, 42]"] parse_item_def)
  have s: "same_char nocase 42 42" "stringmatchlen (Some 0) [91, 42] [42] nocase = Some True"
    using stringmatchlen_ok [of 0 "[91, 42]" "[42]" nocase] i by (auto simp: same_char_def)
  have "stringmatchlen (Some 0) [91, 42] [42, 120] nocase = Some False"
    using stringmatchlen_ok [of 0 "[91, 42]" "[42, 120]" nocase] i by simp
  then show ?thesis
    using s(2) by (auto simp: prefixmatch_def stringmatchlen_def)
qed

end
