(* ===== verification/Slots.thy ===== *)
theory Slots
  imports Crc16 Glob
begin

text \<open>
  Hash slots of the cluster: \<open>keyHashSlot\<close> of \<open>src/bench/redis-src/cluster.h\<close>, its copy in \<open>redis-cli.c\<close>,
  and \<open>patternHashSlot\<close> of \<open>cluster.c\<close>, which tells from a glob pattern the only slot its keys can be in.
\<close>

section \<open>Keys\<close>

text \<open>The scan for a character from position \<open>i\<close> on, which stops at the length when there is none.\<close>

definition scan :: "u8 \<Rightarrow> u8 list \<Rightarrow> nat \<Rightarrow> nat" where
  "scan c key i = i + length (takeWhile (\<lambda>x. x \<noteq> c) (drop i key))"

definition keyHashSlot :: "u8 list \<Rightarrow> u16" where
  "keyHashSlot key =
     (let s = scan 123 key 0 in
      if s = length key then crc16 key AND 0x3FFF
      else
        let e = scan 125 key (s + 1) in
        if e = length key \<or> e = s + 1 then crc16 key AND 0x3FFF
        else crc16 (take (e - s - 1) (drop (s + 1) key)) AND 0x3FFF)"

definition clusterManagerKeyHashSlot :: "u8 list \<Rightarrow> u16" where
  "clusterManagerKeyHashSlot key =
     (let s = scan 123 key 0 in
      if s = length key then crc16 key AND 0x3FFF
      else
        let e = scan 125 key (s + 1) in
        if e = length key \<or> e = s + 1 then crc16 key AND 0x3FFF
        else crc16 (take (e - s - 1) (drop (s + 1) key)) AND 0x3FFF)"

section \<open>Patterns\<close>

function pattern_loop :: "u8 list \<Rightarrow> nat \<Rightarrow> int \<Rightarrow> int" where
  "pattern_loop pattern i s =
     (if i \<ge> length pattern then uint (crc16 pattern AND 0x3FFF)
      else
        let c = pattern ! i in
        if c = 42 \<or> c = 63 \<or> c = 91 then - 1
        else if c = 92 then - 1
        else if s = - 1 \<and> c = 123 then pattern_loop pattern (i + 1) (int i)
        else if s \<ge> 0 \<and> c = 125 \<and> int i = s + 1 then pattern_loop pattern (i + 1) (- 2)
        else if s \<ge> 0 \<and> c = 125 then uint (crc16 (take (i - nat s - 1) (drop (nat s + 1) pattern)) AND 0x3FFF)
        else pattern_loop pattern (i + 1) s)"
  by pat_completeness auto
termination
  by (relation "measure (\<lambda>(p, i, _). length p - i)") auto

declare pattern_loop.simps [simp del]

definition patternHashSlot :: "u8 list \<Rightarrow> int" where
  "patternHashSlot pattern = pattern_loop pattern 0 (- 1)"

section \<open>What a slot depends on\<close>

lemma takeWhile_notin: "c \<notin> set k \<Longrightarrow> takeWhile (\<lambda>x. x \<noteq> c) k = k"
  by (auto simp: takeWhile_eq_all_conv)

lemma slot_plain: "123 \<notin> set k \<Longrightarrow> keyHashSlot k = crc16 k AND 0x3FFF"
  by (simp add: keyHashSlot_def scan_def takeWhile_notin)

lemma slot_brace:
  assumes "123 \<notin> set a"
  shows "keyHashSlot (a @ 123 # t) =
    (let e = length (takeWhile (\<lambda>x. x \<noteq> 125) t) in
     if e = length t \<or> e = 0 then crc16 (a @ 123 # t) AND 0x3FFF else crc16 (take e t) AND 0x3FFF)"
proof -
  have "takeWhile (\<lambda>x. x \<noteq> 123) (a @ 123 # t) = a"
    using assms by (induction a) auto
  then show ?thesis by (simp add: keyHashSlot_def scan_def Let_def)
qed

lemma slot_tag: "123 \<notin> set a \<Longrightarrow> 125 \<notin> set tag \<Longrightarrow> tag \<noteq> [] \<Longrightarrow> keyHashSlot (a @ 123 # tag @ 125 # t) = crc16 tag AND 0x3FFF"
proof -
  assume a: "123 \<notin> set a" "125 \<notin> set tag" "tag \<noteq> []"
  have "takeWhile (\<lambda>x. x \<noteq> 125) (tag @ 125 # t) = tag"
    using a(2) by (induction tag) auto
  then show ?thesis using a slot_brace [of a "tag @ 125 # t"] by simp
qed

lemma slot_open: "123 \<notin> set a \<Longrightarrow> 125 \<notin> set tag \<Longrightarrow> keyHashSlot (a @ 123 # tag) = crc16 (a @ 123 # tag) AND 0x3FFF"
  using slot_brace [of a tag] by (simp add: takeWhile_notin)

lemma slot_empty: "123 \<notin> set a \<Longrightarrow> keyHashSlot (a @ 123 # 125 # t) = crc16 (a @ 123 # 125 # t) AND 0x3FFF"
  using slot_brace [of a "125 # t"] by simp

lemma slot_less: "uint (x AND 0x3FFF :: u16) < 16384"
proof -
  have "uint (x AND 0x3FFF) = uint (take_bit 14 x)"
    using take_bit_eq_mask [of 14 x] by (simp add: mask_eq_exp_minus_1)
  also have "\<dots> < 2 ^ 14"
    using take_bit_int_less_exp [of 14 "uint x"] by (simp add: unsigned_take_bit_eq)
  finally show ?thesis by simp
qed

lemma keyHashSlot_less: "uint (keyHashSlot key) < 16384"
  unfolding keyHashSlot_def Let_def using slot_less by auto

section \<open>The slot of a pattern\<close>

abbreviation literal :: "u8 list \<Rightarrow> bool" where
  "literal p \<equiv> set p \<inter> {42, 63, 91, 92} = {}"

definition tag_scanned :: "u8 list \<Rightarrow> int \<Rightarrow> bool" where
  "tag_scanned p s \<longleftrightarrow> (s = - 1 \<and> 123 \<notin> set p)
     \<or> (\<exists>a tag. p = a @ 123 # tag \<and> 123 \<notin> set a \<and> 125 \<notin> set tag \<and> s = int (length a))
     \<or> (s = - 2 \<and> (\<exists>a t. p = a @ 123 # 125 # t \<and> 123 \<notin> set a))"

lemma tag_scanned_slot: "tag_scanned p s \<Longrightarrow> keyHashSlot p = crc16 p AND 0x3FFF"
  by (auto simp: tag_scanned_def slot_plain slot_open slot_empty)

text \<open>Either the whole pattern is literal, or a tag has closed before anything that is not.\<close>

definition slot_known :: "u8 list \<Rightarrow> int \<Rightarrow> bool" where
  "slot_known p r \<longleftrightarrow> (\<exists>a b. p = a @ b \<and> literal a \<and>
     (b = [] \<and> uint (keyHashSlot a) = r \<or> (\<forall>t. uint (keyHashSlot (a @ t)) = r)))"

lemma slot_knownI: "p = a @ b \<Longrightarrow> literal a \<Longrightarrow> (\<And>t. uint (keyHashSlot (a @ t)) = r) \<Longrightarrow> slot_known p r"
  unfolding slot_known_def by blast

lemma slot_known_whole: "literal p \<Longrightarrow> uint (keyHashSlot p) = r \<Longrightarrow> slot_known p r"
  unfolding slot_known_def by (rule exI [of _ p], rule exI [of _ "[]"]) simp

lemma tag_scanned_step:
  assumes "tag_scanned p s" "\<not> (s = - 1 \<and> c = 123)" "\<not> (s \<ge> 0 \<and> c = 125)"
  shows "tag_scanned (p @ [c]) s"
proof -
  consider (1) "s = - 1" "123 \<notin> set p"
    | (2) a tag where "p = a @ 123 # tag" "123 \<notin> set a" "125 \<notin> set tag" "s = int (length a)"
    | (3) a t where "s = - 2" "p = a @ 123 # 125 # t" "123 \<notin> set a"
    using assms(1) unfolding tag_scanned_def by blast
  then show ?thesis
  proof cases
    case 1
    then show ?thesis using assms(2) by (simp add: tag_scanned_def)
  next
    case 2
    then have "p @ [c] = a @ 123 # (tag @ [c])" "125 \<notin> set (tag @ [c])" using assms(3) by auto
    then show ?thesis using 2 unfolding tag_scanned_def by blast
  next
    case 3
    then have "p @ [c] = a @ 123 # 125 # (t @ [c])" by simp
    then show ?thesis using 3 unfolding tag_scanned_def by blast
  qed
qed

lemma tag_scanned_open: "tag_scanned p (- 1) \<Longrightarrow> tag_scanned (p @ [123]) (int (length p))"
  unfolding tag_scanned_def by (rule disjI2, rule disjI1, rule exI [of _ p], rule exI [of _ "[]"]) auto

lemma tag_scanned_empty:
  assumes "tag_scanned p s" "s \<ge> 0" "int (length p) = s + 1"
  shows "tag_scanned (p @ [125]) (- 2)"
proof -
  obtain a where "p = a @ [123]" "123 \<notin> set a" using assms by (auto simp: tag_scanned_def)
  then have "p @ [125] = a @ 123 # 125 # []" "123 \<notin> set a" by auto
  then show ?thesis unfolding tag_scanned_def by blast
qed

lemma tag_known:
  assumes "i < length p" "literal (take i p)" "tag_scanned (take i p) s" "s \<ge> 0" "p ! i = 125" "int i \<noteq> s + 1"
  shows "slot_known p (uint (crc16 (take (i - nat s - 1) (drop (nat s + 1) p)) AND 0x3FFF))"
proof -
  obtain a tag where a: "take i p = a @ 123 # tag" "123 \<notin> set a" "125 \<notin> set tag" "s = int (length a)"
    using assms(3,4) by (auto simp: tag_scanned_def)
  have i: "i = length a + 1 + length tag"
    using arg_cong [OF a(1), of length] assms(1) by simp
  have p: "p = (a @ 123 # tag @ [125]) @ drop (Suc i) p"
    using id_take_nth_drop [OF assms(1)] a(1) assms(5) by simp
  have "drop (nat s + 1) p = tag @ 125 # drop (Suc i) p" using a(4) by (subst p) simp
  then have "take (i - nat s - 1) (drop (nat s + 1) p) = tag" using a(4) i by simp
  moreover have "tag \<noteq> []" using assms(6) a(4) i by auto
  moreover have "literal (a @ 123 # tag @ [125])" using assms(2) a(1) by auto
  ultimately show ?thesis
    using a(2,3) slot_tag [of a tag] by (intro slot_knownI [OF p]) simp_all
qed

lemma pattern_loop_ok:
  "i \<le> length p \<Longrightarrow> literal (take i p) \<Longrightarrow> tag_scanned (take i p) s \<Longrightarrow> pattern_loop p i s \<ge> 0 \<Longrightarrow> slot_known p (pattern_loop p i s)"
proof (induction p i s rule: pattern_loop.induct)
  case (1 p i s)
  show ?case
  proof (cases "i \<ge> length p")
    case True
    then show ?thesis
      using 1(5,6,7) tag_scanned_slot [of p s] by (intro slot_known_whole) (auto simp: pattern_loop.simps [of p i])
  next
    case False
    define c where "c = p ! i"
    have t: "take (Suc i) p = take i p @ [c]" using False by (simp add: take_Suc_conv_app_nth c_def)
    have c: "c \<notin> {42, 63, 91, 92}" using 1(7) False by (auto simp: pattern_loop.simps [of p i] c_def split: if_splits)
    then have l: "literal (take (Suc i) p)" using 1(5) unfolding t by auto
    consider (brace) "s = - 1" "c = 123" | (empty) "s \<ge> 0" "c = 125" "int i = s + 1" | (closing) "s \<ge> 0" "c = 125" "int i \<noteq> s + 1"
      | (other) "\<not> (s = - 1 \<and> c = 123)" "\<not> (s \<ge> 0 \<and> c = 125)" by blast
    then show ?thesis
    proof cases
      case brace
      then show ?thesis
        using 1(1) [OF False c_def] 1(6,7) False c l t tag_scanned_open [of "take i p"]
        by (simp add: pattern_loop.simps [of p i "- 1"] flip: c_def)
    next
      case empty
      then show ?thesis
        using 1(2) [OF False c_def] 1(6,7) False c l t tag_scanned_empty [of "take i p" s]
        by (simp add: pattern_loop.simps [of p i s] flip: c_def)
    next
      case closing
      then show ?thesis
        using tag_known [of i p s] 1(5,6) False c by (simp add: pattern_loop.simps [of p i s] flip: c_def)
    next
      case other
      then show ?thesis
        using 1(3) [OF False c_def] 1(6,7) False c l t tag_scanned_step [of "take i p" s c]
        by (auto simp: pattern_loop.simps [of p i s] simp flip: c_def)
    qed
  qed
qed

lemma pattern_items_literal: "c \<notin> {42, 63, 91, 92} \<Longrightarrow> pattern_items (c # p) = Single c # pattern_items p"
  using pattern_items_one [of "c # p"] by (simp add: parse_item_def)

lemma gmatch_literal: "literal a \<Longrightarrow> gmatch False (pattern_items (a @ b)) s \<Longrightarrow> \<exists>t. s = a @ t \<and> gmatch False (pattern_items b) t"
proof (induction a arbitrary: s)
  case (Cons c a)
  have "pattern_items ((c # a) @ b) = Single c # pattern_items (a @ b)" using Cons.prems by (simp add: pattern_items_literal)
  then have "s \<noteq> []" "hd s = c" "gmatch False (pattern_items (a @ b)) (tl s)"
    using Cons.prems(2) by (auto simp: same_char_def)
  then show ?case using Cons.IH [of "tl s"] Cons.prems(1) by (cases s) auto
qed simp

lemma patternHashSlot_ok:
  assumes p: "patternHashSlot p \<ge> 0" "stars p \<le> 1000" and b: "b \<noteq> 42" and m: "stringmatchlen (Some b) p key False = Some True"
  shows "uint (keyHashSlot key) = patternHashSlot p"
proof -
  obtain a q where a: "p = a @ q" "literal a"
    "q = [] \<and> uint (keyHashSlot a) = patternHashSlot p \<or> (\<forall>t. uint (keyHashSlot (a @ t)) = patternHashSlot p)"
    using pattern_loop_ok [of 0 p "- 1"] p(1) by (auto simp: slot_known_def patternHashSlot_def tag_scanned_def)
  show ?thesis
  proof (cases "key = []")
    case True
    then have "p = []" using m stringmatchlen_ok [OF b p(2), of key False] by simp
    then show ?thesis using a True by auto
  next
    case False
    then have "gmatch False (pattern_items (a @ q)) key" using m stringmatchlen_ok [OF b p(2), of key False] a(1) by simp
    then obtain t where "key = a @ t" "gmatch False (pattern_items q) t" using gmatch_literal [OF a(2)] by blast
    then show ?thesis using a(3) by auto
  qed
qed

end
