(* ===== verification/Geohash.thy ===== *)
theory Geohash
  imports Prelude
begin

text \<open>
  The integer part of \<open>src/bench/redis-src/geohash.c\<close>: interleaving two 32-bit coordinates, taking them
  apart, and moving a cell to its neighbours. Latitude has the even bits, longitude the odd ones.
\<close>

section \<open>Code\<close>

definition interleave64 :: "u32 \<Rightarrow> u32 \<Rightarrow> u64" where
  "interleave64 xlo ylo =
     (let x = ucast xlo; y = ucast ylo;
          x = (x OR push_bit 16 x) AND 0x0000FFFF0000FFFF; y = (y OR push_bit 16 y) AND 0x0000FFFF0000FFFF;
          x = (x OR push_bit 8 x) AND 0x00FF00FF00FF00FF; y = (y OR push_bit 8 y) AND 0x00FF00FF00FF00FF;
          x = (x OR push_bit 4 x) AND 0x0F0F0F0F0F0F0F0F; y = (y OR push_bit 4 y) AND 0x0F0F0F0F0F0F0F0F;
          x = (x OR push_bit 2 x) AND 0x3333333333333333; y = (y OR push_bit 2 y) AND 0x3333333333333333;
          x = (x OR push_bit 1 x) AND 0x5555555555555555; y = (y OR push_bit 1 y) AND 0x5555555555555555
      in x OR push_bit 1 y)"

definition deinterleave64 :: "u64 \<Rightarrow> u64" where
  "deinterleave64 interleaved =
     (let x = interleaved; y = drop_bit 1 interleaved;
          x = (x OR drop_bit 0 x) AND 0x5555555555555555; y = (y OR drop_bit 0 y) AND 0x5555555555555555;
          x = (x OR drop_bit 1 x) AND 0x3333333333333333; y = (y OR drop_bit 1 y) AND 0x3333333333333333;
          x = (x OR drop_bit 2 x) AND 0x0F0F0F0F0F0F0F0F; y = (y OR drop_bit 2 y) AND 0x0F0F0F0F0F0F0F0F;
          x = (x OR drop_bit 4 x) AND 0x00FF00FF00FF00FF; y = (y OR drop_bit 4 y) AND 0x00FF00FF00FF00FF;
          x = (x OR drop_bit 8 x) AND 0x0000FFFF0000FFFF; y = (y OR drop_bit 8 y) AND 0x0000FFFF0000FFFF;
          x = (x OR drop_bit 16 x) AND 0x00000000FFFFFFFF; y = (y OR drop_bit 16 y) AND 0x00000000FFFFFFFF
      in x OR push_bit 32 y)"

record GeoHashBits =
  bits :: u64
  step :: u8

text \<open>A shift by 64 or more, for a step of 0 or above 32, is undefined.\<close>

definition geohash_move_x :: "GeoHashBits \<Rightarrow> int \<Rightarrow> GeoHashBits option" where
  "geohash_move_x hash d =
     (if d = 0 then Some hash
      else if step hash = 0 \<or> unat (step hash) > 32 then None
      else
        let x = bits hash AND 0xaaaaaaaaaaaaaaaa; y = bits hash AND 0x5555555555555555;
            zz = drop_bit (64 - unat (step hash) * 2) 0x5555555555555555;
            x = (if d > 0 then x + (zz + 1) else (x OR zz) - (zz + 1));
            x = x AND drop_bit (64 - unat (step hash) * 2) 0xaaaaaaaaaaaaaaaa
        in Some (hash\<lparr>bits := x OR y\<rparr>))"

definition geohash_move_y :: "GeoHashBits \<Rightarrow> int \<Rightarrow> GeoHashBits option" where
  "geohash_move_y hash d =
     (if d = 0 then Some hash
      else if step hash = 0 \<or> unat (step hash) > 32 then None
      else
        let x = bits hash AND 0xaaaaaaaaaaaaaaaa; y = bits hash AND 0x5555555555555555;
            zz = drop_bit (64 - unat (step hash) * 2) 0xaaaaaaaaaaaaaaaa;
            y = (if d > 0 then y + (zz + 1) else (y OR zz) - (zz + 1));
            y = y AND drop_bit (64 - unat (step hash) * 2) 0x5555555555555555
        in Some (hash\<lparr>bits := x OR y\<rparr>))"

definition move_xy :: "GeoHashBits \<Rightarrow> int \<Rightarrow> int \<Rightarrow> GeoHashBits option" where
  "move_xy hash dx dy = geohash_move_x hash dx \<bind> (\<lambda>h. geohash_move_y h dy)"

record GeoHashNeighbors =
  north :: GeoHashBits
  east :: GeoHashBits
  west :: GeoHashBits
  south :: GeoHashBits
  north_east :: GeoHashBits
  south_east :: GeoHashBits
  north_west :: GeoHashBits
  south_west :: GeoHashBits

definition geohashNeighbors :: "GeoHashBits \<Rightarrow> GeoHashNeighbors option" where
  "geohashNeighbors hash =
     do {
       e \<leftarrow> move_xy hash 1 0; w \<leftarrow> move_xy hash (- 1) 0; s \<leftarrow> move_xy hash 0 (- 1); n \<leftarrow> move_xy hash 0 1;
       nw \<leftarrow> move_xy hash (- 1) 1; ne \<leftarrow> move_xy hash 1 1; se \<leftarrow> move_xy hash 1 (- 1); sw \<leftarrow> move_xy hash (- 1) (- 1);
       Some \<lparr>north = n, east = e, west = w, south = s, north_east = ne, south_east = se, north_west = nw, south_west = sw\<rparr>
     }"

section \<open>Functions that commute with inclusive or\<close>

locale or_linear =
  fixes f :: "'a::len word \<Rightarrow> 'b::len word"
  assumes join: "f (a OR b) = f a OR f b" and zero: "f 0 = 0"
begin

text \<open>Such a function is known from what it does to single bits.\<close>

lemma bit_iff:
  assumes basis: "\<And>k. k < LENGTH('a) \<Longrightarrow> f (2 ^ k) = (if P k then 2 ^ g k else 0)" and g: "\<And>k. k < LENGTH('a) \<Longrightarrow> P k \<Longrightarrow> g k < LENGTH('b)"
  shows "bit (f v) n \<longleftrightarrow> (\<exists>k < LENGTH('a). P k \<and> g k = n \<and> bit v k)"
proof -
  have "m \<le> LENGTH('a) \<Longrightarrow> bit (f (take_bit m v)) n \<longleftrightarrow> (\<exists>k < m. P k \<and> g k = n \<and> bit v k)" for m
  proof (induction m)
    case (Suc m)
    have "take_bit (Suc m) v = take_bit m v OR (if bit v m then 2 ^ m else 0)"
      by (rule bit_word_eqI) (auto simp: bit_simps less_Suc_eq)
    then have "f (take_bit (Suc m) v) = f (take_bit m v) OR (if bit v m then f (2 ^ m) else 0)"
      by (simp add: join zero)
    then show ?case
      using Suc g [of m] basis [of m] by (auto simp: bit_or_iff bit_exp_iff less_Suc_eq split: if_splits)
  qed (simp add: zero)
  from this [of "LENGTH('a)"] show ?thesis by (simp add: take_bit_word_eq_self)
qed

end

lemma or_linear_up: "or_linear f \<Longrightarrow> or_linear (\<lambda>x. (f x OR push_bit k (f x)) AND m)"
  by (auto simp: or_linear_def intro!: bit_word_eqI) (auto simp: bit_simps)

lemma or_linear_down: "or_linear f \<Longrightarrow> or_linear (\<lambda>x. (f x OR drop_bit k (f x)) AND m)"
  by (auto simp: or_linear_def intro!: bit_word_eqI) (auto simp: bit_simps)

lemma or_linear_ucast: "or_linear ucast"
  by unfold_locales (auto intro!: bit_word_eqI simp: bit_simps)

lemma or_linear_id: "or_linear (\<lambda>x. x)"
  by unfold_locales auto

definition spread_bits :: "u32 \<Rightarrow> u64" where
  "spread_bits xlo = (let x = ucast xlo; x = (x OR push_bit 16 x) AND 0x0000FFFF0000FFFF; x = (x OR push_bit 8 x) AND 0x00FF00FF00FF00FF;
     x = (x OR push_bit 4 x) AND 0x0F0F0F0F0F0F0F0F; x = (x OR push_bit 2 x) AND 0x3333333333333333
   in (x OR push_bit 1 x) AND 0x5555555555555555)"

definition squash_bits :: "u64 \<Rightarrow> u64" where
  "squash_bits x = (let x = (x OR drop_bit 0 x) AND 0x5555555555555555; x = (x OR drop_bit 1 x) AND 0x3333333333333333;
     x = (x OR drop_bit 2 x) AND 0x0F0F0F0F0F0F0F0F; x = (x OR drop_bit 4 x) AND 0x00FF00FF00FF00FF;
     x = (x OR drop_bit 8 x) AND 0x0000FFFF0000FFFF
   in (x OR drop_bit 16 x) AND 0x00000000FFFFFFFF)"

lemma interleave64_spread: "interleave64 x y = spread_bits x OR push_bit 1 (spread_bits y)"
  by (simp only: interleave64_def spread_bits_def Let_def)

lemma deinterleave64_squash: "deinterleave64 v = squash_bits v OR push_bit 32 (squash_bits (drop_bit 1 v))"
  by (simp only: deinterleave64_def squash_bits_def Let_def)

interpretation spread_bits: or_linear spread_bits
  unfolding spread_bits_def [abs_def] Let_def by (intro or_linear_up or_linear_ucast)

interpretation squash_bits: or_linear squash_bits
  unfolding squash_bits_def [abs_def] Let_def by (intro or_linear_down or_linear_id)

lemma spread_basis: "k < 32 \<Longrightarrow> spread_bits (2 ^ k) = 2 ^ (2 * k)"
proof -
  have "list_all (\<lambda>k. spread_bits (2 ^ k) = 2 ^ (2 * k)) [0..<32]"
    by (simp add: upt_rec spread_bits_def Let_def)
  then show "k < 32 \<Longrightarrow> ?thesis" by (simp add: list_all_iff)
qed

lemma squash_basis: "k < 64 \<Longrightarrow> squash_bits (2 ^ k) = (if even k then 2 ^ (k div 2) else 0)"
proof -
  have "list_all (\<lambda>k. squash_bits (2 ^ k) = (if even k then 2 ^ (k div 2) else 0)) [0..<64]"
    by (simp add: upt_rec squash_bits_def Let_def)
  then show "k < 64 \<Longrightarrow> ?thesis" by (simp add: list_all_iff)
qed

lemma bit_spread: "bit (spread_bits x) n \<longleftrightarrow> even n \<and> n < 64 \<and> bit x (n div 2)"
  using spread_bits.bit_iff [of "\<lambda>_. True" "\<lambda>k. 2 * k" x n] spread_basis by (auto elim!: evenE)

lemma bit_squash: "bit (squash_bits v) n \<longleftrightarrow> n < 32 \<and> bit v (2 * n)"
proof -
  have "bit (squash_bits v) n \<longleftrightarrow> (\<exists>k < 64. even k \<and> k div 2 = n \<and> bit v k)"
    using squash_bits.bit_iff [of even "\<lambda>k. k div 2" v n] squash_basis by simp
  also have "\<dots> \<longleftrightarrow> n < 32 \<and> bit v (2 * n)"
    by (auto elim!: evenE intro!: exI [of _ "2 * n"])
  finally show ?thesis .
qed

text \<open>Bit \<open>2 i\<close> of the hash is bit \<open>i\<close> of the latitude and bit \<open>2 i + 1\<close> that of the longitude.\<close>

lemma bit_interleave64:
  "n < 64 \<Longrightarrow> bit (interleave64 x y) n \<longleftrightarrow> (if even n then bit x (n div 2) else bit y (n div 2))"
  unfolding interleave64_spread bit_or_iff bit_push_bit_iff by (cases n) (auto simp: bit_spread)

lemma bit_word_imp: "bit (x :: u32) n \<Longrightarrow> n < 32"
  using bit_imp_le_length [of x n] by simp

lemma deinterleave_interleave:
  "deinterleave64 (interleave64 x y) = ucast x OR push_bit 32 (ucast y)"
proof (rule bit_word_eqI)
  fix n assume "n < LENGTH(64)"
  then show "bit (deinterleave64 (interleave64 x y)) n = bit (ucast x OR push_bit 32 (ucast y) :: u64) n"
    using bit_word_imp [of x n] by (cases "n < 32") (auto simp: deinterleave64_squash bit_simps bit_squash bit_interleave64)
qed

lemma interleave_deinterleave:
  "interleave64 (ucast (deinterleave64 v)) (ucast (drop_bit 32 (deinterleave64 v))) = v"
  by (rule bit_word_eqI) (auto simp: deinterleave64_squash bit_simps bit_squash bit_interleave64)

section \<open>Coordinates as numbers\<close>

text \<open>The number whose base 4 digits are the base 2 digits of \<open>n\<close>, and \<open>s\<close> ones in base 4.\<close>

fun spreadn :: "nat \<Rightarrow> int" where
  "spreadn n = (if n = 0 then 0 else 4 * spreadn (n div 2) + int (n mod 2))"

declare spreadn.simps [simp del]

primrec ones4 :: "nat \<Rightarrow> int" where
  "ones4 0 = 0"
| "ones4 (Suc s) = 4 * ones4 s + 1"

lemma spreadn_digits [simp]:
  "spreadn 0 = 0" "spreadn (2 * m) = 4 * spreadn m" "spreadn (Suc (2 * m)) = 4 * spreadn m + 1"
  "spreadn (m * 2) = 4 * spreadn m" "spreadn (Suc (m * 2)) = 4 * spreadn m + 1"
  using spreadn.simps [of 0] spreadn.simps [of "2 * m"] spreadn.simps [of "Suc (2 * m)"]
  by (auto simp: mult.commute [of m 2])

lemma and_digit4:
  fixes a b :: int
  assumes "i < 4" "j < 4" "0 \<le> i" "0 \<le> j"
  shows "(4 * a + i) AND (4 * b + j) = 4 * (a AND b) + (i AND j)"
proof -
  have concat: "concat_bit 2 r c = 4 * c + r" if "0 \<le> r" "r < 4" for r c :: int
    using that by (simp add: concat_bit_eq push_bit_eq_mult take_bit_int_eq_self)
  have "0 \<le> i AND j" "i AND j < 4"
    using assms AND_upper1 [of i j] by auto
  moreover have "concat_bit 2 i a AND concat_bit 2 j b = concat_bit 2 (i AND j) (a AND b)"
    by (rule bit_eqI) (auto simp: bit_simps bit_concat_bit_iff)
  ultimately show ?thesis using assms by (simp add: concat)
qed

lemma and_ones4:
  "0 \<le> i \<Longrightarrow> i < 4 \<Longrightarrow> c = 1 \<or> c = 2 \<Longrightarrow> (4 * a + i) AND (c * ones4 (Suc s)) = 4 * (a AND c * ones4 s) + (i AND c)"
  using and_digit4 [of i c a "c * ones4 s"] by (auto simp: algebra_simps)

text \<open>A number below \<open>2 ^ Suc s\<close> is a number below \<open>2 ^ s\<close> and a last bit.\<close>

lemma less_exp_Suc_cases:
  assumes "n < 2 ^ Suc s"
  obtains m where "m < 2 ^ s" "n = 2 * m" | m where "m < 2 ^ s" "n = Suc (2 * m)"
  using assms that by (cases "even n") (auto elim!: evenE oddE)

lemma Suc_mod_exp:
  "Suc (2 * m) mod (2 * 2 ^ s) = Suc (2 * (m mod 2 ^ s))" "Suc (Suc (2 * m)) mod (2 * 2 ^ s) = 2 * (Suc m mod 2 ^ s)"
proof -
  show "Suc (2 * m) mod (2 * 2 ^ s) = Suc (2 * (m mod 2 ^ s))"
    using mod_mult2_eq [of "Suc (2 * m)" 2 "2 ^ s"] by simp
  show "Suc (Suc (2 * m)) mod (2 * 2 ^ s) = 2 * (Suc m mod 2 ^ s)"
    using mod_mult_mult1 [of 2 "Suc m" "2 ^ s"] by simp
qed

text \<open>
  The digits of one coordinate have weight \<open>c\<close>, those of the other \<open>3 - c\<close>. They stay when ones fill the digits of
  the other; adding one then carries over these, and subtracting one borrows.
\<close>

lemma digit_step:
  "v = 4 * a + i \<Longrightarrow> a AND c * ones4 s = r \<Longrightarrow> c = 1 \<or> c = 2 \<Longrightarrow> 0 \<le> i \<and> i < 4 \<Longrightarrow>
   v AND c * ones4 (Suc s) = 4 * r + (i AND c)"
  by (simp only: and_ones4)

lemma weights:
  "c = 1 \<or> c = 2 \<Longrightarrow> (3 - c) AND c = (0 :: int) \<and> 3 AND c = c \<and> (4 - c) AND c = c \<and> (c - 1) AND c = 0"
  by auto

lemma keep_digits: "n < 2 ^ s \<Longrightarrow> c = 1 \<or> c = 2 \<Longrightarrow> (c * spreadn n + (3 - c) * ones4 s) AND (c * ones4 s) = c * spreadn n"
proof (induction s arbitrary: n)
  case (Suc s)
  from Suc.prems(1) show ?case
  proof (cases rule: less_exp_Suc_cases)
    case (1 m)
    have "c * spreadn n + (3 - c) * ones4 (Suc s) = 4 * (c * spreadn m + (3 - c) * ones4 s) + (3 - c)"
      by (simp add: 1 algebra_simps)
    from digit_step [OF this Suc.IH [OF 1(1)]] show ?thesis using 1(2) Suc.prems(2) by (auto simp: weights simp del: ones4.simps)
  next
    case (2 m)
    have "c * spreadn n + (3 - c) * ones4 (Suc s) = 4 * (c * spreadn m + (3 - c) * ones4 s) + 3"
      by (simp add: 2 algebra_simps)
    from digit_step [OF this Suc.IH [OF 2(1)]] show ?thesis using 2(2) Suc.prems(2) by (auto simp: weights simp del: ones4.simps)
  qed
qed simp

lemma own_digits: "n < 2 ^ s \<Longrightarrow> c = 1 \<or> c = 2 \<Longrightarrow> (c * spreadn n) AND (c * ones4 s) = c * spreadn n"
proof (induction s arbitrary: n)
  case (Suc s)
  from Suc.prems(1) show ?case
  proof (cases rule: less_exp_Suc_cases)
    case (1 m)
    then have "c * spreadn n = 4 * (c * spreadn m) + 0" by simp
    from digit_step [OF this Suc.IH [OF 1(1)]] show ?thesis using 1(2) Suc.prems(2) by (simp del: ones4.simps)
  next
    case (2 m)
    then have "c * spreadn n = 4 * (c * spreadn m) + c" by (simp add: algebra_simps)
    from digit_step [OF this Suc.IH [OF 2(1)]] show ?thesis using 2(2) Suc.prems(2) by (auto simp: weights simp del: ones4.simps)
  qed
qed simp

lemma carry_digits:
  "n < 2 ^ s \<Longrightarrow> c = 1 \<or> c = 2 \<Longrightarrow> (c * spreadn n + ((3 - c) * ones4 s + 1)) AND (c * ones4 s) = c * spreadn (Suc n mod 2 ^ s)"
proof (induction s arbitrary: n)
  case (Suc s)
  from Suc.prems(1) show ?case
  proof (cases rule: less_exp_Suc_cases)
    case (1 m)
    have "c * spreadn n + ((3 - c) * ones4 (Suc s) + 1) = 4 * (c * spreadn m + (3 - c) * ones4 s) + (4 - c)"
      by (simp add: 1 algebra_simps)
    from digit_step [OF this keep_digits [OF 1(1)]] show ?thesis using 1 Suc.prems(2)
      by (auto simp: weights Suc_mod_exp simp del: ones4.simps)
  next
    case (2 m)
    have "c * spreadn n + ((3 - c) * ones4 (Suc s) + 1) = 4 * (c * spreadn m + ((3 - c) * ones4 s + 1)) + 0"
      by (simp add: 2 algebra_simps)
    from digit_step [OF this Suc.IH [OF 2(1)]] show ?thesis using 2 Suc.prems(2) by (simp add: Suc_mod_exp del: ones4.simps)
  qed
qed simp

text \<open>The coordinate before \<open>n\<close> on the circle of \<open>2 ^ s\<close> cells.\<close>

definition prev_cell :: "nat \<Rightarrow> nat \<Rightarrow> nat" where
  "prev_cell s n = (if n = 0 then 2 ^ s - 1 else n - 1)"

lemma prev_cell_digits:
  "prev_cell (Suc s) (2 * m) = Suc (2 * prev_cell s m)" "prev_cell (Suc s) (Suc (2 * m)) = 2 * m"
  using one_le_power [of "2 :: nat" s] by (auto simp: prev_cell_def Suc_diff_le [symmetric] diff_mult_distrib2)

lemma borrow_digits: "n < 2 ^ s \<Longrightarrow> c = 1 \<or> c = 2 \<Longrightarrow> (c * spreadn n - 1) AND (c * ones4 s) = c * spreadn (prev_cell s n)"
proof (induction s arbitrary: n)
  case (Suc s)
  from Suc.prems(1) show ?case
  proof (cases rule: less_exp_Suc_cases)
    case (1 m)
    have "c * spreadn n - 1 = 4 * (c * spreadn m - 1) + 3" by (simp add: 1 algebra_simps)
    from digit_step [OF this Suc.IH [OF 1(1)]] show ?thesis using 1 Suc.prems(2)
      by (auto simp: weights prev_cell_digits simp del: ones4.simps)
  next
    case (2 m)
    have "c * spreadn n - 1 = 4 * (c * spreadn m) + (c - 1)" by (simp add: 2 algebra_simps)
    from digit_step [OF this own_digits [OF 2(1)]] show ?thesis using 2 Suc.prems(2)
      by (auto simp: weights prev_cell_digits simp del: ones4.simps)
  qed
qed (auto simp: prev_cell_def)

section \<open>Moving to a neighbour\<close>

lemma ones4_div: "ones4 (s + t) div 4 ^ t = ones4 s" "(2 * ones4 (s + t)) div 4 ^ t = 2 * ones4 s"
proof (induction t)
  case (Suc t)
  have "ones4 (Suc u) div 4 = ones4 u" "(2 * ones4 (Suc u)) div 4 = 2 * ones4 u" for u by simp_all
  then show "ones4 (s + Suc t) div 4 ^ Suc t = ones4 s" "(2 * ones4 (s + Suc t)) div 4 ^ Suc t = 2 * ones4 s"
    using Suc by (simp_all add: zdiv_zmult2_eq del: ones4.simps)
qed simp_all

lemma uint_ones:
  assumes "s \<le> 32"
  shows "uint (drop_bit (64 - s * 2) (0x5555555555555555 :: u64)) = ones4 s"
    and "uint (drop_bit (64 - s * 2) (0xaaaaaaaaaaaaaaaa :: u64)) = 2 * ones4 s"
proof -
  have shift: "64 - s * 2 = 2 * (32 - s)" "s + (32 - s) = 32" and ones: "ones4 32 = 0x5555555555555555"
    using assms by (simp_all add: eval_nat_numeral)
  have drop: "uint (drop_bit (64 - s * 2) w) = uint w div 4 ^ (32 - s)" for w :: u64
    unfolding shift unsigned_drop_bit_eq by (simp add: drop_bit_eq_div power_mult take_bit_int_eq_self unsigned_less [of w, simplified])
  show "uint (drop_bit (64 - s * 2) (0x5555555555555555 :: u64)) = ones4 s"
    and "uint (drop_bit (64 - s * 2) (0xaaaaaaaaaaaaaaaa :: u64)) = 2 * ones4 s"
    using ones4_div [of s "32 - s"] unfolding drop by (simp_all add: shift ones)
qed

lemma uint_spread: "uint (spread_bits x) = spreadn (unat x)"
proof (induction "unat x" arbitrary: x rule: less_induct)
  case less
  show ?case
  proof (cases "x = 0")
    case False
    then have "unat (drop_bit 1 x) < unat x"
      using unat_gt_0 [of x] by (simp add: drop_bit_Suc unat_div del: unat_gt_0)
    then have IH: "uint (spread_bits (drop_bit 1 x)) = spreadn (unat x div 2)"
      using less [of "drop_bit 1 x"] by (simp add: unat_drop_bit_eq drop_bit_Suc unat_div)
    have "uint (spread_bits x) = concat_bit 2 (of_bool (odd x)) (uint (spread_bits (drop_bit 1 x)))"
    proof (rule bit_eqI)
      fix n
      consider "n = 0" | "n = 1" | m where "n = Suc (Suc m)" by (metis One_nat_def not0_implies_Suc)
      then show "bit (uint (spread_bits x)) n = bit (concat_bit 2 (of_bool (odd x)) (uint (spread_bits (drop_bit 1 x)))) n"
        using bit_imp_le_length [of x "Suc (n div 2)"] bit_imp_le_length [of x "n div 2"]
        unfolding bit_concat_bit_iff bit_uint_iff bit_spread bit_drop_bit_eq by cases (auto simp: bit_0 bit_1_iff)
    qed
    also have "\<dots> = 4 * spreadn (unat x div 2) + of_bool (odd x)"
      by (simp only: IH) (simp add: concat_bit_eq push_bit_eq_mult)
    also have "\<dots> = spreadn (unat x)"
      using False unat_mod [of x 2] by (subst (2) spreadn.simps) (cases "odd x"; cases "odd (unat x)"; simp add: unat_eq_zero mod_2_eq_odd)
    finally show ?thesis .
  qed (simp add: spread_bits.zero)
qed

lemma masked:
  fixes a b m :: u64
  shows "uint ((a + (b + 1)) AND m) = (uint a + (uint b + 1)) AND uint m" "uint ((a - 1) AND m) = (uint a - 1) AND uint m"
proof -
  have "take_bit 64 v AND uint m = v AND uint m" for v
    by (rule bit_eqI) (auto simp: bit_simps dest: bit_imp_le_length [of m])
  then have "v mod 18446744073709551616 AND uint m = v AND uint m" for v
    by (simp add: take_bit_eq_mod)
  then show "uint ((a + (b + 1)) AND m) = (uint a + (uint b + 1)) AND uint m" "uint ((a - 1) AND m) = (uint a - 1) AND uint m"
    by (simp_all add: uint_and uint_word_ariths mod_simps)
qed

text \<open>The two masks, and the coordinates they select.\<close>

lemma spread_masks: "(0x5555555555555555 :: u64) = spread_bits 0xffffffff" "(0xaaaaaaaaaaaaaaaa :: u64) = push_bit 1 (spread_bits 0xffffffff)"
  by (simp_all add: spread_bits_def Let_def)

lemma bit_all_ones: "bit (0xffffffff :: u32) n \<longleftrightarrow> n < 32"
  using bit_mask_iff [where 'a = "32 word", of 32 n] by (simp add: mask_eq_exp_minus_1)

lemma push_spread: "push_bit 1 (spread_bits x) = spread_bits x * 2"
  by simp

lemma bit_spread2: "bit (spread_bits x * 2) n \<longleftrightarrow> odd n \<and> n < 64 \<and> bit x (n div 2)"
  unfolding push_spread [symmetric] bit_push_bit_iff by (cases n) (auto simp: bit_spread)

lemma select_masks:
  "interleave64 lat lon AND 0xaaaaaaaaaaaaaaaa = push_bit 1 (spread_bits lon)" "interleave64 lat lon AND 0x5555555555555555 = spread_bits lat"
  unfolding interleave64_spread spread_masks
  by (rule bit_word_eqI; unfold bit_or_iff bit_and_iff push_spread bit_spread2 bit_spread bit_all_ones; auto)+

lemma uint_push_spread: "uint (push_bit 1 (spread_bits x)) = 2 * spreadn (unat x)"
proof -
  have "uint (push_bit 1 (spread_bits x)) = push_bit 1 (uint (spread_bits x))"
    unfolding push_spread by (rule bit_eqI) (auto simp only: bit_uint_iff bit_push_bit_iff bit_spread bit_spread2, auto elim!: oddE)
  then show ?thesis by (simp only: uint_spread) simp
qed

lemma fill_or:
  "push_bit 1 (spread_bits x) OR drop_bit (2 * k) 0x5555555555555555 = push_bit 1 (spread_bits x) + drop_bit (2 * k) 0x5555555555555555"
  "spread_bits x OR drop_bit (2 * k) 0xaaaaaaaaaaaaaaaa = spread_bits x + drop_bit (2 * k) 0xaaaaaaaaaaaaaaaa"
  unfolding spread_masks
  by (rule disjunctive_add [symmetric], simp_all add: bit_drop_bit_eq bit_spread bit_spread2 bit_all_ones)+

text \<open>The coordinate one cell further, or one before, of the \<open>2 ^ s\<close> around the globe.\<close>

definition next_coord :: "nat \<Rightarrow> int \<Rightarrow> u32 \<Rightarrow> u32" where
  "next_coord s d c = (if d = 0 then c else word_of_int ((uint c + (if d > 0 then 1 else - 1)) mod 2 ^ s))"

lemma unat_next_coord:
  assumes "s \<le> 32" "unat c < 2 ^ s" "d \<noteq> 0"
  shows "unat (next_coord s d c) = (if d > 0 then Suc (unat c) mod 2 ^ s else prev_cell s (unat c))"
proof -
  have "(2 :: int) ^ s \<le> 2 ^ 32" using assms(1) by (intro power_increasing) auto
  then have "v mod 2 ^ s < 2 ^ 32" for v :: int
    by (rule less_le_trans [OF pos_mod_bound, rotated]) simp
  then have small: "unat (word_of_int (v mod 2 ^ s) :: u32) = nat (v mod 2 ^ s)" for v :: int
    by (simp add: unsigned_of_int take_bit_int_eq_self)
  have up: "nat ((uint c + 1) mod 2 ^ s) = Suc (unat c) mod 2 ^ s"
    by (simp add: nat_mod_distrib nat_power_eq nat_add_distrib)
  have down: "nat ((uint c - 1) mod 2 ^ s) = prev_cell s (unat c)"
  proof (cases "unat c = 0")
    case True
    then show ?thesis by (simp add: unat_eq_zero prev_cell_def zmod_minus1 nat_diff_distrib nat_power_eq)
  next
    case False
    have "0 < int (unat c)" "int (unat c) < int (2 ^ s)"
      using assms(2) False by (simp_all only: of_nat_less_iff of_nat_0_less_iff neq0_conv)
    then have "(uint c - 1) mod 2 ^ s = uint c - 1"
      using False by (intro mod_pos_pos_trivial) simp_all
    then show ?thesis using False by (simp add: prev_cell_def nat_diff_distrib')
  qed
  show ?thesis using assms(3) by (simp add: next_coord_def small up down)
qed

lemma move_digits:
  assumes "s \<le> 32" "unat c < 2 ^ s" "d \<noteq> 0"
  shows "(if d > 0 then push_bit 1 (spread_bits c) + (drop_bit (64 - s * 2) 0x5555555555555555 + 1)
            else (push_bit 1 (spread_bits c) OR drop_bit (64 - s * 2) 0x5555555555555555) - (drop_bit (64 - s * 2) 0x5555555555555555 + 1))
          AND drop_bit (64 - s * 2) 0xaaaaaaaaaaaaaaaa = push_bit 1 (spread_bits (next_coord s d c))" (is ?X)
    and "(if d > 0 then spread_bits c + (drop_bit (64 - s * 2) 0xaaaaaaaaaaaaaaaa + 1)
            else (spread_bits c OR drop_bit (64 - s * 2) 0xaaaaaaaaaaaaaaaa) - (drop_bit (64 - s * 2) 0xaaaaaaaaaaaaaaaa + 1))
          AND drop_bit (64 - s * 2) 0x5555555555555555 = spread_bits (next_coord s d c)" (is ?Y)
proof -
  define A where "A = drop_bit (64 - s * 2) (0x5555555555555555 :: u64)"
  define B where "B = drop_bit (64 - s * 2) (0xaaaaaaaaaaaaaaaa :: u64)"
  have u: "uint A = ones4 s" "uint B = 2 * ones4 s" unfolding A_def B_def by (rule uint_ones [OF assms(1)])+
  have shift: "64 - s * 2 = 2 * (32 - s)" using assms(1) by simp
  have fill: "push_bit 1 (spread_bits c) OR A = push_bit 1 (spread_bits c) + A" "spread_bits c OR B = spread_bits c + B"
    unfolding A_def B_def shift by (rule fill_or)+
  have down: "x + z - (z + 1) = x - (1 :: u64)" for x z by simp
  have succ: "spreadn (unat (next_coord s d c)) = (if d > 0 then spreadn (Suc (unat c) mod 2 ^ s) else spreadn (prev_cell s (unat c)))"
    using unat_next_coord [OF assms] by simp
  show ?X
    unfolding A_def [symmetric] B_def [symmetric] fill down
    using carry_digits [OF assms(2), of 2] borrow_digits [OF assms(2), of 2]
    by (intro word_uint_eqI) (simp add: masked uint_push_spread [unfolded push_spread] u succ)
  show ?Y
    unfolding A_def [symmetric] B_def [symmetric] fill down
    using carry_digits [OF assms(2), of 1] borrow_digits [OF assms(2), of 1]
    by (intro word_uint_eqI) (simp add: masked uint_spread u succ)
qed

text \<open>The cell of two coordinates on a grid of \<open>2 ^ s\<close> by \<open>2 ^ s\<close>, for \<open>s\<close> from 1 to 32.\<close>

definition geo_cell :: "u8 \<Rightarrow> u32 \<Rightarrow> u32 \<Rightarrow> GeoHashBits" where
  "geo_cell s lat lon = \<lparr>bits = interleave64 lat lon, step = s\<rparr>"

definition on_grid :: "u8 \<Rightarrow> u32 \<Rightarrow> bool" where
  "on_grid s c \<longleftrightarrow> s \<noteq> 0 \<and> unat s \<le> 32 \<and> unat c < 2 ^ unat s"

lemma geohash_move_x_cell:
  assumes "on_grid s lon"
  shows "geohash_move_x (geo_cell s lat lon) d = Some (geo_cell s lat (next_coord (unat s) d lon))"
proof (cases "d = 0")
  case False
  show ?thesis
    using assms move_digits(1) [of "unat s" lon d] False
    unfolding geohash_move_x_def geo_cell_def on_grid_def Let_def GeoHashBits.select_convs GeoHashBits.update_convs select_masks
    unfolding interleave64_spread by (auto simp: or.commute)
qed (simp add: geohash_move_x_def next_coord_def)

lemma geohash_move_y_cell:
  assumes "on_grid s lat"
  shows "geohash_move_y (geo_cell s lat lon) d = Some (geo_cell s (next_coord (unat s) d lat) lon)"
proof (cases "d = 0")
  case False
  show ?thesis
    using assms move_digits(2) [of "unat s" lat d] False
    unfolding geohash_move_y_def geo_cell_def on_grid_def Let_def GeoHashBits.select_convs GeoHashBits.update_convs select_masks
    unfolding interleave64_spread by (auto simp: or.commute)
qed (simp add: geohash_move_y_def next_coord_def)

lemma move_cell:
  "on_grid s lat \<Longrightarrow> on_grid s lon \<Longrightarrow>
   move_xy (geo_cell s lat lon) dx dy = Some (geo_cell s (next_coord (unat s) dy lat) (next_coord (unat s) dx lon))"
  by (simp add: move_xy_def geohash_move_x_cell geohash_move_y_cell)

lemma on_grid_next: "on_grid s c \<Longrightarrow> on_grid s (next_coord (unat s) d c)"
  by (cases "d = 0") (auto simp: on_grid_def unat_next_coord prev_cell_def, simp add: next_coord_def)

lemma next_prev: "on_grid s c \<Longrightarrow> next_coord (unat s) (- d) (next_coord (unat s) d c) = c"
proof (cases "d = 0")
  case False
  assume c: "on_grid s c"
  then show ?thesis
    using False unat_next_coord [of "unat s" c d] unat_next_coord [of "unat s" "next_coord (unat s) d c" "- d"] on_grid_next [OF c, of d]
    by (intro word_unat_eq_iff [THEN iffD2]) (auto simp: on_grid_def prev_cell_def mod_Suc split: if_splits)
qed (simp add: next_coord_def)

lemma geohashNeighbors_cells:
  assumes "on_grid s lat" "on_grid s lon"
  shows "geohashNeighbors (geo_cell s lat lon) =
    (let cell = (\<lambda>dy dx. geo_cell s (next_coord (unat s) dy lat) (next_coord (unat s) dx lon)) in
     Some \<lparr>north = cell 1 0, east = cell 0 1, west = cell 0 (- 1), south = cell (- 1) 0,
       north_east = cell 1 1, south_east = cell (- 1) 1, north_west = cell 1 (- 1), south_west = cell (- 1) (- 1)\<rparr>)"
  unfolding geohashNeighbors_def by (simp add: move_cell assms)

end
