(* ===== verification/Listpack_Entry.thy ===== *)
theory Listpack_Entry
  imports Numbers Buffer
begin

text \<open>
  The entries of a listpack, \<open>src/bench/redis-src/listpack.c\<close>: an element is a string of bytes. One
  that is the decimal form of a 64-bit integer is stored as the integer, in one of six widths; any
  other is stored with its length in one of three forms. The encoding is followed by its own length
  written so that it can be read backwards. A pointer into a listpack is an offset from its first byte;
  \<open>None\<close> stands for an access outside the allocation.
\<close>

section \<open>Code\<close>

definition byte_at :: "u8 list \<Rightarrow> int \<Rightarrow> u8 option" where
  "byte_at bs p = (if 0 \<le> p \<and> p < int (length bs) then Some (bs ! nat p) else None)"

definition LP_EOF :: u8 where "LP_EOF = 0xFF"

definition IS_7BIT_UINT :: "u8 \<Rightarrow> bool" where "IS_7BIT_UINT b \<longleftrightarrow> b AND 0x80 = 0"
definition IS_6BIT_STR :: "u8 \<Rightarrow> bool" where "IS_6BIT_STR b \<longleftrightarrow> b AND 0xC0 = 0x80"
definition IS_13BIT_INT :: "u8 \<Rightarrow> bool" where "IS_13BIT_INT b \<longleftrightarrow> b AND 0xE0 = 0xC0"
definition IS_12BIT_STR :: "u8 \<Rightarrow> bool" where "IS_12BIT_STR b \<longleftrightarrow> b AND 0xF0 = 0xE0"
definition IS_16BIT_INT :: "u8 \<Rightarrow> bool" where "IS_16BIT_INT b \<longleftrightarrow> b AND 0xFF = 0xF1"
definition IS_24BIT_INT :: "u8 \<Rightarrow> bool" where "IS_24BIT_INT b \<longleftrightarrow> b AND 0xFF = 0xF2"
definition IS_32BIT_INT :: "u8 \<Rightarrow> bool" where "IS_32BIT_INT b \<longleftrightarrow> b AND 0xFF = 0xF3"
definition IS_64BIT_INT :: "u8 \<Rightarrow> bool" where "IS_64BIT_INT b \<longleftrightarrow> b AND 0xFF = 0xF4"
definition IS_32BIT_STR :: "u8 \<Rightarrow> bool" where "IS_32BIT_STR b \<longleftrightarrow> b AND 0xFF = 0xF0"

lemmas is_defs = IS_7BIT_UINT_def IS_6BIT_STR_def IS_13BIT_INT_def IS_12BIT_STR_def IS_16BIT_INT_def
  IS_24BIT_INT_def IS_32BIT_INT_def IS_64BIT_INT_def IS_32BIT_STR_def LP_EOF_def

definition STR_LEN_6BIT :: "u8 list \<Rightarrow> int \<Rightarrow> u32 option" where
  "STR_LEN_6BIT lp p = do { a \<leftarrow> byte_at lp p; Some (ucast (a AND 0x3F)) }"

definition STR_LEN_12BIT :: "u8 list \<Rightarrow> int \<Rightarrow> u32 option" where
  "STR_LEN_12BIT lp p =
     do { a \<leftarrow> byte_at lp p; b \<leftarrow> byte_at lp (p + 1); Some (push_bit 8 (ucast (a AND 0xF)) OR ucast b) }"

definition STR_LEN_32BIT :: "u8 list \<Rightarrow> int \<Rightarrow> u32 option" where
  "STR_LEN_32BIT lp p =
     do {
       b1 \<leftarrow> byte_at lp (p + 1); b2 \<leftarrow> byte_at lp (p + 2); b3 \<leftarrow> byte_at lp (p + 3); b4 \<leftarrow> byte_at lp (p + 4);
       Some (ucast b1 OR push_bit 8 (ucast b2) OR push_bit 16 (ucast b3) OR push_bit 24 (ucast b4))
     }"

text \<open>\<open>lpStringToInt64\<close>: as \<open>string2ll\<close>, a copy of the code of \<open>util.c\<close>.\<close>

fun lpStringToInt64_loop :: "u64 \<Rightarrow> u8 list \<Rightarrow> (u64 \<times> u8 list) option" where
  "lpStringToInt64_loop v [] = Some (v, [])"
| "lpStringToInt64_loop v (c # p) =
     (if 48 \<le> c \<and> c \<le> 57 then
        if v > - 1 div 10 then None
        else if v * 10 > - 1 - ucast (c - 48) then None
        else lpStringToInt64_loop (v * 10 + ucast (c - 48)) p
      else Some (v, c # p))"

definition lpStringToInt64 :: "u8 list \<Rightarrow> int option" where
  "lpStringToInt64 s =
     (if length s = 0 \<or> length s \<ge> LONG_STR_SIZE then None
      else if length s = 1 \<and> s ! 0 = 48 then Some 0
      else
        let negative = (s ! 0 = 45); p = (if negative then drop 1 s else s)
        in case p of
             [] \<Rightarrow> None
           | c # p \<Rightarrow>
               if 49 \<le> c \<and> c \<le> 57 then
                 case lpStringToInt64_loop (ucast (c - 48)) p of
                   None \<Rightarrow> None
                 | Some (v, rest) \<Rightarrow>
                     if rest \<noteq> [] then None
                     else if negative then
                       (if v > word_of_int (- (LLONG_MIN + 1)) + 1 then None else Some (sint (- v)))
                     else (if v > word_of_int LLONG_MAX then None else Some (sint v))
               else None)"

text \<open>The bytes that \<open>lpEncodeIntegerGetType\<close> stores; their number is \<open>*enclen\<close>.\<close>

abbreviation b8 :: "int \<Rightarrow> u8" where "b8 v \<equiv> word_of_int v"

definition lpEncodeIntegerGetType :: "int \<Rightarrow> u8 list" where
  "lpEncodeIntegerGetType v =
     (if v \<ge> 0 \<and> v \<le> 127 then [b8 v]
      else if v \<ge> - 4096 \<and> v \<le> 4095 then
        let v = (if v < 0 then 2 ^ 13 + v else v)
        in [b8 (drop_bit 8 v OR 0xC0), b8 (v AND 0xff)]
      else if v \<ge> - 32768 \<and> v \<le> 32767 then
        let v = (if v < 0 then 2 ^ 16 + v else v)
        in [0xF1, b8 (v AND 0xff), b8 (drop_bit 8 v)]
      else if v \<ge> - 8388608 \<and> v \<le> 8388607 then
        let v = (if v < 0 then 2 ^ 24 + v else v)
        in [0xF2, b8 (v AND 0xff), b8 (drop_bit 8 v AND 0xff), b8 (drop_bit 16 v)]
      else if v \<ge> - 2147483648 \<and> v \<le> 2147483647 then
        let v = (if v < 0 then 2 ^ 32 + v else v)
        in [0xF3, b8 (v AND 0xff), b8 (drop_bit 8 v AND 0xff), b8 (drop_bit 16 v AND 0xff), b8 (drop_bit 24 v)]
      else
        let uv = word_of_int v :: u64
        in [0xF4, ucast (uv AND 0xff), ucast (drop_bit 8 uv AND 0xff), ucast (drop_bit 16 uv AND 0xff),
            ucast (drop_bit 24 uv AND 0xff), ucast (drop_bit 32 uv AND 0xff), ucast (drop_bit 40 uv AND 0xff),
            ucast (drop_bit 48 uv AND 0xff), ucast (drop_bit 56 uv)])"

text \<open>The bytes of the integer, or none for \<open>LP_ENCODING_STRING\<close>; and \<open>*enclen\<close>.\<close>

definition lpEncodeGetType :: "u8 list \<Rightarrow> u8 list option \<times> u64" where
  "lpEncodeGetType ele =
     (let size = w32 (length ele) in
      case lpStringToInt64 ele of
        Some v \<Rightarrow> (Some (lpEncodeIntegerGetType v), w64 (length (lpEncodeIntegerGetType v)))
      | None \<Rightarrow>
          (None, if size < 64 then ucast (1 + size) else if size < 4096 then ucast (2 + size) else 5 + ucast size))"

definition lpEncodeBacklen :: "u64 \<Rightarrow> u8 list" where
  "lpEncodeBacklen l =
     (if l \<le> 127 then [ucast l]
      else if l \<le> 16383 then [ucast (drop_bit 7 l), ucast ((l AND 127) OR 128)]
      else if l \<le> 2097151 then
        [ucast (drop_bit 14 l), ucast ((drop_bit 7 l AND 127) OR 128), ucast ((l AND 127) OR 128)]
      else if l \<le> 268435455 then
        [ucast (drop_bit 21 l), ucast ((drop_bit 14 l AND 127) OR 128), ucast ((drop_bit 7 l AND 127) OR 128),
         ucast ((l AND 127) OR 128)]
      else
        [ucast (drop_bit 28 l), ucast ((drop_bit 21 l AND 127) OR 128), ucast ((drop_bit 14 l AND 127) OR 128),
         ucast ((drop_bit 7 l AND 127) OR 128), ucast ((l AND 127) OR 128)])"

definition lpEncodeBacklenBytes :: "u64 \<Rightarrow> u64" where
  "lpEncodeBacklenBytes l =
     (if l \<le> 127 then 1 else if l \<le> 16383 then 2 else if l \<le> 2097151 then 3 else if l \<le> 268435455 then 4 else 5)"

definition lpDecodeBacklen :: "u8 list \<Rightarrow> int \<Rightarrow> u64 option" where
  "lpDecodeBacklen lp p =
     do {
       b0 \<leftarrow> byte_at lp p;
       if b0 AND 128 = 0 then Some (ucast (b0 AND 127)) else do {
       let val = ucast (b0 AND 127);
       b1 \<leftarrow> byte_at lp (p - 1);
       let val1 = val OR push_bit 7 (ucast (b1 AND 127));
       if b1 AND 128 = 0 then Some val1 else do {
       b2 \<leftarrow> byte_at lp (p - 2);
       let val2 = val1 OR push_bit 14 (ucast (b2 AND 127));
       if b2 AND 128 = 0 then Some val2 else do {
       b3 \<leftarrow> byte_at lp (p - 3);
       let val3 = val2 OR push_bit 21 (ucast (b3 AND 127));
       if b3 AND 128 = 0 then Some val3 else do {
       b4 \<leftarrow> byte_at lp (p - 4);
       if b4 AND 128 = 0 then Some (val3 OR push_bit 28 (ucast (b4 AND 127))) else Some (- 1)
       }}}}
     }"

definition lpEncodeString :: "u8 list \<Rightarrow> u8 list" where
  "lpEncodeString s =
     (let len = w32 (length s) in
      if len < 64 then ucast (len OR 0x80) # s
      else if len < 4096 then ucast (drop_bit 8 len OR 0xE0) # ucast (len AND 0xff) # s
      else [0xF0, ucast (len AND 0xff), ucast (drop_bit 8 len AND 0xff), ucast (drop_bit 16 len AND 0xff),
            ucast (drop_bit 24 len AND 0xff)] @ s)"

definition lpCurrentEncodedSizeUnsafe :: "u8 list \<Rightarrow> int \<Rightarrow> u32 option" where
  "lpCurrentEncodedSizeUnsafe lp p =
     do {
       b \<leftarrow> byte_at lp p;
       if IS_7BIT_UINT b then Some 1
       else if IS_6BIT_STR b then do { n \<leftarrow> STR_LEN_6BIT lp p; Some (1 + n) }
       else if IS_13BIT_INT b then Some 2
       else if IS_16BIT_INT b then Some 3
       else if IS_24BIT_INT b then Some 4
       else if IS_32BIT_INT b then Some 5
       else if IS_64BIT_INT b then Some 9
       else if IS_12BIT_STR b then do { n \<leftarrow> STR_LEN_12BIT lp p; Some (2 + n) }
       else if IS_32BIT_STR b then do { n \<leftarrow> STR_LEN_32BIT lp p; Some (5 + n) }
       else if b = LP_EOF then Some 1
       else Some 0
     }"

definition lpCurrentEncodedSizeBytes :: "u8 \<Rightarrow> u32" where
  "lpCurrentEncodedSizeBytes b =
     (if IS_7BIT_UINT b then 1
      else if IS_6BIT_STR b then 1
      else if IS_13BIT_INT b then 1
      else if IS_16BIT_INT b then 1
      else if IS_24BIT_INT b then 1
      else if IS_32BIT_INT b then 1
      else if IS_64BIT_INT b then 1
      else if IS_12BIT_STR b then 2
      else if IS_32BIT_STR b then 5
      else if b = LP_EOF then 1
      else 0)"

section \<open>Reading an element\<close>

text \<open>
  What a read returns: an integer in \<open>*count\<close> and \<open>NULL\<close>; a pointer into the listpack with the
  length in \<open>*count\<close>; or the caller's buffer with the integer printed into it.
\<close>

datatype lp_got = GInt int | GStr int int | GBuf "u8 list" nat

text \<open>The conversion to a signed number, and the printing into \<open>intbuf\<close> when there is one.\<close>

definition lp_signed :: "u64 \<Rightarrow> u64 \<Rightarrow> u64 \<Rightarrow> int" where
  "lp_signed uval negstart negmax = (if uval \<ge> negstart then - sint (negmax - uval) - 1 else sint uval)"

definition lp_deliver :: "u8 list option \<Rightarrow> int \<Rightarrow> lp_got option" where
  "lp_deliver intbuf val =
     (case intbuf of
        Some buf \<Rightarrow> do { (n, buf) \<leftarrow> ll2string buf val; Some (GBuf buf n) }
      | None \<Rightarrow> Some (GInt val))"

text \<open>The bytes \<open>p[1]\<close> to \<open>p[n]\<close> joined with shifts of 0, 8, 16 and so on.\<close>

definition uval_le :: "u8 list \<Rightarrow> int \<Rightarrow> nat \<Rightarrow> u64 option" where
  "uval_le lp p n = map_option le_word (those (map (\<lambda>i. byte_at lp (p + 1 + int i)) [0..<n]))"

text \<open>The second result is what \<open>*entry_size\<close> is set to; an unknown encoding leaves it as it was.\<close>

definition lpGetWithSize :: "u8 list \<Rightarrow> int \<Rightarrow> u8 list option \<Rightarrow> (lp_got \<times> u64 option) option" where
  "lpGetWithSize lp p intbuf =
     (let done = (\<lambda>uval negstart negmax size. do { r \<leftarrow> lp_deliver intbuf (lp_signed uval negstart negmax); Some (r, size) }) in
      do {
        b \<leftarrow> byte_at lp p;
        if IS_7BIT_UINT b then done (ucast (b AND 0x7f)) (- 1) 0 (Some 2)
        else if IS_6BIT_STR b then
          do { n \<leftarrow> STR_LEN_6BIT lp p; let count = ucast n;
               Some (GStr (p + 1) (uint n), Some (1 + count + lpEncodeBacklenBytes (count + 1))) }
        else if IS_13BIT_INT b then
          do { b1 \<leftarrow> byte_at lp (p + 1);
               done (push_bit 8 (ucast (b AND 0x1f)) OR ucast b1) (2 ^ 12) 8191 (Some 3) }
        else if IS_16BIT_INT b then do { uval \<leftarrow> uval_le lp p 2; done uval (2 ^ 15) 0xFFFF (Some 4) }
        else if IS_24BIT_INT b then do { uval \<leftarrow> uval_le lp p 3; done uval (2 ^ 23) 0xFFFFFF (Some 5) }
        else if IS_32BIT_INT b then do { uval \<leftarrow> uval_le lp p 4; done uval (2 ^ 31) 0xFFFFFFFF (Some 6) }
        else if IS_64BIT_INT b then do { uval \<leftarrow> uval_le lp p 8; done uval (2 ^ 63) (- 1) (Some 10) }
        else if IS_12BIT_STR b then
          do { n \<leftarrow> STR_LEN_12BIT lp p; let count = ucast n;
               Some (GStr (p + 2) (uint n), Some (2 + count + lpEncodeBacklenBytes (count + 2))) }
        else if IS_32BIT_STR b then
          do { n \<leftarrow> STR_LEN_32BIT lp p; let count = ucast n;
               Some (GStr (p + 5) (uint n), Some (5 + count + lpEncodeBacklenBytes (count + 5))) }
        else done (12345678900000000 + ucast b) (- 1) 0 None
      })"

definition lpGetWithBuf :: "u8 list \<Rightarrow> int \<Rightarrow> u8 list option \<Rightarrow> lp_got option" where
  "lpGetWithBuf lp p intbuf =
     (let done = (\<lambda>uval negstart negmax. lp_deliver intbuf (lp_signed uval negstart negmax)) in
      do {
        encoding \<leftarrow> byte_at lp p;
        if IS_6BIT_STR encoding then do { n \<leftarrow> STR_LEN_6BIT lp p; Some (GStr (p + 1) (uint n)) }
        else if IS_12BIT_STR encoding then do { n \<leftarrow> STR_LEN_12BIT lp p; Some (GStr (p + 2) (uint n)) }
        else if IS_32BIT_STR encoding then do { n \<leftarrow> STR_LEN_32BIT lp p; Some (GStr (p + 5) (uint n)) }
        else if IS_7BIT_UINT encoding then done (ucast (encoding AND 0x7f)) (- 1) 0
        else if IS_13BIT_INT encoding then
          do { b1 \<leftarrow> byte_at lp (p + 1); done (push_bit 8 (ucast (encoding AND 0x1f)) OR ucast b1) (2 ^ 12) 8191 }
        else if IS_16BIT_INT encoding then do { uval \<leftarrow> uval_le lp p 2; done uval (2 ^ 15) 0xFFFF }
        else if IS_24BIT_INT encoding then do { uval \<leftarrow> uval_le lp p 3; done uval (2 ^ 23) 0xFFFFFF }
        else if IS_32BIT_INT encoding then do { uval \<leftarrow> uval_le lp p 4; done uval (2 ^ 31) 0xFFFFFFFF }
        else if IS_64BIT_INT encoding then do { uval \<leftarrow> uval_le lp p 8; done uval (2 ^ 63) (- 1) }
        else done (12345678900000000 + ucast encoding) (- 1) 0
      })"

definition lpGet :: "u8 list \<Rightarrow> int \<Rightarrow> u8 list option \<Rightarrow> lp_got option" where
  "lpGet lp p intbuf = lpGetWithBuf lp p intbuf"

text \<open>\<open>*slen\<close> is a 32-bit number.\<close>

definition lpGetValue :: "u8 list \<Rightarrow> int \<Rightarrow> lp_got option" where
  "lpGetValue lp p =
     do {
       r \<leftarrow> lpGet lp p None;
       Some (case r of GStr q len \<Rightarrow> GStr q (uint (word_of_int len :: u32)) | _ \<Rightarrow> r)
     }"

definition lpGetIntegerValue :: "u8 list \<Rightarrow> int \<Rightarrow> int option option" where
  "lpGetIntegerValue lp p =
     do { r \<leftarrow> lpGet lp p None; Some (case r of GInt v \<Rightarrow> Some v | _ \<Rightarrow> None) }"

definition lpEntrySizeInteger :: "int \<Rightarrow> u64" where
  "lpEntrySizeInteger lval =
     (let enclen = w64 (length (lpEncodeIntegerGetType lval)) in enclen + lpEncodeBacklenBytes enclen)"

definition lpEstimateBytesRepeatedInteger :: "int \<Rightarrow> u64 \<Rightarrow> u64" where
  "lpEstimateBytesRepeatedInteger lval rep = 6 + lpEntrySizeInteger lval * rep + 1"

end
