(* ===== verification/Listpack_Codec.thy ===== *)
theory Listpack_Codec
  imports Listpack_Entry
begin

text \<open>
  The encoding of one element and its inverse. What an entry stands for is the string that a read
  returns; the entry that the code writes for a string is read back as that string, has the length
  that the first bytes tell, and ends in that length.
\<close>

section \<open>Integers in strings\<close>

lemma lpStringToInt64_loop_eq: "lpStringToInt64_loop v s = string2ll_loop v s"
  by (induction v s rule: lpStringToInt64_loop.induct) (simp_all add: ULLONG_MAX_def Let_def)

lemma lpStringToInt64_eq: "lpStringToInt64 s = string2ll s"
  by (auto simp: lpStringToInt64_def string2ll_def string2ll_unsigned_def lpStringToInt64_loop_eq Let_def LONG_STR_SIZE_def
      split: list.splits)

section \<open>Accesses inside a larger buffer\<close>

text \<open>\<open>y\<close> returns what \<open>x\<close> returns, changed by \<open>f\<close>, whenever \<open>x\<close> does not fault.\<close>

definition le_via :: "('a \<Rightarrow> 'b) \<Rightarrow> 'a option \<Rightarrow> 'b option \<Rightarrow> bool" where
  "le_via f x y \<longleftrightarrow> (\<forall>v. x = Some v \<longrightarrow> y = Some (f v))"

abbreviation le_opt :: "'a option \<Rightarrow> 'a option \<Rightarrow> bool" where
  "le_opt \<equiv> le_via (\<lambda>x. x)"

lemma le_viaD: "le_via f x y \<Longrightarrow> x = Some v \<Longrightarrow> y = Some (f v)"
  by (simp add: le_via_def)

lemma le_via_Some: "b = f a \<Longrightarrow> le_via f (Some a) (Some b)"
  by (simp add: le_via_def)

lemma le_via_bind: "le_opt x y \<Longrightarrow> (\<And>v. le_via f (g v) (h v)) \<Longrightarrow> le_via f (x \<bind> g) (y \<bind> h)"
  by (auto simp: le_via_def bind_eq_Some_conv)

lemma le_via_if: "(c \<Longrightarrow> le_via f a a') \<Longrightarrow> (\<not> c \<Longrightarrow> le_via f b b') \<Longrightarrow> le_via f (if c then a else b) (if c then a' else b')"
  by simp

lemmas le_via_rules = le_via_bind le_via_if le_via_Some

definition part_of :: "u8 list \<Rightarrow> int \<Rightarrow> u8 list \<Rightarrow> bool" where
  "part_of e k lp \<longleftrightarrow> (\<forall>p. le_opt (byte_at e p) (byte_at lp (k + p)))"

lemma part_of_append: "part_of e (int (length pre)) (pre @ e @ post)"
  by (auto simp: part_of_def le_via_def byte_at_def nat_add_distrib nth_append split: if_splits)

lemma part_of_byte:
  "part_of e k lp \<Longrightarrow> le_opt (byte_at e p) (byte_at lp (k + p))"
  "part_of e k lp \<Longrightarrow> le_opt (byte_at e (p + i)) (byte_at lp (k + p + i))"
  "part_of e k lp \<Longrightarrow> le_opt (byte_at e (p - i)) (byte_at lp (k + p - i))"
  by (simp_all add: part_of_def add.assoc add_diff_eq [symmetric])

lemma those_Some_iff: "those xs = Some ys \<longleftrightarrow> xs = map Some ys"
  by (induction xs arbitrary: ys) (auto split: option.splits)

lemma le_opt_those: "(\<And>i. i \<in> set is \<Longrightarrow> le_opt (f i) (g i)) \<Longrightarrow> le_opt (those (map f is)) (those (map g is))"
  by (induction "is") (auto simp: le_via_def split: option.splits)

lemma le_opt_map: "le_opt x y \<Longrightarrow> le_opt (map_option f x) (map_option f y)"
  by (auto simp: le_via_def)

lemma part_of_reads:
  assumes "part_of e k lp"
  shows "le_opt (STR_LEN_6BIT e p) (STR_LEN_6BIT lp (k + p))"
    and "le_opt (STR_LEN_12BIT e p) (STR_LEN_12BIT lp (k + p))"
    and "le_opt (STR_LEN_32BIT e p) (STR_LEN_32BIT lp (k + p))"
    and "le_opt (uval_le e p m) (uval_le lp (k + p) m)"
  unfolding STR_LEN_6BIT_def STR_LEN_12BIT_def STR_LEN_32BIT_def uval_le_def add.assoc [of k p]
  by (intro le_via_rules le_opt_map le_opt_those part_of_byte [OF assms] refl)+

lemma part_of_size:
  assumes "part_of e k lp"
  shows "le_opt (lpCurrentEncodedSizeUnsafe e p) (lpCurrentEncodedSizeUnsafe lp (k + p))"
  unfolding lpCurrentEncodedSizeUnsafe_def
  by (intro le_via_rules part_of_reads part_of_byte assms refl)

lemma part_of_backlen:
  assumes "part_of e k lp"
  shows "le_opt (lpDecodeBacklen e p) (lpDecodeBacklen lp (k + p))"
  unfolding lpDecodeBacklen_def Let_def
  by (intro le_via_rules part_of_byte assms refl)

text \<open>A pointer that a read returns moves with the entry.\<close>

definition shift_got :: "int \<Rightarrow> lp_got \<Rightarrow> lp_got" where
  "shift_got k r = (case r of GStr q n \<Rightarrow> GStr (k + q) n | _ \<Rightarrow> r)"

lemma le_via_deliver:
  "le_via (shift_got k) (lp_deliver buf v) (lp_deliver buf v)"
  "le_via (map_prod (shift_got k) id) (lp_deliver buf v \<bind> (\<lambda>r. Some (r, sz))) (lp_deliver buf v \<bind> (\<lambda>r. Some (r, sz)))"
  by (auto simp: le_via_def lp_deliver_def shift_got_def bind_eq_Some_conv split: option.splits)

lemma part_of_get:
  assumes "part_of e k lp"
  shows "le_via (shift_got k) (lpGetWithBuf e p buf) (lpGetWithBuf lp (k + p) buf)"
  unfolding lpGetWithBuf_def Let_def
  by (intro le_via_deliver le_via_rules part_of_reads part_of_byte assms refl) (simp_all add: shift_got_def)

lemma part_of_get_size:
  assumes "part_of e k lp"
  shows "le_via (map_prod (shift_got k) id) (lpGetWithSize e p buf) (lpGetWithSize lp (k + p) buf)"
  unfolding lpGetWithSize_def Let_def
  by (intro le_via_deliver le_via_rules part_of_reads part_of_byte assms refl) (simp_all add: shift_got_def)

section \<open>Integers\<close>

lemma byte_at_Cons: "byte_at (b # bs) 0 = Some b" "0 < p \<Longrightarrow> byte_at (b # bs) p = byte_at bs (p - 1)"
  by (auto simp: byte_at_def nth_Cons' nat_diff_distrib)

lemma uval_le_bytes: "uval_le (b # le_bytes n v @ bs) 0 n = Some (take_bit (8 * n) v)"
proof -
  have "map (\<lambda>i. byte_at (b # le_bytes n v @ bs) (0 + 1 + int i)) [0..<n] = map Some (le_bytes n v)"
    by (rule nth_equalityI) (auto simp: byte_at_def nth_append nat_add_distrib)
  then have "those (map (\<lambda>i. byte_at (b # le_bytes n v @ bs) (0 + 1 + int i)) [0..<n]) = Some (le_bytes n v)"
    by (simp add: those_Some_iff)
  then show ?thesis by (simp only: uval_le_def) (simp add: le_word_le_bytes)
qed

lemma uint_word: "0 \<le> z \<Longrightarrow> z < 2 ^ LENGTH('a) \<Longrightarrow> uint (word_of_int z :: 'a::len word) = z"
  by (subst uint_word_of_int_eq) (rule take_bit_int_eq_self)

lemma sint_word: "- (2 ^ 63) \<le> z \<Longrightarrow> z < 2 ^ 63 \<Longrightarrow> sint (word_of_int z :: u64) = z"
  by (subst signed_of_int) (simp add: signed_take_bit_int_eq_self)

text \<open>The two's complement of \<open>v\<close> in \<open>n\<close> bits, as the code computes it.\<close>

lemma lp_signed_complement:
  assumes "- (2 ^ k) \<le> v" "v < 2 ^ k" "k \<le> 63" "negstart = 2 ^ k" "negmax = 2 * 2 ^ k - 1"
  shows "lp_signed (word_of_int (if v < 0 then 2 * 2 ^ k + v else v)) negstart negmax = v"
proof -
  have k: "(2 :: int) ^ k \<le> 2 ^ 63" using assms(3) by (intro power_increasing) auto
  have ns: "uint negstart = 2 ^ k"
    using k assms(3) uint_word_of_int_eq [where 'a = 64, of "2 ^ k"] by (simp add: assms(4) take_bit_int_eq_self)
  show ?thesis
  proof (cases "v < 0")
    case True
    have u: "uint (word_of_int (2 * 2 ^ k + v) :: u64) = 2 * 2 ^ k + v"
      using assms(1) True k by (intro uint_word) auto
    have "negmax - word_of_int (2 * 2 ^ k + v) = word_of_int (- v - 1)"
      by (simp add: assms(5))
    moreover have "sint (word_of_int (- v - 1) :: u64) = - v - 1"
      using assms(1) True k by (intro sint_word) auto
    moreover have "negstart \<le> word_of_int (2 * 2 ^ k + v)"
      unfolding word_le_def u ns using assms(1) by simp
    ultimately show ?thesis using True by (simp only: lp_signed_def if_True)
  next
    case False
    then have u: "uint (word_of_int v :: u64) = v" "sint (word_of_int v :: u64) = v"
      using assms(2) k by (simp_all add: uint_word_of_int_eq take_bit_int_eq_self signed_of_int signed_take_bit_int_eq_self)
    then show ?thesis using False ns assms(2) by (simp add: lp_signed_def word_le_def)
  qed
qed

lemma ff_take: "z AND 0xff = take_bit 8 (z :: 'a::ring_bit_operations)"
  using take_bit_eq_mask [of 8 z] by (simp add: mask_eq_exp_minus_1)

lemma le_bytes_map: "le_bytes n w = map (\<lambda>i. ucast (drop_bit (8 * i) w)) [0..<n]"
  by (induction n arbitrary: w) (simp_all add: map_upt_Suc algebra_simps del: upt_Suc)

lemma le_bytes_int:
  "[b8 (v AND 0xff), b8 (drop_bit 8 v)] = le_bytes 2 (word_of_int v :: u64)"
  "[b8 (v AND 0xff), b8 (drop_bit 8 v AND 0xff), b8 (drop_bit 16 v)] = le_bytes 3 (word_of_int v :: u64)"
  "[b8 (v AND 0xff), b8 (drop_bit 8 v AND 0xff), b8 (drop_bit 16 v AND 0xff), b8 (drop_bit 24 v)] = le_bytes 4 (word_of_int v :: u64)"
  unfolding le_bytes_map ff_take
  by (auto simp: upt_rec bit_simps ac_simps intro!: bit_word_eqI)

lemma le_bytes_word:
  "[ucast (w AND 0xff), ucast (drop_bit 8 w AND 0xff), ucast (drop_bit 16 w AND 0xff), ucast (drop_bit 24 w AND 0xff),
    ucast (drop_bit 32 w AND 0xff), ucast (drop_bit 40 w AND 0xff), ucast (drop_bit 48 w AND 0xff), ucast (drop_bit 56 w)]
   = le_bytes 8 (w :: u64)"
  "[ucast (v AND 0xff), ucast (drop_bit 8 v AND 0xff), ucast (drop_bit 16 v AND 0xff), ucast (drop_bit 24 v AND 0xff)]
   = le_bytes 4 (v :: u32)"
  unfolding le_bytes_map ff_take
  by (auto simp: upt_rec bit_simps intro!: bit_word_eqI)

text \<open>The first byte tells the encodings apart.\<close>

lemma byte_and_high:
  "unat (b AND 0x80 :: u8) = unat b div 128 * 128" "unat (b AND 0xC0 :: u8) = unat b div 64 * 64"
  "unat (b AND 0xE0 :: u8) = unat b div 32 * 32" "unat (b AND 0xF0 :: u8) = unat b div 16 * 16"
proof -
  have m: "(0x80 :: u8) = NOT (mask 7)" "(0xC0 :: u8) = NOT (mask 6)" "(0xE0 :: u8) = NOT (mask 5)" "(0xF0 :: u8) = NOT (mask 4)"
    by (simp_all add: mask_eq_exp_minus_1)
  show "unat (b AND 0x80 :: u8) = unat b div 128 * 128" "unat (b AND 0xC0 :: u8) = unat b div 64 * 64"
    "unat (b AND 0xE0 :: u8) = unat b div 32 * 32" "unat (b AND 0xF0 :: u8) = unat b div 16 * 16"
    unfolding m by (subst unat_and_not_mask; simp)+
qed

lemma unat_byte: "unat (b :: u8) < 256"
  using unsigned_less [where w = b and 'a = nat] by simp

lemma is_iff:
  "IS_7BIT_UINT b \<longleftrightarrow> unat b < 128"
  "IS_6BIT_STR b \<longleftrightarrow> 128 \<le> unat b \<and> unat b < 192"
  "IS_13BIT_INT b \<longleftrightarrow> 192 \<le> unat b \<and> unat b < 224"
  "IS_12BIT_STR b \<longleftrightarrow> 224 \<le> unat b \<and> unat b < 240"
  "IS_32BIT_STR b \<longleftrightarrow> unat b = 240" "IS_16BIT_INT b \<longleftrightarrow> unat b = 241" "IS_24BIT_INT b \<longleftrightarrow> unat b = 242"
  "IS_32BIT_INT b \<longleftrightarrow> unat b = 243" "IS_64BIT_INT b \<longleftrightarrow> unat b = 244" "b = LP_EOF \<longleftrightarrow> unat b = 255"
proof -
  have ff: "b AND 0xFF = b" using take_bit_word_eq_self [of 8 b] by (simp add: ff_take)
  show "IS_7BIT_UINT b \<longleftrightarrow> unat b < 128"
    unfolding IS_7BIT_UINT_def word_unat_eq_iff byte_and_high by (simp add: div_eq_0_iff)
  show "IS_6BIT_STR b \<longleftrightarrow> 128 \<le> unat b \<and> unat b < 192"
    unfolding IS_6BIT_STR_def word_unat_eq_iff byte_and_high by auto
  show "IS_13BIT_INT b \<longleftrightarrow> 192 \<le> unat b \<and> unat b < 224"
    unfolding IS_13BIT_INT_def word_unat_eq_iff byte_and_high by auto
  show "IS_12BIT_STR b \<longleftrightarrow> 224 \<le> unat b \<and> unat b < 240"
    unfolding IS_12BIT_STR_def word_unat_eq_iff byte_and_high by auto
  show "IS_32BIT_STR b \<longleftrightarrow> unat b = 240" "IS_16BIT_INT b \<longleftrightarrow> unat b = 241" "IS_24BIT_INT b \<longleftrightarrow> unat b = 242"
    "IS_32BIT_INT b \<longleftrightarrow> unat b = 243" "IS_64BIT_INT b \<longleftrightarrow> unat b = 244" "b = LP_EOF \<longleftrightarrow> unat b = 255"
    unfolding is_defs ff by (simp_all add: word_unat_eq_iff)
qed

lemma unat_13bit:
  assumes "0 \<le> v" "v < 2 ^ 13"
  shows "unat (b8 (drop_bit 8 v OR 0xC0)) = 192 + nat (v div 256)"
proof -
  have z: "0 \<le> drop_bit 8 v" "drop_bit 8 v < 2 ^ 5"
    using assms by (simp_all add: drop_bit_eq_div)
  have "drop_bit 8 v OR 0xC0 = concat_bit 5 (drop_bit 8 v) 6"
    using z by (simp add: concat_bit_def take_bit_int_eq_self)
  also have "\<dots> = drop_bit 8 v + 192"
    using z by (simp add: concat_bit_eq take_bit_int_eq_self)
  finally have "uint (b8 (drop_bit 8 v OR 0xC0)) = drop_bit 8 v + 192"
    using z by (simp only:) (rule uint_word, auto)
  then show ?thesis
    using z by (simp add: unat_eq_nat_uint drop_bit_eq_div nat_add_distrib)
qed

lemma code_13bit:
  assumes "0 \<le> v" "v < 2 ^ 13"
  shows "push_bit 8 (ucast (b8 (drop_bit 8 v OR 0xC0) AND 0x1f)) OR ucast (b8 (v AND 0xff)) = (word_of_int v :: u64)"
proof -
  have v: "bit v n \<Longrightarrow> n < 13" for n
    using assms take_bit_int_eq_self [of v 13] by (metis bit_take_bit_iff)
  have "b8 (drop_bit 8 v OR 0xC0) AND 0x1f = b8 (drop_bit 8 v)"
  proof (rule bit_word_eqI)
    fix n assume "n < LENGTH(8)"
    then consider "n = 0" | "n = 1" | "n = 2" | "n = 3" | "n = 4" | "n = 5" | "n = 6" | "n = 7" by force
    then show "bit (b8 (drop_bit 8 v OR 0xC0) AND 0x1f) n = bit (b8 (drop_bit 8 v)) n"
      by cases (auto simp: bit_simps dest: v)
  qed
  then show ?thesis
  proof (simp only: ff_take, intro bit_word_eqI)
    fix n assume "n < LENGTH(64)"
    then show "bit (push_bit 8 (ucast (b8 (drop_bit 8 v))) OR ucast (b8 (take_bit 8 v)) :: u64) n = bit (word_of_int v :: u64) n"
      using v [of n] by (cases "n < 8") (auto simp: bit_simps)
  qed
qed

lemma code_7bit: "0 \<le> v \<Longrightarrow> v \<le> 127 \<Longrightarrow> sint (ucast (b8 v AND 0x7f) :: u64) = v"
proof -
  assume v: "0 \<le> v" "v \<le> 127"
  have "b8 v AND 0x7f = b8 (take_bit 7 v)"
    using take_bit_eq_mask [of 7 "b8 v"] by (simp add: mask_eq_exp_minus_1 take_bit_of_int)
  then have "ucast (b8 v AND 0x7f) = (word_of_int v :: u64)"
    using v by (intro word_uint_eqI) (simp add: uint_word_of_int_eq unsigned_ucast_eq take_bit_int_eq_self)
  then show ?thesis using v by (simp add: signed_of_int signed_take_bit_int_eq_self)
qed

definition llong :: "int \<Rightarrow> bool" where
  "llong v \<longleftrightarrow> LLONG_MIN \<le> v \<and> v \<le> LLONG_MAX"

text \<open>The integer encodings, one by one, with what the code reads back from them.\<close>

lemma int_cases:
  assumes "llong v"
  obtains
    (C7) "0 \<le> v" "v \<le> 127" "lpEncodeIntegerGetType v = [b8 v]"
  | (C13) u where "0 \<le> u" "u < 2 ^ 13" "- (2 ^ 12) \<le> v" "v < 2 ^ 12" "u = (if v < 0 then 2 * 2 ^ 12 + v else v)"
      "lpEncodeIntegerGetType v = [b8 (drop_bit 8 u OR 0xC0), b8 (u AND 0xff)]"
  | (CN) k n c where "(k, n, c) \<in> {(15, 2, 0xF1), (23, 3, 0xF2), (31, 4, 0xF3), (63, 8, 0xF4)}" "- (2 ^ k) \<le> v" "v < 2 ^ k"
      "lpEncodeIntegerGetType v = c # le_bytes n (word_of_int (if v < 0 then 2 * 2 ^ k + v else v) :: u64)"
proof -
  consider "0 \<le> v" "v \<le> 127" | "\<not> (0 \<le> v \<and> v \<le> 127)" "- 4096 \<le> v" "v \<le> 4095"
    | "\<not> (- 4096 \<le> v \<and> v \<le> 4095)" "- 32768 \<le> v" "v \<le> 32767"
    | "\<not> (- 32768 \<le> v \<and> v \<le> 32767)" "- 8388608 \<le> v" "v \<le> 8388607"
    | "\<not> (- 8388608 \<le> v \<and> v \<le> 8388607)" "- 2147483648 \<le> v" "v \<le> 2147483647"
    | "\<not> (- 2147483648 \<le> v \<and> v \<le> 2147483647)" by argo
  then show ?thesis
  proof cases
    case 1
    then show ?thesis by (intro C7) (simp_all add: lpEncodeIntegerGetType_def)
  next
    case 2
    then show ?thesis
      by (intro C13 [of "if v < 0 then 2 * 2 ^ 12 + v else v"]) (simp_all add: lpEncodeIntegerGetType_def Let_def)
  next
    case 3
    then show ?thesis by (intro CN [of 15 2 "0xF1"]) (auto simp: lpEncodeIntegerGetType_def Let_def simp flip: le_bytes_int)
  next
    case 4
    then show ?thesis by (intro CN [of 23 3 "0xF2"]) (auto simp: lpEncodeIntegerGetType_def Let_def simp flip: le_bytes_int)
  next
    case 5
    then show ?thesis by (intro CN [of 31 4 "0xF3"]) (auto simp: lpEncodeIntegerGetType_def Let_def simp flip: le_bytes_int)
  next
    case 6
    have "(word_of_int (if v < 0 then 2 * 2 ^ 63 + v else v) :: u64) = word_of_int v" by simp
    with 6 assms show ?thesis
      by (intro CN [of 63 8 "0xF4"]) (auto simp: lpEncodeIntegerGetType_def Let_def llong_def LLONG_MIN_def LLONG_MAX_def simp flip: le_bytes_word)
  qed
qed

lemma int_get:
  assumes "llong v"
  shows "lpGetWithBuf (lpEncodeIntegerGetType v @ rest) 0 None = Some (GInt v)"
    and "lpGetWithSize (lpEncodeIntegerGetType v @ rest) 0 None = Some (GInt v, Some (lpEntrySizeInteger v))"
    and "lpCurrentEncodedSizeUnsafe (lpEncodeIntegerGetType v @ rest) 0 = Some (w32 (length (lpEncodeIntegerGetType v)))"
proof -
  have "lpGetWithBuf (lpEncodeIntegerGetType v @ rest) 0 None = Some (GInt v) \<and>
    lpGetWithSize (lpEncodeIntegerGetType v @ rest) 0 None = Some (GInt v, Some (lpEntrySizeInteger v)) \<and>
    lpCurrentEncodedSizeUnsafe (lpEncodeIntegerGetType v @ rest) 0 = Some (w32 (length (lpEncodeIntegerGetType v)))"
    using assms
  proof (cases rule: int_cases)
    case C7
    have b: "unat (b8 v) < 128"
      using C7 uint_word [of v, where 'a = 8] by (simp add: unat_eq_nat_uint)
    have "unat (ucast (b8 v AND 0x7f) :: u64) < 256"
      using unat_byte [of "b8 v AND 0x7f"] by (simp add: unsigned_ucast_eq take_bit_nat_eq_self)
    then have "\<not> (- 1 :: u64) \<le> ucast (b8 v AND 0x7f)"
      by (simp add: word_le_nat_alt unsigned_minus_1_eq_mask mask_eq_exp_minus_1)
    then show ?thesis
      using b code_7bit [OF C7(1,2)]
      by (simp add: C7(3) lpGetWithBuf_def lpGetWithSize_def lpCurrentEncodedSizeUnsafe_def byte_at_Cons is_iff lp_deliver_def
          lp_signed_def lpEntrySizeInteger_def lpEncodeBacklenBytes_def w64_def w32_def)
  next
    case (C13 u)
    have b: "192 \<le> unat (b8 (drop_bit 8 u OR 0xC0))" "unat (b8 (drop_bit 8 u OR 0xC0)) < 224"
      using C13(1,2) by (simp_all add: unat_13bit)
    have "lp_signed (word_of_int u) 0x1000 8191 = v"
      unfolding C13(5) using C13(3,4) by (intro lp_signed_complement [of 12]) auto
    then show ?thesis
      using b code_13bit [OF C13(1,2)]
      by (simp add: C13(6) lpGetWithBuf_def lpGetWithSize_def lpCurrentEncodedSizeUnsafe_def byte_at_Cons is_iff lp_deliver_def
          lpEntrySizeInteger_def lpEncodeBacklenBytes_def w64_def w32_def)
  next
    case (CN k n c)
    define w where "w = (word_of_int (if v < 0 then 2 * 2 ^ k + v else v) :: u64)"
    have "take_bit (8 * n) (if v < 0 then 2 * 2 ^ k + v else v) = (if v < 0 then 2 * 2 ^ k + v else v)"
      using CN(1-3) by (intro take_bit_int_eq_self) auto
    then have "take_bit (8 * n) w = w"
      unfolding w_def take_bit_of_int by (simp only:)
    then have u: "uval_le (c # le_bytes n w @ rest) 0 n = Some w"
      by (simp add: uval_le_bytes)
    have v: "lp_signed w (2 ^ k) (2 * 2 ^ k - 1) = v"
      unfolding w_def using CN(1-3) by (intro lp_signed_complement) auto
    have max: "(0xFFFFFFFFFFFFFFFF :: u64) = - 1" by simp
    have e: "lpEncodeIntegerGetType v = c # le_bytes n w" using CN(4) by (simp only: w_def)
    show ?thesis
      unfolding e lpEntrySizeInteger_def using CN(1) u v
      by (elim insertE emptyE)
        (simp_all add: lpGetWithBuf_def lpGetWithSize_def lpCurrentEncodedSizeUnsafe_def byte_at_Cons is_iff lp_deliver_def
          lpEncodeBacklenBytes_def w64_def w32_def max)
  qed
  then show "lpGetWithBuf (lpEncodeIntegerGetType v @ rest) 0 None = Some (GInt v)"
    "lpGetWithSize (lpEncodeIntegerGetType v @ rest) 0 None = Some (GInt v, Some (lpEntrySizeInteger v))"
    "lpCurrentEncodedSizeUnsafe (lpEncodeIntegerGetType v @ rest) 0 = Some (w32 (length (lpEncodeIntegerGetType v)))"
    by simp_all
qed

lemma length_int_enc: "llong v \<Longrightarrow> 0 < length (lpEncodeIntegerGetType v) \<and> length (lpEncodeIntegerGetType v) \<le> 9"
  by (simp add: lpEncodeIntegerGetType_def Let_def)

section \<open>Strings\<close>

lemma bit_bound: "unat (v :: 'a::len word) < 2 ^ k \<Longrightarrow> bit v n \<Longrightarrow> n < k"
proof -
  assume "unat v < 2 ^ k" "bit v n"
  then have "bit (take_bit k (unat v)) n" by (simp add: take_bit_nat_eq_self bit_unsigned_iff bit_imp_le_length)
  then show "n < k" by (simp add: bit_take_bit_iff)
qed

lemma or_high:
  assumes "\<And>n. bit a n \<Longrightarrow> n < k"
  shows "a OR push_bit k b = a + push_bit k (b :: 'a::len word)"
  by (rule disjunctive_add [symmetric]) (use assms in \<open>auto simp: bit_push_bit_iff not_le [symmetric]\<close>)

lemma unat_and_low:
  "unat (b AND 0x3F :: u8) = unat b mod 64" "unat (b AND 0xF :: u8) = unat b mod 16"
  using take_bit_eq_mask [of 6 b] take_bit_eq_mask [of 4 b] unsigned_take_bit_eq [of 6 b, where 'a = nat] unsigned_take_bit_eq [of 4 b, where 'a = nat]
  by (simp_all add: mask_eq_exp_minus_1 take_bit_eq_mod)

lemma unat_ucast_u8: "unat (ucast (x :: u32) :: u8) = unat x mod 256"
  by (simp add: unsigned_ucast_eq take_bit_eq_mod)

lemma str_code_6:
  assumes "len < (64 :: u32)"
  shows "unat (ucast (len OR 0x80) :: u8) = 128 + unat len" and "ucast ((ucast (len OR 0x80) :: u8) AND 0x3F) = len"
proof -
  have l: "unat len < 64" using assms by (simp add: word_less_nat_alt)
  have "len OR push_bit 7 1 = len + push_bit 7 1"
    using l bit_bound [of len 7] by (intro or_high) simp
  then have "unat (len OR 0x80) = 128 + unat len"
    using l by (simp add: unat_word_ariths)
  then show b: "unat (ucast (len OR 0x80) :: u8) = 128 + unat len"
    using l by (simp add: unat_ucast_u8)
  show "ucast ((ucast (len OR 0x80) :: u8) AND 0x3F) = len"
  proof -
    have m: "x < 64 \<Longrightarrow> (128 + x) mod 64 = x" for x :: nat using mod_mult_self3 [of 2 64 x] by simp
    have "unat ((ucast (len OR 0x80) :: u8) AND 0x3F) = unat len" using m [OF l] by (simp only: unat_and_low b)
    then show ?thesis using l by (simp only: word_unat_eq_iff unsigned_ucast_eq) (simp add: take_bit_nat_eq_self)
  qed
qed

lemma str_code_12:
  assumes "len < (4096 :: u32)"
  shows "unat (ucast (drop_bit 8 len OR 0xE0) :: u8) = 224 + unat len div 256"
    and "push_bit 8 (ucast ((ucast (drop_bit 8 len OR 0xE0) :: u8) AND 0xF)) OR ucast (ucast (len AND 0xff) :: u8) = len"
proof -
  have l: "unat len < 4096" using assms by (simp add: word_less_nat_alt)
  have d: "unat (drop_bit 8 len) = unat len div 256" by (simp add: drop_bit_eq_div unat_div)
  have "drop_bit 8 len OR push_bit 5 7 = drop_bit 8 len + push_bit 5 7"
    using l bit_bound [of "drop_bit 8 len" 5] by (intro or_high) (simp add: d)
  then have "unat (drop_bit 8 len OR 0xE0) = 224 + unat len div 256"
    using l by (simp add: unat_word_ariths d)
  then show b: "unat (ucast (drop_bit 8 len OR 0xE0) :: u8) = 224 + unat len div 256"
    using l by (simp add: unat_ucast_u8)
  have low: "unat (ucast (ucast (len AND 0xff) :: u8) :: u32) = unat len mod 256"
    by (simp add: ff_take unsigned_ucast_eq unsigned_take_bit_eq take_bit_eq_mod unat_mod)
  have high: "unat (ucast ((ucast (drop_bit 8 len OR 0xE0) :: u8) AND 0xF) :: u32) = unat len div 256"
  proof -
    have m: "x < 16 \<Longrightarrow> (224 + x) mod 16 = x" for x :: nat using mod_mult_self3 [of 14 16 x] by simp
    have "unat ((ucast (drop_bit 8 len OR 0xE0) :: u8) AND 0xF) = unat len div 256"
      using m [of "unat len div 256"] l by (simp only: unat_and_low b)
    then show ?thesis using l by (simp only: unsigned_ucast_eq) (simp add: take_bit_nat_eq_self)
  qed
  have "ucast (ucast (len AND 0xff) :: u8) OR push_bit 8 (ucast ((ucast (drop_bit 8 len OR 0xE0) :: u8) AND 0xF)) =
      ucast (ucast (len AND 0xff) :: u8) + push_bit 8 (ucast ((ucast (drop_bit 8 len OR 0xE0) :: u8) AND 0xF) :: u32)"
    using bit_bound [of "ucast (ucast (len AND 0xff) :: u8) :: u32" 8] by (intro or_high) (simp add: low)
  moreover have "unat (ucast (ucast (len AND 0xff) :: u8) + push_bit 8 (ucast ((ucast (drop_bit 8 len OR 0xE0) :: u8) AND 0xF) :: u32)) = unat len"
    using l by (simp add: push_bit_eq_mult unat_word_ariths low high)
  ultimately show "push_bit 8 (ucast ((ucast (drop_bit 8 len OR 0xE0) :: u8) AND 0xF)) OR ucast (ucast (len AND 0xff) :: u8) = len"
    by (simp only: word_unat_eq_iff or.commute [of "push_bit 8 _"])
qed

lemma str_code_32:
  "ucast (ucast (len AND 0xff) :: u8) OR push_bit 8 (ucast (ucast (drop_bit 8 len AND 0xff) :: u8)) OR
   push_bit 16 (ucast (ucast (drop_bit 16 len AND 0xff) :: u8)) OR push_bit 24 (ucast (ucast (drop_bit 24 len AND 0xff) :: u8)) = (len :: u32)"
  (is "?l = _")
proof (rule bit_word_eqI)
  fix n assume "n < LENGTH(32)"
  then consider "n < 8" | "8 \<le> n" "n < 16" | "16 \<le> n" "n < 24" | "24 \<le> n" "n < 32" by force
  then show "bit ?l n = bit len n"
    by cases (auto simp: ff_take bit_simps)
qed

lemma str_get:
  assumes "length s < 2 ^ 32 - 5"
  shows "\<exists>q. lpGetWithBuf (lpEncodeString s @ rest) 0 None = Some (GStr q (int (length s))) \<and>
      bread (lpEncodeString s @ rest) q (length s) = Some s \<and> q + int (length s) = int (length (lpEncodeString s)) \<and>
      lpGetWithSize (lpEncodeString s @ rest) 0 None =
        Some (GStr q (int (length s)), Some (w64 (length (lpEncodeString s)) + lpEncodeBacklenBytes (w64 (length (lpEncodeString s)))))"
    and "lpCurrentEncodedSizeUnsafe (lpEncodeString s @ rest) 0 = Some (w32 (length (lpEncodeString s)))"
proof -
  define len where "len = w32 (length s)"
  have len: "unat len = length s" using assms by (simp add: len_def unat_w32)
  then have "int (unat len) = int (length s)" by simp
  then have u: "uint len = int (length s)" by simp
  have u': "ucast len = w64 (length s)" using assms by (simp add: len_def ucast_w32)
  have w: "w32 (Suc (length s)) = 1 + len" "w32 (Suc (Suc (length s))) = 2 + len" "w32 (Suc (Suc (Suc (Suc (Suc (length s)))))) = 5 + len"
    by (simp_all add: len_def w32_def)
  have w': "w64 (Suc (length s)) = 1 + ucast len" "w64 (Suc (Suc (length s))) = 2 + ucast len"
    "w64 (Suc (Suc (Suc (Suc (Suc (length s)))))) = 5 + ucast len"
    by (simp_all add: u' w64_def)
  have "\<exists>q. lpGetWithBuf (lpEncodeString s @ rest) 0 None = Some (GStr q (int (length s))) \<and>
      bread (lpEncodeString s @ rest) q (length s) = Some s \<and> q + int (length s) = int (length (lpEncodeString s)) \<and>
      lpGetWithSize (lpEncodeString s @ rest) 0 None =
        Some (GStr q (int (length s)), Some (w64 (length (lpEncodeString s)) + lpEncodeBacklenBytes (w64 (length (lpEncodeString s))))) \<and>
      lpCurrentEncodedSizeUnsafe (lpEncodeString s @ rest) 0 = Some (w32 (length (lpEncodeString s)))"
  proof (cases "len < 64")
    case True
    then have "128 + length s < 192" using len by (simp add: word_less_nat_alt)
    then show ?thesis using len True u
      by (intro exI [of _ 1]) (simp add: lpEncodeString_def len_def [symmetric] lpCurrentEncodedSizeUnsafe_def lpGetWithBuf_def
          lpGetWithSize_def byte_at_Cons is_iff str_code_6 STR_LEN_6BIT_def w w' bread_def Let_def add.commute [of 1 "ucast len"])
  next
    case F: False
    show ?thesis
    proof (cases "len < 4096")
      case True
      then have "length s div 256 < 16" using len by (simp add: word_less_nat_alt)
      then show ?thesis using len F True u
        by (intro exI [of _ 2]) (simp add: lpEncodeString_def len_def [symmetric] lpCurrentEncodedSizeUnsafe_def lpGetWithBuf_def
            lpGetWithSize_def byte_at_Cons is_iff str_code_12 STR_LEN_12BIT_def w w' bread_def Let_def add.commute [of 2 "ucast len"])
    next
      case False
      then show ?thesis using len F u
        by (intro exI [of _ 5]) (simp add: lpEncodeString_def len_def [symmetric] lpCurrentEncodedSizeUnsafe_def lpGetWithBuf_def
            lpGetWithSize_def byte_at_Cons is_iff STR_LEN_32BIT_def str_code_32 w w' bread_def Let_def add.commute [of 5 "ucast len"])
    qed
  qed
  then show "\<exists>q. lpGetWithBuf (lpEncodeString s @ rest) 0 None = Some (GStr q (int (length s))) \<and>
      bread (lpEncodeString s @ rest) q (length s) = Some s \<and> q + int (length s) = int (length (lpEncodeString s)) \<and>
      lpGetWithSize (lpEncodeString s @ rest) 0 None =
        Some (GStr q (int (length s)), Some (w64 (length (lpEncodeString s)) + lpEncodeBacklenBytes (w64 (length (lpEncodeString s)))))"
    "lpCurrentEncodedSizeUnsafe (lpEncodeString s @ rest) 0 = Some (w32 (length (lpEncodeString s)))"
    by blast+
qed

section \<open>The length at the end\<close>

lemma length_backlen: "length (lpEncodeBacklen l) = unat (lpEncodeBacklenBytes l)"
  by (simp add: lpEncodeBacklen_def lpEncodeBacklenBytes_def)

lemma and_127: "x AND 127 = take_bit 7 (x :: 'a::ring_bit_operations)"
  using take_bit_eq_mask [of 7 x] by (simp add: mask_eq_exp_minus_1)

lemma and_128: "b AND 128 = 0 \<longleftrightarrow> \<not> bit (b :: 'a::len word) 7"
  using and_exp_eq_0_iff_not_bit [of b 7] by simp

lemma cont_byte:
  "bit (ucast ((x AND 127) OR 128 :: u64) :: u8) 7"
  "ucast ((ucast ((x AND 127) OR 128) :: u8) AND 127) = take_bit 7 (x :: u64)"
proof -
  show "bit (ucast ((x AND 127) OR 128 :: u64) :: u8) 7" by (simp add: bit_simps)
  have "take_bit 7 (take_bit 7 x OR 128) = take_bit 7 x" by simp
  moreover have "ucast (take_bit 7 (ucast z :: u8)) = take_bit 7 z" for z :: u64
    by (rule bit_word_eqI) (auto simp: bit_simps)
  ultimately show "ucast ((ucast ((x AND 127) OR 128) :: u8) AND 127) = take_bit 7 (x :: u64)"
    by (simp only: and_127)
qed

lemma join_bits:
  "take_bit k l OR push_bit k (take_bit 7 (drop_bit k l)) = take_bit (k + 7) (l :: u64)"
  "take_bit k l OR push_bit k (drop_bit k l) = l"
proof -
  show "take_bit k l OR push_bit k (take_bit 7 (drop_bit k l)) = take_bit (k + 7) l"
    by (rule bit_word_eqI) (auto simp: bit_simps)
  show "take_bit k l OR push_bit k (drop_bit k l) = l"
  proof (rule bit_word_eqI)
    show "bit (take_bit k l OR push_bit k (drop_bit k l)) n = bit l n" if "n < LENGTH(64)" for n
      using that by (cases "n < k") (auto simp: bit_simps)
  qed
qed

lemma stop_byte:
  assumes "x \<le> (127 :: u64)"
  shows "\<not> bit (ucast x :: u8) 7" "ucast ((ucast x :: u8) AND 127) = x"
proof -
  have n: "bit x n \<Longrightarrow> n < 7" for n
    using assms bit_bound [of x 7 n] by (simp add: word_le_nat_alt)
  show "\<not> bit (ucast x :: u8) 7" using n [of 7] by (auto simp: bit_simps)
  show "ucast ((ucast x :: u8) AND 127) = x"
    unfolding and_127 by (rule bit_word_eqI) (auto simp: bit_simps dest: n)
qed

lemma shift_bound: "unat l < 128 * 2 ^ k \<Longrightarrow> drop_bit k l \<le> (127 :: u64)"
  using less_mult_imp_div_less [of "unat l" 128 "2 ^ k"]
  by (simp add: word_le_nat_alt unat_drop_bit_eq drop_bit_eq_div [of k "unat l"])

lemma decode_backlen_self:
  assumes "l < 2 ^ 35"
  shows "lpDecodeBacklen (lpEncodeBacklen l) (int (length (lpEncodeBacklen l)) - 1) = Some l"
proof -
  note byte_simps = lpEncodeBacklen_def lpDecodeBacklen_def byte_at_def and_128 cont_byte
    join_bits [of 7, simplified] join_bits [of 14, simplified] join_bits [of 21, simplified] join_bits [of 28, simplified]
  consider "l \<le> 127" | "\<not> l \<le> 127" "l \<le> 16383" | "\<not> l \<le> 127" "\<not> l \<le> 16383" "l \<le> 2097151"
    | "\<not> l \<le> 127" "\<not> l \<le> 16383" "\<not> l \<le> 2097151" "l \<le> 268435455"
    | "\<not> l \<le> 127" "\<not> l \<le> 16383" "\<not> l \<le> 2097151" "\<not> l \<le> 268435455" by blast
  then show ?thesis
  proof cases
    case 1
    then show ?thesis by (simp add: byte_simps stop_byte)
  next
    case 2
    then have "drop_bit 7 l \<le> 127" using shift_bound [of l 7] by (simp add: word_le_nat_alt)
    then show ?thesis using 2 by (simp add: byte_simps stop_byte)
  next
    case 3
    then have "drop_bit 14 l \<le> 127" using shift_bound [of l 14] by (simp add: word_le_nat_alt)
    then show ?thesis using 3 by (simp add: byte_simps stop_byte)
  next
    case 4
    then have "drop_bit 21 l \<le> 127" using shift_bound [of l 21] by (simp add: word_le_nat_alt)
    then show ?thesis using 4 by (simp add: byte_simps stop_byte)
  next
    case 5
    have "drop_bit 28 l \<le> 127" using assms shift_bound [of l 28] by (simp add: word_less_nat_alt)
    then show ?thesis using 5 by (simp add: byte_simps stop_byte)
  qed
qed

lemma decode_backlen:
  "l < 2 ^ 35 \<Longrightarrow> lpDecodeBacklen (pre @ lpEncodeBacklen l) (int (length pre + length (lpEncodeBacklen l)) - 1) = Some l"
  using le_viaD [OF part_of_backlen [OF part_of_append] decode_backlen_self, of l pre "[]"] by (simp add: add_diff_eq)

section \<open>Entries\<close>

text \<open>The encoding of a string, the entry that holds it, and the string that an entry holds.\<close>

definition lp_enc :: "u8 list \<Rightarrow> u8 list" where
  "lp_enc s = (case string2ll s of Some v \<Rightarrow> lpEncodeIntegerGetType v | None \<Rightarrow> lpEncodeString s)"

definition lp_entry :: "u8 list \<Rightarrow> u8 list" where
  "lp_entry s = lp_enc s @ lpEncodeBacklen (w64 (length (lp_enc s)))"

definition got_string :: "u8 list \<Rightarrow> lp_got option \<Rightarrow> u8 list option" where
  "got_string lp r =
     (case r of Some (GInt v) \<Rightarrow> Some (dec_int v) | Some (GStr q n) \<Rightarrow> bread lp q (nat n) | _ \<Rightarrow> None)"

definition lp_value :: "u8 list \<Rightarrow> u8 list option" where
  "lp_value e = got_string e (lpGetWithBuf e 0 None)"

text \<open>
  A well-formed entry: its first bytes tell its size, its last ones repeat it, and the element lies inside.
  Integers may use a wider form than needed.
\<close>

definition entry_ok :: "u8 list \<Rightarrow> bool" where
  "entry_ok e \<longleftrightarrow>
     (case lpCurrentEncodedSizeUnsafe e 0 of
        None \<Rightarrow> False
      | Some sz \<Rightarrow>
          hd e \<noteq> LP_EOF \<and> lpCurrentEncodedSizeBytes (hd e) \<noteq> 0 \<and>
          unat (lpCurrentEncodedSizeBytes (hd e)) \<le> unat sz \<and>
          length e = unat sz + unat (lpEncodeBacklenBytes (ucast sz)) \<and>
          lpDecodeBacklen e (int (length e) - 1) = Some (ucast sz) \<and>
          lpGetWithSize e 0 None = map_option (\<lambda>r. (r, Some (w64 (length e)))) (lpGetWithBuf e 0 None) \<and>
          lp_value e \<noteq> None)"

definition lp_storable :: "u8 list \<Rightarrow> bool" where
  "lp_storable s \<longleftrightarrow> length s < 2 ^ 32 - 10"

lemma backlen_bytes_le: "unat (lpEncodeBacklenBytes l) \<le> 5" "0 < unat (lpEncodeBacklenBytes l)"
  by (simp_all add: lpEncodeBacklenBytes_def)

lemma first_byte: "unat b < 245 \<Longrightarrow> b \<noteq> LP_EOF \<and> lpCurrentEncodedSizeBytes b \<noteq> 0"
  by (simp add: lpCurrentEncodedSizeBytes_def is_iff)

lemma int_first:
  assumes "llong v"
  shows "unat (hd (lpEncodeIntegerGetType v)) < 245 \<and> (unat (hd (lpEncodeIntegerGetType v)) < 224 \<or> 240 < unat (hd (lpEncodeIntegerGetType v)))"
  using assms
proof (cases v rule: int_cases)
  case C7
  then have "nat v < 128" "uint (b8 v) = v" using uint_word [of v, where 'a = 8] by auto
  then show ?thesis by (simp add: C7(3) unat_eq_nat_uint)
next
  case (C13 u)
  then have "nat (u div 256) < 32" by simp
  with unat_13bit [OF C13(1,2)] show ?thesis by (simp only: C13(6) list.sel) simp
next
  case (CN k n c)
  then have "unat c < 245 \<and> (unat c < 224 \<or> 240 < unat c)" by auto
  then show ?thesis by (simp only: CN(4) list.sel)
qed

lemma str_first: "unat (hd (lpEncodeString s)) < 245"
proof -
  have "unat (w32 (length s)) div 256 < 16" if "w32 (length s) < 4096"
    using that by (simp add: word_less_nat_alt)
  moreover have "unat (w32 (length s)) < 64" if "w32 (length s) < 64"
    using that by (simp add: word_less_nat_alt)
  ultimately show ?thesis by (auto simp: lpEncodeString_def Let_def str_code_6 str_code_12)
qed

lemma length_str_enc: "length s < length (lpEncodeString s)" "length (lpEncodeString s) \<le> length s + 5"
  by (simp_all add: lpEncodeString_def Let_def)

lemma length_first:
  "IS_12BIT_STR (hd (lpEncodeString s)) \<Longrightarrow> length s + 2 \<le> length (lpEncodeString s)"
  "IS_32BIT_STR (hd (lpEncodeString s)) \<Longrightarrow> length s + 5 \<le> length (lpEncodeString s)"
proof -
  have "unat (w32 (length s)) < 64" if "w32 (length s) < 64"
    using that by (simp add: word_less_nat_alt)
  moreover have "unat (w32 (length s)) div 256 < 16" if "w32 (length s) < 4096"
    using that by (simp add: word_less_nat_alt)
  ultimately show "IS_12BIT_STR (hd (lpEncodeString s)) \<Longrightarrow> length s + 2 \<le> length (lpEncodeString s)"
    "IS_32BIT_STR (hd (lpEncodeString s)) \<Longrightarrow> length s + 5 \<le> length (lpEncodeString s)"
    by (auto simp: lpEncodeString_def Let_def is_iff str_code_6 str_code_12 split: if_splits)
qed

lemma enc_header: "unat (lpCurrentEncodedSizeBytes (hd (lp_enc s))) \<le> length (lp_enc s)"
proof (cases "string2ll s")
  case (Some v)
  then have "llong v" by (simp add: string2ll_iff llong_def)
  with Some int_first [of v] length_int_enc [of v] show ?thesis
    by (auto simp: lp_enc_def lpCurrentEncodedSizeBytes_def is_iff Suc_le_eq)
next
  case None
  then show ?thesis
    using length_first [of s] length_str_enc(1) [of s]
    by (auto simp: lp_enc_def lpCurrentEncodedSizeBytes_def)
qed

lemma enc_facts:
  assumes "lp_storable s"
  shows "0 < length (lp_enc s)" "length (lp_enc s) < 2 ^ 32" "unat (hd (lp_enc s)) < 245"
    "lpCurrentEncodedSizeUnsafe (lp_enc s @ rest) 0 = Some (w32 (length (lp_enc s)))"
    "lpGetWithSize (lp_enc s @ rest) 0 None = map_option
       (\<lambda>r. (r, Some (w64 (length (lp_enc s)) + lpEncodeBacklenBytes (w64 (length (lp_enc s)))))) (lpGetWithBuf (lp_enc s @ rest) 0 None)"
    "got_string (lp_enc s @ rest) (lpGetWithBuf (lp_enc s @ rest) 0 None) = Some s"
proof -
  have "0 < length (lp_enc s) \<and> length (lp_enc s) < 2 ^ 32 \<and> unat (hd (lp_enc s)) < 245 \<and>
    lpCurrentEncodedSizeUnsafe (lp_enc s @ rest) 0 = Some (w32 (length (lp_enc s))) \<and>
    lpGetWithSize (lp_enc s @ rest) 0 None = map_option
       (\<lambda>r. (r, Some (w64 (length (lp_enc s)) + lpEncodeBacklenBytes (w64 (length (lp_enc s)))))) (lpGetWithBuf (lp_enc s @ rest) 0 None) \<and>
    got_string (lp_enc s @ rest) (lpGetWithBuf (lp_enc s @ rest) 0 None) = Some s"
  proof (cases "string2ll s")
    case (Some v)
    then have v: "llong v" "s = dec_int v" by (simp_all add: string2ll_iff llong_def)
    show ?thesis
      using int_get [OF v(1), of rest] int_first [OF v(1)] length_int_enc [OF v(1)] v(2) Some
      by (simp add: lp_enc_def got_string_def lpEntrySizeInteger_def Let_def)
  next
    case None
    have "length s < 2 ^ 32 - 5" using assms by (simp add: lp_storable_def)
    from str_get [OF this, of rest] None show ?thesis
      using str_first [of s] length_str_enc [of s] assms
      by (auto simp: lp_enc_def got_string_def lp_storable_def)
  qed
  then show "0 < length (lp_enc s)" "length (lp_enc s) < 2 ^ 32" "unat (hd (lp_enc s)) < 245"
    "lpCurrentEncodedSizeUnsafe (lp_enc s @ rest) 0 = Some (w32 (length (lp_enc s)))"
    "lpGetWithSize (lp_enc s @ rest) 0 None = map_option
       (\<lambda>r. (r, Some (w64 (length (lp_enc s)) + lpEncodeBacklenBytes (w64 (length (lp_enc s)))))) (lpGetWithBuf (lp_enc s @ rest) 0 None)"
    "got_string (lp_enc s @ rest) (lpGetWithBuf (lp_enc s @ rest) 0 None) = Some s"
    by blast+
qed

lemma entry_value: "lp_storable s \<Longrightarrow> lp_value (lp_entry s) = Some s"
  by (simp add: lp_value_def lp_entry_def enc_facts(6))

lemma entry_ok_entry:
  assumes "lp_storable s"
  shows "entry_ok (lp_entry s)"
proof -
  note f = enc_facts [OF assms]
  let ?n = "length (lp_enc s)"
  have n: "ucast (w32 ?n) = w64 ?n" "unat (w32 ?n) = ?n" "w32 ?n \<noteq> 0"
    using f(1,2) by (simp_all add: ucast_w32 unat_w32 word_unat_eq_iff)
  have "w64 ?n < 2 ^ 35" using f(2) by (simp add: word_less_nat_alt unat_w64)
  then have "lpDecodeBacklen (lp_entry s) (int (length (lp_entry s)) - 1) = Some (w64 ?n)"
    using decode_backlen [of "w64 ?n" "lp_enc s"] by (simp add: lp_entry_def)
  moreover have "hd (lp_entry s) = hd (lp_enc s)" using f(1) by (simp add: lp_entry_def)
  moreover have "w64 (length (lp_entry s)) = w64 ?n + lpEncodeBacklenBytes (w64 ?n)"
    by (simp add: lp_entry_def length_backlen w64_def)
  ultimately show ?thesis
    using f(4,5) first_byte [OF f(3)] n entry_value [OF assms] enc_header [of s]
    by (simp add: entry_ok_def) (simp add: lp_entry_def length_backlen)
qed

end
