(* ===== verification/Listpack.thy ===== *)
theory Listpack
  imports Listpack_Entry
begin

text \<open>
  Listpacks, \<open>src/bench/redis-src/listpack.c\<close>: one allocation with a header (total bytes in four
  bytes, number of elements in two, or 65535 when it is not known), the entries one after the other,
  and a terminator. The state is the list of all bytes of the allocation, which may be more than the
  listpack uses; pointers are offsets. A function returns \<open>None\<close> when an access leaves the allocation
  or an assertion fails; a null pointer is an inner \<open>None\<close>. The allocator is a parameter.
\<close>

section \<open>Header\<close>

definition lpGetTotalBytes :: "u8 list \<Rightarrow> u32 option" where
  "lpGetTotalBytes lp =
     do {
       b0 \<leftarrow> byte_at lp 0; b1 \<leftarrow> byte_at lp 1; b2 \<leftarrow> byte_at lp 2; b3 \<leftarrow> byte_at lp 3;
       Some (ucast b0 OR push_bit 8 (ucast b1) OR push_bit 16 (ucast b2) OR push_bit 24 (ucast b3))
     }"

definition lpGetNumElements :: "u8 list \<Rightarrow> u32 option" where
  "lpGetNumElements lp = do { b4 \<leftarrow> byte_at lp 4; b5 \<leftarrow> byte_at lp 5; Some (ucast b4 OR push_bit 8 (ucast b5)) }"

definition lpSetTotalBytes :: "u8 list \<Rightarrow> u64 \<Rightarrow> u8 list option" where
  "lpSetTotalBytes lp v =
     bwrite lp 0 [ucast (v AND 0xff), ucast (drop_bit 8 v AND 0xff), ucast (drop_bit 16 v AND 0xff), ucast (drop_bit 24 v AND 0xff)]"

definition lpSetNumElements :: "u8 list \<Rightarrow> u64 \<Rightarrow> u8 list option" where
  "lpSetNumElements lp v = bwrite lp 4 [ucast (v AND 0xff), ucast (drop_bit 8 v AND 0xff)]"

definition lpBytes :: "u8 list \<Rightarrow> u64 option" where
  "lpBytes lp = map_option ucast (lpGetTotalBytes lp)"

definition LP_HDR_SIZE :: int where "LP_HDR_SIZE = 6"

definition LP_HDR_NUMELE_UNKNOWN :: u32 where "LP_HDR_NUMELE_UNKNOWN = 0xFFFF"

definition assert_that :: "bool \<Rightarrow> unit option" where
  "assert_that c = (if c then Some () else None)"

definition ASSERT_INTEGRITY :: "u8 list \<Rightarrow> int \<Rightarrow> unit option" where
  "ASSERT_INTEGRITY lp p = do { n \<leftarrow> lpGetTotalBytes lp; assert_that (p \<ge> LP_HDR_SIZE \<and> p < uint n) }"

definition ASSERT_INTEGRITY_LEN :: "u8 list \<Rightarrow> int \<Rightarrow> u32 \<Rightarrow> unit option" where
  "ASSERT_INTEGRITY_LEN lp p len = do { n \<leftarrow> lpGetTotalBytes lp; assert_that (p \<ge> LP_HDR_SIZE \<and> p + uint len < uint n) }"

definition lpSafeToAdd :: "u8 list option \<Rightarrow> u64 \<Rightarrow> bool option" where
  "lpSafeToAdd lp add =
     do {
       len \<leftarrow> (case lp of Some lp \<Rightarrow> lpBytes lp | None \<Rightarrow> Some 0);
       Some (\<not> (add > 2 ^ 30 \<or> len > 2 ^ 30 - add))
     }"

section \<open>Allocation\<close>

text \<open>\<open>None\<close> is a null pointer; a block may be larger than asked for, and its length is what
  \<open>lp_malloc_size\<close> returns.\<close>

record lp_heap =
  lp_malloc :: "nat \<Rightarrow> u8 list option"
  lp_realloc :: "u8 list \<Rightarrow> nat \<Rightarrow> u8 list option"

definition lpNew :: "lp_heap \<Rightarrow> nat \<Rightarrow> u8 list option option" where
  "lpNew A capacity =
     (case lp_malloc A (if capacity > 7 then capacity else 7) of
        None \<Rightarrow> Some None
      | Some lp \<Rightarrow>
          do {
            lp \<leftarrow> lpSetTotalBytes lp 7;
            lp \<leftarrow> lpSetNumElements lp 0;
            lp \<leftarrow> bwrite lp 6 [LP_EOF];
            Some (Some lp)
          })"

definition lpShrinkToFit :: "lp_heap \<Rightarrow> u8 list \<Rightarrow> u8 list option option" where
  "lpShrinkToFit A lp =
     do {
       size \<leftarrow> lpGetTotalBytes lp;
       Some (if unat size < length lp then lp_realloc A lp (unat size) else Some lp)
     }"

definition lpDup :: "lp_heap \<Rightarrow> u8 list \<Rightarrow> u8 list option" where
  "lpDup A lp =
     do {
       lpbytes \<leftarrow> lpBytes lp;
       newlp \<leftarrow> lp_malloc A (unat lpbytes);
       bs \<leftarrow> bread lp 0 (unat lpbytes);
       bwrite newlp 0 bs
     }"

section \<open>Validation\<close>

text \<open>\<open>Some (True, p)\<close> is the return value 1 with \<open>*pp = p\<close>.\<close>

definition OUT_OF_RANGE :: "u64 \<Rightarrow> int \<Rightarrow> bool" where
  "OUT_OF_RANGE lpbytes p \<longleftrightarrow> p < LP_HDR_SIZE \<or> p > uint lpbytes - 1"

definition lpSkip :: "u8 list \<Rightarrow> int \<Rightarrow> int option" where
  "lpSkip lp p =
     do {
       n \<leftarrow> lpCurrentEncodedSizeUnsafe lp p;
       let entrylen = ucast n;
       let entrylen = entrylen + lpEncodeBacklenBytes entrylen;
       Some (p + uint entrylen)
     }"

definition lpValidateFirst :: "u8 list \<Rightarrow> int option option" where
  "lpValidateFirst lp = do { b \<leftarrow> byte_at lp 6; Some (if b = LP_EOF then None else Some 6) }"

definition lpValidateNext :: "u8 list \<Rightarrow> int option \<Rightarrow> u64 \<Rightarrow> (bool \<times> int option) option" where
  "lpValidateNext lp pp lpbytes =
     (case pp of
        None \<Rightarrow> Some (False, pp)
      | Some p \<Rightarrow>
          if OUT_OF_RANGE lpbytes p then Some (False, pp)
          else do {
            b \<leftarrow> byte_at lp p;
            if b = LP_EOF then Some (True, None)
            else
              let lenbytes = lpCurrentEncodedSizeBytes b in
              if lenbytes = 0 then Some (False, pp)
              else if OUT_OF_RANGE lpbytes (p + uint lenbytes) then Some (False, pp)
              else do {
                n \<leftarrow> lpCurrentEncodedSizeUnsafe lp p;
                let entrylen = ucast n;
                let encodedBacklen = lpEncodeBacklenBytes entrylen;
                let entrylen = entrylen + encodedBacklen;
                if OUT_OF_RANGE lpbytes (p + uint entrylen) then Some (False, pp)
                else do {
                  let p = p + uint entrylen;
                  prevlen \<leftarrow> lpDecodeBacklen lp (p - 1);
                  if prevlen + encodedBacklen \<noteq> entrylen then Some (False, pp) else Some (True, Some p)
                }
              }
          })"

definition lpAssertValidEntry :: "u8 list \<Rightarrow> u64 \<Rightarrow> int \<Rightarrow> unit option" where
  "lpAssertValidEntry lp lpbytes p = do { (ok, _) \<leftarrow> lpValidateNext lp (Some p) lpbytes; assert_that ok }"

section \<open>Traversal\<close>

definition lpNextWithBytes :: "u8 list \<Rightarrow> int \<Rightarrow> u64 \<Rightarrow> int option option" where
  "lpNextWithBytes lp p lpbytes =
     do {
       p \<leftarrow> lpSkip lp p;
       b \<leftarrow> byte_at lp p;
       if b = LP_EOF then Some None
       else do { lpAssertValidEntry lp lpbytes p; Some (Some p) }
     }"

definition lpNext :: "u8 list \<Rightarrow> int \<Rightarrow> int option option" where
  "lpNext lp p =
     do {
       p \<leftarrow> lpSkip lp p;
       b \<leftarrow> byte_at lp p;
       if b = LP_EOF then Some None
       else do { n \<leftarrow> lpBytes lp; lpAssertValidEntry lp n p; Some (Some p) }
     }"

definition lpPrev :: "u8 list \<Rightarrow> int \<Rightarrow> int option option" where
  "lpPrev lp p =
     (if p = LP_HDR_SIZE then Some None
      else do {
        let p = p - 1;
        prevlen \<leftarrow> lpDecodeBacklen lp p;
        let prevlen = prevlen + lpEncodeBacklenBytes prevlen;
        let p = p - uint (prevlen - 1);
        n \<leftarrow> lpBytes lp;
        lpAssertValidEntry lp n p;
        Some (Some p)
      })"

definition lpFirst :: "u8 list \<Rightarrow> int option option" where
  "lpFirst lp =
     do {
       let p = LP_HDR_SIZE;
       b \<leftarrow> byte_at lp p;
       if b = LP_EOF then Some None
       else do { n \<leftarrow> lpBytes lp; lpAssertValidEntry lp n p; Some (Some p) }
     }"

definition lpLast :: "u8 list \<Rightarrow> int option option" where
  "lpLast lp = do { n \<leftarrow> lpGetTotalBytes lp; lpPrev lp (uint n - 1) }"

lemma assert_that_iff [simp]: "assert_that c = Some x \<longleftrightarrow> c"
  by (simp add: assert_that_def)

lemma lpAssertValidEntry_range: "lpAssertValidEntry lp n p = Some x \<Longrightarrow> LP_HDR_SIZE \<le> p \<and> p < uint n"
  by (auto simp: lpAssertValidEntry_def lpValidateNext_def OUT_OF_RANGE_def bind_eq_Some_conv split: if_splits)

text \<open>The length of an entry whose encoding has \<open>n\<close> bytes.\<close>

definition entrylen :: "u32 \<Rightarrow> nat" where
  "entrylen n = unat n + unat (lpEncodeBacklenBytes (ucast n))"

lemma uint_entrylen: "uint (ucast (n :: u32) + lpEncodeBacklenBytes (ucast n) :: u64) = int (entrylen n)"
proof -
  have "unat (ucast n + lpEncodeBacklenBytes (ucast n) :: u64) = entrylen n"
    using unat_less32 [of n] by (simp add: entrylen_def unat_word_ariths lpEncodeBacklenBytes_def)
  then have "int (unat (ucast n + lpEncodeBacklenBytes (ucast n) :: u64)) = int (entrylen n)"
    by (simp only:)
  then show ?thesis by simp
qed

lemma entrylen_pos [simp]: "0 < entrylen n"
  by (simp add: entrylen_def lpEncodeBacklenBytes_def)

lemma lpSkip_eq: "lpSkip lp p = map_option (\<lambda>n. p + int (entrylen n)) (lpCurrentEncodedSizeUnsafe lp p)"
  by (cases "lpCurrentEncodedSizeUnsafe lp p") (simp_all add: lpSkip_def Let_def uint_entrylen)

lemma lpSkip_progress: "lpSkip lp p = Some q \<Longrightarrow> p < q"
  by (auto simp: lpSkip_eq)

lemma lpValidateNext_progress:
  assumes "lpValidateNext lp (Some p) n = Some (True, Some q)"
  shows "p < q \<and> q < uint n"
proof -
  obtain m where "q = p + int (entrylen m)" "\<not> OUT_OF_RANGE n q"
    using assms by (auto simp: lpValidateNext_def bind_eq_Some_conv Let_def uint_entrylen split: if_splits)
  then show ?thesis by (simp add: OUT_OF_RANGE_def)
qed

lemma lpBytes_less: "lpBytes lp = Some n \<Longrightarrow> uint n < 2 ^ 32"
proof -
  assume "lpBytes lp = Some n"
  then obtain m :: u32 where n: "n = ucast m" by (auto simp: lpBytes_def)
  have m: "0 \<le> uint m" "uint m < 2 ^ 32" using unsigned_less [of m, where 'a = int] by simp_all
  then have "uint n = uint m" by (simp add: n unsigned_ucast_eq take_bit_int_eq_self)
  then show ?thesis using m by simp
qed

lemma lpNext_progress: "lpNext lp p = Some (Some q) \<Longrightarrow> p < q \<and> q < 2 ^ 32"
  using lpAssertValidEntry_range lpBytes_less
  by (fastforce simp: lpNext_def bind_eq_Some_conv split: if_splits dest: lpSkip_progress)

function lpLength_loop :: "u8 list \<Rightarrow> int option \<Rightarrow> u32 \<Rightarrow> u32 option" where
  "lpLength_loop lp None count = Some count"
| "lpLength_loop lp (Some p) count =
     (case lpNext lp p of
        None \<Rightarrow> None
      | Some q \<Rightarrow> lpLength_loop lp q (count + 1))"
  by pat_completeness auto
termination
  by (relation "measure (\<lambda>(lp, q, count). case q of None \<Rightarrow> 0 | Some p \<Rightarrow> nat (2 ^ 32 + 1 - p) + 1)")
    (auto split: option.splits dest: lpNext_progress)

definition lpLength :: "u8 list \<Rightarrow> (u32 \<times> u8 list) option" where
  "lpLength lp =
     do {
       numele \<leftarrow> lpGetNumElements lp;
       if numele \<noteq> LP_HDR_NUMELE_UNKNOWN then Some (numele, lp)
       else do {
         p \<leftarrow> lpFirst lp;
         count \<leftarrow> lpLength_loop lp p 0;
         lp \<leftarrow> (if count < LP_HDR_NUMELE_UNKNOWN then lpSetNumElements lp (ucast count) else Some lp);
         Some (count, lp)
       }
     }"

text \<open>The two loops of \<open>lpSeek\<close>; the number of steps left is \<open>index\<close>, or \<open>- 1 - index\<close>.\<close>

fun seek_forward :: "u8 list \<Rightarrow> nat \<Rightarrow> int option \<Rightarrow> int option option" where
  "seek_forward lp (Suc index) (Some ele) = lpNext lp ele \<bind> seek_forward lp index"
| "seek_forward lp _ ele = Some ele"

fun seek_backward :: "u8 list \<Rightarrow> nat \<Rightarrow> int option \<Rightarrow> int option option" where
  "seek_backward lp (Suc index) (Some ele) = lpPrev lp ele \<bind> seek_backward lp index"
| "seek_backward lp _ ele = Some ele"

definition lpSeek :: "u8 list \<Rightarrow> int \<Rightarrow> int option option" where
  "lpSeek lp index =
     do {
       n \<leftarrow> lpGetNumElements lp;
       let numele = uint n;
       let walk = (\<lambda>forward index.
         if forward then lpFirst lp \<bind> seek_forward lp (nat index)
         else lpLast lp \<bind> seek_backward lp (nat (- 1 - index)));
       if n \<noteq> LP_HDR_NUMELE_UNKNOWN then
         let index = (if index < 0 then numele + index else index) in
         if index < 0 then Some None
         else if index \<ge> numele then Some None
         else if index > numele div 2 then walk False (index - numele)
         else walk True index
       else walk (\<not> index < 0) index
     }"

section \<open>Search\<close>

text \<open>
  The comparison callback has a state of its own; \<open>None\<close> is a fault, \<open>Some (True, u)\<close> the return value 0.
  One round of the loop returns a result or the variables of the next round. The loop might in
  principle not end, which is also \<open>None\<close>.
\<close>

definition find_check :: "u8 list \<Rightarrow> u64 \<Rightarrow> int \<Rightarrow> 'v \<Rightarrow> (int option + int \<times> 'v) option" where
  "find_check lp lp_bytes p v =
     do {
       (if p + 8 \<ge> uint lp_bytes then lpAssertValidEntry lp lp_bytes p
        else assert_that (p \<ge> LP_HDR_SIZE \<and> p < uint lp_bytes));
       b \<leftarrow> byte_at lp p;
       Some (if b = LP_EOF then Inl None else Inr (p, v))
     }"

text \<open>
  One round of the search. The counter of the entries to skip is an \<open>int\<close> in the code and is loaded from an
  \<open>unsigned int\<close>; it is a natural number here, which is the same below \<open>2^31\<close>. The callers skip at most two entries.
\<close>

definition find_round ::
  "u8 list \<Rightarrow> ('u \<Rightarrow> int \<Rightarrow> lp_got \<Rightarrow> (bool \<times> 'u) option) \<Rightarrow> nat \<Rightarrow> u64 \<Rightarrow> int \<Rightarrow> nat \<Rightarrow> u64 \<Rightarrow> 'u \<Rightarrow>
   (int option + int \<times> nat \<times> u64 \<times> 'u) option" where
  "find_round lp cmp skip lp_bytes p skipcnt entry_size user =
     (if skipcnt = 0 then
        do {
          (value, size) \<leftarrow> lpGetWithSize lp p None;
          let entry_size = (case size of Some n \<Rightarrow> n | None \<Rightarrow> entry_size);
          (case value of
             GInt _ \<Rightarrow> Some ()
           | _ \<Rightarrow> assert_that (p \<ge> LP_HDR_SIZE \<and> p + uint entry_size < uint lp_bytes));
          (equal, user) \<leftarrow> cmp user p value;
          if equal then Some (Inl (Some p))
          else find_check lp lp_bytes (p + uint entry_size) (skip, entry_size, user)
        }
      else do { p \<leftarrow> lpSkip lp p; find_check lp lp_bytes p (skipcnt - 1, entry_size, user) })"

partial_function (option) lpFind_loop ::
  "u8 list \<Rightarrow> ('u \<Rightarrow> int \<Rightarrow> lp_got \<Rightarrow> (bool \<times> 'u) option) \<Rightarrow> nat \<Rightarrow> u64 \<Rightarrow> int \<times> nat \<times> u64 \<times> 'u \<Rightarrow> int option option" where
  "lpFind_loop lp cmp skip lp_bytes s =
     (case s of
        (p, skipcnt, entry_size, user) \<Rightarrow>
          do {
            r \<leftarrow> find_round lp cmp skip lp_bytes p skipcnt entry_size user;
            case r of Inl res \<Rightarrow> Some res | Inr s \<Rightarrow> lpFind_loop lp cmp skip lp_bytes s
          })"

definition lpFindCbInternal ::
  "u8 list \<Rightarrow> int option \<Rightarrow> 'u \<Rightarrow> ('u \<Rightarrow> int \<Rightarrow> lp_got \<Rightarrow> (bool \<times> 'u) option) \<Rightarrow> nat \<Rightarrow> int option option" where
  "lpFindCbInternal lp p user cmp skip =
     do {
       lp_bytes \<leftarrow> lpBytes lp;
       p \<leftarrow> (case p of None \<Rightarrow> lpFirst lp | Some _ \<Rightarrow> Some p);
       case p of
         None \<Rightarrow> Some None
       | Some p \<Rightarrow> lpFind_loop lp cmp skip lp_bytes (p, 0, 123456789, user)
     }"

definition lpFindCb ::
  "u8 list \<Rightarrow> int option \<Rightarrow> 'u \<Rightarrow> ('u \<Rightarrow> int \<Rightarrow> lp_got \<Rightarrow> (bool \<times> 'u) option) \<Rightarrow> nat \<Rightarrow> int option option" where
  "lpFindCb lp p user cmp skip = lpFindCbInternal lp p user cmp skip"

record lpFindArg =
  find_s :: "u8 list"
  vencoding :: int
  vll :: int

definition lpFindCmp :: "u8 list \<Rightarrow> lpFindArg \<Rightarrow> int \<Rightarrow> lp_got \<Rightarrow> (bool \<times> lpFindArg) option" where
  "lpFindCmp lp arg p value =
     (case value of
        GInt ll \<Rightarrow>
          let arg = (if vencoding arg = 0 then
              (let slen = length (find_s arg) in
               if slen \<ge> 32 \<or> slen = 0 then arg\<lparr>vencoding := 255\<rparr>
               else case lpStringToInt64 (find_s arg) of
                 None \<Rightarrow> arg\<lparr>vencoding := 255\<rparr>
               | Some v \<Rightarrow> arg\<lparr>vencoding := 1, vll := v\<rparr>)
            else arg)
          in Some (vencoding arg \<noteq> 255 \<and> ll = vll arg, arg)
      | GStr q slen \<Rightarrow>
          if slen = int (length (find_s arg)) then
            do { bs \<leftarrow> bread lp q (nat slen); Some (bs = find_s arg, arg) }
          else Some (False, arg)
      | GBuf _ _ \<Rightarrow> None)"

definition lpFind :: "u8 list \<Rightarrow> int option \<Rightarrow> u8 list \<Rightarrow> nat \<Rightarrow> int option option" where
  "lpFind lp p s skip = lpFindCbInternal lp p \<lparr>find_s = s, vencoding = 0, vll = 0\<rparr> (lpFindCmp lp) skip"

text \<open>The cache of \<open>lpCompare\<close> is \<open>(*cached_longval, *cached_valid)\<close>.\<close>

definition lpCompare :: "u8 list \<Rightarrow> int \<Rightarrow> u8 list \<Rightarrow> (int \<times> int) option \<Rightarrow> (bool \<times> (int \<times> int) option) option" where
  "lpCompare lp p s cache =
     do {
       b \<leftarrow> byte_at lp p;
       if b = LP_EOF then Some (False, cache)
       else do {
         value \<leftarrow> lpGet lp p None;
         case value of
           GStr q sz \<Rightarrow>
             if int (length s) = sz then do { bs \<leftarrow> bread lp q (length s); Some (bs = s, cache) } else Some (False, cache)
         | GInt sz \<Rightarrow>
             (case cache of
                Some (longval, valid) \<Rightarrow>
                  let (longval, valid) =
                    (if valid = 0 then
                       (case lpStringToInt64 s of Some v \<Rightarrow> (v, 1) | None \<Rightarrow> (longval, - 1))
                     else (longval, valid))
                  in Some (valid = 1 \<and> sz = longval, Some (longval, valid))
              | None \<Rightarrow> Some (lpStringToInt64 s = Some sz, cache))
         | GBuf _ _ \<Rightarrow> None
       }
     }"

end
