(* ===== verification/Listpack_Update.thy ===== *)
theory Listpack_Update
  imports Listpack
begin

text \<open>
  The functions of \<open>src/bench/redis-src/listpack.c\<close> that change a listpack: insertion, replacement
  and deletion of one element, insertion and deletion of several, deletion of a range, and joining
  two listpacks. A result is \<open>None\<close> for a fault or a failed assertion, \<open>Some None\<close> for \<open>NULL\<close>.
\<close>

definition UINT32_MAX :: u64 where "UINT32_MAX = 0xFFFFFFFF"

text \<open>An integer passed as a size.\<close>

definition size_arg :: "int \<Rightarrow> nat" where "size_arg z = nat (z mod 2 ^ 64)"

datatype lp_where = LP_BEFORE | LP_AFTER | LP_REPLACE

text \<open>What is inserted: \<open>elestr\<close>, \<open>eleint\<close> with the integer already encoded, or neither, a deletion.\<close>

datatype lp_ele = Elestr "u8 list" | Eleint "u8 list" | Eledelete

text \<open>Go on unless the allocator returned \<open>NULL\<close>.\<close>

definition or_null :: "'a option \<Rightarrow> ('a \<Rightarrow> 'b option option) \<Rightarrow> 'b option option" where
  "or_null r f = (case r of None \<Rightarrow> Some None | Some x \<Rightarrow> f x)"

definition grow :: "lp_heap \<Rightarrow> u8 list \<Rightarrow> u64 \<Rightarrow> u64 \<Rightarrow> u8 list option" where
  "grow A lp old_listpack_bytes new_listpack_bytes =
     (if new_listpack_bytes > old_listpack_bytes \<and> unat new_listpack_bytes > length lp
      then lp_realloc A lp (unat new_listpack_bytes) else Some lp)"

text \<open>The number of elements in the header after one was added, or \<open>delete\<close>d.\<close>

definition count_one :: "bool \<Rightarrow> u8 list \<Rightarrow> u8 list option" where
  "count_one delete lp =
     do {
       num_elements \<leftarrow> lpGetNumElements lp;
       if num_elements \<noteq> LP_HDR_NUMELE_UNKNOWN then
         lpSetNumElements lp (ucast (if \<not> delete then num_elements + 1 else num_elements - 1))
       else Some lp
     }"

text \<open>
  \<open>lpInsert\<close> once the sizes are known: make room at \<open>poff\<close> for \<open>enclen\<close> bytes and \<open>backlen\<close>, in place
  of \<open>replaced_len\<close> bytes, store the element, and update the header.
\<close>

definition insert_at ::
  "lp_heap \<Rightarrow> u8 list \<Rightarrow> lp_ele \<Rightarrow> u8 list option \<Rightarrow> u64 \<Rightarrow> u8 list \<Rightarrow> int \<Rightarrow> lp_where \<Rightarrow> u32 \<Rightarrow> u64 \<Rightarrow> u64 \<Rightarrow>
   (u8 list \<times> int option) option option" where
  "insert_at A lp ele eleint enclen backlen poff where_arg replaced_len old_listpack_bytes new_listpack_bytes =
     (let delete = (ele = Eledelete); backlen_size = w64 (length backlen) in
      or_null (grow A lp old_listpack_bytes new_listpack_bytes) (\<lambda>lp.
        do {
          lp \<leftarrow>
            (if where_arg = LP_BEFORE then
               bmove lp (poff + uint (enclen + backlen_size)) poff (size_arg (uint old_listpack_bytes - poff))
             else
               bmove lp (poff + uint (enclen + backlen_size)) (poff + uint replaced_len)
                 (size_arg (uint old_listpack_bytes - poff - uint replaced_len)));
          or_null (if new_listpack_bytes < old_listpack_bytes then lp_realloc A lp (unat new_listpack_bytes) else Some lp) (\<lambda>lp.
            do {
              newp \<leftarrow>
                (if delete then do { b \<leftarrow> byte_at lp poff; Some (if b = LP_EOF then None else Some poff) } else Some (Some poff));
              lp \<leftarrow>
                (if \<not> delete then
                   do {
                     lp \<leftarrow>
                       (case (eleint, ele) of
                          (Some e, _) \<Rightarrow> bwrite lp poff e
                        | (None, Elestr s) \<Rightarrow> bwrite lp poff (lpEncodeString s)
                        | _ \<Rightarrow> None);
                     bwrite lp (poff + uint enclen) backlen
                   }
                 else Some lp);
              lp \<leftarrow> (if where_arg \<noteq> LP_REPLACE \<or> delete then count_one delete lp else Some lp);
              lp \<leftarrow> lpSetTotalBytes lp new_listpack_bytes;
              Some (Some (lp, newp))
            })
        }))"

definition lpInsert :: "lp_heap \<Rightarrow> u8 list \<Rightarrow> lp_ele \<Rightarrow> int \<Rightarrow> lp_where \<Rightarrow> (u8 list \<times> int option) option option" where
  "lpInsert A lp ele p where_arg =
     do {
       let delete = (ele = Eledelete);
       let where_arg = (if delete then LP_REPLACE else where_arg);
       (poff, where_arg) \<leftarrow>
         (if where_arg = LP_AFTER then do { p \<leftarrow> lpSkip lp p; ASSERT_INTEGRITY lp p; Some (p, LP_BEFORE) }
          else Some (p, where_arg));
       let (eleint, enclen) =
         (case ele of
            Elestr s \<Rightarrow> lpEncodeGetType s
          | Eleint e \<Rightarrow> (Some e, w64 (length e))
          | Eledelete \<Rightarrow> (None, 0));
       let backlen = (if \<not> delete then lpEncodeBacklen enclen else []);
       old_listpack_bytes \<leftarrow> lpBytes lp;
       replaced_len \<leftarrow>
         (if where_arg = LP_REPLACE then
            do {
              n \<leftarrow> lpCurrentEncodedSizeUnsafe lp poff;
              let n = n + ucast (lpEncodeBacklenBytes (ucast n));
              ASSERT_INTEGRITY_LEN lp poff n;
              Some n
            }
          else Some 0);
       let new_listpack_bytes = old_listpack_bytes + enclen + w64 (length backlen) - ucast replaced_len;
       if new_listpack_bytes > UINT32_MAX then Some None
       else insert_at A lp ele eleint enclen backlen poff where_arg replaced_len old_listpack_bytes new_listpack_bytes
     }"

definition lpInsertString :: "lp_heap \<Rightarrow> u8 list \<Rightarrow> u8 list \<Rightarrow> int \<Rightarrow> lp_where \<Rightarrow> (u8 list \<times> int option) option option" where
  "lpInsertString A lp s p where_arg = lpInsert A lp (Elestr s) p where_arg"

definition lpInsertInteger :: "lp_heap \<Rightarrow> u8 list \<Rightarrow> int \<Rightarrow> int \<Rightarrow> lp_where \<Rightarrow> (u8 list \<times> int option) option option" where
  "lpInsertInteger A lp lval p where_arg = lpInsert A lp (Eleint (lpEncodeIntegerGetType lval)) p where_arg"

text \<open>The pointer to the terminator, where \<open>lpAppend\<close> and its variants insert.\<close>

definition eofptr :: "u8 list \<Rightarrow> int option" where
  "eofptr lp = do { n \<leftarrow> lpBytes lp; Some (uint n - 1) }"

definition lpAppend :: "lp_heap \<Rightarrow> u8 list \<Rightarrow> u8 list \<Rightarrow> (u8 list \<times> int option) option option" where
  "lpAppend A lp s = do { p \<leftarrow> eofptr lp; lpInsert A lp (Elestr s) p LP_BEFORE }"

definition lpAppendInteger :: "lp_heap \<Rightarrow> u8 list \<Rightarrow> int \<Rightarrow> (u8 list \<times> int option) option option" where
  "lpAppendInteger A lp lval = do { p \<leftarrow> eofptr lp; lpInsertInteger A lp lval p LP_BEFORE }"

definition lpPrepend :: "lp_heap \<Rightarrow> u8 list \<Rightarrow> u8 list \<Rightarrow> (u8 list \<times> int option) option option" where
  "lpPrepend A lp s =
     do { r \<leftarrow> lpFirst lp; case r of None \<Rightarrow> lpAppend A lp s | Some p \<Rightarrow> lpInsert A lp (Elestr s) p LP_BEFORE }"

definition lpPrependInteger :: "lp_heap \<Rightarrow> u8 list \<Rightarrow> int \<Rightarrow> (u8 list \<times> int option) option option" where
  "lpPrependInteger A lp lval =
     do { r \<leftarrow> lpFirst lp; case r of None \<Rightarrow> lpAppendInteger A lp lval | Some p \<Rightarrow> lpInsertInteger A lp lval p LP_BEFORE }"

definition lpReplace :: "lp_heap \<Rightarrow> u8 list \<Rightarrow> int \<Rightarrow> u8 list \<Rightarrow> (u8 list \<times> int option) option option" where
  "lpReplace A lp p s = lpInsert A lp (Elestr s) p LP_REPLACE"

definition lpReplaceInteger :: "lp_heap \<Rightarrow> u8 list \<Rightarrow> int \<Rightarrow> int \<Rightarrow> (u8 list \<times> int option) option option" where
  "lpReplaceInteger A lp p lval = lpInsertInteger A lp lval p LP_REPLACE"

definition lpDelete :: "lp_heap \<Rightarrow> u8 list \<Rightarrow> int \<Rightarrow> (u8 list \<times> int option) option option" where
  "lpDelete A lp p = lpInsert A lp Eledelete p LP_REPLACE"

section \<open>Several elements\<close>

datatype listpackEntry = Sval "u8 list" | Lval int

text \<open>The encoding of one entry of the batch: its bytes, \<open>enclen\<close> and the length at its end.\<close>

definition batch_encode :: "listpackEntry \<Rightarrow> u8 list option \<times> u64 \<times> u8 list" where
  "batch_encode e =
     (let (intenc, enclen) =
        (case e of
           Sval s \<Rightarrow> lpEncodeGetType s
         | Lval v \<Rightarrow> (Some (lpEncodeIntegerGetType v), w64 (length (lpEncodeIntegerGetType v))))
      in (intenc, enclen, lpEncodeBacklen enclen))"

primrec added_len :: "listpackEntry list \<Rightarrow> u64 \<Rightarrow> u64" where
  "added_len [] addedlen = addedlen"
| "added_len (e # es) addedlen =
     (case batch_encode e of (intenc, enclen, backlen) \<Rightarrow> added_len es (addedlen + enclen + w64 (length backlen)))"

primrec batch_store :: "listpackEntry list \<Rightarrow> u8 list \<Rightarrow> int \<Rightarrow> int option \<Rightarrow> (u8 list \<times> int option) option" where
  "batch_store [] lp dst newp = Some (lp, newp)"
| "batch_store (e # es) lp dst newp =
     (case batch_encode e of (intenc, enclen, backlen) \<Rightarrow>
        do {
          lp \<leftarrow>
            (case (intenc, e) of
               (Some b, _) \<Rightarrow> bwrite lp dst b
             | (None, Sval s) \<Rightarrow> bwrite lp dst (lpEncodeString s)
             | _ \<Rightarrow> None);
          lp \<leftarrow> bwrite lp (dst + uint enclen) backlen;
          batch_store es lp (dst + uint enclen + int (length backlen)) (Some dst)
        })"

definition lpBatchInsert ::
  "lp_heap \<Rightarrow> u8 list \<Rightarrow> int \<Rightarrow> lp_where \<Rightarrow> listpackEntry list \<Rightarrow> (u8 list \<times> int option) option option" where
  "lpBatchInsert A lp p where_arg entries =
     do {
       assert_that (where_arg = LP_BEFORE \<or> where_arg = LP_AFTER);
       assert_that (entries \<noteq> []);
       poff \<leftarrow> (if where_arg = LP_AFTER then do { p \<leftarrow> lpSkip lp p; ASSERT_INTEGRITY lp p; Some p } else Some p);
       let addedlen = added_len entries 0;
       old_listpack_bytes \<leftarrow> lpBytes lp;
       let new_listpack_bytes = old_listpack_bytes + addedlen;
       if new_listpack_bytes > UINT32_MAX then Some None
       else or_null (grow A lp old_listpack_bytes new_listpack_bytes) (\<lambda>lp.
         do {
           lp \<leftarrow> bmove lp (poff + uint addedlen) poff (size_arg (uint old_listpack_bytes - poff));
           (lp, newp) \<leftarrow> batch_store entries lp poff None;
           num_elements \<leftarrow> lpGetNumElements lp;
           lp \<leftarrow>
             (if num_elements \<noteq> LP_HDR_NUMELE_UNKNOWN then
                if int (length entries) > uint LP_HDR_NUMELE_UNKNOWN - uint num_elements
                then lpSetNumElements lp (ucast LP_HDR_NUMELE_UNKNOWN)
                else lpSetNumElements lp (ucast (num_elements + w32 (length entries)))
              else Some lp);
           lp \<leftarrow> lpSetTotalBytes lp new_listpack_bytes;
           Some (Some (lp, newp))
         })
     }"

text \<open>The number of entries is an \<open>unsigned long\<close> here and an \<open>unsigned int\<close> in \<open>lpBatchInsert\<close>.\<close>

definition lpBatchAppend :: "lp_heap \<Rightarrow> u8 list \<Rightarrow> listpackEntry list \<Rightarrow> (u8 list \<times> int option) option option" where
  "lpBatchAppend A lp entries = do { p \<leftarrow> eofptr lp; lpBatchInsert A lp p LP_BEFORE (take (length entries mod 2 ^ 32) entries) }"

text \<open>The loop of \<open>lpDeleteRangeWithEntry\<close>: the tail and the number of deleted entries.\<close>

primrec delete_tail :: "u8 list \<Rightarrow> u64 \<Rightarrow> nat \<Rightarrow> int \<Rightarrow> u64 \<Rightarrow> (int \<times> u64) option" where
  "delete_tail lp bytes 0 tail deleted = Some (tail, deleted)"
| "delete_tail lp bytes (Suc num) tail deleted =
     do {
       tail \<leftarrow> lpSkip lp tail;
       b \<leftarrow> byte_at lp tail;
       if b = LP_EOF then Some (tail, deleted + 1)
       else do { lpAssertValidEntry lp bytes tail; delete_tail lp bytes num tail (deleted + 1) }
     }"

definition lpDeleteRangeWithEntry :: "lp_heap \<Rightarrow> u8 list \<Rightarrow> int \<Rightarrow> u64 \<Rightarrow> (u8 list \<times> int option) option option" where
  "lpDeleteRangeWithEntry A lp p num =
     do {
       bytes \<leftarrow> lpBytes lp;
       let eofp = uint bytes - 1;
       if num = 0 then Some (Some (lp, Some p))
       else do {
         (tail, deleted) \<leftarrow> delete_tail lp bytes (unat num) p 0;
         lp \<leftarrow> bmove lp p tail (size_arg (eofp - tail + 1));
         lp \<leftarrow> lpSetTotalBytes lp (bytes - word_of_int (tail - p));
         numele \<leftarrow> lpGetNumElements lp;
         lp \<leftarrow> (if numele \<noteq> LP_HDR_NUMELE_UNKNOWN then lpSetNumElements lp (ucast numele - deleted) else Some lp);
         r \<leftarrow> lpShrinkToFit A lp;
         lp \<leftarrow> r;
         b \<leftarrow> byte_at lp p;
         Some (Some (lp, if b = LP_EOF then None else Some p))
       }
     }"

definition lpDeleteRange :: "lp_heap \<Rightarrow> u8 list \<Rightarrow> int \<Rightarrow> u64 \<Rightarrow> u8 list option option" where
  "lpDeleteRange A lp index num =
     do {
       numele \<leftarrow> lpGetNumElements lp;
       if num = 0 then Some (Some lp)
       else do {
         r \<leftarrow> lpSeek lp index;
         case r of
           None \<Rightarrow> Some (Some lp)
         | Some p \<Rightarrow>
             let index = (if numele \<noteq> LP_HDR_NUMELE_UNKNOWN \<and> index < 0 then uint numele + index else index) in
             if numele \<noteq> LP_HDR_NUMELE_UNKNOWN \<and> ucast numele - word_of_int index \<le> num then
               do {
                 lp \<leftarrow> bwrite lp p [LP_EOF];
                 lp \<leftarrow> lpSetTotalBytes lp (word_of_int (p + 1));
                 lp \<leftarrow> lpSetNumElements lp (word_of_int index);
                 lpShrinkToFit A lp
               }
             else do {
               r \<leftarrow> lpDeleteRangeWithEntry A lp p num;
               Some (map_option fst r)
             }
       }
     }"

text \<open>The loop of \<open>lpBatchDelete\<close>, with the pointers that are left.\<close>

primrec batch_delete_loop :: "int \<Rightarrow> int list \<Rightarrow> u8 list \<Rightarrow> int \<Rightarrow> (u8 list \<times> int) option" where
  "batch_delete_loop lp_end [] lp dst = Some (lp, dst)"
| "batch_delete_loop lp_end (skip # ps) lp dst =
     do {
       b \<leftarrow> byte_at lp skip;
       assert_that (b \<noteq> LP_EOF);
       keep_start \<leftarrow> lpSkip lp skip;
       if ps \<noteq> [] \<and> keep_start = hd ps then batch_delete_loop lp_end ps lp dst
       else do {
         let keep_end = (if ps \<noteq> [] then hd ps else lp_end);
         assert_that (keep_end > keep_start);
         let bytes_to_keep = keep_end - keep_start;
         lp \<leftarrow> bmove lp dst keep_start (size_arg bytes_to_keep);
         batch_delete_loop lp_end ps lp (dst + bytes_to_keep)
       }
     }"

definition lpBatchDelete :: "lp_heap \<Rightarrow> u8 list \<Rightarrow> int list \<Rightarrow> u8 list option option" where
  "lpBatchDelete A lp ps =
     (if ps = [] then Some (Some lp)
      else do {
        total_bytes \<leftarrow> lpBytes lp;
        let lp_end = uint total_bytes;
        e \<leftarrow> byte_at lp (lp_end - 1);
        assert_that (e = LP_EOF);
        (lp, dst) \<leftarrow> batch_delete_loop lp_end ps lp (hd ps);
        let deleted_bytes = word_of_int (lp_end - dst);
        let total_bytes = total_bytes - deleted_bytes;
        e \<leftarrow> byte_at lp (uint total_bytes - 1);
        assert_that (e = LP_EOF);
        lp \<leftarrow> lpSetTotalBytes lp total_bytes;
        numele \<leftarrow> lpGetNumElements lp;
        lp \<leftarrow> (if numele \<noteq> LP_HDR_NUMELE_UNKNOWN then lpSetNumElements lp (ucast numele - w64 (length ps)) else Some lp);
        lpShrinkToFit A lp
      })"

text \<open>Two listpacks joined in the larger one. \<open>lp_realloc\<close> is not checked: a null result is a fault.\<close>

definition merge_join :: "lp_heap \<Rightarrow> u8 list \<Rightarrow> u8 list \<Rightarrow> u8 list option" where
  "merge_join A first second =
     do {
       first_bytes \<leftarrow> lpBytes first;
       (first_len, first) \<leftarrow> lpLength first;
       second_bytes \<leftarrow> lpBytes second;
       (second_len, second) \<leftarrow> lpLength second;
       let append = (first_bytes \<ge> second_bytes);
       let (target, target_bytes, source, source_bytes) =
         (if append then (first, first_bytes, second, second_bytes) else (second, second_bytes, first, first_bytes));
       let lpbytes = first_bytes + second_bytes - 6 - 1;
       assert_that (lpbytes < UINT32_MAX);
       let lplength = ucast first_len + ucast second_len;
       let lplength = (if lplength < 0xFFFF then lplength else 0xFFFF);
       target \<leftarrow> lp_realloc A target (unat lpbytes);
       target \<leftarrow>
         (if append then
            do {
              bs \<leftarrow> bread source LP_HDR_SIZE (unat (source_bytes - 6));
              bwrite target (uint target_bytes - 1) bs
            }
          else
            do {
              target \<leftarrow> bmove target (uint source_bytes - 1) LP_HDR_SIZE (unat (target_bytes - 6));
              bs \<leftarrow> bread source 0 (unat (source_bytes - 1));
              bwrite target 0 bs
            });
       target \<leftarrow> lpSetNumElements target lplength;
       lpSetTotalBytes target lpbytes
     }"

text \<open>
  \<open>None\<close> is a null pointer, \<open>same\<close> says that both arguments are the same listpack. The results are the returned
  pointer and what the two arguments point at afterwards: the joined listpack, and null for the one that is freed.
\<close>

definition lpMerge ::
  "lp_heap \<Rightarrow> bool \<Rightarrow> u8 list option \<Rightarrow> u8 list option \<Rightarrow> (u8 list option \<times> u8 list option \<times> u8 list option) option" where
  "lpMerge A same first second =
     (case (first, second) of
        (Some f, Some s) \<Rightarrow>
          if same then Some (None, first, second)
          else do {
            target \<leftarrow> merge_join A f s;
            first_bytes \<leftarrow> lpBytes f;
            second_bytes \<leftarrow> lpBytes s;
            Some (Some target, if first_bytes \<ge> second_bytes then (Some target, None) else (None, Some target))
          }
      | _ \<Rightarrow> Some (None, first, second))"

section \<open>Integrity of the whole\<close>

text \<open>The callback of \<open>lpValidateIntegrity\<close> is \<open>entry_cb\<close>, \<open>None\<close> for a null pointer; it has a state.\<close>

definition call_cb :: "('u \<Rightarrow> int \<Rightarrow> u32 \<Rightarrow> bool \<times> 'u) option \<Rightarrow> int \<Rightarrow> u32 \<Rightarrow> 'u \<Rightarrow> bool \<times> 'u" where
  "call_cb entry_cb prev numele u = (case entry_cb of None \<Rightarrow> (True, u) | Some cb \<Rightarrow> cb u prev numele)"

function validate_entries ::
  "u8 list \<Rightarrow> u64 \<Rightarrow> ('u \<Rightarrow> int \<Rightarrow> u32 \<Rightarrow> bool \<times> 'u) option \<Rightarrow> u32 \<Rightarrow> int \<Rightarrow> u32 \<Rightarrow> 'u \<Rightarrow> (int \<times> u32) option option" where
  "validate_entries lp bytes entry_cb numele p count u =
     (case byte_at lp p of
        None \<Rightarrow> None
      | Some b \<Rightarrow>
          if b = LP_EOF then Some (Some (p, count))
          else
            (case lpValidateNext lp (Some p) bytes of
               Some (True, Some q) \<Rightarrow>
                 (case call_cb entry_cb p numele u of
                    (ok, u) \<Rightarrow> if ok then validate_entries lp bytes entry_cb numele q (count + 1) u else Some None)
             | Some _ \<Rightarrow> Some None
             | None \<Rightarrow> None))"
  by pat_completeness auto
termination
  by (relation "measure (\<lambda>(lp, bytes, cb, numele, p, count, u). nat (uint bytes - p))") (auto dest!: lpValidateNext_progress)

declare validate_entries.simps [simp del]

text \<open>\<open>sz\<close> is the size of the allocation; \<open>deep\<close> asks for the entries too.\<close>

definition lpValidateIntegrity ::
  "u8 list \<Rightarrow> u64 \<Rightarrow> bool \<Rightarrow> ('u \<Rightarrow> int \<Rightarrow> u32 \<Rightarrow> bool \<times> 'u) option \<Rightarrow> 'u \<Rightarrow> bool option" where
  "lpValidateIntegrity lp sz deep entry_cb u =
     (if sz < 7 then Some False
      else do {
        bytes \<leftarrow> lpBytes lp;
        if bytes \<noteq> sz then Some False
        else do {
          b \<leftarrow> byte_at lp (uint sz - 1);
          if b \<noteq> LP_EOF then Some False
          else if \<not> deep then Some True
          else do {
            numele \<leftarrow> lpGetNumElements lp;
            r \<leftarrow> validate_entries lp bytes entry_cb numele LP_HDR_SIZE 0 u;
            Some (case r of
                None \<Rightarrow> False
              | Some (p, count) \<Rightarrow> p = uint sz - 1 \<and> (numele = LP_HDR_NUMELE_UNKNOWN \<or> numele = count))
          }
        }
      })"

end
