(* ===== verification/Listpack_Spec.thy ===== *)
theory Listpack_Spec
  imports Listpack_Codec Listpack_Update
begin

text \<open>
  What the bytes of a listpack stand for. A listpack represents a list of entries, and through them a
  list of strings. On a representation every traversal succeeds: the pointers are the offsets of the
  entries, walking forward and backward are inverse, a read returns the string of the entry, and the
  number of elements, the element at an index and the search are those of the list.
\<close>

section \<open>Representation\<close>

definition lp_pack :: "nat \<Rightarrow> u8 list list \<Rightarrow> u8 list" where
  "lp_pack num es = le_bytes 4 (w32 (7 + length (concat es))) @ le_bytes 2 (w32 num) @ concat es @ [LP_EOF]"

definition num_ok :: "nat \<Rightarrow> u8 list list \<Rightarrow> bool" where
  "num_ok num es \<longleftrightarrow> num = 65535 \<or> num = length es \<and> num < 65535"

definition lp_rep :: "u8 list \<Rightarrow> nat \<Rightarrow> u8 list list \<Rightarrow> bool" where
  "lp_rep lp num es \<longleftrightarrow>
     list_all entry_ok es \<and> num_ok num es \<and> 7 + length (concat es) < 2 ^ 32 \<and>
     take (7 + length (concat es)) lp = lp_pack num es"

definition lp_repr :: "u8 list \<Rightarrow> u8 list list \<Rightarrow> bool" where
  "lp_repr lp es \<longleftrightarrow> (\<exists>num. lp_rep lp num es)"

definition lp_strings :: "u8 list list \<Rightarrow> u8 list list" where
  "lp_strings es = map (\<lambda>e. the (lp_value e)) es"

text \<open>The offset of the \<open>i\<close>-th entry; that of the terminator when \<open>i\<close> is the number of entries.\<close>

definition lp_off :: "u8 list list \<Rightarrow> nat \<Rightarrow> nat" where
  "lp_off es i = 6 + length (concat (take i es))"

lemma length_pack: "length (lp_pack num es) = 7 + length (concat es)"
  by (simp add: lp_pack_def)

lemma lp_repD:
  assumes "lp_rep lp num es"
  obtains junk where "lp = lp_pack num es @ junk"
  using assms append_take_drop_id [of "7 + length (concat es)" lp] by (metis lp_rep_def)

lemma lp_rep_pack:
  "list_all entry_ok es \<Longrightarrow> num_ok num es \<Longrightarrow> 7 + length (concat es) < 2 ^ 32 \<Longrightarrow> lp_rep (lp_pack num es @ junk) num es"
  by (simp add: lp_rep_def length_pack)

lemma lp_off_Suc: "i < length es \<Longrightarrow> lp_off es (Suc i) = lp_off es i + length (es ! i)"
  by (simp add: lp_off_def take_Suc_conv_app_nth)

lemma lp_off_0 [simp]: "lp_off es 0 = 6"
  by (simp add: lp_off_def)

lemma lp_off_mono: "i \<le> j \<Longrightarrow> lp_off es i \<le> lp_off es j"
proof (induction j)
  case (Suc j)
  then show ?case
    by (cases "i = Suc j"; cases "j < length es") (auto simp: lp_off_Suc le_Suc_eq, auto simp: lp_off_def)
qed simp

lemma lp_off_end: "length es \<le> i \<Longrightarrow> lp_off es i = 6 + length (concat es)"
  by (simp add: lp_off_def)

lemma lp_off_le: "lp_off es i \<le> 6 + length (concat es)"
  using lp_off_mono [of i "max i (length es)" es] by (simp add: lp_off_end)

text \<open>The bytes around an entry.\<close>

lemma lp_split:
  assumes "lp_rep lp num es" "i < length es"
  obtains pre post where "lp = pre @ es ! i @ post" "length pre = lp_off es i"
proof -
  obtain junk where lp: "lp = lp_pack num es @ junk" using lp_repD [OF assms(1)] .
  have "concat es = concat (take i es) @ es ! i @ concat (drop (Suc i) es)"
    using assms(2) by (metis concat.simps(2) concat_append id_take_nth_drop)
  then show thesis
    using that [of "le_bytes 4 (w32 (7 + length (concat es))) @ le_bytes 2 (w32 num) @ concat (take i es)"
        "concat (drop (Suc i) es) @ [LP_EOF] @ junk"]
    by (simp add: lp lp_pack_def lp_off_def)
qed

lemma lp_part:
  "lp_rep lp num es \<Longrightarrow> i < length es \<Longrightarrow> part_of (es ! i) (int (lp_off es i)) lp"
  by (metis lp_split part_of_append)

section \<open>Header\<close>

lemma bytes4: "le_bytes 4 (v :: u32) = [ucast v, ucast (drop_bit 8 v), ucast (drop_bit 16 v), ucast (drop_bit 24 v)]"
  and bytes2: "le_bytes 2 (v :: u32) = [ucast v, ucast (drop_bit 8 v)]"
  by (simp_all add: le_bytes_map upt_rec)

lemma join_bytes:
  "ucast a OR push_bit 8 (ucast b) OR push_bit 16 (ucast c) OR push_bit 24 (ucast d) = (le_word [a, b, c, d] :: u32)"
  "ucast a OR push_bit 8 (ucast b) = (le_word [a, b] :: u32)"
  by (simp_all add: push_bit_or or.assoc)

lemma get_header:
  assumes "lp_rep lp num es"
  shows "lpGetTotalBytes lp = Some (w32 (7 + length (concat es)))" "lpGetNumElements lp = Some (w32 num)"
proof -
  obtain junk where lp: "lp = lp_pack num es @ junk" using lp_repD [OF assms] .
  have "num < 65536 \<Longrightarrow> take_bit 16 (w32 num) = w32 num"
    by (simp add: word_unat_eq_iff unsigned_take_bit_eq take_bit_nat_eq_self unat_w32)
  moreover have "num < 65536" using assms by (auto simp: lp_rep_def num_ok_def)
  ultimately show "lpGetTotalBytes lp = Some (w32 (7 + length (concat es)))" "lpGetNumElements lp = Some (w32 num)"
    using le_word_le_bytes [of 4 "w32 (7 + length (concat es))"] le_word_le_bytes [of 2 "w32 num"]
    by (simp_all only: lpGetTotalBytes_def lpGetNumElements_def lp lp_pack_def bytes4 bytes2 join_bytes)
      (simp_all add: byte_at_Cons join_bytes [symmetric] take_bit_word_eq_self)
qed

lemma get_bytes: "lp_rep lp num es \<Longrightarrow> lpBytes lp = Some (w64 (7 + length (concat es)))"
  by (simp add: lpBytes_def get_header ucast_w32 lp_rep_def)

lemma uint_total: "lp_rep lp num es \<Longrightarrow> uint (w64 (7 + length (concat es))) = int (7 + length (concat es))"
  by (simp add: lp_rep_def unat_w64 uint_nat)

section \<open>Traversal\<close>

lemma entry_okD:
  assumes "entry_ok e"
  obtains sz where "lpCurrentEncodedSizeUnsafe e 0 = Some sz" "length e = entrylen sz"
    "lpDecodeBacklen e (int (length e) - 1) = Some (ucast sz)" "e \<noteq> []" "hd e \<noteq> LP_EOF" "lpCurrentEncodedSizeBytes (hd e) \<noteq> 0"
    "unat (lpCurrentEncodedSizeBytes (hd e)) \<le> length e"
proof -
  obtain sz where sz: "lpCurrentEncodedSizeUnsafe e 0 = Some sz" "length e = entrylen sz"
    "lpDecodeBacklen e (int (length e) - 1) = Some (ucast sz)" "hd e \<noteq> LP_EOF" "lpCurrentEncodedSizeBytes (hd e) \<noteq> 0"
    "unat (lpCurrentEncodedSizeBytes (hd e)) \<le> unat sz"
    using assms by (auto simp: entry_ok_def entrylen_def split: option.splits)
  moreover have "e \<noteq> []" using sz(1) by (auto simp: lpCurrentEncodedSizeUnsafe_def byte_at_def)
  ultimately show thesis using that by (simp add: entrylen_def)
qed

lemma lp_entry_ok: "lp_rep lp num es \<Longrightarrow> i < length es \<Longrightarrow> entry_ok (es ! i)"
  by (simp add: lp_rep_def list_all_length)

lemma byte_at_entry: "lp_rep lp num es \<Longrightarrow> i < length es \<Longrightarrow> byte_at lp (int (lp_off es i)) = Some (hd (es ! i))"
proof -
  assume r: "lp_rep lp num es" and i: "i < length es"
  have "es ! i \<noteq> []" using lp_entry_ok [OF r i] by (rule entry_okD)
  then have "byte_at (es ! i) 0 = Some (hd (es ! i))" by (simp add: byte_at_def hd_conv_nth)
  from le_viaD [OF part_of_byte(1) [OF lp_part [OF r i]] this] show ?thesis by simp
qed

lemma byte_at_append: "byte_at (xs @ y # ys) (int (length xs)) = Some y"
  by (simp add: byte_at_def)

lemma byte_at_end: "lp_rep lp num es \<Longrightarrow> byte_at lp (int (lp_off es (length es))) = Some LP_EOF"
proof -
  assume "lp_rep lp num es"
  then obtain junk where "lp = lp_pack num es @ junk" using lp_repD by metis
  then show ?thesis
    using byte_at_append [of "le_bytes 4 (w32 (7 + length (concat es))) @ le_bytes 2 (w32 num) @ concat es" LP_EOF junk]
    by (simp add: lp_pack_def lp_off_def)
qed

lemma lp_skip:
  assumes "lp_rep lp num es" "i < length es"
  shows "lpSkip lp (int (lp_off es i)) = Some (int (lp_off es (Suc i)))"
proof -
  obtain sz where "lpCurrentEncodedSizeUnsafe (es ! i) 0 = Some sz" "length (es ! i) = entrylen sz"
    using entry_okD [OF lp_entry_ok [OF assms]] by metis
  then show ?thesis
    using le_viaD [OF part_of_size [OF lp_part [OF assms]], of 0 sz] assms(2) by (simp add: lpSkip_eq lp_off_Suc)
qed

lemma lp_in_range: "lp_rep lp num es \<Longrightarrow> \<not> OUT_OF_RANGE (w64 (7 + length (concat es))) (int (lp_off es i))"
  using lp_off_le [of es i] lp_off_mono [of 0 i es]
  by (simp add: OUT_OF_RANGE_def LP_HDR_SIZE_def uint_total del: of_nat_add)

lemma lp_backlen:
  assumes "lp_rep lp num es" "i < length es"
  obtains sz where "lpCurrentEncodedSizeUnsafe lp (int (lp_off es i)) = Some sz" "length (es ! i) = entrylen sz"
    "lpDecodeBacklen lp (int (lp_off es (Suc i)) - 1) = Some (ucast sz)"
proof -
  obtain sz where sz: "lpCurrentEncodedSizeUnsafe (es ! i) 0 = Some sz" "length (es ! i) = entrylen sz"
    "lpDecodeBacklen (es ! i) (int (length (es ! i)) - 1) = Some (ucast sz)"
    using entry_okD [OF lp_entry_ok [OF assms]] by metis
  note part = lp_part [OF assms]
  show thesis
    using that [of sz] le_viaD [OF part_of_size [OF part] sz(1)] le_viaD [OF part_of_backlen [OF part] sz(3)] sz(2) assms(2)
    by (simp add: lp_off_Suc add_diff_eq)
qed

lemma validate_next:
  assumes "lp_rep lp num es" "i < length es"
  shows "lpValidateNext lp (Some (int (lp_off es i))) (w64 (7 + length (concat es))) = Some (True, Some (int (lp_off es (Suc i))))"
proof -
  obtain sz where sz: "lpCurrentEncodedSizeUnsafe lp (int (lp_off es i)) = Some sz" "length (es ! i) = entrylen sz"
    "lpDecodeBacklen lp (int (lp_off es (Suc i)) - 1) = Some (ucast sz)"
    using lp_backlen [OF assms] .
  have e: "hd (es ! i) \<noteq> LP_EOF" "lpCurrentEncodedSizeBytes (hd (es ! i)) \<noteq> 0"
    "unat (lpCurrentEncodedSizeBytes (hd (es ! i))) \<le> length (es ! i)"
    using lp_entry_ok [OF assms] by (auto elim: entry_okD)
  define k where "k = unat (lpCurrentEncodedSizeBytes (hd (es ! i)))"
  have "uint (lpCurrentEncodedSizeBytes (hd (es ! i))) = int k" "k \<le> length (es ! i)" using e by (simp_all add: k_def)
  then have "\<not> OUT_OF_RANGE (w64 (7 + length (concat es))) (int (lp_off es i) + uint (lpCurrentEncodedSizeBytes (hd (es ! i))))"
    using lp_in_range [OF assms(1), of i] lp_in_range [OF assms(1), of "Suc i"] assms(2)
    by (auto simp: OUT_OF_RANGE_def lp_off_Suc)
  moreover have q: "int (lp_off es i) + int (entrylen sz) = int (lp_off es (Suc i))"
    using assms(2) sz(2) by (simp add: lp_off_Suc)
  ultimately show ?thesis
    using byte_at_entry [OF assms] e lp_in_range [OF assms(1)] sz
    by (simp add: lpValidateNext_def Let_def uint_entrylen)
qed

lemma assert_valid:
  assumes "lp_rep lp num es" "i \<le> length es"
  shows "lpAssertValidEntry lp (w64 (7 + length (concat es))) (int (lp_off es i)) = Some ()"
proof (cases "i = length es")
  case True
  then show ?thesis using byte_at_end [OF assms(1)] lp_in_range [OF assms(1), of i]
    by (simp add: lpAssertValidEntry_def lpValidateNext_def assert_that_def)
next
  case False
  then show ?thesis using validate_next [OF assms(1), of i] assms(2) by (simp add: lpAssertValidEntry_def assert_that_def)
qed

text \<open>The pointer that a traversal returns for the \<open>i\<close>-th entry: \<open>NULL\<close> at the end.\<close>

definition lp_ptr :: "u8 list list \<Rightarrow> nat \<Rightarrow> int option" where
  "lp_ptr es i = (if i < length es then Some (int (lp_off es i)) else None)"

lemma eof_iff: "lp_rep lp num es \<Longrightarrow> i \<le> length es \<Longrightarrow> \<exists>b. byte_at lp (int (lp_off es i)) = Some b \<and> (b = LP_EOF \<longleftrightarrow> i = length es)"
  using byte_at_entry [of lp num es i] byte_at_end [of lp num es] lp_entry_ok [of lp num es i]
  by (cases "i = length es") (auto elim: entry_okD)

lemma lp_next:
  assumes "lp_rep lp num es" "i < length es"
  shows "lpNext lp (int (lp_off es i)) = Some (lp_ptr es (Suc i))"
    and "lpNextWithBytes lp (int (lp_off es i)) (w64 (7 + length (concat es))) = Some (lp_ptr es (Suc i))"
proof -
  obtain b where "byte_at lp (int (lp_off es (Suc i))) = Some b" "b = LP_EOF \<longleftrightarrow> Suc i = length es"
    using eof_iff [OF assms(1), of "Suc i"] assms(2) by auto
  then show "lpNext lp (int (lp_off es i)) = Some (lp_ptr es (Suc i))"
    "lpNextWithBytes lp (int (lp_off es i)) (w64 (7 + length (concat es))) = Some (lp_ptr es (Suc i))"
    using lp_skip [OF assms] assert_valid [OF assms(1), of "Suc i"] get_bytes [OF assms(1)] assms(2)
    by (auto simp: lpNext_def lpNextWithBytes_def lp_ptr_def)
qed

lemma lp_first: "lp_rep lp num es \<Longrightarrow> lpFirst lp = Some (lp_ptr es 0)"
  using eof_iff [of lp num es 0] assert_valid [of lp num es 0] get_bytes [of lp num es]
  by (auto simp: lpFirst_def lp_ptr_def LP_HDR_SIZE_def)

lemma lp_off_less: "lp_rep lp num es \<Longrightarrow> i < length es \<Longrightarrow> lp_off es i < lp_off es (Suc i)"
  using lp_entry_ok [of lp num es i] by (auto simp: lp_off_Suc elim!: entry_okD)

lemma uint_entrylen_1: "uint (ucast (n :: u32) + lpEncodeBacklenBytes (ucast n) - 1 :: u64) = int (entrylen n) - 1"
proof -
  have "0 < int (entrylen n)" "int (entrylen n) < 2 ^ 64"
    using unsigned_less [of "ucast n + lpEncodeBacklenBytes (ucast n) :: u64", where 'a = int] by (simp_all add: uint_entrylen)
  then show ?thesis
    by (simp add: uint_word_ariths(2) uint_entrylen mod_pos_pos_trivial)
qed

lemma lp_prev:
  assumes "lp_rep lp num es" "i \<le> length es"
  shows "lpPrev lp (int (lp_off es i)) = Some (if i = 0 then None else lp_ptr es (i - 1))"
proof (cases i)
  case 0
  then show ?thesis by (simp add: lpPrev_def LP_HDR_SIZE_def)
next
  case (Suc j)
  have j: "j < length es" using Suc assms(2) by simp
  obtain sz where sz: "length (es ! j) = entrylen sz" "lpDecodeBacklen lp (int (lp_off es i) - 1) = Some (ucast sz)"
    using lp_backlen [OF assms(1) j] Suc by metis
  have "int (lp_off es i) \<noteq> LP_HDR_SIZE"
    using lp_off_less [OF assms(1) j] lp_off_mono [of 0 j es] Suc by (simp add: LP_HDR_SIZE_def)
  moreover have "int (lp_off es i) - 1 - (int (entrylen sz) - 1) = int (lp_off es j)"
    using Suc j sz(1) by (simp add: lp_off_Suc)
  ultimately show ?thesis
    using sz(2) assert_valid [OF assms(1), of j] get_bytes [OF assms(1)] j Suc
    by (simp add: lpPrev_def Let_def uint_entrylen_1 lp_ptr_def del: diff_diff_eq)
qed

lemma lp_last:
  assumes "lp_rep lp num es"
  shows "lpLast lp = Some (if es = [] then None else lp_ptr es (length es - 1))"
proof -
  have "uint (w32 (7 + length (concat es))) - 1 = int (lp_off es (length es))"
    using assms by (simp add: lp_rep_def lp_off_end uint_nat unat_w32)
  then show ?thesis using lp_prev [OF assms, of "length es"] by (simp add: lpLast_def get_header [OF assms])
qed

section \<open>Number of elements\<close>

lemma length_loop:
  assumes "lp_rep lp num es"
  shows "i \<le> length es \<Longrightarrow> lpLength_loop lp (lp_ptr es i) count = Some (count + w32 (length es - i))"
proof (induction "length es - i" arbitrary: i count)
  case 0
  then show ?case by (simp add: lp_ptr_def w32_def)
next
  case (Suc k)
  then have i: "i < length es" by simp
  then show ?case
    using Suc(1) [of "Suc i" "count + 1"] Suc(2) lp_next(1) [OF assms i]
    by (simp add: lp_ptr_def [of es i] w32_def algebra_simps)
qed

lemma entries_le: "list_all entry_ok es \<Longrightarrow> length es \<le> length (concat es)"
proof (induction es)
  case (Cons e es)
  then have "e \<noteq> []" by (auto elim: entry_okD)
  with Cons show ?case by (cases e) auto
qed simp

text \<open>Rewriting a part of the header leaves the entries.\<close>

lemma write_header:
  "bwrite (le_bytes 4 t @ le_bytes 2 n @ rest) 0 (le_bytes 4 (t' :: u32)) = Some (le_bytes 4 t' @ le_bytes 2 (n :: u32) @ rest)"
  "bwrite (le_bytes 4 t @ le_bytes 2 n @ rest) 4 (le_bytes 2 (n' :: u32)) = Some (le_bytes 4 (t :: u32) @ le_bytes 2 n' @ rest)"
  by (simp_all add: bwrite_def)

lemma set_bytes:
  "[ucast (v AND 0xff), ucast (drop_bit 8 v AND 0xff), ucast (drop_bit 16 v AND 0xff), ucast (drop_bit 24 v AND 0xff)] = le_bytes 4 (ucast (v :: u64) :: u32)"
  "[ucast (v AND 0xff), ucast (drop_bit 8 v AND 0xff)] = le_bytes 2 (ucast (v :: u64) :: u32)"
  unfolding bytes4 bytes2 ff_take by (auto intro!: bit_word_eqI simp: bit_simps)

lemma set_header:
  "lpSetTotalBytes (le_bytes 4 t @ le_bytes 2 n @ rest) v = Some (le_bytes 4 (ucast v :: u32) @ le_bytes 2 (n :: u32) @ rest)"
  "lpSetNumElements (le_bytes 4 t @ le_bytes 2 n @ rest) v = Some (le_bytes 4 (t :: u32) @ le_bytes 2 (ucast v :: u32) @ rest)"
  unfolding lpSetTotalBytes_def lpSetNumElements_def set_bytes by (rule write_header)+

lemma ucast_ucast_u32: "(ucast (ucast (x :: u32) :: u64) :: u32) = x"
  by (rule bit_word_eqI) (auto simp: bit_simps)

lemma lp_length:
  assumes "lp_rep lp num es"
  shows "\<exists>lp' num'. lpLength lp = Some (w32 (length es), lp') \<and> lp_rep lp' num' es \<and> length lp' = length lp \<and>
    (num' = length es \<or> 65535 \<le> length es)"
proof -
  obtain junk where lp: "lp = lp_pack num es @ junk" using lp_repD [OF assms] .
  have num: "num_ok num es" and ok: "list_all entry_ok es" and len: "7 + length (concat es) < 2 ^ 32"
    using assms by (auto simp: lp_rep_def)
  have small: "length es < 2 ^ 32" using entries_le [OF ok] len by simp
  show ?thesis
  proof (cases "num = 65535")
    case False
    then show ?thesis using num assms by (auto simp: lpLength_def get_header [OF assms] LP_HDR_NUMELE_UNKNOWN_def num_ok_def w32_def
      word_unat_eq_iff unsigned_of_nat take_bit_nat_eq_self)
  next
    case True
    have loop: "lpLength_loop lp (lp_ptr es 0) 0 = Some (w32 (length es))"
      using length_loop [OF assms, of 0 0] by simp
    have "lpSetNumElements lp (ucast (w32 (length es))) = Some (lp_pack (length es) es @ junk)"
      by (simp add: lp lp_pack_def set_header ucast_ucast_u32)
    moreover have "lp_rep (lp_pack (length es) es @ junk) (length es) es" if "length es < 65535"
      using ok len that by (intro lp_rep_pack) (auto simp: num_ok_def)
    ultimately show ?thesis
      using True loop small assms
      by (auto simp: lpLength_def get_header [OF assms] lp_first [OF assms] LP_HDR_NUMELE_UNKNOWN_def w32_def [of 65535] word_less_nat_alt unat_w32)
        (simp_all add: lp length_pack)
  qed
qed

section \<open>Seeking\<close>

lemma seek_forward_ptr:
  assumes "lp_rep lp num es"
  shows "seek_forward lp k (lp_ptr es i) = Some (lp_ptr es (i + k))"
proof (induction k arbitrary: i)
  case (Suc k)
  show ?case
  proof (cases "i < length es")
    case True
    then show ?thesis using lp_next(1) [OF assms True] Suc [of "Suc i"] by (simp add: lp_ptr_def [of es i])
  qed (simp add: lp_ptr_def)
qed simp

lemma seek_backward_ptr:
  assumes "lp_rep lp num es"
  shows "i < length es \<Longrightarrow> seek_backward lp k (lp_ptr es i) = Some (if k \<le> i then lp_ptr es (i - k) else None)"
proof (induction k arbitrary: i)
  case (Suc k)
  then have prev: "lpPrev lp (int (lp_off es i)) = Some (if i = 0 then None else lp_ptr es (i - 1))"
    using lp_prev [OF assms, of i] by simp
  show ?case
  proof (cases i)
    case 0
    then show ?thesis using prev Suc.prems by (simp add: lp_ptr_def [of es 0])
  next
    case (Suc j)
    then show ?thesis using prev Suc.IH [of j] Suc.prems by (simp add: lp_ptr_def [of es "Suc j"])
  qed
qed simp

text \<open>The pointer to the element with a given index; negative indices count from the end.\<close>

definition lp_index :: "u8 list list \<Rightarrow> int \<Rightarrow> int option" where
  "lp_index es index =
     (let i = (if index < 0 then int (length es) + index else index)
      in if 0 \<le> i then lp_ptr es (nat i) else None)"

lemma walk_back:
  assumes "lp_rep lp num es" "index < 0"
  shows "lpLast lp \<bind> seek_backward lp (nat (- 1 - index)) = Some (lp_index es index)"
proof (cases "es = []")
  case True
  then show ?thesis using assms lp_last [OF assms(1)]
    by (cases "nat (- 1 - index)") (auto simp: lp_index_def lp_ptr_def)
next
  case False
  have "seek_backward lp (nat (- 1 - index)) (lp_ptr es (length es - 1)) =
      Some (if nat (- 1 - index) \<le> length es - 1 then lp_ptr es (length es - 1 - nat (- 1 - index)) else None)"
    using False by (intro seek_backward_ptr [OF assms(1)]) simp
  moreover have "length es - 1 - nat (- 1 - index) = nat (int (length es) + index)" using assms(2) by auto
  moreover have "nat (- 1 - index) \<le> length es - 1 \<longleftrightarrow> 0 \<le> int (length es) + index" using False assms(2) by (cases es) auto
  ultimately show ?thesis using lp_last [OF assms(1)] False assms(2)
    by (simp add: lp_index_def Let_def)
qed

lemma lp_seek:
  assumes "lp_rep lp num es"
  shows "lpSeek lp index = Some (lp_index es index)"
proof -
  have num: "num = 65535 \<or> num = length es \<and> num < 65535" using assms by (auto simp: lp_rep_def num_ok_def)
  have fwd: "lpFirst lp \<bind> seek_forward lp (nat j) = Some (lp_ptr es (nat j))" for j
    using lp_first [OF assms] seek_forward_ptr [OF assms, of "nat j" 0] by simp
  have n: "w32 num = LP_HDR_NUMELE_UNKNOWN \<longleftrightarrow> num = 65535" "uint (w32 num) = int num"
    using num by (auto simp: LP_HDR_NUMELE_UNKNOWN_def word_unat_eq_iff unat_w32 uint_nat)
  show ?thesis
  proof (cases "num = 65535")
    case True
    then show ?thesis using n fwd walk_back [OF assms]
      by (auto simp: lpSeek_def get_header [OF assms] Let_def lp_index_def)
  next
    case False
    then have num: "num = length es" using num by simp
    define i where "i = (if index < 0 then int num + index else index)"
    have bwd: "lpLast lp \<bind> seek_backward lp (nat (- 1 - (i - int num))) = Some (lp_ptr es (nat i))" if "0 \<le> i" "i < int num"
      using walk_back [OF assms, of "i - int num"] that num by (simp add: lp_index_def)
    have "lpSeek lp index = (if i < 0 \<or> i \<ge> int num then Some None
        else if i > int num div 2 then lpLast lp \<bind> seek_backward lp (nat (- 1 - (i - int num)))
        else lpFirst lp \<bind> seek_forward lp (nat i))"
      using False n by (simp add: lpSeek_def get_header [OF assms] Let_def i_def)
    also have "\<dots> = Some (lp_index es index)"
      using bwd fwd [of i] num by (auto simp: lp_index_def i_def Let_def lp_ptr_def)
    finally show ?thesis .
  qed
qed

section \<open>Reading\<close>

lemma bread_context:
  assumes "bread e q n = Some bs"
  shows "bread (pre @ e @ post) (int (length pre) + q) n = Some bs"
proof -
  have q: "0 \<le> q" "q + int n \<le> int (length e)" "bs = take n (drop (nat q) e)"
    using assms by (auto simp: bread_def split: if_splits)
  then have "nat (int (length pre) + q) = length pre + nat q" "n \<le> length e - nat q" by auto
  then show ?thesis using q by (auto simp: bread_def)
qed

lemma lp_get:
  assumes "lp_rep lp num es" "i < length es"
  shows "got_string lp (lpGet lp (int (lp_off es i)) None) = Some (lp_strings es ! i)"
proof -
  obtain pre post where lp: "lp = pre @ es ! i @ post" "length pre = lp_off es i" using lp_split [OF assms] .
  have ok: "entry_ok (es ! i)" by (rule lp_entry_ok [OF assms])
  then obtain v where v: "lp_value (es ! i) = Some v" by (auto simp: entry_ok_def split: option.splits)
  then obtain r where r: "lpGetWithBuf (es ! i) 0 None = Some r" "got_string (es ! i) (Some r) = Some v"
    by (auto simp: lp_value_def got_string_def split: option.splits)
  have "lpGet lp (int (lp_off es i)) None = Some (shift_got (int (lp_off es i)) r)"
    using le_viaD [OF part_of_get [OF lp_part [OF assms]] r(1)] by (simp add: lpGet_def)
  moreover have "got_string lp (Some (shift_got (int (lp_off es i)) r)) = Some v"
    using r(2) bread_context [of "es ! i" _ _ v pre post] unfolding lp(2) [symmetric]
    by (cases r) (auto simp: got_string_def shift_got_def lp(1))
  ultimately show ?thesis using v assms(2) by (simp add: lp_strings_def)
qed

section \<open>Searching\<close>

text \<open>The round of the search loop at entry \<open>i\<close>.\<close>

lemma find_check_at:
  assumes "lp_rep lp num es" "i \<le> length es"
  shows "find_check lp (w64 (7 + length (concat es))) (int (lp_off es i)) v =
    Some (if i = length es then Inl None else Inr (int (lp_off es i), v))"
proof -
  have "LP_HDR_SIZE \<le> int (lp_off es i) \<and> int (lp_off es i) < uint (w64 (7 + length (concat es)))"
    using lp_in_range [OF assms(1), of i] by (auto simp: OUT_OF_RANGE_def)
  then show ?thesis
    using eof_iff [OF assms] assert_valid [OF assms] by (auto simp: find_check_def assert_that_def)
qed

lemma lp_get_size:
  assumes "lp_rep lp num es" "i < length es"
  shows "\<exists>r. lpGetWithSize lp (int (lp_off es i)) None = Some (r, Some (w64 (length (es ! i)))) \<and> lpGet lp (int (lp_off es i)) None = Some r \<and>
    (\<forall>b n. r \<noteq> GBuf b n)"
proof -
  have ok: "entry_ok (es ! i)" by (rule lp_entry_ok [OF assms])
  then obtain v where v: "lp_value (es ! i) = Some v" by (auto simp: entry_ok_def split: option.splits)
  then obtain r where r: "lpGetWithBuf (es ! i) 0 None = Some r" "\<forall>b n. r \<noteq> GBuf b n"
    by (auto simp: lp_value_def got_string_def split: option.splits lp_got.splits)
  then have s: "lpGetWithSize (es ! i) 0 None = Some (r, Some (w64 (length (es ! i))))"
    using ok by (auto simp: entry_ok_def split: option.splits)
  note part = lp_part [OF assms]
  show ?thesis
    using le_viaD [OF part_of_get [OF part] r(1)] le_viaD [OF part_of_get_size [OF part] s] r(2)
    by (auto simp: lpGet_def shift_got_def split: lp_got.splits)
qed

text \<open>The comparison of \<open>lpFind\<close> decides equality of strings, and its cache stays right.\<close>

definition find_arg_ok :: "u8 list \<Rightarrow> lpFindArg \<Rightarrow> bool" where
  "find_arg_ok s arg \<longleftrightarrow> find_s arg = s \<and>
     (vencoding arg = 0 \<or> vencoding arg = 255 \<and> lpStringToInt64 s = None \<or> vencoding arg = 1 \<and> lpStringToInt64 s = Some (vll arg))"

lemma lp_signed_llong: "llong (lp_signed u a b)"
  using sint_range_size [of "b - u"] sint_range_size [of u]
  by (auto simp: lp_signed_def llong_def LLONG_MIN_def LLONG_MAX_def word_size)

lemma lp_get_llong: "lpGet lp p None = Some (GInt z) \<Longrightarrow> llong z"
  by (auto simp: lpGet_def lpGetWithBuf_def bind_eq_Some_conv lp_deliver_def lp_signed_llong Let_def split: if_splits)

lemma lp_get_nonneg: "lpGet lp p None = Some (GStr q n) \<Longrightarrow> 0 \<le> n"
  by (auto simp: lpGet_def lpGetWithBuf_def bind_eq_Some_conv lp_deliver_def Let_def split: if_splits)

lemma string_is_int: "llong z \<Longrightarrow> lpStringToInt64 s = Some z \<longleftrightarrow> s = dec_int z"
  by (auto simp: lpStringToInt64_eq string2ll_iff llong_def)

lemma long_not_int: "length s \<ge> 32 \<or> length s = 0 \<Longrightarrow> lpStringToInt64 s = None"
  by (auto simp: lpStringToInt64_def LONG_STR_SIZE_def)

lemma lp_find_cmp:
  assumes "find_arg_ok s arg" "got_string lp (Some r) = Some v" "\<And>z. r = GInt z \<Longrightarrow> llong z" "\<And>q n. r = GStr q n \<Longrightarrow> 0 \<le> n"
  shows "\<exists>arg'. lpFindCmp lp arg p r = Some (v = s, arg') \<and> find_arg_ok s arg'"
proof (cases r)
  case (GInt z)
  have z: "lpStringToInt64 s = Some z \<longleftrightarrow> s = dec_int z" using assms(3) [OF GInt] by (rule string_is_int)
  have v: "v = dec_int z" using assms(2) GInt by (simp add: got_string_def)
  show ?thesis
  proof (cases "vencoding arg = 0")
    case True
    show ?thesis
    proof (cases "lpStringToInt64 s")
      case None
      then show ?thesis using assms(1) True GInt z v
        by (auto simp: lpFindCmp_def find_arg_ok_def Let_def)
    next
      case (Some w)
      then have "\<not> (length s \<ge> 32 \<or> length s = 0)" using long_not_int [of s] by auto
      moreover have "z = w \<longleftrightarrow> s = dec_int z" using z Some by auto
      ultimately show ?thesis using assms(1) True GInt v Some
        by (intro exI [of _ "arg\<lparr>vencoding := 1, vll := w\<rparr>"]) (simp add: lpFindCmp_def find_arg_ok_def Let_def eq_commute [of s])
    qed
  next
    case False
    have "(dec_int z = s) = (lpStringToInt64 s = Some z)" using z by (simp only: eq_commute [of s])
    then have "(vencoding arg \<noteq> 255 \<and> z = vll arg) = (v = s)"
      using assms(1) False unfolding v find_arg_ok_def by (elim conjE disjE) auto
    then show ?thesis using assms(1) GInt False
      by (intro exI [of _ arg]) (simp add: lpFindCmp_def Let_def)
  qed
next
  case (GStr q n)
  then have b: "bread lp q (nat n) = Some v" using assms(2) by (simp add: got_string_def)
  then have "length v = nat n" by (rule length_bread)
  then show ?thesis using assms(1) GStr b assms(4) [OF GStr]
    by (cases "n = int (length s)") (auto simp: lpFindCmp_def find_arg_ok_def)
next
  case (GBuf b n)
  then show ?thesis using assms(2) by (simp add: got_string_def)
qed

text \<open>
  The first position from \<open>i\<close> on that holds \<open>s\<close>, looking at every \<open>skip + 1\<close>-th element.
\<close>

function find_pos :: "'a list \<Rightarrow> 'a \<Rightarrow> nat \<Rightarrow> nat \<Rightarrow> nat option" where
  "find_pos xs s skip i =
     (if length xs \<le> i then None else if xs ! i = s then Some i else find_pos xs s skip (i + skip + 1))"
  by pat_completeness auto
termination by (relation "measure (\<lambda>(xs, s, skip, i). length xs - i)") auto

declare find_pos.simps [simp del]

definition found_ptr :: "u8 list list \<Rightarrow> nat option \<Rightarrow> int option" where
  "found_ptr es r = (case r of None \<Rightarrow> None | Some i \<Rightarrow> lp_ptr es i)"

lemma find_pos_bound: "find_pos xs s skip i = Some j \<Longrightarrow> i \<le> j \<and> j < length xs \<and> xs ! j = s"
proof (induction xs s skip i rule: find_pos.induct)
  case (1 xs s skip i)
  then show ?case by (subst (asm) (2) find_pos.simps) (auto split: if_splits)
qed

lemma lp_find_loop:
  assumes r: "lp_rep lp num es" and "i < length es" "find_arg_ok s arg"
  shows "lpFind_loop lp (lpFindCmp lp) skip (w64 (7 + length (concat es))) (int (lp_off es i), k, sz, arg) =
    Some (found_ptr es (find_pos (lp_strings es) s skip (i + k)))"
  using assms(2-)
proof (induction "length es - i" arbitrary: i k sz arg rule: less_induct)
  case less
  have loop: "lpFind_loop lp (lpFindCmp lp) skip (w64 (7 + length (concat es))) (int (lp_off es i), k, sz, arg) =
      (case find_round lp (lpFindCmp lp) skip (w64 (7 + length (concat es))) (int (lp_off es i)) k sz arg of
         None \<Rightarrow> None
       | Some (Inl res) \<Rightarrow> Some res
       | Some (Inr st) \<Rightarrow> lpFind_loop lp (lpFindCmp lp) skip (w64 (7 + length (concat es))) st)"
    by (subst lpFind_loop.simps) (auto split: option.splits sum.splits)
  have len: "length (lp_strings es) = length es" by (simp add: lp_strings_def)
  show ?case
  proof (cases "k = 0")
    case False
    then have round: "find_round lp (lpFindCmp lp) skip (w64 (7 + length (concat es))) (int (lp_off es i)) k sz arg =
        Some (if Suc i = length es then Inl None else Inr (int (lp_off es (Suc i)), k - 1, sz, arg))"
      using lp_skip [OF r less(2)] less(2) by (simp add: find_round_def find_check_at [OF r])
    show ?thesis
    proof (cases "Suc i = length es")
      case True
      then show ?thesis using False len by (simp add: loop round found_ptr_def find_pos.simps [of _ _ _ "i + k"])
    next
      case F: False
      then show ?thesis using less(1) [of "Suc i" arg "k - 1" sz] less(2,3) False by (simp add: loop round)
    qed
  next
    case True
    obtain g where g: "lpGetWithSize lp (int (lp_off es i)) None = Some (g, Some (w64 (length (es ! i))))"
      "lpGet lp (int (lp_off es i)) None = Some g" "\<forall>b n. g \<noteq> GBuf b n"
      using lp_get_size [OF r less(2)] by blast
    have v: "got_string lp (Some g) = Some (lp_strings es ! i)" using lp_get [OF r less(2)] g(2) by simp
    obtain arg' where cmp: "lpFindCmp lp arg (int (lp_off es i)) g = Some (lp_strings es ! i = s, arg')" "find_arg_ok s arg'"
      using lp_find_cmp [OF less(3) v, of "int (lp_off es i)"] lp_get_llong lp_get_nonneg g(2) by metis
    have "length (es ! i) < 2 ^ 64"
      using lp_off_Suc [OF less(2)] lp_off_le [of es "Suc i"] r by (simp add: lp_rep_def)
    then have sz: "uint (w64 (length (es ! i))) = int (length (es ! i))"
      by (simp only: uint_nat unat_w64_small)
    have off: "int (lp_off es i) + int (length (es ! i)) = int (lp_off es (Suc i))"
      using less(2) by (simp add: lp_off_Suc)
    have "LP_HDR_SIZE \<le> int (lp_off es i) \<and> int (lp_off es (Suc i)) < uint (w64 (7 + length (concat es)))"
      using lp_in_range [OF r, of i] lp_in_range [OF r, of "Suc i"] by (auto simp: OUT_OF_RANGE_def)
    then have round: "find_round lp (lpFindCmp lp) skip (w64 (7 + length (concat es))) (int (lp_off es i)) k sz arg =
        (if lp_strings es ! i = s then Some (Inl (Some (int (lp_off es i))))
         else Some (if Suc i = length es then Inl None else Inr (int (lp_off es (Suc i)), skip, w64 (length (es ! i)), arg')))"
      using True g cmp(1) less(2)
      by (cases g) (auto simp: find_round_def find_check_at [OF r] sz off assert_that_def)
    note loop' = loop [unfolded round]
    consider (hit) "lp_strings es ! i = s" | (last) "lp_strings es ! i \<noteq> s" "Suc i = length es"
      | (more) "lp_strings es ! i \<noteq> s" "Suc i < length es" using less(2) by linarith
    then show ?thesis
    proof cases
      case hit
      then show ?thesis using loop' True less(2) len by (simp add: find_pos.simps [of _ _ _ i] found_ptr_def lp_ptr_def)
    next
      case last
      then show ?thesis using loop' True less(2) len
        by (simp add: find_pos.simps [of _ _ _ i] find_pos.simps [of _ _ _ "Suc (i + skip)"] found_ptr_def)
    next
      case more
      then show ?thesis using loop' True less(1) [of "Suc i" arg' skip "w64 (length (es ! i))"] less(2) cmp(2) len
        by (simp add: find_pos.simps [of _ _ _ i])
    qed
  qed
qed

lemma lp_find:
  assumes "lp_rep lp num es" "i < length es"
  shows "lpFind lp (lp_ptr es i) s skip = Some (found_ptr es (find_pos (lp_strings es) s skip i))"
proof -
  have "find_arg_ok s \<lparr>find_s = s, vencoding = 0, vll = 0\<rparr>" by (simp add: find_arg_ok_def)
  from lp_find_loop [OF assms this, of skip 0] assms(2) show ?thesis
    by (simp add: lpFind_def lpFindCbInternal_def get_bytes [OF assms(1)] lp_ptr_def)
qed

lemma lp_find_first:
  assumes "lp_rep lp num es"
  shows "lpFind lp None s skip = Some (found_ptr es (find_pos (lp_strings es) s skip 0))"
proof (cases "es = []")
  case True
  then show ?thesis using lp_first [OF assms]
    by (simp add: lpFind_def lpFindCbInternal_def get_bytes [OF assms] lp_ptr_def found_ptr_def find_pos.simps lp_strings_def)
next
  case False
  then have "lpFind lp None s skip = lpFind lp (lp_ptr es 0) s skip"
    using lp_first [OF assms] by (simp add: lpFind_def lpFindCbInternal_def lp_ptr_def)
  then show ?thesis using lp_find [OF assms, of 0] False by simp
qed

end
