(* ===== verification/Listpack_Change.thy ===== *)
theory Listpack_Change
  imports Listpack_Spec
begin

text \<open>
  The updates of a listpack on what it represents: inserting, replacing and deleting an element change
  the list of entries at one place, whatever the allocator returns, and return \<open>NULL\<close> only when the
  result would be too large or memory is exhausted.
\<close>

section \<open>The allocator\<close>

locale lp_allocator =
  fixes A :: lp_heap
  assumes malloc: "lp_malloc A n = Some b \<Longrightarrow> n \<le> length b"
    and realloc: "lp_realloc A bs n = Some b \<Longrightarrow> n \<le> length b \<and> take (min n (length bs)) b = take (min n (length bs)) bs"
begin

lemma realloc_keeps: "lp_realloc A (xs @ ys) n = Some b \<Longrightarrow> length xs \<le> n \<Longrightarrow> \<exists>zs. b = xs @ zs \<and> n \<le> length b"
proof -
  assume b: "lp_realloc A (xs @ ys) n = Some b" and n: "length xs \<le> n"
  let ?m = "min n (length (xs @ ys))"
  have "take ?m b = take ?m (xs @ ys)" "n \<le> length b" using realloc [OF b] by auto
  moreover have "take (length xs) (take ?m b) = take (length xs) b" "take (length xs) (take ?m (xs @ ys)) = xs"
    using n by (simp_all add: min_def)
  ultimately have "take (length xs) b = xs" by metis
  then show ?thesis using \<open>n \<le> length b\<close> by (metis append_take_drop_id)
qed

end

text \<open>The blocks that \<open>realloc\<close> of the byte buffers returns, of exactly the size that was asked for.\<close>

definition exact_heap :: "(nat \<Rightarrow> u8) \<Rightarrow> lp_heap" where
  "exact_heap g = \<lparr>lp_malloc = (\<lambda>n. Some (map g [0..<n])), lp_realloc = (\<lambda>bs n. Some (brealloc g n bs))\<rparr>"

interpretation exact: lp_allocator "exact_heap g" for g
proof
  show "n \<le> length b" if "lp_malloc (exact_heap g) n = Some b" for n b
    using that by (auto simp: exact_heap_def)
  show "n \<le> length b \<and> take (min n (length bs)) b = take (min n (length bs)) bs"
    if "lp_realloc (exact_heap g) bs n = Some b" for bs n b
    using that by (cases "n \<le> length bs") (auto simp: exact_heap_def brealloc_shrink brealloc_grow)
qed

section \<open>Moving and writing bytes\<close>

lemma splice_move:
  assumes "length P + n + length T \<le> length (P @ R @ T @ J)"
  shows "\<exists>X Y. length X = n \<and> bmove (P @ R @ T @ J) (int (length P + n)) (int (length P + length R)) (length T) = Some (P @ X @ T @ Y) \<and>
    length (P @ X @ T @ Y) = length (P @ R @ T @ J)"
proof (intro exI conjI)
  let ?X = "take n (R @ T @ J)" and ?Y = "drop (length P + n + length T) (P @ R @ T @ J)"
  show "length ?X = n" using assms by simp
  have "bread (P @ R @ T @ J) (int (length P + length R)) (length T) = Some T"
    by (simp only: bread_nat) simp
  moreover have "bwrite (P @ R @ T @ J) (int (length P + n)) T = Some (P @ ?X @ T @ ?Y)"
    using assms by (simp only: bwrite_nat) simp
  ultimately show "bmove (P @ R @ T @ J) (int (length P + n)) (int (length P + length R)) (length T) = Some (P @ ?X @ T @ ?Y)"
    by (simp only: bmove_def) simp
  show "length (P @ ?X @ T @ ?Y) = length (P @ R @ T @ J)" using assms by simp
qed

lemma write_two:
  assumes "length X = length a + length b"
  shows "bwrite (P @ X @ Z) (int (length P)) a \<bind> (\<lambda>lp. bwrite lp (int (length P + length a)) b) = Some (P @ a @ b @ Z)"
  using assms by (simp only: bwrite_nat) simp

section \<open>What is written\<close>

lemma encode_type:
  assumes "length s < 2 ^ 32"
  shows "\<exists>i. lpEncodeGetType s = (i, w64 (length (lp_enc s))) \<and> (case i of Some e \<Rightarrow> e = lp_enc s | None \<Rightarrow> lpEncodeString s = lp_enc s)"
proof (cases "string2ll s")
  case (Some v)
  then show ?thesis by (simp add: lpEncodeGetType_def lpStringToInt64_eq lp_enc_def)
next
  case None
  define len where "len = w32 (length s)"
  have len: "unat len = length s" using assms by (simp add: len_def unat_w32)
  have "ucast (1 + len) = w64 (Suc (length s))" "ucast (2 + len) = w64 (Suc (Suc (length s)))" if "length s < 4096"
    using that len by (simp_all add: word_unat_eq_iff unsigned_ucast_eq unat_word_ariths unat_w64 take_bit_nat_eq_self)
  moreover have "5 + ucast len = w64 (Suc (Suc (Suc (Suc (Suc (length s))))))"
    using assms by (simp add: len_def ucast_w32 w64_def)
  moreover have "len < 64 \<longleftrightarrow> length s < 64" "len < 4096 \<longleftrightarrow> length s < 4096"
    using len by (simp_all add: word_less_nat_alt)
  ultimately show ?thesis using None
    by (auto simp: lpEncodeGetType_def lpStringToInt64_eq lp_enc_def lpEncodeString_def Let_def len_def [symmetric])
qed

lemma length_enc_le: "length (lp_enc s) \<le> length s + 9"
  using length_str_enc(2) [of s] by (auto simp: lp_enc_def lpEncodeIntegerGetType_def Let_def split: option.split)

lemma length_entry_le: "length (lp_entry s) \<le> length s + 14"
  using length_enc_le [of s] backlen_bytes_le(1) [of "w64 (length (lp_enc s))"] by (simp add: lp_entry_def length_backlen)

text \<open>Entries \<open>i\<close> to \<open>j - 1\<close> of a listpack, and what is before and after them.\<close>

definition lp_head :: "nat \<Rightarrow> u8 list list \<Rightarrow> nat \<Rightarrow> u8 list" where
  "lp_head num es i = le_bytes 4 (w32 (7 + length (concat es))) @ le_bytes 2 (w32 num) @ concat (take i es)"

definition lp_tail :: "u8 list list \<Rightarrow> nat \<Rightarrow> u8 list" where
  "lp_tail es j = concat (drop j es) @ [LP_EOF]"

definition lp_mid :: "u8 list list \<Rightarrow> nat \<Rightarrow> nat \<Rightarrow> u8 list" where
  "lp_mid es i j = concat (take (j - i) (drop i es))"

lemma concat_mid: "i \<le> j \<Longrightarrow> concat es = concat (take i es) @ lp_mid es i j @ concat (drop j es)"
proof -
  assume "i \<le> j"
  have "es = take i es @ take (j - i) (drop i es) @ drop j es"
    using \<open>i \<le> j\<close> by (metis append_take_drop_id drop_drop le_add_diff_inverse2)
  then show ?thesis unfolding lp_mid_def by (metis concat_append)
qed

lemma lp_cut:
  assumes "lp_rep lp num es" "i \<le> j"
  obtains J where "lp = lp_head num es i @ lp_mid es i j @ lp_tail es j @ J"
    "length (lp_head num es i) = lp_off es i"
    "length (lp_head num es i @ lp_mid es i j @ lp_tail es j) = 7 + length (concat es)"
proof -
  obtain J where lp: "lp = lp_pack num es @ J" using lp_repD [OF assms(1)] .
  show thesis
    using that [of J] concat_mid [OF assms(2), of es]
    by (simp add: lp lp_pack_def lp_head_def lp_tail_def lp_off_def)
qed

text \<open>Storing an element in the bytes, given how the listpack is cut.\<close>

definition header_of :: "nat \<Rightarrow> nat \<Rightarrow> u8 list \<Rightarrow> u8 list" where
  "header_of tot num body = le_bytes 4 (w32 tot) @ le_bytes 2 (w32 num) @ body"

definition new_num :: "lp_where \<Rightarrow> bool \<Rightarrow> nat \<Rightarrow> nat" where
  "new_num w delete num = (if num = 65535 \<or> w = LP_REPLACE \<and> \<not> delete then num else if delete then num - 1 else num + 1)"

lemma num_of_header:
  assumes "num \<le> 65535"
  shows "lpGetNumElements (header_of tot num body) = Some (w32 num)"
proof -
  have "take_bit 16 (w32 num) = w32 num"
    using assms by (simp add: word_unat_eq_iff unsigned_take_bit_eq take_bit_nat_eq_self unat_w32)
  then show ?thesis
    using le_word_le_bytes [of 2 "w32 num"]
    by (simp only: lpGetNumElements_def header_of_def bytes4 bytes2 join_bytes) (simp add: byte_at_Cons join_bytes [symmetric])
qed

lemma num_unknown: "num \<le> 65535 \<Longrightarrow> w32 num = LP_HDR_NUMELE_UNKNOWN \<longleftrightarrow> num = 65535"
  by (auto simp: LP_HDR_NUMELE_UNKNOWN_def word_unat_eq_iff unat_w32)

lemma count_header:
  assumes "num \<le> 65535" "delete \<longrightarrow> 0 < num"
  shows "(if w \<noteq> LP_REPLACE \<or> delete then count_one delete (header_of tot num body) else Some (header_of tot num body)) =
    Some (header_of tot (new_num w delete num) body)"
proof -
  have "w32 num + 1 = w32 (num + 1)" "delete \<longrightarrow> w32 num - 1 = w32 (num - 1)"
    using assms(2) by (auto simp: w32_def of_nat_diff)
  then show ?thesis
    using num_of_header [OF assms(1)] num_unknown [OF assms(1)] by (auto simp: count_one_def new_num_def header_of_def set_header ucast_ucast_u32)
qed

lemma total_header: "lpSetTotalBytes (header_of tot num body) (w64 new) = Some (header_of new num body)"
  by (simp add: header_of_def set_header ucast_w64)

text \<open>The part of \<open>insert_at\<close> after the bytes have been moved.\<close>

lemma finish_insert:
  assumes X: "length X = length E" and E: "E = (if ele = Eledelete then [] else eb @ bl)" and T: "T \<noteq> []"
    and poff: "poff = int (length (header_of tot num B))" and num: "num \<le> 65535" "ele = Eledelete \<longrightarrow> 0 < num"
    and eb: "uint enclen = int (length eb)"
    and store: "\<And>lp. ele \<noteq> Eledelete \<Longrightarrow>
      (case (ei, ele) of (Some e, _) \<Rightarrow> bwrite lp poff e | (None, Elestr s) \<Rightarrow> bwrite lp poff (lpEncodeString s) | _ \<Rightarrow> None) = bwrite lp poff eb"
  shows "(let lp = header_of tot num B @ X @ T @ Y in
      do {
        newp \<leftarrow>
          (if ele = Eledelete then do { b \<leftarrow> byte_at lp poff; Some (if b = LP_EOF then None else Some poff) } else Some (Some poff));
        lp \<leftarrow>
          (if ele \<noteq> Eledelete then
             do {
               lp \<leftarrow>
                 (case (ei, ele) of (Some e, _) \<Rightarrow> bwrite lp poff e | (None, Elestr s) \<Rightarrow> bwrite lp poff (lpEncodeString s) | _ \<Rightarrow> None);
               bwrite lp (poff + uint enclen) bl
             }
           else Some lp);
        lp \<leftarrow> (if w \<noteq> LP_REPLACE \<or> ele = Eledelete then count_one (ele = Eledelete) lp else Some lp);
        lp \<leftarrow> lpSetTotalBytes lp (w64 new);
        Some (Some (lp, newp))
      }) =
    Some (Some (header_of new (new_num w (ele = Eledelete) num) (B @ E @ T @ Y), if ele = Eledelete \<and> hd T = LP_EOF then None else Some poff))"
proof -
  have body: "header_of tot num B @ Z = header_of tot num (B @ Z)" for Z by (simp add: header_of_def)
  show ?thesis
  proof (cases "ele = Eledelete")
    case True
    then have "byte_at (header_of tot num B @ X @ T @ Y) poff = Some (hd T)"
      using X E T by (cases T) (auto simp: poff byte_at_append)
    then show ?thesis
      using True X E count_header [OF num, of w tot "B @ T @ Y"] by (simp add: body total_header)
  next
    case False
    have "(if ele \<noteq> Eledelete then
        do {
          lp \<leftarrow> (case (ei, ele) of (Some e, _) \<Rightarrow> bwrite (header_of tot num B @ X @ T @ Y) poff e
            | (None, Elestr s) \<Rightarrow> bwrite (header_of tot num B @ X @ T @ Y) poff (lpEncodeString s) | _ \<Rightarrow> None);
          bwrite lp (poff + uint enclen) bl
        }
      else Some (header_of tot num B @ X @ T @ Y)) = Some (header_of tot num (B @ E @ T @ Y))"
      unfolding store [OF False]
      using write_two [of X eb bl "header_of tot num B" "T @ Y"] X E False by (simp add: poff eb body)
    moreover have "(if w \<noteq> LP_REPLACE \<or> ele = Eledelete then count_one (ele = Eledelete) (header_of tot num (B @ E @ T @ Y))
        else Some (header_of tot num (B @ E @ T @ Y))) = Some (header_of tot (new_num w (ele = Eledelete) num) (B @ E @ T @ Y))"
      using count_header [OF num, of w tot "B @ E @ T @ Y"] by simp
    ultimately show ?thesis
      unfolding Let_def by (simp only: bind.simps total_header) (simp add: False)
  qed
qed

text \<open>Entries \<open>i\<close> to \<open>j - 1\<close> replaced by others.\<close>

definition change_at :: "'a list \<Rightarrow> nat \<Rightarrow> nat \<Rightarrow> 'a list \<Rightarrow> 'a list" where
  "change_at es i j new = take i es @ new @ drop j es"

text \<open>The string that is inserted, \<open>None\<close> for a deletion.\<close>

inductive ele_holds :: "lp_ele \<Rightarrow> u8 list option \<Rightarrow> bool" where
  str: "length s < 2 ^ 32 \<Longrightarrow> ele_holds (Elestr s) (Some s)"
| int: "llong v \<Longrightarrow> ele_holds (Eleint (lpEncodeIntegerGetType v)) (Some (dec_int v))"
| del: "ele_holds Eledelete None"

inductive_cases ele_holdsE: "ele_holds ele s"

definition new_entries :: "u8 list option \<Rightarrow> u8 list list" where
  "new_entries s = (case s of None \<Rightarrow> [] | Some s \<Rightarrow> [lp_entry s])"

lemma holds_delete: "ele_holds ele s \<Longrightarrow> ele = Eledelete \<longleftrightarrow> s = None"
  by (auto elim: ele_holdsE)

lemma lp_enc_dec_int: "llong v \<Longrightarrow> lp_enc (dec_int v) = lpEncodeIntegerGetType v"
proof -
  assume "llong v"
  then have "string2ll (dec_int v) = Some v" by (simp add: string2ll_iff llong_def)
  then show ?thesis by (simp add: lp_enc_def)
qed

lemma length_dec_int: "llong v \<Longrightarrow> length (dec_int v) < 32"
proof -
  assume "llong v"
  then have "lpStringToInt64 (dec_int v) = Some v" by (simp add: string_is_int)
  then show ?thesis using long_not_int [of "dec_int v"] by (cases "32 \<le> length (dec_int v)") simp_all
qed

text \<open>What \<open>lpInsert\<close> computes before it moves anything.\<close>

lemma holds_encode:
  assumes "ele_holds ele s"
  obtains ei eb where "(case ele of Elestr s \<Rightarrow> lpEncodeGetType s | Eleint e \<Rightarrow> (Some e, w64 (length e)) | Eledelete \<Rightarrow> (None, 0)) = (ei, w64 (length eb))"
    "eb = (case s of None \<Rightarrow> [] | Some x \<Rightarrow> lp_enc x)" "length eb < 2 ^ 33"
    "ele \<noteq> Eledelete \<longrightarrow> (\<forall>lp p. (case (ei, ele) of (Some e, _) \<Rightarrow> bwrite lp p e | (None, Elestr s) \<Rightarrow> bwrite lp p (lpEncodeString s) | _ \<Rightarrow> None) = bwrite lp p eb)"
  using assms
proof cases
  case (str x)
  obtain i where i: "lpEncodeGetType x = (i, w64 (length (lp_enc x)))" "case i of Some e \<Rightarrow> e = lp_enc x | None \<Rightarrow> lpEncodeString x = lp_enc x"
    using encode_type [OF str(3)] by blast
  have "length (lp_enc x) < 2 ^ 33" using length_enc_le [of x] str(3) by simp
  then show ?thesis using i str(1,2) by (intro that [of i "lp_enc x"]; cases i) simp_all
next
  case (int v)
  then have "length (lpEncodeIntegerGetType v) < 2 ^ 33" using length_int_enc [of v] by simp
  with int show ?thesis
    by (intro that [of "Some (lpEncodeIntegerGetType v)" "lpEncodeIntegerGetType v"]) (simp_all add: lp_enc_dec_int)
next
  case del
  then show ?thesis using that [of None "[]"] by (simp add: w64_def)
qed

lemma storable_if_fits:
  assumes "ele_holds ele (Some s)" "length (lp_entry s) < 2 ^ 32"
  shows "lp_storable s"
proof (cases "string2ll s")
  case (Some v)
  then have "llong v" "s = dec_int v" by (simp_all add: string2ll_iff llong_def)
  then show ?thesis using length_dec_int [of v] by (simp add: lp_storable_def)
next
  case None
  have enc: "lp_enc s = lpEncodeString s" using None by (simp add: lp_enc_def)
  define l where "l = w64 (length (lp_enc s))"
  have "lp_storable s" if "2 ^ 30 \<le> length s"
  proof -
    have n: "length (lp_enc s) < 2 ^ 32" "2 ^ 30 < length (lp_enc s)"
      using assms(2) that length_str_enc(1) [of s] by (simp_all add: lp_entry_def enc)
    then have "unat l = length (lp_enc s)" by (simp add: l_def unat_w64)
    then have "unat (lpEncodeBacklenBytes l) = 5" using n by (simp add: lpEncodeBacklenBytes_def word_le_nat_alt word_less_nat_alt)
    moreover have "5 + length s \<le> length (lp_enc s)"
      using that assms(1) unat_w32 [of "length s"]
      by (auto simp: enc lpEncodeString_def Let_def word_less_nat_alt elim!: ele_holdsE dest: length_dec_int)
    ultimately show ?thesis using assms(2) by (simp add: lp_entry_def length_backlen lp_storable_def l_def)
  qed
  then show ?thesis by (cases "2 ^ 30 \<le> length s") (auto simp: lp_storable_def)
qed

lemma head_header: "lp_head num es i = header_of (7 + length (concat es)) num (concat (take i es))"
  by (simp add: lp_head_def header_of_def)

lemma new_rep:
  assumes r: "lp_rep lp num es" and ij: "i \<le> j" "j \<le> length es" and new: "list_all entry_ok new"
    and num: "num_ok num' (change_at es i j new)" and small: "7 + length (concat (change_at es i j new)) < 2 ^ 32"
  shows "lp_rep (header_of (7 + length (concat (change_at es i j new))) num' (concat (take i es) @ concat new @ lp_tail es j) @ Y) num' (change_at es i j new)"
proof -
  have "list_all entry_ok (change_at es i j new)"
    using r new by (auto simp: lp_rep_def change_at_def list_all_iff dest: in_set_takeD in_set_dropD)
  then have "lp_rep (lp_pack num' (change_at es i j new) @ Y) num' (change_at es i j new)"
    using num small by (rule lp_rep_pack)
  moreover have "lp_pack num' (change_at es i j new) = header_of (7 + length (concat (change_at es i j new))) num' (concat (take i es) @ concat new @ lp_tail es j)"
    by (simp add: lp_pack_def header_of_def lp_tail_def change_at_def)
  ultimately show ?thesis by simp
qed

lemma tail_eof:
  assumes "lp_rep lp num es" "j \<le> length es"
  shows "lp_tail es j \<noteq> []" "hd (lp_tail es j) = LP_EOF \<longleftrightarrow> j = length es"
proof -
  show "lp_tail es j \<noteq> []" by (simp add: lp_tail_def)
  show "hd (lp_tail es j) = LP_EOF \<longleftrightarrow> j = length es"
  proof (cases "j = length es")
    case False
    then have j: "j < length es" using assms(2) by simp
    then have "es ! j \<noteq> []" "hd (es ! j) \<noteq> LP_EOF" using lp_entry_ok [OF assms(1) j] by (auto elim: entry_okD)
    moreover have "drop j es = es ! j # drop (Suc j) es" using j by (simp add: Cons_nth_drop_Suc)
    ultimately show ?thesis using False by (simp add: lp_tail_def)
  qed (simp add: lp_tail_def)
qed

lemma replaced_size:
  assumes "lp_rep lp num es" "i < length es"
  obtains n where "lpCurrentEncodedSizeUnsafe lp (int (lp_off es i)) = Some n"
    "n + ucast (lpEncodeBacklenBytes (ucast n)) = w32 (length (es ! i))"
    "ASSERT_INTEGRITY_LEN lp (int (lp_off es i)) (w32 (length (es ! i))) = Some ()"
proof -
  obtain sz where sz: "lpCurrentEncodedSizeUnsafe lp (int (lp_off es i)) = Some sz" "length (es ! i) = entrylen sz"
    using lp_backlen [OF assms] by metis
  have le: "lp_off es i + length (es ! i) < 7 + length (concat es)" "7 + length (concat es) < 2 ^ 32"
    using lp_off_le [of es "Suc i"] assms by (auto simp: lp_off_Suc lp_rep_def)
  have "unat (ucast (lpEncodeBacklenBytes (ucast sz)) :: u32) = unat (lpEncodeBacklenBytes (ucast sz))"
    by (simp add: lpEncodeBacklenBytes_def)
  then have "unat (sz + ucast (lpEncodeBacklenBytes (ucast sz))) = length (es ! i)"
    using le sz(2) by (simp add: unat_word_ariths entrylen_def)
  moreover have "unat (w32 (length (es ! i))) = length (es ! i)" using le by (simp add: unat_w32)
  ultimately have n: "sz + ucast (lpEncodeBacklenBytes (ucast sz)) = w32 (length (es ! i))"
    by (metis word_unat_eq_iff)
  have "uint (w32 (length (es ! i))) = int (length (es ! i))" "uint (w32 (7 + length (concat es))) = int (7 + length (concat es))"
    using le by (simp_all add: uint_nat unat_w32)
  then have "ASSERT_INTEGRITY_LEN lp (int (lp_off es i)) (w32 (length (es ! i))) = Some ()"
    using le lp_off_mono [of 0 i es] by (simp add: ASSERT_INTEGRITY_LEN_def get_header [OF assms(1)] LP_HDR_SIZE_def)
  then show thesis using that sz(1) n by blast
qed

text \<open>The place where an element goes: before entry \<open>i\<close>, or instead of it.\<close>

definition insert_end :: "lp_where \<Rightarrow> u8 list option \<Rightarrow> nat \<Rightarrow> nat" where
  "insert_end w s i = (if w = LP_REPLACE \<or> s = None then Suc i else i)"

lemma num_ok_change:
  assumes "num_ok num es" "i \<le> j" "j \<le> length es" "j = insert_end w s i"
  shows "num_ok (new_num (if s = None then LP_REPLACE else w) (s = None) num) (change_at es i j (new_entries s))"
proof -
  have len: "length (change_at es i j (new_entries s)) = (if s = None then length es - 1 else if w = LP_REPLACE then length es else length es + 1)"
    using assms(2-) by (cases s) (auto simp: change_at_def new_entries_def insert_end_def)
  have "s = None \<Longrightarrow> 0 < length es" using assms(2-) by (auto simp: insert_end_def)
  then show ?thesis
    using assms(1) unfolding num_ok_def len new_num_def by (cases "num = 65535"; cases s; cases "w = LP_REPLACE") (simp_all, linarith+)
qed

text \<open>The bytes that are replaced.\<close>

definition replaced_len :: "u8 list \<Rightarrow> int \<Rightarrow> lp_where \<Rightarrow> u32 option" where
  "replaced_len lp poff w =
     (if w = LP_REPLACE then
        do {
          n \<leftarrow> lpCurrentEncodedSizeUnsafe lp poff;
          let n = n + ucast (lpEncodeBacklenBytes (ucast n));
          ASSERT_INTEGRITY_LEN lp poff n;
          Some n
        }
      else Some 0)"

lemma replaced_len_mid:
  assumes "lp_rep lp num es" "j = insert_end w s i" "i \<le> j" "j \<le> length es"
  shows "replaced_len lp (int (lp_off es i)) (if s = None then LP_REPLACE else w) = Some (w32 (length (lp_mid es i j)))"
proof (cases "w = LP_REPLACE \<or> s = None")
  case True
  then have "j = Suc i" using assms(2) by (simp add: insert_end_def)
  then have i: "i < length es" and M: "lp_mid es i j = es ! i" using assms(4) by (simp_all add: lp_mid_def take_Suc_conv_app_nth)
  obtain n where "lpCurrentEncodedSizeUnsafe lp (int (lp_off es i)) = Some n"
    "n + ucast (lpEncodeBacklenBytes (ucast n)) = w32 (length (es ! i))"
    "ASSERT_INTEGRITY_LEN lp (int (lp_off es i)) (w32 (length (es ! i))) = Some ()"
    using replaced_size [OF assms(1) i] .
  then show ?thesis using True by (auto simp: M replaced_len_def)
next
  case False
  then show ?thesis using assms(2) by (auto simp: replaced_len_def insert_end_def lp_mid_def w32_def)
qed

lemma new_bytes_sum:
  assumes "new + m = tot + a + b" "m < 2 ^ 32"
  shows "w64 tot + w64 a + w64 b - ucast (w32 m) = w64 new"
proof -
  have "ucast (w32 m) = w64 m" using assms(2) by (simp add: ucast_w32)
  moreover have "w64 new + w64 m = w64 tot + w64 a + w64 b" using assms(1) by (simp add: w64_def flip: of_nat_add)
  ultimately show ?thesis by (simp add: algebra_simps)
qed

text \<open>
  The outcome of an update that makes the entries \<open>es'\<close>: a listpack that represents them and the pointer to
  entry \<open>i\<close>, or \<open>NULL\<close>, because they do not fit in 32 bits of size or an allocation failed.
\<close>

definition lp_outcome :: "lp_heap \<Rightarrow> u8 list list \<Rightarrow> nat \<Rightarrow> (u8 list \<times> int option) option \<Rightarrow> bool" where
  "lp_outcome A es' i r \<longleftrightarrow>
     (case r of
        None \<Rightarrow> 2 ^ 32 \<le> 7 + length (concat es') \<or> (\<exists>bs n. lp_realloc A bs n = None)
      | Some (lp', newp) \<Rightarrow> lp_repr lp' es' \<and> newp = lp_ptr es' i)"

lemma eofptr_off: "lp_rep lp num es \<Longrightarrow> eofptr lp = Some (int (lp_off es (length es)))"
  by (simp add: eofptr_def get_bytes uint_total [simplified] lp_off_end)

text \<open>The outcome on strings: the new listpack holds \<open>xs\<close>.\<close>

definition lp_becomes :: "lp_heap \<Rightarrow> u8 list list \<Rightarrow> u8 list list \<Rightarrow> nat \<Rightarrow> (u8 list \<times> int option) option \<Rightarrow> bool" where
  "lp_becomes A es' xs i r \<longleftrightarrow> lp_outcome A es' i r \<and> (r \<noteq> None \<longrightarrow> lp_strings es' = xs)"

lemma outcome_value:
  assumes "lp_outcome A es' i r" "r \<noteq> None" "lp_entry s \<in> set es'" "length s < 2 ^ 32"
  shows "lp_value (lp_entry s) = Some s"
proof -
  have "7 + length (concat es') < 2 ^ 32" using assms(1,2) by (auto simp: lp_outcome_def lp_repr_def lp_rep_def)
  moreover have "length (lp_entry s) \<le> length (concat es')"
    using split_list [OF assms(3)] by auto
  ultimately show ?thesis using storable_if_fits [OF ele_holds.str [OF assms(4)]] by (simp add: entry_value)
qed

lemma becomes_change:
  assumes "lp_outcome A (change_at es i j [lp_entry s]) k r" "length s < 2 ^ 32"
  shows "lp_becomes A (change_at es i j [lp_entry s]) (change_at (lp_strings es) i j [s]) k r"
proof -
  have "lp_value (lp_entry s) = Some s" if "r \<noteq> None"
    using outcome_value [OF assms(1) that _ assms(2)] by (simp add: change_at_def)
  then show ?thesis using assms(1) by (auto simp: lp_becomes_def lp_strings_def change_at_def take_map drop_map)
qed

lemma becomes_delete:
  "lp_outcome A (change_at es i j []) k r \<Longrightarrow> lp_becomes A (change_at es i j []) (change_at (lp_strings es) i j []) k r"
  by (auto simp: lp_becomes_def lp_strings_def change_at_def take_map drop_map)

context lp_allocator begin

lemma grow_keeps:
  assumes "grow A (xs @ ys) (w64 (length xs)) (w64 new) = Some b" "length xs < 2 ^ 32" "new < 2 ^ 32"
  shows "\<exists>zs. b = xs @ zs \<and> new \<le> length b"
proof (cases "new > length xs \<and> new > length (xs @ ys)")
  case True
  then have "lp_realloc A (xs @ ys) new = Some b"
    using assms by (simp add: grow_def word_less_nat_alt unat_w64)
  then show ?thesis using realloc_keeps [of xs ys new b] True by auto
next
  case False
  then have "b = xs @ ys" using assms by (auto simp: grow_def word_less_nat_alt unat_w64)
  then show ?thesis using False by auto
qed

lemma insert_at_correct:
  assumes lp: "lp = header_of tot num B @ M @ T @ J" and poff: "poff = int (length (header_of tot num B))"
    and tot: "tot = length (header_of tot num B @ M @ T)" "tot < 2 ^ 32"
    and E: "E = (if ele = Eledelete then [] else eb @ bl)" "length E = length eb + length bl"
    and new: "new = length (header_of tot num B @ E @ T)" "new < 2 ^ 32"
    and w: "w = LP_BEFORE \<Longrightarrow> M = []"
    and num: "num \<le> 65535" "ele = Eledelete \<longrightarrow> 0 < num" and T: "T \<noteq> []"
    and store: "\<And>lp. ele \<noteq> Eledelete \<Longrightarrow>
      (case (ei, ele) of (Some e, _) \<Rightarrow> bwrite lp poff e | (None, Elestr s) \<Rightarrow> bwrite lp poff (lpEncodeString s) | _ \<Rightarrow> None) = bwrite lp poff eb"
  shows "\<exists>r. insert_at A lp ele ei (w64 (length eb)) bl poff w (w32 (length M)) (w64 tot) (w64 new) = Some r \<and>
    (case r of
       None \<Rightarrow> \<exists>bs n. lp_realloc A bs n = None
     | Some (lp', newp) \<Rightarrow>
         (\<exists>Y. lp' = header_of new (new_num w (ele = Eledelete) num) (B @ E @ T) @ Y) \<and>
         newp = (if ele = Eledelete \<and> hd T = LP_EOF then None else Some poff))"
proof -
  define P where "P = header_of tot num B"
  have sizes: "uint (w64 tot) = int tot" "uint (w32 (length M)) = int (length M)"
    "uint (w64 (length eb + length bl)) = int (length E)" "uint (w64 (length eb)) = int (length eb)" "unat (w64 new) = new"
    using tot new E(2) by (auto simp: uint_nat unat_w64 unat_w32 P_def)
  have arg: "size_arg (int tot - int (length P) - int (length M)) = length T" "M = [] \<Longrightarrow> size_arg (int tot - int (length P)) = length T"
    using tot by (auto simp: size_arg_def P_def)
  show ?thesis
  proof (cases "grow A lp (w64 tot) (w64 new)")
    case None
    then show ?thesis by (auto simp: insert_at_def or_null_def grow_def split: if_splits)
  next
    case (Some lp1)
    obtain J1 where lp1: "lp1 = (P @ M @ T) @ J1" "new \<le> length lp1"
      using grow_keeps [of "P @ M @ T" J new lp1] Some tot new(2) by (auto simp: lp P_def)
    have "length P + length E + length T \<le> length (P @ M @ T @ J1)" using lp1 new(1) by (simp add: P_def)
    from splice_move [OF this] obtain X Y where X: "length X = length E"
      and move: "bmove (P @ M @ T @ J1) (int (length P + length E)) (int (length P + length M)) (length T) = Some (P @ X @ T @ Y)" by blast
    have moved: "(if w = LP_BEFORE then bmove lp1 (poff + uint (w64 (length eb) + w64 (length bl))) poff (size_arg (uint (w64 tot) - poff))
        else bmove lp1 (poff + uint (w64 (length eb) + w64 (length bl))) (poff + uint (w32 (length M)))
          (size_arg (uint (w64 tot) - poff - uint (w32 (length M))))) = Some (P @ X @ T @ Y)"
      using move w by (auto simp: sizes arg lp1(1) poff P_def [symmetric])
    show ?thesis
    proof (cases "w64 new < w64 tot \<and> lp_realloc A (P @ X @ T @ Y) new = None")
      case True
      then show ?thesis using Some moved sizes(5) by (auto simp: insert_at_def or_null_def Let_def)
    next
      case False
      have len: "length (P @ X @ T) = new" using X new(1) by (simp add: P_def)
      obtain Y' where Y': "(if w64 new < w64 tot then lp_realloc A (P @ X @ T @ Y) (unat (w64 new)) else Some (P @ X @ T @ Y)) =
          Some (P @ X @ T @ Y')"
      proof (cases "w64 new < w64 tot")
        case True
        then obtain b where b: "lp_realloc A (P @ X @ T @ Y) new = Some b" using False by auto
        then obtain zs where "b = (P @ X @ T) @ zs" using realloc_keeps [of "P @ X @ T" Y new b] len by auto
        then show ?thesis using that [of zs] b True sizes(5) by simp
      qed (use that [of Y] in simp)
      have "insert_at A lp ele ei (w64 (length eb)) bl poff w (w32 (length M)) (w64 tot) (w64 new) =
          Some (Some (header_of new (new_num w (ele = Eledelete) num) (B @ E @ T @ Y'), if ele = Eledelete \<and> hd T = LP_EOF then None else Some poff))"
        using finish_insert [OF X E(1) T poff num sizes(4) store, of Y' w new]
        unfolding insert_at_def Let_def Some or_null_def option.case moved bind.simps Y' P_def [symmetric] by simp
      then show ?thesis by (simp add: header_of_def)
    qed
  qed
qed

text \<open>
  \<open>lpInsert\<close> at the offset of entry \<open>i\<close>, before it or in place of it: the result represents the changed
  list and the pointer is that of the new entry, or of the one that followed a deleted one.
\<close>

lemma insert_splice:
  assumes r: "lp_rep lp num es" and ele: "ele_holds ele s" and w: "w \<noteq> LP_AFTER"
    and j: "j = insert_end w s i" "i \<le> j" "j \<le> length es" and es': "es' = change_at es i j (new_entries s)"
  shows "\<exists>r. lpInsert A lp ele (int (lp_off es i)) w = Some r \<and> lp_outcome A es' i r"
proof -
  define tot where "tot = 7 + length (concat es)"
  define M where "M = lp_mid es i j"
  define T where "T = lp_tail es j"
  define B where "B = concat (take i es)"
  define E where "E = concat (new_entries s)"
  define new where "new = 7 + length (concat es')"
  define w' where "w' = (if s = None then LP_REPLACE else w)"
  obtain ei eb where enc: "(case ele of Elestr s \<Rightarrow> lpEncodeGetType s | Eleint e \<Rightarrow> (Some e, w64 (length e)) | Eledelete \<Rightarrow> (None, 0)) = (ei, w64 (length eb))"
    and eb: "eb = (case s of None \<Rightarrow> [] | Some x \<Rightarrow> lp_enc x)" "length eb < 2 ^ 33"
    and store: "ele \<noteq> Eledelete \<longrightarrow> (\<forall>lp p. (case (ei, ele) of (Some e, _) \<Rightarrow> bwrite lp p e | (None, Elestr s) \<Rightarrow> bwrite lp p (lpEncodeString s) | _ \<Rightarrow> None) = bwrite lp p eb)"
    using holds_encode [OF ele] .
  define bl where "bl = (if ele \<noteq> Eledelete then lpEncodeBacklen (w64 (length eb)) else [])"
  note del = holds_delete [OF ele]
  have E: "E = (if ele = Eledelete then [] else eb @ bl)" "length E = length eb + length bl"
    using eb(1) by (auto simp: E_def new_entries_def bl_def del lp_entry_def split: option.splits)
  obtain J where lp: "lp = header_of tot num B @ M @ T @ J" and off: "length (header_of tot num B) = lp_off es i"
    and tot: "length (header_of tot num B @ M @ T) = tot"
    using lp_cut [OF r j(2)] unfolding head_header tot_def M_def T_def B_def by metis
  have small: "tot < 2 ^ 32" using r by (simp add: tot_def lp_rep_def)
  have new: "new = length (header_of tot num B @ E @ T)"
    by (simp add: new_def es' change_at_def header_of_def B_def E_def T_def lp_tail_def)
  have "length bl \<le> 5" using backlen_bytes_le(1) [of "w64 (length eb)"] by (simp add: bl_def length_backlen)
  then have new34: "new < 2 ^ 34" using new tot small E(2) eb(2) by simp
  have repl: "replaced_len lp (int (lp_off es i)) w' = Some (w32 (length M))"
    unfolding M_def w'_def by (rule replaced_len_mid [OF r j])
  have sum: "w64 tot + w64 (length eb) + w64 (length bl) - ucast (w32 (length M)) = w64 new"
    by (rule new_bytes_sum) (use tot E(2) small in \<open>simp_all add: new\<close>)
  have big: "UINT32_MAX < w64 new \<longleftrightarrow> 2 ^ 32 \<le> new"
    using new34 by (auto simp: UINT32_MAX_def word_less_nat_alt unat_w64)
  have ins: "lpInsert A lp ele (int (lp_off es i)) w =
      (if 2 ^ 32 \<le> new then Some None else insert_at A lp ele ei (w64 (length eb)) bl (int (lp_off es i)) w' (w32 (length M)) (w64 tot) (w64 new))"
  proof -
    have bytes: "lpBytes lp = Some (w64 tot)" using get_bytes [OF r] by (simp add: tot_def)
    have w': "(w' = LP_AFTER) = False" using w by (simp add: w'_def)
    show ?thesis
      unfolding lpInsert_def Let_def del w'_def [symmetric]
      by (simp only: w' if_False bind.simps prod.case enc bytes repl [unfolded replaced_len_def Let_def] bl_def [unfolded del, symmetric] sum big)
  qed
  show ?thesis
  proof (cases "2 ^ 32 \<le> new")
    case True
    then show ?thesis by (simp add: ins new_def lp_outcome_def)
  next
    case False
    have num: "num \<le> 65535" "ele = Eledelete \<longrightarrow> 0 < num"
      using r j by (auto simp: lp_rep_def num_ok_def del insert_end_def)
    have entry: "list_all entry_ok (new_entries s)"
    proof (cases s)
      case (Some x)
      then have "length (lp_entry x) < 2 ^ 32" using False unfolding new by (simp add: E_def new_entries_def)
      then show ?thesis using storable_if_fits [of ele x] ele Some by (simp add: new_entries_def entry_ok_entry)
    qed (simp add: new_entries_def)
    have ptr: "(if ele = Eledelete \<and> hd T = LP_EOF then None else Some (int (lp_off es i))) = lp_ptr es' i"
      using tail_eof(2) [OF r j(3)] j by (cases s) (auto simp: T_def del es' lp_ptr_def change_at_def new_entries_def insert_end_def lp_off_def)
    have "num_ok (new_num w' (ele = Eledelete) num) es'"
      using num_ok_change [of num es i j w s] r j by (simp add: lp_rep_def w'_def del es')
    then have rep: "lp_rep (header_of new (new_num w' (ele = Eledelete) num) (B @ E @ T) @ Y) (new_num w' (ele = Eledelete) num) es'" for Y
      using new_rep [OF r j(2,3) entry, of _ Y] False unfolding new_def es' B_def E_def T_def by simp
    have poff: "int (lp_off es i) = int (length (header_of tot num B))" and new32: "new < 2 ^ 32" and T: "T \<noteq> []"
      using off False tail_eof(1) [OF r j(3)] by (simp_all add: T_def)
    have before: "M = []" if "w' = LP_BEFORE"
      using that j(1) by (auto simp: insert_end_def w'_def M_def lp_mid_def split: if_splits)
    obtain r where "insert_at A lp ele ei (w64 (length eb)) bl (int (lp_off es i)) w' (w32 (length M)) (w64 tot) (w64 new) = Some r" and
      r: "case r of
         None \<Rightarrow> \<exists>bs n. lp_realloc A bs n = None
       | Some (lp', newp) \<Rightarrow>
           (\<exists>Y. lp' = header_of new (new_num w' (ele = Eledelete) num) (B @ E @ T) @ Y) \<and>
           newp = (if ele = Eledelete \<and> hd T = LP_EOF then None else Some (int (lp_off es i)))"
      using insert_at_correct [OF lp poff tot [symmetric] small E new new32 before num T spec [OF spec [OF mp [OF store]]]] by blast
    then show ?thesis
      using rep ptr False by (auto simp: ins lp_outcome_def lp_repr_def split: option.splits)
  qed
qed

lemma insert_before:
  assumes "lp_rep lp num es" "i \<le> length es" "ele_holds ele (Some s)"
  shows "\<exists>r. lpInsert A lp ele (int (lp_off es i)) LP_BEFORE = Some r \<and> lp_outcome A (change_at es i i [lp_entry s]) i r"
  using insert_splice [OF assms(1,3), of LP_BEFORE i i] assms(2) by (simp add: insert_end_def new_entries_def)

lemma insert_after:
  assumes "lp_rep lp num es" "i < length es" "ele_holds ele (Some s)"
  shows "\<exists>r. lpInsert A lp ele (int (lp_off es i)) LP_AFTER = Some r \<and>
    lp_outcome A (change_at es (Suc i) (Suc i) [lp_entry s]) (Suc i) r"
proof -
  have n: "uint (w32 (7 + length (concat es))) = int (7 + length (concat es))"
    using assms(1) by (simp add: uint_nat unat_w32 lp_rep_def)
  have "ele \<noteq> Eledelete" using holds_delete [OF assms(3)] by simp
  moreover have "ASSERT_INTEGRITY lp (int (lp_off es (Suc i))) = Some ()"
    using lp_off_le [of es "Suc i"] lp_off_mono [of 0 "Suc i" es] by (simp add: ASSERT_INTEGRITY_def get_header [OF assms(1)] n LP_HDR_SIZE_def)
  ultimately have "lpInsert A lp ele (int (lp_off es i)) LP_AFTER = lpInsert A lp ele (int (lp_off es (Suc i))) LP_BEFORE"
    using lp_skip [OF assms(1,2)] by (simp add: lpInsert_def)
  then show ?thesis using insert_before [OF assms(1) _ assms(3), of "Suc i"] assms(2) by simp
qed

lemma insert_instead:
  assumes "lp_rep lp num es" "i < length es" "ele_holds ele (Some s)"
  shows "\<exists>r. lpInsert A lp ele (int (lp_off es i)) LP_REPLACE = Some r \<and> lp_outcome A (change_at es i (Suc i) [lp_entry s]) i r"
  using insert_splice [OF assms(1,3), of LP_REPLACE "Suc i" i] assms(2)
  by (simp add: insert_end_def new_entries_def)

lemma delete_at:
  assumes "lp_rep lp num es" "i < length es"
  shows "\<exists>r. lpDelete A lp (int (lp_off es i)) = Some r \<and> lp_outcome A (change_at es i (Suc i) []) i r"
  using insert_splice [OF assms(1) ele_holds.del, of LP_REPLACE "Suc i" i] assms(2)
  by (simp add: lpDelete_def insert_end_def new_entries_def)

lemma append_entry:
  assumes "lp_rep lp num es" "ele_holds ele (Some s)"
  shows "\<exists>r. do { p \<leftarrow> eofptr lp; lpInsert A lp ele p LP_BEFORE } = Some r \<and> lp_outcome A (es @ [lp_entry s]) (length es) r"
proof -
  show ?thesis using eofptr_off [OF assms(1)] insert_before [OF assms(1) le_refl assms(2)] by (simp add: change_at_def)
qed

lemma prepend_entry:
  assumes "lp_rep lp num es" "ele_holds ele (Some s)"
  shows "\<exists>r. do { r \<leftarrow> lpFirst lp; case r of
        None \<Rightarrow> do { p \<leftarrow> eofptr lp; lpInsert A lp ele p LP_BEFORE }
      | Some p \<Rightarrow> lpInsert A lp ele p LP_BEFORE } = Some r \<and> lp_outcome A (lp_entry s # es) 0 r"
proof (cases "es = []")
  case True
  then show ?thesis using append_entry [OF assms] lp_first [OF assms(1)] by (simp add: lp_ptr_def)
next
  case False
  then show ?thesis using insert_before [OF assms(1) _ assms(2), of 0] lp_first [OF assms(1)] by (simp add: lp_ptr_def change_at_def)
qed

end

end
