(* ===== verification/Listpack_Batch.thy ===== *)
theory Listpack_Batch
  imports Listpack_Change
begin

text \<open>
  Creating a listpack, deleting a range, inserting several elements and joining two listpacks, on what
  the bytes represent. Where the code does not check an allocation, or asserts that the result is small
  enough, the facts assume it.
\<close>

definition realloc_fails :: "lp_heap \<Rightarrow> bool" where
  "realloc_fails A \<longleftrightarrow> (\<exists>bs n. lp_realloc A bs n = None)"

lemma pack_header: "lp_pack num es = header_of (7 + length (concat es)) num (concat es @ [LP_EOF])"
  by (simp add: lp_pack_def header_of_def)

lemma header_app: "header_of tot num B @ Z = header_of tot num (B @ Z)"
  by (simp add: header_of_def)

lemma num_header: "ucast v = w32 n \<Longrightarrow> lpSetNumElements (header_of tot num body) v = Some (header_of tot n body)"
  by (simp add: header_of_def set_header)

lemma off_mid: "i \<le> j \<Longrightarrow> lp_off es j = lp_off es i + length (lp_mid es i j)"
proof -
  assume "i \<le> j"
  then have "take j es = take i es @ take (j - i) (drop i es)" by (metis le_add_diff_inverse take_add)
  then show ?thesis by (simp add: lp_off_def lp_mid_def)
qed

section \<open>Deleting a range\<close>

lemma delete_tail_off:
  assumes r: "lp_rep lp num es"
  shows "i < length es \<Longrightarrow> delete_tail lp (w64 (7 + length (concat es))) n (int (lp_off es i)) d =
    Some (int (lp_off es (min (i + n) (length es))), d + w64 (min n (length es - i)))"
proof (induction n arbitrary: i d)
  case 0
  then show ?case by (simp add: w64_def)
next
  case (Suc n)
  obtain b where b: "byte_at lp (int (lp_off es (Suc i))) = Some b" "b = LP_EOF \<longleftrightarrow> Suc i = length es"
    using eof_iff [OF r, of "Suc i"] Suc.prems by auto
  show ?case
  proof (cases "Suc i = length es")
    case True
    then have "length es - i = 1" "min (i + Suc n) (length es) = Suc i" by simp_all
    then show ?thesis using lp_skip [OF r Suc.prems] b True by (simp add: w64_def)
  next
    case False
    then have i: "Suc i < length es" using Suc.prems by simp
    have "min (Suc n) (length es - i) = Suc (min n (length es - Suc i))" using i by simp
    then show ?thesis
      using lp_skip [OF r Suc.prems] b False assert_valid [OF r, of "Suc i"] Suc.IH [OF i, of "d + 1"] i
      by (simp add: w64_def)
  qed
qed

text \<open>The count of elements after \<open>k\<close> were deleted.\<close>

lemma count_deleted:
  assumes "num \<le> 65535" "num \<noteq> 65535 \<Longrightarrow> k \<le> num"
  shows "do {
      numele \<leftarrow> lpGetNumElements (header_of tot num body);
      if numele \<noteq> LP_HDR_NUMELE_UNKNOWN then lpSetNumElements (header_of tot num body) (ucast numele - w64 k) else Some (header_of tot num body)
    } = Some (header_of tot (if num = 65535 then num else num - k) body)"
proof -
  have "ucast (ucast (w32 num) - w64 k) = w32 (num - k)" if "num \<noteq> 65535"
    using assms that by (simp add: ucast_w32 ucast_w64)
  then show ?thesis using num_unknown [OF assms(1)] by (simp add: num_of_header [OF assms(1)] num_header)
qed

text \<open>The position of the element with a given index.\<close>

definition index_pos :: "'a list \<Rightarrow> int \<Rightarrow> nat option" where
  "index_pos xs index =
     (let i = (if index < 0 then int (length xs) + index else index) in if 0 \<le> i \<and> i < int (length xs) then Some (nat i) else None)"

lemma lp_index_pos: "lp_index es index = map_option (\<lambda>i. int (lp_off es i)) (index_pos es index)"
  by (simp add: lp_index_def index_pos_def lp_ptr_def Let_def nat_less_iff)

definition without_range :: "'a list \<Rightarrow> int \<Rightarrow> nat \<Rightarrow> 'a list" where
  "without_range xs index n = (case index_pos xs index of None \<Rightarrow> xs | Some i \<Rightarrow> change_at xs i (min (i + n) (length xs)) [])"

context lp_allocator begin

lemma lp_new:
  "\<exists>r. lpNew A capacity = Some r \<and>
    (case r of None \<Rightarrow> lp_malloc A (max capacity 7) = None | Some lp \<Rightarrow> lp_rep lp 0 [] \<and> capacity \<le> length lp)"
proof (cases "lp_malloc A (max capacity 7)")
  case None
  then show ?thesis by (simp add: lpNew_def max_def split: if_splits)
next
  case (Some b)
  then have len: "7 \<le> length b" "capacity \<le> length b" using malloc [OF Some] by auto
  have "lpNew A capacity = Some (Some (lp_pack 0 [] @ drop 7 b))"
    using Some len unfolding lpNew_def lpSetTotalBytes_def lpSetNumElements_def set_bytes
    by (simp add: bwrite_def lp_pack_def w32_def max_def split: if_splits)
  moreover have "lp_rep (lp_pack 0 [] @ drop 7 b) 0 []" by (rule lp_rep_pack) (simp_all add: num_ok_def)
  ultimately show ?thesis using len by (simp add: length_pack)
qed

lemma lp_shrink:
  assumes "lp_rep lp num es"
  shows "realloc_fails A \<and> lpShrinkToFit A lp = Some None \<or> (\<exists>lp'. lpShrinkToFit A lp = Some (Some lp') \<and> lp_rep lp' num es)"
proof -
  obtain junk where lp: "lp = lp_pack num es @ junk" using lp_repD [OF assms] .
  have n: "unat (w32 (7 + length (concat es))) = 7 + length (concat es)" using assms by (simp add: unat_w32 lp_rep_def)
  show ?thesis
  proof (cases "7 + length (concat es) < length lp")
    case True
    then have eq: "lpShrinkToFit A lp = Some (lp_realloc A lp (7 + length (concat es)))"
      by (simp add: lpShrinkToFit_def get_header [OF assms] n)
    show ?thesis
    proof (cases "lp_realloc A lp (7 + length (concat es))")
      case (Some b)
      then obtain zs where "b = lp_pack num es @ zs" using realloc_keeps [of "lp_pack num es" junk _ b] lp by (auto simp: length_pack)
      moreover have "lp_rep (lp_pack num es @ zs) num es" using assms by (intro lp_rep_pack) (auto simp: lp_rep_def)
      ultimately show ?thesis using eq Some by simp
    qed (use eq in \<open>auto simp: realloc_fails_def\<close>)
  next
    case False
    then show ?thesis using assms by (simp add: lpShrinkToFit_def get_header [OF assms] n)
  qed
qed

lemma delete_range_entry:
  assumes r: "lp_rep lp num es" and i: "i < length es" and es': "es' = change_at es i (min (i + unat n) (length es)) []"
  shows "realloc_fails A \<or> (\<exists>lp'. lpDeleteRangeWithEntry A lp (int (lp_off es i)) n = Some (Some (lp', lp_ptr es' i)) \<and> lp_repr lp' es')"
proof (cases "n = 0")
  case True
  then show ?thesis using r i es' by (auto simp: lpDeleteRangeWithEntry_def get_bytes [OF r] change_at_def lp_repr_def lp_ptr_def)
next
  case False
  define j where "j = min (i + unat n) (length es)"
  define tot where "tot = 7 + length (concat es)"
  define B where "B = concat (take i es)"
  define T where "T = lp_tail es j"
  have j: "i \<le> j" "j \<le> length es" using i by (simp_all add: j_def)
  obtain J where lp: "lp = header_of tot num B @ lp_mid es i j @ T @ J" and off: "length (header_of tot num B) = lp_off es i"
    and tot: "length (header_of tot num B @ lp_mid es i j @ T) = tot"
    using lp_cut [OF r j(1)] unfolding head_header tot_def T_def B_def by metis
  have small: "tot < 2 ^ 32" using r by (simp add: tot_def lp_rep_def)
  have num: "num \<le> 65535" "num = 65535 \<or> num = length es" using r by (auto simp: lp_rep_def num_ok_def)
  define new where "new = 7 + length (concat es')"
  have new: "new = length (header_of tot num B @ T)"
    by (simp add: new_def es' change_at_def header_of_def B_def T_def lp_tail_def j_def)
  have tail: "int (lp_off es j) = int (length (header_of tot num B) + length (lp_mid es i j))"
    by (simp add: off off_mid [OF j(1)])
  have "length (header_of tot num B) + 0 + length T \<le> length (header_of tot num B @ lp_mid es i j @ T @ J)" by simp
  from splice_move [OF this] obtain Y where move: "bmove lp (int (lp_off es i)) (int (lp_off es j)) (length T) = Some (header_of tot num (B @ T @ Y))"
    unfolding tail off [symmetric] lp by (auto simp: header_app)
  have mid: "new + length (lp_mid es i j) = tot" using tot new by simp
  have "w64 (length (lp_mid es i j)) = word_of_int (int (lp_off es j) - int (lp_off es i))"
    by (simp add: off_mid [OF j(1)] w64_def)
  then have size: "w64 tot - word_of_int (int (lp_off es j) - int (lp_off es i)) = w64 new"
    using mid by (metis w64_minus add_diff_cancel_right' le_add2)
  have arg: "size_arg (uint (w64 tot) - 1 - int (lp_off es j) + 1) = length T"
    using tot small off by (simp add: off_mid [OF j(1)] size_arg_def uint_nat unat_w64)
  define k where "k = min (unat n) (length es - i)"
  have k: "k = j - i" "num \<noteq> 65535 \<Longrightarrow> k \<le> num" using num(2) by (auto simp: k_def j_def)
  define num' where "num' = (if num = 65535 then num else num - k)"
  have es'': "es' = change_at es i j []" and len: "length es' = length es - k" "i \<le> length es'"
    using i j by (auto simp: es' change_at_def k(1) j_def)
  have num': "num_ok num' es'" using num(2) r len(1) by (auto simp: num'_def num_ok_def lp_rep_def)
  have "7 + length (concat es') < 2 ^ 32" using mid small by (simp add: new_def)
  then have rep: "lp_rep (header_of new num' (B @ T @ Y)) num' es'"
    using new_rep [OF r j, of "[]" num' Y] num' by (simp add: new_def es'' B_def T_def header_app)
  have step: "lpDeleteRangeWithEntry A lp (int (lp_off es i)) n =
    do {
      r \<leftarrow> lpShrinkToFit A (header_of new num' (B @ T @ Y));
      lp \<leftarrow> r;
      b \<leftarrow> byte_at lp (int (lp_off es i));
      Some (Some (lp, if b = LP_EOF then None else Some (int (lp_off es i))))
    }"
  proof -
    have bytes: "lpBytes lp = Some (w64 tot)" using get_bytes [OF r] by (simp add: tot_def)
    have loop: "delete_tail lp (w64 tot) (unat n) (int (lp_off es i)) 0 = Some (int (lp_off es j), w64 k)"
      using delete_tail_off [OF r i, of "unat n" 0] by (simp add: tot_def j_def k_def)
    have count: "do {
        numele \<leftarrow> lpGetNumElements (header_of new num (B @ T @ Y));
        lp \<leftarrow> (if numele \<noteq> LP_HDR_NUMELE_UNKNOWN then lpSetNumElements (header_of new num (B @ T @ Y)) (ucast numele - w64 k) else Some (header_of new num (B @ T @ Y)));
        f lp
      } = f (header_of new num' (B @ T @ Y))" for f
      using count_deleted [OF num(1) k(2), of new "B @ T @ Y"] by (simp add: num'_def num_of_header [OF num(1)])
    show ?thesis
      using False by (simp only: lpDeleteRangeWithEntry_def bytes bind.simps if_False Let_def loop prod.case arg move size total_header count)
  qed
  show ?thesis
  proof (cases "realloc_fails A")
    case False
    then obtain lp' where lp': "lpShrinkToFit A (header_of new num' (B @ T @ Y)) = Some (Some lp')" "lp_rep lp' num' es'"
      using lp_shrink [OF rep] by auto
    have off': "lp_off es' i = lp_off es i" using j i by (simp add: lp_off_def es'' change_at_def)
    obtain b where "byte_at lp' (int (lp_off es i)) = Some b" "b = LP_EOF \<longleftrightarrow> i = length es'"
      using eof_iff [OF lp'(2) len(2)] off' by auto
    then show ?thesis using lp' len(2) off' by (auto simp: step lp_ptr_def lp_repr_def)
  qed simp
qed

lemma truncate_at:
  assumes r: "lp_rep lp num es" and i: "i < length es" "i < 65535"
  shows "realloc_fails A \<or> (\<exists>lp'. do {
      lp \<leftarrow> bwrite lp (int (lp_off es i)) [LP_EOF];
      lp \<leftarrow> lpSetTotalBytes lp (word_of_int (int (lp_off es i) + 1));
      lp \<leftarrow> lpSetNumElements lp (w64 i);
      lpShrinkToFit A lp
    } = Some (Some lp') \<and> lp_repr lp' (take i es))"
proof -
  define tot where "tot = 7 + length (concat es)"
  define B where "B = concat (take i es)"
  obtain J where lp: "lp = header_of tot num B @ lp_mid es i (length es) @ lp_tail es (length es) @ J"
    and off: "length (header_of tot num B) = lp_off es i"
    using lp_cut [OF r less_imp_le [OF i(1)]] unfolding head_header tot_def B_def by metis
  define R where "R = drop 1 (lp_mid es i (length es) @ lp_tail es (length es) @ J)"
  have stored: "bwrite lp (int (lp_off es i)) [LP_EOF] = Some (header_of tot num (B @ [LP_EOF] @ R))"
    unfolding off [symmetric] bwrite_nat header_app [symmetric] by (simp add: lp R_def lp_tail_def)
  have small: "7 + length (concat (take i es)) < 2 ^ 32"
    using r lp_off_le [of es i] by (simp add: lp_rep_def lp_off_def)
  have total: "word_of_int (int (lp_off es i) + 1) = w64 (7 + length (concat (take i es)))"
    by (simp add: lp_off_def w64_def)
  have "change_at es i (length es) [] = take i es" by (simp add: change_at_def)
  moreover have "num_ok i (take i es)" using i by (simp add: num_ok_def)
  ultimately have rep: "lp_rep (header_of (7 + length (concat (take i es))) i (B @ [LP_EOF] @ R)) i (take i es)"
    using new_rep [OF r less_imp_le [OF i(1)] le_refl, of "[]" i R] small by (simp add: B_def lp_tail_def header_app)
  show ?thesis
    using lp_shrink [OF rep] unfolding stored bind.simps total total_header num_header [OF ucast_w64] by (auto simp: lp_repr_def)
qed

lemma delete_range:
  assumes r: "lp_rep lp num es"
  shows "realloc_fails A \<or> (\<exists>lp'. lpDeleteRange A lp index n = Some (Some lp') \<and> lp_repr lp' (without_range es index (unat n)))"
proof (cases "n = 0 \<or> index_pos es index = None")
  case True
  have "without_range es index (unat n) = es"
    using True by (auto simp: without_range_def change_at_def index_pos_def Let_def min_def split: option.splits if_splits)
  then show ?thesis using True r
    by (auto simp: lpDeleteRange_def get_header [OF r] lp_seek [OF r] lp_index_pos lp_repr_def)
next
  case False
  then obtain i where i: "index_pos es index = Some i" "n \<noteq> 0" by auto
  then have len: "i < length es" and idx: "int i = (if index < 0 then int (length es) + index else index)"
    by (auto simp: index_pos_def Let_def split: if_splits)
  have num: "num \<le> 65535" "num \<noteq> 65535 \<Longrightarrow> num = length es" using r by (auto simp: lp_rep_def num_ok_def)
  have es': "without_range es index (unat n) = change_at es i (min (i + unat n) (length es)) []"
    by (simp add: without_range_def i(1))
  have norm: "(if w32 num \<noteq> LP_HDR_NUMELE_UNKNOWN \<and> index < 0 then uint (w32 num) + index else index) = int i" if "num \<noteq> 65535"
    using num num_unknown [OF num(1)] that idx by (auto simp: uint_nat unat_w32)
  have left: "ucast (w32 num) - word_of_int (int i) \<le> n \<longleftrightarrow> length es - i \<le> unat n" if "num \<noteq> 65535"
    using num that len by (simp add: ucast_w32 word_le_nat_alt unat_w64 flip: w64_def)
  have step: "lpDeleteRange A lp index n =
      (if num \<noteq> 65535 \<and> length es - i \<le> unat n then
         do {
           lp \<leftarrow> bwrite lp (int (lp_off es i)) [LP_EOF];
           lp \<leftarrow> lpSetTotalBytes lp (word_of_int (int (lp_off es i) + 1));
           lp \<leftarrow> lpSetNumElements lp (w64 i);
           lpShrinkToFit A lp
         }
       else do { r \<leftarrow> lpDeleteRangeWithEntry A lp (int (lp_off es i)) n; Some (map_option fst r) })"
  proof (cases "num = 65535")
    case True
    then show ?thesis using i(2) num_unknown [OF num(1)]
      by (simp add: lpDeleteRange_def get_header [OF r] lp_seek [OF r] lp_index_pos i(1))
  next
    case False
    then show ?thesis
      using i(2) num_unknown [OF num(1)]
      unfolding lpDeleteRange_def get_header [OF r] lp_seek [OF r] lp_index_pos i(1) Let_def bind.simps norm [OF False] left [OF False]
      by (simp add: w64_def)
  qed
  show ?thesis
  proof (cases "num \<noteq> 65535 \<and> length es - i \<le> unat n")
    case True
    then have "change_at es i (min (i + unat n) (length es)) [] = take i es" "i < 65535"
      using num len by (auto simp: change_at_def min_def)
    then show ?thesis using truncate_at [OF r len] True by (simp add: es' step)
  next
    case False
    then show ?thesis using delete_range_entry [OF r len refl, of n] by (auto simp: es' step)
  qed
qed

end

section \<open>Joining\<close>

lemma split_pack: "lp_pack num es = header_of (7 + length (concat es)) num (concat es) @ [LP_EOF]"
  by (simp add: pack_header header_app)

lemma length_header_of [simp]: "length (header_of tot num B) = 6 + length B"
  by (simp add: header_of_def)

lemma read_body:
  assumes "lp_rep lp num es"
  shows "bread lp LP_HDR_SIZE (length (concat es) + 1) = Some (concat es @ [LP_EOF])"
    "bread lp 0 (6 + length (concat es)) = Some (header_of (7 + length (concat es)) num (concat es))"
proof -
  obtain junk where lp: "lp = header_of (7 + length (concat es)) num (concat es) @ [LP_EOF] @ junk"
    using lp_repD [OF assms] by (metis append_assoc split_pack)
  show "bread lp LP_HDR_SIZE (length (concat es) + 1) = Some (concat es @ [LP_EOF])"
    unfolding lp by (simp add: bread_def LP_HDR_SIZE_def header_of_def)
  show "bread lp 0 (6 + length (concat es)) = Some (header_of (7 + length (concat es)) num (concat es))"
    unfolding lp by (simp add: bread_def)
qed

text \<open>The two ways of joining: the second listpack is copied behind the first one, or the first one before the second.\<close>

lemma join_append:
  assumes "b = P @ zs" "length P + length C \<le> length b"
  shows "\<exists>Y. bwrite b (int (length P)) C = Some (P @ C @ Y)"
  using assms by (auto simp: bwrite_nat)

lemma join_prepend:
  assumes "bread b q (length C) = Some C" "length P + length C \<le> length b"
  shows "\<exists>b' Y. bmove b (int (length P)) q (length C) = Some b' \<and> bwrite b' 0 P = Some (P @ C @ Y)"
  using assms by (auto simp: bmove_def bwrite_nat bwrite_nat [of _ 0, simplified])

lemma joined_num:
  assumes "n1 < 2 ^ 32" "n2 < 2 ^ 32"
  shows "(if ucast (w32 n1) + ucast (w32 n2) < (0xFFFF :: u64) then ucast (w32 n1) + ucast (w32 n2) else 0xFFFF) =
    w64 (min (n1 + n2) 65535)"
proof -
  have "ucast (w32 n1) + ucast (w32 n2) = w64 (n1 + n2)" using assms by (simp add: ucast_w32)
  moreover have "w64 (n1 + n2) < 0xFFFF \<longleftrightarrow> n1 + n2 < 65535" using assms by (simp add: word_less_nat_alt unat_w64)
  ultimately show ?thesis by (simp add: min_def w64_numeral)
qed

context lp_allocator begin

lemma merge_join_ok:
  assumes r1: "lp_rep first num1 es1" and r2: "lp_rep second num2 es2" and small: "7 + length (concat (es1 @ es2)) < 2 ^ 32 - 1"
  shows "realloc_fails A \<or> (\<exists>lp'. merge_join A first second = Some lp' \<and> lp_repr lp' (es1 @ es2))"
proof (cases "realloc_fails A")
  case False
  define t1 where "t1 = 7 + length (concat es1)"
  define t2 where "t2 = 7 + length (concat es2)"
  define n where "n = 7 + length (concat (es1 @ es2))"
  obtain f n1 where f: "lpLength first = Some (w32 (length es1), f)" "lp_rep f n1 es1" using lp_length [OF r1] by blast
  obtain s n2 where s: "lpLength second = Some (w32 (length es2), s)" "lp_rep s n2 es2" using lp_length [OF r2] by blast
  have t: "t1 < 2 ^ 32" "t2 < 2 ^ 32" using r1 r2 by (simp_all add: lp_rep_def t1_def t2_def)
  have u: "unat (w64 t1) = t1" "unat (w64 t2) = t2" "unat (w64 n) = n" using t small by (simp_all add: unat_w64 n_def)
  have bytes: "w64 t1 + w64 t2 - 6 - 1 = w64 n" by (simp add: t1_def t2_def n_def w64_def)
  have len: "length es1 < 2 ^ 32" "length es2 < 2 ^ 32"
    using entries_le [of es1] entries_le [of es2] r1 r2 by (simp_all add: lp_rep_def)
  define H where "H = header_of t1 n1 (concat es1)"
  define C where "C = concat es2 @ [LP_EOF]"
  have HC: "length H = t1 - 1" "length C = t2 - 6" "length H + length C = n"
    by (simp_all add: H_def C_def t1_def t2_def n_def)
  have read: "bread s LP_HDR_SIZE (t2 - 6) = Some C" "bread f 0 (t1 - 1) = Some H"
    using read_body [OF s(2)] read_body [OF f(2)] by (simp_all add: C_def H_def t1_def t2_def)
  obtain Y where "(if t2 \<le> t1 then
      do {
        target \<leftarrow> lp_realloc A f n;
        bs \<leftarrow> bread s LP_HDR_SIZE (t2 - 6);
        bwrite target (int t1 - 1) bs
      }
    else
      do {
        target \<leftarrow> lp_realloc A s n;
        target \<leftarrow> bmove target (int t1 - 1) LP_HDR_SIZE (t2 - 6);
        bs \<leftarrow> bread f 0 (t1 - 1);
        bwrite target 0 bs
      }) = Some (H @ C @ Y)"
  proof (cases "t2 \<le> t1")
    case True
    obtain b where b: "lp_realloc A f n = Some b" using False by (auto simp: realloc_fails_def)
    obtain junk where "f = H @ [LP_EOF] @ junk" using lp_repD [OF f(2)] by (metis append_assoc split_pack H_def t1_def)
    then obtain zs where "b = H @ zs" "n \<le> length b" using realloc_keeps [of H "[LP_EOF] @ junk" n b] b HC(3) by auto
    from join_append [OF this(1), of C] this(2) HC obtain Y where "bwrite b (int (length H)) C = Some (H @ C @ Y)" by auto
    then show ?thesis using that [of Y] True b read(1) HC(1) by (simp add: of_nat_diff t1_def)
  next
    case F: False
    obtain b where b: "lp_realloc A s n = Some b" using False by (auto simp: realloc_fails_def)
    obtain junk where "s = lp_pack n2 es2 @ junk" using lp_repD [OF s(2)] .
    then obtain zs where zs: "b = lp_pack n2 es2 @ zs" "n \<le> length b"
      using realloc_keeps [of "lp_pack n2 es2" junk n b] b by (auto simp: length_pack n_def)
    have "lp_rep b n2 es2" unfolding zs(1) using s(2) by (intro lp_rep_pack) (auto simp: lp_rep_def)
    then have "bread b LP_HDR_SIZE (length C) = Some C" using read_body(1) [of b n2 es2] by (simp add: C_def)
    from join_prepend [OF this, of H] zs(2) HC(3) obtain b' Y where
      "bmove b (int (length H)) LP_HDR_SIZE (length C) = Some b'" "bwrite b' 0 H = Some (H @ C @ Y)" by auto
    then show ?thesis using that [of Y] F b read(2) HC by (simp add: of_nat_diff t1_def)
  qed
  note joined = this
  have u1: "unat (w64 t2 - 6) = t2 - 6" "unat (w64 t1 - 1) = t1 - 1" "uint (w64 t1) = int t1"
    using t u by (simp_all add: uint_nat unat_sub_if' t1_def t2_def unat_w64)
  have fit: "w64 n < UINT32_MAX" using small u(3) by (simp add: word_less_nat_alt UINT32_MAX_def n_def)
  have "w64 t2 \<le> w64 t1 \<longleftrightarrow> t2 \<le> t1" using u by (simp add: word_le_nat_alt)
  then have "merge_join A first second =
      do {
        target \<leftarrow> Some (H @ C @ Y);
        target \<leftarrow> lpSetNumElements target (w64 (min (length es1 + length es2) 65535));
        lpSetTotalBytes target (w64 n)
      }"
    using joined get_bytes [OF r1] get_bytes [OF r2] fit
    unfolding merge_join_def t1_def [symmetric] t2_def [symmetric]
    by (cases "t2 \<le> t1")
      (simp_all only: bind.simps f(1) s(1) prod.case Let_def if_True if_False simp_thms bytes joined_num [OF len] assert_that_def u u1 bind_assoc [symmetric])
  then have "merge_join A first second = Some (header_of n (min (length es1 + length es2) 65535) (concat es1 @ C @ Y))"
    by (simp add: H_def header_app num_header [OF ucast_w64] total_header)
  moreover have "lp_rep (header_of n (min (length es1 + length es2) 65535) (concat es1 @ C @ Y)) (min (length es1 + length es2) 65535) (es1 @ es2)"
  proof -
    have "num_ok (min (length es1 + length es2) 65535) (es1 @ es2)" by (auto simp: num_ok_def min_def)
    moreover have "list_all entry_ok (es1 @ es2)" using r1 r2 by (simp add: lp_rep_def)
    ultimately have "lp_rep (lp_pack (min (length es1 + length es2) 65535) (es1 @ es2) @ Y) (min (length es1 + length es2) 65535) (es1 @ es2)"
      using small by (intro lp_rep_pack) simp_all
    then show ?thesis by (simp add: pack_header header_app C_def n_def)
  qed
  ultimately show ?thesis by (auto simp: lp_repr_def)
qed simp

lemma merge:
  assumes "lp_rep first num1 es1" and "lp_rep second num2 es2" and "7 + length (concat (es1 @ es2)) < 2 ^ 32 - 1"
  shows "realloc_fails A \<or> (\<exists>lp'. lpMerge A False (Some first) (Some second) =
      Some (Some lp', if length (concat es2) \<le> length (concat es1) then (Some lp', None) else (None, Some lp')) \<and>
    lp_repr lp' (es1 @ es2))"
proof -
  have "length (concat es1) + 7 < 2 ^ 32" "length (concat es2) + 7 < 2 ^ 32" using assms(1,2) by (simp_all add: lp_rep_def)
  then have "w64 (7 + length (concat es2)) \<le> w64 (7 + length (concat es1)) \<longleftrightarrow> length (concat es2) \<le> length (concat es1)"
    by (simp add: word_le_nat_alt unat_w64 del: w64_plus)
  then show ?thesis using merge_join_ok [OF assms] get_bytes [OF assms(1)] get_bytes [OF assms(2)] by (auto simp: lpMerge_def)
qed

end

section \<open>Inserting several elements\<close>

definition batch_ele :: "listpackEntry \<Rightarrow> lp_ele" where
  "batch_ele e = (case e of Sval s \<Rightarrow> Elestr s | Lval v \<Rightarrow> Eleint (lpEncodeIntegerGetType v))"

definition batch_string :: "listpackEntry \<Rightarrow> u8 list" where
  "batch_string e = (case e of Sval s \<Rightarrow> s | Lval v \<Rightarrow> dec_int v)"

definition batch_ok :: "listpackEntry \<Rightarrow> bool" where
  "batch_ok e \<longleftrightarrow> (case e of Sval s \<Rightarrow> length s < 2 ^ 32 | Lval v \<Rightarrow> llong v)"

definition batch_entries :: "listpackEntry list \<Rightarrow> u8 list list" where
  "batch_entries entries = map (\<lambda>e. lp_entry (batch_string e)) entries"

lemma batch_holds: "batch_ok e \<Longrightarrow> ele_holds (batch_ele e) (Some (batch_string e))"
  by (cases e) (auto simp: batch_ok_def batch_ele_def batch_string_def intro: ele_holds.intros)

lemma batch_encode_store:
  assumes "batch_ok e"
  obtains ei eb where "batch_encode e = (ei, w64 (length eb), lpEncodeBacklen (w64 (length eb)))" "length eb < 2 ^ 33"
    "eb = lp_enc (batch_string e)"
    "\<forall>lp p. (case (ei, e) of (Some b, _) \<Rightarrow> bwrite lp p b | (None, Sval s) \<Rightarrow> bwrite lp p (lpEncodeString s) | _ \<Rightarrow> None) = bwrite lp p eb"
proof -
  obtain ei eb where ei: "(case batch_ele e of Elestr s \<Rightarrow> lpEncodeGetType s | Eleint e \<Rightarrow> (Some e, w64 (length e)) | Eledelete \<Rightarrow> (None, 0)) = (ei, w64 (length eb))"
    "eb = (case Some (batch_string e) of None \<Rightarrow> [] | Some x \<Rightarrow> lp_enc x)" "length eb < 2 ^ 33"
    "batch_ele e \<noteq> Eledelete \<longrightarrow> (\<forall>lp p. (case (ei, batch_ele e) of (Some e, _) \<Rightarrow> bwrite lp p e | (None, Elestr s) \<Rightarrow> bwrite lp p (lpEncodeString s) | _ \<Rightarrow> None) = bwrite lp p eb)"
    using holds_encode [OF batch_holds [OF assms]] .
  have "batch_encode e = (ei, w64 (length eb), lpEncodeBacklen (w64 (length eb)))"
    using ei(1) by (cases e) (simp_all add: batch_encode_def batch_ele_def)
  moreover have "\<forall>lp p. (case (ei, e) of (Some b, _) \<Rightarrow> bwrite lp p b | (None, Sval s) \<Rightarrow> bwrite lp p (lpEncodeString s) | _ \<Rightarrow> None) = bwrite lp p eb"
    using ei(4) by (cases e; cases ei) (simp_all add: batch_ele_def)
  ultimately show thesis using that ei(2,3) by simp
qed

lemma added_len_eq: "list_all batch_ok entries \<Longrightarrow> added_len entries a = a + w64 (length (concat (batch_entries entries)))"
proof (induction entries arbitrary: a)
  case (Cons e entries)
  have "batch_ok e" using Cons.prems by simp
  then obtain ei eb where "batch_encode e = (ei, w64 (length eb), lpEncodeBacklen (w64 (length eb)))" "eb = lp_enc (batch_string e)"
    by (rule batch_encode_store)
  then show ?case using Cons by (simp add: batch_entries_def lp_entry_def add.assoc)
qed (simp add: batch_entries_def)

lemma batch_store_eq:
  assumes "list_all batch_ok entries" "length X = length (concat (batch_entries entries))"
  shows "batch_store entries (P @ X @ Z) (int (length P)) newp =
    Some (P @ concat (batch_entries entries) @ Z,
      if entries = [] then newp else Some (int (length P + length (concat (batch_entries (butlast entries))))))"
  using assms
proof (induction entries arbitrary: P X newp)
  case (Cons e entries)
  have "batch_ok e" using Cons.prems(1) by simp
  then obtain ei eb where ei: "batch_encode e = (ei, w64 (length eb), lpEncodeBacklen (w64 (length eb)))" "length eb < 2 ^ 33"
    "eb = lp_enc (batch_string e)"
    "\<forall>lp p. (case (ei, e) of (Some b, _) \<Rightarrow> bwrite lp p b | (None, Sval s) \<Rightarrow> bwrite lp p (lpEncodeString s) | _ \<Rightarrow> None) = bwrite lp p eb"
    by (rule batch_encode_store)
  define bl where "bl = lpEncodeBacklen (w64 (length eb))"
  have entries: "batch_entries (e # es) = (eb @ bl) # batch_entries es" for es
    by (simp add: batch_entries_def lp_entry_def ei(3) bl_def)
  define X1 where "X1 = take (length eb + length bl) X"
  define X2 where "X2 = drop (length eb + length bl) X"
  have X: "X = X1 @ X2" "length X1 = length eb + length bl" "length X2 = length (concat (batch_entries entries))"
    using Cons.prems(2) by (simp_all add: X1_def X2_def entries)
  have u: "uint (w64 (length eb)) = int (length eb)" using ei(2) by (simp add: uint_nat unat_w64)
  obtain lp1 where lp1: "bwrite (P @ X1 @ X2 @ Z) (int (length P)) eb = Some lp1"
    "bwrite lp1 (int (length P) + int (length eb)) bl = Some (P @ eb @ bl @ X2 @ Z)"
    using write_two [OF X(2), of P "X2 @ Z"] by (auto simp: bind_eq_Some_conv)
  have "batch_store (e # entries) (P @ X @ Z) (int (length P)) newp =
      batch_store entries ((P @ eb @ bl) @ X2 @ Z) (int (length (P @ eb @ bl))) (Some (int (length P)))"
    using lp1 by (simp add: ei(1) ei(4) [simplified] u X(1) bl_def [symmetric] add.assoc)
  also have "\<dots> = Some ((P @ eb @ bl) @ concat (batch_entries entries) @ Z,
      if entries = [] then Some (int (length P)) else Some (int (length (P @ eb @ bl) + length (concat (batch_entries (butlast entries))))))"
    using Cons.prems(1) X(3) by (intro Cons.IH) simp_all
  finally show ?case by (simp add: entries batch_entries_def [of "[]"])
qed (simp add: batch_entries_def)

text \<open>The number of elements in the header after \<open>k\<close> were added.\<close>

definition added_num :: "nat \<Rightarrow> nat \<Rightarrow> nat" where
  "added_num k num = (if num = 65535 \<or> k > 65535 - num then 65535 else num + k)"

lemma count_added:
  assumes "num \<le> 65535"
  shows "do {
      num_elements \<leftarrow> lpGetNumElements (header_of tot num body);
      if num_elements \<noteq> LP_HDR_NUMELE_UNKNOWN then
        if int k > uint LP_HDR_NUMELE_UNKNOWN - uint num_elements
        then lpSetNumElements (header_of tot num body) (ucast LP_HDR_NUMELE_UNKNOWN)
        else lpSetNumElements (header_of tot num body) (ucast (num_elements + w32 k))
      else Some (header_of tot num body)
    } = Some (header_of tot (added_num k num) body)"
proof -
  have "uint (w32 num) = int num" "uint LP_HDR_NUMELE_UNKNOWN = 65535"
    using assms by (simp_all add: uint_nat unat_w32 LP_HDR_NUMELE_UNKNOWN_def)
  moreover have "ucast (ucast LP_HDR_NUMELE_UNKNOWN :: u64) = w32 65535" "ucast (ucast (w32 num + w32 k) :: u64) = w32 (num + k)"
    by (simp_all add: ucast_ucast_u32 LP_HDR_NUMELE_UNKNOWN_def w32_def)
  ultimately show ?thesis
    using assms num_unknown [OF assms] by (simp add: num_of_header [OF assms] num_header added_num_def) linarith
qed

lemma num_ok_added: "num_ok num es \<Longrightarrow> num_ok (added_num (length new) num) (change_at es i i new)"
  by (auto simp: num_ok_def added_num_def change_at_def)

lemma batch_entries_ok:
  assumes "list_all batch_ok entries" "length (concat (batch_entries entries)) < 2 ^ 32"
  shows "list_all entry_ok (batch_entries entries)"
  using assms
proof (induction entries)
  case (Cons e entries)
  then have "lp_storable (batch_string e)"
    by (intro storable_if_fits [OF batch_holds]) (simp_all add: batch_entries_def)
  then show ?case using Cons by (simp add: batch_entries_def entry_ok_entry)
qed (simp add: batch_entries_def)

context lp_allocator begin

lemma batch_insert_before:
  assumes r: "lp_rep lp num es" and i: "i \<le> length es" and ok: "list_all batch_ok entries" "entries \<noteq> []"
    and mem: "length (concat (batch_entries entries)) < 2 ^ 63"
  shows "\<exists>r. lpBatchInsert A lp (int (lp_off es i)) LP_BEFORE entries = Some r \<and>
    lp_outcome A (change_at es i i (batch_entries entries)) (i + length entries - 1) r"
proof -
  define tot where "tot = 7 + length (concat es)"
  define B where "B = concat (take i es)"
  define T where "T = lp_tail es i"
  define E where "E = concat (batch_entries entries)"
  define es' where "es' = change_at es i i (batch_entries entries)"
  define P where "P = header_of tot num B"
  obtain J where lp: "lp = P @ T @ J" and off: "length P = lp_off es i" and tot: "length (P @ T) = tot"
    using lp_cut [OF r le_refl, of i] unfolding head_header tot_def T_def B_def P_def lp_mid_def by auto
  have small: "tot < 2 ^ 32" using r by (simp add: tot_def lp_rep_def)
  define new where "new = 7 + length (concat es')"
  have new: "new = tot + length E" "new = length (P @ E @ T)"
    using tot by (simp_all add: new_def es'_def change_at_def P_def header_of_def B_def E_def T_def lp_tail_def)
  have big: "UINT32_MAX < w64 new \<longleftrightarrow> 2 ^ 32 \<le> new"
    using new(1) small mem by (auto simp: UINT32_MAX_def word_less_nat_alt unat_w64 E_def)
  have num: "num \<le> 65535" using r by (auto simp: lp_rep_def num_ok_def)
  have bytes: "lpBytes lp = Some (w64 tot)" using get_bytes [OF r] by (simp add: tot_def)
  have step: "lpBatchInsert A lp (int (lp_off es i)) LP_BEFORE entries =
      (if 2 ^ 32 \<le> new then Some None
       else or_null (grow A lp (w64 tot) (w64 new)) (\<lambda>lp.
         do {
           lp \<leftarrow> bmove lp (int (lp_off es i) + int (length E)) (int (lp_off es i)) (length T);
           (lp, newp) \<leftarrow> batch_store entries lp (int (lp_off es i)) None;
           num_elements \<leftarrow> lpGetNumElements lp;
           lp \<leftarrow>
             (if num_elements \<noteq> LP_HDR_NUMELE_UNKNOWN then
                if int (length entries) > uint LP_HDR_NUMELE_UNKNOWN - uint num_elements
                then lpSetNumElements lp (ucast LP_HDR_NUMELE_UNKNOWN)
                else lpSetNumElements lp (ucast (num_elements + w32 (length entries)))
              else Some lp);
           lp \<leftarrow> lpSetTotalBytes lp (w64 new);
           Some (Some (lp, newp))
         }))"
  proof -
    have "added_len entries 0 = w64 (length E)" using added_len_eq [OF ok(1), of 0] by (simp add: E_def)
    moreover have "uint (w64 (length E)) = int (length E)" using mem by (simp add: uint_nat unat_w64 E_def)
    moreover have "size_arg (uint (w64 tot) - int (lp_off es i)) = length T"
      using tot small off by (simp add: size_arg_def uint_nat unat_w64)
    ultimately show ?thesis
      using ok(2) bytes big unfolding lpBatchInsert_def by (simp only: assert_that_def) (simp add: Let_def new(1) [symmetric])
  qed
  show ?thesis
  proof (cases "2 ^ 32 \<le> new \<or> grow A lp (w64 tot) (w64 new) = None")
    case True
    then have "lpBatchInsert A lp (int (lp_off es i)) LP_BEFORE entries = Some None" by (auto simp: step or_null_def)
    moreover have "2 ^ 32 \<le> new \<or> (\<exists>bs n. lp_realloc A bs n = None)" using True by (auto simp only: grow_def split: if_splits)
    ultimately show ?thesis by (simp add: lp_outcome_def new_def es'_def)
  next
    case False
    then obtain lp1 where grown: "grow A lp (w64 tot) (w64 new) = Some lp1" and new32: "new < 2 ^ 32" by auto
    then obtain J1 where lp1: "lp1 = (P @ T) @ J1" "new \<le> length lp1"
      using grow_keeps [of "P @ T" J new lp1] tot small lp by auto
    have "length P + length E + length T \<le> length (P @ [] @ T @ J1)" using lp1 new(2) by simp
    from splice_move [OF this] obtain X Y where X: "length X = length E"
      and move: "bmove lp1 (int (lp_off es i) + int (length E)) (int (lp_off es i)) (length T) = Some (P @ X @ T @ Y)"
      by (auto simp: lp1(1) off)
    define newp where "newp = int (lp_off es i + length (concat (batch_entries (butlast entries))))"
    have store: "batch_store entries (P @ X @ T @ Y) (int (lp_off es i)) None = Some (header_of tot num (B @ E @ T @ Y), Some newp)"
    proof -
      have "P @ E @ T @ Y = header_of tot num (B @ E @ T @ Y)" by (simp add: P_def header_app)
      then show ?thesis using batch_store_eq [OF ok(1), of X P "T @ Y" None] X ok(2) by (simp add: off E_def newp_def)
    qed
    have "lpBatchInsert A lp (int (lp_off es i)) LP_BEFORE entries =
        Some (Some (header_of new (added_num (length entries) num) (B @ E @ T @ Y), Some newp))"
      using new32 count_added [OF num, of tot "B @ E @ T @ Y" "length entries"]
      by (simp add: step grown or_null_def move store num_of_header [OF num] total_header)
    moreover have "lp_rep (header_of new (added_num (length entries) num) (B @ E @ T @ Y)) (added_num (length entries) num) es'"
    proof -
      have "list_all entry_ok (batch_entries entries)" using batch_entries_ok [OF ok(1)] new32 new(1) by (simp add: E_def)
      moreover have "num_ok (added_num (length entries) num) es'"
        using num_ok_added [of num es "batch_entries entries" i] r by (simp add: es'_def lp_rep_def batch_entries_def)
      ultimately show ?thesis
        using new_rep [OF r le_refl i, of "batch_entries entries" "added_num (length entries) num" Y] new32
        by (simp add: es'_def new_def B_def E_def T_def header_app)
    qed
    moreover have "Some newp = lp_ptr es' (i + length entries - 1)"
    proof -
      have k: "min (i + length entries - Suc 0) i = i" "i + length entries - Suc 0 < length entries + length es"
        using i ok(2) by (cases entries; simp)+
      show ?thesis
        using i ok(2) k by (simp add: lp_ptr_def newp_def lp_off_def es'_def change_at_def batch_entries_def map_butlast butlast_conv_take take_map)
    qed
    ultimately show ?thesis by (auto simp: lp_outcome_def lp_repr_def es'_def)
  qed
qed

lemma batch_append:
  assumes "lp_rep lp num es" "list_all batch_ok entries" "entries \<noteq> []" "length (concat (batch_entries entries)) < 2 ^ 63"
    "length entries < 2 ^ 32"
  shows "\<exists>r. lpBatchAppend A lp entries = Some r \<and> lp_outcome A (es @ batch_entries entries) (length es + length entries - 1) r"
  using batch_insert_before [OF assms(1) le_refl assms(2-4)] assms(5) eofptr_off [OF assms(1)] by (simp add: lpBatchAppend_def change_at_def)

end

end
