(* ===== verification/Listpack_Valid.thy ===== *)
theory Listpack_Valid
  imports Listpack_Spec
begin

text \<open>
  The check of a listpack that comes from outside: \<open>lpValidateIntegrity\<close> on arbitrary bytes. It never
  reads outside the allocation; it accepts every representation; and what it accepts in depth is a
  representation, up to one form of an empty string whose length bytes are not those the code writes.
\<close>

section \<open>No access outside the allocation\<close>

lemma byte_at_iff: "(\<exists>b. byte_at lp p = Some b) \<longleftrightarrow> 0 \<le> p \<and> p < int (length lp)"
  by (auto simp: byte_at_def)

lemma byte_at_in: "0 \<le> p \<Longrightarrow> p < int (length lp) \<Longrightarrow> \<exists>b. byte_at lp p = Some b"
  by (simp add: byte_at_iff)

lemma size_returns:
  assumes "byte_at lp p = Some b" "p + uint (lpCurrentEncodedSizeBytes b) < int (length lp)"
  shows "\<exists>n. lpCurrentEncodedSizeUnsafe lp p = Some n"
proof -
  have p: "0 \<le> p" "p < int (length lp)" using assms(1) by (auto simp: byte_at_def split: if_splits)
  have "\<exists>c. byte_at lp (p + i) = Some c" if "0 \<le> i" "i \<le> uint (lpCurrentEncodedSizeBytes b)" for i
    using p that assms(2) by (intro byte_at_in) auto
  note at = this [of 1] this [of 2] this [of 3] this [of 4]
  show ?thesis
    using at assms(1)
    by (auto simp: lpCurrentEncodedSizeUnsafe_def lpCurrentEncodedSizeBytes_def STR_LEN_6BIT_def STR_LEN_12BIT_def STR_LEN_32BIT_def split: if_splits)
qed

lemma backlen_returns:
  assumes "4 \<le> p" "p < int (length lp)"
  shows "\<exists>v. lpDecodeBacklen lp p = Some v"
proof -
  have "\<exists>c. byte_at lp (p - i) = Some c" if "0 \<le> i" "i \<le> 4" for i
    using that assms by (intro byte_at_in) auto
  note at = this [of 0] this [of 1] this [of 2] this [of 3] this [of 4]
  show ?thesis
    using at by (auto simp: lpDecodeBacklen_def Let_def)
qed

lemma validate_next_returns:
  assumes "uint n \<le> int (length lp)"
  shows "\<exists>r. lpValidateNext lp pp n = Some r"
proof (cases "\<exists>p. pp = Some p \<and> \<not> OUT_OF_RANGE n p")
  case True
  then obtain p where p: "pp = Some p" "\<not> OUT_OF_RANGE n p" by auto
  then obtain b where b: "byte_at lp p = Some b"
    using byte_at_in [of p lp] assms by (auto simp: OUT_OF_RANGE_def LP_HDR_SIZE_def)
  have size: "\<exists>m. lpCurrentEncodedSizeUnsafe lp p = Some m" if "\<not> OUT_OF_RANGE n (p + uint (lpCurrentEncodedSizeBytes b))"
    using size_returns [OF b] that assms by (auto simp: OUT_OF_RANGE_def)
  have backlen: "\<exists>v. lpDecodeBacklen lp (q - 1) = Some v" if "\<not> OUT_OF_RANGE n q" for q
    using backlen_returns [of "q - 1" lp] that assms by (auto simp: OUT_OF_RANGE_def LP_HDR_SIZE_def)
  show ?thesis
  proof (cases "OUT_OF_RANGE n (p + uint (lpCurrentEncodedSizeBytes b))")
    case True
    then show ?thesis using p b by (cases "b = LP_EOF") (auto simp: lpValidateNext_def Let_def)
  next
    case False
    then obtain m where m: "lpCurrentEncodedSizeUnsafe lp p = Some m" using size by auto
    then show ?thesis using False p b backlen [of "p + int (entrylen m)"]
      by (cases "b = LP_EOF"; cases "OUT_OF_RANGE n (p + int (entrylen m))") (auto simp: lpValidateNext_def Let_def uint_entrylen)
  qed
qed (auto simp: lpValidateNext_def split: option.splits)

lemma validate_entries_returns:
  "uint n \<le> int (length lp) \<Longrightarrow> 6 \<le> p \<Longrightarrow> p < uint n \<Longrightarrow> \<exists>r. validate_entries lp n cb numele p count u = Some r"
proof (induction lp n cb numele p count u rule: validate_entries.induct)
  case (1 lp n cb numele p count u)
  obtain b where b: "byte_at lp p = Some b" using byte_at_in [of p lp] 1(2-) by auto
  obtain ok pp where v: "lpValidateNext lp (Some p) n = Some (ok, pp)" using validate_next_returns [OF 1(2)] by (metis surj_pair)
  show ?case
  proof (cases "b \<noteq> LP_EOF \<and> ok \<and> pp \<noteq> None")
    case True
    then obtain q where q: "pp = Some q" by auto
    obtain go u' where cb: "call_cb cb p numele u = (go, u')" by (metis surj_pair)
    have "p < q \<and> q < uint n" using lpValidateNext_progress [of lp p n q] v q True by simp
    then show ?thesis
      using 1(1) [OF b] True b v q cb 1(2,3)
      by (subst validate_entries.simps) auto
  next
    case False
    then show ?thesis using b v by (subst validate_entries.simps) (auto split: option.splits bool.splits)
  qed
qed

lemma integrity_returns:
  assumes "uint sz \<le> int (length lp)"
  shows "\<exists>r. lpValidateIntegrity lp sz deep cb u = Some r"
proof (cases "sz < 7")
  case True
  then have "lpValidateIntegrity lp sz deep cb u = Some False" by (simp add: lpValidateIntegrity_def)
  then show ?thesis by blast
next
  case False
  then have len: "7 \<le> uint sz" by (simp add: word_less_def)
  then have at: "\<exists>b. byte_at lp p = Some b" if "0 \<le> p" "p < 7" for p using that assms by (intro byte_at_in) auto
  obtain m where m: "lpBytes lp = Some m"
    using at [of 0] at [of 1] at [of 2] at [of 3] by (auto simp: lpBytes_def lpGetTotalBytes_def)
  obtain k where k: "lpGetNumElements lp = Some k" using at [of 4] at [of 5] by (auto simp: lpGetNumElements_def)
  obtain b where b: "byte_at lp (uint sz - 1) = Some b" using byte_at_in [of "uint sz - 1" lp] assms len by auto
  obtain r where "validate_entries lp sz cb k LP_HDR_SIZE 0 u = Some r"
    using validate_entries_returns [OF assms, of 6 cb k 0 u] len by (auto simp: LP_HDR_SIZE_def)
  then show ?thesis using m k b by (auto simp: lpValidateIntegrity_def)
qed

section \<open>Representations are accepted\<close>

lemma validate_entries_rep:
  assumes r: "lp_rep lp num es"
  shows "i \<le> length es \<Longrightarrow> validate_entries lp (w64 (7 + length (concat es))) None numele (int (lp_off es i)) count u =
    Some (Some (int (lp_off es (length es)), count + w32 (length es - i)))"
proof (induction "length es - i" arbitrary: i count)
  case 0
  then show ?case using byte_at_end [OF r] by (subst validate_entries.simps) (simp add: w32_def)
next
  case (Suc k)
  then have i: "i < length es" by simp
  obtain b where "byte_at lp (int (lp_off es i)) = Some b" "b \<noteq> LP_EOF" using eof_iff [OF r, of i] i by auto
  then show ?case
    using Suc(1) [of "Suc i" "count + 1"] Suc(2) i validate_next [OF r i]
    by (subst validate_entries.simps) (simp add: call_cb_def w32_def algebra_simps)
qed

lemma integrity_rep:
  assumes "lp_rep lp num es" "length lp = 7 + length (concat es)"
  shows "lpValidateIntegrity lp (w64 (length lp)) deep None u = Some True"
proof -
  have n: "7 + length (concat es) < 2 ^ 32" "num_ok num es" using assms(1) by (simp_all add: lp_rep_def)
  then have u: "uint (w64 (length lp)) = int (7 + length (concat es))" by (simp add: assms(2) uint_nat unat_w64)
  have len: "int (length lp) = 7 + int (length (concat es))" by (simp add: assms(2))
  have "\<not> w64 (length lp) < 7" using n by (simp add: assms(2) word_less_nat_alt unat_w64)
  moreover have "byte_at lp (uint (w64 (length lp)) - 1) = Some LP_EOF"
    using byte_at_end [OF assms(1)] by (simp add: u lp_off_end)
  moreover have "validate_entries lp (w64 (length lp)) None (w32 num) LP_HDR_SIZE 0 u = Some (Some (int (lp_off es (length es)), w32 (length es)))"
    using validate_entries_rep [OF assms(1), of 0 "w32 num" 0 u] by (simp add: assms(2) LP_HDR_SIZE_def)
  ultimately show ?thesis
    using n(2) len by (auto simp: lpValidateIntegrity_def get_bytes [OF assms(1)] get_header [OF assms(1)] assms(2) [symmetric] u lp_off_end
        num_ok_def LP_HDR_NUMELE_UNKNOWN_def w32_def)
qed

section \<open>What is accepted\<close>

text \<open>Every byte that the length at the end of an entry is read from contributes its bits.\<close>

lemma decode_bits:
  assumes "lpDecodeBacklen lp p = Some v" "byte_at lp p = Some b0"
  shows "ucast (b0 AND 127) OR v = v"
    and "b0 AND 128 \<noteq> 0 \<Longrightarrow> byte_at lp (p - 1) = Some b1 \<Longrightarrow> push_bit 7 (ucast (b1 AND 127)) OR v = v"
    and "b0 AND 128 \<noteq> 0 \<Longrightarrow> byte_at lp (p - 1) = Some b1 \<Longrightarrow> b1 AND 128 \<noteq> 0 \<Longrightarrow> byte_at lp (p - 2) = Some b2 \<Longrightarrow>
      push_bit 14 (ucast (b2 AND 127)) OR v = v"
    and "b0 AND 128 \<noteq> 0 \<Longrightarrow> byte_at lp (p - 1) = Some b1 \<Longrightarrow> b1 AND 128 \<noteq> 0 \<Longrightarrow> byte_at lp (p - 2) = Some b2 \<Longrightarrow>
      b2 AND 128 \<noteq> 0 \<Longrightarrow> byte_at lp (p - 3) = Some b3 \<Longrightarrow> push_bit 21 (ucast (b3 AND 127)) OR v = v"
  using assms by (auto simp: lpDecodeBacklen_def Let_def bind_eq_Some_conv or.assoc or.left_commute split: if_splits)

lemma decode_bit_0:
  assumes "lpDecodeBacklen lp p = Some v" "byte_at lp p = Some b0" "v \<noteq> - 1"
  shows "bit v 0 \<longleftrightarrow> bit b0 0"
  using assms by (auto simp: lpDecodeBacklen_def Let_def bind_eq_Some_conv bit_simps split: if_splits)

lemma high_zero:
  assumes "push_bit k (ucast (b AND 127 :: u8)) OR v = (v :: u64)" "unat v < 2 ^ 7" "7 \<le> k" "k \<le> 21"
  shows "b AND 127 = 0"
proof (rule bit_word_eqI)
  fix n
  assume "n < LENGTH(8)"
  show "bit (b AND 127) n \<longleftrightarrow> bit (0 :: u8) n"
  proof
    assume b: "bit (b AND 127) n"
    have "n < 8" using \<open>n < LENGTH(8)\<close> by simp
    then have "bit (push_bit k (ucast (b AND 127)) :: u64) (k + n)" using b assms(4) by (simp add: bit_simps)
    then have "bit v (k + n)" using assms(1) by (metis bit_or_iff)
    then show "bit (0 :: u8) n" using bit_bound [OF assms(2), of "k + n"] assms(3) by simp
  qed simp
qed

text \<open>The length of a string of the widest form does not wrap around in an entry that is accepted.\<close>

lemma no_wrap:
  assumes "byte_at lp p = Some b" "IS_32BIT_STR b" "lpCurrentEncodedSizeUnsafe lp p = Some m"
    and "lpDecodeBacklen lp (p + int (entrylen m) - 1) = Some (ucast m)"
  shows "5 \<le> unat m"
proof (rule ccontr)
  assume "\<not> 5 \<le> unat m"
  then have "m \<in> {0, 1, 2, 3, 4}" by (auto simp: word_unat_eq_iff)
  obtain b1 b2 b3 b4 where at: "byte_at lp (p + 1) = Some b1" "byte_at lp (p + 2) = Some b2"
    "byte_at lp (p + 3) = Some b3" "byte_at lp (p + 4) = Some b4" and m: "m = 5 + le_word [b1, b2, b3, b4]"
  proof -
    have "\<not> IS_7BIT_UINT b" "\<not> IS_6BIT_STR b" "\<not> IS_13BIT_INT b" "\<not> IS_16BIT_INT b" "\<not> IS_24BIT_INT b"
      "\<not> IS_32BIT_INT b" "\<not> IS_64BIT_INT b" "\<not> IS_12BIT_STR b"
      using assms(2) by (simp_all add: is_iff)
    then obtain n where "STR_LEN_32BIT lp p = Some n" "m = 5 + n"
      using assms(1-3) by (auto simp: lpCurrentEncodedSizeUnsafe_def bind_eq_Some_conv)
    then show thesis using that unfolding STR_LEN_32BIT_def join_bytes by (auto simp: bind_eq_Some_conv)
  qed
  have bytes: "[b1, b2, b3, b4] = le_bytes 4 (m - 5)"
  proof -
    have "m - 5 = le_word [b1, b2, b3, b4]" unfolding m by (simp del: le_word.simps)
    moreover have "le_bytes (length [b1, b2, b3, b4]) (le_word [b1, b2, b3, b4] :: u32) = [b1, b2, b3, b4]"
      by (rule le_bytes_le_word) simp
    moreover have "length [b1, b2, b3, b4] = 4" by simp
    ultimately show ?thesis by metis
  qed
  have low: "ucast (c AND 127) OR ucast m = (ucast m :: u64)" if "byte_at lp (p + int (entrylen m) - 1) = Some c" for c
    using decode_bits(1) [OF assms(4) that] .
  have b0: "b = 0xF0" using assms(2) by (simp add: is_iff word_unat_eq_iff)
  from \<open>m \<in> {0, 1, 2, 3, 4}\<close> show False
    using low bytes at assms(1) b0
    by (auto simp: entrylen_def lpEncodeBacklenBytes_def bytes4 add.commute [of p] mask_eq_exp_minus_1)
qed

text \<open>The element of an entry is read from inside it, and its size is that of the entry.\<close>

lemma uval_returns: "n < length e \<Longrightarrow> \<exists>v. uval_le e 0 n = Some v"
proof -
  assume n: "n < length e"
  have "map (\<lambda>i. byte_at e (0 + 1 + int i)) [0..<n] = map Some (map (\<lambda>i. e ! Suc i) [0..<n])"
    using n by (auto simp: byte_at_def nat_add_distrib)
  then have "those (map (\<lambda>i. byte_at e (0 + 1 + int i)) [0..<n]) = Some (map (\<lambda>i. e ! Suc i) [0..<n])"
    by (simp only: those_Some_iff)
  then show ?thesis by (simp add: uval_le_def)
qed

lemma byte_cases:
  assumes "b \<noteq> LP_EOF" "lpCurrentEncodedSizeBytes b \<noteq> 0"
  shows "unat b < 245"
  using assms by (auto simp: lpCurrentEncodedSizeBytes_def is_iff split: if_splits)

lemma widen_plus: "unat n + k < 2 ^ 32 \<Longrightarrow> ucast (w32 k + n) = w64 k + (ucast n :: u64)"
  for n :: u32
  by (simp add: word_unat_eq_iff unat_word_ariths unsigned_ucast_eq unat_w32 unat_w64 take_bit_nat_eq_self)

lemma string_in_entry:
  assumes m: "m = w32 k + n" "k \<le> unat m" "k < 2 ^ 32" and len: "length e = entrylen m"
    and size: "w64 (length e) = ucast m + lpEncodeBacklenBytes (ucast m)"
    and get: "lpGetWithBuf e 0 None = Some (GStr (int k) (uint n))"
    "lpGetWithSize e 0 None = Some (GStr (int k) (uint n), Some (w64 k + ucast n + lpEncodeBacklenBytes (ucast n + w64 k)))"
  shows "lpGetWithSize e 0 None = map_option (\<lambda>r. (r, Some (w64 (length e)))) (lpGetWithBuf e 0 None) \<and> lp_value e \<noteq> None"
proof -
  have "unat n + k < 2 ^ 32"
  proof (rule ccontr)
    assume "\<not> ?thesis"
    then have le: "2 ^ 32 \<le> unat n + k" "unat n + k - 2 ^ 32 < 2 ^ 32" using m(3) unat_less32 [of n] by simp_all
    have "unat m = (k + unat n) mod 2 ^ 32" using m(3) by (simp add: m(1) unat_word_ariths unat_w32)
    then have "unat m = (unat n + k) mod 2 ^ 32" by (simp only: add.commute)
    also have "(unat n + k) mod 2 ^ 32 = unat n + k - 2 ^ 32" using le by (simp only: le_mod_geq mod_less)
    finally have "unat m = unat n + k - 2 ^ 32" .
    then show False using m(2) unat_less32 [of n] le(1) by simp
  qed
  then have c: "ucast m = w64 k + (ucast n :: u64)" "unat m = k + unat n"
    using widen_plus [of n k] m(3) by (simp_all add: m(1) unat_word_ariths unat_w32)
  have "k + unat n \<le> length e" using c(2) len by (simp add: entrylen_def)
  then have "bread e (int k) (unat n) \<noteq> None" by (simp add: bread_nat)
  then show ?thesis using get size c(1) by (simp add: lp_value_def got_string_def add.commute)
qed

lemma get_in_entry:
  assumes m: "lpCurrentEncodedSizeUnsafe e 0 = Some m" and len: "length e = entrylen m" and e: "e \<noteq> []"
    and b: "hd e \<noteq> LP_EOF" "lpCurrentEncodedSizeBytes (hd e) \<noteq> 0" "unat (lpCurrentEncodedSizeBytes (hd e)) \<le> unat m"
  shows "lpGetWithSize e 0 None = map_option (\<lambda>r. (r, Some (w64 (length e)))) (lpGetWithBuf e 0 None) \<and> lp_value e \<noteq> None"
proof -
  have at: "byte_at e 0 = Some (hd e)" using e by (simp add: byte_at_def hd_conv_nth)
  have len64: "w64 (length e) = ucast m + lpEncodeBacklenBytes (ucast m)"
    using uint_entrylen [of m] by (metis len of_nat_unat unat_eq_nat_uint w64_unat nat_int)
  have val: "\<exists>v. uval_le e 0 n = Some v" "\<exists>v. byte_at e 1 = Some v" if "n < unat m" "2 \<le> unat m" for n
  proof -
    have "unat m < length e" using len backlen_bytes_le(2) [of "ucast m"] by (simp add: entrylen_def)
    then show "\<exists>v. uval_le e 0 n = Some v" "\<exists>v. byte_at e 1 = Some v"
      using uval_returns [of n e] byte_at_in [of 1 e] that by simp_all
  qed
  consider (u7) "unat (hd e) < 128" | (s6) "128 \<le> unat (hd e)" "unat (hd e) < 192" | (i13) "192 \<le> unat (hd e)" "unat (hd e) < 224"
    | (s12) "224 \<le> unat (hd e)" "unat (hd e) < 240" | (s32) "unat (hd e) = 240"
    | (iN) "unat (hd e) \<in> {241, 242, 243, 244}" using byte_cases [OF b(1,2)] by force
  then show ?thesis
  proof cases
    case u7
    then show ?thesis using m at len64
      by (simp add: lpCurrentEncodedSizeUnsafe_def lpGetWithSize_def lpGetWithBuf_def is_iff lp_deliver_def lp_value_def got_string_def lpEncodeBacklenBytes_def)
  next
    case s6
    then obtain n where n: "STR_LEN_6BIT e 0 = Some n" "m = w32 1 + n"
      using m at by (auto simp: lpCurrentEncodedSizeUnsafe_def is_iff bind_eq_Some_conv w32_def)
    then show ?thesis using s6 at b(3)
      by (intro string_in_entry [OF n(2) _ _ len len64])
        (auto simp: lpCurrentEncodedSizeBytes_def lpGetWithSize_def lpGetWithBuf_def is_iff Let_def w64_def)
  next
    case i13
    then have "m = 2" using m at by (simp add: lpCurrentEncodedSizeUnsafe_def is_iff)
    then show ?thesis using i13 at len64 val [of 1]
      by (auto simp: lpGetWithSize_def lpGetWithBuf_def is_iff lp_deliver_def lp_value_def got_string_def lpEncodeBacklenBytes_def)
  next
    case s12
    then obtain n where n: "STR_LEN_12BIT e 0 = Some n" "m = w32 2 + n"
      using m at by (auto simp: lpCurrentEncodedSizeUnsafe_def is_iff bind_eq_Some_conv w32_def)
    then show ?thesis using s12 at b(3)
      by (intro string_in_entry [OF n(2) _ _ len len64])
        (auto simp: lpCurrentEncodedSizeBytes_def lpGetWithSize_def lpGetWithBuf_def is_iff Let_def w64_def)
  next
    case s32
    then obtain n where n: "STR_LEN_32BIT e 0 = Some n" "m = w32 5 + n"
      using m at by (auto simp: lpCurrentEncodedSizeUnsafe_def is_iff bind_eq_Some_conv w32_def)
    then show ?thesis using s32 at b(3)
      by (intro string_in_entry [OF n(2) _ _ len len64])
        (auto simp: lpCurrentEncodedSizeBytes_def lpGetWithSize_def lpGetWithBuf_def is_iff Let_def w64_def)
  next
    case iN
    define k where "k = (if unat (hd e) = 244 then 8 else unat (hd e) - 239)"
    have m: "m = w32 (k + 1)" "2 \<le> k" "k \<le> 8"
      using iN m at by (auto simp: lpCurrentEncodedSizeUnsafe_def is_iff w32_def k_def)
    then have "k < unat m" "2 \<le> unat m" by (simp_all add: unat_w32)
    then obtain v where v: "uval_le e 0 k = Some v" using val by blast
    have "w64 (k + 1) \<le> 127" using m(3) by (simp add: word_le_nat_alt unat_w64)
    moreover have "ucast m = w64 (k + 1)" using m by (simp add: ucast_w32)
    ultimately have "w64 (length e) = w64 (k + 2)" using len64 by (simp add: lpEncodeBacklenBytes_def)
    then show ?thesis using iN at v
      by (elim insertE emptyE) (simp_all add: k_def lpGetWithSize_def lpGetWithBuf_def is_iff lp_deliver_def lp_value_def got_string_def w64_def)
  qed
qed

text \<open>An entry whose length is not found inside it: only the empty string with a second length byte pending.\<close>

lemma byte_high:
  assumes "b AND 127 = (c :: u8)" "b AND 128 \<noteq> 0"
  shows "unat b = 128 + unat c"
proof -
  have "unat b mod 128 = unat c"
    using assms(1) and_127 [of b] unsigned_take_bit_eq [of 7 b, where 'a = nat] by (simp add: take_bit_eq_mod)
  moreover have "unat b div 128 * 128 \<noteq> 0"
    using assms(2) byte_and_high(1) [of b] by (metis unat_eq_zero)
  then have "unat b div 128 = 1" using unat_byte [of b] by auto
  ultimately show ?thesis using div_mult_mod_eq [of "unat b" 128] by simp
qed

lemma decode_none:
  assumes "lpDecodeBacklen e (int (length e) - 1) = None" "2 \<le> length e"
  shows "length e \<le> 4" "b \<in> set e \<Longrightarrow> b AND 128 \<noteq> 0"
proof -
  show len: "length e \<le> 4" using backlen_returns [of "int (length e) - 1" e] assms(1) by fastforce
  show "b AND 128 \<noteq> 0" if "b \<in> set e"
  proof -
    consider x y where "e = [x, y]" | x y z where "e = [x, y, z]" | x y z w where "e = [x, y, z, w]"
      using assms(2) len by (auto simp: numeral_eq_Suc Suc_le_length_iff le_Suc_eq length_Suc_conv)
    then show ?thesis
      using assms(1) that by cases (auto simp: lpDecodeBacklen_def Let_def byte_at_def split: if_splits)
  qed
qed

lemma pending_entry:
  assumes "part_of e p lp" "lpDecodeBacklen e (int (length e) - 1) = None" "2 \<le> length e"
    and dec: "lpDecodeBacklen lp (p + int (length e) - 1) = Some v" "unat v = length e - 1"
    and "IS_6BIT_STR (hd e) \<Longrightarrow> unat (hd e) = 128 \<Longrightarrow> v = 1"
  shows "e = [0x80, 0x81]"
proof -
  note high = decode_none [OF assms(2,3)]
  have small: "unat v < 2 ^ 7" using dec(2) high(1) by simp
  have at: "byte_at lp (p + int i) = Some (e ! i)" if "i < length e" for i
    using le_viaD [OF part_of_byte(1) [OF assms(1)], of "int i" "e ! i"] that by (simp add: byte_at_def)
  have x: "hd e AND 127 = 0"
  proof -
    consider (two) x y where "e = [x, y]" | (three) x y z where "e = [x, y, z]" | (four) x y z w where "e = [x, y, z, w]"
      using assms(3) high(1) by (auto simp: numeral_eq_Suc Suc_le_length_iff le_Suc_eq length_Suc_conv)
    then show ?thesis
    proof cases
      case two
      then show ?thesis using decode_bits(2) [OF dec(1), of y x] at [of 0] at [of 1] high(2) high_zero [of 7 x v] small by (simp add: add.commute [of _ p])
    next
      case three
      then show ?thesis using decode_bits(3) [OF dec(1), of z y x] at [of 0] at [of 1] at [of 2] high(2) high_zero [of 14 x v] small by (simp add: add.commute [of _ p])
    next
      case four
      then show ?thesis
        using decode_bits(4) [OF dec(1), of w z y x] at [of 0] at [of 1] at [of 2] at [of 3] high(2) high_zero [of 21 x v] small by (simp add: add.commute [of _ p])
    qed
  qed
  have "e \<noteq> []" using assms(3) by auto
  then have "unat (hd e) = 128" using byte_high [OF x] high(2) by simp
  then have "hd e = 0x80" by (simp add: word_unat_eq_iff)
  then have v: "v = 1" using assms(6) by (simp add: is_iff)
  then have "length e = 2" using dec(2) assms(3) by simp
  then obtain y where e: "e = [0x80, y]"
    using \<open>hd e = 0x80\<close> by (auto simp: numeral_2_eq_2 length_Suc_conv)
  have y: "ucast (y AND 127) OR (1 :: u64) = 1" "bit y 0" "y AND 128 \<noteq> 0"
    using decode_bits(1) [OF dec(1), of y] decode_bit_0 [OF dec(1), of y] at [of 1] high(2) e v by (simp_all add: add.commute [of _ p])
  have "y AND 127 = 1"
  proof (rule bit_word_eqI)
    fix n
    assume "n < LENGTH(8)"
    have "bit (ucast (y AND 127) :: u64) n \<Longrightarrow> bit (1 :: u64) n" using y(1) by (metis bit_or_iff)
    then show "bit (y AND 127) n \<longleftrightarrow> bit (1 :: u8) n"
      using y(2) \<open>n < LENGTH(8)\<close> by (auto simp: bit_simps bit_1_iff)
  qed
  from byte_high [OF this y(3)] have "y = 0x81" by (simp add: word_unat_eq_iff)
  then show ?thesis using e by simp
qed

lemma accepted_facts:
  assumes "lpValidateNext lp (Some p) n = Some (True, Some q)"
  obtains b m where "byte_at lp p = Some b" "b \<noteq> LP_EOF" "lpCurrentEncodedSizeBytes b \<noteq> 0"
    "lpCurrentEncodedSizeUnsafe lp p = Some m" "q = p + int (entrylen m)" "LP_HDR_SIZE \<le> p" "q < uint n"
    "lpDecodeBacklen lp (p + int (entrylen m) - 1) = Some (ucast m)"
  using assms
  by (auto simp: lpValidateNext_def bind_eq_Some_conv Let_def uint_entrylen OUT_OF_RANGE_def split: if_splits)

lemma unat_bits_less: "(\<And>n. bit x n \<Longrightarrow> n < k) \<Longrightarrow> unat (x :: 'a::len word) < 2 ^ k"
proof -
  assume x: "\<And>n. bit x n \<Longrightarrow> n < k"
  have "take_bit k x = x" by (rule bit_word_eqI) (auto simp: bit_simps x)
  then have "unat x = take_bit k (unat x)" by (metis unsigned_take_bit_eq)
  then show ?thesis by (metis take_bit_nat_less_exp)
qed

lemma size_bytes_le:
  assumes "byte_at lp p = Some b" "b \<noteq> LP_EOF" "lpCurrentEncodedSizeBytes b \<noteq> 0" "lpCurrentEncodedSizeUnsafe lp p = Some m"
    "lpDecodeBacklen lp (p + int (entrylen m) - 1) = Some (ucast m)"
  shows "unat (lpCurrentEncodedSizeBytes b) \<le> unat m"
proof (cases "IS_32BIT_STR b")
  case True
  then show ?thesis using no_wrap [OF assms(1) True assms(4,5)] by (simp add: lpCurrentEncodedSizeBytes_def is_iff)
next
  case False
  have plus: "k \<le> unat (w32 k + x)" if "unat x < 2 ^ 30" "k \<le> 2" for k and x :: u32
    using that by (simp add: unat_word_ariths unat_w32)
  have six: "1 \<le> unat (1 + ucast (b AND 0x3F) :: u32)"
    using plus [of "ucast (b AND 0x3F)" 1] unat_byte [of "b AND 0x3F"] by (simp add: w32_def unsigned_ucast_eq take_bit_nat_eq_self)
  have twelve: "2 \<le> unat (2 + (push_bit 8 (ucast (b AND 0xF)) OR ucast c) :: u32)" for c :: u8
  proof -
    have "unat (push_bit 8 (ucast (b AND 0xF)) OR ucast c :: u32) < 2 ^ 16" by (rule unat_bits_less) (auto simp: bit_simps dest: bit_imp_le_length)
    then show ?thesis using plus [of "push_bit 8 (ucast (b AND 0xF)) OR ucast c" 2] by (simp add: w32_def)
  qed
  show ?thesis
    using assms(1-4) False six twelve
    by (auto simp: lpCurrentEncodedSizeBytes_def lpCurrentEncodedSizeUnsafe_def STR_LEN_6BIT_def STR_LEN_12BIT_def bind_eq_Some_conv split: if_splits)
qed

lemma accepted_entry:
  assumes v: "lpValidateNext lp (Some p) n = Some (True, Some q)" and n: "uint n \<le> int (length lp)"
  obtains pre e post where "lp = pre @ e @ post" "int (length pre) = p" "int (length e) = q - p" "entry_ok e \<or> e = [0x80, 0x81]"
proof -
  obtain b m where b: "byte_at lp p = Some b" "b \<noteq> LP_EOF" "lpCurrentEncodedSizeBytes b \<noteq> 0"
    and m: "lpCurrentEncodedSizeUnsafe lp p = Some m" and q: "q = p + int (entrylen m)" "LP_HDR_SIZE \<le> p" "q < uint n"
    and dec: "lpDecodeBacklen lp (p + int (entrylen m) - 1) = Some (ucast m)"
    using accepted_facts [OF v] .
  note le = size_bytes_le [OF b m dec]
  define pre where "pre = take (nat p) lp"
  define e where "e = take (entrylen m) (drop (nat p) lp)"
  define post where "post = drop (nat p + entrylen m) lp"
  have lp: "lp = pre @ e @ post" by (simp add: pre_def e_def post_def) (metis append_take_drop_id drop_drop add.commute)
  have len: "int (length pre) = p" "length e = entrylen m"
    using q n by (auto simp: pre_def e_def LP_HDR_SIZE_def)
  have part: "part_of e p lp" using part_of_append [of e pre post] by (simp add: lp [symmetric] len(1))
  have e: "e \<noteq> []" using len(2) by (metis entrylen_pos length_greater_0_conv)
  have at: "byte_at e 0 = Some (hd e)" using e by (simp add: byte_at_def hd_conv_nth)
  then have hd: "hd e = b" using le_viaD [OF part_of_byte(1) [OF part] at] b(1) by simp
  have "0 + uint (lpCurrentEncodedSizeBytes (hd e)) < int (length e)"
    using le backlen_bytes_le(2) [of "ucast m"] len(2) unfolding hd uint_nat by (simp add: entrylen_def del: of_nat_unat)
  then obtain m' where "lpCurrentEncodedSizeUnsafe e 0 = Some m'" using size_returns [OF at] by auto
  moreover from le_viaD [OF part_of_size [OF part] this] m have "m' = m" by simp
  ultimately have size: "lpCurrentEncodedSizeUnsafe e 0 = Some m" by simp
  have "entry_ok e \<or> e = [0x80, 0x81]"
  proof (cases "lpDecodeBacklen e (int (length e) - 1)")
    case (Some x)
    then have "x = ucast m" using le_viaD [OF part_of_backlen [OF part] Some] dec by (simp add: len(2) add_diff_eq)
    then show ?thesis
      using Some size get_in_entry [OF size len(2) e] b le len(2) by (auto simp: entry_ok_def hd entrylen_def)
  next
    case None
    have "1 \<le> unat m" using le b(3) by (simp add: word_unat_eq_iff)
    then have two: "2 \<le> length e" using len(2) backlen_bytes_le(2) [of "ucast m"] by (simp add: entrylen_def)
    have u: "unat (ucast m :: u64) = unat m" using unat_less32 [of m] by (simp add: unsigned_ucast_eq take_bit_nat_eq_self)
    have "unat m \<le> 127" using decode_none(1) [OF None two] len(2) by (simp add: entrylen_def)
    then have "(ucast m :: u64) \<le> 127" by (simp add: word_le_nat_alt u)
    then have "unat (ucast m :: u64) = length e - 1" unfolding u using len(2) by (simp add: entrylen_def lpEncodeBacklenBytes_def)
    moreover have "ucast m = (1 :: u64)" if "unat (hd e) = 128"
    proof -
      have "hd e = 0x80" using that by (simp add: word_unat_eq_iff)
      then show ?thesis using size at by (simp add: lpCurrentEncodedSizeUnsafe_def STR_LEN_6BIT_def is_iff)
    qed
    moreover have "lpDecodeBacklen lp (p + int (length e) - 1) = Some (ucast m)" using dec len(2) by simp
    ultimately show ?thesis using pending_entry [OF part None two] by blast
  qed
  then show thesis using that lp len q(1) by simp
qed

lemma accepted_entries:
  fixes u :: 'u
  shows "uint n \<le> int (length lp) \<Longrightarrow> validate_entries lp n None numele p count u = Some (Some (q, c)) \<Longrightarrow> LP_HDR_SIZE \<le> p \<Longrightarrow>
    \<exists>pre es post. lp = pre @ concat es @ LP_EOF # post \<and> int (length pre) = p \<and> q = p + int (length (concat es)) \<and>
      c = count + w32 (length es) \<and> list_all (\<lambda>e. entry_ok e \<or> e = [0x80, 0x81]) es"
proof (induction lp n "None :: ('u \<Rightarrow> int \<Rightarrow> u32 \<Rightarrow> bool \<times> 'u) option" numele p count u rule: validate_entries.induct)
  case (1 lp n numele p count u)
  obtain b where b: "byte_at lp p = Some b"
    using 1(3) by (subst (asm) validate_entries.simps) (auto split: option.splits)
  show ?case
  proof (cases "b = LP_EOF")
    case True
    then have "q = p" "c = count" using 1(3) b by (subst (asm) validate_entries.simps; simp)+
    moreover have p: "0 \<le> p" "nat p < length lp" "lp ! nat p = LP_EOF" using b True by (auto simp: byte_at_def split: if_splits)
    then have "lp = take (nat p) lp @ concat [] @ LP_EOF # drop (Suc (nat p)) lp" using id_take_nth_drop [of "nat p" lp] by simp
    ultimately show ?thesis using p(1,2)
      by (intro exI [of _ "take (nat p) lp"] exI [of _ "[]"] exI [of _ "drop (Suc (nat p)) lp"]) (simp add: w32_def)
  next
    case False
    then obtain q1 where q1: "lpValidateNext lp (Some p) n = Some (True, Some q1)"
      and rest: "validate_entries lp n None numele q1 (count + 1) u = Some (Some (q, c))"
      using 1(3) b by (subst (asm) validate_entries.simps) (auto simp: call_cb_def split: option.splits bool.splits if_splits)
    obtain pre e post where e: "lp = pre @ e @ post" "int (length pre) = p" "int (length e) = q1 - p" "entry_ok e \<or> e = [0x80, 0x81]"
      using accepted_entry [OF q1 1(2)] .
    have "LP_HDR_SIZE \<le> q1" using 1(4) lpValidateNext_progress [OF q1] by simp
    with 1(1) [OF b False q1 refl refl refl, of True u] 1(2) rest
    obtain pre' es post' where es: "lp = pre' @ concat es @ LP_EOF # post'" "int (length pre') = q1" "q = q1 + int (length (concat es))"
      "c = count + 1 + w32 (length es)" "list_all (\<lambda>e. entry_ok e \<or> e = [0x80, 0x81]) es"
      by (auto simp: call_cb_def)
    have "length pre' = length (pre @ e)" using es(2) e(2,3) by simp
    then have "pre' = pre @ e" using es(1) e(1) by (metis append_assoc append_eq_append_conv)
    then show ?thesis using e es
      by (intro exI [of _ pre] exI [of _ "e # es"] exI [of _ post']) (auto simp: w32_def)
  qed
qed

lemma header_bytes:
  assumes "lpGetTotalBytes lp = Some t" "lpGetNumElements lp = Some n" "lp = pre @ rest" "length pre = 6"
  shows "pre = le_bytes 4 t @ le_bytes 2 n" "unat n < 65536"
proof -
  obtain b0 b1 b2 b3 b4 b5 where pre: "pre = [b0, b1, b2, b3, b4, b5]"
    using assms(4) by (auto simp: numeral_eq_Suc length_Suc_conv)
  have t: "t = le_word [b0, b1, b2, b3]" and n: "n = le_word [b4, b5]"
    using assms(1-3) unfolding pre lpGetTotalBytes_def lpGetNumElements_def join_bytes
    by (simp_all add: byte_at_Cons del: le_word.simps)
  have "le_bytes (length [b0, b1, b2, b3]) (le_word [b0, b1, b2, b3] :: u32) = [b0, b1, b2, b3]"
    "le_bytes (length [b4, b5]) (le_word [b4, b5] :: u32) = [b4, b5]"
    by (rule le_bytes_le_word; simp)+
  then show "pre = le_bytes 4 t @ le_bytes 2 n" unfolding pre t n by (simp add: bytes4 bytes2 del: le_word.simps)
  have "unat n < 2 ^ 16" unfolding n by (rule unat_bits_less) (use bit_le_word in fastforce)
  then show "unat n < 65536" by simp
qed

lemma integrity_sound:
  assumes v: "lpValidateIntegrity lp (w64 (length lp)) True None u = Some True" and len: "length lp < 2 ^ 64"
  shows "\<exists>num es. lp = lp_pack num es \<and> num_ok num es \<and> 7 + length (concat es) < 2 ^ 32 \<and> list_all (\<lambda>e. entry_ok e \<or> e = [0x80, 0x81]) es"
proof -
  have sz: "uint (w64 (length lp)) = int (length lp)" using len by (simp add: uint_nat unat_w64)
  obtain n q c where bytes: "lpBytes lp = Some (w64 (length lp))" and n: "lpGetNumElements lp = Some n"
    and entries: "validate_entries lp (w64 (length lp)) None n LP_HDR_SIZE 0 u = Some (Some (q, c))"
    and q: "q = int (length lp) - 1" and count: "n = LP_HDR_NUMELE_UNKNOWN \<or> n = c"
    using v by (auto simp: lpValidateIntegrity_def bind_eq_Some_conv sz split: if_splits option.splits)
  obtain t where t: "lpGetTotalBytes lp = Some t" "ucast t = w64 (length lp)" using bytes by (auto simp: lpBytes_def)
  have len32: "length lp < 2 ^ 32" using lpBytes_less [OF bytes] sz by simp
  have tot: "t = w32 (length lp)"
    using t(2) ucast_ucast_u32 [of t] by (simp add: ucast_w64)
  obtain pre es post where es: "lp = pre @ concat es @ LP_EOF # post" "int (length pre) = LP_HDR_SIZE"
    "q = LP_HDR_SIZE + int (length (concat es))" "c = 0 + w32 (length es)" "list_all (\<lambda>e. entry_ok e \<or> e = [0x80, 0x81]) es"
    using accepted_entries [OF _ entries] sz by auto
  have "length pre = 6" using es(2) by (simp add: LP_HDR_SIZE_def)
  note h = header_bytes [OF t(1) n es(1) this]
  have l: "length lp = 7 + length (concat es)" "post = []"
    using q es(3) arg_cong [OF es(1), of length] \<open>length pre = 6\<close> by (auto simp: LP_HDR_SIZE_def)
  have "\<forall>e \<in> set es. 1 \<le> length e" using es(5) by (auto simp: list_all_iff Suc_le_eq elim: entry_okD)
  then have "length es \<le> length (concat es)" by (induction es) auto
  then have "length es < 2 ^ 32" using l(1) len32 by simp
  then have num: "num_ok (unat n) es"
    using count h(2) es(4) by (auto simp: num_ok_def LP_HDR_NUMELE_UNKNOWN_def unat_w32 word_unat_eq_iff)
  have "lp = lp_pack (unat n) es"
    using es(1) h(1) l by (simp add: lp_pack_def tot w32_def)
  then show ?thesis using num es(5) l(1) len32 by auto
qed

text \<open>
  The exception matters: the second length byte of this first entry is found in the header, where it is the
  number of elements, so that the listpack is accepted while there are fewer than 256 elements, and walking
  back to the first one fails once there are more.
\<close>

definition lp_pending :: "u8 list" where "lp_pending = lp_pack 1 [[0x80, 0x81]]"

lemma pending_accepted: "lpValidateIntegrity lp_pending 9 True None () = Some True"
  by code_simp

lemma pending_fails: "lpPrev (lp_pack 256 ([0x80, 0x81] # es)) 8 = None"
proof -
  define t where "t = w32 (7 + length (concat ([0x80, 0x81] # es)))"
  define lp where "lp = lp_pack 256 ([0x80, 0x81] # es)"
  have lp: "lp = [ucast t, ucast (drop_bit 8 t), ucast (drop_bit 16 t), ucast (drop_bit 24 t), 0, 1, 0x80, 0x81] @ concat es @ [LP_EOF]"
    by (simp add: lp_def lp_pack_def t_def bytes4 bytes2 w32_def [of 256])
  have "lpDecodeBacklen lp 7 = Some 16385"
    by (simp add: lp lpDecodeBacklen_def byte_at_Cons)
  moreover have "lpAssertValidEntry lp n (7 - 16387) = None" for n
    by (simp add: lpAssertValidEntry_def lpValidateNext_def OUT_OF_RANGE_def LP_HDR_SIZE_def assert_that_def)
  ultimately show ?thesis
    by (simp add: lpPrev_def lp_def [symmetric] LP_HDR_SIZE_def lpEncodeBacklenBytes_def)
qed

end
