(* ===== verification/Spec2Isabelle.thy ===== *)
theory Spec2Isabelle
  imports Allocator_Limits Segregated_Objects Segregated_Check Stats Driver_Check Siphash Numbers Intset_Check
    Sha1 Sha256 Adlist_Spec Lzf_Safety Fwtree Rand48 Localtime Slots Geohash Listpack_Batch Listpack_Valid
begin

text \<open>
  \<^bold>\<open>A verification of AllocSitter.\<close>

  AllocSitter compares two memory allocators over an anonymous mapping, \<open>src/src/allocator.c\<close> (first fit)
  and \<open>src/src/segregated_allocator.c\<close> (free lists by size), by running tree-sitter with them over a
  corpus of C sources, a copy of Redis. \<open>src/bench/driver.c\<close> wraps the allocator, counts and traces what
  is requested, parses the corpus and reports. The development models the allocators, the driver, and
  the self-contained parts of the corpus: those that compute without a server around them.

  \<^bold>\<open>Conventions.\<close> Machine integers are words of their width, or \<open>int\<close> where the code uses signed values
  whose range the theorems bound. Memory is a partial map from addresses to bytes, buffers are lists of
  bytes. A result of \<open>None\<close> is what C leaves undefined: an access outside a buffer or outside mapped
  memory, a failed assertion, a shift by the width; an error the code reports is a value (\<open>Inl\<close>, 0,
  \<open>NULL\<close>). A theorem that a function returns \<open>Some\<close> is therefore also a theorem that it stays inside its
  memory. Loops are recursive functions with a termination proof; \<open>partial_function\<close> is used where
  the end depends on data from outside (the traversal of a tree, the loops of the Fenwick tree), and the
  theorems say that they end. No fuel is used. Code outside the repository is a parameter: what
  \<open>mmap\<close> returns (\<open>mmap_os\<close>, with \<open>base_ok\<close>), tree-sitter and the file system (\<open>env\<close>, with
  \<open>cursor_api\<close>), \<open>zmalloc\<close>'s fresh bytes (arguments \<open>g\<close> and \<open>junk\<close>).

  \<^bold>\<open>The allocators.\<close>
  \<^item> \<open>Prelude\<close>, \<open>Memory\<close>: words as naturals, masks, signed overflow, little-endian loads and stores, frames.
  \<^item> \<open>Arena\<close>: the state both allocators keep (statistics, heap bounds, break), \<open>extend_heap\<close>, the tags.
  \<^item> \<open>Blocks\<close>, \<open>Heap_Inv\<close>, \<open>Heap_View\<close>: the heap as a sequence of tagged blocks, read back from memory,
    and its live objects (\<open>objs\<close>).
  \<^item> \<open>Heap_Contract\<close>: the locale \<open>allocator\<close>, what C promises of malloc, calloc, realloc and free over
    live objects, the cases of NULL, no bytes and overflowing products included; with the clients of the interface:
    a small language of programs whose runs are compared with an ideal store, and the step relation \<open>heap_step\<close>,
    labelled with the calls, whose reachable states stay well formed. A parameter of the locale is the size from
    which a resize is not supported: \<open>2^32 - 23\<close> for the first-fit allocator, whose rounding is cut there, \<open>2^63\<close> for
    the other.
  \<^item> \<open>Allocator\<close> holds the operations of \<open>allocator.c\<close>; \<open>Allocator_List\<close>, \<open>_Inv\<close>, \<open>_Malloc\<close>, \<open>_Free\<close>,
    \<open>_Realloc\<close>, \<open>_Calloc\<close> prove what they do, branch by branch; \<open>Allocator_Objects\<close> interprets the contract;
    \<open>Heap_Check\<close>, \<open>Allocator_Check\<close> treat \<open>check_invariant\<close>, \<open>Allocator_Limits\<close> the behaviours outside the
    contract (C1 to C11).
  \<^item> \<open>Segregated\<close>, \<open>Segregated_Spec\<close>, \<open>_Inv\<close>, \<open>_Malloc\<close>, \<open>_Objects\<close>, \<open>_Check\<close> and \<open>Stats\<close> do the same for
    \<open>segregated_allocator.c\<close> and its statistics (C15 to C20).

  \<^bold>\<open>The driver.\<close>
  \<^item> \<open>Driver_Alloc\<close>: the wrappers \<open>w_malloc\<close> and so on. They keep the contract of any allocator, and
    after every sequence of calls the trace, the statistics and the heap agree (C36). \<open>replay\<close> is the reader in \<open>analyze_trace.py\<close>.
  \<^item> \<open>Driver_Files\<close>: directory walk, source vector, loading and releasing, with failing allocations.
  \<^item> \<open>Driver_Tree\<close>: the cursor traversal (C40). \<open>Driver_Main\<close>: options, iterations, report.
    \<open>Driver_Check\<close>: what each exit leaves behind, a trace file that a failing run does not close (C37), what a report contains, the median, the histogram.

  \<^bold>\<open>The corpus.\<close>
  \<^item> \<open>Buffer\<close>, \<open>Lzf\<close>, \<open>Lzf_Roundtrip\<close>, \<open>Lzf_Safety\<close>: \<open>lzf_c.c\<close> and \<open>lzf_d.c\<close> (C21, C22). The encoding relation of
    \<open>Lzf_Roundtrip\<close> is what the compressor writes and the decompressor reads.
  \<^item> \<open>Gf2\<close>: linear functions on words (locale \<open>xor_linear\<close>) and the matrices of \<open>crccombine.c\<close>.
    \<open>Crc64\<close>, \<open>Crc64_Spec\<close>, \<open>Crc64_Check\<close>: \<open>crc64.c\<close> and \<open>crcspeed.c\<close> (C23); \<open>Crc16\<close> (C24).
  \<^item> \<open>Glob\<close>: \<open>stringmatchlen\<close> and \<open>prefixmatch\<close> of \<open>util.c\<close> against the meaning of a pattern (C26);
    \<open>Slots\<close>: hash slots of keys and patterns, which join the matcher and the code (C27).
  \<^item> \<open>Numbers\<close>: the conversions of \<open>util.c\<close> (C29). \<open>Intset\<close>, \<open>Intset_Set\<close>, \<open>Intset_Check\<close>: \<open>intset.c\<close> on its
    bytes, the locale \<open>int_set\<close> and its refinement of a set (C31, C32).
  \<^item> \<open>Adlist\<close>, \<open>Adlist_Spec\<close>: \<open>adlist.c\<close> in a store of nodes (C33, C34).
  \<^item> \<open>Stream_Hash\<close>: the locale of hashes fed in pieces; \<open>Sha1\<close> and \<open>Sha256\<close> are instances (C35).
    \<open>Siphash\<close>: \<open>siphash.c\<close>, with the case-insensitive variant reduced to the other.
  \<^item> \<open>Fwtree\<close> (C38), \<open>Localtime\<close> (C39), \<open>Rand48\<close> (\<open>rand.c\<close> as a linear congruential generator, and the
    byte reversals of \<open>endianconv.c\<close>).
  \<^item> \<open>Listpack_Entry\<close>, \<open>Listpack\<close>, \<open>Listpack_Update\<close>: \<open>listpack.c\<close> on the bytes of one allocation: the encoding of
    an element, validation, traversal, search, and the updates. \<open>Listpack_Codec\<close> proves that an encoded element is
    read back wherever it lies; \<open>Listpack_Spec\<close> defines which list of entries the bytes represent (\<open>lp_rep\<close>) and
    proves the traversals on it (C13); \<open>Listpack_Change\<close> has the locale \<open>lp_allocator\<close>, the laws of
    \<open>lp_malloc\<close> and \<open>lp_realloc\<close>, and the updates of one element as list operations (C12); \<open>Listpack_Batch\<close> those
    of several (C28); \<open>Listpack_Valid\<close> treats \<open>lpValidateIntegrity\<close> on arbitrary bytes (C14, C25). The search loop
    is a \<open>partial_function\<close>, and C13 says that it ends.
  \<^item> \<open>Geohash\<close>: interleaved coordinates and the neighbours of a cell in \<open>geohash.c\<close> (C30).

  \<^bold>\<open>Not modelled.\<close> Printing, clocks and the means in \<open>double\<close> of the driver; tests, scripts and plots. Of the
  corpus, everything that works on server state, sockets, files or Lua, and the larger data structures
  (\<open>dict\<close>, \<open>sds\<close>, \<open>rax\<close>); the build only parses these files. Of \<open>listpack.c\<close>, the random selections, printing and
  the tests; of \<open>geohash.c\<close>, the conversions from and to floating-point coordinates; of \<open>util.c\<close>, floating point,
  paths, random bytes and files. The vector matrix product of \<open>crccombine.c\<close> is never selected on 64-bit x86.
\<close>

section \<open>Concrete runs\<close>

text \<open>An operating system that places the arena at the address 4096, for the witnesses.\<close>

definition demo_os :: mmap_os where
  "demo_os = (\<lambda>_. 4096)"

lemma demo_base: "base_ok (demo_os i)"
  by (simp add: demo_os_def base_ok_def)

lemma ff_ok_init: "ff_ok demo_os ff_init"
  by (rule ff_okI [OF ff_inv_init]) (simp add: os_ok_def demo_base)

lemma seg_ok_init: "seg_ok demo_os seg_init"
  using seg_inv_init by (auto simp: seg_ok_def os_ok_def demo_base)

lemma ff_demo_alloc:
  "\<exists>p st xs. my_malloc demo_os 100 ff_init = Some (p, st) \<and> p \<noteq> 0 \<and> ff_ok demo_os st \<and>
     objs st p = Some xs \<and> 100 \<le> length xs"
proof -
  have os: "os_ok demo_os ff_init" by (simp add: os_ok_def demo_base)
  obtain p st' where M: "my_malloc demo_os 100 ff_init = Some (p, st')" "p \<noteq> 0"
    using my_malloc_spec [OF ff_inv_init os, of 100] by (auto simp: chunk_def split: if_splits)
  then show ?thesis using ff_malloc_objs [OF ff_ok_init, of 100] by auto
qed

lemma seg_demo_alloc:
  "\<exists>p st xs. seg_malloc demo_os 100 seg_init = Some (p, st) \<and> p \<noteq> 0 \<and> seg_ok demo_os st \<and>
     objs st p = Some xs \<and> 100 \<le> length xs"
proof -
  have os: "os_ok demo_os seg_init" by (simp add: os_ok_def demo_base)
  obtain p st' where M: "seg_malloc demo_os 100 seg_init = Some (p, st')" "p \<noteq> 0"
    using seg_malloc_spec [OF seg_inv_init os, of 100] by (auto simp: chunk_def split: if_splits)
  then show ?thesis using seg_malloc_objs [OF seg_ok_init, of 100] by auto
qed

text \<open>Three small blocks, allocated one after the other.\<close>

lemma ff_grow_small:
  assumes inv: "ff_inv st bs []" and os: "os_ok os st" and room: "12 + szs bs + 16 \<le> 2 ^ 32"
  shows "\<exists>p st'. my_malloc os 8 st = Some (p, st') \<and> ff_inv st' (bs @ [(16, True)]) [] \<and> os_ok os st'"
proof -
  have k: "chunk (unat (8 :: u64)) = 16" "size16 16" by (simp_all add: chunk_def size16_def)
  have "my_malloc os 8 st = malloc_grow os (w64 16) (scanned 0 st)"
    using my_malloc_fresh [OF inv, of 8 os] k(1) by simp
  moreover obtain st' h where "malloc_grow os (w64 16) st = Some (w64 (h + 4), st')" "ff_inv st' (bs @ [(16, True)]) []"
    by (rule malloc_grow_ok [OF inv os k(2) room])
  moreover from this have "os_ok os st'" using ff_inv_base [of st' "bs @ [(16, True)]"] by (simp add: os_ok_def)
  ultimately show ?thesis by auto
qed

lemma ff_demo_three: "\<exists>st. ff_inv st [(16, True), (16, True), (16, True)] []"
proof -
  have os: "os_ok demo_os ff_init" by (simp add: os_ok_def demo_base)
  obtain st1 where s1: "ff_inv st1 ([] @ [(16, True)]) []" "os_ok demo_os st1"
    using ff_grow_small [OF ff_inv_init os] by auto
  obtain st2 where s2: "ff_inv st2 (([] @ [(16, True)]) @ [(16, True)]) []" "os_ok demo_os st2"
    using ff_grow_small [OF s1] by auto
  obtain st3 where "ff_inv st3 ((([] @ [(16, True)]) @ [(16, True)]) @ [(16, True)]) []"
    using ff_grow_small [OF s2] by auto
  then show ?thesis by auto
qed

lemma ff_demo_four: "\<exists>st. ff_inv st [(16, True), (16, True), (16, True), (16, True)] []"
proof -
  obtain st where s: "ff_inv st [(16, True), (16, True), (16, True)] []" using ff_demo_three by blast
  have "os_ok demo_os st" using ff_inv_base [OF s] by (simp add: os_ok_def)
  from ff_grow_small [OF s this] show ?thesis by auto
qed

lemma ff_demo_hole: "\<exists>st h. ff_inv st [(16, False), (16, True), (16, True)] [h] \<and> h = first st"
proof -
  obtain st where "ff_inv st ([] @ (16, True) # (16, True) # [(16, True)]) []" using ff_demo_three by auto
  then obtain st' where "ff_inv st' ([] @ (16, False) # (16, True) # [(16, True)]) [first st]" "same_arena st st'"
    by (rule my_free_plain [of st "[]" 16 16 "[(16, True)]" "[]" "first st"]) auto
  then have "ff_inv st' [(16, False), (16, True), (16, True)] [first st'] \<and> first st' = first st'"
    by (simp add: same_arena_def)
  then show ?thesis by blast
qed

text \<open>An environment with one source file that cannot be opened, and a parser whose trees are single nodes.\<close>

definition demo_ts :: "(unit, unit driver, unit driver) ts_api" where
  "demo_ts = \<lparr>ts_parser_new = (\<lambda>w. (True, w)), ts_parser_set_language = (\<lambda>w. (True, w)),
     ts_parser_parse_string = (\<lambda>_ w. (Some (), w)), ts_node_has_error = (\<lambda>_. False), ts_tree_cursor_new = (\<lambda>_ w. w),
     ts_tree_cursor_goto_first_child = (\<lambda>c. (False, c)), ts_tree_cursor_goto_next_sibling = (\<lambda>c. (False, c)),
     ts_tree_cursor_goto_parent = (\<lambda>c. (False, c)), ts_tree_cursor_delete = (\<lambda>c. c), ts_tree_delete = (\<lambda>_ w. w),
     ts_parser_delete = (\<lambda>w. w)\<rparr>"

definition demo_env :: "(unit, unit driver, unit, int) env" where
  "demo_env = \<lparr>ts_with = (\<lambda>_. demo_ts), dir_at = (\<lambda>_. Dir [(''a.c'', Reg)]), fopen_rb = (\<lambda>_. None),
     fopen_w = (\<lambda>_. True), alloc_reset = id, heap_check = None, now_sec = int, dzero = 0, dminus = (-), dplus = (+),
     dhalf = (\<lambda>a b. (a + b) div 2)\<rparr>"

definition demo_driver :: "unit driver" where
  "demo_driver = \<lparr>TS_AllocStat = zero_DataStat, trace_fp = None, heap = ()\<rparr>"

section \<open>The first-fit allocator\<close>

text \<open>
  C1. For every request below \<open>2^63\<close> bytes \<open>my_malloc\<close> returns without touching unmapped memory
  and keeps the allocator well formed. Either it returns NULL and the live objects are unchanged,
  or it returns a 16-byte aligned pointer that was not live, to a new object of at least the
  requested size, and every other live object keeps its bytes.
\<close>

theorem ff_malloc_correct:
  assumes "ff_ok os st" and "unat n < 2 ^ 63"
  shows "\<exists>p st'. my_malloc os n st = Some (p, st') \<and> ff_ok os st' \<and>
    (if p = 0 then objs st' = objs st
     else objs st p = None \<and> unat p mod 16 = 0 \<and> (\<exists>xs. unat n \<le> length xs \<and> objs st' = (objs st)(p \<mapsto> xs)))"
  using assms by (rule ff_malloc_objs)

theorem ff_malloc_correct_witness:
  "\<exists>p st'. my_malloc demo_os 40 ff_init = Some (p, st') \<and> ff_ok demo_os st'"
  using ff_malloc_correct [OF ff_ok_init, of 40] by auto

text \<open>
  C2. \<open>my_free\<close> of a live pointer returns, keeps the allocator well formed, and removes exactly
  that object: all other live objects keep their addresses, sizes and bytes.
\<close>

theorem ff_free_correct:
  assumes "ff_ok os st" and "objs st p = Some xs"
  shows "\<exists>st'. my_free p st = Some st' \<and> ff_ok os st' \<and> objs st' = (objs st)(p := None)"
  using assms by (rule ff_free_objs)

theorem ff_free_correct_witness:
  "\<exists>p st st'. my_malloc demo_os 100 ff_init = Some (p, st) \<and> p \<noteq> 0 \<and> my_free p st = Some st' \<and> objs st' p = None"
proof -
  obtain p st xs where A: "my_malloc demo_os 100 ff_init = Some (p, st)" "p \<noteq> 0" "ff_ok demo_os st" "objs st p = Some xs"
    using ff_demo_alloc by blast
  then show ?thesis using ff_free_correct [OF A(3,4)] by auto
qed

text \<open>
  C3. \<open>my_realloc\<close> of a live pointer to a size between 1 and \<open>2^32 - 24\<close> bytes either fails with
  NULL and leaves every live object untouched, or returns the object at its old or at a fresh
  aligned address with at least the requested size; the common prefix of the old and the new
  contents is preserved, and no other live object changes.
\<close>

theorem ff_realloc_correct:
  assumes "ff_ok os st" and "objs st p = Some xs" and "0 < unat n" and "unat n + 23 < 2 ^ 32"
  shows "\<exists>q st'. my_realloc os p n st = Some (q, st') \<and> ff_ok os st' \<and>
    (if q = 0 then objs st' = objs st
     else (q = p \<or> objs st q = None) \<and> unat q mod 16 = 0 \<and>
       (\<exists>ys. unat n \<le> length ys \<and> take (min (length xs) (unat n)) ys = take (min (length xs) (unat n)) xs \<and>
          objs st' = (objs st)(p := None, q \<mapsto> ys)))"
  using assms by (rule ff_realloc_objs)

theorem ff_realloc_correct_witness:
  "\<exists>p st q st'. my_malloc demo_os 100 ff_init = Some (p, st) \<and> my_realloc demo_os p 500 st = Some (q, st') \<and> ff_ok demo_os st'"
proof -
  obtain p st xs where A: "my_malloc demo_os 100 ff_init = Some (p, st)" "ff_ok demo_os st" "objs st p = Some xs"
    using ff_demo_alloc by blast
  then show ?thesis using ff_realloc_correct [OF A(2,3), of 500] by auto
qed

text \<open>
  C4. \<open>my_calloc\<close> of a zero operand, or of operands whose product does not fit 64 bits, returns NULL and changes
  nothing. Of a product between 1 and \<open>2^63 - 1\<close> bytes it returns NULL with no live object changed, or a fresh
  aligned object whose requested bytes are all zero, and no other live object changes.
\<close>

theorem ff_calloc_correct:
  assumes "ff_ok os st"
  shows "(unat k * unat n = 0 \<or> 2 ^ 64 \<le> unat k * unat n \<longrightarrow> my_calloc os k n st = Some (0, st)) \<and>
    (0 < unat k * unat n \<and> unat k * unat n < 2 ^ 63 \<longrightarrow>
      (\<exists>p st'. my_calloc os k n st = Some (p, st') \<and> ff_ok os st' \<and>
        (if p = 0 then objs st' = objs st
         else objs st p = None \<and> unat p mod 16 = 0 \<and>
           (\<exists>xs. unat k * unat n \<le> length xs \<and> take (unat k * unat n) xs = replicate (unat k * unat n) 0 \<and>
              objs st' = (objs st)(p \<mapsto> xs)))))"
  using my_calloc_null ff_calloc_objs [OF assms] by blast

theorem ff_calloc_correct_witness:
  "my_calloc demo_os 4294967296 4294967296 ff_init = Some (0, ff_init) \<and> my_calloc demo_os 7 0 ff_init = Some (0, ff_init) \<and>
   (\<exists>p st'. my_calloc demo_os 3 5 ff_init = Some (p, st') \<and> ff_ok demo_os st')"
  using ff_calloc_correct [OF ff_ok_init, of 3 5] ff_calloc_correct [OF ff_ok_init, of 4294967296 4294967296]
    ff_calloc_correct [OF ff_ok_init, of 7 0] by auto

text \<open>
  C5. Refinement: a client program that accesses its objects only inside their bounds and while they are live, asks
  for objects below \<open>2^63\<close> bytes and resizes to less than \<open>2^32 - 23\<close> bytes, run from the initial state against the
  first-fit allocator, never faults, and everything it reads agrees with an ideal store of named byte
  arrays; it stops early only where an allocation returns NULL. The program may release and resize NULL, resize
  to no bytes, ask \<open>calloc\<close> for no bytes or for a product above 64 bits, and lose objects. The limit on resizes is the
  allocator's own: \<open>ff_realloc_truncates\<close> below shows what happens beyond it.
\<close>

theorem ff_client_refines:
  assumes "base_ok (os 0)" and "ideal_run (2 ^ 32 - 23) cs Map.empty = Some out"
  shows "\<exists>alive out'. exec_run (ff_ops os) cs (\<lambda>_. 0) ff_init = Some (alive, out') \<and>
    agree (take (length out') out) out' \<and> (alive \<longrightarrow> length out' = length out)"
proof (rule ff.run_refines [OF _ assms(2)])
  have "ff_ok os ff_init" by (rule ff_okI [OF ff_inv_init]) (use assms(1) in \<open>simp add: os_ok_def ff_init_def\<close>)
  then show "ff.sim os Map.empty (\<lambda>_. 0) ff_init" by (simp add: ff.sim_def)
qed

theorem ff_client_refines_witness:
  "\<exists>alive out'. exec_run (ff_ops demo_os)
      [Alloc 0 4, Put 0 1 [7, 9], Resize 0 64, Get 0 1 2, Resize 0 0, Release 0, Zalloc 0 0 8, Resize 0 8] (\<lambda>_. 0) ff_init =
      Some (alive, out') \<and>
    agree (take (length out') [Some 7, Some 9]) out' \<and> (alive \<longrightarrow> length out' = 2)"
proof -
  have "replicate 4 None = [None, None, None, None :: u8 option]" by (simp add: numeral_eq_Suc)
  then have "ideal_run (2 ^ 32 - 23)
      [Alloc 0 4, Put 0 1 [7, 9], Resize 0 64, Get 0 1 2, Resize 0 0, Release 0, Zalloc 0 0 8, Resize 0 8] Map.empty =
      Some [Some 7, Some 9]"
    by (simp add: overwrite_def resize_def)
  from ff_client_refines [of demo_os, OF demo_base this] show ?thesis
    by (simp del: exec_run.simps add: numeral_eq_Suc)
qed

text \<open>
  C6. Invariant by rule induction over the calls of a client: in every reachable state the allocator is well
  formed and every further legal call returns. Where moreover a block exists or no growth was ever tried, and the
  free list has at most 500000 nodes, \<open>check_invariant\<close> runs to its end with every assertion true. The two
  provisos are needed: \<open>ff_check_faults_after_failure\<close> below is a reachable state without a block after a failed growth.
\<close>

theorem ff_reachable_checked:
  assumes "base_ok (os 0)" and "heap_reach (2 ^ 32 - 23) (ff_ops os) objs ff_init st"
  shows "ff_ok os st \<and>
    (\<forall>c. legal (2 ^ 32 - 23) (objs st) c \<longrightarrow> (\<exists>st'. do_call (ff_ops os) c st = Some st' \<and> ff_ok os st')) \<and>
    ((heap_lo st \<noteq> 0 \<or> heap_hi st = 0) \<and> unat (freelist_len (alloc_stat st)) \<le> MAX_NODES \<longrightarrow>
      check_invariant st = Some (Inr ()))"
proof (intro conjI allI impI)
  have "ff_ok os ff_init" by (rule ff_okI [OF ff_inv_init]) (use assms(1) in \<open>simp add: os_ok_def ff_init_def\<close>)
  then show ok: "ff_ok os st" by (rule ff.reach_ok [OF assms(2)])
  show "\<exists>st'. do_call (ff_ops os) c st = Some st' \<and> ff_ok os st'" if "legal (2 ^ 32 - 23) (objs st) c" for c
    using that ok by (rule ff.call_ok)
  obtain bs fs where inv: "ff_inv st bs fs" using ok by (rule ff_okE)
  assume "(heap_lo st \<noteq> 0 \<or> heap_hi st = 0) \<and> unat (freelist_len (alloc_stat st)) \<le> MAX_NODES"
  then show "check_invariant st = Some (Inr ())" by (intro check_invariant_reached [OF inv]) simp_all
qed

theorem ff_reachable_checked_witness:
  "\<exists>st. heap_reach (2 ^ 32 - 23) (ff_ops demo_os) objs ff_init st \<and> heap_lo st \<noteq> 0 \<and> ff_ok demo_os st \<and>
    (\<exists>st'. do_call (ff_ops demo_os) (Free 0) st = Some st') \<and> check_invariant st = Some (Inr ())"
proof -
  obtain p st where M: "my_malloc demo_os 8 ff_init = Some (p, st)" "ff_inv st ([] @ [(16, True)]) []"
    using ff_grow_small [OF ff_inv_init, of demo_os] by (auto simp: os_ok_def demo_base)
  have reach: "heap_reach (2 ^ 32 - 23) (ff_ops demo_os) objs ff_init st"
    by (rule reach_call [of _ _ _ "Malloc 8"]) (simp_all add: ff_ops_def M(1))
  have "heap_lo st \<noteq> 0" "unat (freelist_len (alloc_stat st)) \<le> MAX_NODES"
    using M(2) by (auto simp: ff_inv_def heap_inv_def arena_inv_def base_ok_def w64_eq_0_iff split: if_splits)
  moreover have "legal (2 ^ 32 - 23) (objs st) (Free 0)" by simp
  ultimately show ?thesis using ff_reachable_checked [OF demo_base reach] reach by blast
qed

text \<open>
  C7. First fit: when some free block is large enough for a request, \<open>my_malloc\<close> returns the first
  such block in free-list order, and the arena does not grow.
\<close>

theorem ff_malloc_first_fit:
  assumes "ff_inv st bs fs" and "unat sz < 2 ^ 63" and "\<exists>h \<in> set fs. fits (first st) bs (chunk (unat sz)) h"
  shows "\<exists>h xs ys st'. my_malloc os sz st = Some (w64 (h + 4), st') \<and> fs = xs @ h # ys \<and>
    (\<forall>x \<in> set xs. \<not> fits (first st) bs (chunk (unat sz)) x) \<and> fits (first st) bs (chunk (unat sz)) h \<and>
    arena_cur st' = arena_cur st"
proof -
  obtain h n st' bs' fs' xs ys where "my_malloc os sz st = Some (w64 (h + 4), st')" "same_arena st st'"
    "fs = xs @ h # ys" "\<forall>x \<in> set xs. \<not> fits (first st) bs (chunk (unat sz)) x" "fits (first st) bs (chunk (unat sz)) h"
    by (rule my_malloc_reuse [OF assms])
  then show ?thesis by (auto simp: same_arena_def)
qed

theorem ff_malloc_first_fit_witness:
  "\<exists>st st'. ff_inv st [(16, False), (16, True), (16, True)] [first st] \<and> my_malloc demo_os 5 st = Some (w64 (first st + 4), st')"
proof -
  obtain st where inv: "ff_inv st [(16, False), (16, True), (16, True)] [first st]" using ff_demo_hole by blast
  have "fits (first st) [(16, False), (16, True), (16, True)] (chunk (unat (5 :: u64))) (first st)"
    by (simp add: fits_def chunk_def)
  then have "\<exists>h xs ys st'. my_malloc demo_os 5 st = Some (w64 (h + 4), st') \<and> [first st] = xs @ h # ys \<and>
      (\<forall>x \<in> set xs. \<not> fits (first st) [(16, False), (16, True), (16, True)] (chunk (unat (5 :: u64))) x) \<and>
      fits (first st) [(16, False), (16, True), (16, True)] (chunk (unat (5 :: u64))) h \<and> arena_cur st' = arena_cur st"
    by (intro ff_malloc_first_fit [OF inv]) auto
  then show ?thesis using inv by (auto simp: Cons_eq_append_conv)
qed

text \<open>
  C8. Error behaviour: when \<open>my_malloc\<close> returns NULL, no free block is large enough, and either the four gigabytes
  of the arena have no room left for a block of the rounded size, or the arena is not reserved yet and \<open>mmap\<close>
  failed. Conversely, where \<open>mmap\<close> fails each time it is called, \<open>my_malloc\<close> returns NULL with the heap as it was.
\<close>

theorem ff_malloc_null_means_full:
  assumes "ff_inv st bs fs" and "unat sz < 2 ^ 63"
  shows "((arena_base st = 0 \<longrightarrow> base_ok (os (mmaps st)) \<or> os (mmaps st) = MAP_FAILED) \<and> my_malloc os sz st = Some (0, st') \<longrightarrow>
      (\<forall>h \<in> set fs. \<not> fits (first st) bs (chunk (unat sz)) h) \<and>
      (2 ^ 32 < 12 + szs bs + chunk (unat sz) \<or> arena_base st = 0 \<and> os (mmaps st) = MAP_FAILED)) \<and>
    (arena_base st = 0 \<and> (\<forall>i < 3. os (mmaps st + i) = MAP_FAILED) \<longrightarrow>
      (\<exists>st'. my_malloc os sz st = Some (0, st') \<and> ff_inv st' bs fs \<and> arena_base st' = 0))"
  using malloc_null_cases [OF assms(1) _ assms(2)] malloc_no_arena [OF assms(1) _ _ assms(2)] by blast

theorem ff_malloc_null_means_full_witness:
  "(\<exists>st'. my_malloc demo_os 4294967296 ff_init = Some (0, st') \<and>
      ((2 :: nat) ^ 32 < 12 + szs [] + chunk 4294967296 \<or> demo_os 0 = MAP_FAILED)) \<and>
   (\<exists>st'. my_malloc (\<lambda>_. MAP_FAILED) 8 ff_init = Some (0, st') \<and> ff_inv st' [] [] \<and> arena_base st' = 0)"
proof -
  obtain st' where M: "my_malloc demo_os 4294967296 ff_init = Some (0, st')"
    by (rule malloc_full_init [of demo_os 4294967296]) (simp_all add: demo_base)
  have "(2 :: nat) ^ 32 < 12 + szs [] + chunk (unat (4294967296 :: u64)) \<or> arena_base ff_init = 0 \<and> demo_os (mmaps ff_init) = MAP_FAILED"
    using ff_malloc_null_means_full [OF ff_inv_init, of 4294967296 demo_os st'] M demo_base by simp
  moreover have "\<exists>st'. my_malloc (\<lambda>_. MAP_FAILED) 8 ff_init = Some (0, st') \<and> ff_inv st' [] [] \<and> arena_base st' = 0"
    using ff_malloc_null_means_full [OF ff_inv_init, of 8 "\<lambda>_. MAP_FAILED"] by (simp add: ff_init_def)
  ultimately show ?thesis using M by (simp add: ff_init_def)
qed

text \<open>
  C9. Releases that do nothing: \<open>my_free\<close> of NULL, in any state, and a second \<open>my_free\<close> of a block that is still on
  the free list.
\<close>

theorem ff_double_free_ignored:
  assumes "ff_inv st bs fs" and "h \<in> set fs"
  shows "my_free 0 any = Some any \<and> my_free (w64 (h + 4)) st = Some st"
  using my_free_null my_free_free [OF assms(1), of h] assms(2) ff_inv_fs [OF assms(1)] by simp

theorem ff_double_free_ignored_witness:
  "\<exists>st. ff_inv st [(16, False), (16, True), (16, True)] [first st] \<and> my_free 0 ff_init = Some ff_init \<and>
    my_free (w64 (first st + 4)) st = Some st"
proof -
  obtain st where inv: "ff_inv st [(16, False), (16, True), (16, True)] [first st]" using ff_demo_hole by blast
  then show ?thesis using ff_double_free_ignored [OF inv, of "first st" ff_init] by auto
qed

text \<open>
  C10. Soundness of \<open>check_invariant\<close>: a state it accepts has its heap tiled by blocks of valid size
  with matching header and footer sizes, and the free list is null-terminated, free of cycles, and
  contains exactly the free blocks, as many as \<open>freelist_len\<close> says.
\<close>

theorem ff_check_sound:
  assumes "check_invariant st = Some (Inr ())" and "unat (heap_hi st) + 2 ^ 32 \<le> 2 ^ 64" and "heap_lo st \<le> heap_hi st"
  shows "\<exists>bs fs. unat (heap_lo st) + szs bs = unat (heap_hi st) \<and>
    (\<forall>(h, n, u) \<in> set (hdrs (unat (heap_lo st)) bs). checked_blk (mem st) h n u) \<and>
    flist (mem st) (free_head st) fs \<and> distinct fs \<and> set fs = free_hdrs (unat (heap_lo st)) bs \<and>
    freelist_len (alloc_stat st) = w64 (length fs)"
  using assms by (rule check_invariant_sound)

theorem ff_check_sound_witness:
  "\<exists>st :: ff_st. \<exists>bs fs. heap_lo st \<noteq> 0 \<and> unat (heap_lo st) + szs bs = unat (heap_hi st) \<and> flist (mem st) (free_head st) fs \<and>
     set fs = free_hdrs (unat (heap_lo st)) bs"
proof -
  obtain st where inv: "ff_inv st [(16, False), (16, True), (16, True)] [first st]" using ff_demo_hole by blast
  have lo: "heap_lo st = w64 (first st)" "heap_hi st = w64 (first st + 48)" "unat (arena_base st) + 2 ^ 32 \<le> 2 ^ 47"
    "heap_lo st \<noteq> 0"
    using inv by (auto simp: ff_inv_def heap_inv_def arena_inv_def base_ok_def w64_eq_0_iff add.assoc split: if_splits)
  have u: "unat (w64 (first st)) = first st" "unat (w64 (first st + 48)) = first st + 48"
    by (rule unat_w64_small, use lo(3) in simp)+
  have "check_invariant st = Some (Inr ())" by (rule check_invariant_ok [OF inv]) (simp_all add: MAX_NODES_def)
  moreover have "heap_lo st \<le> heap_hi st" "unat (heap_hi st) + 2 ^ 32 \<le> 2 ^ 64"
    using lo u by (simp_all add: word_le_nat_alt)
  ultimately show ?thesis using ff_check_sound [of st] lo(4) by (intro exI [of _ st]) auto
qed

text \<open>
  C11. Coalescing is incomplete: when a used block with no free neighbour on either side is freed, and then its right
  neighbour, whose own right neighbour is used, the heap holds two adjacent free blocks, since the first free leaves
  the used bit in the footer.
\<close>

theorem ff_free_misses_left_neighbour:
  assumes "ff_inv st (xs @ (a, True) # (n, True) # (c, True) # ys) fs" and "xs = [] \<or> snd (last xs)"
    and "h = first st + szs xs"
  shows "\<exists>st1 st2. my_free (w64 (h + 4)) st = Some st1 \<and> my_free (w64 (h + a + 4)) st1 = Some st2 \<and>
    heap_blocks st2 = xs @ (a, False) # (n, False) # (c, True) # ys"
  using assms by (rule free_misses_left)

theorem ff_free_misses_left_neighbour_witness:
  "\<exists>st st1 st2. my_free (w64 (first st + 20)) st = Some st1 \<and> my_free (w64 (first st + 36)) st1 = Some st2 \<and>
    heap_blocks st2 = [(16, True), (16, False), (16, False), (16, True)]"
proof -
  obtain st where "ff_inv st ([(16, True)] @ (16, True) # (16, True) # (16, True) # []) []" using ff_demo_four by auto
  from ff_free_misses_left_neighbour [OF this, of "first st + 16"] show ?thesis by auto
qed

text \<open>
  The 32-bit mask in \<open>my_realloc\<close>: a reallocation to four gigabytes reports success, at the old
  address, with an object no larger than it was.
\<close>

theorem ff_realloc_truncates:
  assumes "ff_ok os st" and "objs st p = Some xs"
  shows "\<exists>st' ys. my_realloc os p 4294967296 st = Some (p, st') \<and> objs st' p = Some ys \<and>
    length ys \<le> length xs \<and> length ys < 2 ^ 32"
  using assms by (rule ff_realloc_truncates_objs)

theorem ff_realloc_truncates_witness:
  "\<exists>p st st' ys. my_malloc demo_os 100 ff_init = Some (p, st) \<and> my_realloc demo_os p 4294967296 st = Some (p, st') \<and>
    objs st' p = Some ys \<and> length ys < 2 ^ 32"
proof -
  obtain p st xs where A: "my_malloc demo_os 100 ff_init = Some (p, st)" "ff_ok demo_os st" "objs st p = Some xs"
    using ff_demo_alloc by blast
  then show ?thesis using ff_realloc_truncates [OF A(2,3)] by blast
qed

text \<open>The rounding of a request near the top of the address range wraps around: \<open>SIZE_MAX\<close> bytes are served like eight.\<close>

theorem ff_malloc_size_wraps: "my_malloc os SIZE_MAX st = my_malloc os 8 st"
  by (rule malloc_wraps)

text \<open>
  After a first allocation that does not fit the arena, \<open>check_invariant\<close> dereferences the null
  pointer instead of accepting the empty heap.
\<close>

theorem ff_check_faults_after_failure:
  assumes "base_ok (os 0)" and "2 ^ 32 \<le> unat sz" and "unat sz < 2 ^ 63"
  shows "\<exists>st'. my_malloc os sz ff_init = Some (0, st') \<and> check_invariant st' = None"
  using assms by (rule check_after_failed_malloc)

theorem ff_check_faults_after_failure_witness:
  "\<exists>st'. my_malloc demo_os 4294967296 ff_init = Some (0, st') \<and> check_invariant st' = None"
  using ff_check_faults_after_failure [OF demo_base, of 4294967296] by simp

section \<open>The segregated allocator\<close>

text \<open>
  C15. \<open>my_malloc\<close> of the segregated allocator returns, keeps the allocator and its statistics well
  formed, and yields NULL with nothing changed or a fresh aligned object of at least the requested size.
\<close>

theorem seg_malloc_correct:
  assumes "seg_ok os st" and "unat n < 2 ^ 63"
  shows "\<exists>p st'. seg_malloc os n st = Some (p, st') \<and> seg_ok os st' \<and>
    (if p = 0 then objs st' = objs st
     else objs st p = None \<and> unat p mod 16 = 0 \<and> (\<exists>xs. unat n \<le> length xs \<and> objs st' = (objs st)(p \<mapsto> xs)))"
  using assms by (rule seg_malloc_objs)

theorem seg_malloc_correct_witness:
  "\<exists>p st'. seg_malloc demo_os 40 seg_init = Some (p, st') \<and> seg_ok demo_os st'"
  using seg_malloc_correct [OF seg_ok_init, of 40] by auto

text \<open>
  C16. \<open>my_realloc\<close> of the segregated allocator has no size limit below \<open>2^63\<close>: it fails with nothing
  changed, or moves the object to a fresh address with its common prefix preserved.
\<close>

theorem seg_realloc_correct:
  assumes "seg_ok os st" and "objs st p = Some xs" and "0 < unat n" and "unat n < 2 ^ 63"
  shows "\<exists>q st'. seg_realloc os p n st = Some (q, st') \<and> seg_ok os st' \<and>
    (if q = 0 then objs st' = objs st
     else objs st q = None \<and> unat q mod 16 = 0 \<and>
       (\<exists>ys. unat n \<le> length ys \<and> take (min (length xs) (unat n)) ys = take (min (length xs) (unat n)) xs \<and>
          objs st' = (objs st)(p := None, q \<mapsto> ys)))"
  using assms by (rule seg_realloc_objs)

theorem seg_realloc_correct_witness:
  "\<exists>p st q st'. seg_malloc demo_os 100 seg_init = Some (p, st) \<and> seg_realloc demo_os p 5000000000 st = Some (q, st') \<and> seg_ok demo_os st'"
proof -
  obtain p st xs where A: "seg_malloc demo_os 100 seg_init = Some (p, st)" "seg_ok demo_os st" "objs st p = Some xs"
    using seg_demo_alloc by blast
  then show ?thesis using seg_realloc_correct [OF A(2,3), of 5000000000] by auto
qed

text \<open>
  C17. The client refinement of C5 holds for the segregated allocator as well, with resizes up to the limit of all
  objects, \<open>2^63\<close> bytes.
\<close>

theorem seg_client_refines:
  assumes "base_ok (os 0)" and "ideal_run (2 ^ 63) cs Map.empty = Some out"
  shows "\<exists>alive out'. exec_run (seg_ops os) cs (\<lambda>_. 0) seg_init = Some (alive, out') \<and>
    agree (take (length out') out) out' \<and> (alive \<longrightarrow> length out' = length out)"
proof (rule seg.run_refines [OF _ assms(2)])
  have "seg_ok os seg_init" using seg_inv_init assms(1) by (auto simp: seg_ok_def os_ok_def seg_init_def)
  then show "seg.sim os Map.empty (\<lambda>_. 0) seg_init" by (simp add: seg.sim_def)
qed

theorem seg_client_refines_witness:
  "\<exists>alive out'. exec_run (seg_ops demo_os) [Zalloc 0 2 2, Put 0 1 [7], Get 0 0 4, Resize 0 5000000000] (\<lambda>_. 0) seg_init = Some (alive, out') \<and>
    agree (take (length out') [Some 0, Some 7, Some 0, Some 0]) out' \<and> (alive \<longrightarrow> length out' = 4)"
proof -
  have "replicate 4 (Some 0) = [Some 0, Some 0, Some 0, Some 0 :: u8 option]" by (simp add: numeral_eq_Suc)
  then have "ideal_run (2 ^ 63) [Zalloc 0 2 2, Put 0 1 [7], Get 0 0 4, Resize 0 5000000000] Map.empty = Some [Some 0, Some 7, Some 0, Some 0]"
    by (simp add: overwrite_def)
  from seg_client_refines [of demo_os, OF demo_base this] show ?thesis
    by (simp del: exec_run.simps add: numeral_eq_Suc)
qed

text \<open>
  C18. In every reachable state of the segregated allocator the allocator is well formed and every further legal
  call returns. Where a block exists or no growth was ever tried, and at most 500000 blocks are free, the
  consistency check accepts, its accounting of the live bytes included.
\<close>

theorem seg_reachable_checked:
  assumes "base_ok (os 0)" and "heap_reach (2 ^ 63) (seg_ops os) objs seg_init st"
  shows "seg_ok os st \<and>
    (\<forall>c. legal (2 ^ 63) (objs st) c \<longrightarrow> (\<exists>st'. do_call (seg_ops os) c st = Some st' \<and> seg_ok os st')) \<and>
    ((heap_lo st \<noteq> 0 \<or> heap_hi st = 0) \<and> unat (freelist_len (alloc_stat st)) \<le> MAX_NODES \<longrightarrow>
      seg_check_invariant st = Some (Inr ()))"
proof (intro conjI allI impI)
  have "seg_ok os seg_init" using seg_inv_init assms(1) by (auto simp: seg_ok_def os_ok_def seg_init_def)
  then show ok: "seg_ok os st" by (rule seg.reach_ok [OF assms(2)])
  show "\<exists>st'. do_call (seg_ops os) c st = Some st' \<and> seg_ok os st'" if "legal (2 ^ 63) (objs st) c" for c
    using that ok by (rule seg.call_ok)
  obtain bs F where inv: "seg_inv st bs F" using ok by (rule seg_okE)
  assume "(heap_lo st \<noteq> 0 \<or> heap_hi st = 0) \<and> unat (freelist_len (alloc_stat st)) \<le> MAX_NODES"
  then show "seg_check_invariant st = Some (Inr ())" by (intro seg_check_reached [OF inv]) simp_all
qed

lemma seg_demo_small:
  "\<exists>st. seg_malloc demo_os 8 seg_init = Some (w64 (first st + 4), st) \<and> seg_inv st [(16, True)] (\<lambda>_. [])"
proof -
  have os: "os_ok demo_os seg_init" by (simp add: os_ok_def demo_base)
  have k16: "size16 16" by (simp add: size16_def)
  have room: "12 + szs [] + 16 \<le> 2 ^ 32" by simp
  have "seg_malloc demo_os 8 seg_init = seg_malloc_grow demo_os (w64 16) seg_init"
    by (rule seg_malloc_init) (simp_all add: chunk_def)
  moreover obtain st h where "seg_malloc_grow demo_os (w64 16) seg_init = Some (w64 (h + 4), st)"
    and "seg_inv st ([] @ [(16, True)]) (\<lambda>_. [])" and "h = first st + szs []"
    by (rule seg_grow_ok [OF seg_inv_init os k16 room])
  ultimately show ?thesis by auto
qed

lemma seg_demo_freed:
  assumes inv: "seg_inv st [(16, True)] F"
  shows "(\<exists>xs. objs st (w64 (first st + 4)) = Some xs) \<and>
    (\<exists>st'. seg_free (w64 (first st + 4)) st = Some st' \<and> heap_blocks st' = [(16, False)])"
proof
  have live: "(first st, 16) \<in> used_blks (first st) [(16, True)]" by simp
  show "\<exists>xs. objs st (w64 (first st + 4)) = Some xs" using objs_at [OF seg_inv_heap [OF inv] live] by blast
  obtain st' bs F' where M: "seg_free (w64 (first st + 4)) st = Some st'" "seg_inv st' bs F'"
    "used_blks (first st) bs = {}" "szs bs = 16"
    using seg_free_spec [OF inv live] by auto
  have "sizes_ok bs" using seg_inv_heap [OF M(2)] by (auto simp: heap_inv_def dest: layout_sizes_ok)
  then have "bs = [(16, False)]" using M(3,4)
    by (cases bs; cases "tl bs") (auto dest!: size16D(1) split: if_splits)
  then show "\<exists>st'. seg_free (w64 (first st + 4)) st = Some st' \<and> heap_blocks st' = [(16, False)]"
    using M(1) heap_blocks_eq [OF seg_inv_heap [OF M(2)]] by auto
qed

theorem seg_reachable_checked_witness:
  "\<exists>st. heap_reach (2 ^ 63) (seg_ops demo_os) objs seg_init st \<and> heap_lo st \<noteq> 0 \<and> seg_ok demo_os st \<and>
    (\<exists>st'. do_call (seg_ops demo_os) (Free 0) st = Some st') \<and> seg_check_invariant st = Some (Inr ())"
proof -
  obtain p st where M: "seg_malloc demo_os 8 seg_init = Some (p, st)" and inv: "seg_inv st [(16, True)] (\<lambda>_. [])"
    using seg_demo_small by blast
  have reach: "heap_reach (2 ^ 63) (seg_ops demo_os) objs seg_init st"
    by (rule reach_call [of _ _ _ "Malloc 8"]) (simp_all add: seg_ops_def M)
  have "heap_lo st \<noteq> 0" "unat (freelist_len (alloc_stat st)) \<le> MAX_NODES"
    using inv by (auto simp: seg_inv_def heap_inv_def arena_inv_def base_ok_def w64_eq_0_iff split: if_splits)
  moreover have "legal (2 ^ 63) (objs st) (Free 0)" by simp
  ultimately show ?thesis using seg_reachable_checked [OF demo_base reach] reach by blast
qed

text \<open>
  C19. The statistics of the segregated allocator are exact after every sequence of legal calls from the initial
  state: \<open>live_real_bytes\<close> is the sum of the sizes of the used blocks one finds walking the heap,
  \<open>peak_live_real_bytes\<close> the highest number of live bytes at any call so far (for a reallocation that moves, the
  moment when both blocks are live), \<open>freelist_len\<close> the number of free blocks of the heap, and \<open>arena_used_bytes\<close> the
  padding plus all blocks.
\<close>

theorem seg_stats_exact:
  assumes "base_ok (os 0)" and "heap_run (2 ^ 63) (seg_ops os) objs cs seg_init st"
  shows "unat (live_real_bytes (seg_stat_get st)) = used_sum (heap_blocks st) \<and>
    unat (peak_live_real_bytes (seg_stat_get st)) = high_mark os cs seg_init \<and>
    unat (freelist_len (seg_stat_get st)) = length (filter (\<lambda>(n, u). \<not> u) (heap_blocks st)) \<and>
    unat (arena_used_bytes (seg_stat_get st)) = (if heap_blocks st = [] then 0 else 12 + szs (heap_blocks st))"
  using seg_run_stats [OF assms(2,1)] by blast

theorem seg_stats_exact_witness:
  "\<exists>p st st'. heap_run (2 ^ 63) (seg_ops demo_os) objs [Malloc 8, Free p] seg_init st' \<and>
    seg_malloc demo_os 8 seg_init = Some (p, st) \<and> seg_free p st = Some st' \<and>
    unat (live_real_bytes (seg_stat_get st)) = 16 \<and> unat (live_real_bytes (seg_stat_get st')) = 0 \<and>
    unat (peak_live_real_bytes (seg_stat_get st')) = 16 \<and> unat (freelist_len (seg_stat_get st')) = 1 \<and>
    unat (arena_used_bytes (seg_stat_get st')) = 28"
proof -
  note stats = seg_stats_exact [where os = demo_os, OF demo_base]
  obtain st where M0: "seg_malloc demo_os 8 seg_init = Some (w64 (first st + 4), st)" and inv: "seg_inv st [(16, True)] (\<lambda>_. [])"
    using seg_demo_small by blast
  define p where "p = w64 (first st + 4)"
  have M: "seg_malloc demo_os 8 seg_init = Some (p, st)" unfolding p_def by (rule M0)
  have c1: "do_call (seg_ops demo_os) (Malloc 8) seg_init = Some st" by (simp add: seg_ops_def M)
  have r1: "heap_run (2 ^ 63) (seg_ops demo_os) objs [Malloc 8] seg_init st"
    using run_snoc [OF run_nil call_step [OF _ c1]] by simp
  have b1: "heap_blocks st = [(16, True)]" by (rule heap_blocks_eq [OF seg_inv_heap [OF inv]])
  obtain xs st' where p: "objs st p = Some xs" and F: "seg_free p st = Some st'" "heap_blocks st' = [(16, False)]"
    using seg_demo_freed [OF inv] unfolding p_def by blast
  have c2: "do_call (seg_ops demo_os) (Free p) st = Some st'" by (simp add: seg_ops_def F(1))
  have r2: "heap_run (2 ^ 63) (seg_ops demo_os) objs ([Malloc 8] @ [Free p]) seg_init st'"
    by (rule run_snoc [OF r1 call_step [OF _ c2]]) (simp add: p)
  have l: "unat (live_real_bytes (alloc_stat st)) = 16" "unat (live_real_bytes (alloc_stat st')) = 0"
    using stats [OF r1] stats [OF r2] b1 F(2) by (simp_all add: seg_stat_get_def)
  have "high_mark demo_os [Malloc 8, Free p] seg_init = 16" using c1 c2 l by (simp add: call_mark_def del: do_call.simps)
  then show ?thesis
    using M F(1) r2 stats [OF r1] stats [OF r2] b1 F(2)
    by (intro exI [of _ p] exI [of _ st] exI [of _ st']) simp
qed

text \<open>C20. The histogram class of a size is the position of its highest bit: bucket \<open>i\<close> holds the sizes from \<open>2^i\<close> to \<open>2^(i+1) - 1\<close>.\<close>

theorem size_bucket_correct:
  assumes "n \<noteq> 0"
  shows "2 ^ size_bucket n \<le> unat n \<and> unat n < 2 ^ (size_bucket n + 1) \<and> size_bucket n < 64"
  using size_bucket_bounds [OF assms] by blast

theorem size_bucket_correct_witness: "2 ^ size_bucket 100 \<le> (100 :: nat) \<and> 100 < (2 :: nat) ^ (size_bucket 100 + 1)"
  using size_bucket_correct [of 100] by simp

section \<open>Properties of the corpus\<close>

text \<open>
  C21. Round trip: whatever the hash table of the compressor held before, \<open>lzf_compress\<close> of at least two
  bytes returns within its output buffer, and when it reports a length other than 0,
  \<open>lzf_decompress\<close> of what it wrote gives back the input.
\<close>

theorem lzf_roundtrip:
  assumes "2 \<le> length D" and "length D \<le> length dst"
  shows "\<exists>n out'. lzf_compress htab D out = Some (n, out') \<and> length out' = length out \<and> n \<le> length out \<and>
    (n \<noteq> 0 \<longrightarrow> (\<exists>dst'. lzf_decompress (take n out') dst = Some (Inr (length D), dst') \<and> take (length D) dst' = D))"
  by (rule lzf_roundtrip_any [OF assms])

theorem lzf_roundtrip_witness:
  "\<exists>n out'. lzf_compress (\<lambda>_. 0) [97, 98, 97, 98, 97, 98] (replicate 16 0) = Some (n, out') \<and>
    length out' = length (replicate 16 (0 :: u8)) \<and> n \<le> length (replicate 16 (0 :: u8)) \<and>
    (n \<noteq> 0 \<longrightarrow> (\<exists>dst'. lzf_decompress (take n out') (replicate 6 0) = Some (Inr (length [97, 98, 97, 98, 97, 98 :: u8]), dst') \<and>
      take (length [97, 98, 97, 98, 97, 98 :: u8]) dst' = [97, 98, 97, 98, 97, 98]))"
  by (rule lzf_roundtrip) simp_all

text \<open>
  C22. \<open>lzf_decompress\<close> ends on every input, whoever wrote it, without reading or writing outside its
  buffers: it reports an error or a length that fits the output buffer.
\<close>

theorem lzf_decompress_total:
  "\<exists>r out'. lzf_decompress inp out = Some (r, out') \<and> length out' = length out \<and>
    (case r of Inl _ \<Rightarrow> True | Inr n \<Rightarrow> n \<le> length out)"
  using lzf_d_loop_safe [of 0 out inp 0] by (auto simp: lzf_decompress_def d_result_def split: option.splits)

text \<open>
  C23. The fast CRC-64 is the bitwise one: after \<open>crc64_init\<close>, with any cutoffs, on either byte order and
  whatever the alignment of the buffers, \<open>crc64\<close> of a message fed in pieces returns what \<open>_crc64\<close>
  returns for the whole message.
\<close>

theorem crc64_fast_is_bitwise:
  assumes "\<forall>p \<in> set pieces. length (snd p) < 2 ^ 64"
  shows "\<exists>st crc st'. crc64_init big crc_start = Some st \<and>
    crc64_feed big (set_crc64_cutoffs dual tri st) 0 pieces = (crc, st') \<and> crc64_bits 0 (concat (map snd pieces)) = Some crc"
proof -
  obtain st where st: "crc64_init big crc_start = Some st" "native_ok big st"
    using crc64_init_ok [OF cache_ok_start] by blast
  have "native_ok big (set_crc64_cutoffs dual tri st)" using st(2) by (simp add: native_ok_def set_crc64_cutoffs_def)
  from crc64_feed_ok [OF this assms] st(1) show ?thesis by (auto simp: crc64_bits_ok)
qed

theorem crc64_fast_is_bitwise_witness:
  "\<exists>st crc st'. crc64_init False crc_start = Some st \<and>
    crc64_feed False (set_crc64_cutoffs 1 2 st) 0 [(4099, [49, 50, 51, 52]), (4096, [53, 54, 55, 56, 57])] = (crc, st') \<and>
    crc64_bits 0 (concat (map snd [(4099 :: u64, [49, 50, 51, 52]), (4096, [53, 54, 55, 56, 57])])) = Some crc"
  by (rule crc64_fast_is_bitwise) simp

text \<open>
  C24. \<open>crc16\<close> runs the shift register of the polynomial \<open>0x1021\<close>: its table of 256 entries holds what
  eight steps of the register give, and the slicing version of \<open>crcspeed.c\<close>, with a table made from
  \<open>crc16\<close>, agrees with it on a little-endian machine for every alignment. The check value of the
  header comment, \<open>31C3\<close> for the digits 1 to 9, is reached.
\<close>

theorem crc16_is_bitwise:
  "crc16 s = crc16_spec 0 s \<and> crcspeed16native False (crcspeed16native_init False (\<lambda>_. crc16)) 0 buf s = crc16 s \<and>
   crc16 [49, 50, 51, 52, 53, 54, 55, 56, 57] = 0x31C3"
proof (intro conjI)
  show s: "crc16 t = crc16_spec 0 t" for t by (rule crc16_ok)
  show "crcspeed16native False (crcspeed16native_init False (\<lambda>_. crc16)) 0 buf s = crc16 s"
    using crcspeed16little_ok [OF crcspeed16little_init_ok [of "\<lambda>_. crc16"]]
    by (simp add: s crcspeed16native_def crcspeed16native_init_def)
  show "crc16 [49, 50, 51, 52, 53, 54, 55, 56, 57] = 0x31C3"
    by (simp add: crc16_def crc16_byte_def crc16tab_def)
qed

text \<open>
  On a big-endian machine the 16-bit tables of \<open>crcspeed.c\<close> are zero, and the code of every buffer,
  from the usual start value, is 0.
\<close>

theorem crcspeed16_big_endian_is_zero:
  "crcspeed16native_init True fn = replicate 8 (replicate 256 0) \<and> crcspeed16native True (crcspeed16native_init True fn) 0 buf s = 0"
  using crcspeed16big_zero [of fn buf s] by (simp add: crcspeed16native_def crcspeed16native_init_def crcspeed16big_init_zero)

text \<open>
  C26. Glob matching decides the meaning of a pattern: for a pattern of at most 1000 stars, read once
  into its items, \<open>stringmatchlen\<close> ends and answers whether the items match the string, with the
  recursion, its nesting limit and \<open>skipLongerMatches\<close> out of sight. The empty string is matched by the
  empty pattern only, not by a star.
\<close>

theorem glob_decides_reference:
  assumes "stars p \<le> 1000" and "b \<noteq> 42"
  shows "stringmatchlen (Some b) p s nocase = Some (if s = [] then p = [] else gmatch nocase (pattern_items p) s)"
  by (rule stringmatchlen_ok [OF assms(2,1)])

theorem glob_decides_reference_witness:
  "stringmatchlen (Some 0) [97, 42, 99] [97, 98, 99] False = Some True"
proof -
  have "pattern_items [97, 42, 99] = [Single 97, Star, Single 99]"
    by (simp add: pattern_items.simps parse_item_def)
  moreover have "gmatch False [Single 97, Star, Single 99] [97, 98, 99]"
    by (auto simp: same_char_def intro!: exI [of _ 1])
  ultimately show ?thesis
    using glob_decides_reference [of "[97, 42, 99]" 0 "[97, 98, 99]" False] by (simp del: gmatch.simps)
qed

text \<open>
  C27. Slots of patterns are sound: when \<open>patternHashSlot\<close> names a slot, every key that the pattern
  matches is in that slot, and the slot is below 16384.
\<close>

theorem pattern_slot_sound:
  assumes "0 \<le> patternHashSlot p" and "stars p \<le> 1000" and "b \<noteq> 42" and "stringmatchlen (Some b) p key False = Some True"
  shows "uint (keyHashSlot key) = patternHashSlot p \<and> patternHashSlot p < 16384"
  using patternHashSlot_ok [OF assms] keyHashSlot_less [of key] by simp

theorem pattern_slot_sound_witness:
  "uint (keyHashSlot [123, 97, 125, 98]) = patternHashSlot [123, 97, 125, 42] \<and> patternHashSlot [123, 97, 125, 42] < 16384"
proof (rule pattern_slot_sound [of _ 0])
  have i: "pattern_items [123, 97, 125, 42] = [Single 123, Single 97, Single 125, Star]"
    by (simp add: pattern_items.simps parse_item_def)
  then show "stars [123, 97, 125, 42] \<le> 1000" by simp
  show "0 \<le> patternHashSlot [123, 97, 125, 42]"
    unfolding patternHashSlot_def
    by (subst pattern_loop.simps, simp, subst pattern_loop.simps, simp, subst pattern_loop.simps, simp)
  show "stringmatchlen (Some 0) [123, 97, 125, 42] [123, 97, 125, 98] False = Some True"
    using stringmatchlen_ok [of 0 "[123, 97, 125, 42]" "[123, 97, 125, 98]" False] i by (auto simp: same_char_def)
qed simp

text \<open>
  \<open>prefixmatch\<close> takes a star inside an unclosed class for a closing star: it accepts the prefix \<open>*\<close>
  for the pattern \<open>[*\<close>, although no longer string with that prefix need match. When the last item of
  the pattern is a star, an accepted prefix does match with anything after it.
\<close>

theorem prefixmatch_limits:
  "(prefixmatch (Some 0) [91, 42] [42] nocase = Some True \<and> stringmatchlen (Some 0) [91, 42] [42, 120] nocase = Some False) \<and>
   (stars p \<le> 1000 \<and> pattern_items p = is @ [Star] \<and> prefixmatch (Some 0) p s nocase = Some True \<longrightarrow>
    stringmatchlen (Some 0) p (s @ t) nocase = Some True)"
  using prefixmatch_class [of nocase] prefixmatch_ok [of 0 p "is" s nocase t] by (intro conjI impI; elim conjE) simp_all

theorem prefixmatch_limits_witness:
  "prefixmatch (Some 0) [97, 42] [97] False = Some True \<and> stringmatchlen (Some 0) [97, 42] ([97] @ [98, 99]) False = Some True"
proof -
  have i: "pattern_items [97, 42] = [Single 97] @ [Star]"
    by (simp add: pattern_items.simps parse_item_def)
  then have "stringmatchlen (Some 0) [97, 42] [97] False = Some True"
    using stringmatchlen_ok [of 0 "[97, 42]" "[97]" False] by (auto simp: same_char_def)
  then have p: "prefixmatch (Some 0) [97, 42] [97] False = Some True"
    by (auto simp: prefixmatch_def stringmatchlen_def)
  show ?thesis
    using prefixmatch_limits [of False "[97, 42]" "[Single 97]" "[97]" "[98, 99]"] p i by simp
qed

text \<open>
  C29. Round trip: \<open>ll2string\<close> of a 64-bit integer into 21 bytes or more writes its decimal form and a
  terminating zero, and \<open>string2ll\<close> of what it wrote gives the integer back.
\<close>

theorem ll_string_roundtrip:
  assumes "LLONG_MIN \<le> z" and "z \<le> LLONG_MAX" and "21 \<le> length dst"
  shows "\<exists>n dst'. ll2string dst z = Some (n, dst') \<and> dst' ! n = 0 \<and> length dst' = length dst \<and> string2ll (take n dst') = Some z"
proof -
  have "length (dec (nat (- z))) \<le> 19" "length (dec (nat z)) \<le> 19"
    using assms(1,2) by (intro length_dec_le [of _ 18, simplified]; auto simp: LLONG_MIN_def LLONG_MAX_def)+
  then have "length (dec_int z) < length dst"
    using assms(3) by (auto simp: dec_int_def)
  from ll2string_dec [OF assms(1,2) this] this show ?thesis
    using string2ll_iff [of "dec_int z" z] assms(1,2) by (simp add: nth_append)
qed

theorem ll_string_roundtrip_witness:
  "\<exists>n dst'. ll2string (replicate 21 0) (- 42) = Some (n, dst') \<and> dst' ! n = 0 \<and> length dst' = length (replicate 21 (0 :: u8)) \<and>
    string2ll (take n dst') = Some (- 42)"
  by (rule ll_string_roundtrip) (simp_all add: LLONG_MIN_def LLONG_MAX_def)

text \<open>
  \<open>string2ul_base16_async_signal_safe\<close> looks at the character behind the last one it is given: when
  the whole buffer is hexadecimal digits of a number below \<open>2^64\<close>, it reads past the end.
\<close>

theorem base16_reads_past_end:
  assumes "list_all is_hex src" and "hexval 0 src < 2 ^ 64"
  shows "string2ul_base16_async_signal_safe src (length src) = None"
  using base16_overread [of 0 src 0] assms by (simp add: string2ul_base16_async_signal_safe_def)

theorem base16_reads_past_end_witness: "string2ul_base16_async_signal_safe [49, 97] (length [49, 97 :: u8]) = None"
  by (rule base16_reads_past_end)
    (simp_all add: is_hex_def base_16_char_type_def safe_is_c_in_range_def ascii_to_dec_def)

text \<open>
  C31. Refinement: any sequence of insertions, deletions and lookups on an \<open>intset\<close> that starts empty
  returns what the same sequence returns on a mathematical set, whatever the widths in use and
  whatever fresh memory contains, as long as fewer than \<open>2^29\<close> operations are made.
\<close>

theorem intset_refines_set:
  assumes "\<forall>c \<in> set cs. in_range 8 (arg c)" and "length cs < 2 ^ 29"
  shows "impl_run (intsetAdd g) (intsetRemove g) intsetFind cs intsetNew = Some (set_run cs {})"
proof -
  have "intset_ok intsetNew" "intset_elems intsetNew = {}"
    using intset_okI [OF represents_new] represents_list [OF represents_new] by (auto simp: intset_elems_def)
  with iset.run_refines [of intsetNew cs g] assms show ?thesis by simp
qed

theorem intset_refines_set_witness:
  "impl_run (intsetAdd (\<lambda>_. 0)) (intsetRemove (\<lambda>_. 0)) intsetFind [Ins 7, Ins (- 100000), Has 7, Del 7, Has 7] intsetNew =
    Some [True, True, True, True, False]"
proof -
  have "\<forall>c \<in> set [Ins 7, Ins (- 100000), Has 7, Del 7, Has 7]. in_range 8 (arg c)" by (simp add: in_range_def)
  from intset_refines_set [OF this, of "\<lambda>_. 0"] show ?thesis by simp
qed

text \<open>
  C32. Well-formedness of untrusted bytes: what \<open>intsetValidateIntegrity\<close> accepts on a deep check, below
  half a gigabyte, is the serialised form of a well-formed \<open>intset\<close> with sorted elements.
\<close>

theorem intset_validate_sound:
  assumes "intsetValidateIntegrity p True = Some True" and "length p < 2 ^ 29"
  shows "intset_ok (intset_of_blob p) \<and> intset_blob (intset_of_blob p) = p"
  by (rule validate_sound [OF assms])

theorem intset_validate_sound_witness:
  "intset_ok (intset_of_blob [2, 0, 0, 0, 2, 0, 0, 0, 5, 0, 7, 0]) \<and>
   intset_blob (intset_of_blob [2, 0, 0, 0, 2, 0, 0, 0, 5, 0, 7, 0]) = [2, 0, 0, 0, 2, 0, 0, 0, 5, 0, 7, 0]"
proof (rule intset_validate_sound)
  show "intsetValidateIntegrity [2, 0, 0, 0, 2, 0, 0, 0, 5, 0, 7, 0] True = Some True" by code_simp
qed simp

text \<open>
  C33. \<open>listInsertNode\<close> with a fresh node returns and leaves a well-formed list in both directions, with
  the new value right after or right before the given node.
\<close>

theorem list_insert_correct:
  assumes "dlist h l (xs @ (c, w) # ys)" and "a \<noteq> 0" "a \<notin> addrs (xs @ (c, w) # ys)"
    and "length (xs @ (c, w) # ys) + 1 < 2 ^ 64"
  shows "\<exists>h' l'. listInsertNode a junk h l c v after = Some (Some (h', l')) \<and>
    dlist h' l' (if after then xs @ (c, w) # (a, v) # ys else xs @ (a, v) # (c, w) # ys)"
  by (rule insert_ok [OF assms])

theorem list_insert_correct_witness:
  "\<exists>h' l'. listInsertNode 32 \<lparr>node_prev = 1, node_next = 1, node_value = 0\<rparr>
      [16 \<mapsto> \<lparr>node_prev = 0, node_next = 0, node_value = 5 :: int\<rparr>] \<lparr>l_head = 16, l_tail = 16, l_len = 1\<rparr> 16 6 True = Some (Some (h', l')) \<and>
    dlist h' l' (if True then [] @ (16, 5) # (32, 6) # [] else [] @ (32, 6) # (16, 5) # [])"
  by (rule list_insert_correct) (simp_all add: dlist_def)

text \<open>
  C34. \<open>listDup\<close> of a list makes a copy of its own, in order, with each value duplicated by the list's
  method, hands nothing to the \<open>free\<close> method and leaves the original as it was; with no room for the header it
  returns NULL and changes nothing.
\<close>

theorem list_dup_correct:
  assumes "dlist h orig xs" and "distinct as" "0 \<notin> set as" "set as \<inter> addrs xs = {}" "length xs \<le> length as"
    and "\<forall>v \<in> snd ` set xs. dup_value dup v = Some (f v)"
  shows "(\<exists>h' copy. listDup True dup junk as h orig = Some (h', Some copy, []) \<and> dlist h' copy (zip as (map (f \<circ> snd) xs)) \<and> dlist h' orig xs) \<and>
    listDup False dup junk as h orig = Some (h, None, [])"
  using listDup_ok [OF assms] by (simp add: listDup_def listCreate_def)

theorem list_dup_correct_witness:
  "\<exists>h' copy. listDup True (Some Some) \<lparr>node_prev = 1, node_next = 1, node_value = 0\<rparr> [32]
      [16 \<mapsto> \<lparr>node_prev = 0, node_next = 0, node_value = 5 :: int\<rparr>] \<lparr>l_head = 16, l_tail = 16, l_len = 1\<rparr> = Some (h', Some copy, []) \<and>
    dlist h' copy (zip [32] (map ((\<lambda>v. v) \<circ> snd) [(16 :: addr, 5)])) \<and> dlist h' \<lparr>l_head = 16, l_tail = 16, l_len = 1\<rparr> [(16, 5)]"
  by (rule list_dup_correct [THEN conjunct1]) (simp_all add: dlist_def dup_value_def)

text \<open>
  C35. SHA-256 does not depend on how the message is cut: after \<open>sha256_init\<close>, any sequence of
  \<open>sha256_update\<close> calls and \<open>sha256_final\<close> give the digest of the padded concatenation.
\<close>

theorem sha256_any_pieces:
  assumes "\<forall>xs \<in> set xss. length xs < 2 ^ 32"
  shows "hash_feed sha256_update xss (sha256_init g) \<bind> sha256_final =
    Some (sha256_digest (md_state sha256_compress (ctx_state (sha256_init g)) (concat xss)))"
  by (rule sha256_pieces [OF assms])

theorem sha256_any_pieces_witness:
  "hash_feed sha256_update [[0x61], [0x62, 0x63]] (sha256_init (\<lambda>_. 0)) \<bind> sha256_final =
    Some [0xba, 0x78, 0x16, 0xbf, 0x8f, 0x01, 0xcf, 0xea, 0x41, 0x41, 0x40, 0xde, 0x5d, 0xae, 0x22, 0x23,
      0xb0, 0x03, 0x61, 0xa3, 0x96, 0x17, 0x7a, 0x9c, 0xb4, 0x10, 0xff, 0x61, 0xf2, 0x00, 0x15, 0xad]"
proof -
  have "\<forall>xs \<in> set [[0x61], [0x62, 0x63 :: u8]]. length xs < 2 ^ 32" by simp
  from sha256_any_pieces [OF this, of "\<lambda>_. 0"] show ?thesis
    by (simp only: concat.simps append.simps sha256_abc)
qed

text \<open>
  C36. The trace accounts for the heap: after every sequence of legal calls through the wrappers of the driver,
  over either allocator, the trace has one line for each call in order, releases of NULL apart; the counters, the
  requested bytes and the histogram are those recomputed from the trace, with the releases of NULL, which are
  counted but not traced, added to \<open>free_cnt\<close>; and, unless a reallocation has failed, the replay of the trace
  has the live objects of the heap, each with at least the bytes requested.
\<close>

theorem trace_accounts_for_heap:
  assumes "base_ok (os 0)"
  shows "(heap_run (2 ^ 32 - 23) (w_ops (ff_ops os)) (\<lambda>d. objs (heap d)) cs
        \<lparr>TS_AllocStat = zero_DataStat, trace_fp = Some [], heap = ff_init\<rparr> d \<longrightarrow>
      (\<exists>es. trace_fp d = Some es \<and> accounts cs es (TS_AllocStat d) (objs (heap d)))) \<and>
    (heap_run (2 ^ 63) (w_ops (seg_ops os)) (\<lambda>d. objs (heap d)) cs
        \<lparr>TS_AllocStat = zero_DataStat, trace_fp = Some [], heap = seg_init\<rparr> e \<longrightarrow>
      (\<exists>es. trace_fp e = Some es \<and> accounts cs es (TS_AllocStat e) (objs (heap e))))"
proof -
  have o: "objs ff_init = Map.empty" "objs seg_init = Map.empty"
    by (simp_all add: fun_eq_iff objs_def Heap_View.live_def heap_blocks_def ff_init_def seg_init_def)
  have "os_ok os ff_init" "os_ok os seg_init" using assms by (simp_all add: os_ok_def ff_init_def seg_init_def)
  then have ok: "ff_ok os ff_init" "seg_ok os seg_init"
    using ff_okI [OF ff_inv_init] seg_inv_init by (auto simp: seg_ok_def)
  show ?thesis
    using ff.trace_run [of os cs _ d] seg.trace_run [of os cs _ e] ok o by fastforce
qed

theorem trace_accounts_for_heap_witness:
  "\<exists>p d. heap_run (2 ^ 32 - 23) (w_ops (ff_ops demo_os)) (\<lambda>d. objs (heap d)) [Malloc 100, Free 0]
      \<lparr>TS_AllocStat = zero_DataStat, trace_fp = Some [], heap = ff_init\<rparr> d \<and>
    trace_fp d = Some [Ev_m 100 p] \<and> accounts [Malloc 100, Free 0] [Ev_m 100 p] (TS_AllocStat d) (objs (heap d)) \<and>
    free_cnt (TS_AllocStat d) = 1"
proof -
  obtain p st where M: "my_malloc demo_os 100 ff_init = Some (p, st)"
    using ff_demo_alloc by blast
  define d0 where "d0 = \<lparr>TS_AllocStat = zero_DataStat, trace_fp = Some [], heap = ff_init\<rparr>"
  define d1 where "d1 = fprintf_trace (Ev_m 100 p) (d0\<lparr>TS_AllocStat := count_malloc 100 (TS_AllocStat d0), heap := st\<rparr>)"
  define d2 where "d2 = d1\<lparr>TS_AllocStat := count_free (TS_AllocStat d1)\<rparr>"
  have 1: "do_call (w_ops (ff_ops demo_os)) (Malloc 100) d0 = Some d1"
    using M by (simp add: w_ops_def w_malloc_def ff_ops_def d0_def d1_def)
  have 2: "do_call (w_ops (ff_ops demo_os)) (Free 0) d1 = Some d2"
    by (simp add: w_ops_def w_free_def ff_ops_def my_free_null d2_def d1_def)
  have r1: "heap_run (2 ^ 32 - 23) (w_ops (ff_ops demo_os)) (\<lambda>d. objs (heap d)) ([] @ [Malloc 100]) d0 d1"
    by (rule run_snoc [OF run_nil call_step [OF _ 1]]) simp
  have r: "heap_run (2 ^ 32 - 23) (w_ops (ff_ops demo_os)) (\<lambda>d. objs (heap d)) (([] @ [Malloc 100]) @ [Free 0]) d0 d2"
    by (rule run_snoc [OF r1 call_step [OF _ 2]]) simp
  have t: "trace_fp d2 = Some [Ev_m 100 p]" "free_cnt (TS_AllocStat d2) = 1"
    by (simp_all add: d2_def d1_def d0_def fprintf_trace_def count_free_def count_malloc_def zero_DataStat_def)
  show ?thesis
    using trace_accounts_for_heap [of demo_os "[Malloc 100, Free 0]" d2 undefined, OF demo_base] r t unfolding d0_def by auto
qed

text \<open>
  C37. What the driver gives back: a run that gets past its options returns with every block and every file or
  directory handle released, except that it leaves the trace file open exactly where a trace was opened and the
  run then fails, for want of memory for the times or because a file does not parse. tree-sitter is assumed to
  write to the trace through the wrappers only, never to open or close it.
\<close>

theorem driver_releases_everything:
  assumes "main env args i d = Some (code, rep, i')" and "io.live i = 0" and "trace_fp d = None"
    and "parse_args args default_options empty_vec i = Some (Inr opts, v, j)" and "0 < iters opts" and "0 \<le> warmup opts"
    and "keeps_trace env (allocator opts)"
  shows "io.live i' = (if main_traces env opts v j d \<and> code \<noteq> 0 then 1 else 0)"
  using main_live [OF assms] by simp

lemma demo_parse_once: "parse_once demo_ts v d = Some (good, st, d') \<Longrightarrow> d' = d"
proof -
  have "count_nodes_and_errors demo_ts t w = Some (n, e, w') \<Longrightarrow> w' = w" for t w n e w'
    by (simp add: count_nodes_and_errors_def demo_ts_def count_loop.simps split: if_splits)
  then have "parse_files demo_ts ss s w = Some (g, s', w') \<Longrightarrow> w' = w" for ss s w g s' w'
    by (induction ss arbitrary: s w) (fastforce simp: bind_eq_Some_conv demo_ts_def)+
  then show "parse_once demo_ts v d = Some (good, st, d') \<Longrightarrow> d' = d"
    by (auto simp: parse_once_def demo_ts_def Let_def split: if_splits)
qed

theorem driver_releases_everything_witness:
  "\<exists>code rep i'. main demo_env [''--iters=1'', ''--warmup=0''] \<lparr>alloc_fail = [], live = 0\<rparr> demo_driver = Some (code, rep, i') \<and> io.live i' = 0"
proof -
  have m: "main demo_env [''--iters=1'', ''--warmup=0''] \<lparr>alloc_fail = [], live = 0\<rparr> demo_driver \<noteq> None" by code_simp
  then obtain code rep i' where m: "main demo_env [''--iters=1'', ''--warmup=0''] \<lparr>alloc_fail = [], live = 0\<rparr> demo_driver = Some (code, rep, i')"
    by auto
  have a: "parse_args [''--iters=1'', ''--warmup=0''] default_options empty_vec \<lparr>alloc_fail = [], live = 0\<rparr> =
      Some (Inr (default_options\<lparr>iters := 1, warmup := 0\<rparr>), empty_vec, \<lparr>alloc_fail = [], live = 0\<rparr>)"
    by code_simp
  have "keeps_trace demo_env mode" for mode
    unfolding keeps_trace_def by (auto simp: demo_env_def dest: demo_parse_once)
  moreover have "\<not> main_traces demo_env (default_options\<lparr>iters := 1, warmup := 0\<rparr>) empty_vec j demo_driver" for j
    by (simp add: main_traces_def trace_opened_def default_options_def split: prod.split sum.split)
  ultimately show ?thesis
    using driver_releases_everything [OF m _ _ a] m by (simp add: demo_driver_def)
qed

text \<open>
  C38. A Fenwick tree of at most \<open>2^29\<close> counters that represents an array, updated at one position by a \<open>delta\<close> above
  the least \<open>long long\<close>, represents the updated array: every prefix sum is the sum of the elements, and a search finds
  the first index whose prefix sum reaches the target. The indices stay inside \<open>int\<close> and no assertion fails, those of
  a debug build included.
\<close>

theorem fenwick_update_correct:
  assumes "fw_ok ft a" and "p < length a" and "int (a ! p) + delta = int v" and "sum_list (a[p := v]) < 2 ^ 64"
    and "- (2 ^ 63) < delta"
  shows "\<exists>ft'. fwTreeUpdate debug ft (int p) delta = Some ft' \<and> fw_ok ft' (a[p := v]) \<and>
    (\<forall>i. fwTreePrefixSum ft' (int i) = Some (of_nat (psum (a[p := v]) (i + 1)))) \<and>
    (\<forall>target. 0 < target \<and> target \<le> sum_list (a[p := v]) \<longrightarrow>
      (\<exists>j. fwTreeFindIndex ft' (of_nat target) = Some (int j) \<and> psum (a[p := v]) j < target \<and> target \<le> psum (a[p := v]) (j + 1)))"
proof -
  obtain ft' where "fwTreeUpdate debug ft (int p) delta = Some ft'" and ft': "fw_ok ft' (a[p := v])"
    using update_ok [OF assms] by blast
  moreover have "fwTreePrefixSum ft' (int i) = Some (of_nat (psum (a[p := v]) (i + 1)))" for i
    using prefix_sum_ok [OF ft', of "int i"] by simp
  moreover have "\<exists>j. fwTreeFindIndex ft' (of_nat target) = Some (int j) \<and> psum (a[p := v]) j < target \<and> target \<le> psum (a[p := v]) (j + 1)"
    if "0 < target" "target \<le> sum_list (a[p := v])" for target
    using find_index_ok [OF ft' that] by auto
  ultimately show ?thesis by blast
qed

theorem fenwick_update_correct_witness:
  "\<exists>ft ft'. fwTreeCreate 2 = Some ft \<and> fwTreeUpdate True ft (int 1) 5 = Some ft' \<and> fw_ok ft' ([0, 0, 0, 0][1 := 5]) \<and>
    (\<forall>i. fwTreePrefixSum ft' (int i) = Some (of_nat (psum ([0, 0, 0, 0][1 := 5]) (i + 1))))"
proof -
  have "replicate (2 ^ 2) 0 = [0, 0, 0, 0 :: nat]" by (simp add: numeral_eq_Suc)
  then obtain ft where c: "fwTreeCreate 2 = Some ft" "fw_ok ft [0, 0, 0, 0]" using fw_ok_create [of 2] by auto
  have "\<exists>ft'. fwTreeUpdate True ft (int 1) 5 = Some ft' \<and> fw_ok ft' ([0, 0, 0, 0][1 := 5]) \<and>
    (\<forall>i. fwTreePrefixSum ft' (int i) = Some (of_nat (psum ([0, 0, 0, 0][1 := 5]) (i + 1)))) \<and>
    (\<forall>target. 0 < target \<and> target \<le> sum_list ([0, 0, 0, 0][1 := 5]) \<longrightarrow>
      (\<exists>j. fwTreeFindIndex ft' (of_nat target) = Some (int j) \<and> psum ([0, 0, 0, 0][1 := 5]) j < target \<and>
        target \<le> psum ([0, 0, 0, 0][1 := 5]) (j + 1)))"
    by (rule fenwick_update_correct [OF c(2)]) simp_all
  then show ?thesis using c(1) by blast
qed

text \<open>
  C39. Round trip: for every moment from 1970 to the last second of the year \<open>2^31 - 1\<close>, the last one whose number is an
  \<open>int\<close>, \<open>nolocks_localtime\<close> ends without overflow, with fields in their ranges that the Gregorian calendar, with its
  leap years counted by division, counts back to the moment, and with the right day of the week.
\<close>

theorem localtime_roundtrip:
  assumes "0 \<le> t - tz + 3600 * dst" and "t - tz + 3600 * dst < 86400 * days_to_year (2 ^ 31)" and "\<bar>3600 * dst\<bar> < 2 ^ 31"
  shows "\<exists>d. nolocks_localtime t tz dst = Some d \<and> tm_valid d \<and> timegm d = t - tz + 3600 * dst \<and>
    tm_wday d = (day_number d + 4) mod 7 \<and> tm_isdst d = dst"
  by (rule localtime_ok [OF assms])

theorem localtime_roundtrip_witness:
  "\<exists>d. nolocks_localtime 1704067199 (- 3600) 0 = Some d \<and> tm_valid d \<and> timegm d = 1704067199 - (- 3600) + 3600 * 0 \<and>
    tm_wday d = (day_number d + 4) mod 7 \<and> tm_isdst d = 0"
  by (rule localtime_roundtrip) (simp_all add: days_to_year_def leaps_until_def)

text \<open>
  C40. The traversal of a syntax tree ends back at the root, for every cursor that moves as tree-sitter
  documents. What it counts is not the number of nodes: every inner node is counted once more on the
  way up.
\<close>

theorem traversal_counts:
  assumes "cursor_api pos T goto_first_child goto_next_sibling goto_parent" and "pos c = []"
  shows "\<exists>c'. count_loop goto_first_child goto_next_sibling goto_parent True 0 c = Some (of_nat (nodes_of T + inner_of T), c') \<and> pos c' = []"
  using count_tree [OF assms] by (simp only: visits_eq)

theorem traversal_counts_witness:
  "\<exists>c'. count_loop (first_child (Node [Node [], Node []])) (next_sibling (Node [Node [], Node []])) (parent (Node [Node [], Node []])) True 0 [] =
    Some (of_nat (nodes_of (Node [Node [], Node []]) + inner_of (Node [Node [], Node []])), c') \<and> id c' = []"
  by (rule traversal_counts [where pos = id]) (simp_all add: cursor_api_def prod.map_id0)

section \<open>Listpacks and geohashes\<close>

lemma lp_repr_pack: "list_all lp_storable ss \<Longrightarrow> length ss < 65535 \<Longrightarrow> 7 + length (concat (map lp_entry ss)) < 2 ^ 32 \<Longrightarrow>
    lp_repr (lp_pack (length ss) (map lp_entry ss)) (map lp_entry ss)"
  using lp_rep_pack [of "map lp_entry ss" "length ss" "[]"]
  by (auto simp: lp_repr_def num_ok_def list_all_iff entry_ok_entry)

lemma lp_demo: "lp_repr (lp_pack 2 (map lp_entry [[97], [53]])) (map lp_entry [[97], [53]])"
  using lp_repr_pack [of "[[97], [53]]"] length_entry_le [of "[97]"] length_entry_le [of "[53]"]
  by (simp add: lp_storable_def flip: numeral_2_eq_2)

text \<open>
  C12. The functions of \<open>listpack.c\<close> that change one element are the list operations of their names, on
  the strings that the bytes represent, for any allocator that keeps its laws: appending, prepending,
  inserting before and after an element, replacing and deleting it. They never fault; the pointer they
  return is that of the new element, or of the one behind a deleted one; and they return \<open>NULL\<close> only when
  the listpack would need \<open>2^32\<close> bytes or a reallocation failed.
\<close>

theorem lp_updates_refine:
  assumes "lp_allocator A" and "lp_repr lp es" and "length s < 2 ^ 32" and "llong v"
  shows "(\<exists>r. lpAppend A lp s = Some r \<and> lp_becomes A (es @ [lp_entry s]) (lp_strings es @ [s]) (length es) r) \<and>
    (\<exists>r. lpAppendInteger A lp v = Some r \<and> lp_becomes A (es @ [lp_entry (dec_int v)]) (lp_strings es @ [dec_int v]) (length es) r) \<and>
    (\<exists>r. lpPrepend A lp s = Some r \<and> lp_becomes A (lp_entry s # es) (s # lp_strings es) 0 r) \<and>
    (\<forall>i < length es. let p = int (lp_off es i); xs = lp_strings es in
      (\<exists>r. lpInsertString A lp s p LP_BEFORE = Some r \<and> lp_becomes A (change_at es i i [lp_entry s]) (change_at xs i i [s]) i r) \<and>
      (\<exists>r. lpInsertString A lp s p LP_AFTER = Some r \<and>
        lp_becomes A (change_at es (Suc i) (Suc i) [lp_entry s]) (change_at xs (Suc i) (Suc i) [s]) (Suc i) r) \<and>
      (\<exists>r. lpReplace A lp p s = Some r \<and> lp_becomes A (change_at es i (Suc i) [lp_entry s]) (change_at xs i (Suc i) [s]) i r) \<and>
      (\<exists>r. lpDelete A lp p = Some r \<and> lp_becomes A (change_at es i (Suc i) []) (change_at xs i (Suc i) []) i r))"
  (is "?append \<and> ?append_int \<and> ?prepend \<and> (\<forall>i < _. ?at i)")
proof (intro conjI allI impI)
  note a = assms(1)
  obtain num where r: "lp_rep lp num es" using assms(2) by (auto simp: lp_repr_def)
  note s = ele_holds.str [OF assms(3)] and v = ele_holds.int [OF assms(4)]
  have v32: "length (dec_int v) < 2 ^ 32" using length_dec_int [OF assms(4)] by simp
  show ?append
    using lp_allocator.append_entry [OF a r s] becomes_change [of A es "length es" "length es" s] assms(3)
    by (auto simp: lpAppend_def change_at_def lp_strings_def)
  show ?append_int
    using lp_allocator.append_entry [OF a r v] becomes_change [of A es "length es" "length es" "dec_int v"] v32
    by (auto simp: lpAppendInteger_def lpInsertInteger_def change_at_def lp_strings_def)
  show ?prepend
    unfolding lpPrepend_def lpAppend_def using lp_allocator.prepend_entry [OF a r s] becomes_change [of A es 0 0 s] assms(3)
    by (auto simp: change_at_def)
  show "?at i" if "i < length es" for i
    using lp_allocator.insert_before [OF a r less_imp_le [OF that] s] lp_allocator.insert_after [OF a r that s]
      lp_allocator.insert_instead [OF a r that s] lp_allocator.delete_at [OF a r that] becomes_change [OF _ assms(3)] becomes_delete
    unfolding Let_def lpInsertString_def lpReplace_def by blast
qed

theorem lp_updates_refine_witness:
  "\<exists>lp' es' p. lpAppend (exact_heap (\<lambda>_. 0)) (lp_pack 2 (map lp_entry [[97], [53]])) [98] = Some (Some (lp', p)) \<and>
    lp_repr lp' es' \<and> lp_strings es' = lp_strings (map lp_entry [[97], [53]]) @ [[98]]"
proof -
  have "length (concat (map lp_entry [[97], [53]] @ [lp_entry [98]])) < 2 ^ 31"
    using length_entry_le [of "[97]"] length_entry_le [of "[53]"] length_entry_le [of "[98]"] by simp
  moreover have "lp_realloc (exact_heap (\<lambda>_. 0)) bs n \<noteq> None" for bs n by (simp add: exact_heap_def)
  ultimately show ?thesis
    using lp_updates_refine [OF exact.lp_allocator_axioms lp_demo, of "[98]" 0 "\<lambda>_. 0"]
    by (auto simp: lp_becomes_def lp_outcome_def llong_def LLONG_MIN_def LLONG_MAX_def split: option.splits)
qed

text \<open>
  C13. Reading a listpack: the first and last pointer, the steps forward and backward, the element at a
  pointer, the number of elements, the element at an index, negative ones counted from the end, and the
  search with its skips (which ends) return what the list of strings says, without a failed assertion or
  an access outside the bytes.
\<close>

theorem lp_traversal_correct:
  assumes "lp_repr lp es"
  shows "lpFirst lp = Some (lp_ptr es 0) \<and> lpLast lp = Some (if es = [] then None else lp_ptr es (length es - 1)) \<and>
    (\<forall>i < length es. let p = int (lp_off es i) in
      lpNext lp p = Some (lp_ptr es (Suc i)) \<and> lpPrev lp p = Some (if i = 0 then None else lp_ptr es (i - 1)) \<and>
      got_string lp (lpGet lp p None) = Some (lp_strings es ! i)) \<and>
    (\<exists>lp'. lpLength lp = Some (w32 (length es), lp') \<and> lp_repr lp' es) \<and>
    (\<forall>index. lpSeek lp index = Some (lp_index es index)) \<and>
    (\<forall>s skip. lpFind lp None s skip = Some (found_ptr es (find_pos (lp_strings es) s skip 0)))"
proof -
  obtain num where r: "lp_rep lp num es" using assms by (auto simp: lp_repr_def)
  have "\<exists>lp'. lpLength lp = Some (w32 (length es), lp') \<and> lp_repr lp' es" using lp_length [OF r] by (auto simp: lp_repr_def)
  moreover have "lpPrev lp (int (lp_off es i)) = Some (if i = 0 then None else lp_ptr es (i - 1))" if "i < length es" for i
    using lp_prev [OF r, of i] that by simp
  ultimately show ?thesis
    unfolding Let_def using lp_first [OF r] lp_last [OF r] lp_next(1) [OF r] lp_get [OF r] lp_seek [OF r] lp_find_first [OF r] by blast
qed

theorem lp_traversal_correct_witness:
  "lpSeek (lp_pack 2 (map lp_entry [[97], [53]])) (- 1) = Some (lp_index (map lp_entry [[97], [53]]) (- 1)) \<and>
   lpFind (lp_pack 2 (map lp_entry [[97], [53]])) None [53] 0 =
     Some (found_ptr (map lp_entry [[97], [53]]) (find_pos (lp_strings (map lp_entry [[97], [53]])) [53] 0 0))"
  using lp_traversal_correct [OF lp_demo] by blast

text \<open>
  C14. \<open>lpValidateIntegrity\<close> on arbitrary bytes of at least \<open>sz\<close> never reads outside them, at any depth and
  with any callback, and it accepts every listpack that represents a list.
\<close>

theorem lp_validate_safe:
  "(uint sz \<le> int (length lp) \<longrightarrow> (\<exists>r. lpValidateIntegrity lp sz deep entry_cb u = Some r)) \<and>
   (lp_repr lp es \<and> length lp = 7 + length (concat es) \<longrightarrow> lpValidateIntegrity lp (w64 (length lp)) deep None u' = Some True)"
  using integrity_returns [of sz lp deep entry_cb u] integrity_rep [of lp _ es deep u'] by (auto simp: lp_repr_def)

theorem lp_validate_safe_witness:
  "(\<exists>r. lpValidateIntegrity [255, 255, 255, 255, 0, 0, 240, 255] 8 True (Some (\<lambda>u p n. (True, Suc u))) 0 = Some r) \<and>
   lpValidateIntegrity (lp_pack 2 (map lp_entry [[97], [53]])) (w64 (length (lp_pack 2 (map lp_entry [[97], [53]])))) True None () = Some True"
  using lp_validate_safe [of 8 "[255, 255, 255, 255, 0, 0, 240, 255]" True "Some (\<lambda>u p n. (True, Suc u))" 0 "[]" "()"]
    lp_validate_safe [of 0 "lp_pack 2 (map lp_entry [[97], [53]])" True None "()" "map lp_entry [[97], [53]]" "()"] lp_demo
  by (simp add: length_pack)

text \<open>
  C25. What the deep check accepts is a header, entries one after the other and the terminator, with a
  right number of elements. Every entry is well formed, or is the empty string with the length byte
  \<open>0x81\<close>, which the code never writes; without such an entry the bytes represent a list.
\<close>

theorem lp_validate_sound:
  assumes "lpValidateIntegrity lp (w64 (length lp)) True None u = Some True" and "length lp < 2 ^ 64"
  shows "\<exists>num es. lp = lp_pack num es \<and> num_ok num es \<and> (\<forall>e \<in> set es. entry_ok e \<or> e = [0x80, 0x81]) \<and>
    ([0x80, 0x81] \<notin> set es \<longrightarrow> lp_repr lp es)"
proof -
  obtain num es where es: "lp = lp_pack num es" "num_ok num es" "7 + length (concat es) < 2 ^ 32" "list_all (\<lambda>e. entry_ok e \<or> e = [0x80, 0x81]) es"
    using integrity_sound [OF assms] by blast
  have "lp_rep (lp_pack num es @ []) num es" if "[0x80, 0x81] \<notin> set es"
    using es that by (intro lp_rep_pack) (auto simp: list_all_iff)
  then show ?thesis using es by (auto simp: list_all_iff lp_repr_def)
qed

theorem lp_validate_sound_witness:
  "lpValidateIntegrity lp_pending (w64 (length lp_pending)) True None () = Some True \<and>
   (\<exists>num es. lp_pending = lp_pack num es \<and> (\<forall>e \<in> set es. entry_ok e \<or> e = [0x80, 0x81]))"
proof -
  have "length lp_pending = 9" by (simp add: lp_pending_def length_pack)
  then have "lpValidateIntegrity lp_pending (w64 (length lp_pending)) True None () = Some True"
    using pending_accepted by (simp add: w64_numeral)
  with lp_validate_sound [OF this] \<open>length lp_pending = 9\<close> show ?thesis by auto
qed

text \<open>
  C28. Deleting a range by index removes exactly the elements of the range. Joining two listpacks concatenates
  them, in the place of the larger one, and the other argument becomes null; with a null argument, or the same
  listpack twice, nothing is done and null is returned. A batch of fewer than \<open>2^32\<close> entries is appended as if one by
  one.
\<close>

theorem lp_bulk_correct:
  assumes "lp_allocator A" and "\<not> realloc_fails A" and "lp_repr lp es" and "lp_repr second es2"
  shows "(\<exists>lp'. lpDeleteRange A lp index n = Some (Some lp') \<and> lp_repr lp' (without_range es index (unat n))) \<and>
    (7 + length (concat (es @ es2)) < 2 ^ 32 - 1 \<longrightarrow>
      (\<exists>lp'. lpMerge A False (Some lp) (Some second) =
          Some (Some lp', if length (concat es2) \<le> length (concat es) then (Some lp', None) else (None, Some lp')) \<and>
        lp_repr lp' (es @ es2))) \<and>
    lpMerge A True (Some lp) (Some lp) = Some (None, Some lp, Some lp) \<and>
    lpMerge A same None b = Some (None, None, b) \<and> lpMerge A same b None = Some (None, b, None) \<and>
    (batch \<noteq> [] \<and> list_all batch_ok batch \<and> length (concat (batch_entries batch)) < 2 ^ 63 \<and> length batch < 2 ^ 32 \<longrightarrow>
      (\<exists>r. lpBatchAppend A lp batch = Some r \<and> lp_outcome A (es @ batch_entries batch) (length es + length batch - 1) r))"
proof -
  obtain num num2 where r: "lp_rep lp num es" "lp_rep second num2 es2" using assms(3,4) by (auto simp: lp_repr_def)
  have null: "lpMerge A True (Some lp) (Some lp) = Some (None, Some lp, Some lp)"
    "lpMerge A same None b = Some (None, None, b)" "lpMerge A same b None = Some (None, b, None)"
    by (cases b; simp add: lpMerge_def)+
  show ?thesis
    using lp_allocator.delete_range [OF assms(1) r(1), of index n] lp_allocator.merge [OF assms(1) r]
      lp_allocator.batch_append [OF assms(1) r(1), of batch] assms(2) null
    by blast
qed

theorem lp_bulk_correct_witness:
  "\<exists>lp'. lpDeleteRange (exact_heap (\<lambda>_. 0)) (lp_pack 2 (map lp_entry [[97], [53]])) (- 1) 1 = Some (Some lp') \<and>
    lp_repr lp' (without_range (map lp_entry [[97], [53]]) (- 1) 1)"
  using lp_bulk_correct [OF exact.lp_allocator_axioms _ lp_demo lp_demo, of "\<lambda>_. 0" "- 1" 1]
  by (simp add: realloc_fails_def exact_heap_def)

text \<open>
  C30. The eight neighbours of a geohash cell are the cells whose coordinates differ by one, modulo the
  size of the grid; stepping back from a neighbour returns to the cell; and the two coordinates are read
  back from the interleaved bits.
\<close>

theorem geohash_neighbours_correct:
  assumes "on_grid s lat" and "on_grid s lon"
  shows "let cell = (\<lambda>dy dx. geo_cell s (next_coord (unat s) dy lat) (next_coord (unat s) dx lon));
      n = \<lparr>north = cell 1 0, east = cell 0 1, west = cell 0 (- 1), south = cell (- 1) 0,
        north_east = cell 1 1, south_east = cell (- 1) 1, north_west = cell 1 (- 1), south_west = cell (- 1) (- 1)\<rparr>
    in geohashNeighbors (geo_cell s lat lon) = Some n \<and>
      map_option west (geohashNeighbors (east n)) = Some (geo_cell s lat lon) \<and>
      map_option south (geohashNeighbors (north n)) = Some (geo_cell s lat lon) \<and>
      map_option south_west (geohashNeighbors (north_east n)) = Some (geo_cell s lat lon) \<and>
      deinterleave64 (bits (geo_cell s lat lon)) = ucast lat OR push_bit 32 (ucast lon)"
proof -
  have on: "on_grid s (next_coord (unat s) d c)" if "on_grid s c" for c d using that by (rule on_grid_next)
  have return: "next_coord (unat s) (- 1) (next_coord (unat s) 1 c) = c" if "on_grid s c" for c using next_prev [OF that, of 1] by simp
  have stay: "next_coord (unat s) 0 c = c" for c by (simp add: next_coord_def)
  show ?thesis
    using assms by (simp add: geohashNeighbors_cells on return stay geo_cell_def [of s lat lon, THEN arg_cong [of _ _ bits]] deinterleave_interleave)
qed

theorem geohash_neighbours_correct_witness:
  "map_option north (geohashNeighbors (geo_cell 26 5 9)) = Some (geo_cell 26 (next_coord 26 1 5) (next_coord 26 0 9))"
  using geohash_neighbours_correct [of 26 5 9] by (simp add: on_grid_def Let_def)

end
